(* ===== verification/Prelude.thy ===== *)
theory Prelude
  imports Main "HOL-Library.Word" "HOL-Library.Multiset" "HOL-Library.Product_Lexorder"
begin

section \<open>Shared vocabulary of the development\<close>

text \<open>
  Machine integers keep their width: the source's \<open>u64\<close> is a \<open>64 word\<close>, \<open>u128\<close> a
  \<open>128 word\<close>, and so on, so that \<open>+\<close>, \<open>-\<close> and \<open>*\<close> wrap around as release-mode Rust does.
  \<open>usize\<close> indices and lengths are \<open>nat\<close>; the source's \<open>BigUint\<close> is \<open>nat\<close>.
  This theory models the integer methods of Rust's standard library that the source calls
  (\<open>checked_add\<close>, \<open>saturating_sub\<close>, \<open>div_ceil\<close>, \<open>try_from\<close>, ...), the \<open>?\<close> operator on
  \<open>Result\<close> values, and collects in \<open>unat_simps\<close> the equations that read each integer
  operation as an operation on \<open>nat\<close>.  Component proofs move to \<open>nat\<close> with that collection.
\<close>

subsection \<open>Integer types and their methods\<close>

type_synonym u8 = "8 word"
type_synonym u16 = "16 word"
type_synonym u32 = "32 word"
type_synonym u64 = "64 word"
type_synonym u128 = "128 word"

definition u_max :: "'a::len word" where
  "u_max = - 1"

definition checked_add :: "'a::len word \<Rightarrow> 'a word \<Rightarrow> 'a word option" where
  "checked_add a b = (if unat a + unat b < 2 ^ LENGTH('a) then Some (a + b) else None)"

definition checked_sub :: "'a::len word \<Rightarrow> 'a word \<Rightarrow> 'a word option" where
  "checked_sub a b = (if b \<le> a then Some (a - b) else None)"

definition checked_mul :: "'a::len word \<Rightarrow> 'a word \<Rightarrow> 'a word option" where
  "checked_mul a b = (if unat a * unat b < 2 ^ LENGTH('a) then Some (a * b) else None)"

definition saturating_add :: "'a::len word \<Rightarrow> 'a word \<Rightarrow> 'a word" where
  "saturating_add a b = (case checked_add a b of Some c \<Rightarrow> c | None \<Rightarrow> u_max)"

definition saturating_sub :: "'a::len word \<Rightarrow> 'a word \<Rightarrow> 'a word" where
  "saturating_sub a b = (if b \<le> a then a - b else 0)"

definition saturating_mul :: "'a::len word \<Rightarrow> 'a word \<Rightarrow> 'a word" where
  "saturating_mul a b = (case checked_mul a b of Some c \<Rightarrow> c | None \<Rightarrow> u_max)"

definition abs_diff :: "'a::len word \<Rightarrow> 'a word \<Rightarrow> 'a word" where
  "abs_diff a b = (if b \<le> a then a - b else b - a)"

text \<open>\<open>div_ceil\<close> as the library computes it: the quotient, plus one when a remainder is left.\<close>

definition div_ceil :: "'a::len word \<Rightarrow> 'a word \<Rightarrow> 'a word" where
  "div_ceil a b = (if a mod b = 0 then a div b else a div b + 1)"

definition clamp_word :: "'a::len word \<Rightarrow> 'a word \<Rightarrow> 'a word \<Rightarrow> 'a word" where
  "clamp_word x lo hi = (if x < lo then lo else if hi < x then hi else x)"

definition u64_to_u128 :: "u64 \<Rightarrow> u128" where
  "u64_to_u128 x = ucast x"

definition u128_to_u64 :: "u128 \<Rightarrow> u64" where
  "u128_to_u64 x = ucast x"

definition u64_try_from :: "u128 \<Rightarrow> u64 option" where
  "u64_try_from x = (if unat x < 2 ^ 64 then Some (ucast x) else None)"

subsection \<open>\<open>Result\<close> values\<close>

text \<open>\<open>Result<T, E>\<close> is \<open>'e + 't\<close>, the error on the left.\<close>

definition and_then :: "'e + 'a \<Rightarrow> ('a \<Rightarrow> 'e + 'b) \<Rightarrow> 'e + 'b" where
  "and_then r f = (case r of Inl e \<Rightarrow> Inl e | Inr x \<Rightarrow> f x)"

definition ok_or :: "'e \<Rightarrow> 'a option \<Rightarrow> 'e + 'a" where
  "ok_or e r = (case r of None \<Rightarrow> Inl e | Some x \<Rightarrow> Inr x)"

definition is_ok :: "'e + 'a \<Rightarrow> bool" where
  "is_ok r = (case r of Inl _ \<Rightarrow> False | Inr _ \<Rightarrow> True)"

named_theorems unat_simps "integer operations read as operations on nat"
named_theorems result_simps "unfolding of Result plumbing"

lemma and_then_simps [simp]:
  "and_then (Inl e) f = Inl e"
  "and_then (Inr x) f = f x"
  by (simp_all add: and_then_def)

lemma and_then_Inr_iff [result_simps]:
  "and_then r f = Inr y \<longleftrightarrow> (\<exists>x. r = Inr x \<and> f x = Inr y)"
  by (cases r) auto

lemma ok_or_simps [simp]:
  "ok_or e None = Inl e"
  "ok_or e (Some x) = Inr x"
  by (simp_all add: ok_or_def)

lemma ok_or_Inr_iff [result_simps]: "ok_or e r = Inr x \<longleftrightarrow> r = Some x"
  by (cases r) auto

lemma is_ok_simps [simp]: "\<not> is_ok (Inl e)" "is_ok (Inr x)"
  by (simp_all add: is_ok_def)

subsection \<open>Words read as natural numbers\<close>

lemma unat_lt: "unat (x :: 'a::len word) < 2 ^ LENGTH('a)"
  by (rule unsigned_less)

lemma unat_ucast_mod: "unat (ucast (x :: 'a::len word) :: 'b::len word) = unat x mod 2 ^ LENGTH('b)"
  by (simp add: unsigned_ucast_eq take_bit_eq_mod)

lemma unat_u_max [unat_simps]: "unat (u_max :: 'a::len word) = 2 ^ LENGTH('a) - 1"
  by (simp add: u_max_def unsigned_minus_1_eq_mask mask_eq_exp_minus_1)

lemma u_max_ge [simp]: "x \<le> (u_max :: 'a::len word)"
  by (simp add: u_max_def)

lemma unat_le_max: "unat (x :: 'a::len word) \<le> 2 ^ LENGTH('a) - 1"
  using unat_lt [of x] by linarith

lemma unat_add_exact:
  "unat a + unat b < 2 ^ LENGTH('a) \<Longrightarrow> unat (a + b :: 'a::len word) = unat a + unat b"
  by (simp add: unat_word_ariths)

lemma unat_sub_exact: "b \<le> a \<Longrightarrow> unat (a - b :: 'a::len word) = unat a - unat b"
  by (rule unat_sub)

lemma unat_mult_exact:
  "unat a * unat b < 2 ^ LENGTH('a) \<Longrightarrow> unat (a * b :: 'a::len word) = unat a * unat b"
  by (simp add: unat_word_ariths)

lemma unat_Suc_exact:
  "unat a + 1 < 2 ^ LENGTH('a) \<Longrightarrow> unat (a + 1 :: 'a::len word) = unat a + 1"
  using unat_add_exact [of a 1] by (simp add: unat_word_ariths)

lemma checked_add_Some_iff:
  "checked_add a b = Some c \<longleftrightarrow> unat (c :: 'a::len word) = unat a + unat b"
proof
  assume "checked_add a b = Some c"
  then show "unat c = unat a + unat b"
    by (auto simp: checked_add_def unat_add_exact split: if_splits)
next
  assume c: "unat c = unat a + unat b"
  then have "unat a + unat b < 2 ^ LENGTH('a)"
    using unat_lt [of c] by simp
  moreover from this c have "c = a + b"
    by (metis unat_add_exact word_unat_eq_iff)
  ultimately show "checked_add a b = Some c"
    by (simp add: checked_add_def)
qed

lemma checked_add_None_iff:
  "checked_add a (b :: 'a::len word) = None \<longleftrightarrow> 2 ^ LENGTH('a) \<le> unat a + unat b"
  by (simp add: checked_add_def not_less)

lemma checked_mul_Some_iff:
  "checked_mul a b = Some c \<longleftrightarrow> unat (c :: 'a::len word) = unat a * unat b"
proof
  assume "checked_mul a b = Some c"
  then show "unat c = unat a * unat b"
    by (auto simp: checked_mul_def unat_mult_exact split: if_splits)
next
  assume c: "unat c = unat a * unat b"
  then have "unat a * unat b < 2 ^ LENGTH('a)"
    using unat_lt [of c] by simp
  moreover from this c have "c = a * b"
    by (metis unat_mult_exact word_unat_eq_iff)
  ultimately show "checked_mul a b = Some c"
    by (simp add: checked_mul_def)
qed

lemma checked_mul_None_iff:
  "checked_mul a (b :: 'a::len word) = None \<longleftrightarrow> 2 ^ LENGTH('a) \<le> unat a * unat b"
  by (simp add: checked_mul_def not_less)

lemma checked_sub_Some_iff:
  "checked_sub a b = Some c \<longleftrightarrow> unat a = unat (c :: 'a::len word) + unat b"
proof
  assume "checked_sub a b = Some c"
  then show "unat a = unat c + unat b"
    by (auto simp: checked_sub_def unat_sub word_le_nat_alt split: if_splits)
next
  assume c: "unat a = unat c + unat b"
  then have "b \<le> a" by (simp add: word_le_nat_alt)
  moreover from this c have "c = a - b"
    by (metis add_diff_cancel_right' unat_sub word_unat_eq_iff)
  ultimately show "checked_sub a b = Some c"
    by (simp add: checked_sub_def)
qed

lemma checked_sub_None_iff: "checked_sub a b = None \<longleftrightarrow> a < b"
  by (auto simp: checked_sub_def)

lemmas checked_iffs =
  checked_add_Some_iff checked_add_None_iff checked_sub_Some_iff checked_sub_None_iff
  checked_mul_Some_iff checked_mul_None_iff

lemma unat_saturating_add [unat_simps]:
  "unat (saturating_add a b :: 'a::len word) = min (unat a + unat b) (2 ^ LENGTH('a) - 1)"
  by (simp add: saturating_add_def checked_add_def unat_u_max unat_add_exact min_def) arith

lemma unat_saturating_sub [unat_simps]:
  "unat (saturating_sub a b :: 'a::len word) = unat a - unat b"
  by (auto simp: saturating_sub_def unat_sub word_le_nat_alt)

lemma unat_saturating_mul [unat_simps]:
  "unat (saturating_mul a b :: 'a::len word) = min (unat a * unat b) (2 ^ LENGTH('a) - 1)"
  by (cases "unat a * unat b < 2 ^ LENGTH('a)")
    (simp_all add: saturating_mul_def checked_mul_def unat_u_max unat_mult_exact)

lemma unat_abs_diff [unat_simps]:
  "unat (abs_diff a b :: 'a::len word) = (unat a - unat b) + (unat b - unat a)"
  by (auto simp: abs_diff_def unat_sub word_le_nat_alt)

lemma unat_min [unat_simps]: "unat (min a b :: 'a::len word) = min (unat a) (unat b)"
  by (auto simp: min_def word_le_nat_alt)

lemma unat_max [unat_simps]: "unat (max a b :: 'a::len word) = max (unat a) (unat b)"
  by (auto simp: max_def word_le_nat_alt)

lemma unat_clamp_word [unat_simps]:
  "unat (clamp_word x lo hi) =
     (if unat x < unat lo then unat lo else if unat hi < unat x then unat hi else unat x)"
  by (auto simp: clamp_word_def word_less_nat_alt)

lemma unat_div_ceil [unat_simps]:
  "unat (div_ceil a b :: 'a::len word) =
     (if unat a mod unat b = 0 then unat a div unat b else unat a div unat b + 1)"
proof (cases "a mod b = 0")
  case True
  then show ?thesis by (simp add: div_ceil_def unat_div unat_mod [symmetric])
next
  case False
  then have r: "unat a mod unat b \<noteq> 0" by (simp add: unat_mod [symmetric] unat_0_iff)
  have "unat (a div b) + 1 < 2 ^ LENGTH('a)"
  proof (cases "unat b \<le> 1")
    case True
    with r have "unat b = 0" by (cases "unat b") auto
    then have "unat (a div b) = 0" by (simp add: unat_div)
    moreover have "(1::nat) < 2 ^ LENGTH('a)" by (intro one_less_power) auto
    ultimately show ?thesis by simp
  next
    case False
    moreover have "0 < unat a" using r by (cases "unat a") auto
    ultimately have "unat a div unat b < unat a" by (intro div_less_dividend) auto
    then show ?thesis using unat_lt [of a] unfolding unat_div by linarith
  qed
  with False r show ?thesis
    by (simp add: div_ceil_def unat_Suc_exact unat_div)
qed

lemma unat_u64_to_u128 [unat_simps]: "unat (u64_to_u128 x) = unat x"
  using unat_lt [of x] by (simp add: u64_to_u128_def unat_ucast_mod)

lemma unat_u128_to_u64 [unat_simps]: "unat (u128_to_u64 x) = unat x mod 2 ^ 64"
  by (simp add: u128_to_u64_def unat_ucast_mod)

lemma u64_try_from_Some_iff: "u64_try_from x = Some y \<longleftrightarrow> unat y = unat x"
proof
  assume "u64_try_from x = Some y"
  then show "unat y = unat x"
    by (auto simp: u64_try_from_def unat_ucast_mod split: if_splits)
next
  assume y: "unat y = unat x"
  then have "unat x < 2 ^ 64"
    using unat_lt [of y] by simp
  moreover from this y have "y = ucast x"
    by (simp add: word_unat_eq_iff unat_ucast_mod)
  ultimately show "u64_try_from x = Some y"
    by (simp add: u64_try_from_def)
qed

lemma u64_try_from_None_iff: "u64_try_from x = None \<longleftrightarrow> 2 ^ 64 \<le> unat x"
  by (simp add: u64_try_from_def not_less)

text \<open>The product of two \<open>u64\<close> values is exact in \<open>u128\<close>.\<close>

lemma unat_wide_mult [unat_simps]:
  "unat (u64_to_u128 a * u64_to_u128 b) = unat a * unat b"
proof -
  have "unat a * unat b < 2 ^ 64 * 2 ^ 64"
    using unat_lt [of a] unat_lt [of b] by (intro mult_strict_mono) auto
  then show ?thesis
    by (intro trans [OF unat_mult_exact]) (simp_all add: unat_u64_to_u128)
qed

lemma unat_word_less [unat_simps]: "a < b \<longleftrightarrow> unat a < unat (b :: 'a::len word)"
  by (rule word_less_nat_alt)

lemma unat_word_le [unat_simps]: "a \<le> b \<longleftrightarrow> unat a \<le> unat (b :: 'a::len word)"
  by (rule word_le_nat_alt)

lemma unat_word_eq: "a = b \<longleftrightarrow> unat a = unat (b :: 'a::len word)"
  by (simp add: word_unat_eq_iff)

subsection \<open>Searching a list\<close>

text \<open>\<open>Iterator::position\<close>.\<close>

fun position_of :: "('a \<Rightarrow> bool) \<Rightarrow> 'a list \<Rightarrow> nat option" where
  "position_of P [] = None"
| "position_of P (x # xs) = (if P x then Some 0 else map_option Suc (position_of P xs))"

lemma position_of_map: "position_of P (map f xs) = position_of (\<lambda>x. P (f x)) xs"
  by (induction xs) simp_all

lemma position_of_Some:
  "position_of P xs = Some i \<Longrightarrow> i < length xs \<and> P (xs ! i) \<and> (\<forall>j<i. \<not> P (xs ! j))"
  by (induction xs arbitrary: i) (auto simp: nth_Cons split: if_splits nat.splits)

lemma position_of_None: "position_of P xs = None \<longleftrightarrow> (\<forall>x\<in>set xs. \<not> P x)"
  by (induction xs) auto

end
