(* ===== verification/Events.thy ===== *)
theory Events
  imports Prelude
begin

section \<open>Canonical event records\<close>

text \<open>
  \<open>executor/src/event.rs\<close> and the dispatch table of \<open>executor/src/model.rs\<close>.  The newtypes
  \<open>NodeId\<close>, \<open>LinkId\<close>, \<open>FlowId\<close> and \<open>PayloadId\<close> are their \<open>u64\<close>.  \<open>event_key\<close> carries the derived
  \<open>Ord\<close> of the source, lexicographic in declaration order, as a \<open>linorder\<close> instance.
\<close>

type_synonym node_id = u64
type_synonym link_id = u64
type_synonym flow_id = u64
type_synonym payload_id = u64

record event_key =
  key_time_ns :: u64
  key_phase :: u16
  key_origin_node :: node_id
  key_origin_seq :: u64

datatype event_kind =
    PacketArrival | TxReady | TxComplete | RemoteArrival | RetransmissionTimeout | PacingTimer

datatype event_fel_class_t = Channel | Service | Generator | FallbackHeap

record event =
  ev_key :: event_key
  ev_target :: node_id
  ev_kind :: event_kind
  ev_payload :: payload_id

text \<open>The derived lexicographic order, extended over the record's \<open>more\<close> part.\<close>

definition key_tuple :: "'a event_key_scheme \<Rightarrow> u64 \<times> u16 \<times> u64 \<times> u64 \<times> 'a" where
  "key_tuple k =
     (key_time_ns k, key_phase k, key_origin_node k, key_origin_seq k, event_key.more k)"

lemma key_tuple_inject: "key_tuple a = key_tuple b \<longleftrightarrow> a = b"
  by (auto simp: key_tuple_def intro: event_key.equality)

instantiation event_key_ext :: (linorder) linorder
begin

definition less_eq_event_key_ext :: "'a event_key_scheme \<Rightarrow> 'a event_key_scheme \<Rightarrow> bool" where
  "less_eq_event_key_ext a b \<longleftrightarrow> key_tuple a \<le> key_tuple b"

definition less_event_key_ext :: "'a event_key_scheme \<Rightarrow> 'a event_key_scheme \<Rightarrow> bool" where
  "less_event_key_ext a b \<longleftrightarrow> key_tuple a < key_tuple b"

instance
  by standard
    (auto simp: less_eq_event_key_ext_def less_event_key_ext_def key_tuple_inject
      dest: order_antisym)

end

lemma event_key_less_iff:
  "(a :: event_key) < b \<longleftrightarrow>
     key_time_ns a < key_time_ns b \<or> key_time_ns a = key_time_ns b \<and>
     (key_phase a < key_phase b \<or> key_phase a = key_phase b \<and>
     (key_origin_node a < key_origin_node b \<or> key_origin_node a = key_origin_node b \<and>
       key_origin_seq a < key_origin_seq b))"
  by (auto simp: less_event_key_ext_def key_tuple_def less_prod_def)

lemma event_key_le_iff: "(a :: event_key) \<le> b \<longleftrightarrow> a < b \<or> a = b"
  by auto

lemma event_key_le_time: "(a :: event_key) \<le> b \<Longrightarrow> key_time_ns a \<le> key_time_ns b"
  by (auto simp: event_key_le_iff event_key_less_iff)

definition from_node_sequence :: "node_id \<Rightarrow> u64 \<Rightarrow> u64 \<Rightarrow> payload_id option" where
  "from_node_sequence source node_count local_sequence =
     Option.bind (checked_add local_sequence 1) (\<lambda>_.
     Option.bind (checked_mul local_sequence node_count) (\<lambda>base.
     checked_add base source))"

fun event_fel_class :: "event_kind \<Rightarrow> event_fel_class_t" where
  "event_fel_class RemoteArrival = Channel"
| "event_fel_class TxReady = Service"
| "event_fel_class TxComplete = Service"
| "event_fel_class PacketArrival = Generator"
| "event_fel_class RetransmissionTimeout = FallbackHeap"
| "event_fel_class PacingTimer = FallbackHeap"

fun event_phase :: "event_kind \<Rightarrow> u16" where
  "event_phase PacketArrival = 0"
| "event_phase RemoteArrival = 0"
| "event_phase TxComplete = 1"
| "event_phase RetransmissionTimeout = 1"
| "event_phase PacingTimer = 1"
| "event_phase TxReady = 2"

definition is_same_time_tx_ready_continuation ::
  "event \<Rightarrow> event \<Rightarrow> node_id \<Rightarrow> event_key option \<Rightarrow> bool" where
  "is_same_time_tx_ready_continuation parent child local_node next_key \<longleftrightarrow>
     ev_kind parent = TxComplete
     \<and> ev_target child = local_node
     \<and> ev_kind child = TxReady
     \<and> key_time_ns (ev_key child) = key_time_ns (ev_key parent)
     \<and> key_phase (ev_key child) = event_phase TxReady
     \<and> (case next_key of None \<Rightarrow> True | Some k \<Rightarrow> ev_key child < k)"

subsection \<open>The closed dispatch table\<close>

datatype node_kind = Host | Switch

datatype transition_handler =
    HostPacketArrival | HostTxReady | HostTxComplete | HostRemoteArrival | SwitchTxReady
  | SwitchTxComplete | SwitchRemoteArrival | HostRetransmissionTimeout | HostPacingTimer

fun resolve_transition :: "node_kind \<Rightarrow> event_kind \<Rightarrow> transition_handler option" where
  "resolve_transition Host PacketArrival = Some HostPacketArrival"
| "resolve_transition Host TxReady = Some HostTxReady"
| "resolve_transition Host TxComplete = Some HostTxComplete"
| "resolve_transition Host RemoteArrival = Some HostRemoteArrival"
| "resolve_transition Host RetransmissionTimeout = Some HostRetransmissionTimeout"
| "resolve_transition Host PacingTimer = Some HostPacingTimer"
| "resolve_transition Switch PacketArrival = None"
| "resolve_transition Switch TxReady = Some SwitchTxReady"
| "resolve_transition Switch TxComplete = Some SwitchTxComplete"
| "resolve_transition Switch RemoteArrival = Some SwitchRemoteArrival"
| "resolve_transition Switch RetransmissionTimeout = None"
| "resolve_transition Switch PacingTimer = None"

subsection \<open>Facts about keys, phases and identities\<close>

lemma from_node_sequence_Some_iff:
  "from_node_sequence source n s = Some p \<longleftrightarrow>
     unat s + 1 < 2 ^ 64 \<and> unat p = unat s * unat n + unat source"
proof
  assume "from_node_sequence source n s = Some p"
  then obtain y :: u64 where y: "unat y = unat s + 1" and p: "unat p = unat s * unat n + unat source"
    by (auto simp: from_node_sequence_def bind_eq_Some_conv checked_iffs)
  have "unat s + 1 < 2 ^ 64" using unat_lt [of y] unfolding y by simp
  with p show "unat s + 1 < 2 ^ 64 \<and> unat p = unat s * unat n + unat source" by simp
next
  assume r: "unat s + 1 < 2 ^ 64 \<and> unat p = unat s * unat n + unat source"
  then have "unat s * unat n < 2 ^ 64" using unat_lt [of p] by simp
  then have m: "checked_mul s n = Some (s * n)" and u: "unat (s * n) = unat s * unat n"
    by (simp_all add: checked_mul_def unat_mult_exact)
  have "checked_add s 1 = Some (s + 1)" using r by (simp add: checked_add_def)
  moreover have "checked_add (s * n) source = Some p"
    unfolding checked_add_Some_iff u using r by simp
  ultimately show "from_node_sequence source n s = Some p"
    by (simp add: from_node_sequence_def m)
qed

lemma resolve_transition_None_iff:
  "resolve_transition nk ek = None \<longleftrightarrow>
     nk = Switch \<and> ek \<in> {PacketArrival, RetransmissionTimeout, PacingTimer}"
  by (cases nk; cases ek) auto

text \<open>
  Payload identities never collide: the identities that two nodes below the node count allocate
  are equal only for the same node and the same local sequence number.
\<close>

theorem from_node_sequence_inject:
  assumes "from_node_sequence a n i = Some p" and "from_node_sequence b n j = Some p"
    and "a < n" and "b < n"
  shows "a = b \<and> i = j"
proof -
  have eq: "unat i * unat n + unat a = unat j * unat n + unat b"
    using assms(1,2) by (simp add: from_node_sequence_Some_iff)
  have lt: "unat a < unat n" "unat b < unat n" using assms(3,4) by (simp_all add: unat_word_less)
  have "unat a = unat b" using arg_cong [OF eq, of "\<lambda>x. x mod unat n"] lt by simp
  moreover have "unat i = unat j" using arg_cong [OF eq, of "\<lambda>x. x div unat n"] lt by simp
  ultimately have "unat i = unat j" "unat a = unat b" by simp_all
  then show ?thesis by (simp add: word_unat_eq_iff)
qed

end
