(* ===== verification/Link_Time.thy ===== *)
theory Link_Time
  imports Events
begin

section \<open>Exact link time\<close>

text \<open>
  \<open>executor/src/time.rs\<close>, and the link and channel records of \<open>executor/src/image.rs\<close> that use it:
  the serialization interval \<open>ceil(8 * bytes * 10^9 / rate)\<close> computed in \<open>u128\<close>, the arrival
  time on a constant-rate link, and the lookahead \<open>min_delay_ns\<close> a channel declares.
\<close>

datatype time_error = ZeroRate | SerializationOverflow | ArrivalOverflow

definition bits_per_byte :: u128 where "bits_per_byte = 8"
definition nanos_per_second :: u128 where "nanos_per_second = 1000000000"

definition serialization_time_ns :: "u64 \<Rightarrow> u64 \<Rightarrow> time_error + u64" where
  "serialization_time_ns bytes rate_bps =
     (if rate_bps = 0 then Inl ZeroRate
      else
        let numerator = u64_to_u128 bytes * bits_per_byte * nanos_per_second;
            divisor = u64_to_u128 rate_bps;
            quotient = numerator div divisor;
            rounded = quotient + (if numerator mod divisor = 0 then 0 else 1)
        in ok_or SerializationOverflow (u64_try_from rounded))"

definition link_arrival_time_ns :: "u64 \<Rightarrow> u64 \<Rightarrow> u64 \<Rightarrow> u64 \<Rightarrow> time_error + u64" where
  "link_arrival_time_ns start_time_ns bytes rate_bps propagation_ns =
     and_then (serialization_time_ns bytes rate_bps) (\<lambda>serialization_ns.
       ok_or ArrivalOverflow
         (Option.bind (checked_add start_time_ns serialization_ns)
           (\<lambda>time_ns. checked_add time_ns propagation_ns)))"

record link_descriptor =
  link_id :: link_id
  link_source :: node_id
  link_target :: node_id
  link_rate_bps :: u64
  link_propagation_ns :: u64

definition delay_ns :: "link_descriptor \<Rightarrow> u64 \<Rightarrow> time_error + u64" where
  "delay_ns l bytes = link_arrival_time_ns 0 bytes (link_rate_bps l) (link_propagation_ns l)"

definition arrival_time_ns :: "link_descriptor \<Rightarrow> u64 \<Rightarrow> u64 \<Rightarrow> time_error + u64" where
  "arrival_time_ns l start_time_ns bytes =
     link_arrival_time_ns start_time_ns bytes (link_rate_bps l) (link_propagation_ns l)"

record remote_channel =
  chan_source :: node_id
  chan_target :: node_id
  chan_link :: link_id
  chan_event_kind :: event_kind
  chan_min_delay_ns :: u64

definition for_packet_link_to ::
  "link_descriptor \<Rightarrow> node_id \<Rightarrow> u64 \<Rightarrow> time_error + remote_channel" where
  "for_packet_link_to l target min_packet_size_bytes =
     and_then (delay_ns l min_packet_size_bytes) (\<lambda>d.
       Inr \<lparr>chan_source = link_source l, chan_target = target, chan_link = link_id l,
            chan_event_kind = RemoteArrival, chan_min_delay_ns = d\<rparr>)"

definition for_packet_link :: "link_descriptor \<Rightarrow> u64 \<Rightarrow> time_error + remote_channel" where
  "for_packet_link l min_packet_size_bytes =
     for_packet_link_to l (link_target l) min_packet_size_bytes"

subsection \<open>The interval is the exact ceiling\<close>

text \<open>The specification: the rounded-up quotient on \<open>nat\<close>.\<close>

definition ceil_div :: "nat \<Rightarrow> nat \<Rightarrow> nat" where
  "ceil_div n d = (if n mod d = 0 then n div d else n div d + 1)"

definition serialization_spec :: "u64 \<Rightarrow> u64 \<Rightarrow> nat" where
  "serialization_spec bytes rate = ceil_div (8 * 10 ^ 9 * unat bytes) (unat rate)"

lemma ceil_div_least:
  assumes "0 < d"
  shows "n \<le> ceil_div n d * d" and "n \<le> m * d \<Longrightarrow> ceil_div n d \<le> m"
proof -
  have n: "n = n div d * d + n mod d" by simp
  have "n mod d < d" using assms by simp
  with n have "n \<le> n div d * d + d" by linarith
  with n show "n \<le> ceil_div n d * d"
    by (auto simp: ceil_div_def)
  assume m: "n \<le> m * d"
  show "ceil_div n d \<le> m"
  proof (cases "n mod d = 0")
    case True
    then show ?thesis
      using m assms div_le_mono [OF m, of d] by (simp add: ceil_div_def)
  next
    case False
    then have "n div d * d < m * d" using n m by linarith
    then have "n div d < m" by simp
    with False show ?thesis by (simp add: ceil_div_def)
  qed
qed

lemma ceil_div_mono: "0 < d \<Longrightarrow> n \<le> n' \<Longrightarrow> ceil_div n d \<le> ceil_div n' d"
  using ceil_div_least(1) [of d n'] ceil_div_least(2) [of d n "ceil_div n' d"] by linarith

lemma ceil_div_le: "0 < d \<Longrightarrow> ceil_div n d \<le> n"
  using ceil_div_least(2) [of d n n] by (cases d) auto

lemma numerator_exact:
  "unat (u64_to_u128 bytes * bits_per_byte * nanos_per_second) = 8 * 10 ^ 9 * unat bytes"
proof -
  have b: "unat bytes < 2 ^ 64" using unat_lt [of bytes] by simp
  have 1: "unat (u64_to_u128 bytes * bits_per_byte) = unat bytes * 8"
    using b by (subst unat_mult_exact) (auto simp: bits_per_byte_def unat_u64_to_u128)
  show ?thesis
    using b by (subst unat_mult_exact) (auto simp: 1 nanos_per_second_def)
qed

lemma rounded_exact:
  fixes bytes rate :: u64
  assumes "rate \<noteq> 0"
  defines "n \<equiv> u64_to_u128 bytes * bits_per_byte * nanos_per_second"
  shows "unat (n div u64_to_u128 rate + (if n mod u64_to_u128 rate = 0 then 0 else 1)) =
     serialization_spec bytes rate"
proof -
  have r: "0 < unat rate" using assms(1) by (simp add: unat_gt_0)
  have n: "unat n = 8 * 10 ^ 9 * unat bytes" unfolding n_def by (rule numerator_exact)
  have small: "unat n + 1 < 2 ^ 128" using unat_lt [of bytes] by (simp add: n)
  have q: "unat (n div u64_to_u128 rate) = unat n div unat rate"
    by (simp add: unat_div unat_u64_to_u128)
  have z: "n mod u64_to_u128 rate = 0 \<longleftrightarrow> unat n mod unat rate = 0"
    by (metis unat_0_iff unat_mod unat_u64_to_u128)
  have "unat n div unat rate + 1 < 2 ^ 128"
    using small div_le_dividend [of "unat n" "unat rate"] by linarith
  then have "unat (n div u64_to_u128 rate + 1) = unat n div unat rate + 1"
    using unat_Suc_exact [of "n div u64_to_u128 rate", unfolded q] by simp
  then show ?thesis
    by (simp add: z q serialization_spec_def ceil_div_def n)
qed

lemma serialization_time_Inr_iff:
  "serialization_time_ns bytes rate = Inr t \<longleftrightarrow>
     rate \<noteq> 0 \<and> unat t = serialization_spec bytes rate"
  by (cases "rate = 0")
    (simp_all add: serialization_time_ns_def Let_def ok_or_Inr_iff u64_try_from_Some_iff
      rounded_exact)

lemma serialization_time_Inl_iff:
  "serialization_time_ns bytes rate = Inl e \<longleftrightarrow>
     (rate = 0 \<and> e = ZeroRate) \<or>
     (rate \<noteq> 0 \<and> 2 ^ 64 \<le> serialization_spec bytes rate \<and> e = SerializationOverflow)"
proof (cases "rate = 0")
  case False
  define x where "x = u64_try_from
    (u64_to_u128 bytes * bits_per_byte * nanos_per_second div u64_to_u128 rate +
      (if u64_to_u128 bytes * bits_per_byte * nanos_per_second mod u64_to_u128 rate = 0
       then 0 else 1))"
  have "serialization_time_ns bytes rate = ok_or SerializationOverflow x"
    using False by (simp add: serialization_time_ns_def Let_def x_def)
  moreover have "x = None \<longleftrightarrow> 2 ^ 64 \<le> serialization_spec bytes rate"
    unfolding x_def u64_try_from_None_iff rounded_exact [OF False] by simp
  ultimately show ?thesis
    using False by (cases x) auto
qed (auto simp: serialization_time_ns_def)

lemma link_arrival_Inr_iff:
  "link_arrival_time_ns start bytes rate prop = Inr t \<longleftrightarrow>
     rate \<noteq> 0 \<and> unat t = unat start + serialization_spec bytes rate + unat prop"
proof
  assume "link_arrival_time_ns start bytes rate prop = Inr t"
  then show "rate \<noteq> 0 \<and> unat t = unat start + serialization_spec bytes rate + unat prop"
    by (auto simp: link_arrival_time_ns_def result_simps bind_eq_Some_conv checked_iffs
        serialization_time_Inr_iff)
next
  assume r: "rate \<noteq> 0 \<and> unat t = unat start + serialization_spec bytes rate + unat prop"
  then have bound: "unat start + serialization_spec bytes rate + unat prop < 2 ^ 64"
    using unat_lt [of t] by simp
  define s :: u64 where "s = of_nat (serialization_spec bytes rate)"
  have s: "unat s = serialization_spec bytes rate"
    using bound by (simp add: s_def unat_of_nat)
  then have "serialization_time_ns bytes rate = Inr s"
    using r by (simp add: serialization_time_Inr_iff)
  moreover have "checked_add start s = Some (start + s)"
    using bound s by (simp add: checked_add_def)
  moreover have "unat (start + s) = unat start + serialization_spec bytes rate"
    using bound s by (simp add: unat_add_exact)
  moreover from r this have "checked_add (start + s) prop = Some t"
    by (simp add: checked_add_Some_iff)
  ultimately show "link_arrival_time_ns start bytes rate prop = Inr t"
    by (simp add: link_arrival_time_ns_def)
qed

lemma link_arrival_Inl_iff:
  "link_arrival_time_ns start bytes rate prop = Inl e \<longleftrightarrow>
     rate = 0 \<and> e = ZeroRate \<or>
     rate \<noteq> 0 \<and> 2 ^ 64 \<le> serialization_spec bytes rate \<and> e = SerializationOverflow \<or>
     rate \<noteq> 0 \<and> serialization_spec bytes rate < 2 ^ 64 \<and>
       2 ^ 64 \<le> unat start + serialization_spec bytes rate + unat prop \<and> e = ArrivalOverflow"
proof (cases "serialization_time_ns bytes rate")
  case (Inl e')
  then have "link_arrival_time_ns start bytes rate prop = Inl e'"
    by (simp add: link_arrival_time_ns_def)
  with Inl [unfolded serialization_time_Inl_iff] show ?thesis by auto
next
  case (Inr s)
  then have s: "rate \<noteq> 0" "unat s = serialization_spec bytes rate"
    by (simp_all add: serialization_time_Inr_iff)
  then have lt: "serialization_spec bytes rate < 2 ^ 64" using unat_lt [of s] by simp
  define x where "x = Option.bind (checked_add start s) (\<lambda>time_ns. checked_add time_ns prop)"
  have "link_arrival_time_ns start bytes rate prop = ok_or ArrivalOverflow x"
    using Inr by (simp add: link_arrival_time_ns_def x_def)
  moreover have "x = None \<longleftrightarrow> 2 ^ 64 \<le> unat start + serialization_spec bytes rate + unat prop"
    unfolding x_def checked_add_def s(2) [symmetric]
    by (auto simp: unat_add_exact Option.bind_eq_None_conv split: if_splits)
  ultimately show ?thesis
    using s(1) lt by (cases x) auto
qed

lemma serialization_spec_mono:
  "rate \<noteq> 0 \<Longrightarrow> unat b \<le> unat b' \<Longrightarrow> serialization_spec b rate \<le> serialization_spec b' rate"
  by (simp add: serialization_spec_def ceil_div_mono unat_gt_0)

subsection \<open>Properties\<close>

text \<open>
  C20. The arrival time on a link is exact on every branch: a zero rate, a serialization interval
  past 64 bits and an arrival past 64 bits are each reported by their own error; otherwise the
  result is the start plus the rounded-up serialization interval plus the propagation delay, with
  no wrap-around although the intermediate products need 128 bits.
\<close>

theorem link_arrival_exact:
  "link_arrival_time_ns start bytes rate prop =
     (let total = unat start + ceil_div (8 * 10 ^ 9 * unat bytes) (unat rate) + unat prop in
      if rate = 0 then Inl ZeroRate
      else if 2 ^ 64 \<le> ceil_div (8 * 10 ^ 9 * unat bytes) (unat rate) then Inl SerializationOverflow
      else if 2 ^ 64 \<le> total then Inl ArrivalOverflow
      else Inr (of_nat total))"
proof -
  define total where "total = unat start + serialization_spec bytes rate + unat prop"
  have "unat (of_nat total :: u64) = total" if "total < 2 ^ 64"
    using that by (simp add: unat_of_nat)
  then show ?thesis
    unfolding Let_def serialization_spec_def [symmetric]
    using link_arrival_Inl_iff [of start bytes rate "prop"]
      link_arrival_Inr_iff [of start bytes rate "prop" "of_nat total"]
    unfolding total_def [symmetric] by (auto simp: not_le)
qed

text \<open>
  C21. The lookahead a packet channel declares is safe: a packet of at least the declared minimum
  size that starts on the link at any time arrives no earlier than the start plus the channel's
  minimum delay, so an event exchanged between logical processes never lands inside the window.
\<close>

theorem channel_lookahead_sound:
  assumes "for_packet_link_to l target min_bytes = Inr ch"
    and "unat min_bytes \<le> unat bytes"
    and "arrival_time_ns l start bytes = Inr t"
  shows "unat start + unat (chan_min_delay_ns ch) \<le> unat t"
proof -
  obtain d where d: "delay_ns l min_bytes = Inr d" "chan_min_delay_ns ch = d"
    using assms(1) by (cases "delay_ns l min_bytes") (auto simp: for_packet_link_to_def)
  then have "link_rate_bps l \<noteq> 0"
    "unat d = serialization_spec min_bytes (link_rate_bps l) + unat (link_propagation_ns l)"
    by (simp_all add: delay_ns_def link_arrival_Inr_iff)
  moreover have "unat t = unat start + serialization_spec bytes (link_rate_bps l) + unat (link_propagation_ns l)"
    using assms(3) by (simp add: arrival_time_ns_def link_arrival_Inr_iff)
  ultimately show ?thesis
    using serialization_spec_mono [OF _ assms(2), of "link_rate_bps l"] d(2) by simp
qed

theorem channel_lookahead_sound_witness:
  "arrival_time_ns \<lparr>link_id = 7, link_source = 1, link_target = 2, link_rate_bps = 1000000000,
       link_propagation_ns = 10\<rparr> 100 126 = Inr 1118
   \<and> unat (100 :: u64) + unat (522 :: u64) \<le> unat (1118 :: u64)"
proof -
  let ?l = "\<lparr>link_id = 7, link_source = 1, link_target = 2, link_rate_bps = 1000000000, link_propagation_ns = 10\<rparr>"
  let ?c = "\<lparr>chan_source = 1, chan_target = 2, chan_link = 7, chan_event_kind = RemoteArrival,
    chan_min_delay_ns = 522\<rparr>"
  have "delay_ns ?l 64 = Inr 522"
    by (simp add: delay_ns_def link_arrival_Inr_iff serialization_spec_def ceil_div_def)
  then have "for_packet_link_to ?l 2 64 = Inr ?c" by (simp add: for_packet_link_to_def)
  moreover have "arrival_time_ns ?l 100 126 = Inr 1118"
    by (simp add: arrival_time_ns_def link_arrival_Inr_iff serialization_spec_def ceil_div_def)
  ultimately show ?thesis using channel_lookahead_sound [of ?l 2 64 ?c 126 100 1118] by simp
qed

end
