(* ===== verification/Exec_Error.thy ===== *)
theory Exec_Error
  imports Link_Time
begin

section \<open>Execution errors\<close>

text \<open>
  \<open>ExecutionError\<close> of \<open>executor/src/scalar.rs\<close>, constructor by constructor; struct variants list
  their fields in the source's order.
\<close>

datatype (plugins only: code size) execution_error =
    DuplicateEventKey event_key
  | UnknownNode node_id
  | InvalidStateSlot node_id node_kind u32
  | UnsupportedTransition node_id node_kind event_kind
  | UnknownLink link_id
  | LinkSourceMismatch link_id node_id node_id
  | UnknownPacket payload_id
  | DuplicatePayload payload_id
  | UnknownFlow flow_id
  | UnknownGenerator node_id flow_id
  | UnexpectedGeneratorEmission node_id flow_id payload_id
  | MissingTcpSegment flow_id u64
  | InconsistentTcpSegment flow_id u64 u64 u64
  | PayloadSequenceOverflow node_id
  | GeneratorTimeOverflow flow_id
  | FlowRouteMiss flow_id node_id
  | MissingSwitchQueue node_id "link_id option"
  | InvalidSchedulerState node_id
  | MissingWfqFinishTag node_id payload_id
  | NonMonotoneWfqTime node_id u64 u64
  | HostAlreadyTransmitting node_id
  | SwitchAlreadyTransmitting node_id link_id
  | UnexpectedTxComplete node_id "payload_id option" payload_id
  | CounterOverflow node_id
  | OriginSequenceOverflow node_id
  | NonPositiveLookahead
  | RemoteEventBeforeHorizon event_key u128
  | EventBelowHorizonAfterDrain event_key u128
  | InvalidCpuConfig string
  | WorkerFailed nat u64
  | WorkerPanicked nat
  | WorkerChannelDisconnected
  | OutboxCapacityExceeded node_id nat
  | NonMonotoneChild event_key event_key
  | SupersededTimerMissing node_id payload_id u64
  | InconsistentRocePacket flow_id payload_id
  | TimeFailure time_error

text \<open>\<open>impl From<TimeError> for ExecutionError\<close>: how \<open>?\<close> converts a link-time failure.\<close>

definition from_time_error :: "time_error + 'a \<Rightarrow> execution_error + 'a" where
  "from_time_error r = (case r of Inl e \<Rightarrow> Inl (TimeFailure e) | Inr x \<Rightarrow> Inr x)"

lemma from_time_error_Inr_iff [result_simps]: "from_time_error r = Inr x \<longleftrightarrow> r = Inr x"
  by (cases r) (auto simp: from_time_error_def)

end
