(* ===== verification/Exec_Monad.thy ===== *)
theory Exec_Monad
  imports Exec_Error
begin

section \<open>Fallible transitions on a state\<close>

text \<open>
  A method \<open>fn f(&mut self, ...) -> Result<T, ExecutionError>\<close> is a function from the state to
  \<open>None\<close>, when the code panics or does not return, or to \<open>Some (Inl e)\<close>, when it returns
  \<open>Err(e)\<close>, or to \<open>Some (Inr (x, s))\<close>, when it returns \<open>Ok(x)\<close> and leaves the state \<open>s\<close>.  The state
  after an error is not kept: every caller propagates the error and drops the state.

  \<open>keeps R m\<close> says that \<open>m\<close>, when it succeeds, relates its initial state to its final one by \<open>R\<close>.
  For a reflexive and transitive \<open>R\<close> it passes through sequencing, branching and loops, so that a
  handler inherits it from the operations it calls; the rules are collected in \<open>keeps_intros\<close>.
\<close>

type_synonym ('s, 'a) trans = "'s \<Rightarrow> (execution_error + 'a \<times> 's) option"

definition treturn :: "'a \<Rightarrow> ('s, 'a) trans" where
  "treturn x = (\<lambda>s. Some (Inr (x, s)))"

definition tfail :: "execution_error \<Rightarrow> ('s, 'a) trans" where
  "tfail e = (\<lambda>s. Some (Inl e))"

definition tpanic :: "('s, 'a) trans" where
  "tpanic = (\<lambda>s. None)"

definition tbind :: "('s, 'a) trans \<Rightarrow> ('a \<Rightarrow> ('s, 'b) trans) \<Rightarrow> ('s, 'b) trans" where
  "tbind m f = (\<lambda>s. case m s of
     None \<Rightarrow> None | Some (Inl e) \<Rightarrow> Some (Inl e) | Some (Inr (x, s')) \<Rightarrow> f x s')"

definition tthen :: "('s, 'a) trans \<Rightarrow> ('s, 'b) trans \<Rightarrow> ('s, 'b) trans" where
  "tthen m k = tbind m (\<lambda>_. k)"

text \<open>Reading and writing the state.\<close>

definition tgets :: "('s \<Rightarrow> 'a) \<Rightarrow> ('s, 'a) trans" where
  "tgets f = (\<lambda>s. Some (Inr (f s, s)))"

definition tmodify :: "('s \<Rightarrow> 's) \<Rightarrow> ('s, unit) trans" where
  "tmodify f = (\<lambda>s. Some (Inr ((), f s)))"

text \<open>A \<open>Result\<close> and an \<open>Option\<close> that do not touch the state: \<open>r?\<close>, \<open>o.ok_or(e)?\<close> and \<open>o.expect(..)\<close>.\<close>

definition tresult :: "execution_error + 'a \<Rightarrow> ('s, 'a) trans" where
  "tresult r = (case r of Inl e \<Rightarrow> tfail e | Inr x \<Rightarrow> treturn x)"

definition tok_or :: "execution_error \<Rightarrow> 'a option \<Rightarrow> ('s, 'a) trans" where
  "tok_or e r = (case r of None \<Rightarrow> tfail e | Some x \<Rightarrow> treturn x)"

definition texpect :: "'a option \<Rightarrow> ('s, 'a) trans" where
  "texpect r = (case r of None \<Rightarrow> tpanic | Some x \<Rightarrow> treturn x)"

text \<open>\<open>xs[i]\<close>, which panics out of range.\<close>

definition tindex :: "'a list \<Rightarrow> nat \<Rightarrow> ('s, 'a) trans" where
  "tindex xs i = (if i < length xs then treturn (xs ! i) else tpanic)"

definition twhen :: "bool \<Rightarrow> ('s, unit) trans \<Rightarrow> ('s, unit) trans" where
  "twhen b m = (if b then m else treturn ())"

text \<open>\<open>if let Some(x) = o { .. }\<close> and \<open>for x in xs { .. }\<close>.\<close>

definition tif_let :: "'a option \<Rightarrow> ('a \<Rightarrow> ('s, unit) trans) \<Rightarrow> ('s, unit) trans" where
  "tif_let r f = (case r of None \<Rightarrow> treturn () | Some x \<Rightarrow> f x)"

fun tfor :: "'a list \<Rightarrow> ('a \<Rightarrow> ('s, unit) trans) \<Rightarrow> ('s, unit) trans" where
  "tfor [] f = treturn ()"
| "tfor (x # xs) f = tthen (f x) (tfor xs f)"

lemmas trans_defs = treturn_def tfail_def tpanic_def tbind_def tthen_def tgets_def tmodify_def
  tresult_def tok_or_def texpect_def tindex_def twhen_def tif_let_def

lemma tbind_return [simp]: "tbind (treturn x) f = f x"
  by (simp add: trans_defs)

lemma tbind_tfail [simp]: "tbind (tfail e) f = tfail e"
  by (simp add: trans_defs)

lemma tbind_assoc: "tbind (tbind m f) g = tbind m (\<lambda>x. tbind (f x) g)"
  by (rule ext) (simp add: trans_defs split: option.splits sum.splits prod.splits)

lemma tbind_Inr_iff [result_simps]:
  "tbind m f s = Some (Inr r) \<longleftrightarrow> (\<exists>x s'. m s = Some (Inr (x, s')) \<and> f x s' = Some (Inr r))"
  by (auto simp: trans_defs split: option.splits sum.splits prod.splits)

subsection \<open>Relations kept by a transition\<close>

definition keeps :: "('s \<Rightarrow> 's \<Rightarrow> bool) \<Rightarrow> ('s, 'a) trans \<Rightarrow> bool" where
  "keeps R m \<longleftrightarrow> (\<forall>s x s'. m s = Some (Inr (x, s')) \<longrightarrow> R s s')"

named_theorems keeps_intros "relations kept by sequencing, branching and loops"

lemma keepsD: "keeps R m \<Longrightarrow> m s = Some (Inr (x, s')) \<Longrightarrow> R s s'"
  by (simp add: keeps_def)

text \<open>The relations of interest are preorders on states.\<close>

locale state_preorder =
  fixes R :: "'s \<Rightarrow> 's \<Rightarrow> bool"
  assumes refl: "R s s"
    and trans: "R s t \<Longrightarrow> R t u \<Longrightarrow> R s u"
begin

lemma keeps_return: "keeps R (treturn x)"
  by (simp add: keeps_def trans_defs refl)

lemma keeps_fail: "keeps R (tfail e)"
  by (simp add: keeps_def trans_defs)

lemma keeps_panic: "keeps R tpanic"
  by (simp add: keeps_def trans_defs)

lemma keeps_bind: "keeps R m \<Longrightarrow> (\<And>x. keeps R (f x)) \<Longrightarrow> keeps R (tbind m f)"
  unfolding keeps_def tbind_Inr_iff by (blast intro: trans)

lemma keeps_then: "keeps R m \<Longrightarrow> keeps R k \<Longrightarrow> keeps R (tthen m k)"
  unfolding tthen_def by (rule keeps_bind)

lemma keeps_gets: "keeps R (tgets f)"
  by (simp add: keeps_def trans_defs refl)

lemma keeps_result: "keeps R (tresult r)"
  by (cases r) (simp_all add: keeps_def trans_defs refl)

lemma keeps_ok_or: "keeps R (tok_or e r)"
  by (cases r) (simp_all add: keeps_def trans_defs refl)

lemma keeps_expect: "keeps R (texpect r)"
  by (cases r) (simp_all add: keeps_def trans_defs refl)

lemma keeps_index: "keeps R (tindex xs i)"
  by (simp add: keeps_def trans_defs refl)

lemma keeps_when: "(b \<Longrightarrow> keeps R m) \<Longrightarrow> keeps R (twhen b m)"
  by (cases b) (simp_all add: twhen_def keeps_return)

lemma keeps_if_let: "(\<And>x. r = Some x \<Longrightarrow> keeps R (f x)) \<Longrightarrow> keeps R (tif_let r f)"
  by (cases r) (simp_all add: tif_let_def keeps_return)

lemma keeps_for: "(\<And>x. x \<in> set xs \<Longrightarrow> keeps R (f x)) \<Longrightarrow> keeps R (tfor xs f)"
  by (induction xs) (simp_all add: keeps_return keeps_then)

lemma keeps_modify: "(\<And>s. R s (f s)) \<Longrightarrow> keeps R (tmodify f)"
  by (simp add: keeps_def trans_defs)

end

lemma keeps_if [keeps_intros]:
  "(b \<Longrightarrow> keeps R m) \<Longrightarrow> (\<not> b \<Longrightarrow> keeps R k) \<Longrightarrow> keeps R (if b then m else k)"
  by simp

lemma keeps_let [keeps_intros]: "(\<And>y. keeps R (f y)) \<Longrightarrow> keeps R (Let x f)"
  by (simp add: Let_def)

lemma keeps_case_option [keeps_intros]:
  "keeps R m \<Longrightarrow> (\<And>x. r = Some x \<Longrightarrow> keeps R (f x)) \<Longrightarrow> keeps R (case r of None \<Rightarrow> m | Some x \<Rightarrow> f x)"
  by (cases r) simp_all

lemma keeps_case_prod [keeps_intros]:
  "(\<And>x y. keeps R (f x y)) \<Longrightarrow> keeps R (case p of (x, y) \<Rightarrow> f x y)"
  by (cases p) simp

end
