(* ===== verification/Ordered_Map.thy ===== *)
theory Ordered_Map
  imports Prelude
begin

section \<open>Ordered maps and the keyed-store interface\<close>

text \<open>
  Rust's \<open>BTreeMap\<close> is a standard-library container; the model keeps what the source observes
  of it: the entries in strictly ascending key order.  An \<open>omap\<close> is that list of entries, with
  \<open>om_wf\<close> the ordering invariant; equal lookups give equal maps (\<open>om_ext\<close>), as for the real
  container.  The locale \<open>keyed_store\<close> is the contract every point-lookup store of the executor
  promises (insert, remove, get), which \<open>om\<close> interprets for ordered maps.  \<open>Packet_Store\<close> shows that
  the executors' packet store answers every history of operations as an ordered map does.
\<close>

type_synonym ('k, 'v) omap = "('k \<times> 'v) list"

definition om_wf :: "('k::linorder, 'v) omap \<Rightarrow> bool" where
  "om_wf m \<longleftrightarrow> sorted_wrt (<) (map fst m)"

definition om_get :: "('k, 'v) omap \<Rightarrow> 'k \<Rightarrow> 'v option" where
  "om_get m k = map_of m k"

fun om_insert :: "'k::linorder \<Rightarrow> 'v \<Rightarrow> ('k, 'v) omap \<Rightarrow> ('k, 'v) omap" where
  "om_insert k v [] = [(k, v)]"
| "om_insert k v (e # m) =
     (if k = fst e then (k, v) # m
      else if k < fst e then (k, v) # e # m
      else e # om_insert k v m)"

definition om_remove :: "'k \<Rightarrow> ('k, 'v) omap \<Rightarrow> ('k, 'v) omap" where
  "om_remove k m = filter (\<lambda>e. fst e \<noteq> k) m"

definition om_first :: "('k, 'v) omap \<Rightarrow> ('k \<times> 'v) option" where
  "om_first m = (case m of [] \<Rightarrow> None | e # _ \<Rightarrow> Some e)"

definition om_last :: "('k, 'v) omap \<Rightarrow> ('k \<times> 'v) option" where
  "om_last m = (if m = [] then None else Some (last m))"

text \<open>\<open>range(lo..=hi)\<close>, \<open>split_off(k)\<close> (the entries at or after \<open>k\<close>) and what it leaves.\<close>

definition om_range :: "'k::linorder \<Rightarrow> 'k \<Rightarrow> ('k, 'v) omap \<Rightarrow> ('k, 'v) omap" where
  "om_range lo hi m = filter (\<lambda>e. lo \<le> fst e \<and> fst e \<le> hi) m"

definition om_split_off :: "'k::linorder \<Rightarrow> ('k, 'v) omap \<Rightarrow> ('k, 'v) omap" where
  "om_split_off k m = filter (\<lambda>e. k \<le> fst e) m"

definition om_below :: "'k::linorder \<Rightarrow> ('k, 'v) omap \<Rightarrow> ('k, 'v) omap" where
  "om_below k m = filter (\<lambda>e. fst e < k) m"

definition om_values :: "('k, 'v) omap \<Rightarrow> 'v list" where
  "om_values m = map snd m"

named_theorems om_simps "lookups in updated ordered maps"

subsection \<open>The ordering invariant\<close>

lemma om_wf_simps [simp]:
  "om_wf []"
  "om_wf (e # m) \<longleftrightarrow> (\<forall>x \<in> set m. fst e < fst x) \<and> om_wf m"
  by (auto simp: om_wf_def)

lemma om_wf_filter: "om_wf m \<Longrightarrow> om_wf (filter P m)"
  by (induction m) auto

lemma set_om_insert: "x \<in> set (om_insert k v m) \<Longrightarrow> x = (k, v) \<or> x \<in> set m"
  by (induction m) (auto split: if_splits)

lemma om_wf_insert: "om_wf m \<Longrightarrow> om_wf (om_insert k v m)"
  by (induction m) (auto dest!: set_om_insert)

lemma om_wf_remove: "om_wf m \<Longrightarrow> om_wf (om_remove k m)"
  by (simp add: om_remove_def om_wf_filter)

lemma om_wf_distinct: "om_wf m \<Longrightarrow> distinct (map fst m)"
  by (induction m) auto

lemma om_get_insert [om_simps]:
  "om_wf m \<Longrightarrow> om_get (om_insert k v m) = (om_get m)(k \<mapsto> v)"
  by (induction m) (auto simp: om_get_def fun_eq_iff map_of_eq_None_iff dest: less_imp_neq)

lemma om_get_remove [om_simps]: "om_get (om_remove k m) = (om_get m)(k := None)"
  by (induction m) (auto simp: om_get_def om_remove_def fun_eq_iff)

lemma om_get_filter [om_simps]:
  "om_wf m \<Longrightarrow> om_get (filter (\<lambda>e. P (fst e)) m) k = (if P k then om_get m k else None)"
  by (induction m) (auto simp: om_get_def map_of_eq_None_iff dest: less_imp_neq)

lemma om_get_in_set: "om_wf m \<Longrightarrow> om_get m k = Some v \<longleftrightarrow> (k, v) \<in> set m"
  by (simp add: om_get_def om_wf_distinct)

lemma om_first_least:
  "om_wf m \<Longrightarrow> om_first m = Some (k, v) \<Longrightarrow> (k', v') \<in> set m \<Longrightarrow> k \<le> k'"
  by (cases m) (auto simp: om_first_def)

lemma om_last_greatest:
  "om_wf m \<Longrightarrow> om_last m = Some (k, v) \<Longrightarrow> (k', v') \<in> set m \<Longrightarrow> k' \<le> k"
proof (induction m)
  case (Cons e m)
  then show ?case
    by (cases "m = []") (auto simp: om_last_def dest!: last_in_set)
qed simp

text \<open>The entry list is determined by the lookups.\<close>

lemma om_ext:
  assumes "om_wf m" "om_wf m'" "om_get m = om_get m'"
  shows "m = m'"
proof -
  have "set m = set m'"
    using assms by (metis (no_types, opaque_lifting) om_get_in_set set_eqI surj_pair)
  then have "map fst m = map fst m'"
    using assms(1,2) by (intro strict_sorted_equal) (auto simp: om_wf_def)
  then have "length m = length m'" by (rule map_eq_imp_length_eq)
  moreover have "m ! i = m' ! i" if "i < length m" for i
  proof -
    have "fst (m ! i) = fst (m' ! i)"
      using \<open>map fst m = map fst m'\<close> that \<open>length m = length m'\<close> by (metis nth_map)
    moreover have "m ! i \<in> set m'" and "m' ! i \<in> set m'"
      using that \<open>length m = length m'\<close> \<open>set m = set m'\<close> by (metis nth_mem)+
    ultimately show ?thesis
      using om_wf_distinct [OF assms(2)] by (metis eq_key_imp_eq_value surjective_pairing)
  qed
  ultimately show ?thesis by (rule nth_equalityI)
qed

lemma om_ext_set:
  assumes "om_wf m" "om_wf m'" "set m = set m'"
  shows "m = m'"
proof (rule om_ext [OF assms(1,2)], rule ext)
  fix k
  have "om_get m k = Some v \<longleftrightarrow> om_get m' k = Some v" for v
    by (simp add: om_get_in_set assms)
  then show "om_get m k = om_get m' k" by (cases "om_get m' k") auto
qed

lemma mset_om_insert:
  "om_wf m \<Longrightarrow> om_get m k = None \<Longrightarrow> mset (om_insert k v m) = add_mset (k, v) (mset m)"
  by (induction m) (auto simp: om_get_def split: if_splits)

subsection \<open>The keyed-store contract\<close>

locale keyed_store =
  fixes sget :: "'m \<Rightarrow> 'k \<Rightarrow> 'v option"
    and sinsert :: "'k \<Rightarrow> 'v \<Rightarrow> 'm \<Rightarrow> 'm"
    and sremove :: "'k \<Rightarrow> 'm \<Rightarrow> 'm"
    and sempty :: 'm
    and sinv :: "'m \<Rightarrow> bool"
  assumes get_empty: "sget sempty k = None"
    and get_insert: "sinv m \<Longrightarrow> sget (sinsert k v m) k' = (if k' = k then Some v else sget m k')"
    and get_remove: "sinv m \<Longrightarrow> sget (sremove k m) k' = (if k' = k then None else sget m k')"
    and inv_empty: "sinv sempty"
    and inv_insert: "sinv m \<Longrightarrow> sinv (sinsert k v m)"
    and inv_remove: "sinv m \<Longrightarrow> sinv (sremove k m)"
begin

lemma insert_remove_lookup:
  "sinv m \<Longrightarrow> sget (sremove k (sinsert k v m)) k' = (if k' = k then None else sget m k')"
  by (simp add: get_insert get_remove inv_insert)

lemma fold_insert_inv: "sinv m \<Longrightarrow> sinv (fold (\<lambda>(k, v). sinsert k v) es m)"
  by (induction es arbitrary: m) (auto simp: inv_insert)

text \<open>Inserting a batch of entries answers as the last entry with the key.\<close>

lemma fold_insert_lookup:
  "sinv m \<Longrightarrow> sget (fold (\<lambda>(k, v). sinsert k v) es m) k =
     (case map_of (rev es) k of Some v \<Rightarrow> Some v | None \<Rightarrow> sget m k)"
proof (induction es arbitrary: m)
  case (Cons e es)
  then show ?case
    by (cases e) (auto simp: get_insert inv_insert map_add_def split: option.splits)
qed simp

end

interpretation om: keyed_store om_get om_insert om_remove "[]" om_wf
  by unfold_locales (auto simp: om_get_insert om_get_remove om_wf_insert om_wf_remove, simp add: om_get_def)

end
