(* ===== verification/Future_Events.thy ===== *)
theory Future_Events
  imports Exec_Error Ordered_Map
begin

section \<open>The future-event list\<close>

text \<open>
  \<open>executor/src/fel.rs\<close> and the superseded-timer removal of \<open>executor/src/scalar.rs\<close>.  Every event
  but a retransmission timeout lives in a binary heap; the timeouts live in an ordered map.  Of
  the standard library's \<open>BinaryHeap\<close> the model keeps its multiset of elements, as a list in the
  heap's unspecified layout; \<open>heap_peek\<close> and \<open>heap_pop\<close> take a least element.  The theory shows
  that the pair of containers refines one ordered map from keys to events (\<open>fe_abs\<close>), that no
  result depends on the heap's layout, and that both the list and the plain ordered map of the
  round executor meet the \<open>event_queue\<close> contract.
\<close>

record superseded_timer =
  st_target :: node_id
  st_payload :: payload_id
  st_deadline_ns :: u64

record future_events =
  fe_heap :: "event list"
  fe_timers :: "(event_key, event) omap"

subsection \<open>The heap\<close>

fun heap_peek :: "event list \<Rightarrow> event option" where
  "heap_peek [] = None"
| "heap_peek (e # es) =
     (case heap_peek es of None \<Rightarrow> Some e
      | Some m \<Rightarrow> Some (if ev_key e \<le> ev_key m then e else m))"

definition heap_pop :: "event list \<Rightarrow> event option \<times> event list" where
  "heap_pop h = (case heap_peek h of None \<Rightarrow> (None, h) | Some m \<Rightarrow> (Some m, remove1 m h))"

subsection \<open>Operations\<close>

definition fe_new :: future_events where
  "fe_new = \<lparr>fe_heap = [], fe_timers = []\<rparr>"

definition fe_insert :: "event \<Rightarrow> future_events \<Rightarrow> execution_error + future_events" where
  "fe_insert e q =
     (if ev_kind e = RetransmissionTimeout then
        (if om_get (fe_timers q) (ev_key e) \<noteq> None then Inl (DuplicateEventKey (ev_key e))
         else Inr (q\<lparr>fe_timers := om_insert (ev_key e) e (fe_timers q)\<rparr>))
      else Inr (q\<lparr>fe_heap := e # fe_heap q\<rparr>))"

definition fe_peek_key :: "future_events \<Rightarrow> event_key option" where
  "fe_peek_key q =
     (let queued = map_option ev_key (heap_peek (fe_heap q)) in
      if fe_timers q = [] then queued
      else
        let timer = map_option fst (om_first (fe_timers q)) in
        case (queued, timer) of
          (Some a, Some b) \<Rightarrow> Some (min a b)
        | (Some a, None) \<Rightarrow> Some a
        | (None, t) \<Rightarrow> t)"

definition fe_from_timers :: "future_events \<Rightarrow> bool" where
  "fe_from_timers q =
     (case om_first (fe_timers q) of
        None \<Rightarrow> False
      | Some (timer, _) \<Rightarrow>
          (case heap_peek (fe_heap q) of None \<Rightarrow> True | Some p \<Rightarrow> timer < ev_key p))"

definition fe_pop :: "future_events \<Rightarrow> execution_error + (event option \<times> future_events)" where
  "fe_pop q =
     (let (ev, q') =
        (if fe_from_timers q
         then (map_option snd (om_first (fe_timers q)), q\<lparr>fe_timers := tl (fe_timers q)\<rparr>)
         else (let (p, h) = heap_pop (fe_heap q) in (p, q\<lparr>fe_heap := h\<rparr>)))
      in case ev of
           None \<Rightarrow> Inr (None, q')
         | Some e \<Rightarrow>
             (if fe_peek_key q' = Some (ev_key e) then Inl (DuplicateEventKey (ev_key e))
              else Inr (Some e, q')))"

definition key_bounds :: "superseded_timer \<Rightarrow> event_key \<times> event_key" where
  "key_bounds t =
     (let lower = \<lparr>key_time_ns = st_deadline_ns t, key_phase = event_phase RetransmissionTimeout,
                   key_origin_node = st_target t, key_origin_seq = 0\<rparr>
      in (lower, lower\<lparr>key_origin_seq := u_max\<rparr>))"

definition timer_matches :: "superseded_timer \<Rightarrow> event \<Rightarrow> bool" where
  "timer_matches t e \<longleftrightarrow>
     ev_kind e = RetransmissionTimeout \<and> ev_target e = st_target t \<and> ev_payload e = st_payload t"

definition remove_superseded_timer ::
  "superseded_timer \<Rightarrow> (event_key, event) omap
     \<Rightarrow> execution_error + (event \<times> (event_key, event) omap)" where
  "remove_superseded_timer t events =
     (let (lower, upper) = key_bounds t in
      case find (\<lambda>kv. timer_matches t (snd kv)) (om_range lower upper events) of
        None \<Rightarrow> Inl (SupersededTimerMissing (st_target t) (st_payload t) (st_deadline_ns t))
      | Some (k, e) \<Rightarrow> Inr (e, om_remove k events))"

definition fe_remove_superseded_timer ::
  "superseded_timer \<Rightarrow> future_events \<Rightarrow> execution_error + (event \<times> future_events)" where
  "fe_remove_superseded_timer t q =
     and_then (remove_superseded_timer t (fe_timers q))
       (\<lambda>(e, timers). Inr (e, q\<lparr>fe_timers := timers\<rparr>))"

text \<open>\<open>count_below\<close>: the timer keys are counted by \<open>take_while\<close>, in key order.\<close>

definition below_horizon :: "u128 \<Rightarrow> event_key \<Rightarrow> bool" where
  "below_horizon horizon k \<longleftrightarrow> u64_to_u128 (key_time_ns k) < horizon"

definition fe_count_below :: "u128 \<Rightarrow> future_events \<Rightarrow> nat" where
  "fe_count_below horizon q =
     length (filter (\<lambda>e. below_horizon horizon (ev_key e)) (fe_heap q))
     + length (takeWhile (below_horizon horizon) (map fst (fe_timers q)))"

fun first_duplicate :: "event list \<Rightarrow> event_key option" where
  "first_duplicate (a # b # es) =
     (if ev_key a = ev_key b then Some (ev_key b) else first_duplicate (b # es))"
| "first_duplicate _ = None"

definition fe_into_sorted_vec :: "future_events \<Rightarrow> execution_error + event list" where
  "fe_into_sorted_vec q =
     (let events = sort_key ev_key (fe_heap q @ om_values (fe_timers q)) in
      case first_duplicate events of
        Some k \<Rightarrow> Inl (DuplicateEventKey k)
      | None \<Rightarrow> Inr events)"

subsection \<open>The abstraction: one ordered map\<close>

definition events_map :: "event list \<Rightarrow> (event_key, event) omap" where
  "events_map es = foldr (\<lambda>e. om_insert (ev_key e) e) es []"

definition fe_list :: "future_events \<Rightarrow> event list" where
  "fe_list q = fe_heap q @ om_values (fe_timers q)"

definition fe_abs :: "future_events \<Rightarrow> (event_key, event) omap" where
  "fe_abs q = events_map (fe_list q)"

definition fe_wf :: "future_events \<Rightarrow> bool" where
  "fe_wf q \<longleftrightarrow> om_wf (fe_timers q)
     \<and> (\<forall>kv \<in> set (fe_timers q).
          ev_key (snd kv) = fst kv \<and> ev_kind (snd kv) = RetransmissionTimeout)
     \<and> (\<forall>e \<in> set (fe_heap q). ev_kind e \<noteq> RetransmissionTimeout)"

definition fe_ok :: "future_events \<Rightarrow> bool" where
  "fe_ok q \<longleftrightarrow> fe_wf q \<and> distinct (map ev_key (fe_list q))"

lemma om_wf_events_map [simp]: "om_wf (events_map es)"
  unfolding events_map_def by (induction es) (simp_all add: om_wf_insert)

lemma om_get_events_map:
  "om_get (events_map es) k = map_of (map (\<lambda>e. (ev_key e, e)) es) k"
proof (induction es)
  case (Cons e es)
  have "om_wf (foldr (\<lambda>e. om_insert (ev_key e) e) es [])"
    using om_wf_events_map [of es] by (simp add: events_map_def)
  with Cons show ?case by (simp add: events_map_def om_get_insert)
qed (simp add: events_map_def om_get_def)

lemma om_get_events_map_iff:
  assumes "distinct (map ev_key es)"
  shows "om_get (events_map es) k = Some e \<longleftrightarrow> e \<in> set es \<and> ev_key e = k"
proof -
  have "distinct (map fst (map (\<lambda>e. (ev_key e, e)) es))" using assms by (simp add: comp_def)
  then show ?thesis
    unfolding om_get_events_map by (subst map_of_eq_Some_iff) auto
qed

lemma events_map_keys: "(k, e) \<in> set (events_map es) \<Longrightarrow> ev_key e = k"
  unfolding events_map_def by (induction es) (auto dest!: set_om_insert)

lemma events_map_eqI:
  assumes "om_wf m" "distinct (map ev_key es)"
    and "\<And>k e. om_get m k = Some e \<longleftrightarrow> e \<in> set es \<and> ev_key e = k"
  shows "events_map es = m"
proof (rule om_ext [OF om_wf_events_map assms(1)], rule ext)
  fix k
  show "om_get (events_map es) k = om_get m k"
    using om_get_events_map_iff [OF assms(2), of k] assms(3) [of k]
    by (cases "om_get (events_map es) k"; cases "om_get m k") auto
qed

lemma set_events_map: "distinct (map ev_key es) \<Longrightarrow> set (events_map es) = (\<lambda>e. (ev_key e, e)) ` set es"
  using om_get_events_map_iff [of es] om_get_in_set [OF om_wf_events_map, of es] by auto

subsection \<open>The heap takes a least element\<close>

lemma heap_peek_None_iff [simp]: "heap_peek h = None \<longleftrightarrow> h = []"
  by (cases h) (auto split: option.splits)

lemma heap_peek_least:
  "heap_peek h = Some m \<Longrightarrow> m \<in> set h \<and> (\<forall>e \<in> set h. ev_key m \<le> ev_key e)"
proof (induction h arbitrary: m)
  case (Cons a h)
  show ?case
  proof (cases "heap_peek h")
    case None
    with Cons.prems show ?thesis by auto
  next
    case (Some x)
    from Cons.IH [OF Some] Cons.prems Some show ?thesis by (auto split: if_splits)
  qed
qed simp

lemma heap_peek_key_mset:
  assumes "mset h = mset h'"
  shows "map_option ev_key (heap_peek h) = map_option ev_key (heap_peek h')"
proof (cases "heap_peek h")
  case None
  with assms show ?thesis by simp
next
  case (Some m)
  moreover from this assms obtain m' where "heap_peek h' = Some m'"
    by (cases "heap_peek h'") auto
  moreover have "set h = set h'" using assms by (metis set_mset_mset)
  ultimately show ?thesis
    using heap_peek_least [of h m] heap_peek_least [of h' m'] by (auto intro: order_antisym)
qed

subsection \<open>The abstraction depends on the multiset of events only\<close>

lemma distinct_keys_mset:
  "mset es = mset es' \<Longrightarrow> distinct (map ev_key es) \<longleftrightarrow> distinct (map ev_key es')"
  by (metis mset_eq_imp_distinct_iff mset_map)

lemma events_map_mset:
  assumes "mset es = mset es'" "distinct (map ev_key es)"
  shows "events_map es = events_map es'"
proof (rule events_map_eqI)
  have d: "distinct (map ev_key es')" using assms distinct_keys_mset by blast
  have "set es = set es'" using assms(1) by (metis set_mset_mset)
  then show "om_get (events_map es') k = Some e \<longleftrightarrow> e \<in> set es \<and> ev_key e = k" for k e
    by (simp add: om_get_events_map_iff [OF d])
qed (use assms in simp_all)

lemma events_map_Cons: "events_map (e # es) = om_insert (ev_key e) e (events_map es)"
  by (simp add: events_map_def)

lemma om_insert_least: "\<forall>x \<in> set m. k < fst x \<Longrightarrow> om_insert k v m = (k, v) # m"
  by (cases m) auto

lemma events_map_least:
  assumes "mset es = add_mset e (mset es')" "distinct (map ev_key es)"
    and least: "\<forall>x \<in> set es. ev_key e \<le> ev_key x"
  shows "events_map es = (ev_key e, e) # events_map es'"
proof -
  have m: "mset es = mset (e # es')" using assms(1) by simp
  then have d: "distinct (map ev_key (e # es'))" using assms(2) distinct_keys_mset by blast
  have "set es' \<subseteq> set es" using assms(1)
    by (metis set_mset_add_mset_insert set_mset_mset subset_insertI)
  then have "\<forall>x \<in> set (events_map es'). ev_key e < fst x"
    using d least by (auto simp: set_events_map order_less_le)
  then show ?thesis
    using events_map_mset [OF m assms(2)] by (simp add: events_map_Cons om_insert_least)
qed

lemma om_get_events_map_None:
  "om_get (events_map es) k = None \<longleftrightarrow> k \<notin> ev_key ` set es"
  by (auto simp: om_get_events_map map_of_eq_None_iff image_iff)

lemma mset_events_map:
  "distinct (map ev_key es) \<Longrightarrow> mset (events_map es) = image_mset (\<lambda>e. (ev_key e, e)) (mset es)"
proof (induction es)
  case (Cons e es)
  then have "om_get (events_map es) (ev_key e) = None" by (simp add: om_get_events_map_None)
  with Cons show ?case by (simp add: events_map_Cons mset_om_insert)
qed (simp add: events_map_def)

lemma mset_om_values_events_map:
  "distinct (map ev_key es) \<Longrightarrow> mset (om_values (events_map es)) = mset es"
  by (simp add: om_values_def mset_events_map image_mset.compositionality comp_def)

subsection \<open>Insertion\<close>

lemma mset_fe_list:
  "mset (fe_list q) = mset (fe_heap q) + mset (om_values (fe_timers q))"
  by (simp add: fe_list_def)

lemma fe_wf_timer_key:
  assumes "fe_wf q" "om_get (fe_timers q) k = Some e"
  shows "e \<in> set (fe_list q) \<and> ev_key e = k"
proof -
  have "(k, e) \<in> set (fe_timers q)" using assms by (simp add: fe_wf_def om_get_in_set)
  then show ?thesis
    using assms(1) unfolding fe_wf_def fe_list_def om_values_def
    by (metis UnCI fst_conv image_eqI set_append set_map snd_conv)
qed

lemma fe_insert_fresh:
  assumes q: "fe_ok q" and fresh: "om_get (fe_abs q) (ev_key e) = None"
  obtains q' where "fe_insert e q = Inr q'" "fe_ok q'"
    "fe_abs q' = om_insert (ev_key e) e (fe_abs q)"
proof -
  have nk: "ev_key e \<notin> ev_key ` set (fe_list q)"
    using fresh by (simp add: fe_abs_def om_get_events_map_None)
  have wf: "fe_wf q" and d: "distinct (map ev_key (fe_list q))" using q by (auto simp: fe_ok_def)
  have t: "om_get (fe_timers q) (ev_key e) = None"
    using nk fe_wf_timer_key [OF wf, of "ev_key e"] by (metis image_eqI not_None_eq)
  define q' where "q' = (if ev_kind e = RetransmissionTimeout
    then q\<lparr>fe_timers := om_insert (ev_key e) e (fe_timers q)\<rparr> else q\<lparr>fe_heap := e # fe_heap q\<rparr>)"
  have ins: "fe_insert e q = Inr q'" by (simp add: fe_insert_def q'_def t)
  have m: "mset (fe_list q') = mset (e # fe_list q)"
    using wf t by (simp add: q'_def mset_fe_list om_values_def mset_om_insert fe_wf_def)
  have "distinct (map ev_key (e # fe_list q))" using nk d by auto
  with m have d': "distinct (map ev_key (fe_list q'))" using distinct_keys_mset by blast
  have "fe_wf q'"
  proof (cases "ev_kind e = RetransmissionTimeout")
    case True
    have "ev_key (snd kv) = fst kv \<and> ev_kind (snd kv) = RetransmissionTimeout"
      if "kv \<in> set (om_insert (ev_key e) e (fe_timers q))" for kv
      using set_om_insert [OF that] wf True unfolding fe_wf_def by auto
    with True wf show ?thesis by (simp add: q'_def fe_wf_def om_wf_insert)
  next
    case False
    with wf show ?thesis by (simp add: q'_def fe_wf_def)
  qed
  moreover have "fe_abs q' = om_insert (ev_key e) e (fe_abs q)"
    using events_map_mset [OF m d'] by (simp add: fe_abs_def events_map_Cons)
  ultimately show ?thesis using that ins d' by (simp add: fe_ok_def)
qed

subsection \<open>Peek and pop\<close>

lemma fe_peek_key_None_iff: "fe_peek_key q = None \<longleftrightarrow> fe_list q = []"
  by (cases "fe_timers q"; cases "heap_peek (fe_heap q)")
    (auto simp: fe_peek_key_def fe_list_def om_values_def om_first_def Let_def)

lemma fe_peek_key_least:
  assumes "fe_wf q" "fe_peek_key q = Some k"
  shows "k \<in> ev_key ` set (fe_list q)" "x \<in> set (fe_list q) \<Longrightarrow> k \<le> ev_key x"
proof -
  have timers: "ev_key (snd kv) = fst kv" "om_first (fe_timers q) = Some f \<Longrightarrow> fst f \<le> fst kv"
    if "kv \<in> set (fe_timers q)" for kv f
    using assms(1) that om_first_least [of "fe_timers q" "fst f" "snd f" "fst kv" "snd kv"]
    by (auto simp: fe_wf_def)
  have "k \<in> ev_key ` set (fe_list q) \<and> (\<forall>x \<in> set (fe_list q). k \<le> ev_key x)"
  proof (cases "fe_timers q")
    case Nil
    with assms(2) obtain m where "heap_peek (fe_heap q) = Some m" "ev_key m = k"
      by (auto simp: fe_peek_key_def)
    with Nil heap_peek_least [of "fe_heap q" m] show ?thesis
      by (auto simp: fe_list_def om_values_def)
  next
    case (Cons f m)
    then have f: "om_first (fe_timers q) = Some f" "f \<in> set (fe_timers q)"
      by (simp_all add: om_first_def)
    have fk: "fst f \<in> ev_key ` set (om_values (fe_timers q))"
      "\<forall>x \<in> set (om_values (fe_timers q)). fst f \<le> ev_key x"
      using timers(1) [OF f(2)] timers(2) [OF _ f(1)] timers(1) f(2)
      by (auto simp: om_values_def image_comp intro!: image_eqI [of _ _ f])
    show ?thesis
    proof (cases "heap_peek (fe_heap q)")
      case None
      with assms(2) Cons f(1) fk show ?thesis
        by (auto simp: fe_peek_key_def fe_list_def Let_def)
    next
      case (Some p)
      with assms(2) Cons f(1) have "k = min (ev_key p) (fst f)"
        by (simp add: fe_peek_key_def Let_def)
      moreover have "\<forall>x \<in> set (fe_list q). ev_key p \<le> ev_key x \<or> fst f \<le> ev_key x"
        using fk(2) heap_peek_least [OF Some] by (auto simp: fe_list_def)
      moreover have "{ev_key p, fst f} \<subseteq> ev_key ` set (fe_list q)"
        using fk(1) heap_peek_least [OF Some] by (auto simp: fe_list_def)
      ultimately show ?thesis by (auto simp: min_le_iff_disj) (simp add: min_def)
    qed
  qed
  then show "k \<in> ev_key ` set (fe_list q)" "x \<in> set (fe_list q) \<Longrightarrow> k \<le> ev_key x" by auto
qed

text \<open>One pop takes a least event; a pending event with the same key turns it into an error.\<close>

lemma fe_pop_step:
  assumes wf: "fe_wf q" and ne: "fe_list q \<noteq> []"
  obtains e q' where "fe_wf q'" "mset (fe_list q) = add_mset e (mset (fe_list q'))"
    "\<forall>x \<in> set (fe_list q). ev_key e \<le> ev_key x"
    "fe_pop q = (if ev_key e \<in> ev_key ` set (fe_list q')
       then Inl (DuplicateEventKey (ev_key e)) else Inr (Some e, q'))"
proof -
  have "\<exists>e q'. fe_wf q' \<and> mset (fe_list q) = add_mset e (mset (fe_list q'))
    \<and> (\<forall>x \<in> set (fe_list q). ev_key e \<le> ev_key x)
    \<and> fe_pop q = (if fe_peek_key q' = Some (ev_key e)
         then Inl (DuplicateEventKey (ev_key e)) else Inr (Some e, q'))"
  proof (cases "fe_from_timers q")
    case True
    then obtain f where f: "om_first (fe_timers q) = Some f"
      and h: "\<And>p. heap_peek (fe_heap q) = Some p \<Longrightarrow> fst f < ev_key p"
      by (auto simp: fe_from_timers_def split: option.splits)
    then obtain m where c: "fe_timers q = f # m"
      by (cases "fe_timers q") (simp_all add: om_first_def)
    then have fk: "ev_key (snd f) = fst f" "\<forall>x \<in> set m. fst f < fst x"
      "\<forall>x \<in> set m. ev_key (snd x) = fst x"
      using wf by (cases f; force simp: fe_wf_def om_wf_simps)+
    define q' where "q' = q\<lparr>fe_timers := m\<rparr>"
    have "fe_wf q'"
      using wf c by (cases f) (auto simp: fe_wf_def q'_def om_wf_simps)
    moreover have "mset (fe_list q) = add_mset (snd f) (mset (fe_list q'))"
      using c by (simp add: fe_list_def q'_def om_values_def)
    moreover have "\<forall>x \<in> set (fe_list q). ev_key (snd f) \<le> ev_key x"
    proof
      fix x assume "x \<in> set (fe_list q)"
      then consider "x \<in> set (fe_heap q)" | "x = snd f" | y where "y \<in> set m" "x = snd y"
        using c by (auto simp: fe_list_def om_values_def)
      then show "ev_key (snd f) \<le> ev_key x"
      proof cases
        case 1
        then obtain p where "heap_peek (fe_heap q) = Some p"
          by (cases "heap_peek (fe_heap q)") auto
        from h [OF this] heap_peek_least [OF this] 1 show ?thesis
          unfolding fk by (meson less_le_trans less_imp_le)
      qed (use fk in \<open>auto simp: less_imp_le\<close>)
    qed
    moreover have "fe_pop q = (if fe_peek_key q' = Some (ev_key (snd f))
         then Inl (DuplicateEventKey (ev_key (snd f))) else Inr (Some (snd f), q'))"
      using True f c by (simp add: fe_pop_def q'_def)
    ultimately show ?thesis by blast
  next
    case False
    have "fe_heap q \<noteq> []"
      using ne False by (cases "fe_timers q")
        (auto simp: fe_from_timers_def om_first_def fe_list_def om_values_def split: prod.splits)
    then obtain p where p: "heap_peek (fe_heap q) = Some p"
      by (cases "heap_peek (fe_heap q)") simp_all
    define q' where "q' = q\<lparr>fe_heap := remove1 p (fe_heap q)\<rparr>"
    have "fe_wf q'"
      using wf set_remove1_subset [of p "fe_heap q"] by (auto simp: fe_wf_def q'_def)
    moreover have "mset (fe_list q) = add_mset p (mset (fe_list q'))"
      using heap_peek_least [OF p] by (simp add: fe_list_def q'_def)
    moreover have "\<forall>x \<in> set (fe_list q). ev_key p \<le> ev_key x"
    proof -
      have "ev_key p \<le> ev_key (snd kv)" if kv: "kv \<in> set (fe_timers q)" for kv
      proof -
        obtain f where f: "om_first (fe_timers q) = Some f"
          using kv by (cases "fe_timers q") (auto simp: om_first_def)
        then have "ev_key p \<le> fst f" using False p by (cases f) (auto simp: fe_from_timers_def)
        also have "fst f \<le> fst kv"
          using om_first_least [of "fe_timers q" "fst f" "snd f" "fst kv" "snd kv"] f kv wf
          by (auto simp: fe_wf_def)
        also have "fst kv = ev_key (snd kv)" using wf kv by (auto simp: fe_wf_def)
        finally show ?thesis .
      qed
      with heap_peek_least [OF p] show ?thesis by (auto simp: fe_list_def om_values_def)
    qed
    moreover have "fe_pop q = (if fe_peek_key q' = Some (ev_key p)
         then Inl (DuplicateEventKey (ev_key p)) else Inr (Some p, q'))"
      using False p by (simp add: fe_pop_def q'_def heap_pop_def)
    ultimately show ?thesis by blast
  qed
  then obtain e q' where *: "fe_wf q'" "mset (fe_list q) = add_mset e (mset (fe_list q'))"
    "\<forall>x \<in> set (fe_list q). ev_key e \<le> ev_key x"
    "fe_pop q = (if fe_peek_key q' = Some (ev_key e)
         then Inl (DuplicateEventKey (ev_key e)) else Inr (Some e, q'))" by blast
  have sub: "set (fe_list q') \<subseteq> set (fe_list q)"
    using *(2) by (metis set_mset_add_mset_insert set_mset_mset subset_insertI)
  have "fe_peek_key q' = Some (ev_key e) \<longleftrightarrow> ev_key e \<in> ev_key ` set (fe_list q')"
  proof
    assume "ev_key e \<in> ev_key ` set (fe_list q')"
    then obtain x where x: "x \<in> set (fe_list q')" "ev_key x = ev_key e" by auto
    then obtain k where k: "fe_peek_key q' = Some k"
      using fe_peek_key_None_iff [of q'] by (cases "fe_peek_key q'") auto
    obtain y where y: "y \<in> set (fe_list q')" "ev_key y = k"
      using fe_peek_key_least(1) [OF *(1) k] by auto
    have "k \<le> ev_key e" using fe_peek_key_least(2) [OF *(1) k x(1)] x(2) by simp
    moreover have "ev_key e \<le> k" using *(3) sub y by blast
    ultimately have "k = ev_key e" by simp
    with k show "fe_peek_key q' = Some (ev_key e)" by simp
  qed (use fe_peek_key_least(1) [OF *(1)] in auto)
  with * that show ?thesis by simp
qed

lemma fe_pop_empty: "fe_list q = [] \<Longrightarrow> fe_pop q = Inr (None, q)"
  by (simp add: fe_pop_def fe_from_timers_def fe_list_def om_values_def om_first_def heap_pop_def)

lemma fe_pop_ok:
  assumes "fe_ok q"
  obtains q' where "fe_pop q = Inr (map_option snd (om_first (fe_abs q)), q')" "fe_ok q'"
    "fe_abs q' = tl (fe_abs q)"
proof (cases "fe_list q = []")
  case True
  then have "fe_abs q = []" by (simp add: fe_abs_def events_map_def)
  with True that assms show ?thesis by (simp add: fe_pop_empty om_first_def)
next
  case False
  from assms have wf: "fe_wf q" and d: "distinct (map ev_key (fe_list q))" by (auto simp: fe_ok_def)
  obtain e q' where s: "fe_wf q'" "mset (fe_list q) = add_mset e (mset (fe_list q'))"
    "\<forall>x \<in> set (fe_list q). ev_key e \<le> ev_key x"
    "fe_pop q = (if ev_key e \<in> ev_key ` set (fe_list q')
       then Inl (DuplicateEventKey (ev_key e)) else Inr (Some e, q'))"
    by (rule fe_pop_step [OF wf False])
  have "mset (fe_list q) = mset (e # fe_list q')" using s(2) by simp
  then have d': "distinct (map ev_key (e # fe_list q'))" using d distinct_keys_mset by blast
  have "fe_abs q = (ev_key e, e) # fe_abs q'"
    unfolding fe_abs_def by (rule events_map_least [OF s(2) d s(3)])
  with d' s that show ?thesis by (simp add: fe_ok_def om_first_def)
qed

subsection \<open>Draining into a sorted vector\<close>

lemma first_duplicate_None_iff:
  "sorted (map ev_key es) \<Longrightarrow> first_duplicate es = None \<longleftrightarrow> distinct (map ev_key es)"
proof (induction es rule: first_duplicate.induct)
  case (1 a b es)
  show ?case
  proof (cases "ev_key a = ev_key b")
    case False
    then have "first_duplicate (b # es) = None \<longleftrightarrow> distinct (map ev_key (b # es))"
      using 1 by simp
    moreover have "ev_key a \<notin> ev_key ` set (b # es)" using 1(2) False by fastforce
    ultimately show ?thesis using False by auto
  qed simp
qed auto

lemma first_duplicate_in:
  "first_duplicate es = Some k \<Longrightarrow> k \<in> ev_key ` set es"
  by (induction es rule: first_duplicate.induct) (auto split: if_splits)

lemma sorted_om_values_events_map:
  "sorted (map ev_key (om_values (events_map es)))"
proof -
  have "map ev_key (om_values (events_map es)) = map fst (events_map es)"
    using events_map_keys [of _ _ es] by (auto simp: om_values_def)
  then show ?thesis
    using om_wf_events_map [of es] by (simp add: om_wf_def strict_sorted_iff)
qed

lemma distinct_keys_filter:
  "distinct (map f xs) \<Longrightarrow> x \<in> set xs \<Longrightarrow> filter (\<lambda>y. f x = f y) xs = [x]"
  by (induction xs) (auto simp: filter_empty_conv image_iff)

lemma sort_key_unique:
  assumes "mset ys = mset xs" "sorted (map f ys)" "distinct (map f xs)"
  shows "sort_key f xs = ys"
proof (rule properties_for_sort_key [OF assms(1) _ assms(2)])
  fix k assume "k \<in> set ys"
  moreover have "set ys = set xs" using assms(1) by (metis set_mset_mset)
  moreover have "distinct (map f ys)"
    using assms by (metis mset_eq_imp_distinct_iff mset_map)
  ultimately show "filter (\<lambda>x. f k = f x) ys = filter (\<lambda>x. f k = f x) xs"
    using assms(3) by (simp add: distinct_keys_filter)
qed

lemma sort_key_events_map:
  "distinct (map ev_key es) \<Longrightarrow> sort_key ev_key es = om_values (events_map es)"
  by (intro sort_key_unique mset_om_values_events_map sorted_om_values_events_map)

lemma fe_into_sorted_vec_ok:
  assumes "fe_ok q"
  shows "fe_into_sorted_vec q = Inr (om_values (fe_abs q))"
proof -
  have "sort_key ev_key (fe_list q) = om_values (fe_abs q)"
    using assms by (simp add: fe_ok_def fe_abs_def sort_key_events_map)
  moreover have "first_duplicate (sort_key ev_key (fe_list q)) = None"
    using assms by (simp add: first_duplicate_None_iff fe_ok_def sorted_sort_key
        distinct_keys_mset [of "sort_key ev_key (fe_list q)" "fe_list q"])
  ultimately show ?thesis by (simp add: fe_into_sorted_vec_def fe_list_def [symmetric])
qed

subsection \<open>Removing a superseded timer\<close>

lemma find_filter: "(\<And>x. P x \<Longrightarrow> Q x) \<Longrightarrow> find P (filter Q xs) = find P xs"
  by (induction xs) auto

lemma timers_of_fe_abs:
  assumes "fe_ok q"
  shows "filter (\<lambda>kv. ev_kind (snd kv) = RetransmissionTimeout) (fe_abs q) = fe_timers q"
proof (rule om_ext_set)
  have wf: "fe_wf q" and d: "distinct (map ev_key (fe_list q))" using assms by (auto simp: fe_ok_def)
  then show "om_wf (fe_timers q)" by (simp add: fe_wf_def)
  show "om_wf (filter (\<lambda>kv. ev_kind (snd kv) = RetransmissionTimeout) (fe_abs q))"
    by (simp add: fe_abs_def om_wf_filter)
  have abs: "x \<in> set (fe_abs q) \<longleftrightarrow> snd x \<in> set (fe_list q) \<and> ev_key (snd x) = fst x" for x
    unfolding fe_abs_def set_events_map [OF d] by (cases x) auto
  show "set (filter (\<lambda>kv. ev_kind (snd kv) = RetransmissionTimeout) (fe_abs q)) = set (fe_timers q)"
  proof (intro set_eqI iffI)
    fix x assume x: "x \<in> set (fe_timers q)"
    then have "snd x \<in> set (fe_list q)" by (simp add: fe_list_def om_values_def)
    moreover have "ev_key (snd x) = fst x" "ev_kind (snd x) = RetransmissionTimeout"
      using wf x unfolding fe_wf_def by blast+
    ultimately show "x \<in> set (filter (\<lambda>kv. ev_kind (snd kv) = RetransmissionTimeout) (fe_abs q))"
      by (simp add: abs)
  next
    fix x assume "x \<in> set (filter (\<lambda>kv. ev_kind (snd kv) = RetransmissionTimeout) (fe_abs q))"
    then have x: "snd x \<in> set (fe_list q)" "ev_key (snd x) = fst x"
      "ev_kind (snd x) = RetransmissionTimeout" by (simp_all add: abs)
    then have "snd x \<notin> set (fe_heap q)" using wf unfolding fe_wf_def by blast
    with x(1) obtain kv where kv: "kv \<in> set (fe_timers q)" "snd x = snd kv"
      unfolding fe_list_def om_values_def by auto
    then have "ev_key (snd kv) = fst kv" using wf unfolding fe_wf_def by blast
    with kv x(2) have "x = kv" by (simp add: prod_eq_iff)
    with kv(1) show "x \<in> set (fe_timers q)" by simp
  qed
qed

lemma find_timer_abs:
  assumes "fe_ok q"
  shows "find (\<lambda>kv. timer_matches t (snd kv)) (om_range lo hi (fe_abs q))
       = find (\<lambda>kv. timer_matches t (snd kv)) (om_range lo hi (fe_timers q))"
proof -
  have "find (\<lambda>kv. timer_matches t (snd kv)) (om_range lo hi (fe_abs q))
      = find (\<lambda>kv. timer_matches t (snd kv))
          (filter (\<lambda>kv. ev_kind (snd kv) = RetransmissionTimeout) (om_range lo hi (fe_abs q)))"
    by (rule find_filter [symmetric]) (simp add: timer_matches_def)
  also have "filter (\<lambda>kv. ev_kind (snd kv) = RetransmissionTimeout) (om_range lo hi (fe_abs q))
      = om_range lo hi (fe_timers q)"
    by (simp add: timers_of_fe_abs [OF assms, symmetric] om_range_def filter_filter conj_commute)
  finally show ?thesis .
qed

lemma events_map_filter:
  assumes "distinct (map ev_key es)"
  shows "events_map (filter (\<lambda>e. ev_key e \<noteq> k) es) = om_remove k (events_map es)"
proof (rule om_ext_set)
  have d: "distinct (map ev_key (filter (\<lambda>e. ev_key e \<noteq> k) es))"
    using assms by (simp add: distinct_map_filter)
  show "set (events_map (filter (\<lambda>e. ev_key e \<noteq> k) es)) = set (om_remove k (events_map es))"
    unfolding om_remove_def set_filter set_events_map [OF d] set_events_map [OF assms]
    by (simp only: image_Collect) (fastforce simp only: image_iff mem_Collect_eq fst_conv)
qed (simp_all add: om_wf_remove)

lemma fe_list_remove_timer:
  assumes "fe_ok q" "om_get (fe_timers q) k = Some e"
  shows "fe_list (q\<lparr>fe_timers := om_remove k (fe_timers q)\<rparr>) = filter (\<lambda>e. ev_key e \<noteq> k) (fe_list q)"
proof -
  have wf: "fe_wf q" and d: "distinct (map ev_key (fe_list q))" using assms by (auto simp: fe_ok_def)
  have "e \<in> set (om_values (fe_timers q))" "ev_key e = k"
    using wf assms(2) fe_wf_timer_key [OF wf assms(2)]
    by (simp_all add: om_values_def fe_wf_def om_get_in_set image_iff)
      (metis snd_conv)
  then have "k \<in> ev_key ` set (om_values (fe_timers q))" by auto
  then have "\<forall>x \<in> set (fe_heap q). ev_key x \<noteq> k" using d by (auto simp: fe_list_def)
  moreover have "om_values (om_remove k (fe_timers q)) = filter (\<lambda>e. ev_key e \<noteq> k) (om_values (fe_timers q))"
    using wf unfolding fe_wf_def om_values_def om_remove_def filter_map comp_def
    by (metis (no_types, lifting) filter_cong)
  ultimately show ?thesis by (simp add: fe_list_def filter_id_conv)
qed

lemma find_range_get:
  assumes "om_wf m" "find P (om_range lo hi m) = Some (k, e)"
  shows "om_get m k = Some e"
proof -
  have "(k, e) \<in> set (om_range lo hi m)"
    using assms(2) unfolding find_Some_iff by (metis nth_mem)
  with assms(1) show ?thesis by (simp add: om_get_in_set om_range_def)
qed

lemma fe_remove_superseded_ok:
  assumes "fe_ok q"
  shows "remove_superseded_timer t (fe_abs q)
    = and_then (fe_remove_superseded_timer t q) (\<lambda>(e, q'). Inr (e, fe_abs q'))"
    and "fe_remove_superseded_timer t q = Inr (e, q') \<Longrightarrow> fe_ok q'"
proof -
  obtain lo hi where b: "key_bounds t = (lo, hi)" by fastforce
  define r where "r = find (\<lambda>kv. timer_matches t (snd kv)) (om_range lo hi (fe_timers q))"
  have wf: "om_wf (fe_timers q)" and d: "distinct (map ev_key (fe_list q))"
    using assms by (auto simp: fe_ok_def fe_wf_def)
  have abs: "remove_superseded_timer t (fe_abs q) = (case r of
      None \<Rightarrow> Inl (SupersededTimerMissing (st_target t) (st_payload t) (st_deadline_ns t))
    | Some (k, e) \<Rightarrow> Inr (e, om_remove k (fe_abs q)))"
    by (simp add: remove_superseded_timer_def b find_timer_abs [OF assms] r_def)
  have conc: "fe_remove_superseded_timer t q = (case r of
      None \<Rightarrow> Inl (SupersededTimerMissing (st_target t) (st_payload t) (st_deadline_ns t))
    | Some (k, e) \<Rightarrow> Inr (e, q\<lparr>fe_timers := om_remove k (fe_timers q)\<rparr>))"
    by (auto simp: fe_remove_superseded_timer_def remove_superseded_timer_def b r_def
        split: option.splits)
  have step: "fe_abs (q\<lparr>fe_timers := om_remove k (fe_timers q)\<rparr>) = om_remove k (fe_abs q)
      \<and> fe_ok (q\<lparr>fe_timers := om_remove k (fe_timers q)\<rparr>)" if "r = Some (k, e)" for k e
  proof
    have g: "om_get (fe_timers q) k = Some e"
      using that unfolding r_def by (rule find_range_get [OF wf])
    show "fe_abs (q\<lparr>fe_timers := om_remove k (fe_timers q)\<rparr>) = om_remove k (fe_abs q)"
      unfolding fe_abs_def fe_list_remove_timer [OF assms g] by (rule events_map_filter [OF d])
    have "fe_wf (q\<lparr>fe_timers := om_remove k (fe_timers q)\<rparr>)"
      using assms by (simp add: fe_ok_def fe_wf_def om_wf_remove) (simp add: om_remove_def)
    then show "fe_ok (q\<lparr>fe_timers := om_remove k (fe_timers q)\<rparr>)"
      unfolding fe_ok_def fe_list_remove_timer [OF assms g] using d by (simp add: distinct_map_filter)
  qed
  show "remove_superseded_timer t (fe_abs q)
    = and_then (fe_remove_superseded_timer t q) (\<lambda>(e, q'). Inr (e, fe_abs q'))"
    using step by (cases r) (auto simp: abs conc)
  show "fe_remove_superseded_timer t q = Inr (e, q') \<Longrightarrow> fe_ok q'"
    using step by (cases r) (auto simp: conc)
qed

subsection \<open>Counting below a horizon\<close>

lemma below_horizon_antimono: "below_horizon h k \<Longrightarrow> k' \<le> k \<Longrightarrow> below_horizon h k'"
  using event_key_le_time [of k' k] unfolding below_horizon_def
  by (simp add: unat_word_less unat_word_le unat_u64_to_u128)

lemma takeWhile_sorted:
  assumes "sorted xs" "\<And>x y. P y \<Longrightarrow> x \<le> y \<Longrightarrow> P x"
  shows "takeWhile P xs = filter P xs"
  using assms(1)
proof (induction xs)
  case (Cons a xs)
  show ?case
  proof (cases "P a")
    case False
    then have "\<forall>x \<in> set xs. \<not> P x" using Cons.prems assms(2) by auto
    with False show ?thesis by (simp add: filter_empty_conv)
  qed (use Cons in simp)
qed simp

lemma fe_count_below_ok:
  assumes "fe_ok q"
  shows "fe_count_below h q = length (filter (\<lambda>kv. below_horizon h (fst kv)) (fe_abs q))"
proof -
  have d: "distinct (map ev_key (fe_list q))" and "sorted (map fst (fe_timers q))"
    and k: "\<And>kv. kv \<in> set (fe_timers q) \<Longrightarrow> ev_key (snd kv) = fst kv"
    using assms by (auto simp: fe_ok_def fe_wf_def om_wf_def strict_sorted_iff)
  then have "takeWhile (below_horizon h) (map fst (fe_timers q)) = filter (below_horizon h) (map fst (fe_timers q))"
    by (intro takeWhile_sorted) (auto intro: below_horizon_antimono)
  moreover have "length (filter (below_horizon h) (map fst (fe_timers q)))
      = length (filter (\<lambda>e. below_horizon h (ev_key e)) (om_values (fe_timers q)))"
    using k by (simp add: om_values_def filter_map comp_def cong: filter_cong)
  ultimately have "fe_count_below h q = length (filter (\<lambda>e. below_horizon h (ev_key e)) (fe_list q))"
    by (simp add: fe_count_below_def fe_list_def)
  also have "\<dots> = size (filter_mset (\<lambda>kv. below_horizon h (fst kv)) (mset (events_map (fe_list q))))"
    by (simp add: mset_events_map [OF d] filter_mset_image_mset) (metis mset_filter size_mset)
  also have "\<dots> = length (filter (\<lambda>kv. below_horizon h (fst kv)) (fe_abs q))"
    by (metis fe_abs_def mset_filter size_mset)
  finally show ?thesis .
qed

subsection \<open>Nothing observable depends on the heap's layout\<close>

definition fe_equiv :: "future_events \<Rightarrow> future_events \<Rightarrow> bool" where
  "fe_equiv q q' \<longleftrightarrow> mset (fe_heap q) = mset (fe_heap q') \<and> fe_timers q = fe_timers q'"

lemma fe_equiv_peek:
  assumes "fe_equiv q q'"
  shows "map_option ev_key (heap_peek (fe_heap q)) = map_option ev_key (heap_peek (fe_heap q'))"
    and "fe_timers q = fe_timers q'"
  using assms heap_peek_key_mset [of "fe_heap q" "fe_heap q'"] by (simp_all add: fe_equiv_def)

lemma fe_equiv_peek_key: "fe_equiv q q' \<Longrightarrow> fe_peek_key q = fe_peek_key q'"
  unfolding fe_peek_key_def by (simp only: fe_equiv_peek)

lemma fe_from_timers_alt:
  "fe_from_timers q = (case om_first (fe_timers q) of None \<Rightarrow> False
     | Some kv \<Rightarrow> (case map_option ev_key (heap_peek (fe_heap q)) of None \<Rightarrow> True | Some k \<Rightarrow> fst kv < k))"
  by (simp add: fe_from_timers_def split: option.split prod.split)

lemma fe_equiv_from_timers: "fe_equiv q q' \<Longrightarrow> fe_from_timers q = fe_from_timers q'"
  unfolding fe_from_timers_alt by (simp only: fe_equiv_peek)

lemma fe_peek_key_alt:
  "fe_peek_key q = (case (map_option ev_key (heap_peek (fe_heap q)), map_option fst (om_first (fe_timers q))) of
       (Some a, Some b) \<Rightarrow> Some (min a b) | (Some a, None) \<Rightarrow> Some a | (None, t) \<Rightarrow> t)"
  by (cases "fe_timers q"; cases "heap_peek (fe_heap q)") (simp_all add: fe_peek_key_def om_first_def)

lemma fe_pop_heap:
  assumes "\<not> fe_from_timers q" "heap_peek (fe_heap q) = Some m"
  shows "fe_pop q = (if ev_key m \<in> ev_key ` set (remove1 m (fe_heap q))
      \<or> (\<exists>kv. om_first (fe_timers q) = Some kv \<and> fst kv = ev_key m)
    then Inl (DuplicateEventKey (ev_key m)) else Inr (Some m, q\<lparr>fe_heap := remove1 m (fe_heap q)\<rparr>))"
proof -
  let ?q = "q\<lparr>fe_heap := remove1 m (fe_heap q)\<rparr>"
  have le: "ev_key m \<le> fst kv" if "om_first (fe_timers q) = Some kv" for kv
    using assms that by (cases kv) (simp add: fe_from_timers_def)
  have hp: "ev_key m \<le> ev_key p" if "heap_peek (remove1 m (fe_heap q)) = Some p" for p
    using heap_peek_least [OF that] heap_peek_least [OF assms(2)]
      set_remove1_subset [of m "fe_heap q"] by blast
  have mem: "ev_key m \<in> ev_key ` set (remove1 m (fe_heap q))
      \<longleftrightarrow> (\<exists>p. heap_peek (remove1 m (fe_heap q)) = Some p \<and> ev_key p = ev_key m)"
  proof
    assume "ev_key m \<in> ev_key ` set (remove1 m (fe_heap q))"
    then obtain x where x: "x \<in> set (remove1 m (fe_heap q))" "ev_key x = ev_key m" by auto
    then obtain p where p: "heap_peek (remove1 m (fe_heap q)) = Some p"
      by (cases "heap_peek (remove1 m (fe_heap q))") simp_all
    have "ev_key p = ev_key m" using hp [OF p] heap_peek_least [OF p] x by (metis order_antisym)
    with p show "\<exists>p. heap_peek (remove1 m (fe_heap q)) = Some p \<and> ev_key p = ev_key m" by blast
  qed (metis heap_peek_least image_eqI)
  have "fe_peek_key ?q = Some (ev_key m) \<longleftrightarrow>
      (\<exists>p. heap_peek (remove1 m (fe_heap q)) = Some p \<and> ev_key p = ev_key m)
      \<or> (\<exists>kv. om_first (fe_timers q) = Some kv \<and> fst kv = ev_key m)"
  proof (cases "heap_peek (remove1 m (fe_heap q))"; cases "om_first (fe_timers q)")
    fix p kv assume *: "heap_peek (remove1 m (fe_heap q)) = Some p" "om_first (fe_timers q) = Some kv"
    then have "min (ev_key p) (fst kv) = ev_key m \<longleftrightarrow> ev_key p = ev_key m \<or> fst kv = ev_key m"
      using le [OF *(2)] hp [OF *(1)] by (metis min_absorb1 min_absorb2 min_def)
    with * show ?thesis by (simp add: fe_peek_key_alt)
  qed (simp_all add: fe_peek_key_alt)
  then show ?thesis
    using assms by (simp add: fe_pop_def heap_pop_def mem)
qed

lemma fe_pop_equiv:
  assumes "fe_equiv q q'"
  shows "rel_sum (=) (rel_prod (=) fe_equiv) (fe_pop q) (fe_pop q')"
proof (cases "fe_from_timers q")
  case True
  have eq: "fe_equiv (q\<lparr>fe_timers := tl (fe_timers q)\<rparr>) (q'\<lparr>fe_timers := tl (fe_timers q')\<rparr>)"
    using assms by (simp add: fe_equiv_def)
  obtain f where "om_first (fe_timers q) = Some f" "om_first (fe_timers q') = Some f"
    using True assms by (auto simp: fe_from_timers_def fe_equiv_def split: option.splits)
  then show ?thesis
    using True fe_equiv_from_timers [OF assms] fe_equiv_peek_key [OF eq] eq by (simp add: fe_pop_def)
next
  case False
  then have F: "\<not> fe_from_timers q'" using fe_equiv_from_timers [OF assms] by simp
  have m: "mset (fe_heap q) = mset (fe_heap q')" and t: "fe_timers q = fe_timers q'"
    using assms by (auto simp: fe_equiv_def)
  show ?thesis
  proof (cases "heap_peek (fe_heap q)")
    case None
    then have "fe_heap q = []" "fe_heap q' = []" using m by simp_all
    with False F t assms show ?thesis by (simp add: fe_pop_def heap_pop_def fe_equiv_def)
  next
    case (Some e)
    obtain e' where e': "heap_peek (fe_heap q') = Some e'" "ev_key e' = ev_key e"
      using heap_peek_key_mset [OF m] Some by (cases "heap_peek (fe_heap q')") simp_all
    have sets: "set (fe_heap q) = set (fe_heap q')" using m by (metis set_mset_mset)
    show ?thesis
    proof (cases "e = e'")
      case True
      have m': "mset (remove1 e (fe_heap q)) = mset (remove1 e (fe_heap q'))" using m by simp
      then have "set (remove1 e (fe_heap q)) = set (remove1 e (fe_heap q'))" by (metis set_mset_mset)
      then show ?thesis
        using m' t True by (simp add: fe_pop_heap [OF False Some] fe_pop_heap [OF F e'(1)] fe_equiv_def)
    next
      case ne: False
      have "e' \<in> set (remove1 e (fe_heap q))" "e \<in> set (remove1 e' (fe_heap q'))"
        using heap_peek_least [OF Some] heap_peek_least [OF e'(1)] sets ne by simp_all
      then have "ev_key e \<in> ev_key ` set (remove1 e (fe_heap q))"
        "ev_key e' \<in> ev_key ` set (remove1 e' (fe_heap q'))" using e'(2) by (metis image_eqI)+
      then show ?thesis using e'(2) by (simp add: fe_pop_heap [OF False Some] fe_pop_heap [OF F e'(1)])
    qed
  qed
qed

subsection \<open>The event-queue contract\<close>

text \<open>
  What an event loop relies on: inserting under a fresh key adds one entry, popping takes the
  least entry.  A client that inserts events and then pops until the queue is empty gets them in
  key order, whatever the order of insertion.
\<close>

primrec insert_all :: "(event \<Rightarrow> 'q \<Rightarrow> 'e + 'q) \<Rightarrow> event list \<Rightarrow> 'q \<Rightarrow> 'e + 'q" where
  "insert_all ins [] q = Inr q"
| "insert_all ins (e # es) q = and_then (ins e q) (insert_all ins es)"

primrec drain_with :: "('q \<Rightarrow> 'e + (event option \<times> 'q)) \<Rightarrow> nat \<Rightarrow> 'q \<Rightarrow> 'e + event list" where
  "drain_with pop 0 q = Inr []"
| "drain_with pop (Suc n) q =
     and_then (pop q) (\<lambda>(popped, q').
       case popped of None \<Rightarrow> Inr []
       | Some e \<Rightarrow> and_then (drain_with pop n q') (\<lambda>es. Inr (e # es)))"

locale event_queue =
  fixes qinsert :: "event \<Rightarrow> 'q \<Rightarrow> execution_error + 'q"
    and qpop :: "'q \<Rightarrow> execution_error + (event option \<times> 'q)"
    and qabs :: "'q \<Rightarrow> (event_key, event) omap"
    and qok :: "'q \<Rightarrow> bool"
  assumes insert_fresh: "qok q \<Longrightarrow> om_get (qabs q) (ev_key e) = None \<Longrightarrow>
      \<exists>q'. qinsert e q = Inr q' \<and> qok q' \<and> qabs q' = om_insert (ev_key e) e (qabs q)"
    and pop_min: "qok q \<Longrightarrow>
      \<exists>q'. qpop q = Inr (map_option snd (om_first (qabs q)), q') \<and> qok q' \<and> qabs q' = tl (qabs q)"
    and abs_wf: "qok q \<Longrightarrow> om_wf (qabs q)"
begin

lemma insert_all_map:
  "qok q \<Longrightarrow> qabs q = events_map base \<Longrightarrow> distinct (map ev_key (rev es @ base)) \<Longrightarrow>
   \<exists>q'. insert_all qinsert es q = Inr q' \<and> qok q' \<and> qabs q' = events_map (rev es @ base)"
proof (induction es arbitrary: q base)
  case (Cons e es)
  have "om_get (qabs q) (ev_key e) = None"
    using Cons.prems(2,3) by (auto simp: om_get_events_map_None)
  from insert_fresh [OF Cons.prems(1) this] obtain q1 where q1:
    "qinsert e q = Inr q1" "qok q1" "qabs q1 = events_map (e # base)"
    using Cons.prems(2) by (auto simp: events_map_Cons)
  from Cons.IH [OF q1(2,3)] Cons.prems(3) q1(1) show ?case by simp
qed simp

lemma drain_values:
  "qok q \<Longrightarrow> length (qabs q) \<le> n \<Longrightarrow> drain_with qpop n q = Inr (om_values (qabs q))"
proof (induction n arbitrary: q)
  case (Suc n)
  from pop_min [OF Suc.prems(1)] obtain q' where
    q': "qpop q = Inr (map_option snd (om_first (qabs q)), q')" "qok q'" "qabs q' = tl (qabs q)" by blast
  have "length (qabs q') \<le> n" using Suc.prems(2) q'(3) by simp
  from Suc.IH [OF q'(2) this] q' show ?case
    by (cases "qabs q") (simp_all add: om_first_def om_values_def)
qed (simp add: om_values_def)

lemma insert_drain_sorts:
  assumes "qok q" "qabs q = []" "distinct (map ev_key es)" "length es \<le> n"
  shows "and_then (insert_all qinsert es q) (drain_with qpop n) = Inr (sort_key ev_key es)"
proof -
  have d: "distinct (map ev_key (rev es @ []))"
    using assms(3) by (simp add: rev_map [symmetric])
  have "qabs q = events_map []" using assms(2) by (simp add: events_map_def)
  from insert_all_map [OF assms(1) this d] obtain q' where
    q': "insert_all qinsert es q = Inr q'" "qok q'" "qabs q' = events_map (rev es)" by auto
  have "events_map (rev es) = events_map es"
    using d by (intro events_map_mset) simp_all
  moreover have "length (events_map es) \<le> n"
    using assms(3,4) mset_events_map [OF assms(3)] by (metis size_image_mset size_mset)
  ultimately show ?thesis
    using q' by (simp add: drain_values sort_key_events_map assms(3))
qed

end

text \<open>The round executor's queue: one \<open>BTreeMap<EventKey, Event>\<close> per logical process.\<close>

definition futures_insert :: "event \<Rightarrow> (event_key, event) omap \<Rightarrow> execution_error + (event_key, event) omap" where
  "futures_insert e m =
     (if om_get m (ev_key e) \<noteq> None then Inl (DuplicateEventKey (ev_key e))
      else Inr (om_insert (ev_key e) e m))"

definition futures_pop :: "(event_key, event) omap \<Rightarrow> execution_error + (event option \<times> (event_key, event) omap)" where
  "futures_pop m = Inr (map_option snd (om_first m), tl m)"

interpretation fel: event_queue fe_insert fe_pop fe_abs fe_ok
proof
  show "\<exists>q'. fe_insert e q = Inr q' \<and> fe_ok q' \<and> fe_abs q' = om_insert (ev_key e) e (fe_abs q)"
    if "fe_ok q" "om_get (fe_abs q) (ev_key e) = None" for q e
    by (rule fe_insert_fresh [OF that]) blast
  show "\<exists>q'. fe_pop q = Inr (map_option snd (om_first (fe_abs q)), q') \<and> fe_ok q' \<and> fe_abs q' = tl (fe_abs q)"
    if "fe_ok q" for q
    by (rule fe_pop_ok [OF that]) blast
qed (simp add: fe_abs_def)

interpretation lpf: event_queue futures_insert futures_pop "\<lambda>m. m" om_wf
proof
  show "\<exists>q'. futures_pop q = Inr (map_option snd (om_first q), q') \<and> om_wf q' \<and> q' = tl q"
    if "om_wf q" for q
    using that by (cases q) (auto simp: futures_pop_def om_wf_simps)
qed (simp_all add: futures_insert_def om_wf_insert)

subsection \<open>Popping to the end and sorting agree, duplicates included\<close>

fun first_duplicate_key :: "event_key list \<Rightarrow> event_key option" where
  "first_duplicate_key (a # b # ks) = (if a = b then Some b else first_duplicate_key (b # ks))"
| "first_duplicate_key _ = None"

lemma first_duplicate_keys: "first_duplicate es = first_duplicate_key (map ev_key es)"
  by (induction es rule: first_duplicate.induct) simp_all

lemma map_sort_key_least:
  assumes "mset es = add_mset e (mset es')" "\<forall>x \<in> set es. ev_key e \<le> ev_key x"
  shows "map ev_key (sort_key ev_key es) = ev_key e # map ev_key (sort_key ev_key es')"
proof -
  have sub: "set es' \<subseteq> set es" using assms(1)
    by (metis set_mset_add_mset_insert set_mset_mset subset_insertI)
  have sorted: "sorted (ev_key e # map ev_key (sort_key ev_key es'))"
    using sub assms(2) by (simp add: subset_iff)
  have "mset (map ev_key (sort_key ev_key es)) = mset (ev_key e # map ev_key (sort_key ev_key es'))"
    using assms(1) by simp
  then show ?thesis
    using sorted properties_for_sort sorted_sort_key sorted_sort_id by metis
qed

lemma fe_into_sorted_vec_step:
  assumes "mset (fe_list q) = add_mset e (mset (fe_list q'))"
    "\<forall>x \<in> set (fe_list q). ev_key e \<le> ev_key x"
  shows "fe_into_sorted_vec q = (if ev_key e \<in> ev_key ` set (fe_list q')
    then Inl (DuplicateEventKey (ev_key e))
    else and_then (fe_into_sorted_vec q') (\<lambda>es. Inr (e # es)))"
proof -
  let ?s = "sort_key ev_key (fe_list q)" and ?s' = "sort_key ev_key (fe_list q')"
  have keys: "map ev_key ?s = ev_key e # map ev_key ?s'" by (rule map_sort_key_least [OF assms])
  have sub: "set (fe_list q') \<subseteq> set (fe_list q)" using assms(1)
    by (metis set_mset_add_mset_insert set_mset_mset subset_insertI)
  have out: "fe_into_sorted_vec p = (case first_duplicate (sort_key ev_key (fe_list p)) of
      Some k \<Rightarrow> Inl (DuplicateEventKey k) | None \<Rightarrow> Inr (sort_key ev_key (fe_list p)))" for p
    unfolding fe_into_sorted_vec_def fe_list_def Let_def by simp
  show ?thesis
  proof (cases "ev_key e \<in> ev_key ` set (fe_list q')")
    case True
    then have "ev_key e \<in> set (map ev_key ?s')" by simp
    moreover have "\<forall>k \<in> set (map ev_key ?s'). ev_key e \<le> k"
      using sub assms(2) by (simp add: subset_iff)
    ultimately obtain ks where "map ev_key ?s' = ev_key e # ks"
      using sorted_sort_key [of ev_key "fe_list q'"]
      by (cases "map ev_key ?s'") (simp_all, metis order_antisym)
    then have "first_duplicate ?s = Some (ev_key e)" by (simp add: first_duplicate_keys keys)
    with True show ?thesis by (simp add: out)
  next
    case False
    then have "\<forall>k \<in> set (map ev_key ?s'). k \<noteq> ev_key e" by (simp add: image_iff) metis
    then have dup: "first_duplicate ?s = first_duplicate ?s'"
      unfolding first_duplicate_keys keys by (cases "map ev_key ?s'") (simp_all, blast)
    show ?thesis
    proof (cases "first_duplicate ?s'")
      case None
      then have "distinct (map ev_key ?s)"
        using dup first_duplicate_None_iff [OF sorted_sort_key, of "fe_list q"] by simp
      then have d: "distinct (map ev_key (fe_list q))"
        using distinct_keys_mset [of ?s "fe_list q"] by simp
      have "?s = e # ?s'"
        using assms keys sorted_sort_key [of ev_key "fe_list q"] d by (intro sort_key_unique) simp_all
      with None dup False show ?thesis by (simp add: out)
    qed (simp add: out dup False)
  qed
qed

lemma fe_drain_into_sorted_vec:
  "fe_wf q \<Longrightarrow> length (fe_list q) \<le> n \<Longrightarrow> drain_with fe_pop n q = fe_into_sorted_vec q"
proof (induction n arbitrary: q)
  case 0
  then show ?case by (simp add: fe_into_sorted_vec_def fe_list_def)
next
  case (Suc n)
  show ?case
  proof (cases "fe_list q = []")
    case True
    then show ?thesis by (simp add: fe_pop_empty fe_into_sorted_vec_def fe_list_def)
  next
    case False
    obtain e q' where s: "fe_wf q'" "mset (fe_list q) = add_mset e (mset (fe_list q'))"
      "\<forall>x \<in> set (fe_list q). ev_key e \<le> ev_key x"
      "fe_pop q = (if ev_key e \<in> ev_key ` set (fe_list q')
         then Inl (DuplicateEventKey (ev_key e)) else Inr (Some e, q'))"
      by (rule fe_pop_step [OF Suc.prems(1) False])
    have "length (fe_list q) = Suc (length (fe_list q'))" using s(2) by (metis size_add_mset size_mset)
    with Suc.IH [OF s(1)] Suc.prems(2) have "drain_with fe_pop n q' = fe_into_sorted_vec q'" by simp
    then show ?thesis unfolding fe_into_sorted_vec_step [OF s(2,3)] by (simp add: s(4))
  qed
qed

subsection \<open>Properties\<close>

definition sample_event :: "u64 \<Rightarrow> u64 \<Rightarrow> event_kind \<Rightarrow> event" where
  "sample_event time_ns origin_seq kind =
     \<lparr>ev_key = \<lparr>key_time_ns = time_ns, key_phase = event_phase kind, key_origin_node = 3,
       key_origin_seq = origin_seq\<rparr>, ev_target = 3, ev_kind = kind, ev_payload = origin_seq\<rparr>"

text \<open>
  C13. Inserting events with distinct keys, in any order, into an empty future-event list and
  popping until it is empty returns exactly those events in key order, and the ordered map of the
  round executor returns the same list.
\<close>

theorem insert_drain_order:
  assumes "distinct (map ev_key es)"
  shows "and_then (insert_all fe_insert es fe_new) (drain_with fe_pop (length es))
           = Inr (sort_key ev_key es)
       \<and> and_then (insert_all futures_insert es []) (drain_with futures_pop (length es))
           = Inr (sort_key ev_key es)"
proof
  have "fe_ok fe_new" "fe_abs fe_new = []"
    by (simp_all add: fe_ok_def fe_wf_def fe_new_def fe_list_def om_values_def fe_abs_def
        events_map_def om_wf_def)
  then show "and_then (insert_all fe_insert es fe_new) (drain_with fe_pop (length es))
           = Inr (sort_key ev_key es)"
    using assms by (rule fel.insert_drain_sorts) simp
  have "om_wf ([] :: (event_key, event) omap)" by (simp add: om_wf_def)
  then show "and_then (insert_all futures_insert es []) (drain_with futures_pop (length es))
           = Inr (sort_key ev_key es)"
    using assms by (intro lpf.insert_drain_sorts) simp_all
qed

theorem insert_drain_order_witness:
  "and_then (insert_all fe_insert [sample_event 9 0 TxReady, sample_event 9 1 RetransmissionTimeout,
       sample_event 4 2 TxComplete] fe_new) (drain_with fe_pop 3)
     = Inr [sample_event 4 2 TxComplete, sample_event 9 1 RetransmissionTimeout, sample_event 9 0 TxReady]"
proof -
  let ?es = "[sample_event 9 0 TxReady, sample_event 9 1 RetransmissionTimeout, sample_event 4 2 TxComplete]"
  have "distinct (map ev_key ?es)" by (simp add: sample_event_def)
  note insert_drain_order [OF this, THEN conjunct1]
  also have "sort_key ev_key ?es
      = [sample_event 4 2 TxComplete, sample_event 9 1 RetransmissionTimeout, sample_event 9 0 TxReady]"
    by (simp add: sample_event_def event_key_le_iff event_key_less_iff)
  finally show ?thesis by (simp only: list.size numeral_3_eq_3 add_0 add_Suc add_Suc_right One_nat_def)
qed

text \<open>
  Popping the list to its end is the same as sorting it: from every reachable layout, the
  sequence of pops and \<open>into_sorted_vec\<close> return the same list, and when two pending events share a
  key both report \<open>DuplicateEventKey\<close> with the same key.
\<close>

theorem drain_is_into_sorted_vec:
  assumes "fe_wf q" and "length (fe_list q) \<le> n"
  shows "drain_with fe_pop n q = fe_into_sorted_vec q"
  using assms by (rule fe_drain_into_sorted_vec)

text \<open>
  The result of a pop does not depend on how the binary heap lays its elements out: two lists
  with the same multiset of heap events and the same timers pop the same event (or fail with the
  same duplicate key) and stay equal up to layout.
\<close>

theorem pop_layout_independent:
  assumes "fe_equiv q q'"
  shows "rel_sum (=) (rel_prod (=) fe_equiv) (fe_pop q) (fe_pop q')"
  using assms by (rule fe_pop_equiv)

text \<open>
  Removing a superseded retransmission timer from the split list is removing it from the single
  ordered map of all pending events: the same event or the same \<open>SupersededTimerMissing\<close>, and the
  remaining events correspond.
\<close>

theorem superseded_timer_refines:
  assumes "fe_ok q"
  shows "remove_superseded_timer t (fe_abs q)
    = and_then (fe_remove_superseded_timer t q) (\<lambda>(e, q'). Inr (e, fe_abs q'))"
  using assms by (rule fe_remove_superseded_ok)

end
