(* ===== verification/Ecn_Ramp.thy ===== *)
theory Ecn_Ramp
  imports Link_Time
begin

section \<open>SplitMix64 and the ECN ramp\<close>

text \<open>
  \<open>executor/src/splitmix.rs\<close>, \<open>executor/src/ecn_ramp.rs\<close> and \<open>EcnRampPolicy\<close> of
  \<open>executor/src/model.rs\<close>.  The mixer is shown to be a bijection on 64-bit words; the ramp's
  decision, computed in 128-bit words, is shown to be the exact rational comparison its
  documentation states, and the number of draws that mark is counted exactly.
\<close>

unbundle bit_operations_syntax

subsection \<open>The mixer\<close>

definition xorshift :: "nat \<Rightarrow> u64 \<Rightarrow> u64" where
  "xorshift k value = value XOR drop_bit k value"

definition mix :: "u64 \<Rightarrow> u64" where
  "mix value0 =
     (let value = value0 + 0x9e3779b97f4a7c15;
          value = xorshift 30 value * 0xbf58476d1ce4e5b9;
          value = xorshift 27 value * 0x94d049bb133111eb
      in xorshift 31 value)"

subsection \<open>The policy and its check\<close>

record ecn_ramp_policy =
  capacity_bytes :: u64
  kmin_bytes :: u64
  kmax_bytes :: u64
  pmax_numerator :: u64
  pmax_denominator :: u64

datatype ecn_ramp_action_t = EcnEnqueue | EcnMark | EcnDrop

definition ecn_ramp_domain :: u64 where "ecn_ramp_domain = 0x45434e5f52414d50"

definition ecn_queue_key :: "u64 \<Rightarrow> u64 \<Rightarrow> u64 \<Rightarrow> u64" where
  "ecn_queue_key seed node queue = mix (mix (mix (seed XOR ecn_ramp_domain) XOR node) XOR queue)"

definition ecn_draw :: "u64 \<Rightarrow> u64 \<Rightarrow> u64" where
  "ecn_draw key payload = mix (key XOR payload)"

definition ecn_ramp_span :: "ecn_ramp_policy \<Rightarrow> u64 option" where
  "ecn_ramp_span policy =
     checked_mul (pmax_denominator policy) (saturating_sub (kmax_bytes policy) (kmin_bytes policy))"

definition ecn_ramp_decision :: "ecn_ramp_policy \<Rightarrow> u64 \<Rightarrow> u64 \<Rightarrow> bool \<Rightarrow> u64 \<Rightarrow> ecn_ramp_action_t" where
  "ecn_ramp_decision policy queued_bytes size_bytes ecn_capable draw =
     (case checked_add queued_bytes size_bytes of
        None \<Rightarrow> EcnDrop
      | Some depth \<Rightarrow>
          if depth > capacity_bytes policy then EcnDrop
          else if \<not> ecn_capable \<or> depth < kmin_bytes policy then EcnEnqueue
          else if depth \<ge> kmax_bytes policy then EcnMark
          else
            let span = u64_to_u128 (pmax_denominator policy)
                         * u64_to_u128 (kmax_bytes policy - kmin_bytes policy);
                bound = u64_to_u128 (pmax_numerator policy)
                         * u64_to_u128 (depth - kmin_bytes policy)
            in if drop_bit 64 (u64_to_u128 draw * span) < bound then EcnMark else EcnEnqueue)"

function ecn_gcd :: "u64 \<Rightarrow> u64 \<Rightarrow> u64" where
  "ecn_gcd left right = (if right = 0 then left else ecn_gcd right (left mod right))"
  by pat_completeness auto
termination
proof (relation "measure (\<lambda>(left, right). unat right)")
  fix left right :: u64
  assume "right \<noteq> 0"
  then show "((right, left mod right), left, right) \<in> measure (\<lambda>(left, right). unat right)"
    by (simp add: unat_mod unat_gt_0)
qed simp

declare ecn_gcd.simps [simp del]

definition ecn_ramp_policy_check :: "ecn_ramp_policy \<Rightarrow> string + unit" where
  "ecn_ramp_policy_check policy =
     (let numerator = pmax_numerator policy; denominator = pmax_denominator policy in
      if capacity_bytes policy = 0 then Inl ''needs a positive byte capacity''
      else if kmin_bytes policy = 0 \<or> kmin_bytes policy > kmax_bytes policy
              \<or> kmax_bytes policy > capacity_bytes policy
        then Inl ''needs 1 <= kmin <= kmax <= capacity bytes''
      else if numerator = 0 \<or> numerator > denominator then Inl ''needs 0 < pmax <= 1''
      else if ecn_gcd numerator denominator \<noteq> 1 then Inl ''needs pmax in lowest terms''
      else if kmin_bytes policy = kmax_bytes policy \<and> numerator \<noteq> denominator
        then Inl ''step (kmin == kmax) needs pmax = 1''
      else if ecn_ramp_span policy = None
        then Inl ''span pmax_denominator * (kmax - kmin) exceeds u64''
      else Inr ())"

subsection \<open>The mixer is a bijection\<close>

lemma bit_u64_ge [simp]: "64 \<le> n \<Longrightarrow> \<not> bit (x :: u64) n"
  using bit_imp_le_length [of x n] by auto

lemma bit_xorshift: "bit (xorshift k x) n \<longleftrightarrow> (bit x n \<noteq> bit x (n + k))"
  by (simp add: xorshift_def bit_xor_iff bit_drop_bit_eq add.commute)

lemma inj_xorshift:
  assumes "0 < k"
  shows "inj (xorshift k)"
proof (rule injI)
  fix x y :: u64
  assume eq: "xorshift k x = xorshift k y"
  have "bit x n = bit y n" for n
  proof (induction "64 - n" arbitrary: n rule: less_induct)
    case less
    show ?case
    proof (cases "n < 64")
      case True
      then have "bit x (n + k) = bit y (n + k)" using less assms by simp
      then show ?thesis using bit_xorshift [of k x n] bit_xorshift [of k y n] eq by auto
    qed simp
  qed
  then show "x = y" by (simp add: bit_eq_iff)
qed

lemma inj_mult_unit:
  assumes "c * d = (1 :: u64)"
  shows "inj (\<lambda>x. x * c)"
proof (rule injI)
  fix x y :: u64
  assume "x * c = y * c"
  then have "x * (c * d) = y * (c * d)" by (metis mult.assoc)
  then show "x = y" by (simp add: assms)
qed

lemma inj_mix: "inj mix"
proof -
  let ?m1 = "\<lambda>x :: u64. x * 0xbf58476d1ce4e5b9" and ?m2 = "\<lambda>x :: u64. x * 0x94d049bb133111eb"
  have "inj ?m1" by (rule inj_mult_unit [of _ "0x96de1b173f119089"]) simp
  moreover have "inj ?m2" by (rule inj_mult_unit [of _ "0x319642b2d24d8ec3"]) simp
  moreover have "inj (\<lambda>x :: u64. x + 0x9e3779b97f4a7c15)" by (simp add: inj_def)
  ultimately have "inj (xorshift 31 \<circ> ?m2 \<circ> xorshift 27 \<circ> ?m1 \<circ> xorshift 30 \<circ> (\<lambda>x. x + 0x9e3779b97f4a7c15))"
    by (intro inj_compose inj_xorshift) simp_all
  moreover have "mix = xorshift 31 \<circ> ?m2 \<circ> xorshift 27 \<circ> ?m1 \<circ> xorshift 30 \<circ> (\<lambda>x. x + 0x9e3779b97f4a7c15)"
    by (simp add: fun_eq_iff mix_def Let_def)
  ultimately show ?thesis by simp
qed

subsection \<open>The greatest common divisor\<close>

lemma unat_ecn_gcd: "unat (ecn_gcd a b) = gcd (unat a) (unat b)"
proof (induction a b rule: ecn_gcd.induct)
  case (1 a b)
  show ?case
  proof (cases "b = 0")
    case True
    then show ?thesis by (simp add: ecn_gcd.simps)
  next
    case False
    then show ?thesis
      using 1 by (subst ecn_gcd.simps) (simp add: unat_mod gcd_red_nat [of "unat a"])
  qed
qed

lemma ecn_gcd_eq_1_iff: "ecn_gcd a b = 1 \<longleftrightarrow> coprime (unat a) (unat b)"
  by (simp add: word_unat_eq_iff unat_ecn_gcd coprime_iff_gcd_eq_1)

subsection \<open>The decision is exact\<close>

lemma policy_check_facts:
  assumes "ecn_ramp_policy_check p = Inr ()"
  shows "unat (kmin_bytes p) \<le> unat (kmax_bytes p)" "0 < unat (pmax_numerator p)"
    "unat (pmax_numerator p) \<le> unat (pmax_denominator p)" "0 < unat (kmin_bytes p)"
    "unat (pmax_denominator p) * (unat (kmax_bytes p) - unat (kmin_bytes p)) < 2 ^ 64"
proof -
  have le: "kmin_bytes p \<le> kmax_bytes p" and "pmax_numerator p \<noteq> 0" "kmin_bytes p \<noteq> 0"
    "pmax_numerator p \<le> pmax_denominator p"
    and span: "ecn_ramp_span p \<noteq> None"
    using assms by (auto simp: ecn_ramp_policy_check_def Let_def not_less split: if_splits)
  then show "unat (kmin_bytes p) \<le> unat (kmax_bytes p)" "0 < unat (pmax_numerator p)"
    "unat (pmax_numerator p) \<le> unat (pmax_denominator p)" "0 < unat (kmin_bytes p)"
    by (simp_all add: unat_word_le unat_gt_0)
  from span obtain s where s: "ecn_ramp_span p = Some s" by blast
  then have "unat s = unat (pmax_denominator p) * (unat (kmax_bytes p) - unat (kmin_bytes p))"
    by (simp add: ecn_ramp_span_def checked_mul_Some_iff unat_saturating_sub)
  then show "unat (pmax_denominator p) * (unat (kmax_bytes p) - unat (kmin_bytes p)) < 2 ^ 64"
    using unat_lt [of s] by simp
qed

text \<open>The specification, on \<open>nat\<close>: \<open>u / 2^64 < pmax * (d - kmin) / (kmax - kmin)\<close>, cross-multiplied.\<close>

definition ramp_marks :: "ecn_ramp_policy \<Rightarrow> nat \<Rightarrow> nat \<Rightarrow> bool" where
  "ramp_marks p depth u \<longleftrightarrow>
     u * (unat (pmax_denominator p) * (unat (kmax_bytes p) - unat (kmin_bytes p)))
       < unat (pmax_numerator p) * (depth - unat (kmin_bytes p)) * 2 ^ 64"

lemma div_pow_less_iff: "(x :: nat) div 2 ^ k < b \<longleftrightarrow> x < b * 2 ^ k"
  by (simp add: div_less_iff_less_mult)

lemma decision_ramp:
  assumes "ecn_ramp_policy_check p = Inr ()"
    and d: "unat d = unat q + unat s" "d \<le> capacity_bytes p" "kmin_bytes p \<le> d" "d < kmax_bytes p"
  shows "ecn_ramp_decision p q s True u = (if ramp_marks p (unat d) (unat u) then EcnMark else EcnEnqueue)"
proof -
  note f = policy_check_facts [OF assms(1)]
  let ?span = "u64_to_u128 (pmax_denominator p) * u64_to_u128 (kmax_bytes p - kmin_bytes p)"
  have ca: "checked_add q s = Some d" using d(1) by (simp add: checked_add_Some_iff)
  have km: "unat (kmax_bytes p - kmin_bytes p) = unat (kmax_bytes p) - unat (kmin_bytes p)"
    using f(1) by (simp add: unat_sub_exact unat_word_le)
  have span: "unat ?span = unat (pmax_denominator p) * (unat (kmax_bytes p) - unat (kmin_bytes p))"
    by (simp add: unat_wide_mult km)
  have "unat (u64_to_u128 u) * unat ?span < 2 ^ 64 * 2 ^ 64"
    using f(5) unat_lt [of u] unfolding span unat_u64_to_u128
    by (intro mult_strict_mono) simp_all
  then have prod: "unat (u64_to_u128 u * ?span) = unat u * unat ?span"
    by (subst unat_mult_exact) (simp_all add: unat_u64_to_u128)
  have dm: "unat (d - kmin_bytes p) = unat d - unat (kmin_bytes p)"
    using d(3) by (simp add: unat_sub_exact)
  have db: "unat (drop_bit 64 x) = unat x div 2 ^ 64" for x :: u128
    unfolding unat_drop_bit_eq by (rule drop_bit_eq_div)
  have "drop_bit 64 (u64_to_u128 u * ?span)
      < u64_to_u128 (pmax_numerator p) * u64_to_u128 (d - kmin_bytes p)
    \<longleftrightarrow> ramp_marks p (unat d) (unat u)"
    unfolding unat_word_less db prod div_pow_less_iff
    by (simp add: ramp_marks_def span unat_wide_mult dm km)
  moreover have "\<not> d > capacity_bytes p" "\<not> d < kmin_bytes p" "\<not> d \<ge> kmax_bytes p"
    using d(2-4) by (simp_all add: not_less not_le)
  ultimately show ?thesis by (simp add: ecn_ramp_decision_def ca Let_def)
qed

lemma decision_exact:
  assumes "ecn_ramp_policy_check p = Inr ()"
  shows "ecn_ramp_decision p q s capable u =
    (let depth = unat q + unat s in
     if unat (capacity_bytes p) < depth then EcnDrop
     else if \<not> capable \<or> depth < unat (kmin_bytes p) then EcnEnqueue
     else if unat (kmax_bytes p) \<le> depth then EcnMark
     else if unat u * (unat (pmax_denominator p) * (unat (kmax_bytes p) - unat (kmin_bytes p)))
               < unat (pmax_numerator p) * (depth - unat (kmin_bytes p)) * 2 ^ 64 then EcnMark
     else EcnEnqueue)"
proof (cases "checked_add q s")
  case None
  then have "2 ^ 64 \<le> unat q + unat s" by (simp add: checked_add_None_iff)
  then have "unat (capacity_bytes p) < unat q + unat s" using unat_lt [of "capacity_bytes p"] by simp
  then show ?thesis by (simp add: ecn_ramp_decision_def None Let_def)
next
  case (Some d)
  then have d: "unat d = unat q + unat s" by (simp add: checked_add_Some_iff)
  show ?thesis
  proof (cases "capable \<and> d \<le> capacity_bytes p \<and> kmin_bytes p \<le> d \<and> d < kmax_bytes p")
    case True
    then show ?thesis
      using decision_ramp [OF assms d, of u] d
      by (simp add: ramp_marks_def Let_def unat_word_less unat_word_le)
  next
    case False
    then consider "capacity_bytes p < d" | "d \<le> capacity_bytes p" "\<not> capable \<or> d < kmin_bytes p"
      | "d \<le> capacity_bytes p" "capable" "kmin_bytes p \<le> d" "kmax_bytes p \<le> d"
      by (meson not_le)
    then show ?thesis
      using d by cases (simp_all add: ecn_ramp_decision_def Some unat_word_less unat_word_le)
  qed
qed

lemma less_ceil_div_iff: "0 < d \<Longrightarrow> n * d < x \<longleftrightarrow> n < ceil_div x d"
  using ceil_div_least [of d x]
  by (metis leD leI mult_le_mono1 order_trans)

lemma card_words_below:
  assumes "m \<le> 2 ^ 64"
  shows "card {u :: u64. unat u < m} = m"
proof -
  have "bij_betw unat {u :: u64. unat u < m} {..<m}"
  proof (rule bij_betwI')
    show "unat u = unat v \<longleftrightarrow> u = v" for u v :: u64 by (simp add: word_unat_eq_iff)
    show "\<exists>u \<in> {u :: u64. unat u < m}. n = unat u" if "n \<in> {..<m}" for n
      using that assms by (intro bexI [of _ "of_nat n"]) (simp_all add: unat_of_nat)
  qed simp
  from bij_betw_same_card [OF this] show ?thesis by simp
qed

subsection \<open>Properties\<close>

text \<open>
  C22. SplitMix64's output function is a bijection on 64-bit words, so two arrivals at one queue
  that differ in their payload identity never share a draw, and neither do two queues' keys that
  differ in the queue slot only.
\<close>

theorem mix_bijective:
  "bij mix \<and> inj (ecn_draw key) \<and> inj (ecn_queue_key seed node)"
proof -
  have x: "inj (\<lambda>y :: u64. c XOR y)" for c
  proof (rule injI)
    fix y z :: u64
    assume "c XOR y = c XOR z"
    then have "c XOR (c XOR y) = c XOR (c XOR z)" by simp
    then show "y = z" by (simp add: xor.assoc [symmetric])
  qed
  have "inj (mix \<circ> (\<lambda>y. key XOR y))"
    "inj (mix \<circ> (\<lambda>y. mix (mix (seed XOR ecn_ramp_domain) XOR node) XOR y))"
    by (intro inj_compose inj_mix x)+
  moreover have "bij mix" using inj_mix finite_UNIV_inj_surj [of mix] by (simp add: bij_def)
  ultimately show ?thesis by (simp add: comp_def ecn_draw_def [abs_def] ecn_queue_key_def [abs_def])
qed

text \<open>
  C24. The ECN ramp's decision is exact for every policy the check accepts: an arrival whose depth
  passes the byte capacity (or does not fit 64 bits) drops, one that cannot carry ECN or stays
  below \<open>kmin\<close> is enqueued, one at or above \<open>kmax\<close> is marked, and inside the ramp the 128-bit
  high multiply decides the rational comparison \<open>draw / 2^64 < pmax * (depth - kmin) / (kmax - kmin)\<close>
  without rounding.
\<close>

theorem ecn_ramp_decision_exact:
  assumes "ecn_ramp_policy_check p = Inr ()"
  shows "ecn_ramp_decision p q s capable u =
    (let depth = unat q + unat s in
     if unat (capacity_bytes p) < depth then EcnDrop
     else if \<not> capable \<or> depth < unat (kmin_bytes p) then EcnEnqueue
     else if unat (kmax_bytes p) \<le> depth then EcnMark
     else if unat u * (unat (pmax_denominator p) * (unat (kmax_bytes p) - unat (kmin_bytes p)))
               < unat (pmax_numerator p) * (depth - unat (kmin_bytes p)) * 2 ^ 64 then EcnMark
     else EcnEnqueue)"
  using assms by (rule decision_exact)

theorem ecn_ramp_decision_exact_witness:
  "ecn_ramp_decision \<lparr>capacity_bytes = 100, kmin_bytes = 10, kmax_bytes = 20, pmax_numerator = 1,
     pmax_denominator = 2\<rparr> 10 5 True 0x3fffffffffffffff = EcnMark"
proof -
  let ?p = "\<lparr>capacity_bytes = 100, kmin_bytes = 10, kmax_bytes = 20, pmax_numerator = 1,
     pmax_denominator = 2\<rparr>"
  have "ecn_ramp_policy_check ?p = Inr ()"
    by (simp add: ecn_ramp_policy_check_def Let_def ecn_gcd.simps ecn_ramp_span_def checked_mul_def
        saturating_sub_def)
  from ecn_ramp_decision_exact [OF this, of 10 5 True "0x3fffffffffffffff"] show ?thesis by simp
qed

text \<open>
  Inside the ramp exactly \<open>ceil(P(depth) * 2^64)\<close> of the \<open>2^64\<close> possible draws mark, where
  \<open>P(depth) = pmax * (depth - kmin) / (kmax - kmin)\<close>: over a uniform draw the mark probability is
  the configured one, rounded up to a multiple of \<open>2^-64\<close>.
\<close>

theorem ecn_ramp_mark_count:
  assumes "ecn_ramp_policy_check p = Inr ()"
    and "unat (kmin_bytes p) \<le> unat q + unat s" and "unat q + unat s < unat (kmax_bytes p)"
  shows "card {u. ecn_ramp_decision p q s True u = EcnMark} =
    (if unat (capacity_bytes p) < unat q + unat s then 0
     else ceil_div (unat (pmax_numerator p) * (unat q + unat s - unat (kmin_bytes p)) * 2 ^ 64)
       (unat (pmax_denominator p) * (unat (kmax_bytes p) - unat (kmin_bytes p))))"
proof -
  note f = policy_check_facts [OF assms(1)]
  let ?b = "unat (pmax_numerator p) * (unat q + unat s - unat (kmin_bytes p)) * 2 ^ 64"
  let ?span = "unat (pmax_denominator p) * (unat (kmax_bytes p) - unat (kmin_bytes p))"
  have pos: "0 < ?span" using assms f by simp
  have "?b \<le> 2 ^ 64 * ?span"
    using f(3) assms(3) by (simp add: mult.commute mult_le_mono)
  then have le: "ceil_div ?b ?span \<le> 2 ^ 64" by (rule ceil_div_least(2) [OF pos])
  have "ecn_ramp_decision p q s True u = EcnMark \<longleftrightarrow>
      \<not> unat (capacity_bytes p) < unat q + unat s \<and> unat u < ceil_div ?b ?span" for u
    using assms(2,3) unfolding decision_exact [OF assms(1)] Let_def
    by (simp add: less_ceil_div_iff [OF pos, symmetric])
  then show ?thesis using card_words_below [OF le] by simp
qed

end
