(* ===== verification/Tcp_Control.thy ===== *)
theory Tcp_Control
  imports Link_Time
begin

section \<open>TCP congestion control\<close>

text \<open>
  \<open>executor/src/tcp.rs\<close>: fixed-width Reno and CUBIC and the RFC 6298 timeout estimator.  A method
  that mutates its receiver returns the new record.  \<open>BigUint\<close> intermediates are \<open>nat\<close>.  The two
  loops of \<open>floor_cube_root\<close> run on \<open>u64\<close> variables with a step bound of 64, which is shown to be
  enough; Reno's credit loop is total.  The lemmas give each numerical routine its exact value, and
  the controllers an invariant every operation keeps.
\<close>

definition cubic_window_scale :: u64 where "cubic_window_scale = 1000000000"
definition cubic_max_segments :: u64 where "cubic_max_segments = 2000000"
definition cubic_max_window_scaled :: u64 where
  "cubic_max_window_scaled = cubic_max_segments * cubic_window_scale"
definition initial_ssthresh_bytes :: u64 where "initial_ssthresh_bytes = 65535"
definition min_rto_ns :: u64 where "min_rto_ns = 1000000000"
definition max_rto_ns :: u64 where "max_rto_ns = 60000000000"
definition rto_clock_granularity_ns :: u64 where "rto_clock_granularity_ns = 1000000"

datatype tcp_phase = SlowStart | CongestionAvoidance | FastRecovery

record tcp_reno =
  reno_mss_bytes :: u64
  reno_cwnd_bytes :: u64
  reno_ssthresh_bytes :: u64
  reno_phase :: tcp_phase
  reno_duplicate_acks :: u64
  reno_recovery_high_sequence :: u64
  reno_ca_credit :: u64

record tcp_cubic =
  cubic_mss_bytes :: u64
  cubic_cwnd_scaled :: u64
  cubic_ssthresh_scaled :: u64
  cubic_phase :: tcp_phase
  cubic_duplicate_acks :: u64
  cubic_recovery_high_sequence :: u64
  cubic_w_max_scaled :: u64
  cubic_w_last_max_scaled :: u64
  cubic_epoch_start_ns :: u64
  cubic_srtt_ns :: u64
  cubic_k :: u64

datatype tcp_congestion_control = Reno tcp_reno | Cubic tcp_cubic

subsection \<open>Scaling and saturation\<close>

definition nonzero_mss :: "u64 \<Rightarrow> u64" where
  "nonzero_mss mss_bytes = (if mss_bytes = 0 then 1 else mss_bytes)"

text \<open>\<open>x.min(u128::from(u64::MAX)) as u64\<close>, written with \<open>if\<close> in the \<open>const\<close> functions.\<close>

definition narrow_saturating :: "u128 \<Rightarrow> u64" where
  "narrow_saturating x = u128_to_u64 (min x (u64_to_u128 u_max))"

definition bytes_to_scaled_const :: "u64 \<Rightarrow> u64 \<Rightarrow> u64" where
  "bytes_to_scaled_const bytes mss_bytes =
     narrow_saturating (u64_to_u128 bytes * u64_to_u128 cubic_window_scale
       div u64_to_u128 (nonzero_mss mss_bytes))"

definition scaled_to_bytes_const :: "u64 \<Rightarrow> u64 \<Rightarrow> u64" where
  "scaled_to_bytes_const scaled mss_bytes =
     narrow_saturating (u64_to_u128 scaled * u64_to_u128 (nonzero_mss mss_bytes)
       div u64_to_u128 cubic_window_scale)"

definition bytes_to_scaled :: "u64 \<Rightarrow> u64 \<Rightarrow> u64" where
  "bytes_to_scaled bytes mss_bytes =
     min (bytes_to_scaled_const bytes mss_bytes) cubic_max_window_scaled"

definition mul_ratio :: "u64 \<Rightarrow> u64 \<Rightarrow> u64 \<Rightarrow> u64" where
  "mul_ratio value numerator denominator =
     narrow_saturating (u64_to_u128 value * u64_to_u128 numerator div u64_to_u128 denominator)"

definition big_to_u64_saturating :: "nat \<Rightarrow> u64" where
  "big_to_u64_saturating value = (if value < 2 ^ 64 then of_nat value else u_max)"

subsection \<open>The cube root and the CUBIC curve\<close>

definition cube :: "u64 \<Rightarrow> nat" where
  "cube value = unat value * unat value * unat value"

fun cube_root_high :: "nat \<Rightarrow> nat \<Rightarrow> u64 \<Rightarrow> u64" where
  "cube_root_high 0 value high = high"
| "cube_root_high (Suc fuel) value high =
     (if cube high \<le> value \<and> high \<le> u_max div 2 then cube_root_high fuel value (high * 2)
      else high)"

fun cube_root_search :: "nat \<Rightarrow> nat \<Rightarrow> u64 \<Rightarrow> u64 \<Rightarrow> u64" where
  "cube_root_search 0 value low high = low"
| "cube_root_search (Suc fuel) value low high =
     (if low + 1 < high then
        let middle = low + (high - low) div 2 in
        if cube middle \<le> value then cube_root_search fuel value middle high
        else cube_root_search fuel value low middle
      else low)"

definition floor_cube_root :: "nat \<Rightarrow> u64" where
  "floor_cube_root value =
     (if value = 0 then 0
      else
        let high = cube_root_high 64 value 1 in
        if cube high \<le> value then u_max
        else cube_root_search 64 value 0 high)"

definition cubic_k_ns :: "u64 \<Rightarrow> u64" where
  "cubic_k_ns w_max_scaled =
     (if w_max_scaled = 0 then 0
      else floor_cube_root (unat w_max_scaled * 3 * 1000000000000000000 div 4))"

definition cubic_window_scaled :: "u64 \<Rightarrow> u64 \<Rightarrow> u64 \<Rightarrow> u64" where
  "cubic_window_scaled w_max_scaled k_ns elapsed_ns =
     (let negative = elapsed_ns < k_ns;
          distance = unat (abs_diff elapsed_ns k_ns);
          magnitude = big_to_u64_saturating (distance ^ 3 * 2 div 5000000000000000000)
      in if negative then max (saturating_sub w_max_scaled magnitude) cubic_window_scale
         else clamp_word (saturating_add w_max_scaled magnitude)
                cubic_window_scale cubic_max_window_scaled)"

definition tcp_friendly_window_scaled :: "u64 \<Rightarrow> u64 \<Rightarrow> u64 \<Rightarrow> u64" where
  "tcp_friendly_window_scaled w_max_scaled elapsed_ns rtt_ns =
     (let base = mul_ratio w_max_scaled 7 10;
          growth = unat cubic_window_scale * 9 * unat elapsed_ns div (17 * unat (max rtt_ns 1))
      in clamp_word (saturating_add base (big_to_u64_saturating growth))
           cubic_window_scale cubic_max_window_scaled)"

definition cubic_ack_step :: "u64 \<Rightarrow> u64 \<Rightarrow> u64" where
  "cubic_ack_step cwnd_scaled target_scaled =
     (if target_scaled \<ge> cwnd_scaled then
        let increment = narrow_saturating
              (u64_to_u128 (target_scaled - cwnd_scaled) * u64_to_u128 cubic_window_scale
               div u64_to_u128 (max cwnd_scaled cubic_window_scale))
        in saturating_add cwnd_scaled increment
      else
        let decrement = narrow_saturating
              (u64_to_u128 (cwnd_scaled - target_scaled) * u64_to_u128 cubic_window_scale
               div u64_to_u128 (max cwnd_scaled cubic_window_scale))
        in saturating_sub cwnd_scaled decrement)"

subsection \<open>Reno\<close>

definition reno_on_recovery_exit :: "tcp_reno \<Rightarrow> tcp_reno" where
  "reno_on_recovery_exit r =
     r\<lparr>reno_cwnd_bytes := max (reno_ssthresh_bytes r) (reno_mss_bytes r),
       reno_phase := CongestionAvoidance, reno_duplicate_acks := 0,
       reno_recovery_high_sequence := 0, reno_ca_credit := 0\<rparr>"

text \<open>The \<open>while\<close> loop of congestion avoidance, on (credit, window).\<close>

function reno_credit_loop :: "u64 \<Rightarrow> u64 \<Rightarrow> u64 \<Rightarrow> u64 \<times> u64" where
  "reno_credit_loop mss credit cwnd =
     (if credit \<ge> max cwnd 1 then
        reno_credit_loop mss (credit - max cwnd 1) (saturating_add cwnd mss)
      else (credit, cwnd))"
  by pat_completeness auto
termination
proof (relation "measure (\<lambda>(mss, credit, cwnd). unat credit)")
  fix mss credit cwnd :: u64
  assume "max cwnd 1 \<le> credit"
  moreover have "0 < unat (max cwnd 1)" by (simp add: unat_max)
  ultimately show "((mss, credit - max cwnd 1, saturating_add cwnd mss), mss, credit, cwnd)
      \<in> measure (\<lambda>(mss, credit, cwnd). unat credit)"
    by (simp add: unat_sub_exact unat_word_le)
qed simp

declare reno_credit_loop.simps [simp del]

definition reno_on_new_ack :: "u64 \<Rightarrow> u64 \<Rightarrow> tcp_reno \<Rightarrow> tcp_reno" where
  "reno_on_new_ack acknowledged_bytes acknowledgment r0 =
     (let r = r0\<lparr>reno_duplicate_acks := 0\<rparr> in
      case reno_phase r of
        SlowStart \<Rightarrow>
          (let cwnd = saturating_add (reno_cwnd_bytes r) (min (reno_mss_bytes r) acknowledged_bytes)
           in if cwnd \<ge> reno_ssthresh_bytes r
              then r\<lparr>reno_cwnd_bytes := reno_ssthresh_bytes r, reno_phase := CongestionAvoidance,
                     reno_ca_credit := 0\<rparr>
              else r\<lparr>reno_cwnd_bytes := cwnd\<rparr>)
      | CongestionAvoidance \<Rightarrow>
          (let (credit, cwnd) = reno_credit_loop (reno_mss_bytes r)
                 (saturating_add (reno_ca_credit r) acknowledged_bytes) (reno_cwnd_bytes r)
           in r\<lparr>reno_ca_credit := credit, reno_cwnd_bytes := cwnd\<rparr>)
      | FastRecovery \<Rightarrow>
          (if reno_recovery_high_sequence r \<noteq> 0 \<and> acknowledgment \<ge> reno_recovery_high_sequence r
           then reno_on_recovery_exit r
           else r\<lparr>reno_cwnd_bytes := saturating_add (reno_ssthresh_bytes r) (reno_mss_bytes r)\<rparr>))"

definition reno_on_fast_retransmit :: "u64 \<Rightarrow> tcp_reno \<Rightarrow> tcp_reno" where
  "reno_on_fast_retransmit flight_size_bytes r =
     (let minimum = saturating_mul (reno_mss_bytes r) 2;
          ssthresh = max (flight_size_bytes div 2) minimum
      in r\<lparr>reno_ssthresh_bytes := ssthresh,
           reno_cwnd_bytes := saturating_add ssthresh (saturating_mul (reno_mss_bytes r) 3),
           reno_phase := FastRecovery, reno_ca_credit := 0\<rparr>)"

definition reno_on_more_duplicate_ack :: "tcp_reno \<Rightarrow> tcp_reno" where
  "reno_on_more_duplicate_ack r =
     (if reno_phase r = FastRecovery
      then r\<lparr>reno_cwnd_bytes := saturating_add (reno_cwnd_bytes r) (reno_mss_bytes r)\<rparr> else r)"

definition reno_on_timeout :: "u64 \<Rightarrow> tcp_reno \<Rightarrow> tcp_reno" where
  "reno_on_timeout flight_size_bytes r =
     (let minimum = saturating_mul (reno_mss_bytes r) 2
      in r\<lparr>reno_ssthresh_bytes := max (flight_size_bytes div 2) minimum,
           reno_cwnd_bytes := reno_mss_bytes r, reno_phase := SlowStart, reno_duplicate_acks := 0,
           reno_recovery_high_sequence := 0, reno_ca_credit := 0\<rparr>)"

subsection \<open>CUBIC\<close>

definition cubic_update_srtt :: "u64 \<Rightarrow> tcp_cubic \<Rightarrow> tcp_cubic" where
  "cubic_update_srtt sample c =
     (let sample_ns = max sample 1 in
      if cubic_srtt_ns c = 0 then c\<lparr>cubic_srtt_ns := sample_ns\<rparr>
      else c\<lparr>cubic_srtt_ns := narrow_saturating
               ((u64_to_u128 (cubic_srtt_ns c) * 7 + u64_to_u128 sample_ns) div 8)\<rparr>)"

definition cubic_ensure_epoch :: "u64 \<Rightarrow> tcp_cubic \<Rightarrow> tcp_cubic" where
  "cubic_ensure_epoch now_ns c =
     (if cubic_epoch_start_ns c = u_max then
        (if cubic_w_max_scaled c = 0
         then c\<lparr>cubic_epoch_start_ns := now_ns, cubic_w_max_scaled := cubic_cwnd_scaled c,
                cubic_k := 0\<rparr>
         else c\<lparr>cubic_epoch_start_ns := now_ns, cubic_k := cubic_k_ns (cubic_w_max_scaled c)\<rparr>)
      else c)"

definition cubic_update_window :: "u64 \<Rightarrow> tcp_cubic \<Rightarrow> tcp_cubic" where
  "cubic_update_window now_ns c0 =
     (let c = cubic_ensure_epoch now_ns c0;
          elapsed_ns = saturating_sub now_ns (cubic_epoch_start_ns c);
          cubic_now = cubic_window_scaled (cubic_w_max_scaled c) (cubic_k c) elapsed_ns;
          friendly = tcp_friendly_window_scaled (cubic_w_max_scaled c) elapsed_ns
                       (max (cubic_srtt_ns c) 1)
      in if cubic_now < friendly
         then c\<lparr>cubic_cwnd_scaled := min friendly cubic_max_window_scaled\<rparr>
         else
           let target = cubic_window_scaled (cubic_w_max_scaled c) (cubic_k c)
                          (saturating_add elapsed_ns (max (cubic_srtt_ns c) 1))
           in c\<lparr>cubic_cwnd_scaled := clamp_word (cubic_ack_step (cubic_cwnd_scaled c) target)
                  cubic_window_scale cubic_max_window_scaled\<rparr>)"

definition cubic_on_recovery_exit :: "tcp_cubic \<Rightarrow> tcp_cubic" where
  "cubic_on_recovery_exit c =
     c\<lparr>cubic_cwnd_scaled := clamp_word (cubic_ssthresh_scaled c)
         cubic_window_scale cubic_max_window_scaled,
       cubic_phase := CongestionAvoidance, cubic_duplicate_acks := 0,
       cubic_recovery_high_sequence := 0\<rparr>"

definition cubic_on_new_ack :: "u64 \<Rightarrow> u64 \<Rightarrow> u64 \<Rightarrow> u64 \<Rightarrow> u64 \<Rightarrow> tcp_cubic \<Rightarrow> tcp_cubic" where
  "cubic_on_new_ack acknowledged_bytes now_ns rtt_sample_ns flight_size_bytes acknowledgment c0 =
     (let c = cubic_update_srtt rtt_sample_ns (c0\<lparr>cubic_duplicate_acks := 0\<rparr>) in
      case cubic_phase c of
        SlowStart \<Rightarrow>
          (let acknowledged_segments = div_ceil acknowledged_bytes (cubic_mss_bytes c);
               c = c\<lparr>cubic_cwnd_scaled :=
                      min (saturating_add (cubic_cwnd_scaled c)
                            (saturating_mul acknowledged_segments cubic_window_scale))
                          cubic_max_window_scaled\<rparr>
           in if cubic_cwnd_scaled c \<ge> cubic_ssthresh_scaled c then
                (let c = c\<lparr>cubic_phase := CongestionAvoidance, cubic_epoch_start_ns := now_ns\<rparr>
                 in if cubic_w_max_scaled c = 0
                    then c\<lparr>cubic_w_max_scaled := cubic_cwnd_scaled c, cubic_k := 0\<rparr> else c)
              else c)
      | CongestionAvoidance \<Rightarrow> cubic_update_window now_ns c
      | FastRecovery \<Rightarrow>
          (if cubic_recovery_high_sequence c \<noteq> 0 \<and> acknowledgment \<ge> cubic_recovery_high_sequence c
           then cubic_on_recovery_exit c else c))"

definition cubic_on_fast_retransmit :: "u64 \<Rightarrow> u64 \<Rightarrow> tcp_cubic \<Rightarrow> tcp_cubic" where
  "cubic_on_fast_retransmit flight_size_bytes now_ns c0 =
     (let previous_max = cubic_w_last_max_scaled c0;
          current = cubic_cwnd_scaled c0;
          c = (if previous_max > 0 \<and> current < previous_max
               then c0\<lparr>cubic_w_last_max_scaled := current,
                       cubic_w_max_scaled := mul_ratio current 17 20\<rparr>
               else c0\<lparr>cubic_w_last_max_scaled := current, cubic_w_max_scaled := current\<rparr>);
          flight_scaled = bytes_to_scaled flight_size_bytes (cubic_mss_bytes c);
          reduced = max (mul_ratio flight_scaled 7 10) cubic_window_scale
      in c\<lparr>cubic_ssthresh_scaled := max reduced (2 * cubic_window_scale),
           cubic_cwnd_scaled := min reduced cubic_max_window_scaled,
           cubic_phase := FastRecovery, cubic_epoch_start_ns := now_ns,
           cubic_k := cubic_k_ns (cubic_w_max_scaled c)\<rparr>)"

definition cubic_on_more_duplicate_ack :: "tcp_cubic \<Rightarrow> tcp_cubic" where
  "cubic_on_more_duplicate_ack c =
     (if cubic_phase c = FastRecovery
      then c\<lparr>cubic_cwnd_scaled := min (saturating_add (cubic_cwnd_scaled c) cubic_window_scale)
               cubic_max_window_scaled\<rparr>
      else c)"

definition cubic_on_timeout :: "u64 \<Rightarrow> tcp_cubic \<Rightarrow> tcp_cubic" where
  "cubic_on_timeout flight_size_bytes c =
     (let flight_scaled = bytes_to_scaled flight_size_bytes (cubic_mss_bytes c)
      in c\<lparr>cubic_ssthresh_scaled := clamp_word (mul_ratio flight_scaled 7 10)
             (2 * cubic_window_scale) cubic_max_window_scaled,
           cubic_cwnd_scaled := cubic_window_scale, cubic_w_max_scaled := 0,
           cubic_w_last_max_scaled := 0, cubic_epoch_start_ns := u_max, cubic_k := 0,
           cubic_phase := SlowStart, cubic_duplicate_acks := 0,
           cubic_recovery_high_sequence := 0\<rparr>)"

subsection \<open>The controller\<close>

definition tcp_reno_new :: "u64 \<Rightarrow> tcp_congestion_control" where
  "tcp_reno_new mss =
     (let mss_bytes = nonzero_mss mss in
      Reno \<lparr>reno_mss_bytes = mss_bytes, reno_cwnd_bytes = saturating_mul mss_bytes 2,
            reno_ssthresh_bytes = initial_ssthresh_bytes, reno_phase = SlowStart,
            reno_duplicate_acks = 0, reno_recovery_high_sequence = 0, reno_ca_credit = 0\<rparr>)"

definition tcp_cubic_new :: "u64 \<Rightarrow> tcp_congestion_control" where
  "tcp_cubic_new mss =
     (let mss_bytes = nonzero_mss mss;
          threshold = bytes_to_scaled_const initial_ssthresh_bytes mss_bytes
      in Cubic \<lparr>cubic_mss_bytes = mss_bytes, cubic_cwnd_scaled = cubic_window_scale,
                cubic_ssthresh_scaled = threshold, cubic_phase = SlowStart,
                cubic_duplicate_acks = 0, cubic_recovery_high_sequence = 0,
                cubic_w_max_scaled = 0, cubic_w_last_max_scaled = 0,
                cubic_epoch_start_ns = u_max, cubic_srtt_ns = 0, cubic_k = 0\<rparr>)"

fun tcp_phase_of :: "tcp_congestion_control \<Rightarrow> tcp_phase" where
  "tcp_phase_of (Reno r) = reno_phase r"
| "tcp_phase_of (Cubic c) = cubic_phase c"

fun tcp_cwnd_bytes :: "tcp_congestion_control \<Rightarrow> u64 \<Rightarrow> u64" where
  "tcp_cwnd_bytes (Reno r) mss = reno_cwnd_bytes r"
| "tcp_cwnd_bytes (Cubic c) mss = scaled_to_bytes_const (cubic_cwnd_scaled c) (cubic_mss_bytes c)"

fun tcp_ssthresh_bytes :: "tcp_congestion_control \<Rightarrow> u64" where
  "tcp_ssthresh_bytes (Reno r) = reno_ssthresh_bytes r"
| "tcp_ssthresh_bytes (Cubic c) =
     scaled_to_bytes_const (cubic_ssthresh_scaled c) (cubic_mss_bytes c)"

fun tcp_duplicate_acks :: "tcp_congestion_control \<Rightarrow> u64" where
  "tcp_duplicate_acks (Reno r) = reno_duplicate_acks r"
| "tcp_duplicate_acks (Cubic c) = cubic_duplicate_acks c"

fun tcp_recovery_high_sequence :: "tcp_congestion_control \<Rightarrow> u64" where
  "tcp_recovery_high_sequence (Reno r) = reno_recovery_high_sequence r"
| "tcp_recovery_high_sequence (Cubic c) = cubic_recovery_high_sequence c"

fun set_recovery_high_sequence :: "u64 \<Rightarrow> tcp_congestion_control \<Rightarrow> tcp_congestion_control" where
  "set_recovery_high_sequence s (Reno r) = Reno (r\<lparr>reno_recovery_high_sequence := s\<rparr>)"
| "set_recovery_high_sequence s (Cubic c) = Cubic (c\<lparr>cubic_recovery_high_sequence := s\<rparr>)"

fun tcp_on_new_ack ::
  "u64 \<Rightarrow> u64 \<Rightarrow> u64 \<Rightarrow> u64 \<Rightarrow> u64 \<Rightarrow> tcp_congestion_control \<Rightarrow> tcp_congestion_control" where
  "tcp_on_new_ack acked now rtt flight ack (Reno r) = Reno (reno_on_new_ack acked ack r)"
| "tcp_on_new_ack acked now rtt flight ack (Cubic c) =
     Cubic (cubic_on_new_ack acked now rtt flight ack c)"

fun tcp_on_fast_retransmit :: "u64 \<Rightarrow> u64 \<Rightarrow> tcp_congestion_control \<Rightarrow> tcp_congestion_control" where
  "tcp_on_fast_retransmit flight now (Reno r) = Reno (reno_on_fast_retransmit flight r)"
| "tcp_on_fast_retransmit flight now (Cubic c) = Cubic (cubic_on_fast_retransmit flight now c)"

fun tcp_on_more_duplicate_ack :: "tcp_congestion_control \<Rightarrow> tcp_congestion_control" where
  "tcp_on_more_duplicate_ack (Reno r) = Reno (reno_on_more_duplicate_ack r)"
| "tcp_on_more_duplicate_ack (Cubic c) = Cubic (cubic_on_more_duplicate_ack c)"

fun tcp_count_duplicate :: "tcp_congestion_control \<Rightarrow> tcp_congestion_control" where
  "tcp_count_duplicate (Reno r) =
     Reno (r\<lparr>reno_duplicate_acks := saturating_add (reno_duplicate_acks r) 1\<rparr>)"
| "tcp_count_duplicate (Cubic c) =
     Cubic (c\<lparr>cubic_duplicate_acks := saturating_add (cubic_duplicate_acks c) 1\<rparr>)"

definition tcp_on_duplicate_ack ::
  "u64 \<Rightarrow> u64 \<Rightarrow> tcp_congestion_control \<Rightarrow> bool \<times> tcp_congestion_control" where
  "tcp_on_duplicate_ack flight now t0 =
     (let t = tcp_count_duplicate t0; duplicate_acks = tcp_duplicate_acks t in
      if duplicate_acks = 3 then (True, tcp_on_fast_retransmit flight now t)
      else (False, if duplicate_acks > 3 then tcp_on_more_duplicate_ack t else t))"

fun tcp_on_recovery_exit :: "tcp_congestion_control \<Rightarrow> tcp_congestion_control" where
  "tcp_on_recovery_exit (Reno r) = Reno (reno_on_recovery_exit r)"
| "tcp_on_recovery_exit (Cubic c) = Cubic (cubic_on_recovery_exit c)"

fun tcp_on_timeout :: "u64 \<Rightarrow> u64 \<Rightarrow> tcp_congestion_control \<Rightarrow> tcp_congestion_control" where
  "tcp_on_timeout flight now (Reno r) = Reno (reno_on_timeout flight r)"
| "tcp_on_timeout flight now (Cubic c) = Cubic (cubic_on_timeout flight c)"

subsection \<open>The retransmission timeout\<close>

text \<open>\<open>update_rto_ns\<close> returns the new smoothed round trip, the new variation and the timeout.\<close>

definition update_rto_ns :: "u64 \<Rightarrow> u64 \<Rightarrow> u64 \<Rightarrow> u64 \<times> u64 \<times> u64" where
  "update_rto_ns srtt0 rtt_var0 sample =
     (let sample_ns = max sample 1;
          (srtt, rtt_var) =
            (if srtt0 = 0 then (sample_ns, sample_ns div 2)
             else
               let deviation = abs_diff srtt0 sample_ns
               in (narrow_saturating ((u64_to_u128 srtt0 * 7 + u64_to_u128 sample_ns) div 8),
                   narrow_saturating ((u64_to_u128 rtt_var0 * 3 + u64_to_u128 deviation) div 4)))
      in (srtt, rtt_var,
          clamp_word (saturating_add srtt
              (max (saturating_mul rtt_var 4) rto_clock_granularity_ns))
            min_rto_ns max_rto_ns))"

subsection \<open>Exact values of the arithmetic\<close>

lemmas tcp_consts = cubic_window_scale_def cubic_max_segments_def cubic_max_window_scaled_def
  initial_ssthresh_bytes_def min_rto_ns_def max_rto_ns_def rto_clock_granularity_ns_def

lemma unat_narrow_saturating [unat_simps]: "unat (narrow_saturating x) = min (unat x) (2 ^ 64 - 1)"
proof -
  have "unat (min x (u64_to_u128 u_max)) = min (unat x) (2 ^ 64 - 1)"
    by (simp add: unat_min unat_u64_to_u128 unat_u_max)
  then show ?thesis unfolding narrow_saturating_def unat_u128_to_u64 by simp
qed

lemma unat_nonzero_mss [unat_simps]: "unat (nonzero_mss m) = max (unat m) 1"
proof (cases "m = 0")
  case False
  then have "0 < unat m" by (simp add: unat_gt_0)
  with False show ?thesis by (simp add: nonzero_mss_def max_def)
qed (simp add: nonzero_mss_def)

lemma unat_scaled_to_bytes_const:
  "unat (scaled_to_bytes_const s m) = min (unat s * max (unat m) 1 div 10 ^ 9) (2 ^ 64 - 1)"
  unfolding scaled_to_bytes_const_def unat_narrow_saturating unat_div unat_wide_mult unat_u64_to_u128
    unat_nonzero_mss by (simp add: tcp_consts)

lemma unat_bytes_to_scaled_const:
  "unat (bytes_to_scaled_const b m) = min (unat b * 10 ^ 9 div max (unat m) 1) (2 ^ 64 - 1)"
  unfolding bytes_to_scaled_const_def unat_narrow_saturating unat_div unat_wide_mult unat_u64_to_u128
    unat_nonzero_mss by (simp add: tcp_consts)

lemma unat_bytes_to_scaled:
  "unat (bytes_to_scaled b m) = min (unat b * 10 ^ 9 div max (unat m) 1) (2 * 10 ^ 15)"
  unfolding bytes_to_scaled_def unat_min unat_bytes_to_scaled_const by (simp add: tcp_consts)

lemma unat_mul_ratio: "unat (mul_ratio v n d) = min (unat v * unat n div unat d) (2 ^ 64 - 1)"
  unfolding mul_ratio_def unat_narrow_saturating unat_div unat_wide_mult unat_u64_to_u128 ..

lemma unat_big_to_u64_saturating [unat_simps]: "unat (big_to_u64_saturating n) = min n (2 ^ 64 - 1)"
  by (auto simp: big_to_u64_saturating_def unat_of_nat unat_u_max)

text \<open>A weighted mean of two \<open>u64\<close> values, in \<open>u128\<close>: exact, and between the two.\<close>

lemma ewma_exact:
  assumes "w + 1 \<le> 8"
  shows "unat ((u64_to_u128 a * of_nat w + u64_to_u128 b) div of_nat (w + 1))
       = (unat a * w + unat b) div (w + 1)"
proof -
  have a: "unat a < 2 ^ 64" and b: "unat b < 2 ^ 64" using unat_lt [of a] unat_lt [of b] by simp_all
  have w: "unat (of_nat w :: u128) = w" "unat (of_nat (w + 1) :: u128) = w + 1"
    using assms unat_of_nat [of w, where ?'a = 128] unat_of_nat [of "w + 1", where ?'a = 128]
    by (simp_all del: of_nat_add of_nat_Suc)
  have "unat a * w \<le> 2 ^ 64 * 8" using a assms by (intro mult_le_mono) simp_all
  then have m: "unat (u64_to_u128 a * of_nat w) = unat a * w"
    by (subst unat_mult_exact) (simp_all add: w unat_u64_to_u128)
  then have "unat (u64_to_u128 a * of_nat w + u64_to_u128 b) = unat a * w + unat b"
    using b \<open>unat a * w \<le> _\<close> by (subst unat_add_exact) (simp_all add: unat_u64_to_u128)
  then show ?thesis unfolding unat_div w by simp
qed

lemma mean_between:
  fixes a b w :: nat
  shows "min a b \<le> (a * w + b) div (w + 1)" and "(a * w + b) div (w + 1) \<le> max a b"
proof -
  have "min a b * w \<le> a * w" "a * w \<le> max a b * w" by (simp_all add: mult_le_mono1)
  then have *: "min a b * (w + 1) \<le> a * w + b" "a * w + b \<le> max a b * (w + 1)"
    by (simp_all add: min_def max_def)
  then show "min a b \<le> (a * w + b) div (w + 1)" by (simp add: less_eq_div_iff_mult_less_eq)
  show "(a * w + b) div (w + 1) \<le> max a b"
    using div_le_mono [OF *(2), of "w + 1"] by (simp only: nonzero_mult_div_cancel_right)
qed

lemma narrow_ewma:
  assumes "w + 1 \<le> 8"
  shows "unat (narrow_saturating ((u64_to_u128 a * of_nat w + u64_to_u128 b) div of_nat (w + 1)))
       = (unat a * w + unat b) div (w + 1)"
proof -
  have "(unat a * w + unat b) div (w + 1) \<le> 2 ^ 64 - 1"
    using mean_between(2) [of "unat a" w "unat b"] unat_le_max [of a] unat_le_max [of b]
    by (simp add: max_def split: if_splits)
  then show ?thesis unfolding unat_narrow_saturating ewma_exact [OF assms] by simp
qed

lemma ewma_7_8: "unat (narrow_saturating ((u64_to_u128 a * 7 + u64_to_u128 b) div 8)) = (unat a * 7 + unat b) div 8"
  using narrow_ewma [of 7 a b] by simp

lemma ewma_3_4: "unat (narrow_saturating ((u64_to_u128 a * 3 + u64_to_u128 b) div 4)) = (unat a * 3 + unat b) div 4"
  using narrow_ewma [of 3 a b] by simp

subsection \<open>The cube root\<close>

lemma cube_nat: "cube x = unat x ^ 3"
  by (simp add: cube_def power3_eq_cube)

lemma cube_root_high_spec:
  "unat high = 2 ^ k \<Longrightarrow> k \<le> 63 \<Longrightarrow> 63 - k < fuel \<Longrightarrow>
   v < cube (cube_root_high fuel v high) \<or> unat (cube_root_high fuel v high) = 2 ^ 63"
proof (induction fuel arbitrary: k high)
  case (Suc fuel)
  show ?case
  proof (cases "cube high \<le> v \<and> high \<le> u_max div 2")
    case True
    have m: "unat (u_max div 2 :: u64) = 2 ^ 63 - 1" by (simp add: unat_div unat_u_max)
    have "unat high \<le> 2 ^ 63 - 1" using True unfolding m [symmetric] by (simp add: unat_word_le)
    then have "(2 :: nat) ^ k < 2 ^ 63" using Suc.prems(1) by simp
    then have k: "k < 63" by (rule power_less_imp_less_exp [rotated]) simp
    then have "(2 :: nat) ^ Suc k \<le> 2 ^ 63" by (intro power_increasing) simp_all
    then have "unat (high * 2) = 2 ^ Suc k"
      using Suc.prems(1) by (subst unat_mult_exact) simp_all
    from Suc.IH [OF this] k Suc.prems(3) True show ?thesis by simp
  next
    case False
    have "unat (u_max div 2 :: u64) = 2 ^ 63 - 1" by (simp add: unat_div unat_u_max)
    moreover have "2 ^ k \<le> (2 :: nat) ^ 63" using Suc.prems(2) by (intro power_increasing) simp_all
    ultimately have "v < cube high \<or> unat high = 2 ^ 63"
      using False Suc.prems(1) by (auto simp: unat_word_le not_le)
    then show ?thesis using False by auto
  qed
qed simp

lemma cube_root_search_spec:
  "unat low < unat high \<Longrightarrow> unat high \<le> unat low + 2 ^ fuel \<Longrightarrow> cube low \<le> v \<Longrightarrow> v < cube high \<Longrightarrow>
   unat (cube_root_search fuel v low high) ^ 3 \<le> v \<and> v < (unat (cube_root_search fuel v low high) + 1) ^ 3"
proof (induction fuel arbitrary: low high)
  case 0
  then have "unat high = unat low + 1" by simp
  with 0 show ?case by (simp add: cube_nat)
next
  case (Suc fuel)
  have s: "unat (low + 1) = unat low + 1"
    using Suc.prems(1) unat_le_max [of high] by (intro unat_Suc_exact) simp
  show ?case
  proof (cases "low + 1 < high")
    case False
    then have "unat high = unat low + 1" using Suc.prems(1) by (simp add: unat_word_less s)
    with False Suc.prems show ?thesis by (simp add: cube_nat)
  next
    case True
    then have lt: "unat low + 1 < unat high" by (simp add: unat_word_less s)
    define middle where "middle = low + (high - low) div 2"
    have d: "unat ((high - low) div 2) = (unat high - unat low) div 2"
      using Suc.prems(1) by (simp add: unat_div unat_sub_exact unat_word_le)
    have "unat low + (unat high - unat low) div 2 < 2 ^ 64"
      using lt unat_lt [of high] by simp
    then have m: "unat middle = unat low + (unat high - unat low) div 2"
      unfolding middle_def by (subst unat_add_exact) (simp_all add: d)
    have b: "unat low < unat middle" "unat middle < unat high" using lt by (auto simp: m)
    show ?thesis
    proof (cases "cube middle \<le> v")
      case c: True
      have "unat high \<le> unat middle + 2 ^ fuel" using Suc.prems(2) m by simp
      from Suc.IH [OF b(2) this c Suc.prems(4)] True c show ?thesis by (simp add: middle_def Let_def)
    next
      case c: False
      have "unat middle \<le> unat low + 2 ^ fuel" using Suc.prems(2) m by simp
      from Suc.IH [OF b(1) this Suc.prems(3)] True c show ?thesis by (simp add: middle_def Let_def)
    qed
  qed
qed

lemma floor_cube_root_spec:
  assumes "v < 2 ^ 189"
  shows "unat (floor_cube_root v) ^ 3 \<le> v \<and> v < (unat (floor_cube_root v) + 1) ^ 3"
proof (cases "v = 0")
  case False
  define h where "h = cube_root_high 64 v 1"
  have "v < cube h \<or> unat h = 2 ^ 63"
    unfolding h_def by (rule cube_root_high_spec [of _ 0]) simp_all
  then have lt: "v < cube h"
  proof
    assume "unat h = 2 ^ 63"
    then have "cube h = 2 ^ 189" by (simp add: cube_nat power_mult [symmetric])
    with assms show ?thesis by simp
  qed
  then have "0 < unat h" by (cases "unat h = 0") (simp_all add: cube_nat)
  moreover have "unat h \<le> 2 ^ 64" using unat_lt [of h] by simp
  ultimately show ?thesis
    using cube_root_search_spec [of 0 h 64 v] lt False
    by (simp add: floor_cube_root_def h_def [symmetric] Let_def not_le cube_nat)
qed (simp add: floor_cube_root_def)

lemma cubic_k_radicand:
  "unat w * 3 * 1000000000000000000 div 4 < (2 :: nat) ^ 189" for w :: u64
proof -
  have "unat w * 3 * 1000000000000000000 div 4 \<le> unat w * 3 * 1000000000000000000" by simp
  also have "\<dots> < 2 ^ 189" using unat_lt [of w] by simp
  finally show ?thesis .
qed

lemma cubic_k_ns_spec:
  "unat (cubic_k_ns w) ^ 3 \<le> unat w * 3 * 10 ^ 18 div 4
   \<and> unat w * 3 * 10 ^ 18 div 4 < (unat (cubic_k_ns w) + 1) ^ 3"
  using floor_cube_root_spec [OF cubic_k_radicand [of w]] by (auto simp: cubic_k_ns_def)

subsection \<open>The CUBIC window\<close>

lemma cubic_scale_unat: "unat cubic_window_scale = 10 ^ 9" "unat cubic_max_window_scaled = 2 * 10 ^ 15"
  by (simp_all add: tcp_consts)

lemma cubic_window_scaled_bounds:
  assumes "unat w \<le> 2 * 10 ^ 15"
  shows "10 ^ 9 \<le> unat (cubic_window_scaled w k t) \<and> unat (cubic_window_scaled w k t) \<le> 2 * 10 ^ 15"
  using assms by (auto simp: cubic_window_scaled_def Let_def unat_max unat_clamp_word
      unat_saturating_sub cubic_scale_unat)

lemma tcp_friendly_bounds:
  "10 ^ 9 \<le> unat (tcp_friendly_window_scaled w t r) \<and> unat (tcp_friendly_window_scaled w t r) \<le> 2 * 10 ^ 15"
  by (auto simp: tcp_friendly_window_scaled_def Let_def unat_clamp_word cubic_scale_unat)

lemma step_quotient_le: "x * 10 ^ 9 div max c (10 ^ 9) \<le> (x :: nat)"
proof -
  have "x * 10 ^ 9 \<le> x * max c (10 ^ 9)" by (intro mult_le_mono2) simp
  then have "x * 10 ^ 9 div max c (10 ^ 9) \<le> x * max c (10 ^ 9) div max c (10 ^ 9)"
    by (rule div_le_mono)
  then show ?thesis by (simp add: max_def split: if_splits)
qed

lemma unat_step_amount:
  "unat (narrow_saturating (u64_to_u128 d * u64_to_u128 cubic_window_scale
      div u64_to_u128 (max c cubic_window_scale)))
   = unat d * 10 ^ 9 div max (unat c) (10 ^ 9)"
proof -
  have "unat d * 10 ^ 9 div max (unat c) (10 ^ 9) \<le> 2 ^ 64 - 1"
    using step_quotient_le [of "unat d" "unat c"] unat_le_max [of d] by simp
  then show ?thesis
    unfolding unat_narrow_saturating unat_div unat_wide_mult unat_u64_to_u128 unat_max
      cubic_scale_unat by simp
qed

lemma cubic_ack_step_up:
  assumes "c \<le> t"
  shows "unat (cubic_ack_step c t) = unat c + (unat t - unat c) * 10 ^ 9 div max (unat c) (10 ^ 9)"
    and "unat c \<le> unat (cubic_ack_step c t)" "unat (cubic_ack_step c t) \<le> unat t"
proof -
  have le: "unat c \<le> unat t" using assms by (simp add: unat_word_le)
  note q = step_quotient_le [of "unat t - unat c" "unat c"]
  have "unat c + (unat t - unat c) * 10 ^ 9 div max (unat c) (10 ^ 9) \<le> 2 ^ 64 - 1"
    using q le unat_le_max [of t] by simp
  then show e: "unat (cubic_ack_step c t) = unat c + (unat t - unat c) * 10 ^ 9 div max (unat c) (10 ^ 9)"
    using assms unfolding cubic_ack_step_def Let_def
    by (simp add: unat_saturating_add unat_step_amount unat_sub_exact)
  show "unat c \<le> unat (cubic_ack_step c t)" "unat (cubic_ack_step c t) \<le> unat t"
    unfolding e using q le by simp_all
qed

lemma cubic_ack_step_down:
  assumes "t < c"
  shows "unat (cubic_ack_step c t) = unat c - (unat c - unat t) * 10 ^ 9 div max (unat c) (10 ^ 9)"
    and "unat t \<le> unat (cubic_ack_step c t)" "unat (cubic_ack_step c t) \<le> unat c"
proof -
  have le: "unat t \<le> unat c" "t \<le> c" "\<not> c \<le> t"
    using assms by (simp_all add: unat_word_less unat_word_le)
  note q = step_quotient_le [of "unat c - unat t" "unat c"]
  show e: "unat (cubic_ack_step c t) = unat c - (unat c - unat t) * 10 ^ 9 div max (unat c) (10 ^ 9)"
    using le unfolding cubic_ack_step_def Let_def
    by (simp add: unat_saturating_sub unat_step_amount unat_sub_exact del: not_le)
  show "unat t \<le> unat (cubic_ack_step c t)" "unat (cubic_ack_step c t) \<le> unat c"
    unfolding e using q le by simp_all
qed

subsection \<open>Reno's credit loop\<close>

text \<open>
  Congestion avoidance spends one whole window of acknowledged bytes per added segment: \<open>n\<close> rounds
  starting from window \<open>w\<close> cost \<open>w + (w + mss) + ... + (w + (n - 1) * mss)\<close> bytes of credit.
\<close>

primrec rounds_cost :: "nat \<Rightarrow> nat \<Rightarrow> nat \<Rightarrow> nat" where
  "rounds_cost mss 0 w = 0"
| "rounds_cost mss (Suc n) w = w + rounds_cost mss n (w + mss)"

lemma reno_credit_loop_spec:
  assumes "0 < unat cwnd" "unat cwnd + unat credit * unat mss < 2 ^ 64"
  shows "\<exists>n. let (credit', cwnd') = reno_credit_loop mss credit cwnd in
     unat cwnd' = unat cwnd + n * unat mss
     \<and> unat credit = unat credit' + rounds_cost (unat mss) n (unat cwnd)
     \<and> unat credit' < unat cwnd'"
  using assms
proof (induction mss credit cwnd rule: reno_credit_loop.induct)
  case (1 mss credit cwnd)
  have "1 \<le> cwnd" using 1(2) by (simp add: unat_word_le)
  then have m: "max cwnd 1 = cwnd" by simp
  show ?case
  proof (cases "cwnd \<le> credit")
    case False
    then show ?thesis
      using 1(2) by (intro exI [of _ 0]) (simp add: reno_credit_loop.simps [of mss credit cwnd] m
          unat_word_le not_le)
  next
    case True
    then have c: "unat (credit - cwnd) = unat credit - unat cwnd" "unat cwnd \<le> unat credit"
      by (simp_all add: unat_sub_exact unat_word_le)
    have pos: "unat (credit - cwnd) < unat credit" using c 1(2) by simp
    have "1 * unat mss \<le> unat credit * unat mss" using c 1(2) by (intro mult_le_mono1) simp
    then have "unat cwnd + unat mss \<le> 2 ^ 64 - 1" using 1(3) by linarith
    then have w: "unat (saturating_add cwnd mss) = unat cwnd + unat mss"
      by (simp add: unat_saturating_add)
    have "Suc (unat (credit - cwnd)) * unat mss \<le> unat credit * unat mss"
      using pos by (intro mult_le_mono1) simp
    then have "unat (saturating_add cwnd mss) + unat (credit - cwnd) * unat mss < 2 ^ 64"
      unfolding w using 1(3) by simp
    moreover have "0 < unat (saturating_add cwnd mss)" using w 1(2) by simp
    ultimately obtain n where n: "let (credit', cwnd') = reno_credit_loop mss (credit - cwnd) (saturating_add cwnd mss) in
       unat cwnd' = unat (saturating_add cwnd mss) + n * unat mss
       \<and> unat (credit - cwnd) = unat credit' + rounds_cost (unat mss) n (unat (saturating_add cwnd mss))
       \<and> unat credit' < unat cwnd'"
      using 1(1) True m by metis
    show ?thesis
      using n c w by (intro exI [of _ "Suc n"]) (auto simp: reno_credit_loop.simps [of mss credit cwnd] m True
          split: prod.splits)
  qed
qed

lemma reno_credit_loop_exit:
  "case reno_credit_loop mss credit cwnd of (credit', cwnd') \<Rightarrow>
     unat credit' < max (unat cwnd') 1 \<and> unat cwnd \<le> unat cwnd'"
proof (induction mss credit cwnd rule: reno_credit_loop.induct)
  case (1 mss credit cwnd)
  show ?case
  proof (cases "max cwnd 1 \<le> credit")
    case True
    have "unat cwnd \<le> unat (saturating_add cwnd mss)"
      using unat_le_max [of cwnd] by (simp add: unat_saturating_add)
    with 1 True show ?thesis
      by (auto simp: reno_credit_loop.simps [of mss credit cwnd] split: prod.splits)
  next
    case False
    then have "unat credit < max (unat cwnd) 1"
      unfolding unat_word_le unat_max by (simp add: not_le) linarith
    with False show ?thesis by (simp only: reno_credit_loop.simps [of mss credit cwnd]) simp
  qed
qed

subsection \<open>The controllers' invariant\<close>

text \<open>
  The window never vanishes.  Reno's initial threshold is 65535 bytes, so with a larger segment
  the window may fall below one segment, but not below that threshold.
\<close>

definition reno_inv :: "tcp_reno \<Rightarrow> bool" where
  "reno_inv r \<longleftrightarrow> 0 < unat (reno_mss_bytes r)
     \<and> min (unat (reno_mss_bytes r)) 65535 \<le> unat (reno_cwnd_bytes r)
     \<and> min (unat (reno_mss_bytes r)) 65535 \<le> unat (reno_ssthresh_bytes r)
     \<and> unat (reno_ca_credit r) < unat (reno_cwnd_bytes r)
     \<and> (reno_phase r \<noteq> CongestionAvoidance \<longrightarrow> reno_ca_credit r = 0)"

definition cubic_inv :: "tcp_cubic \<Rightarrow> bool" where
  "cubic_inv c \<longleftrightarrow> 0 < unat (cubic_mss_bytes c)
     \<and> 10 ^ 9 \<le> unat (cubic_cwnd_scaled c) \<and> unat (cubic_cwnd_scaled c) \<le> 2 * 10 ^ 15
     \<and> unat (cubic_ssthresh_scaled c) \<le> 2 * 10 ^ 15
     \<and> unat (cubic_w_max_scaled c) \<le> 2 * 10 ^ 15 \<and> unat (cubic_w_last_max_scaled c) \<le> 2 * 10 ^ 15"

fun tcp_inv :: "tcp_congestion_control \<Rightarrow> bool" where
  "tcp_inv (Reno r) = reno_inv r"
| "tcp_inv (Cubic c) = cubic_inv c"

lemma reno_inv_recovery_exit: "reno_inv r \<Longrightarrow> reno_inv (reno_on_recovery_exit r)"
  by (auto simp: reno_inv_def reno_on_recovery_exit_def unat_max)

lemma reno_min_half: "min (unat m) 65535 \<le> unat (max (f div 2) (saturating_mul m 2 :: u64))"
  by (simp only: unat_max unat_saturating_mul) (simp add: min_def max_def)

lemma reno_inv_fast_retransmit: "reno_inv r \<Longrightarrow> reno_inv (reno_on_fast_retransmit f r)"
  using reno_min_half [of "reno_mss_bytes r" f]
    unat_le_max [of "max (f div 2) (saturating_mul (reno_mss_bytes r) 2 :: u64)"]
  by (auto simp: reno_inv_def reno_on_fast_retransmit_def Let_def unat_saturating_add)

lemma reno_inv_timeout: "reno_inv r \<Longrightarrow> reno_inv (reno_on_timeout f r)"
  using reno_min_half [of "reno_mss_bytes r" f]
  by (auto simp: reno_inv_def reno_on_timeout_def Let_def)

lemma reno_inv_more_duplicate_ack: "reno_inv r \<Longrightarrow> reno_inv (reno_on_more_duplicate_ack r)"
  using unat_le_max [of "reno_cwnd_bytes r"]
  by (auto simp: reno_inv_def reno_on_more_duplicate_ack_def unat_saturating_add)

lemma reno_inv_new_ack:
  assumes "reno_inv r"
  shows "reno_inv (reno_on_new_ack a k r)"
proof -
  let ?r = "r\<lparr>reno_duplicate_acks := 0\<rparr>"
  have r: "reno_inv ?r" using assms by (simp add: reno_inv_def)
  show ?thesis
  proof (cases "reno_phase r")
    case SlowStart
    have "unat (reno_cwnd_bytes r) \<le> unat (saturating_add (reno_cwnd_bytes r) x)" for x
      using unat_le_max [of "reno_cwnd_bytes r"] by (simp add: unat_saturating_add)
    from order_trans [OF _ this] order_less_le_trans [OF _ this] assms SlowStart show ?thesis
      by (auto simp: reno_on_new_ack_def Let_def reno_inv_def)
  next
    case CongestionAvoidance
    obtain credit cwnd where l: "reno_credit_loop (reno_mss_bytes r)
        (saturating_add (reno_ca_credit r) a) (reno_cwnd_bytes r) = (credit, cwnd)" by fastforce
    with reno_credit_loop_exit [where mss = "reno_mss_bytes r" and cwnd = "reno_cwnd_bytes r"
        and credit = "saturating_add (reno_ca_credit r) a"]
    have "unat credit < max (unat cwnd) 1" "unat (reno_cwnd_bytes r) \<le> unat cwnd" by simp_all
    with assms CongestionAvoidance l show ?thesis
      by (auto simp: reno_on_new_ack_def Let_def reno_inv_def)
  next
    case FastRecovery
    have "min (unat (reno_mss_bytes r)) 65535
        \<le> unat (saturating_add (reno_ssthresh_bytes r) (reno_mss_bytes r))"
      using assms unat_le_max [of "reno_ssthresh_bytes r"]
      by (auto simp: reno_inv_def unat_saturating_add)
    then show ?thesis
      using assms FastRecovery reno_inv_recovery_exit [OF r]
      by (auto simp: reno_on_new_ack_def Let_def reno_inv_def)
  qed
qed

lemma cubic_inv_update_srtt: "cubic_inv (cubic_update_srtt s c) = cubic_inv c"
  by (simp add: cubic_inv_def cubic_update_srtt_def Let_def)

lemma cubic_inv_recovery_exit: "cubic_inv c \<Longrightarrow> cubic_inv (cubic_on_recovery_exit c)"
  by (simp add: cubic_inv_def cubic_on_recovery_exit_def unat_clamp_word cubic_scale_unat)

lemma cubic_inv_ensure_epoch: "cubic_inv c \<Longrightarrow> cubic_inv (cubic_ensure_epoch t c)"
  by (simp add: cubic_inv_def cubic_ensure_epoch_def)

lemma cubic_inv_update_window:
  assumes "cubic_inv c"
  shows "cubic_inv (cubic_update_window t c)"
proof -
  have "cubic_inv (cubic_ensure_epoch t c)" by (rule cubic_inv_ensure_epoch [OF assms])
  moreover have "cubic_inv c' \<Longrightarrow> cubic_inv (c'\<lparr>cubic_cwnd_scaled := min
      (tcp_friendly_window_scaled w e r) cubic_max_window_scaled\<rparr>)" for c' w e r
    using tcp_friendly_bounds [of w e r] by (simp add: cubic_inv_def unat_min cubic_scale_unat)
  moreover have "cubic_inv c' \<Longrightarrow> cubic_inv (c'\<lparr>cubic_cwnd_scaled :=
      clamp_word x cubic_window_scale cubic_max_window_scaled\<rparr>)" for c' x
    by (simp add: cubic_inv_def unat_clamp_word cubic_scale_unat)
  ultimately show ?thesis by (simp add: cubic_update_window_def Let_def)
qed

lemma cubic_inv_new_ack:
  assumes "cubic_inv c"
  shows "cubic_inv (cubic_on_new_ack a now rtt f k c)"
proof -
  define d where "d = cubic_update_srtt rtt (c\<lparr>cubic_duplicate_acks := 0\<rparr>)"
  have d: "cubic_inv d"
    unfolding d_def cubic_inv_update_srtt using assms by (simp add: cubic_inv_def)
  show ?thesis
  proof (cases "cubic_phase d")
    case SlowStart
    have "10 ^ 9 \<le> unat (min (saturating_add (cubic_cwnd_scaled d) x) cubic_max_window_scaled)" for x
      using d unat_le_max [of "cubic_cwnd_scaled d"]
      by (simp add: cubic_inv_def unat_min unat_saturating_add cubic_scale_unat)
    moreover have "unat (min (saturating_add (cubic_cwnd_scaled d) x) cubic_max_window_scaled) \<le> 2 * 10 ^ 15" for x
      by (simp add: unat_min cubic_scale_unat)
    ultimately show ?thesis
      using d SlowStart unfolding cubic_on_new_ack_def d_def [symmetric] Let_def
      by (simp add: cubic_inv_def)
  qed (use d cubic_inv_update_window cubic_inv_recovery_exit in
      \<open>simp_all add: cubic_on_new_ack_def d_def [symmetric] Let_def\<close>)
qed

lemma mul_ratio_le:
  "unat n \<le> unat d \<Longrightarrow> 0 < unat d \<Longrightarrow> unat (mul_ratio v n d) \<le> unat v"
proof -
  assume "unat n \<le> unat d" "0 < unat d"
  then have "unat v * unat n div unat d \<le> unat v * unat d div unat d"
    by (intro div_le_mono mult_le_mono2)
  then show ?thesis using \<open>0 < unat d\<close> by (simp add: unat_mul_ratio)
qed

lemma cubic_inv_fast_retransmit:
  assumes "cubic_inv c"
  shows "cubic_inv (cubic_on_fast_retransmit f now c)"
proof -
  have r: "unat (mul_ratio (bytes_to_scaled f m) 7 10) \<le> 2 * 10 ^ 15" for m
    using mul_ratio_le [of 7 10 "bytes_to_scaled f m"] by (simp add: unat_bytes_to_scaled)
  have "unat (mul_ratio (cubic_cwnd_scaled c) 17 20) \<le> 2 * 10 ^ 15"
    using mul_ratio_le [of 17 20 "cubic_cwnd_scaled c"] assms by (simp add: cubic_inv_def)
  moreover have "unat (2 * cubic_window_scale :: u64) = 2 * 10 ^ 9" by (simp add: tcp_consts)
  ultimately show ?thesis
    using assms r unfolding cubic_on_fast_retransmit_def Let_def
    by (simp add: cubic_inv_def unat_max unat_min cubic_scale_unat)
qed

lemma cubic_inv_timeout: "cubic_inv c \<Longrightarrow> cubic_inv (cubic_on_timeout f c)"
proof -
  have "unat (2 * cubic_window_scale :: u64) = 2 * 10 ^ 9" by (simp add: tcp_consts)
  then show "cubic_inv c \<Longrightarrow> cubic_inv (cubic_on_timeout f c)"
    by (simp add: cubic_inv_def cubic_on_timeout_def Let_def unat_clamp_word cubic_scale_unat)
qed

lemma cubic_inv_more_duplicate_ack: "cubic_inv c \<Longrightarrow> cubic_inv (cubic_on_more_duplicate_ack c)"
  using unat_le_max [of "cubic_cwnd_scaled c"]
  by (simp add: cubic_inv_def cubic_on_more_duplicate_ack_def unat_min unat_saturating_add cubic_scale_unat)

lemma cubic_window_at_least_mss:
  assumes "cubic_inv c"
  shows "unat (cubic_mss_bytes c) \<le> unat (tcp_cwnd_bytes (Cubic c) m)"
proof -
  have "unat (cubic_mss_bytes c) * 10 ^ 9 \<le> unat (cubic_cwnd_scaled c) * unat (cubic_mss_bytes c)"
    using assms by (simp add: cubic_inv_def mult.commute)
  then have "unat (cubic_mss_bytes c) \<le> unat (cubic_cwnd_scaled c) * unat (cubic_mss_bytes c) div 10 ^ 9"
    by (simp add: less_eq_div_iff_mult_less_eq)
  moreover have "max (unat (cubic_mss_bytes c)) 1 = unat (cubic_mss_bytes c)"
    using assms by (simp add: cubic_inv_def)
  ultimately show ?thesis
    using unat_le_max [of "cubic_mss_bytes c"]
    by (simp only: tcp_cwnd_bytes.simps unat_scaled_to_bytes_const) simp
qed

text \<open>The whole controller: one step of any kind.\<close>

datatype tcp_input =
    NewAck u64 u64 u64 u64 u64 | DuplicateAck u64 u64 | RecoveryMark u64 | RecoveryExit | Timeout u64 u64

fun tcp_step :: "tcp_input \<Rightarrow> tcp_congestion_control \<Rightarrow> tcp_congestion_control" where
  "tcp_step (NewAck acked now rtt flight ack) t = tcp_on_new_ack acked now rtt flight ack t"
| "tcp_step (DuplicateAck flight now) t = snd (tcp_on_duplicate_ack flight now t)"
| "tcp_step (RecoveryMark s) t = set_recovery_high_sequence s t"
| "tcp_step RecoveryExit t = tcp_on_recovery_exit t"
| "tcp_step (Timeout flight now) t = tcp_on_timeout flight now t"

lemma tcp_inv_count_duplicate: "tcp_inv t \<Longrightarrow> tcp_inv (tcp_count_duplicate t)"
  by (cases t) (simp_all add: reno_inv_def cubic_inv_def)

lemma tcp_inv_step:
  assumes "tcp_inv t"
  shows "tcp_inv (tcp_step i t)"
proof (cases i)
  case (DuplicateAck f n)
  have "tcp_inv (tcp_on_fast_retransmit f n (tcp_count_duplicate t))"
    "tcp_inv (tcp_on_more_duplicate_ack (tcp_count_duplicate t))"
    using tcp_inv_count_duplicate [OF assms]
    by (cases "tcp_count_duplicate t"; simp add: reno_inv_fast_retransmit cubic_inv_fast_retransmit
        reno_inv_more_duplicate_ack cubic_inv_more_duplicate_ack)+
  then show ?thesis
    using tcp_inv_count_duplicate [OF assms] by (simp add: DuplicateAck tcp_on_duplicate_ack_def Let_def)
next
  case (RecoveryMark s)
  with assms show ?thesis by (cases t) (simp_all add: reno_inv_def cubic_inv_def)
qed (use assms in \<open>cases t; simp add: reno_inv_new_ack cubic_inv_new_ack reno_inv_recovery_exit
    cubic_inv_recovery_exit reno_inv_timeout cubic_inv_timeout\<close>)+

lemma tcp_inv_new: "tcp_inv (tcp_reno_new m)" "tcp_inv (tcp_cubic_new m)"
proof -
  have m: "0 < unat (nonzero_mss m)" by (simp add: unat_nonzero_mss)
  then show "tcp_inv (tcp_reno_new m)"
    by (simp add: tcp_reno_new_def Let_def reno_inv_def unat_saturating_mul tcp_consts min_def)
  have "65535 * 10 ^ 9 div unat (nonzero_mss m) \<le> 2 * 10 ^ 15"
    by (rule order_trans [OF div_le_dividend]) simp
  then have "unat (bytes_to_scaled_const initial_ssthresh_bytes (nonzero_mss m)) \<le> 2 * 10 ^ 15"
    unfolding unat_bytes_to_scaled_const using m by (simp add: tcp_consts max_absorb1 Suc_le_eq)
  then show "tcp_inv (tcp_cubic_new m)"
    using m by (simp add: tcp_cubic_new_def Let_def cubic_inv_def cubic_scale_unat)
qed

lemma tcp_inv_run: "tcp_inv t \<Longrightarrow> tcp_inv (fold tcp_step is t)"
  by (induction "is" arbitrary: t) (simp_all add: tcp_inv_step)

lemma tcp_kind_step:
  "\<exists>r. tcp_step i (Reno r0) = Reno r \<and> reno_mss_bytes r = reno_mss_bytes r0"
  "\<exists>c. tcp_step i (Cubic c0) = Cubic c \<and> cubic_mss_bytes c = cubic_mss_bytes c0"
proof -
  have r: "reno_mss_bytes (reno_on_new_ack a k r) = reno_mss_bytes r" for a k r
    by (cases "reno_phase r") (simp_all add: reno_on_new_ack_def Let_def reno_on_recovery_exit_def
        split: prod.splits)
  have u: "cubic_mss_bytes (cubic_update_srtt s c) = cubic_mss_bytes c" for s c
    by (simp add: cubic_update_srtt_def Let_def)
  have w: "cubic_mss_bytes (cubic_update_window t c) = cubic_mss_bytes c" for t c
    by (simp add: cubic_update_window_def Let_def cubic_ensure_epoch_def)
  have c: "cubic_mss_bytes (cubic_on_new_ack a n rtt f k c) = cubic_mss_bytes c" for a n rtt f k c
    using u [of rtt "c\<lparr>cubic_duplicate_acks := 0\<rparr>"] w
    by (cases "cubic_phase (cubic_update_srtt rtt (c\<lparr>cubic_duplicate_acks := 0\<rparr>))")
      (simp_all add: cubic_on_new_ack_def Let_def cubic_on_recovery_exit_def)
  show "\<exists>r. tcp_step i (Reno r0) = Reno r \<and> reno_mss_bytes r = reno_mss_bytes r0"
    by (cases i) (simp_all add: r tcp_on_duplicate_ack_def Let_def reno_on_fast_retransmit_def
        reno_on_more_duplicate_ack_def reno_on_recovery_exit_def reno_on_timeout_def)
  show "\<exists>c. tcp_step i (Cubic c0) = Cubic c \<and> cubic_mss_bytes c = cubic_mss_bytes c0"
    by (cases i) (simp_all add: c tcp_on_duplicate_ack_def Let_def cubic_on_fast_retransmit_def
        cubic_on_more_duplicate_ack_def cubic_on_recovery_exit_def cubic_on_timeout_def)
qed

lemma tcp_kind_run:
  "\<exists>r. fold tcp_step is (Reno r0) = Reno r \<and> reno_mss_bytes r = reno_mss_bytes r0"
  "\<exists>c. fold tcp_step is (Cubic c0) = Cubic c \<and> cubic_mss_bytes c = cubic_mss_bytes c0"
proof (induction "is" arbitrary: r0 c0)
  case (Cons i "is")
  { case 1 show ?case using tcp_kind_step(1) [of i r0] Cons(1) by fastforce }
  { case 2 show ?case using tcp_kind_step(2) [of i c0] Cons(2) by fastforce }
qed simp_all

primrec duplicate_signals :: "nat \<Rightarrow> u64 \<Rightarrow> u64 \<Rightarrow> tcp_congestion_control \<Rightarrow> bool list" where
  "duplicate_signals 0 flight now t = []"
| "duplicate_signals (Suc n) flight now t =
     (case tcp_on_duplicate_ack flight now t of (b, t') \<Rightarrow> b # duplicate_signals n flight now t')"

lemma tcp_duplicate_acks_step:
  "unat (tcp_duplicate_acks (snd (tcp_on_duplicate_ack f n t))) = min (unat (tcp_duplicate_acks t) + 1) (2 ^ 64 - 1)"
  "fst (tcp_on_duplicate_ack f n t) \<longleftrightarrow> unat (tcp_duplicate_acks t) = 2"
proof -
  have k: "tcp_duplicate_acks (tcp_count_duplicate t) = saturating_add (tcp_duplicate_acks t) 1"
    by (cases t) simp_all
  have f: "tcp_duplicate_acks (tcp_on_fast_retransmit f n t') = tcp_duplicate_acks t'"
    "tcp_duplicate_acks (tcp_on_more_duplicate_ack t') = tcp_duplicate_acks t'" for t'
    by (cases t'; simp add: reno_on_fast_retransmit_def cubic_on_fast_retransmit_def Let_def
        reno_on_more_duplicate_ack_def cubic_on_more_duplicate_ack_def)+
  have e: "saturating_add (tcp_duplicate_acks t) 1 = 3 \<longleftrightarrow> unat (tcp_duplicate_acks t) = 2"
    by (simp add: word_unat_eq_iff unat_saturating_add min_def)
  have s: "tcp_duplicate_acks (snd (tcp_on_duplicate_ack f n t)) = saturating_add (tcp_duplicate_acks t) 1"
    by (simp add: tcp_on_duplicate_ack_def Let_def k f)
  show "unat (tcp_duplicate_acks (snd (tcp_on_duplicate_ack f n t))) = min (unat (tcp_duplicate_acks t) + 1) (2 ^ 64 - 1)"
    unfolding s unat_saturating_add by simp
  show "fst (tcp_on_duplicate_ack f n t) \<longleftrightarrow> unat (tcp_duplicate_acks t) = 2"
    by (simp add: tcp_on_duplicate_ack_def Let_def k e)
qed

lemma duplicate_signals_nth:
  "i < n \<Longrightarrow> duplicate_signals n f now t ! i \<longleftrightarrow>
     min (unat (tcp_duplicate_acks t) + i) (2 ^ 64 - 1) = 2"
proof (induction n arbitrary: t i)
  case (Suc n)
  show ?case
  proof (cases i)
    case 0
    then show ?thesis
      using tcp_duplicate_acks_step(2) [of f now t] unat_le_max [of "tcp_duplicate_acks t"]
      by (simp add: case_prod_beta min_def)
  next
    case (Suc j)
    with Suc.prems have "j < n" by simp
    from Suc.IH [OF this, of "snd (tcp_on_duplicate_ack f now t)"] show ?thesis
      unfolding tcp_duplicate_acks_step(1) by (simp add: Suc case_prod_beta min_def)
  qed
qed simp

subsection \<open>Properties\<close>

text \<open>
  C25. Whatever sequence of acknowledgments, duplicate acknowledgments, recoveries and timeouts a
  controller sees, its window stays usable: Reno's window is never below the smaller of one
  segment and the initial threshold, and CUBIC's window stays between one segment and two million
  segments in fixed point and never below one segment in bytes.
\<close>

theorem tcp_window_never_closes:
  "(\<exists>r. fold tcp_step is (tcp_reno_new mss) = Reno r
      \<and> min (unat (nonzero_mss mss)) 65535 \<le> unat (reno_cwnd_bytes r)
      \<and> unat (reno_ca_credit r) < unat (reno_cwnd_bytes r))
   \<and> (\<exists>c. fold tcp_step is (tcp_cubic_new mss) = Cubic c
      \<and> 10 ^ 9 \<le> unat (cubic_cwnd_scaled c) \<and> unat (cubic_cwnd_scaled c) \<le> 2000000 * 10 ^ 9
      \<and> unat (nonzero_mss mss) \<le> unat (tcp_cwnd_bytes (Cubic c) mss))"
proof
  obtain r where r: "fold tcp_step is (tcp_reno_new mss) = Reno r" "reno_mss_bytes r = nonzero_mss mss"
    using tcp_kind_run(1) [of "is"] unfolding tcp_reno_new_def Let_def by fastforce
  have "reno_inv r" using tcp_inv_run [OF tcp_inv_new(1), of "is" mss] r(1) by simp
  with r show "\<exists>r. fold tcp_step is (tcp_reno_new mss) = Reno r
      \<and> min (unat (nonzero_mss mss)) 65535 \<le> unat (reno_cwnd_bytes r)
      \<and> unat (reno_ca_credit r) < unat (reno_cwnd_bytes r)" by (auto simp: reno_inv_def)
  obtain c where c: "fold tcp_step is (tcp_cubic_new mss) = Cubic c" "cubic_mss_bytes c = nonzero_mss mss"
    using tcp_kind_run(2) [of "is"] unfolding tcp_cubic_new_def Let_def by fastforce
  have i: "cubic_inv c" using tcp_inv_run [OF tcp_inv_new(2), of "is" mss] c(1) by simp
  with c cubic_window_at_least_mss [OF i, of mss]
  show "\<exists>c. fold tcp_step is (tcp_cubic_new mss) = Cubic c
      \<and> 10 ^ 9 \<le> unat (cubic_cwnd_scaled c) \<and> unat (cubic_cwnd_scaled c) \<le> 2000000 * 10 ^ 9
      \<and> unat (nonzero_mss mss) \<le> unat (tcp_cwnd_bytes (Cubic c) mss)" by (simp add: cubic_inv_def)
qed

text \<open>
  Reno's congestion avoidance is exact: every added segment is paid for with one whole current
  window of acknowledged bytes, the remaining credit is less than a window, and no byte of credit
  is lost or created.
\<close>

theorem reno_credit_exact:
  assumes "reno_inv r" and "reno_phase r = CongestionAvoidance"
    and "unat (reno_cwnd_bytes r) + (unat (reno_ca_credit r) + unat acked) * unat (reno_mss_bytes r) < 2 ^ 64"
    and "unat (reno_ca_credit r) + unat acked < 2 ^ 64"
  shows "\<exists>n. let r' = reno_on_new_ack acked ack r in
     unat (reno_cwnd_bytes r') = unat (reno_cwnd_bytes r) + n * unat (reno_mss_bytes r)
     \<and> unat (reno_ca_credit r) + unat acked
         = unat (reno_ca_credit r') + rounds_cost (unat (reno_mss_bytes r)) n (unat (reno_cwnd_bytes r))
     \<and> unat (reno_ca_credit r') < unat (reno_cwnd_bytes r')"
proof -
  have s: "unat (saturating_add (reno_ca_credit r) acked) = unat (reno_ca_credit r) + unat acked"
    using assms(4) by (simp add: unat_saturating_add)
  have "0 < unat (reno_cwnd_bytes r)" using assms(1) by (simp add: reno_inv_def)
  from reno_credit_loop_spec [OF this, of "saturating_add (reno_ca_credit r) acked" "reno_mss_bytes r"]
  show ?thesis
    using assms(2,3) unfolding s by (simp add: reno_on_new_ack_def Let_def case_prod_beta)
qed


text \<open>
  One acknowledgment moves CUBIC's window towards its target and never past it, from either
  side, by the exact quotient of the distance by the current window.
\<close>

theorem cubic_step_towards_target:
  "if c \<le> t
   then unat (cubic_ack_step c t) = unat c + (unat t - unat c) * 10 ^ 9 div max (unat c) (10 ^ 9)
     \<and> unat c \<le> unat (cubic_ack_step c t) \<and> unat (cubic_ack_step c t) \<le> unat t
   else unat (cubic_ack_step c t) = unat c - (unat c - unat t) * 10 ^ 9 div max (unat c) (10 ^ 9)
     \<and> unat t \<le> unat (cubic_ack_step c t) \<and> unat (cubic_ack_step c t) \<le> unat c"
proof (cases "c \<le> t")
  case True
  with cubic_ack_step_up [OF True] show ?thesis by simp
next
  case False
  then have "t < c" by simp
  from cubic_ack_step_down [OF this] show ?thesis unfolding if_not_P [OF False] by blast
qed

text \<open>
  A retransmission timeout is always between one second and one minute, the smoothed round trip
  is an exact rounded-down mean that stays between the old value and the sample, and it never
  returns to the value zero that marks an estimator without samples.
\<close>

theorem rto_bounded:
  "case update_rto_ns srtt var sample of (srtt', var', rto) \<Rightarrow>
     10 ^ 9 \<le> unat rto \<and> unat rto \<le> 60 * 10 ^ 9 \<and> 0 < unat srtt'
     \<and> (if srtt = 0 then unat srtt' = max (unat sample) 1
        else unat srtt' = (unat srtt * 7 + max (unat sample) 1) div 8
          \<and> min (unat srtt) (max (unat sample) 1) \<le> unat srtt'
          \<and> unat srtt' \<le> max (unat srtt) (max (unat sample) 1))"
proof -
  have k: "unat min_rto_ns = 10 ^ 9" "unat max_rto_ns = 60 * 10 ^ 9" by (simp_all add: tcp_consts)
  have s: "unat (max sample 1) = max (unat sample) 1" by (simp add: unat_max)
  have m: "(unat srtt * 7 + max (unat sample) 1) div 8 \<le> max (unat srtt) (max (unat sample) 1)"
    "min (unat srtt) (max (unat sample) 1) \<le> (unat srtt * 7 + max (unat sample) 1) div 8"
    using mean_between [where a = "unat srtt" and b = "max (unat sample) 1" and w = 7] by simp_all
  have rto: "10 ^ 9 \<le> unat (clamp_word x min_rto_ns max_rto_ns)
      \<and> unat (clamp_word x min_rto_ns max_rto_ns) \<le> 60 * 10 ^ 9" for x
    by (simp add: unat_clamp_word k)
  show ?thesis
  proof (cases "srtt = 0")
    case True
    then show ?thesis using rto by (simp add: update_rto_ns_def Let_def s)
  next
    case False
    then have "0 < min (unat srtt) (max (unat sample) 1)" by (simp add: unat_gt_0)
    with m(2) have "0 < (unat srtt * 7 + max (unat sample) 1) div 8" by linarith
    with False m rto show ?thesis
      unfolding update_rto_ns_def Let_def s [symmetric] by (simp add: ewma_7_8)
  qed
qed

text \<open>
  Fast retransmit fires exactly once per loss: of any run of duplicate acknowledgments after a
  new acknowledgment, the third one and no other returns the retransmit signal.
\<close>

theorem fast_retransmit_third_duplicate:
  assumes "tcp_duplicate_acks t = 0" and "i < n"
  shows "duplicate_signals n flight now t ! i \<longleftrightarrow> i = 2"
  using duplicate_signals_nth [OF assms(2), of flight now t] assms(1) by (auto simp: min_def)

end
