(* ===== verification/Dcqcn.thy ===== *)
theory Dcqcn
  imports Link_Time
begin

section \<open>The DCQCN reaction point\<close>

text \<open>
  \<open>executor/src/dcqcn.rs\<close>.  The controller owns three periodic timers and no event: their instants
  are applied lazily, up to an exclusive bound, at the flow's next transition.  The loop of
  \<open>materialize\<close> is a \<open>partial_function\<close> in the option monad, \<open>None\<close> meaning that it does not
  return; it is shown to return for every configuration \<open>validate\<close> accepts.  The lemmas give the
  cut and the alpha step their exact rational values, show that batched alpha ticks are the single
  ticks of an eager timer, that splitting a bound does not change the result, and that the rate
  stays between the documented floor and the maximum.
\<close>

unbundle bit_operations_syntax

definition dcqcn_alpha_one :: u64 where "dcqcn_alpha_one = push_bit 63 1"

record dcqcn_controller_config =
  cfg_initial_rate_bps :: u64
  cfg_minimum_rate_bps :: u64
  cfg_maximum_rate_bps :: u64
  cfg_additive_rate_bps :: u64
  cfg_hyper_rate_bps :: u64
  cfg_g_q63 :: u64
  cfg_alpha_interval_ns :: u64
  cfg_decrease_interval_ns :: u64
  cfg_increase_interval_ns :: u64
  cfg_fast_recovery_steps :: u32
  cfg_clamp_target_rate :: bool

record dcqcn_controller =
  dc_config :: dcqcn_controller_config
  dc_alpha_q63 :: u64
  dc_current_rate_bps :: u64
  dc_target_rate_bps :: u64
  dc_next_alpha_ns :: u64
  dc_next_decrease_ns :: u64
  dc_next_increase_ns :: u64
  dc_stage :: u32
  dc_armed :: bool
  dc_alpha_pending :: bool
  dc_decrease_pending :: bool
  dc_increase_armed :: bool

record dcqcn_advance =
  adv_alpha_ticks :: u64
  adv_increase_fires :: u64
  adv_decrease_cuts :: u64

definition advance_default :: dcqcn_advance where
  "advance_default = \<lparr>adv_alpha_ticks = 0, adv_increase_fires = 0, adv_decrease_cuts = 0\<rparr>"

definition applied_rate_change :: "dcqcn_advance \<Rightarrow> bool" where
  "applied_rate_change a \<longleftrightarrow> adv_increase_fires a \<noteq> 0 \<or> adv_decrease_cuts a \<noteq> 0"

definition dcqcn_rate_floor_bps :: "u64 \<Rightarrow> u64" where
  "dcqcn_rate_floor_bps minimum_rate_bps = 2 * (saturating_sub minimum_rate_bps 1 div 2)"

definition mul_shr63 :: "u64 \<Rightarrow> u64 \<Rightarrow> u64" where
  "mul_shr63 a b = u128_to_u64 (drop_bit 63 (u64_to_u128 a * u64_to_u128 b))"

definition config_validate :: "dcqcn_controller_config \<Rightarrow> string + unit" where
  "config_validate c =
     (if cfg_minimum_rate_bps c < 3 then Inl ''DCQCN minimum rate must be at least 3 bit/s: the rate average truncates each half, so the rate can fall to 2 * floor((minimum - 1) / 2)''
      else if cfg_minimum_rate_bps c > cfg_initial_rate_bps c
              \<or> cfg_initial_rate_bps c > cfg_maximum_rate_bps c
        then Inl ''DCQCN rates must satisfy minimum <= initial <= maximum''
      else if cfg_g_q63 c > dcqcn_alpha_one then Inl ''DCQCN g must be in 0..=1''
      else if cfg_alpha_interval_ns c = 0 \<or> cfg_decrease_interval_ns c = 0
              \<or> cfg_increase_interval_ns c = 0
        then Inl ''DCQCN alpha, rate-decrease and rate-increase intervals must be positive''
      else if cfg_fast_recovery_steps c = u_max
        then Inl ''DCQCN fast recovery times must be below 4294967295''
      else Inr ())"

definition pristine :: "dcqcn_controller_config \<Rightarrow> dcqcn_controller" where
  "pristine config =
     \<lparr>dc_config = config, dc_alpha_q63 = dcqcn_alpha_one,
      dc_current_rate_bps = cfg_initial_rate_bps config,
      dc_target_rate_bps = cfg_initial_rate_bps config, dc_next_alpha_ns = 0,
      dc_next_decrease_ns = 0, dc_next_increase_ns = 0, dc_stage = 0, dc_armed = False,
      dc_alpha_pending = False, dc_decrease_pending = False, dc_increase_armed = False\<rparr>"

definition dcqcn_new :: "dcqcn_controller_config \<Rightarrow> string + dcqcn_controller" where
  "dcqcn_new config = and_then (config_validate config) (\<lambda>_. Inr (pristine config))"

definition fixed_rate :: "u64 \<Rightarrow> dcqcn_controller" where
  "fixed_rate rate_bps = pristine
     \<lparr>cfg_initial_rate_bps = rate_bps, cfg_minimum_rate_bps = rate_bps,
      cfg_maximum_rate_bps = rate_bps, cfg_additive_rate_bps = 0, cfg_hyper_rate_bps = 0,
      cfg_g_q63 = 0, cfg_alpha_interval_ns = u_max, cfg_decrease_interval_ns = u_max,
      cfg_increase_interval_ns = u_max, cfg_fast_recovery_steps = 0,
      cfg_clamp_target_rate = False\<rparr>"

definition increase_instant :: "dcqcn_controller \<Rightarrow> u64" where
  "increase_instant c = (if dc_increase_armed c then dc_next_increase_ns c else u_max)"

definition decrease_instant :: "dcqcn_controller \<Rightarrow> u64" where
  "decrease_instant c = (if dc_decrease_pending c then dc_next_decrease_ns c else u_max)"

definition due_ns :: "dcqcn_controller \<Rightarrow> u64" where
  "due_ns c =
     (let increase = increase_instant c; decrease = decrease_instant c in
      if increase < decrease then increase else decrease)"

text \<open>The decay loop of \<open>alpha_through\<close>.\<close>

function alpha_decay :: "u64 \<Rightarrow> u64 \<Rightarrow> u64 \<Rightarrow> u64" where
  "alpha_decay retained alpha remaining =
     (if remaining \<noteq> 0 \<and> alpha \<noteq> 0 then alpha_decay retained (mul_shr63 retained alpha) (remaining - 1)
      else alpha)"
  by pat_completeness auto
termination
  by (relation "measure (\<lambda>(retained, alpha, remaining). unat remaining)")
    (simp_all add: unat_gt_0 unat_sub_exact word_le_nat_alt Suc_le_eq)

declare alpha_decay.simps [simp del]

definition alpha_through :: "u64 \<Rightarrow> dcqcn_controller \<Rightarrow> u64 \<times> dcqcn_controller" where
  "alpha_through time_ns c =
     (if dc_next_alpha_ns c > time_ns \<or> dc_next_alpha_ns c = u_max then (0, c)
      else
        let interval = cfg_alpha_interval_ns (dc_config c);
            ticks = (time_ns - dc_next_alpha_ns c) div interval + 1;
            retained = dcqcn_alpha_one - cfg_g_q63 (dc_config c);
            alpha = mul_shr63 retained (dc_alpha_q63 c);
            alpha = (if dc_alpha_pending c then alpha + cfg_g_q63 (dc_config c) else alpha);
            alpha = alpha_decay retained alpha (ticks - 1);
            advanced = u64_to_u128 ticks * u64_to_u128 interval + u64_to_u128 (dc_next_alpha_ns c)
        in (ticks, c\<lparr>dc_alpha_pending := False, dc_alpha_q63 := alpha,
              dc_next_alpha_ns := (case u64_try_from advanced of Some t \<Rightarrow> t | None \<Rightarrow> u_max)\<rparr>))"

definition decrease_check :: "u64 \<Rightarrow> dcqcn_controller \<Rightarrow> dcqcn_controller" where
  "decrease_check time_ns c0 =
     (let config = dc_config c0;
          c = (if cfg_clamp_target_rate config \<or> dc_stage c0 \<noteq> 0
               then c0\<lparr>dc_target_rate_bps := dc_current_rate_bps c0\<rparr> else c0);
          rate = dc_current_rate_bps c;
          product = u64_to_u128 rate * u64_to_u128 (dc_alpha_q63 c);
          reduction = u128_to_u64 (drop_bit 64 product) + (if u128_to_u64 product \<noteq> 0 then 1 else 0)
      in c\<lparr>dc_next_decrease_ns := saturating_add time_ns (cfg_decrease_interval_ns config),
           dc_current_rate_bps := max (rate - reduction) (cfg_minimum_rate_bps config),
           dc_stage := 0, dc_decrease_pending := False, dc_increase_armed := True,
           dc_next_increase_ns := saturating_add time_ns (cfg_increase_interval_ns config)\<rparr>)"

definition increase_fire :: "u64 \<Rightarrow> dcqcn_controller \<Rightarrow> dcqcn_controller" where
  "increase_fire time_ns c =
     (let config = dc_config c;
          steps = cfg_fast_recovery_steps config;
          target =
            (if dc_stage c = steps
             then min (saturating_add (dc_target_rate_bps c) (cfg_additive_rate_bps config))
                      (cfg_maximum_rate_bps config)
             else if dc_stage c > steps
             then min (saturating_add (dc_target_rate_bps c) (cfg_hyper_rate_bps config))
                      (cfg_maximum_rate_bps config)
             else dc_target_rate_bps c)
      in c\<lparr>dc_next_increase_ns := saturating_add time_ns (cfg_increase_interval_ns config),
           dc_target_rate_bps := target,
           dc_current_rate_bps := dc_current_rate_bps c div 2 + target div 2,
           dc_stage := (if dc_stage c \<le> steps then dc_stage c + 1 else dc_stage c)\<rparr>)"

definition first_decrease_at_or_after :: "u64 \<Rightarrow> dcqcn_controller \<Rightarrow> u64" where
  "first_decrease_at_or_after time_ns c =
     (let anchor = dc_next_decrease_ns c in
      if anchor \<ge> time_ns \<or> anchor = u_max then anchor
      else
        let interval = u64_to_u128 (cfg_decrease_interval_ns (dc_config c));
            steps = div_ceil (u64_to_u128 (time_ns - anchor)) interval
        in (case u64_try_from (u64_to_u128 anchor + steps * interval) of
              Some t \<Rightarrow> t | None \<Rightarrow> u_max))"

text \<open>One round of the loop of \<open>materialize\<close>: the earliest due instant, an increase first at a tie.\<close>

definition materialize_round ::
  "dcqcn_advance \<Rightarrow> dcqcn_controller \<Rightarrow> dcqcn_advance \<times> dcqcn_controller" where
  "materialize_round a c =
     (let increase = increase_instant c; decrease = decrease_instant c in
      if increase \<le> decrease
      then (a\<lparr>adv_increase_fires := adv_increase_fires a + 1\<rparr>, increase_fire increase c)
      else
        let (ticks, c') = alpha_through decrease c
        in (a\<lparr>adv_alpha_ticks := adv_alpha_ticks a + ticks,
              adv_decrease_cuts := adv_decrease_cuts a + 1\<rparr>, decrease_check decrease c'))"

partial_function (option) materialize_loop ::
  "u64 \<Rightarrow> dcqcn_advance \<Rightarrow> dcqcn_controller \<Rightarrow> (dcqcn_advance \<times> dcqcn_controller) option" where
  "materialize_loop bound_ns a c =
     (if min (increase_instant c) (decrease_instant c) \<ge> bound_ns then Some (a, c)
      else case materialize_round a c of (a', c') \<Rightarrow> materialize_loop bound_ns a' c')"

declare materialize_loop.simps [code]

definition materialize ::
  "u64 \<Rightarrow> dcqcn_controller \<Rightarrow> (dcqcn_advance \<times> dcqcn_controller) option" where
  "materialize bound_ns c = materialize_loop bound_ns advance_default c"

definition add_ticks :: "u64 \<Rightarrow> dcqcn_advance \<Rightarrow> dcqcn_advance" where
  "add_ticks ticks a = a\<lparr>adv_alpha_ticks := adv_alpha_ticks a + ticks\<rparr>"

text \<open>\<open>if let Some(last) = t.checked_sub(1) { advance.alpha_ticks += self.alpha_through(last) }\<close>\<close>

definition alpha_before :: "u64 \<Rightarrow> dcqcn_advance \<times> dcqcn_controller \<Rightarrow> dcqcn_advance \<times> dcqcn_controller" where
  "alpha_before time_ns ac =
     (case checked_sub time_ns 1 of
        None \<Rightarrow> ac
      | Some last_ns \<Rightarrow>
          (let (ticks, c) = alpha_through last_ns (snd ac) in (add_ticks ticks (fst ac), c)))"

definition on_feedback ::
  "u64 \<Rightarrow> dcqcn_controller \<Rightarrow> (dcqcn_advance \<times> dcqcn_controller) option" where
  "on_feedback now_ns c =
     (if \<not> dc_armed c then
        Some (advance_default,
          c\<lparr>dc_armed := True, dc_alpha_q63 := dcqcn_alpha_one, dc_alpha_pending := False,
            dc_decrease_pending := True,
            dc_next_alpha_ns := saturating_add now_ns (cfg_alpha_interval_ns (dc_config c)),
            dc_next_decrease_ns :=
              saturating_add (saturating_add now_ns (cfg_decrease_interval_ns (dc_config c))) 1\<rparr>)
      else
        map_option (\<lambda>ac.
          let (a, c) = alpha_before now_ns ac;
              c = c\<lparr>dc_alpha_pending := True\<rparr>
          in (a, if dc_decrease_pending c then c
                 else c\<lparr>dc_decrease_pending := True,
                        dc_next_decrease_ns := first_decrease_at_or_after now_ns c\<rparr>))
        (materialize now_ns c))"

definition settle ::
  "u64 \<Rightarrow> dcqcn_controller \<Rightarrow> (dcqcn_advance \<times> dcqcn_controller) option" where
  "settle bound_ns c =
     (if \<not> dc_armed c then Some (advance_default, c)
      else
        map_option (\<lambda>ac.
          let (a, c) = alpha_before bound_ns ac
          in (a, c\<lparr>dc_next_decrease_ns := first_decrease_at_or_after bound_ns c\<rparr>))
        (materialize bound_ns c))"

definition validate_state :: "dcqcn_controller \<Rightarrow> string + unit" where
  "validate_state c =
     (case config_validate (dc_config c) of
        Inl _ \<Rightarrow> Inl ''has an invalid DCQCN configuration''
      | Inr _ \<Rightarrow>
          if dc_alpha_q63 c > dcqcn_alpha_one then Inl ''has a DCQCN alpha above one''
          else if dc_stage c > cfg_fast_recovery_steps (dc_config c) + 1
            then Inl ''has a DCQCN stage above fast_recovery_times + 1''
          else if \<not> dc_armed c \<and> c \<noteq> pristine (dc_config c)
            then Inl ''has a DCQCN controller that moved before its first feedback''
          else Inr ())"

text \<open>\<open>dcqcn_materialize\<close> of \<open>scalar.rs\<close>: nothing is due, or the controller is frozen, in the common case.\<close>

definition dcqcn_materialize ::
  "dcqcn_controller \<Rightarrow> bool \<Rightarrow> u64 \<Rightarrow>
     ((dcqcn_controller \<times> dcqcn_advance) option \<times> dcqcn_controller) option" where
  "dcqcn_materialize controller frozen bound =
     (if frozen \<or> due_ns controller \<ge> bound then Some (None, controller)
      else map_option (\<lambda>(a, c). (Some (controller, a), c)) (materialize bound controller))"

subsection \<open>Exact values\<close>

lemma unat_alpha_one: "unat dcqcn_alpha_one = 2 ^ 63"
  by (simp add: dcqcn_alpha_one_def push_bit_eq_mult)

lemma unat_drop_bit_u128: "unat (drop_bit k x) = unat x div 2 ^ k" for x :: u128
  unfolding unat_drop_bit_eq by (rule drop_bit_eq_div)

lemma unat_mul_shr63:
  assumes "unat a \<le> 2 ^ 63" "unat b \<le> 2 ^ 63"
  shows "unat (mul_shr63 a b) = unat a * unat b div 2 ^ 63"
proof -
  have "unat a * unat b \<le> 2 ^ 63 * 2 ^ 63" using assms by (rule mult_le_mono)
  then have "unat a * unat b div 2 ^ 63 \<le> 2 ^ 63 * 2 ^ 63 div 2 ^ 63" by (rule div_le_mono)
  then have "unat a * unat b div 2 ^ 63 < 2 ^ 64" by simp
  then show ?thesis
    unfolding mul_shr63_def unat_u128_to_u64 unat_drop_bit_u128 unat_wide_mult by simp
qed

text \<open>The alpha step: \<open>floor((1 - g) alpha + g)\<close> with feedback, \<open>floor((1 - g) alpha)\<close> without.\<close>

definition alpha_step :: "nat \<Rightarrow> bool \<Rightarrow> nat \<Rightarrow> nat" where
  "alpha_step g pending alpha =
     ((2 ^ 63 - g) * alpha + (if pending then g * 2 ^ 63 else 0)) div 2 ^ 63"

lemma alpha_step_le: "g \<le> 2 ^ 63 \<Longrightarrow> alpha \<le> 2 ^ 63 \<Longrightarrow> alpha_step g p alpha \<le> 2 ^ 63"
proof -
  assume g: "g \<le> 2 ^ 63" and a: "alpha \<le> 2 ^ 63"
  have "(2 ^ 63 - g) * alpha + (if p then g * 2 ^ 63 else 0) \<le> (2 ^ 63 - g) * 2 ^ 63 + g * 2 ^ 63"
    using a by (intro add_mono mult_le_mono2) simp_all
  also have "\<dots> = 2 ^ 63 * 2 ^ 63" using g by (simp add: add_mult_distrib [symmetric])
  finally have "alpha_step g p alpha \<le> 2 ^ 63 * 2 ^ 63 div 2 ^ 63"
    unfolding alpha_step_def by (rule div_le_mono)
  then show ?thesis by simp
qed

lemma unat_alpha_update:
  assumes "unat g \<le> 2 ^ 63" "unat alpha \<le> 2 ^ 63"
  shows "unat (if p then mul_shr63 (dcqcn_alpha_one - g) alpha + g else mul_shr63 (dcqcn_alpha_one - g) alpha)
    = alpha_step (unat g) p (unat alpha)"
proof -
  have r: "unat (dcqcn_alpha_one - g) = 2 ^ 63 - unat g"
    using assms(1) by (simp add: unat_sub_exact unat_word_le unat_alpha_one)
  have m: "unat (mul_shr63 (dcqcn_alpha_one - g) alpha) = (2 ^ 63 - unat g) * unat alpha div 2 ^ 63"
    using unat_mul_shr63 [of "dcqcn_alpha_one - g" alpha] assms by (simp add: r)
  have s: "(2 ^ 63 - unat g) * unat alpha div 2 ^ 63 + unat g = alpha_step (unat g) True (unat alpha)"
    unfolding alpha_step_def by (simp add: div_mult_self2)
  show ?thesis
  proof (cases p)
    case True
    have lt: "unat (mul_shr63 (dcqcn_alpha_one - g) alpha) + unat g < 2 ^ LENGTH(64)"
      unfolding m s using alpha_step_le [OF assms, of True] by simp
    show ?thesis by (simp only: True if_True unat_add_exact [OF lt] m s)
  qed (simp add: m alpha_step_def)
qed

text \<open>The cut: \<open>R - ceil(R alpha / 2^64)\<close> is \<open>floor(R (2^64 - alpha) / 2^64)\<close>.\<close>

lemma cut_identity: "a \<le> 2 ^ 64 \<Longrightarrow> r - (r * a div 2 ^ 64 + (if r * a mod 2 ^ 64 \<noteq> 0 then 1 else 0))
    = r * (2 ^ 64 - a) div 2 ^ 64" for r a :: nat
proof -
  assume a: "a \<le> 2 ^ 64"
  define q where "q = r * a div 2 ^ 64"
  define m where "m = r * a mod 2 ^ 64"
  have qm: "r * a = q * 2 ^ 64 + m" "m < 2 ^ 64" by (simp_all add: q_def m_def)
  have le: "r * a \<le> r * 2 ^ 64" using a by (rule mult_le_mono2)
  have "q * 2 ^ 64 \<le> r * 2 ^ 64" using le qm by linarith
  then have "q \<le> r" by simp
  have e: "r * (2 ^ 64 - a) = (r - q) * 2 ^ 64 - m"
    using qm by (simp add: diff_mult_distrib diff_mult_distrib2)
  show ?thesis
  proof (cases "m = 0")
    case True
    then show ?thesis unfolding e q_def [symmetric] m_def [symmetric] by simp
  next
    case False
    then have "q * 2 ^ 64 < r * 2 ^ 64" using le qm by linarith
    then have lt: "q < r" by simp
    then obtain d where d: "r - q = Suc d" by (metis Suc_diff_Suc)
    have "(r - q) * 2 ^ 64 - m = d * 2 ^ 64 + (2 ^ 64 - m)" unfolding d using qm by simp
    moreover have "(d * 2 ^ 64 + (2 ^ 64 - m)) div 2 ^ 64 = d"
      using False qm by (simp add: div_add1_eq)
    ultimately show ?thesis
      unfolding e q_def [symmetric] m_def [symmetric] using False d by simp
  qed
qed

lemma unat_reduction:
  fixes rate alpha :: u64
  assumes "unat alpha \<le> 2 ^ 63"
  defines "product \<equiv> u64_to_u128 rate * u64_to_u128 alpha"
  shows "unat (rate - (u128_to_u64 (drop_bit 64 product) + (if u128_to_u64 product \<noteq> 0 then 1 else 0)))
    = unat rate * (2 ^ 64 - unat alpha) div 2 ^ 64"
proof -
  let ?p = "unat rate * unat alpha"
  have p: "unat product = ?p" by (simp add: product_def unat_wide_mult)
  have "?p \<le> unat rate * 2 ^ 63" using assms(1) by (rule mult_le_mono2)
  then have half: "?p div 2 ^ 64 \<le> unat rate * 2 ^ 63 div 2 ^ 64" by (rule div_le_mono)
  then have h: "2 * (?p div 2 ^ 64) \<le> unat rate" by simp
  have d: "unat (u128_to_u64 (drop_bit 64 product)) = ?p div 2 ^ 64"
    unfolding unat_u128_to_u64 unat_drop_bit_u128 p using h unat_lt [of rate] by simp
  have z: "u128_to_u64 product \<noteq> 0 \<longleftrightarrow> ?p mod 2 ^ 64 \<noteq> 0"
    using unat_u128_to_u64 [of product] by (simp add: p unat_0_iff [symmetric] del: unat_eq_zero)
  let ?r = "?p div 2 ^ 64 + (if ?p mod 2 ^ 64 \<noteq> 0 then 1 else 0)"
  have le: "?r \<le> unat rate"
  proof (cases "unat rate = 0")
    case False
    then show ?thesis using h by (cases "?p div 2 ^ 64") auto
  qed simp
  have "unat (u128_to_u64 (drop_bit 64 product) + (if u128_to_u64 product \<noteq> 0 then 1 else 0)) = ?r"
    using le unat_lt [of rate] by (subst unat_add_exact) (auto simp: d z)
  then have "unat (rate - (u128_to_u64 (drop_bit 64 product) + (if u128_to_u64 product \<noteq> 0 then 1 else 0)))
      = unat rate - ?r"
    using le by (subst unat_sub_exact) (simp_all add: unat_word_le)
  then show ?thesis using cut_identity [of "unat alpha" "unat rate"] assms(1) by simp
qed

subsection \<open>Batched alpha ticks are single ticks\<close>

text \<open>The eager timer: one tick at \<open>next_alpha_ns\<close>.\<close>

definition alpha_tick :: "dcqcn_controller \<Rightarrow> dcqcn_controller" where
  "alpha_tick c =
     c\<lparr>dc_alpha_q63 := (if dc_alpha_pending c
          then mul_shr63 (dcqcn_alpha_one - cfg_g_q63 (dc_config c)) (dc_alpha_q63 c) + cfg_g_q63 (dc_config c)
          else mul_shr63 (dcqcn_alpha_one - cfg_g_q63 (dc_config c)) (dc_alpha_q63 c)),
       dc_alpha_pending := False,
       dc_next_alpha_ns := saturating_add (dc_next_alpha_ns c) (cfg_alpha_interval_ns (dc_config c))\<rparr>"

fun eager_ticks :: "nat \<Rightarrow> u64 \<Rightarrow> dcqcn_controller \<Rightarrow> nat \<times> dcqcn_controller" where
  "eager_ticks 0 time_ns c = (0, c)"
| "eager_ticks (Suc n) time_ns c =
     (if dc_next_alpha_ns c > time_ns \<or> dc_next_alpha_ns c = u_max then (0, c)
      else let (k, c') = eager_ticks n time_ns (alpha_tick c) in (Suc k, c'))"

lemma mul_shr63_0: "mul_shr63 r 0 = 0"
  by (simp add: mul_shr63_def u64_to_u128_def u128_to_u64_def)

lemma alpha_decay_0: "alpha_decay r 0 n = 0"
  by (simp add: alpha_decay.simps)

lemma alpha_decay_step:
  "n \<noteq> 0 \<Longrightarrow> alpha_decay r a n = alpha_decay r (mul_shr63 r a) (n - 1)"
  by (cases "a = 0") (simp_all add: alpha_decay_0 mul_shr63_0 alpha_decay.simps [of r a n])

lemma alpha_decay_done: "alpha_decay r a 0 = a"
  by (simp add: alpha_decay.simps)

abbreviation alpha_idle :: "u64 \<Rightarrow> dcqcn_controller \<Rightarrow> bool" where
  "alpha_idle t c \<equiv> dc_next_alpha_ns c > t \<or> dc_next_alpha_ns c = u_max"

lemma u64_less_max: "(x :: u64) \<noteq> u_max \<longleftrightarrow> unat x < 2 ^ 64 - 1"
proof -
  have "unat (u_max :: u64) = 2 ^ 64 - 1" by (simp add: unat_u_max)
  then show ?thesis using unat_le_max [of x] by (auto simp: word_unat_eq_iff)
qed

lemma tick_quotient:
  fixes n iv t :: u64
  assumes "n \<le> t" "t \<noteq> u_max" "0 < unat iv"
  shows "unat ((t - n) div iv + 1) = (unat t - unat n) div unat iv + 1"
proof -
  have q: "unat ((t - n) div iv) = (unat t - unat n) div unat iv"
    using assms(1) by (simp add: unat_div unat_sub_exact)
  have "unat t < 2 ^ 64 - 1" using assms(2) by (simp add: u64_less_max)
  moreover have "(unat t - unat n) div unat iv \<le> unat t"
    by (meson diff_le_self div_le_dividend order_trans)
  ultimately show ?thesis using q by (subst unat_Suc_exact) simp_all
qed

lemma u64_of_u128:
  "unat (case u64_try_from x of Some t \<Rightarrow> t | None \<Rightarrow> u_max) = min (unat x) (2 ^ 64 - 1)"
proof (cases "u64_try_from x")
  case None
  then have "2 ^ 64 \<le> unat x" by (simp add: u64_try_from_None_iff)
  with None show ?thesis by (simp add: unat_u_max)
next
  case (Some t)
  then have "unat t = unat x" by (simp add: u64_try_from_Some_iff)
  with Some show ?thesis using unat_le_max [of t] by simp
qed

lemma unat_advanced:
  "unat (u64_to_u128 a * u64_to_u128 b + u64_to_u128 c) = unat a * unat b + unat c"
proof -
  have "unat a * unat b \<le> (2 ^ 64 - 1) * (2 ^ 64 - 1)"
    using unat_le_max [of a] unat_le_max [of b] by (intro mult_le_mono) simp_all
  then show ?thesis
    using unat_le_max [of c] by (subst unat_add_exact) (simp_all add: unat_wide_mult unat_u64_to_u128)
qed

lemma next_alpha_alpha_tick:
  "unat (dc_next_alpha_ns (alpha_tick c))
     = min (unat (dc_next_alpha_ns c) + unat (cfg_alpha_interval_ns (dc_config c))) (2 ^ 64 - 1)"
  by (simp add: alpha_tick_def unat_saturating_add)

lemma alpha_through_step:
  assumes act: "\<not> alpha_idle t c" and t: "t \<noteq> u_max"
    and iv: "0 < unat (cfg_alpha_interval_ns (dc_config c))"
  shows "alpha_through t c = (case alpha_through t (alpha_tick c) of (m, c') \<Rightarrow> (m + 1, c'))"
proof -
  let ?iv = "cfg_alpha_interval_ns (dc_config c)" and ?n = "dc_next_alpha_ns c"
    and ?n1 = "dc_next_alpha_ns (alpha_tick c)"
    and ?r = "dcqcn_alpha_one - cfg_g_q63 (dc_config c)"
  have tm: "unat t < 2 ^ 64 - 1"
    using t by (simp add: u64_less_max)
  have le: "?n \<le> t" using act by (simp add: not_less)
  then have nle: "unat ?n \<le> unat t" by (simp add: unat_word_le)
  define ticks where "ticks = (t - ?n) div ?iv + 1"
  have ticks: "unat ticks = (unat t - unat ?n) div unat ?iv + 1"
    unfolding ticks_def by (rule tick_quotient [OF le t iv])
  have thr: "alpha_through t c = (ticks, c\<lparr>dc_alpha_pending := False,
      dc_alpha_q63 := alpha_decay ?r (dc_alpha_q63 (alpha_tick c)) (ticks - 1),
      dc_next_alpha_ns := (case u64_try_from (u64_to_u128 ticks * u64_to_u128 ?iv + u64_to_u128 ?n) of
        Some t \<Rightarrow> t | None \<Rightarrow> u_max)\<rparr>)"
    using act by (simp add: alpha_through_def Let_def ticks_def alpha_tick_def)
  show ?thesis
  proof (cases "unat t < unat ?n + unat ?iv")
    case True
    then have "(unat t - unat ?n) div unat ?iv = 0" using nle by simp
    then have one: "ticks = 1" using ticks by (simp add: word_unat_eq_iff)
    have idle: "alpha_idle t (alpha_tick c)"
      using True tm unfolding unat_word_less next_alpha_alpha_tick by simp
    have "(case u64_try_from (u64_to_u128 1 * u64_to_u128 ?iv + u64_to_u128 ?n) of
        Some t \<Rightarrow> t | None \<Rightarrow> u_max) = ?n1"
      unfolding word_unat_eq_iff u64_of_u128 unat_advanced next_alpha_alpha_tick by (simp add: add.commute)
    then have "alpha_through t c = (1, alpha_tick c)"
      unfolding thr one by (simp add: alpha_decay_done alpha_tick_def)
    moreover have "alpha_through t (alpha_tick c) = (0, alpha_tick c)"
      using idle unfolding alpha_through_def [of t "alpha_tick c"] by (rule if_P)
    ultimately show ?thesis by simp
  next
    case False
    then have n1: "unat ?n1 = unat ?n + unat ?iv"
      unfolding next_alpha_alpha_tick using tm by simp
    then have "?n1 \<le> t" "?n1 \<noteq> u_max"
      using False tm unat_u_max [where ?'a = 64] by (auto simp: unat_word_le)
    then have act1: "\<not> alpha_idle t (alpha_tick c)" by simp
    define ticks1 where "ticks1 = (t - ?n1) div ?iv + 1"
    have t1: "unat ticks1 = (unat t - unat ?n1) div unat ?iv + 1"
      unfolding ticks1_def by (rule tick_quotient [OF \<open>?n1 \<le> t\<close> t iv])
    have "unat t - unat ?n = unat t - unat ?n1 + unat ?iv" using False n1 by simp
    then have eq: "unat ticks = unat ticks1 + 1" unfolding ticks t1 using iv by (simp add: div_add_self2)
    then have tw: "ticks = ticks1 + 1"
      using unat_lt [of ticks] by (simp add: word_unat_eq_iff unat_Suc_exact)
    have pos: "ticks1 \<noteq> 0" using t1 by (metis add_is_0 one_neq_zero unat_0)
    have thr1: "alpha_through t (alpha_tick c) = (ticks1, c\<lparr>dc_alpha_pending := False,
      dc_alpha_q63 := alpha_decay ?r (mul_shr63 ?r (dc_alpha_q63 (alpha_tick c))) (ticks1 - 1),
      dc_next_alpha_ns := (case u64_try_from (u64_to_u128 ticks1 * u64_to_u128 ?iv + u64_to_u128 ?n1) of
        Some t \<Rightarrow> t | None \<Rightarrow> u_max)\<rparr>)"
      using act1 unfolding alpha_through_def [of t "alpha_tick c"] ticks1_def
      by (simp add: Let_def) (simp add: alpha_tick_def)
    have "(case u64_try_from (u64_to_u128 ticks1 * u64_to_u128 ?iv + u64_to_u128 ?n1) of
        Some t \<Rightarrow> t | None \<Rightarrow> u_max)
      = (case u64_try_from (u64_to_u128 ticks * u64_to_u128 ?iv + u64_to_u128 ?n) of
        Some t \<Rightarrow> t | None \<Rightarrow> u_max)"
      unfolding word_unat_eq_iff u64_of_u128 unat_advanced n1 eq by (simp add: algebra_simps)
    moreover have "alpha_decay ?r (dc_alpha_q63 (alpha_tick c)) (ticks - 1)
        = alpha_decay ?r (mul_shr63 ?r (dc_alpha_q63 (alpha_tick c))) (ticks1 - 1)"
      unfolding tw using alpha_decay_step [OF pos] by simp
    ultimately show ?thesis unfolding thr thr1 by (simp add: tw)
  qed
qed

lemma config_alpha_tick [simp]: "dc_config (alpha_tick c) = dc_config c"
  by (simp add: alpha_tick_def)

lemma alpha_through_idle: "alpha_idle t c \<Longrightarrow> alpha_through t c = (0, c)"
  unfolding alpha_through_def by (rule if_P)

lemma alpha_through_ticks_pos:
  assumes "\<not> alpha_idle t c" "t \<noteq> u_max" "0 < unat (cfg_alpha_interval_ns (dc_config c))"
  shows "0 < unat (fst (alpha_through t c))"
proof -
  have "fst (alpha_through t c) = (t - dc_next_alpha_ns c) div cfg_alpha_interval_ns (dc_config c) + 1"
    using assms(1) by (simp add: alpha_through_def Let_def)
  then show ?thesis
    using tick_quotient [of "dc_next_alpha_ns c" t "cfg_alpha_interval_ns (dc_config c)"] assms
    by (simp add: not_less)
qed

lemma eager_ticks_through:
  assumes "t \<noteq> u_max" "0 < unat (cfg_alpha_interval_ns (dc_config c))"
    "unat (fst (alpha_through t c)) \<le> n"
  shows "eager_ticks n t c = (unat (fst (alpha_through t c)), snd (alpha_through t c))"
  using assms(2,3)
proof (induction n arbitrary: c)
  case 0
  then have "alpha_idle t c" using alpha_through_ticks_pos [OF _ assms(1) 0(1)] by fastforce
  then show ?case by (simp add: alpha_through_idle)
next
  case (Suc n)
  show ?case
  proof (cases "alpha_idle t c")
    case True
    then show ?thesis by (simp only: eager_ticks.simps if_True alpha_through_idle [OF True]) simp
  next
    case False
    obtain m c' where m: "alpha_through t (alpha_tick c) = (m, c')" by fastforce
    have st: "alpha_through t c = (m + 1, c')"
      using alpha_through_step [OF False assms(1) Suc.prems(1)] by (simp add: m)
    have "m + 1 \<noteq> 0"
      using alpha_through_ticks_pos [OF False assms(1) Suc.prems(1)] unfolding st by (simp add: unat_gt_0)
    then have s: "unat (m + 1) = unat m + 1"
      by (metis Suc_eq_plus1 unatSuc add.commute)
    have "eager_ticks n t (alpha_tick c) = (unat m, c')"
      using Suc.IH [of "alpha_tick c"] Suc.prems by (simp add: m st s)
    then show ?thesis using False s by (simp only: eager_ticks.simps if_False st fst_conv snd_conv) simp
  qed
qed

subsection \<open>The materialization loop\<close>

lemmas dcqcn_ops = increase_fire_def decrease_check_def alpha_through_def Let_def

lemma config_ops [simp]:
  "dc_config (increase_fire t c) = dc_config c"
  "dc_config (decrease_check t c) = dc_config c"
  "dc_config (snd (alpha_through t c)) = dc_config c"
  by (simp_all add: dcqcn_ops)

lemma armed_ops [simp]:
  "dc_armed (increase_fire t c) = dc_armed c"
  "dc_armed (decrease_check t c) = dc_armed c"
  "dc_armed (snd (alpha_through t c)) = dc_armed c"
  by (simp_all add: dcqcn_ops)

lemma config_round [simp]: "dc_config (snd (materialize_round a c)) = dc_config c"
  by (simp add: materialize_round_def Let_def case_prod_beta)

lemma armed_round [simp]: "dc_armed (snd (materialize_round a c)) = dc_armed c"
  by (simp add: materialize_round_def Let_def case_prod_beta)

definition round_measure :: "u64 \<Rightarrow> dcqcn_controller \<Rightarrow> nat" where
  "round_measure b c =
     (if dc_decrease_pending c then 2 ^ 64 + 1 else 0) + (unat b - unat (increase_instant c))"

lemma round_decreases:
  assumes "\<not> b \<le> min (increase_instant c) (decrease_instant c)"
    and "0 < unat (cfg_increase_interval_ns (dc_config c))"
  shows "round_measure b (snd (materialize_round a c)) < round_measure b c"
proof (cases "increase_instant c \<le> decrease_instant c")
  case True
  let ?i = "increase_instant c"
  have lt: "unat ?i < unat b" using assms(1) True by (simp add: unat_word_le min_def split: if_splits)
  then have armed: "dc_increase_armed c" using unat_le_max [of b]
    by (cases "dc_increase_armed c") (simp_all add: increase_instant_def unat_u_max)
  have "unat (increase_instant (increase_fire ?i c))
      = min (unat ?i + unat (cfg_increase_interval_ns (dc_config c))) (2 ^ 64 - 1)"
    using armed by (simp add: increase_instant_def increase_fire_def Let_def unat_saturating_add)
  then have "unat ?i < unat (increase_instant (increase_fire ?i c))"
    using lt assms(2) unat_le_max [of b] by simp
  moreover have "dc_decrease_pending (increase_fire ?i c) = dc_decrease_pending c"
    by (simp add: increase_fire_def Let_def)
  ultimately show ?thesis
    using True lt by (simp add: materialize_round_def Let_def round_measure_def)
next
  case False
  then have "dc_decrease_pending c"
    by (cases "dc_decrease_pending c") (simp_all add: decrease_instant_def)
  moreover have "\<not> dc_decrease_pending (decrease_check t c')" for t c'
    by (simp add: decrease_check_def Let_def)
  ultimately show ?thesis
    using False unat_le_max [of b]
    by (simp add: materialize_round_def Let_def case_prod_beta round_measure_def)
qed

lemma materialize_loop_returns:
  "0 < unat (cfg_increase_interval_ns (dc_config c)) \<Longrightarrow> \<exists>r. materialize_loop b a c = Some r"
proof (induction "round_measure b c" arbitrary: a c rule: less_induct)
  case less
  show ?case
  proof (cases "b \<le> min (increase_instant c) (decrease_instant c)")
    case True
    then show ?thesis by (subst materialize_loop.simps) simp
  next
    case False
    from less(1) [OF round_decreases [OF False less(2)], of a] less(2) False show ?thesis
      by (subst materialize_loop.simps) (simp add: case_prod_beta)
  qed
qed

lemma materialize_loop_stop:
  "b \<le> min (increase_instant c) (decrease_instant c) \<Longrightarrow> materialize_loop b a c = Some (a, c)"
  by (subst materialize_loop.simps) (rule if_P)

lemma materialize_loop_round:
  "\<not> b \<le> min (increase_instant c) (decrease_instant c) \<Longrightarrow>
   materialize_loop b a c = materialize_loop b (fst (materialize_round a c)) (snd (materialize_round a c))"
  by (subst materialize_loop.simps) (subst if_not_P, assumption, simp add: case_prod_beta)

lemma materialize_loop_induct [consumes 1, case_names stop round]:
  assumes "materialize_loop b a c = Some r"
    and stop: "\<And>a c. b \<le> min (increase_instant c) (decrease_instant c) \<Longrightarrow> P a c (a, c)"
    and round: "\<And>a c r. \<not> b \<le> min (increase_instant c) (decrease_instant c) \<Longrightarrow>
      materialize_loop b (fst (materialize_round a c)) (snd (materialize_round a c)) = Some r \<Longrightarrow>
      P (fst (materialize_round a c)) (snd (materialize_round a c)) r \<Longrightarrow> P a c r"
  shows "P a c r"
proof -
  have "materialize_loop b a c = Some r \<and> P a c r"
  proof (rule materialize_loop.raw_induct [OF _ assms(1), of "\<lambda>b' a c r. b' = b \<longrightarrow>
      materialize_loop b' a c = Some r \<and> P a c r", THEN mp, OF _ refl], rule impI)
    fix f b' a c r
    assume IH: "\<And>b' a c r. f b' a c = Some r \<Longrightarrow> b' = b \<longrightarrow> materialize_loop b' a c = Some r \<and> P a c r"
      and body: "(if b' \<le> min (increase_instant c) (decrease_instant c) then Some (a, c)
        else case materialize_round a c of (a', c') \<Rightarrow> f b' a' c') = Some r" and b: "b' = b"
    show "materialize_loop b' a c = Some r \<and> P a c r"
    proof (cases "b \<le> min (increase_instant c) (decrease_instant c)")
      case True
      then have "r = (a, c)" using body b by (simp only: if_True option.inject)
      with stop [OF True, of a] materialize_loop_stop [OF True, of a] b show ?thesis by simp
    next
      case False
      then have "f b (fst (materialize_round a c)) (snd (materialize_round a c)) = Some r"
        using body b by (simp only: if_False case_prod_beta)
      from IH [OF this] round [OF False, of a r] materialize_loop_round [OF False, of a] b
      show ?thesis by simp
    qed
  qed
  then show ?thesis ..
qed

lemma materialize_loop_keeps:
  "materialize_loop b a c = Some r \<Longrightarrow> dc_config (snd r) = dc_config c \<and> dc_armed (snd r) = dc_armed c"
  by (induction rule: materialize_loop_induct) simp_all

lemma materialize_loop_split:
  "materialize_loop b a c = Some r \<Longrightarrow> b \<le> b' \<Longrightarrow>
   materialize_loop b' (fst r) (snd r) = materialize_loop b' a c"
proof (induction rule: materialize_loop_induct)
  case (round a c r)
  then have "\<not> b' \<le> min (increase_instant c) (decrease_instant c)" by (meson order_trans)
  from materialize_loop_round [OF this] round(3,4) show ?case by simp
qed simp

lemma materialize_loop_state:
  "materialize_loop b a c = Some r \<Longrightarrow> \<exists>r'. materialize_loop b a0 c = Some r' \<and> snd r' = snd r"
proof (induction arbitrary: a0 rule: materialize_loop_induct)
  case (stop a c)
  from materialize_loop_stop [OF this, of a0] show ?case by simp
next
  case (round a c r)
  have "snd (materialize_round a c) = snd (materialize_round a0 c)"
    by (simp add: materialize_round_def Let_def case_prod_beta)
  with round(3) [of "fst (materialize_round a0 c)"] materialize_loop_round [OF round(1), of a0]
  show ?case by simp
qed

lemma materialize_split:
  assumes "materialize b c = Some (a1, c1)" "b \<le> b'"
  shows "map_option snd (materialize b' c1) = map_option snd (materialize b' c)"
proof -
  have e: "materialize_loop b' a1 c1 = materialize_loop b' advance_default c"
    using materialize_loop_split [OF assms(1) [unfolded materialize_def] assms(2)] by simp
  show ?thesis
  proof (cases "materialize b' c")
    case None
    then have "materialize_loop b' a1 c1 = None" using e by (simp add: materialize_def)
    then have "materialize_loop b' advance_default c1 = None"
      using materialize_loop_state [of b' advance_default c1 _ a1]
      by (cases "materialize_loop b' advance_default c1") auto
    then show ?thesis using None by (simp add: materialize_def)
  next
    case (Some r)
    then have "materialize_loop b' a1 c1 = Some r" using e by (simp add: materialize_def)
    from materialize_loop_state [OF this, of advance_default] show ?thesis
      using Some by (auto simp: materialize_def)
  qed
qed

lemma alpha_before_snd:
  "snd (alpha_before t ac) = (case checked_sub t 1 of None \<Rightarrow> snd ac | Some l \<Rightarrow> snd (alpha_through l (snd ac)))"
  by (simp add: alpha_before_def case_prod_beta split: option.split)

lemma on_feedback_split:
  assumes "materialize b c = Some (a1, c1)" "b \<le> t" "dc_armed c"
  shows "map_option snd (on_feedback t c1) = map_option snd (on_feedback t c)"
    and "map_option snd (settle t c1) = map_option snd (settle t c)"
proof -
  have armed: "dc_armed c1"
    using materialize_loop_keeps [OF assms(1) [unfolded materialize_def]] assms(3) by simp
  have fb: "map_option snd (on_feedback t d) = map_option (\<lambda>x.
      let y = (case checked_sub t 1 of None \<Rightarrow> x | Some l \<Rightarrow> snd (alpha_through l x))\<lparr>dc_alpha_pending := True\<rparr>
      in if dc_decrease_pending y then y
         else y\<lparr>dc_decrease_pending := True, dc_next_decrease_ns := first_decrease_at_or_after t y\<rparr>)
      (map_option snd (materialize t d))" if "dc_armed d" for d
    using that
    by (cases "materialize t d") (simp_all add: on_feedback_def Let_def case_prod_beta alpha_before_snd)
  have se: "map_option snd (settle t d) = map_option (\<lambda>x.
      let y = (case checked_sub t 1 of None \<Rightarrow> x | Some l \<Rightarrow> snd (alpha_through l x))
      in y\<lparr>dc_next_decrease_ns := first_decrease_at_or_after t y\<rparr>)
      (map_option snd (materialize t d))" if "dc_armed d" for d
    using that
    by (cases "materialize t d") (simp_all add: settle_def Let_def case_prod_beta alpha_before_snd)
  show "map_option snd (on_feedback t c1) = map_option snd (on_feedback t c)"
    unfolding fb [OF armed] fb [OF assms(3)] materialize_split [OF assms(1,2)] ..
  show "map_option snd (settle t c1) = map_option snd (settle t c)"
    unfolding se [OF armed] se [OF assms(3)] materialize_split [OF assms(1,2)] ..
qed

subsection \<open>The rate and state invariant\<close>

definition rate_in_range :: "dcqcn_controller_config \<Rightarrow> u64 \<Rightarrow> bool" where
  "rate_in_range cfg r \<longleftrightarrow>
     unat (dcqcn_rate_floor_bps (cfg_minimum_rate_bps cfg)) \<le> unat r
     \<and> unat r \<le> unat (cfg_maximum_rate_bps cfg)"

definition dc_inv :: "dcqcn_controller \<Rightarrow> bool" where
  "dc_inv c \<longleftrightarrow> config_validate (dc_config c) = Inr ()
     \<and> rate_in_range (dc_config c) (dc_current_rate_bps c)
     \<and> rate_in_range (dc_config c) (dc_target_rate_bps c)
     \<and> unat (dc_alpha_q63 c) \<le> 2 ^ 63
     \<and> unat (dc_stage c) \<le> unat (cfg_fast_recovery_steps (dc_config c)) + 1"

lemma config_facts:
  assumes "config_validate cfg = Inr ()"
  shows "3 \<le> unat (cfg_minimum_rate_bps cfg)"
    "unat (cfg_minimum_rate_bps cfg) \<le> unat (cfg_initial_rate_bps cfg)"
    "unat (cfg_initial_rate_bps cfg) \<le> unat (cfg_maximum_rate_bps cfg)"
    "unat (cfg_g_q63 cfg) \<le> 2 ^ 63"
    "0 < unat (cfg_alpha_interval_ns cfg)" "0 < unat (cfg_decrease_interval_ns cfg)"
    "0 < unat (cfg_increase_interval_ns cfg)"
    "unat (cfg_fast_recovery_steps cfg) < 2 ^ 32 - 1"
proof -
  have "\<not> cfg_minimum_rate_bps cfg < 3" "cfg_minimum_rate_bps cfg \<le> cfg_initial_rate_bps cfg"
    "cfg_initial_rate_bps cfg \<le> cfg_maximum_rate_bps cfg" "cfg_g_q63 cfg \<le> dcqcn_alpha_one"
    "cfg_alpha_interval_ns cfg \<noteq> 0" "cfg_decrease_interval_ns cfg \<noteq> 0" "cfg_increase_interval_ns cfg \<noteq> 0"
    and s: "cfg_fast_recovery_steps cfg \<noteq> u_max"
    using assms by (auto simp: config_validate_def not_less split: if_splits)
  then show "3 \<le> unat (cfg_minimum_rate_bps cfg)"
    "unat (cfg_minimum_rate_bps cfg) \<le> unat (cfg_initial_rate_bps cfg)"
    "unat (cfg_initial_rate_bps cfg) \<le> unat (cfg_maximum_rate_bps cfg)"
    "unat (cfg_g_q63 cfg) \<le> 2 ^ 63"
    "0 < unat (cfg_alpha_interval_ns cfg)" "0 < unat (cfg_decrease_interval_ns cfg)"
    "0 < unat (cfg_increase_interval_ns cfg)"
    by (simp_all add: unat_word_less unat_word_le unat_gt_0 unat_alpha_one)
  have "unat (cfg_fast_recovery_steps cfg) \<noteq> 2 ^ 32 - 1"
    using s unat_u_max [where ?'a = 32] by (auto simp: word_unat_eq_iff)
  then show "unat (cfg_fast_recovery_steps cfg) < 2 ^ 32 - 1"
    using unat_le_max [of "cfg_fast_recovery_steps cfg"] by simp
qed

lemma unat_rate_floor: "unat (dcqcn_rate_floor_bps m) = 2 * ((unat m - 1) div 2)"
proof -
  have "unat (saturating_sub m 1 div 2) = (unat m - 1) div 2"
    by (simp add: unat_div unat_saturating_sub)
  moreover have "2 * ((unat m - 1) div 2) \<le> unat m - 1" by simp
  ultimately show ?thesis
    using unat_le_max [of m] unfolding dcqcn_rate_floor_bps_def
    by (subst unat_mult_exact) simp_all
qed

lemma inv_new:
  assumes "config_validate cfg = Inr ()"
  shows "dc_inv (pristine cfg)"
  using config_facts [OF assms] assms
  by (auto simp: dc_inv_def pristine_def rate_in_range_def unat_rate_floor unat_alpha_one)

lemma alpha_decay_le:
  "unat r \<le> 2 ^ 63 \<Longrightarrow> unat a \<le> 2 ^ 63 \<Longrightarrow> unat (alpha_decay r a n) \<le> 2 ^ 63"
proof (induction r a n rule: alpha_decay.induct)
  case (1 r a n)
  have "unat (mul_shr63 r a) \<le> 2 ^ 63"
  proof -
    have "unat r * unat a \<le> 2 ^ 63 * 2 ^ 63" using 1(2,3) by (rule mult_le_mono)
    from div_le_mono [OF this, of "2 ^ 63"] show ?thesis by (simp add: unat_mul_shr63 [OF 1(2,3)])
  qed
  with 1 show ?case by (subst alpha_decay.simps) simp
qed

lemma inv_alpha_through:
  assumes "dc_inv c"
  shows "dc_inv (snd (alpha_through t c))"
proof -
  have g: "unat (cfg_g_q63 (dc_config c)) \<le> 2 ^ 63" and a: "unat (dc_alpha_q63 c) \<le> 2 ^ 63"
    using assms config_facts(4) by (auto simp: dc_inv_def)
  have r: "unat (dcqcn_alpha_one - cfg_g_q63 (dc_config c)) \<le> 2 ^ 63"
    using g by (simp add: unat_sub_exact unat_word_le unat_alpha_one)
  have "unat (if p then mul_shr63 (dcqcn_alpha_one - cfg_g_q63 (dc_config c)) (dc_alpha_q63 c) + cfg_g_q63 (dc_config c)
      else mul_shr63 (dcqcn_alpha_one - cfg_g_q63 (dc_config c)) (dc_alpha_q63 c)) \<le> 2 ^ 63" for p
    unfolding unat_alpha_update [OF g a] by (rule alpha_step_le [OF g a])
  from alpha_decay_le [OF r this] assms show ?thesis
    by (simp add: alpha_through_def Let_def dc_inv_def del: if_split)
qed

lemma half_sum_range:
  assumes "rate_in_range cfg a" "rate_in_range cfg b"
  shows "rate_in_range cfg (a div 2 + b div 2)"
proof -
  define f where "f = (unat (cfg_minimum_rate_bps cfg) - 1) div 2"
  have "2 * f \<le> unat a" "2 * f \<le> unat b" and m: "unat a \<le> unat (cfg_maximum_rate_bps cfg)"
    "unat b \<le> unat (cfg_maximum_rate_bps cfg)"
    using assms by (auto simp: rate_in_range_def unat_rate_floor f_def)
  then have "2 * f \<le> unat a div 2 + unat b div 2"
    "unat a div 2 + unat b div 2 \<le> unat (cfg_maximum_rate_bps cfg)" by arith+
  moreover have "unat (a div 2 + b div 2) = unat a div 2 + unat b div 2"
    using calculation(2) unat_lt [of "cfg_maximum_rate_bps cfg"]
    by (subst unat_add_exact) (simp_all add: unat_div)
  ultimately show ?thesis by (simp add: rate_in_range_def unat_rate_floor f_def)
qed

lemma inv_increase_fire:
  assumes "dc_inv c"
  shows "dc_inv (increase_fire t c)"
proof -
  let ?cfg = "dc_config c"
  have v: "config_validate ?cfg = Inr ()" and cur: "rate_in_range ?cfg (dc_current_rate_bps c)"
    and tgt: "rate_in_range ?cfg (dc_target_rate_bps c)"
    and st: "unat (dc_stage c) \<le> unat (cfg_fast_recovery_steps ?cfg) + 1"
    using assms by (auto simp: dc_inv_def)
  note f = config_facts [OF v]
  define target where "target = (if dc_stage c = cfg_fast_recovery_steps ?cfg
       then min (saturating_add (dc_target_rate_bps c) (cfg_additive_rate_bps ?cfg)) (cfg_maximum_rate_bps ?cfg)
       else if dc_stage c > cfg_fast_recovery_steps ?cfg
       then min (saturating_add (dc_target_rate_bps c) (cfg_hyper_rate_bps ?cfg)) (cfg_maximum_rate_bps ?cfg)
       else dc_target_rate_bps c)"
  have grow: "rate_in_range ?cfg (min (saturating_add (dc_target_rate_bps c) x) (cfg_maximum_rate_bps ?cfg))" for x
    using tgt unat_le_max [of "dc_target_rate_bps c"]
    by (auto simp: rate_in_range_def unat_min unat_saturating_add)
  have T: "rate_in_range ?cfg target" unfolding target_def using grow tgt by simp
  have "unat (if dc_stage c \<le> cfg_fast_recovery_steps ?cfg then dc_stage c + 1 else dc_stage c)
      \<le> unat (cfg_fast_recovery_steps ?cfg) + 1"
    using st f(8) by (auto simp: unat_word_le unat_Suc_exact)
  with assms T half_sum_range [OF cur T] show ?thesis
    unfolding increase_fire_def Let_def target_def [symmetric] by (simp add: dc_inv_def)
qed

lemma inv_decrease_check:
  assumes "dc_inv c"
  shows "dc_inv (decrease_check t c)"
proof -
  let ?cfg = "dc_config c"
  have v: "config_validate ?cfg = Inr ()" and cur: "rate_in_range ?cfg (dc_current_rate_bps c)"
    using assms by (auto simp: dc_inv_def)
  note f = config_facts [OF v]
  let ?p = "u64_to_u128 (dc_current_rate_bps c) * u64_to_u128 (dc_alpha_q63 c)"
  have a: "unat (dc_alpha_q63 c) \<le> 2 ^ 63" using assms by (simp add: dc_inv_def)
  have "unat (dc_current_rate_bps c) * (2 ^ 64 - unat (dc_alpha_q63 c)) div 2 ^ 64
      \<le> unat (dc_current_rate_bps c) * 2 ^ 64 div 2 ^ 64"
    by (intro div_le_mono mult_le_mono2) simp
  then have "rate_in_range ?cfg (max (dc_current_rate_bps c - (u128_to_u64 (drop_bit 64 ?p)
      + (if u128_to_u64 ?p \<noteq> 0 then 1 else 0))) (cfg_minimum_rate_bps ?cfg))"
    using cur f(1-3) unfolding rate_in_range_def unat_max unat_reduction [OF a] unat_rate_floor
    by auto
  with assms show ?thesis
    unfolding decrease_check_def Let_def by (simp add: dc_inv_def)
qed

lemma inv_round: "dc_inv c \<Longrightarrow> dc_inv (snd (materialize_round a c))"
  by (simp add: materialize_round_def Let_def case_prod_beta inv_increase_fire inv_decrease_check
      inv_alpha_through)

lemma inv_materialize_loop: "materialize_loop b a c = Some r \<Longrightarrow> dc_inv c \<Longrightarrow> dc_inv (snd r)"
  by (induction rule: materialize_loop_induct) (simp_all add: inv_round)

lemma inv_alpha_before: "dc_inv (snd ac) \<Longrightarrow> dc_inv (snd (alpha_before t ac))"
  by (simp add: alpha_before_snd inv_alpha_through split: option.split)

lemma inv_on_feedback:
  assumes "dc_inv c" "on_feedback t c = Some (a, c')"
  shows "dc_inv c' \<and> dc_config c' = dc_config c"
proof (cases "dc_armed c")
  case False
  with assms show ?thesis by (auto simp: on_feedback_def dc_inv_def unat_alpha_one)
next
  case True
  with assms(2) obtain r where r: "materialize_loop t advance_default c = Some r"
    by (auto simp: on_feedback_def materialize_def)
  define y where "y = snd (alpha_before t r)"
  have "dc_inv y" unfolding y_def by (rule inv_alpha_before [OF inv_materialize_loop [OF r assms(1)]])
  moreover have "dc_config y = dc_config c"
    using materialize_loop_keeps [OF r] by (simp add: y_def alpha_before_snd split: option.split)
  moreover have "c' = (let z = y\<lparr>dc_alpha_pending := True\<rparr> in if dc_decrease_pending z then z
      else z\<lparr>dc_decrease_pending := True, dc_next_decrease_ns := first_decrease_at_or_after t z\<rparr>)"
    using assms(2) True r by (auto simp: on_feedback_def materialize_def y_def Let_def case_prod_beta)
  ultimately show ?thesis by (simp add: Let_def dc_inv_def)
qed

lemma inv_settle:
  assumes "dc_inv c" "settle t c = Some (a, c')"
  shows "dc_inv c' \<and> dc_config c' = dc_config c"
proof (cases "dc_armed c")
  case False
  with assms show ?thesis by (simp add: settle_def)
next
  case True
  with assms(2) obtain r where r: "materialize_loop t advance_default c = Some r"
    by (auto simp: settle_def materialize_def)
  define y where "y = snd (alpha_before t r)"
  have "dc_inv y" unfolding y_def by (rule inv_alpha_before [OF inv_materialize_loop [OF r assms(1)]])
  moreover have "dc_config y = dc_config c"
    using materialize_loop_keeps [OF r] by (simp add: y_def alpha_before_snd split: option.split)
  moreover have "c' = y\<lparr>dc_next_decrease_ns := first_decrease_at_or_after t y\<rparr>"
    using assms(2) True r by (auto simp: settle_def materialize_def y_def Let_def case_prod_beta)
  ultimately show ?thesis by (simp add: dc_inv_def)
qed

text \<open>Any history of transitions of one flow.\<close>

datatype dcqcn_input = Feedback u64 | Tick u64 | Freeze u64

fun dcqcn_run :: "dcqcn_input list \<Rightarrow> dcqcn_controller \<Rightarrow> dcqcn_controller option" where
  "dcqcn_run [] c = Some c"
| "dcqcn_run (Feedback t # is) c = Option.bind (on_feedback t c) (\<lambda>r. dcqcn_run is (snd r))"
| "dcqcn_run (Tick b # is) c = Option.bind (materialize b c) (\<lambda>r. dcqcn_run is (snd r))"
| "dcqcn_run (Freeze b # is) c = Option.bind (settle b c) (\<lambda>r. dcqcn_run is (snd r))"

lemma dcqcn_run_inv:
  "dc_inv c \<Longrightarrow> \<exists>c'. dcqcn_run is c = Some c' \<and> dc_inv c' \<and> dc_config c' = dc_config c"
proof (induction "is" arbitrary: c)
  case (Cons i "is")
  have iv: "0 < unat (cfg_increase_interval_ns (dc_config c))"
    using Cons.prems config_facts(7) by (simp add: dc_inv_def)
  have mat: "\<exists>r. materialize b c = Some r" for b
    unfolding materialize_def using materialize_loop_returns [OF iv] .
  have "\<exists>c1. dcqcn_run (i # is) c = dcqcn_run is c1 \<and> dc_inv c1 \<and> dc_config c1 = dc_config c"
  proof (cases i)
    case (Feedback t)
    obtain a c1 where "on_feedback t c = Some (a, c1)"
      using mat [of t] by (cases "dc_armed c") (auto simp: on_feedback_def Let_def case_prod_beta)
    with inv_on_feedback [OF Cons.prems this] Feedback show ?thesis by auto
  next
    case (Tick b)
    obtain r where r: "materialize b c = Some r" using mat by blast
    with inv_materialize_loop [OF r [unfolded materialize_def] Cons.prems]
      materialize_loop_keeps [OF r [unfolded materialize_def]] Tick show ?thesis by auto
  next
    case (Freeze b)
    obtain a c1 where "settle b c = Some (a, c1)"
      using mat [of b] by (cases "dc_armed c") (auto simp: settle_def Let_def case_prod_beta)
    with inv_settle [OF Cons.prems this] Freeze show ?thesis by auto
  qed
  with Cons.IH show ?case by metis
qed simp

subsection \<open>Properties\<close>

definition sample_config :: dcqcn_controller_config where
  "sample_config = \<lparr>cfg_initial_rate_bps = 100000000000, cfg_minimum_rate_bps = 100000000,
     cfg_maximum_rate_bps = 100000000000, cfg_additive_rate_bps = 50000000,
     cfg_hyper_rate_bps = 100000000, cfg_g_q63 = 0x80000000000000, cfg_alpha_interval_ns = 1000,
     cfg_decrease_interval_ns = 4000, cfg_increase_interval_ns = 900000,
     cfg_fast_recovery_steps = 1, cfg_clamp_target_rate = False\<rparr>"

lemma sample_config_valid: "config_validate sample_config = Inr ()"
  by (simp add: config_validate_def sample_config_def dcqcn_alpha_one_def push_bit_eq_mult u_max_def)

text \<open>
  C27. A controller with a validated configuration always returns and keeps its rate in range:
  after any sequence of feedbacks, pacing ticks and freezes the current and target rates are
  between \<open>2 * floor((minimum - 1) / 2)\<close>, which is positive, and the maximum, alpha is at most one
  and the stage is saturated.
\<close>

theorem dcqcn_rate_in_range:
  assumes "config_validate cfg = Inr ()"
  shows "\<exists>c. dcqcn_run is (pristine cfg) = Some c
     \<and> 2 * ((unat (cfg_minimum_rate_bps cfg) - 1) div 2) \<le> unat (dc_current_rate_bps c)
     \<and> unat (dc_current_rate_bps c) \<le> unat (cfg_maximum_rate_bps cfg)
     \<and> 0 < unat (dc_current_rate_bps c)
     \<and> unat (dc_target_rate_bps c) \<le> unat (cfg_maximum_rate_bps cfg)
     \<and> unat (dc_alpha_q63 c) \<le> 2 ^ 63
     \<and> unat (dc_stage c) \<le> unat (cfg_fast_recovery_steps cfg) + 1"
proof -
  obtain c where c: "dcqcn_run is (pristine cfg) = Some c" "dc_inv c" "dc_config c = cfg"
    using dcqcn_run_inv [OF inv_new [OF assms], of "is"] by (auto simp: pristine_def)
  have "1 \<le> (unat (cfg_minimum_rate_bps cfg) - 1) div 2" using config_facts(1) [OF assms] by simp
  with c show ?thesis by (auto simp: dc_inv_def rate_in_range_def unat_rate_floor)
qed

theorem dcqcn_rate_in_range_witness:
  "\<exists>c. dcqcn_run [Feedback 10000, Tick 14002, Feedback 20000, Freeze 2000000] (pristine sample_config) = Some c
     \<and> 99999998 \<le> unat (dc_current_rate_bps c)"
  using dcqcn_rate_in_range [OF sample_config_valid, of "[Feedback 10000, Tick 14002, Feedback 20000, Freeze 2000000]"]
  by (auto simp: sample_config_def)

text \<open>
  A rate cut is exact: the new rate is \<open>floor(R * (1 - alpha / 2))\<close> with \<open>alpha\<close> in Q63, floored
  at the configured minimum, although the code computes it as \<open>R\<close> minus a rounded-up high product.
\<close>

theorem dcqcn_cut_exact:
  assumes "unat (dc_alpha_q63 c) \<le> 2 ^ 63"
  shows "unat (dc_current_rate_bps (decrease_check t c))
    = max (unat (dc_current_rate_bps c) * (2 ^ 64 - unat (dc_alpha_q63 c)) div 2 ^ 64)
        (unat (cfg_minimum_rate_bps (dc_config c)))"
proof -
  have "dc_current_rate_bps (decrease_check t c) = max (dc_current_rate_bps c -
      (u128_to_u64 (drop_bit 64 (u64_to_u128 (dc_current_rate_bps c) * u64_to_u128 (dc_alpha_q63 c)))
       + (if u128_to_u64 (u64_to_u128 (dc_current_rate_bps c) * u64_to_u128 (dc_alpha_q63 c)) \<noteq> 0 then 1 else 0)))
      (cfg_minimum_rate_bps (dc_config c))"
    by (simp add: decrease_check_def Let_def)
  then show ?thesis by (simp only: unat_max unat_reduction [OF assms])
qed

text \<open>
  Applying the alpha ticks in one batch is the same as running the timer eagerly: the batch
  applies exactly the ticks at or before the given time, one by one, each the exact rounded-down
  step \<open>alpha := (1 - g) alpha + g\<close> after feedback and \<open>alpha := (1 - g) alpha\<close> without.
\<close>

theorem alpha_batch_is_eager:
  assumes "t \<noteq> u_max" and "0 < unat (cfg_alpha_interval_ns (dc_config c))"
    and "unat (cfg_g_q63 (dc_config c)) \<le> 2 ^ 63" and "unat (dc_alpha_q63 c) \<le> 2 ^ 63"
  shows "eager_ticks (unat (fst (alpha_through t c))) t c
       = (unat (fst (alpha_through t c)), snd (alpha_through t c))
     \<and> unat (dc_alpha_q63 (alpha_tick c))
         = alpha_step (unat (cfg_g_q63 (dc_config c))) (dc_alpha_pending c) (unat (dc_alpha_q63 c))"
  using eager_ticks_through [OF assms(1,2) order_refl]
    unat_alpha_update [OF assms(3,4), of "dc_alpha_pending c"]
  by (simp add: alpha_tick_def)

text \<open>
  C28. Laziness is invisible: a transition that materializes the controller at an earlier bound does
  not change what a later feedback, freeze or materialization leaves in it.
\<close>

theorem dcqcn_lazy_invisible:
  assumes "materialize b c = Some (a1, c1)" and "b \<le> t" and "dc_armed c"
  shows "map_option snd (materialize t c1) = map_option snd (materialize t c)
    \<and> map_option snd (on_feedback t c1) = map_option snd (on_feedback t c)
    \<and> map_option snd (settle t c1) = map_option snd (settle t c)"
  using materialize_split [OF assms(1,2)] on_feedback_split [OF assms] by blast

theorem dcqcn_lazy_invisible_witness:
  "\<exists>c1. map_option snd (materialize 14002 ((pristine sample_config)\<lparr>dc_armed := True,
         dc_decrease_pending := True, dc_next_alpha_ns := 11000, dc_next_decrease_ns := 14001\<rparr>)) = Some c1
     \<and> map_option snd (settle 2000000 c1) = map_option snd (settle 2000000 ((pristine sample_config)\<lparr>dc_armed := True,
         dc_decrease_pending := True, dc_next_alpha_ns := 11000, dc_next_decrease_ns := 14001\<rparr>))"
proof -
  let ?c = "(pristine sample_config)\<lparr>dc_armed := True, dc_decrease_pending := True,
    dc_next_alpha_ns := 11000, dc_next_decrease_ns := 14001\<rparr>"
  have "0 < unat (cfg_increase_interval_ns (dc_config ?c))"
    by (simp add: pristine_def sample_config_def)
  then obtain a1 c1 where m: "materialize 14002 ?c = Some (a1, c1)"
    using materialize_loop_returns [of ?c 14002 advance_default] by (auto simp: materialize_def)
  then show ?thesis using dcqcn_lazy_invisible [OF m, of 2000000] by simp
qed

end
