(* ===== verification/Image_Types.thy ===== *)
theory Image_Types
  imports Complex_Main Ordered_Map Ecn_Ramp Tcp_Control Dcqcn
begin

section \<open>The simulation image\<close>

text \<open>
  The records of \<open>executor/src/image.rs\<close> and the scheduler state of \<open>executor/src/model.rs\<close>, struct by
  struct in the source's order: hosts, switches, flows, generators, receivers, packets.  A fixed
  array of eight priorities is a list, a \<open>BTreeSet\<close> a set, \<open>Ratio<BigUint>\<close> a \<open>rat\<close>.  The theory
  also has the pure methods of these types: packet classification, ECN marking, priorities and the
  completion test of dependency-gated stages.
\<close>

subsection \<open>Scheduler state\<close>

record wfq_state =
  wfq_weights :: "u64 list"
  wfq_virtual_time :: rat
  wfq_last_updated_ns :: u64
  wfq_finish_times :: "rat list"
  wfq_active_packets :: "u64 list"
  wfq_packet_finish_times :: "(payload_id, rat) omap"

record drr_state =
  drr_quanta_bytes :: "u64 list"
  drr_deficits_bytes :: "u64 list"
  drr_current_class :: u64

record wrr_state =
  wrr_weights :: "u64 list"
  wrr_packets_sent_in_round :: "u64 list"
  wrr_current_class :: u64

definition drr_new :: "u64 list \<Rightarrow> drr_state" where
  "drr_new quanta_bytes =
     \<lparr>drr_quanta_bytes = quanta_bytes, drr_deficits_bytes = replicate (length quanta_bytes) 0,
      drr_current_class = 0\<rparr>"

definition wrr_new :: "u64 list \<Rightarrow> wrr_state" where
  "wrr_new weights =
     \<lparr>wrr_weights = weights, wrr_packets_sent_in_round = replicate (length weights) 0,
      wrr_current_class = 0\<rparr>"

definition wfq_new :: "u64 list \<Rightarrow> wfq_state" where
  "wfq_new weights =
     \<lparr>wfq_weights = weights, wfq_virtual_time = 0, wfq_last_updated_ns = 0,
      wfq_finish_times = replicate (length weights) 0,
      wfq_active_packets = replicate (length weights) 0, wfq_packet_finish_times = []\<rparr>"

datatype drop_mark_policy = TailDrop | EcnRamp ecn_ramp_policy

datatype scheduler_kind =
    Fifo
  | StaticPriority "u64 list"
  | WeightedFairQueue wfq_state
  | DeficitRoundRobin drr_state
  | WeightedRoundRobin wrr_state

subsection \<open>Packets\<close>

record pfc_header =
  pfch_controlled_link :: link_id
  pfch_priority :: u8
  pfch_pause :: bool

record tcp_data_header =
  tdh_sequence :: u64
  tdh_sent_time_ns :: u64
  tdh_retransmission :: bool

record tcp_ack_header =
  tah_acknowledgment :: u64
  tah_acknowledged_bytes :: u64
  tah_echoed_sent_time_ns :: u64

record roce_data_header =
  rdh_psn :: u64
  rdh_sent_time_ns :: u64
  rdh_retransmission :: bool

record roce_ack_header =
  rah_acknowledgment :: u64
  rah_echoed_sent_time_ns :: u64
  rah_acknowledged_bytes :: u32
  rah_ce_echo :: bool

datatype packet_kind =
    Data
  | FeedbackPacket
  | TcpData tcp_data_header
  | TcpAck tcp_ack_header
  | Pfc pfc_header
  | DcqcnCnp payload_id
  | RoceData roce_data_header
  | RoceAck roce_ack_header
  | RoceNack roce_ack_header
  | RocePacingTimer
  | StageNotify

record packet_descriptor =
  pkt_id :: payload_id
  pkt_flow :: flow_id
  pkt_size_bytes :: u64
  pkt_ecn_marked :: bool
  pkt_kind :: packet_kind

datatype ecn_codepoint = NotEct | Ect0 | Ce

fun is_data :: "packet_kind \<Rightarrow> bool" where
  "is_data Data = True"
| "is_data (TcpData _) = True"
| "is_data (RoceData _) = True"
| "is_data _ = False"

fun is_feedback :: "packet_kind \<Rightarrow> bool" where
  "is_feedback FeedbackPacket = True"
| "is_feedback (TcpAck _) = True"
| "is_feedback (Pfc _) = True"
| "is_feedback (DcqcnCnp _) = True"
| "is_feedback (RoceAck _) = True"
| "is_feedback (RoceNack _) = True"
| "is_feedback _ = False"

fun is_timer_token :: "packet_kind \<Rightarrow> bool" where
  "is_timer_token RocePacingTimer = True"
| "is_timer_token _ = False"

fun packet_kind_code :: "packet_kind \<Rightarrow> u8" where
  "packet_kind_code Data = 0"
| "packet_kind_code FeedbackPacket = 1"
| "packet_kind_code (TcpData _) = 2"
| "packet_kind_code (TcpAck _) = 3"
| "packet_kind_code (Pfc _) = 4"
| "packet_kind_code (DcqcnCnp _) = 5"
| "packet_kind_code (RoceData _) = 7"
| "packet_kind_code (RoceAck _) = 8"
| "packet_kind_code (RoceNack _) = 9"
| "packet_kind_code RocePacingTimer = 10"
| "packet_kind_code StageNotify = 11"

definition packet_ecn_codepoint :: "packet_descriptor \<Rightarrow> ecn_codepoint" where
  "packet_ecn_codepoint p =
     (if \<not> is_data (pkt_kind p) then NotEct else if pkt_ecn_marked p then Ce else Ect0)"

definition mark_ecn :: "packet_descriptor \<Rightarrow> bool \<times> packet_descriptor" where
  "mark_ecn p = (if is_data (pkt_kind p) then (True, p\<lparr>pkt_ecn_marked := True\<rparr>) else (False, p))"

subsection \<open>Flows\<close>

record flow_descriptor =
  flow_id_of :: flow_id
  flow_source :: node_id
  flow_target :: node_id
  flow_priority :: u8
  flow_feedback_priority :: u8
  flow_route :: "link_id list"
  flow_reverse_route :: "link_id list"

fun packet_priority :: "flow_descriptor \<Rightarrow> packet_kind \<Rightarrow> u8" where
  "packet_priority f (DcqcnCnp _) = flow_feedback_priority f"
| "packet_priority f (RoceAck _) = flow_feedback_priority f"
| "packet_priority f (RoceNack _) = flow_feedback_priority f"
| "packet_priority f _ = flow_priority f"

subsection \<open>Dependency-gated stages\<close>

datatype stage_predecessors = NoPredecessor | OnePredecessor flow_id | Join u32 u32

fun predecessor_count :: "stage_predecessors \<Rightarrow> u32" where
  "predecessor_count NoPredecessor = 0"
| "predecessor_count (OnePredecessor _) = 1"
| "predecessor_count (Join first run) = run"

text \<open>The run \<open>joins[first .. first + count]\<close>; a run outside \<open>joins\<close> yields nothing.\<close>

fun join_run :: "stage_predecessors \<Rightarrow> flow_id list \<Rightarrow> flow_id list" where
  "join_run (Join first run) joins =
     (if unat first + unat run \<le> length joins then take (unat run) (drop (unat first) joins)
      else [])"
| "join_run _ joins = []"

fun predecessors_iter :: "stage_predecessors \<Rightarrow> flow_id list \<Rightarrow> flow_id list" where
  "predecessors_iter (OnePredecessor f) joins = [f]"
| "predecessors_iter p joins = join_run p joins"

record stage_dependencies =
  dep_local :: stage_predecessors
  dep_inbound :: stage_predecessors
  dep_inbound_predecessor_bytes :: u64
  dep_inbound_bytes_received :: u64
  dep_local_completed :: u32

definition local_complete :: "stage_dependencies \<Rightarrow> bool" where
  "local_complete d \<longleftrightarrow> dep_local_completed d = predecessor_count (dep_local d)"

definition inbound_complete :: "stage_dependencies \<Rightarrow> bool" where
  "inbound_complete d \<longleftrightarrow> dep_inbound_bytes_received d = dep_inbound_predecessor_bytes d"

definition prerequisites_complete :: "stage_dependencies \<Rightarrow> bool" where
  "prerequisites_complete d \<longleftrightarrow> local_complete d \<and> inbound_complete d"

datatype collective_algorithm = RingAllReduce | AllGatherAlgorithm | ReduceScatterAlgorithm
  | AllToAllAlgorithm | SendRecvAlgorithm

datatype collective_phase = ReduceScatterPhase | AllGatherPhase | AllToAllPhase | SendRecvPhase

datatype collective_chunk_policy = EqualRemainderLast | UniformFloor | Seeded

datatype collective_channel_policy = RingNext | Channels | AllPairs | PairPolicy

record collective_stage_identity =
  csi_collective_id :: u64
  csi_algorithm :: collective_algorithm
  csi_channel :: u32
  csi_group_size :: u32
  csi_declared_total_bytes :: u64
  csi_rank :: u32
  csi_phase :: collective_phase
  csi_step :: u32
  csi_chunk_policy :: collective_chunk_policy
  csi_channel_policy :: collective_channel_policy
  csi_chunk_offset_bytes :: u64
  csi_chunk_bytes :: u64

record compute_stage =
  cs_compute_id :: u64
  cs_group_size :: u32
  cs_rank :: u32
  cs_duration_ns :: u64

datatype stage_role = Collective collective_stage_identity | Compute compute_stage

record collective_stage =
  stg_role :: stage_role
  stg_dependencies :: stage_dependencies
  stg_activated :: bool

subsection \<open>Generators\<close>

datatype generator_status = Scheduled | Blocked | Finished | Stopped

record scheduled_emission =
  se_status :: generator_status
  se_departure_time_ns :: u64
  se_payload :: payload_id

record generator_feedback_state =
  gf_arrivals :: u64
  gf_outstanding_bytes :: u64
  gf_unacknowledged_bytes :: u64

datatype generator_termination = TermBytes u64 | TermDurationNs u64

record constant_generator =
  cg_first_departure_ns :: u64
  cg_interval_ns :: u64
  cg_packet_size_bytes :: u64
  cg_termination :: generator_termination

record rate_generator =
  rg_first_pacing_time_ns :: u64
  rg_pacing_interval_ns :: u64
  rg_packet_size_bytes :: u64
  rg_total_bytes :: u64
  rg_rate_numerator_bits_per_second :: u64
  rg_rate_denominator :: u64
  rg_credit_quanta :: u128

record dcqcn_generator =
  dg_rate :: rate_generator
  dg_controller :: dcqcn_controller
  dg_cnp_size_bytes :: u64

record roce_pacer =
  rp_first_pacing_time_ns :: u64
  rp_pacing_interval_ns :: u64
  rp_mtu_bytes :: u64
  rp_total_bytes :: u64
  rp_credit_quanta :: u128

datatype roce_congestion_control = RoceDcqcn | RoceNone

record roce_generator =
  rq_pacer :: roce_pacer
  rq_controller :: dcqcn_controller
  rq_pacing_timer_payload :: payload_id
  rq_next_psn :: u64
  rq_snd_una :: u64
  rq_rto_deadline_ns :: u64
  rq_rto_ns :: u64
  rq_window_bytes :: u64
  rq_pacer_armed :: bool
  rq_variable_window :: bool
  rq_window_parked :: bool
  rq_congestion_control :: roce_congestion_control

record tcp_timer_state =
  tt_attempt :: payload_id
  tt_sequence :: u64
  tt_deadline_ns :: u64
  tt_generation :: u64
  tt_rto_ns :: u64

record tcp_generator =
  tg_total_bytes :: u64
  tg_mss_bytes :: u64
  tg_ack_size_bytes :: u64
  tg_next_sequence :: u64
  tg_highest_ack :: u64
  tg_bytes_in_flight :: u64
  tg_duplicate_acks :: u64
  tg_recovery_high_sequence :: u64
  tg_last_attempt :: payload_id
  tg_timer_generation :: u64
  tg_active_timer :: "tcp_timer_state option"
  tg_srtt_ns :: u64
  tg_rtt_var_ns :: u64
  tg_rto_ns :: u64
  tg_control :: tcp_congestion_control

definition initial_rto_ns :: u64 where "initial_rto_ns = 1000000000"

definition tcp_generator_new :: "u64 \<Rightarrow> u64 \<Rightarrow> u64 \<Rightarrow> tcp_congestion_control \<Rightarrow> tcp_generator" where
  "tcp_generator_new total_bytes mss_bytes ack_size_bytes control =
     \<lparr>tg_total_bytes = total_bytes, tg_mss_bytes = mss_bytes, tg_ack_size_bytes = ack_size_bytes,
      tg_next_sequence = 0, tg_highest_ack = 0, tg_bytes_in_flight = 0, tg_duplicate_acks = 0,
      tg_recovery_high_sequence = 0, tg_last_attempt = 0, tg_timer_generation = 0,
      tg_active_timer = None, tg_srtt_ns = 0, tg_rtt_var_ns = 0, tg_rto_ns = initial_rto_ns,
      tg_control = control\<rparr>"

datatype flow_generator_kind =
    GenConstant constant_generator
  | GenTcp tcp_generator
  | GenRate rate_generator
  | GenDcqcn dcqcn_generator
  | GenRoce roce_generator

record flow_generator_state =
  fg_flow :: flow_id
  fg_packets_emitted :: u64
  fg_bytes_emitted :: u64
  fg_next_emission :: scheduled_emission
  fg_rng_state :: u64
  fg_feedback :: generator_feedback_state
  fg_kind :: flow_generator_kind

subsection \<open>Receivers\<close>

record tcp_receive_range =
  rr_start :: u64
  rr_end :: u64

record tcp_receiver_state =
  tr_flow :: flow_id
  tr_ack_size_bytes :: u64
  tr_next_expected_sequence :: u64
  tr_out_of_order :: "tcp_receive_range list"

definition tcp_receiver_new :: "flow_id \<Rightarrow> u64 \<Rightarrow> tcp_receiver_state" where
  "tcp_receiver_new flow ack_size_bytes =
     \<lparr>tr_flow = flow, tr_ack_size_bytes = ack_size_bytes, tr_next_expected_sequence = 0,
      tr_out_of_order = []\<rparr>"

record dcqcn_receiver_state =
  dr_flow :: flow_id
  dr_cnp_interval_ns :: u64
  dr_cnp_size_bytes :: u64
  dr_last_cnp_time_ns :: "u64 option"

record roce_nack_mark =
  nm_expected_psn :: u64
  nm_time_ns :: u64

record roce_receiver_state =
  rv_flow :: flow_id
  rv_total_bytes :: u64
  rv_expected_psn :: u64
  rv_ack_every_packets :: u64
  rv_packets_since_ack :: u64
  rv_ack_size_bytes :: u64
  rv_nack_interval_ns :: u64
  rv_last_nack :: "roce_nack_mark option"
  rv_duplicate_ack :: bool

subsection \<open>Logical processes\<close>

record host_pfc_state =
  hp_paused_by_controller :: "node_id set list"
  hp_pause_parked :: "nat set list"

definition host_is_paused :: "host_pfc_state \<Rightarrow> nat \<Rightarrow> bool" where
  "host_is_paused p priority \<longleftrightarrow> hp_paused_by_controller p ! priority \<noteq> {}"

record pfc_ingress_state =
  pi_controlled_link :: link_id
  pi_control_channel_index :: u32
  pi_buffer_capacity_bytes :: "u64 list"
  pi_max_frame_bytes :: "u64 list"
  pi_xoff_threshold_bytes :: "u64 list"
  pi_xon_threshold_bytes :: "u64 list"
  pi_occupancy_bytes :: "u64 list"
  pi_pause_asserted :: "bool list"

record pfc_queue_state =
  pq_paused_by_controller :: "node_id set list"
  pq_ingresses :: "pfc_ingress_state list"

definition queue_is_paused :: "pfc_queue_state \<Rightarrow> nat \<Rightarrow> bool" where
  "queue_is_paused p priority \<longleftrightarrow> pq_paused_by_controller p ! priority \<noteq> {}"

record switch_queue_state =
  sq_egress_link :: "link_id option"
  sq_scheduler :: scheduler_kind
  sq_queue_capacity_packets :: u64
  sq_drop_mark :: drop_mark_policy
  sq_pfc :: "pfc_queue_state option"
  sq_queue :: "payload_id list"
  sq_in_service :: "payload_id option"
  sq_tx_ready_pending :: bool

record switch_state =
  ss_physical_switch :: u64
  ss_queues :: "switch_queue_state list"
  ss_next_origin_seq :: u64
  ss_arrived_packets :: u64
  ss_dropped_packets :: u64
  ss_departed_packets :: u64

record host_state =
  hs_egress_link :: link_id
  hs_queue :: "payload_id list"
  hs_in_service :: "payload_id option"
  hs_tx_ready_pending :: bool
  hs_generators :: "flow_generator_state list"
  hs_stages :: "collective_stage option list"
  hs_tcp_receivers :: "tcp_receiver_state list"
  hs_dcqcn_receivers :: "dcqcn_receiver_state list"
  hs_roce_receivers :: "roce_receiver_state list option"
  hs_pfc :: "host_pfc_state option"
  hs_next_origin_seq :: u64
  hs_next_payload_seq :: u64
  hs_sourced_packets :: u64
  hs_departed_packets :: u64
  hs_received_packets :: u64

definition host_stage :: "host_state \<Rightarrow> nat \<Rightarrow> collective_stage option" where
  "host_stage h position =
     (if position < length (hs_stages h) then hs_stages h ! position else None)"

definition host_stage_dependencies :: "host_state \<Rightarrow> nat \<Rightarrow> stage_dependencies option" where
  "host_stage_dependencies h position = map_option stg_dependencies (host_stage h position)"

text \<open>\<open>set_stage_dependencies\<close>; \<open>None\<close> is the panic on a generator that is not a stage.\<close>

definition set_stage_dependencies :: "nat \<Rightarrow> stage_dependencies \<Rightarrow> host_state \<Rightarrow> host_state option" where
  "set_stage_dependencies position dependencies h =
     map_option (\<lambda>s. h\<lparr>hs_stages := (hs_stages h)[position := Some (s\<lparr>stg_dependencies := dependencies\<rparr>)]\<rparr>)
       (host_stage h position)"

definition stages_are_canonical :: "host_state \<Rightarrow> bool" where
  "stages_are_canonical h \<longleftrightarrow>
     hs_stages h = []
     \<or> (length (hs_stages h) = length (hs_generators h) \<and> list_ex (\<lambda>s. s \<noteq> None) (hs_stages h))"

record node_descriptor =
  nd_id :: node_id
  nd_kind :: node_kind
  nd_state_slot :: u32

record simulation_image =
  img_stop_time_ns :: u64
  img_nodes :: "node_descriptor list"
  img_host_states :: "host_state list"
  img_switch_states :: "switch_state list"
  img_flows :: "flow_descriptor list"
  img_initial_packets :: "packet_descriptor list"
  img_links :: "link_descriptor list"
  img_channels :: "remote_channel list"
  img_initial_events :: "event list"
  img_seed :: u64
  img_stage_joins :: "flow_id list"

end
