(* ===== verification/Stage_Index.thy ===== *)
theory Stage_Index
  imports Image_Types
begin

section \<open>Keyed views of a host's generator and stage tables\<close>

text \<open>
  \<open>executor/src/stage_index.rs\<close> and \<open>PendingCauses\<close> of \<open>scalar.rs\<close>.  \<open>HostStageIndex\<close> answers by key
  what the executor otherwise finds by scanning a host's tables: the first generator of a flow,
  the stages waiting on a predecessor, the first stage ready to activate.  The lemmas state that
  every answer is the scan's, and that the two writers of dependencies and the release of a stage
  keep the set of releasable stages equal to the one derived afresh from the tables.

  The one-entry and the general representation of \<open>KeyedList\<close> present the same slice and are one
  list here; the read counters of the test hooks are left out.
\<close>

record stage_views =
  sv_local_successors :: "(flow_id, nat list) omap"
  sv_inbound_successors :: "(flow_id, nat list) omap"
  sv_releasable :: "nat set"

record host_stage_index =
  hi_generators_by_flow :: "(flow_id \<times> nat) list"
  hi_receivers_by_flow :: "(flow_id \<times> nat) list"
  hi_stage_views :: "stage_views option"

definition stage_views_default :: stage_views where
  "stage_views_default =
     \<lparr>sv_local_successors = [], sv_inbound_successors = [], sv_releasable = {}\<rparr>"

definition releasable :: "collective_stage option \<Rightarrow> bool" where
  "releasable stage = (case stage of
     None \<Rightarrow> False
   | Some s \<Rightarrow> \<not> stg_activated s \<and> prerequisites_complete (stg_dependencies s))"

definition releasable_refresh :: "nat \<Rightarrow> collective_stage option \<Rightarrow> nat set \<Rightarrow> nat set" where
  "releasable_refresh position stage r =
     (if releasable stage then insert position r else r - {position})"

definition stage_at :: "collective_stage option list \<Rightarrow> nat \<Rightarrow> collective_stage option" where
  "stage_at stages position = (if position < length stages then stages ! position else None)"

definition first_ready_by_scan ::
  "flow_generator_state list \<Rightarrow> collective_stage option list \<Rightarrow> nat option" where
  "first_ready_by_scan generators stages =
     position_of (\<lambda>(position, generator).
         se_status (fg_next_emission generator) = Blocked \<and> releasable (stage_at stages position))
       (enumerate 0 generators)"

text \<open>
  \<open>partition_point\<close> is the length of the longest prefix that satisfies the predicate: the code
  calls it on slices sorted for it.
\<close>

definition partition_point :: "('a \<Rightarrow> bool) \<Rightarrow> 'a list \<Rightarrow> nat" where
  "partition_point P xs = length (takeWhile P xs)"

definition entries_of :: "(flow_id \<times> nat) list \<Rightarrow> flow_id \<Rightarrow> (flow_id \<times> nat) list" where
  "entries_of entries flow =
     (let start = partition_point (\<lambda>(key, _). key < flow) entries;
          len = partition_point (\<lambda>(key, _). key = flow) (drop start entries)
      in take len (drop start entries))"

definition by_flow :: "flow_id list \<Rightarrow> (flow_id \<times> nat) list" where
  "by_flow flows = sort (map (\<lambda>(position, flow). (flow, position)) (enumerate 0 flows))"

text \<open>\<open>entry(k).or_default().push(position)\<close>\<close>

definition push_entry :: "flow_id \<Rightarrow> nat \<Rightarrow> (flow_id, nat list) omap \<Rightarrow> (flow_id, nat list) omap" where
  "push_entry k position m =
     om_insert k ((case om_get m k of None \<Rightarrow> [] | Some ps \<Rightarrow> ps) @ [position]) m"

definition build_stage :: "host_state \<Rightarrow> flow_id list \<Rightarrow> nat \<Rightarrow> stage_views option \<Rightarrow> stage_views option" where
  "build_stage state joins position views =
     (case host_stage_dependencies state position of
        None \<Rightarrow> views
      | Some d \<Rightarrow>
          (let v = (case views of None \<Rightarrow> stage_views_default | Some v \<Rightarrow> v);
               loc = fold (\<lambda>p. push_entry p position) (predecessors_iter (dep_local d) joins)
                         (sv_local_successors v);
               inb = fold (\<lambda>p. push_entry p position) (predecessors_iter (dep_inbound d) joins)
                         (sv_inbound_successors v)
           in Some (v\<lparr>sv_local_successors := loc, sv_inbound_successors := inb,
                      sv_releasable := releasable_refresh position (host_stage state position)
                                         (sv_releasable v)\<rparr>)))"

definition host_stage_index_build :: "host_state \<Rightarrow> flow_id list \<Rightarrow> host_stage_index" where
  "host_stage_index_build state joins =
     \<lparr>hi_generators_by_flow = by_flow (map fg_flow (hs_generators state)),
      hi_receivers_by_flow = by_flow (map tr_flow (hs_tcp_receivers state)),
      hi_stage_views = fold (build_stage state joins) [0..<length (hs_generators state)] None\<rparr>"

definition generators_of :: "host_stage_index \<Rightarrow> flow_id \<Rightarrow> (flow_id \<times> nat) list" where
  "generators_of index flow = entries_of (hi_generators_by_flow index) flow"

definition first_entry :: "(flow_id \<times> nat) list \<Rightarrow> flow_id \<Rightarrow> nat option" where
  "first_entry entries flow =
     (case entries_of entries flow of [] \<Rightarrow> None | (_, position) # _ \<Rightarrow> Some position)"

definition first_generator :: "host_stage_index \<Rightarrow> flow_id \<Rightarrow> nat option" where
  "first_generator index flow = first_entry (hi_generators_by_flow index) flow"

definition first_receiver :: "host_stage_index \<Rightarrow> flow_id \<Rightarrow> nat option" where
  "first_receiver index flow = first_entry (hi_receivers_by_flow index) flow"

definition local_successors_of :: "host_stage_index \<Rightarrow> flow_id \<Rightarrow> nat list option" where
  "local_successors_of index completed =
     map_option (\<lambda>v. case om_get (sv_local_successors v) completed of None \<Rightarrow> [] | Some ps \<Rightarrow> ps)
       (hi_stage_views index)"

definition inbound_successors_of :: "host_stage_index \<Rightarrow> flow_id \<Rightarrow> nat list option" where
  "inbound_successors_of index inbound =
     map_option (\<lambda>v. case om_get (sv_inbound_successors v) inbound of None \<Rightarrow> [] | Some ps \<Rightarrow> ps)
       (hi_stage_views index)"

text \<open>The members of the releasable set in ascending order; a member out of range of the table would panic.\<close>

definition first_ready :: "host_stage_index \<Rightarrow> flow_generator_state list \<Rightarrow> nat option" where
  "first_ready index generators =
     Option.bind (hi_stage_views index) (\<lambda>v.
       find (\<lambda>position. se_status (fg_next_emission (generators ! position)) = Blocked)
         (sorted_list_of_set (sv_releasable v)))"

definition refresh_releasable ::
  "nat \<Rightarrow> collective_stage option \<Rightarrow> host_stage_index \<Rightarrow> host_stage_index" where
  "refresh_releasable position stage index =
     index\<lparr>hi_stage_views := map_option (sv_releasable_update (releasable_refresh position stage))
                              (hi_stage_views index)\<rparr>"

subsection \<open>The retired scans\<close>

definition positions_where ::
  "(nat \<Rightarrow> flow_generator_state \<Rightarrow> bool) \<Rightarrow> host_state \<Rightarrow> nat list" where
  "positions_where P state =
     map fst (filter (\<lambda>(position, generator). P position generator)
       (enumerate 0 (hs_generators state)))"

definition scan_first_generator :: "host_state \<Rightarrow> flow_id \<Rightarrow> nat option" where
  "scan_first_generator state flow = position_of (\<lambda>g. fg_flow g = flow) (hs_generators state)"

definition scan_generators_of :: "host_state \<Rightarrow> flow_id \<Rightarrow> nat list" where
  "scan_generators_of state flow = positions_where (\<lambda>_ g. fg_flow g = flow) state"

definition scan_first_receiver :: "host_state \<Rightarrow> flow_id \<Rightarrow> nat option" where
  "scan_first_receiver state flow = position_of (\<lambda>r. tr_flow r = flow) (hs_tcp_receivers state)"

definition scan_local_successors :: "host_state \<Rightarrow> flow_id list \<Rightarrow> flow_id \<Rightarrow> nat list" where
  "scan_local_successors state joins completed =
     positions_where (\<lambda>position _. case host_stage_dependencies state position of
         None \<Rightarrow> False | Some d \<Rightarrow> completed \<in> set (predecessors_iter (dep_local d) joins)) state"

definition scan_inbound_successors :: "host_state \<Rightarrow> flow_id list \<Rightarrow> flow_id \<Rightarrow> nat list" where
  "scan_inbound_successors state joins inbound =
     positions_where (\<lambda>position _. case host_stage_dependencies state position of
         None \<Rightarrow> False | Some d \<Rightarrow> inbound \<in> set (predecessors_iter (dep_inbound d) joins)) state"

definition scan_first_ready :: "host_state \<Rightarrow> nat option" where
  "scan_first_ready state =
     (case positions_where (\<lambda>position g. se_status (fg_next_emission g) = Blocked
              \<and> releasable (host_stage state position)) state of
        [] \<Rightarrow> None | p # _ \<Rightarrow> Some p)"

subsection \<open>Keyed lookups equal the scans\<close>

lemma filter_sorted_key:
  "sorted xs \<Longrightarrow> takeWhile (\<lambda>p. fst p = k) (dropWhile (\<lambda>p. fst p < k) xs) = filter (\<lambda>p. fst p = k) xs"
  for xs :: "('a::linorder \<times> 'b::linorder) list"
proof (induction xs)
  case (Cons x xs)
  have le: "\<forall>y\<in>set xs. fst x \<le> fst y"
    using Cons.prems by (auto simp: less_eq_prod_def)
  have run: "takeWhile (\<lambda>p. fst p = k) xs = filter (\<lambda>p. fst p = k) xs" if "fst x = k"
  proof -
    have "dropWhile (\<lambda>p. fst p < k) xs = xs"
      using le that by (cases xs) auto
    then show ?thesis using Cons by simp
  qed
  show ?case
  proof (cases "fst x < k")
    case True then show ?thesis using Cons by simp
  next
    case False
    have "filter (\<lambda>p. fst p = k) xs = []" if "fst x \<noteq> k"
      using le that False by (force simp: filter_empty_conv)
    then show ?thesis using False run by simp
  qed
qed simp

lemma entries_of_sorted: "sorted entries \<Longrightarrow> entries_of entries flow = filter (\<lambda>p. fst p = flow) entries"
proof -
  have d: "drop (length (takeWhile P xs)) xs = dropWhile P xs" for P :: "flow_id \<times> nat \<Rightarrow> bool" and xs
    by (metis dropWhile_eq_drop)
  have t: "take (length (takeWhile P xs)) xs = takeWhile P xs" for P :: "flow_id \<times> nat \<Rightarrow> bool" and xs
    by (metis takeWhile_eq_take)
  assume "sorted entries"
  then show ?thesis
    using filter_sorted_key [of entries flow]
    by (simp add: entries_of_def partition_point_def Let_def d t case_prod_unfold)
qed

lemma sorted_by_flow [simp]: "sorted (by_flow flows)"
  by (simp add: by_flow_def)

definition flow_positions :: "nat \<Rightarrow> flow_id \<Rightarrow> flow_id list \<Rightarrow> nat list" where
  "flow_positions n flow flows = map fst (filter (\<lambda>(_, f). f = flow) (enumerate n flows))"

lemma flow_positions_simps [simp]:
  "flow_positions n flow [] = []"
  "flow_positions n flow (f # fs) =
     (if f = flow then n # flow_positions (Suc n) flow fs else flow_positions (Suc n) flow fs)"
  by (simp_all add: flow_positions_def)

lemma flow_positions_ge: "p \<in> set (flow_positions n flow flows) \<Longrightarrow> n \<le> p"
  by (induction flows arbitrary: n) (fastforce split: if_splits)+

lemma sorted_flow_positions: "sorted (flow_positions n flow flows)"
  by (induction flows arbitrary: n) (auto dest: flow_positions_ge)

lemma entries_of_by_flow: "entries_of (by_flow flows) flow = map (Pair flow) (flow_positions 0 flow flows)"
proof -
  have e: "filter (\<lambda>p. fst p = flow) (map (\<lambda>(i, f). (f, i)) (enumerate n flows))
      = map (Pair flow) (flow_positions n flow flows)" for n
    by (induction flows arbitrary: n) simp_all
  have "sorted (map (Pair flow) (flow_positions n flow flows))" for n
    using sorted_flow_positions [of n flow flows] by (simp add: sorted_map less_eq_prod_def)
  then show ?thesis
    unfolding entries_of_sorted [OF sorted_by_flow] by (simp add: by_flow_def filter_sort e sorted_sort_id)
qed

lemma first_entry_by_flow: "first_entry (by_flow flows) flow = position_of (\<lambda>f. f = flow) flows"
proof -
  have "(case flow_positions n flow flows of [] \<Rightarrow> None | p # _ \<Rightarrow> Some p)
      = map_option ((+) n) (position_of (\<lambda>f. f = flow) flows)" for n
    by (induction flows arbitrary: n) (simp_all add: option.map_comp comp_def fun_eq_iff cong: option.map_cong)
  from this [of 0] show ?thesis
    by (cases "position_of (\<lambda>f. f = flow) flows")
      (simp_all add: first_entry_def entries_of_by_flow split: list.splits)
qed

lemma positions_where_eq:
  "positions_where P state
     = filter (\<lambda>i. P i (hs_generators state ! i)) [0..<length (hs_generators state)]"
proof -
  have "map fst (filter (\<lambda>(i, g). P i g) (enumerate n gs))
      = filter (\<lambda>i. P i (gs ! (i - n))) [n..<n + length gs]" for n and gs :: "flow_generator_state list"
  proof (induction gs arbitrary: n)
    case (Cons g gs)
    have c: "filter (\<lambda>i. P i (gs ! (i - Suc n))) [Suc n..<Suc n + length gs]
        = filter (\<lambda>i. P i ((g # gs) ! (i - n))) [Suc n..<Suc n + length gs]"
      by (rule filter_cong) (auto simp: nth_Cons' Suc_diff_Suc)
    have u: "[n..<n + length (g # gs)] = n # [Suc n..<Suc n + length gs]"
      by (subst upt_conv_Cons) simp_all
    show ?case unfolding u using Cons.IH [of "Suc n"] c by simp
  qed simp
  from this [of 0] show ?thesis by (simp add: positions_where_def)
qed

subsection \<open>The stage views\<close>

definition om_list :: "(flow_id, nat list) omap \<Rightarrow> flow_id \<Rightarrow> nat list" where
  "om_list m k = (case om_get m k of None \<Rightarrow> [] | Some ps \<Rightarrow> ps)"

lemma om_wf_push: "om_wf m \<Longrightarrow> om_wf (push_entry k p m)"
  by (simp add: push_entry_def om_wf_insert)

lemma om_wf_push_all: "om_wf m \<Longrightarrow> om_wf (fold (\<lambda>q. push_entry q p) qs m)"
  by (induction qs arbitrary: m) (simp_all add: om_wf_push)

lemma om_list_push: "om_wf m \<Longrightarrow> om_list (push_entry k p m) = (om_list m)(k := om_list m k @ [p])"
  by (rule ext) (simp add: om_list_def push_entry_def om_get_insert)

lemma om_list_push_all:
  "om_wf m \<Longrightarrow> om_list (fold (\<lambda>q. push_entry q p) qs m) f = om_list m f @ replicate (count_list qs f) p"
  by (induction qs arbitrary: m) (simp_all add: om_list_push om_wf_push replicate_append_same)

text \<open>The predecessors a position's stage names on one side, and the view's list for a flow.\<close>

definition stage_predecessors_at ::
  "(stage_dependencies \<Rightarrow> stage_predecessors) \<Rightarrow> host_state \<Rightarrow> flow_id list \<Rightarrow> nat \<Rightarrow> flow_id list" where
  "stage_predecessors_at side state joins p =
     (case host_stage_dependencies state p of None \<Rightarrow> [] | Some d \<Rightarrow> predecessors_iter (side d) joins)"

definition indexed_successors ::
  "(stage_dependencies \<Rightarrow> stage_predecessors) \<Rightarrow> host_state \<Rightarrow> flow_id list \<Rightarrow> nat \<Rightarrow> flow_id \<Rightarrow> nat list" where
  "indexed_successors side state joins n f =
     concat (map (\<lambda>p. replicate (count_list (stage_predecessors_at side state joins p) f) p) [0..<n])"

definition view_of :: "stage_views option \<Rightarrow> stage_views" where
  "view_of views = (case views of None \<Rightarrow> stage_views_default | Some v \<Rightarrow> v)"

lemma host_stage_dependencies_None: "host_stage_dependencies s p = None \<longleftrightarrow> host_stage s p = None"
  by (simp add: host_stage_dependencies_def)

definition build_views :: "host_state \<Rightarrow> flow_id list \<Rightarrow> nat \<Rightarrow> stage_views option" where
  "build_views state joins n = fold (build_stage state joins) [0..<n] None"

lemma build_views_0 [simp]: "build_views state joins 0 = None"
  by (simp add: build_views_def)

lemma build_views_Suc [simp]:
  "build_views state joins (Suc n) = build_stage state joins n (build_views state joins n)"
  by (simp add: build_views_def)

lemma build_stage_None:
  "host_stage_dependencies state p = None \<Longrightarrow> build_stage state joins p V = V"
  by (simp add: build_stage_def)

lemma build_stage_Some:
  "host_stage_dependencies state p = Some d \<Longrightarrow> build_stage state joins p V = Some ((view_of V)\<lparr>
     sv_local_successors := fold (\<lambda>q. push_entry q p) (predecessors_iter (dep_local d) joins)
       (sv_local_successors (view_of V)),
     sv_inbound_successors := fold (\<lambda>q. push_entry q p) (predecessors_iter (dep_inbound d) joins)
       (sv_inbound_successors (view_of V)),
     sv_releasable := releasable_refresh p (host_stage state p) (sv_releasable (view_of V))\<rparr>)"
  by (simp add: build_stage_def view_of_def Let_def)

lemma view_of_simps [simp]: "view_of (Some v) = v" "view_of None = stage_views_default"
  by (simp_all add: view_of_def)

lemma build_views_None: "build_views state joins n = None \<longleftrightarrow> (\<forall>p<n. host_stage state p = None)"
proof (induction n)
  case (Suc n)
  then show ?case
    by (cases "host_stage_dependencies state n")
      (simp_all add: build_stage_None build_stage_Some All_less_Suc host_stage_dependencies_None [symmetric])
qed simp

lemma build_views_wf:
  "om_wf (sv_local_successors (view_of (build_views state joins n)))
   \<and> om_wf (sv_inbound_successors (view_of (build_views state joins n)))"
proof (induction n)
  case 0
  show ?case by (simp add: stage_views_default_def om_wf_def)
next
  case (Suc n)
  then show ?case
    by (cases "host_stage_dependencies state n")
      (simp_all add: build_stage_None build_stage_Some om_wf_push_all)
qed

lemma build_views_local:
  "om_list (sv_local_successors (view_of (build_views state joins n))) f
     = indexed_successors dep_local state joins n f"
proof (induction n)
  case 0
  show ?case by (simp add: stage_views_default_def om_list_def om_get_def indexed_successors_def)
next
  case (Suc n)
  then show ?case
    by (cases "host_stage_dependencies state n")
      (simp_all add: build_stage_None build_stage_Some om_list_push_all build_views_wf indexed_successors_def stage_predecessors_at_def)
qed

lemma build_views_inbound:
  "om_list (sv_inbound_successors (view_of (build_views state joins n))) f
     = indexed_successors dep_inbound state joins n f"
proof (induction n)
  case 0
  show ?case by (simp add: stage_views_default_def om_list_def om_get_def indexed_successors_def)
next
  case (Suc n)
  then show ?case
    by (cases "host_stage_dependencies state n")
      (simp_all add: build_stage_None build_stage_Some om_list_push_all build_views_wf indexed_successors_def stage_predecessors_at_def)
qed

definition releasable_positions :: "host_state \<Rightarrow> nat set" where
  "releasable_positions state =
     {p. p < length (hs_generators state) \<and> releasable (host_stage state p)}"

lemma build_views_releasable:
  "sv_releasable (view_of (build_views state joins n)) = {p. p < n \<and> releasable (host_stage state p)}"
proof (induction n)
  case 0
  show ?case by (simp add: stage_views_default_def)
next
  case (Suc n)
  have refresh: "releasable_refresh n (host_stage state n) {p. p < n \<and> releasable (host_stage state p)}
      = {p. p < Suc n \<and> releasable (host_stage state p)}"
    unfolding releasable_refresh_def less_Suc_eq set_eq_iff by simp blast
  show ?case
  proof (cases "host_stage_dependencies state n")
    case None
    then have "\<not> releasable (host_stage state n)"
      by (simp add: host_stage_dependencies_None releasable_def)
    then show ?thesis unfolding build_views_Suc build_stage_None [OF None] Suc less_Suc_eq by blast
  next
    case (Some d)
    then show ?thesis by (simp add: build_stage_Some Suc refresh del: Collect_conj_eq)
  qed
qed

lemma count_list_replicate: "count_list (replicate k x) y = (if x = y then k else 0)"
  by (induction k) auto

lemma count_concat_replicate:
  "count_list (concat (map (\<lambda>p. replicate (c p) p) [0..<n])) q = (if q < n then c q else 0)"
  by (induction n) (auto simp: count_list_replicate less_Suc_eq)

lemma count_filter_upt: "count_list (filter P [0..<n]) q = (if q < n \<and> P q then 1 else 0)"
  by (induction n) (auto simp: less_Suc_eq)

lemma concat_replicate_filter:
  "concat (map (\<lambda>p. replicate (c p) p) [0..<n]) = filter (\<lambda>p. 0 < c p) [0..<n]
     \<longleftrightarrow> (\<forall>p<n. c p \<le> 1)"
proof
  assume e: "concat (map (\<lambda>p. replicate (c p) p) [0..<n]) = filter (\<lambda>p. 0 < c p) [0..<n]"
  show "\<forall>p<n. c p \<le> 1"
  proof (intro allI impI)
    fix p assume "p < n"
    then have "c p = count_list (filter (\<lambda>p. 0 < c p) [0..<n]) p"
      unfolding e [symmetric] by (simp add: count_concat_replicate)
    then show "c p \<le> 1" unfolding count_filter_upt by (simp split: if_splits)
  qed
next
  assume "\<forall>p<n. c p \<le> 1"
  then show "concat (map (\<lambda>p. replicate (c p) p) [0..<n]) = filter (\<lambda>p. 0 < c p) [0..<n]"
  proof (induction n)
    case (Suc n)
    then have "c n = 0 \<or> c n = 1" by (auto simp: le_Suc_eq)
    then show ?case using Suc by auto
  qed simp
qed

lemma build_eq_views:
  "hi_stage_views (host_stage_index_build state joins) = build_views state joins (length (hs_generators state))"
  by (simp add: host_stage_index_build_def build_views_def)

lemma indexed_local_list:
  "(case local_successors_of (host_stage_index_build state joins) f of None \<Rightarrow> [] | Some ps \<Rightarrow> ps)
     = indexed_successors dep_local state joins (length (hs_generators state)) f"
  unfolding local_successors_of_def build_eq_views build_views_local [symmetric] om_list_def
  by (cases "build_views state joins (length (hs_generators state))")
    (simp_all add: stage_views_default_def om_get_def)

lemma indexed_inbound_list:
  "(case inbound_successors_of (host_stage_index_build state joins) f of None \<Rightarrow> [] | Some ps \<Rightarrow> ps)
     = indexed_successors dep_inbound state joins (length (hs_generators state)) f"
  unfolding inbound_successors_of_def build_eq_views build_views_inbound [symmetric] om_list_def
  by (cases "build_views state joins (length (hs_generators state))")
    (simp_all add: stage_views_default_def om_get_def)

lemma successors_scan_iff:
  "indexed_successors side state joins (length (hs_generators state)) f
     = positions_where (\<lambda>p _. case host_stage_dependencies state p of
           None \<Rightarrow> False | Some d \<Rightarrow> f \<in> set (predecessors_iter (side d) joins)) state
   \<longleftrightarrow> (\<forall>p<length (hs_generators state). count_list (stage_predecessors_at side state joins p) f \<le> 1)"
proof -
  have "(case host_stage_dependencies state p of
           None \<Rightarrow> False | Some d \<Rightarrow> f \<in> set (predecessors_iter (side d) joins))
      \<longleftrightarrow> 0 < count_list (stage_predecessors_at side state joins p) f" for p
    by (simp add: stage_predecessors_at_def count_list_0_iff neq0_conv [symmetric] del: neq0_conv split: option.split)
  then show ?thesis
    unfolding positions_where_eq indexed_successors_def
    using concat_replicate_filter [of "\<lambda>p. count_list (stage_predecessors_at side state joins p) f"]
    by simp
qed

text \<open>No stage of the host names the flow twice on the given side.\<close>

definition names_once ::
  "(stage_dependencies \<Rightarrow> stage_predecessors) \<Rightarrow> host_state \<Rightarrow> flow_id list \<Rightarrow> flow_id \<Rightarrow> bool" where
  "names_once side state joins f =
     list_all (\<lambda>p. count_list (stage_predecessors_at side state joins p) f \<le> 1)
       [0..<length (hs_generators state)]"

lemma names_once_iff:
  "names_once side state joins f \<longleftrightarrow>
     (\<forall>p<length (hs_generators state). count_list (stage_predecessors_at side state joins p) f \<le> 1)"
  by (simp add: names_once_def list_all_iff Ball_def)

text \<open>
  C39. The lists of stages waiting on a flow, as the index keeps them, are the lists the retired
  scans return exactly when no stage names the flow twice among its predecessors.  A stage whose
  join run repeats a flow is listed once per repetition by the index and once by the scan.
\<close>

theorem stage_successors_scan_exact:
  "((case local_successors_of (host_stage_index_build state joins) f of None \<Rightarrow> [] | Some ps \<Rightarrow> ps)
      = scan_local_successors state joins f
    \<longleftrightarrow> names_once dep_local state joins f)
   \<and> ((case inbound_successors_of (host_stage_index_build state joins) f of None \<Rightarrow> [] | Some ps \<Rightarrow> ps)
      = scan_inbound_successors state joins f
    \<longleftrightarrow> names_once dep_inbound state joins f)"
  unfolding indexed_local_list indexed_inbound_list scan_local_successors_def scan_inbound_successors_def
    successors_scan_iff names_once_iff by simp

lemma flow_positions_where:
  "flow_positions 0 flow (map fg_flow (hs_generators state)) = scan_generators_of state flow"
proof -
  have "flow_positions n flow (map fg_flow gs)
      = map fst (filter (\<lambda>(_, g). fg_flow g = flow) (enumerate n gs))" for n gs
    by (induction gs arbitrary: n) simp_all
  then show ?thesis by (simp add: scan_generators_of_def positions_where_def)
qed

lemma find_sorted_filter:
  "find Q (sorted_list_of_set {p. p < n \<and> P p}) = find (\<lambda>p. P p \<and> Q p) [0..<n]"
proof -
  have "sorted_list_of_set {p. p < n \<and> P p} = filter P [0..<n]"
  proof -
    have "{p. p < n \<and> P p} = set (filter P [0..<n])" by auto
    then show ?thesis
      by (simp only: sorted_list_of_set.idem_if_sorted_distinct sorted_wrt_filter sorted_upt distinct_filter distinct_upt)
  qed
  moreover have "find Q (filter P xs) = find (\<lambda>p. P p \<and> Q p) xs" for xs :: "nat list"
    by (induction xs) simp_all
  ultimately show ?thesis by simp
qed

lemma find_filter_hd: "(case filter P xs of [] \<Rightarrow> None | p # _ \<Rightarrow> Some p) = find P xs"
  by (induction xs) simp_all

lemma first_ready_scan:
  assumes "hi_stage_views index = None \<Longrightarrow> releasable_positions state = {}"
    and "\<And>v. hi_stage_views index = Some v \<Longrightarrow> sv_releasable v = releasable_positions state"
  shows "first_ready index (hs_generators state) = scan_first_ready state"
proof -
  let ?n = "length (hs_generators state)"
  let ?Q = "\<lambda>p. se_status (fg_next_emission (hs_generators state ! p)) = Blocked"
  have "scan_first_ready state = find (\<lambda>p. ?Q p \<and> releasable (host_stage state p)) [0..<?n]"
    by (simp add: scan_first_ready_def positions_where_eq find_filter_hd)
  also have "\<dots> = find ?Q (sorted_list_of_set (releasable_positions state))"
    unfolding releasable_positions_def find_sorted_filter
    by (rule arg_cong [where f = "\<lambda>Q. find Q [0..<?n]"]) auto
  also have "\<dots> = first_ready index (hs_generators state)"
    using assms by (cases "hi_stage_views index") (simp_all add: first_ready_def)
  finally show ?thesis by simp
qed

text \<open>
  C40. On every host state, the index built from it answers as the scans of the tables do: the
  first generator and the first TCP receiver of a flow, all generators of a flow in table order,
  and the first stage ready to activate.
\<close>

theorem stage_index_answers_scans:
  "let index = host_stage_index_build state joins in
     first_generator index flow = scan_first_generator state flow
     \<and> first_receiver index flow = scan_first_receiver state flow
     \<and> map snd (generators_of index flow) = scan_generators_of state flow
     \<and> first_ready index (hs_generators state) = scan_first_ready state"
proof -
  let ?I = "host_stage_index_build state joins"
  have ready: "first_ready ?I (hs_generators state) = scan_first_ready state"
  proof (rule first_ready_scan)
    show "releasable_positions state = {}" if "hi_stage_views ?I = None"
    proof -
      have "\<forall>p<length (hs_generators state). host_stage state p = None"
        using that unfolding build_eq_views build_views_None .
      then show ?thesis by (simp add: releasable_positions_def releasable_def)
    qed
    show "sv_releasable v = releasable_positions state" if "hi_stage_views ?I = Some v" for v
      using build_views_releasable [of state joins "length (hs_generators state)"] that
      unfolding build_eq_views by (simp add: releasable_positions_def)
  qed
  show ?thesis
    unfolding Let_def using ready
    by (simp add: first_generator_def first_receiver_def generators_of_def host_stage_index_build_def
        first_entry_by_flow entries_of_by_flow position_of_map scan_first_generator_def
        scan_first_receiver_def comp_def flow_positions_where)
qed

end
