(* ===== verification/Stage_Progress.thy ===== *)
theory Stage_Progress
  imports Stage_Index Exec_Error
begin

section \<open>Progress of dependency-gated stages\<close>

text \<open>
  \<open>PendingCauses\<close>, \<open>complete_local_successors\<close> and \<open>record_inbound_progress\<close> of
  \<open>executor/src/scalar.rs\<close>.  One event may complete prerequisites of several stages; each
  completion is a cause, pushed in table order and taken back by flow.  The lemmas show that the
  keyed \<open>take\<close> is removal of the first match from a plain vector of causes, and that both writers
  of dependencies leave the host's stage index equal to the one built from the tables they leave.
\<close>

datatype collective_activation_cause = LocalCompletion | InboundArrival

record completion_signal =
  cmp_ack_number :: u64
  cmp_origin_ns :: u64
  cmp_delay_ns :: u64

definition completion_default :: completion_signal where
  "completion_default = \<lparr>cmp_ack_number = 0, cmp_origin_ns = 0, cmp_delay_ns = 0\<rparr>"

record pending_progress =
  pp_flow :: flow_id
  pp_cause :: collective_activation_cause
  pp_cause_flow :: flow_id
  pp_arrival_bytes :: u64
  pp_before_local_completed :: u32
  pp_before_inbound_complete :: bool
  pp_before_inbound_bytes :: u64
  pp_segment_sequence :: u64
  pp_segment_bytes :: u64
  pp_completion :: completion_signal

subsection \<open>Pending causes\<close>

record pending_causes =
  pc_causes :: "pending_progress option list"
  pc_by_flow :: "(flow_id \<times> nat) list"
  pc_sorted :: bool

definition causes_default :: pending_causes where
  "causes_default = \<lparr>pc_causes = [], pc_by_flow = [], pc_sorted = False\<rparr>"

definition causes_push :: "pending_progress \<Rightarrow> pending_causes \<Rightarrow> pending_causes" where
  "causes_push cause pc =
     \<lparr>pc_causes = pc_causes pc @ [Some cause],
      pc_by_flow = pc_by_flow pc @ [(pp_flow cause, length (pc_causes pc))],
      pc_sorted = False\<rparr>"

definition causes_is_empty :: "pending_causes \<Rightarrow> bool" where
  "causes_is_empty pc \<longleftrightarrow> pc_causes pc = []"

text \<open>The positions listed are those of pushed causes; a position out of range, which would panic, is passed over.\<close>

fun take_from ::
  "flow_id \<Rightarrow> (flow_id \<times> nat) list \<Rightarrow> pending_progress option list \<Rightarrow>
     pending_progress option \<times> pending_progress option list" where
  "take_from flow [] causes = (None, causes)"
| "take_from flow ((key, position) # rest) causes =
     (if key \<noteq> flow then (None, causes)
      else case (if position < length causes then causes ! position else None) of
        Some cause \<Rightarrow> (Some cause, causes[position := None])
      | None \<Rightarrow> take_from flow rest causes)"

definition causes_take ::
  "flow_id \<Rightarrow> pending_causes \<Rightarrow> pending_progress option \<times> pending_causes" where
  "causes_take flow pc =
     (let by_flow = (if pc_sorted pc then pc_by_flow pc else sort (pc_by_flow pc));
          start = partition_point (\<lambda>(key, _). key < flow) by_flow;
          (taken, causes) = take_from flow (drop start by_flow) (pc_causes pc)
      in (taken, \<lparr>pc_causes = causes, pc_by_flow = by_flow, pc_sorted = True\<rparr>))"

definition into_remaining :: "pending_causes \<Rightarrow> pending_progress list" where
  "into_remaining pc = map the (filter (\<lambda>c. c \<noteq> None) (pc_causes pc))"

text \<open>The vector of causes not yet taken, in push order, is what \<open>into_remaining\<close> yields.\<close>

definition causes_inv :: "pending_causes \<Rightarrow> bool" where
  "causes_inv pc \<longleftrightarrow>
     (\<exists>flows. length flows = length (pc_causes pc)
        \<and> mset (pc_by_flow pc) = mset (map (\<lambda>(i, f). (f, i)) (enumerate 0 flows))
        \<and> (\<forall>i c. i < length flows \<longrightarrow> pc_causes pc ! i = Some c \<longrightarrow> pp_flow c = flows ! i))
     \<and> (pc_sorted pc \<longrightarrow> sorted (pc_by_flow pc))"

fun take_first :: "flow_id \<Rightarrow> pending_progress list \<Rightarrow> pending_progress option \<times> pending_progress list" where
  "take_first flow [] = (None, [])"
| "take_first flow (c # cs) =
     (if pp_flow c = flow then (Some c, cs)
      else let (t, cs') = take_first flow cs in (t, c # cs'))"

definition still_pending :: "pending_progress option list \<Rightarrow> pending_progress list" where
  "still_pending cs = map the (filter (\<lambda>c. c \<noteq> None) cs)"

lemma still_pending_simps [simp]:
  "still_pending [] = []"
  "still_pending (None # cs) = still_pending cs"
  "still_pending (Some c # cs) = c # still_pending cs"
  "still_pending (cs @ ds) = still_pending cs @ still_pending ds"
  by (simp_all add: still_pending_def)

lemma take_from_run: "take_from f xs cs = take_from f (takeWhile (\<lambda>p. fst p = f) xs) cs"
  by (induction f xs cs rule: take_from.induct) (simp_all split: option.splits)

lemma take_from_positions:
  assumes "length pre = n" "length cs = length flows"
    and "\<And>i c. i < length flows \<Longrightarrow> cs ! i = Some c \<Longrightarrow> pp_flow c = flows ! i"
  shows "\<exists>t cs'. take_from f (map (Pair f) (flow_positions n f flows)) (pre @ cs) = (t, pre @ cs')
    \<and> length cs' = length cs \<and> (t, still_pending cs') = take_first f (still_pending cs)
    \<and> (\<forall>i c. i < length cs \<longrightarrow> cs' ! i = Some c \<longrightarrow> cs ! i = Some c)"
  using assms
proof (induction flows arbitrary: n pre cs)
  case Nil
  then show ?case by simp
next
  case (Cons g flows)
  from Cons.prems obtain d ds where cs: "cs = d # ds" "length ds = length flows"
    by (cases cs) auto
  have step: "take_from f (map (Pair f) (flow_positions (Suc n) f flows)) ((pre @ [d]) @ ds) = (t, (pre @ [d]) @ ds')
      \<Longrightarrow> length ds' = length ds \<Longrightarrow> (t, still_pending ds') = take_first f (still_pending ds)
      \<Longrightarrow> (\<forall>i c. i < length ds \<longrightarrow> ds' ! i = Some c \<longrightarrow> ds ! i = Some c)
      \<Longrightarrow> g \<noteq> f \<or> d = None \<Longrightarrow> ?case" for t ds'
  proof (intro exI conjI)
    assume a: "take_from f (map (Pair f) (flow_positions (Suc n) f flows)) ((pre @ [d]) @ ds) = (t, (pre @ [d]) @ ds')"
      "length ds' = length ds" "(t, still_pending ds') = take_first f (still_pending ds)"
      "\<forall>i c. i < length ds \<longrightarrow> ds' ! i = Some c \<longrightarrow> ds ! i = Some c" "g \<noteq> f \<or> d = None"
    have d: "pp_flow c = g" if "d = Some c" for c
      using Cons.prems(3) [of 0 c] that by (simp add: cs)
    show "take_from f (map (Pair f) (flow_positions n f (g # flows))) (pre @ cs) = (t, pre @ (d # ds'))"
      using a(1,5) Cons.prems(1) by (auto simp: cs nth_append)
    show "length (d # ds') = length cs" using a(2) by (simp add: cs)
    show "(t, still_pending (d # ds')) = take_first f (still_pending cs)"
      using a(3,5) d by (cases d) (auto simp: cs Let_def split: prod.splits)
    show "\<forall>i c. i < length cs \<longrightarrow> (d # ds') ! i = Some c \<longrightarrow> cs ! i = Some c"
      using a(4) by (simp add: cs nth_Cons split: nat.splits)
  qed
  show ?case
  proof (cases "g = f \<and> d \<noteq> None")
    case True
    then obtain c where c: "d = Some c" "g = f" by auto
    have "pp_flow c = f" using Cons.prems(3) [of 0 c] c by (simp add: cs)
    then show ?thesis using c Cons.prems(1)
      by (intro exI [of _ "Some c"] exI [of _ "None # ds"])
        (auto simp: cs nth_append nth_Cons list_update_append split: nat.splits)
  next
    case False
    have "\<exists>t ds'. take_from f (map (Pair f) (flow_positions (Suc n) f flows)) ((pre @ [d]) @ ds) = (t, (pre @ [d]) @ ds')
      \<and> length ds' = length ds \<and> (t, still_pending ds') = take_first f (still_pending ds)
      \<and> (\<forall>i c. i < length ds \<longrightarrow> ds' ! i = Some c \<longrightarrow> ds ! i = Some c)"
    proof (rule Cons.IH)
      show "pp_flow c = flows ! i" if "i < length flows" "ds ! i = Some c" for i c
        using Cons.prems(3) [of "Suc i" c] that by (simp add: cs)
    qed (use Cons.prems(1) cs in simp_all)
    then obtain t ds' where r: "take_from f (map (Pair f) (flow_positions (Suc n) f flows)) ((pre @ [d]) @ ds)
        = (t, (pre @ [d]) @ ds')" "length ds' = length ds"
      "(t, still_pending ds') = take_first f (still_pending ds)"
      "\<forall>i c. i < length ds \<longrightarrow> ds' ! i = Some c \<longrightarrow> ds ! i = Some c" by blast
    show ?thesis by (rule step [OF r]) (use False in auto)
  qed
qed

lemma causes_default_inv: "causes_inv causes_default" "into_remaining causes_default = []"
  by (simp_all add: causes_inv_def causes_default_def into_remaining_def)

lemma causes_push_inv:
  assumes "causes_inv pc"
  shows "causes_inv (causes_push c pc) \<and> into_remaining (causes_push c pc) = into_remaining pc @ [c]"
proof -
  from assms obtain flows where f: "length flows = length (pc_causes pc)"
    "mset (pc_by_flow pc) = mset (map (\<lambda>(i, f). (f, i)) (enumerate 0 flows))"
    "\<forall>i c. i < length flows \<longrightarrow> pc_causes pc ! i = Some c \<longrightarrow> pp_flow c = flows ! i"
    unfolding causes_inv_def by blast
  have "causes_inv (causes_push c pc)"
    unfolding causes_inv_def causes_push_def
    by (intro conjI exI [of _ "flows @ [pp_flow c]"])
      (use f in \<open>auto simp: enumerate_append_eq nth_append less_Suc_eq\<close>)
  then show ?thesis by (simp add: into_remaining_def causes_push_def)
qed

lemma causes_take_first:
  assumes "causes_inv pc"
  shows "causes_inv (snd (causes_take f pc))
    \<and> (fst (causes_take f pc), into_remaining (snd (causes_take f pc))) = take_first f (into_remaining pc)"
proof -
  from assms obtain flows where fl: "length flows = length (pc_causes pc)"
    "mset (pc_by_flow pc) = mset (map (\<lambda>(i, f). (f, i)) (enumerate 0 flows))"
    "\<And>i c. i < length flows \<Longrightarrow> pc_causes pc ! i = Some c \<Longrightarrow> pp_flow c = flows ! i"
    unfolding causes_inv_def by blast
  define bf where "bf = (if pc_sorted pc then pc_by_flow pc else sort (pc_by_flow pc))"
  have "sorted bf"
  proof (cases "pc_sorted pc")
    case True
    then show ?thesis using assms unfolding bf_def causes_inv_def by simp
  qed (simp add: bf_def)
  moreover have m: "mset bf = mset (map (\<lambda>(i, f). (f, i)) (enumerate 0 flows))"
    using fl(2) by (simp add: bf_def)
  ultimately have bf: "bf = by_flow flows"
    unfolding by_flow_def by (intro properties_for_sort [symmetric])
  have run: "takeWhile (\<lambda>p. fst p = f) (drop (partition_point (\<lambda>(key, _). key < f) bf) bf)
      = map (Pair f) (flow_positions 0 f flows)"
    unfolding bf entries_of_by_flow [symmetric] entries_of_def Let_def partition_point_def case_prod_unfold
    by (rule takeWhile_eq_take)
  obtain t cs where tc: "take_from f (map (Pair f) (flow_positions 0 f flows)) (pc_causes pc) = (t, cs)"
    "length cs = length (pc_causes pc)"
    "(t, still_pending cs) = take_first f (still_pending (pc_causes pc))"
    "\<forall>i c. i < length (pc_causes pc) \<longrightarrow> cs ! i = Some c \<longrightarrow> pc_causes pc ! i = Some c"
    using take_from_positions [OF list.size(3) fl(1) [symmetric] fl(3), of f]
    unfolding append_Nil by blast
  have take: "causes_take f pc = (t, \<lparr>pc_causes = cs, pc_by_flow = bf, pc_sorted = True\<rparr>)"
    using tc(1) run take_from_run [of f "drop (partition_point (\<lambda>(key, _). key < f) bf) bf" "pc_causes pc"]
    by (simp only: causes_take_def bf_def [symmetric] Let_def prod.case)
  have "causes_inv \<lparr>pc_causes = cs, pc_by_flow = bf, pc_sorted = True\<rparr>"
    unfolding causes_inv_def pending_causes.simps
  proof (intro conjI exI [of _ flows])
    show "length flows = length cs" using fl(1) tc(2) by simp
    show "\<forall>i c. i < length flows \<longrightarrow> cs ! i = Some c \<longrightarrow> pp_flow c = flows ! i"
      using tc(4) fl(1,3) by metis
    show "mset bf = mset (map (\<lambda>(i, f). (f, i)) (enumerate 0 flows))" by (rule m)
    show "True \<longrightarrow> sorted bf" unfolding bf by simp
  qed
  then show ?thesis unfolding take using tc(3) by (simp add: into_remaining_def still_pending_def)
qed

text \<open>Every cause taken leaves fewer to take.\<close>

lemma filter_update_None:
  assumes "i < length cs" "cs ! i \<noteq> None"
  shows "length (filter (\<lambda>c. c \<noteq> None) (cs[i := None])) < length (filter (\<lambda>c. c \<noteq> None) cs)"
proof -
  have "length (filter (\<lambda>c. c \<noteq> None) cs)
    = length (filter (\<lambda>c. c \<noteq> None) (take i cs @ cs ! i # drop (Suc i) cs))"
    using id_take_nth_drop [OF assms(1)] by simp
  then show ?thesis using assms by (simp add: upd_conv_take_nth_drop)
qed

lemma take_from_decreases:
  "take_from f xs cs = (Some c, cs')
    \<Longrightarrow> length (filter (\<lambda>c. c \<noteq> None) cs') < length (filter (\<lambda>c. c \<noteq> None) cs)"
proof (induction f xs cs rule: take_from.induct)
  case (2 flow key position rest causes)
  then show ?case
    by (cases "position < length causes"; cases "causes ! position")
      (auto simp: filter_update_None simp del: not_None_eq split: if_splits)
qed simp

lemma causes_take_decreases:
  assumes "causes_take f pc = (Some c, pc')"
  shows "length (into_remaining pc') < length (into_remaining pc)"
proof -
  obtain cs where "take_from f (drop (partition_point (\<lambda>(key, _). key < f)
      (if pc_sorted pc then pc_by_flow pc else sort (pc_by_flow pc)))
      (if pc_sorted pc then pc_by_flow pc else sort (pc_by_flow pc))) (pc_causes pc) = (Some c, cs)"
    "pc_causes pc' = cs"
    using assms by (auto simp: causes_take_def Let_def split: prod.splits)
  from take_from_decreases [OF this(1)] this(2) show ?thesis by (simp add: into_remaining_def)
qed

subsection \<open>The writers of stage dependencies\<close>

text \<open>
  A host's stage table, the releasable set of its index and the causes so far.  The positions the
  loops visit are those the index lists, which are positions of the generator table, so reading
  \<open>generators[position]\<close> is in range.
\<close>

type_synonym stage_walk = "collective_stage option list \<times> nat set \<times> pending_causes"

definition write_dependencies ::
  "nat \<Rightarrow> collective_stage \<Rightarrow> stage_dependencies \<Rightarrow> pending_progress \<Rightarrow> stage_walk \<Rightarrow> stage_walk" where
  "write_dependencies position stage dependencies cause w =
     (case w of (stages, rel, causes) \<Rightarrow>
        let stage' = stage\<lparr>stg_dependencies := dependencies\<rparr>
        in (stages[position := Some stage'], releasable_refresh position (Some stage') rel,
            causes_push cause causes))"

definition complete_local_one ::
  "flow_generator_state list \<Rightarrow> flow_id \<Rightarrow> completion_signal \<Rightarrow> nat \<Rightarrow> stage_walk \<Rightarrow> stage_walk" where
  "complete_local_one generators completed completion position w =
     (case stage_at (fst w) position of
        None \<Rightarrow> w
      | Some stage \<Rightarrow>
          let d = stg_dependencies stage in
          if local_complete d then w
          else write_dependencies position stage (d\<lparr>dep_local_completed := dep_local_completed d + 1\<rparr>)
                 \<lparr>pp_flow = fg_flow (generators ! position), pp_cause = LocalCompletion,
                  pp_cause_flow = completed, pp_arrival_bytes = 0,
                  pp_before_local_completed = dep_local_completed d,
                  pp_before_inbound_complete = inbound_complete d,
                  pp_before_inbound_bytes = dep_inbound_bytes_received d,
                  pp_segment_sequence = 0, pp_segment_bytes = 0, pp_completion = completion\<rparr> w)"

definition set_releasable :: "nat set \<Rightarrow> host_stage_index \<Rightarrow> host_stage_index" where
  "set_releasable rel index =
     index\<lparr>hi_stage_views := map_option (\<lambda>v. v\<lparr>sv_releasable := rel\<rparr>) (hi_stage_views index)\<rparr>"

definition releasable_of :: "host_stage_index \<Rightarrow> nat set" where
  "releasable_of index = (case hi_stage_views index of None \<Rightarrow> {} | Some v \<Rightarrow> sv_releasable v)"

definition complete_local_successors ::
  "flow_generator_state list \<Rightarrow> flow_id \<Rightarrow> completion_signal \<Rightarrow>
     collective_stage option list \<times> host_stage_index \<times> pending_causes \<Rightarrow>
     collective_stage option list \<times> host_stage_index \<times> pending_causes" where
  "complete_local_successors generators completed completion s =
     (case s of (stages, index, causes) \<Rightarrow>
        case local_successors_of index completed of
          None \<Rightarrow> s
        | Some successors \<Rightarrow>
            (case fold (complete_local_one generators completed completion) successors
                    (stages, releasable_of index, causes) of
               (stages', rel, causes') \<Rightarrow> (stages', set_releasable rel index, causes')))"

record inbound_progress =
  ib_sequence :: u64
  ib_bytes :: u64
  ib_advance :: u64

definition inbound_one ::
  "flow_generator_state list \<Rightarrow> flow_id \<Rightarrow> inbound_progress \<Rightarrow> node_id \<Rightarrow> nat \<Rightarrow> stage_walk \<Rightarrow>
     execution_error + stage_walk" where
  "inbound_one generators inbound progress node position w =
     (case stage_at (fst w) position of
        None \<Rightarrow> Inr w
      | Some stage \<Rightarrow>
          let d = stg_dependencies stage in
          if inbound_complete d then Inr w
          else
            and_then (ok_or (CounterOverflow node)
                        (checked_add (dep_inbound_bytes_received d) (ib_advance progress)))
            (\<lambda>received.
               if received > dep_inbound_predecessor_bytes d then Inl (CounterOverflow node)
               else Inr (write_dependencies position stage (d\<lparr>dep_inbound_bytes_received := received\<rparr>)
                 \<lparr>pp_flow = fg_flow (generators ! position), pp_cause = InboundArrival,
                  pp_cause_flow = inbound, pp_arrival_bytes = ib_advance progress,
                  pp_before_local_completed = dep_local_completed d,
                  pp_before_inbound_complete = False,
                  pp_before_inbound_bytes = dep_inbound_bytes_received d,
                  pp_segment_sequence = ib_sequence progress, pp_segment_bytes = ib_bytes progress,
                  pp_completion = completion_default\<rparr> w)))"

fun inbound_all ::
  "flow_generator_state list \<Rightarrow> flow_id \<Rightarrow> inbound_progress \<Rightarrow> node_id \<Rightarrow> nat list \<Rightarrow> stage_walk \<Rightarrow>
     execution_error + stage_walk" where
  "inbound_all generators inbound progress node [] w = Inr w"
| "inbound_all generators inbound progress node (p # ps) w =
     and_then (inbound_one generators inbound progress node p w)
       (inbound_all generators inbound progress node ps)"

definition record_inbound_progress ::
  "flow_generator_state list \<Rightarrow> flow_id \<Rightarrow> inbound_progress \<Rightarrow> node_id \<Rightarrow>
     collective_stage option list \<times> host_stage_index \<times> pending_causes \<Rightarrow>
     execution_error + collective_stage option list \<times> host_stage_index \<times> pending_causes" where
  "record_inbound_progress generators inbound progress node s =
     (case s of (stages, index, causes) \<Rightarrow>
        case inbound_successors_of index inbound of
          None \<Rightarrow> Inr s
        | Some successors \<Rightarrow>
            and_then (inbound_all generators inbound progress node successors
                        (stages, releasable_of index, causes))
            (\<lambda>(stages', rel, causes'). Inr (stages', set_releasable rel index, causes')))"

text \<open>\<open>stage.activated = true; index.refresh_releasable(position, Some(*stage))\<close>\<close>

definition release_stage ::
  "nat \<Rightarrow> collective_stage \<Rightarrow> collective_stage option list \<times> host_stage_index \<Rightarrow>
     collective_stage option list \<times> host_stage_index" where
  "release_stage position stage s =
     (let stage' = stage\<lparr>stg_activated := True\<rparr>
      in ((fst s)[position := Some stage'], refresh_releasable position (Some stage') (snd s)))"

subsection \<open>The maintained index is the rebuilt one\<close>

definition stage_shape :: "collective_stage \<Rightarrow> stage_predecessors \<times> stage_predecessors" where
  "stage_shape s = (dep_local (stg_dependencies s), dep_inbound (stg_dependencies s))"

definition same_shape :: "collective_stage option list \<Rightarrow> collective_stage option list \<Rightarrow> bool" where
  "same_shape ss ts \<longleftrightarrow> length ss = length ts
     \<and> (\<forall>p. map_option stage_shape (stage_at ss p) = map_option stage_shape (stage_at ts p))"

lemma same_shape_refl: "same_shape ss ss"
  by (simp add: same_shape_def)

lemma same_shape_trans: "same_shape ss ts \<Longrightarrow> same_shape ts us \<Longrightarrow> same_shape ss us"
  by (simp add: same_shape_def)

lemma host_stage_at: "host_stage h p = stage_at (hs_stages h) p"
  by (simp add: host_stage_def stage_at_def)

lemma stage_at_update:
  "stage_at (ss[p := x]) q = (if q = p \<and> p < length ss then x else stage_at ss q)"
  by (auto simp: stage_at_def)

lemma same_shape_update:
  assumes "stage_at ss p = Some s" "stage_shape s' = stage_shape s"
  shows "same_shape ss (ss[p := Some s'])"
  using assms by (auto simp: same_shape_def stage_at_update)

lemma build_stage_shape:
  assumes "map_option stage_shape (host_stage h' p) = map_option stage_shape (host_stage h p)"
    and "p < n" "sv_releasable (view_of V') = {q. q < p \<and> releasable (host_stage h' q)}"
    and "V' = map_option (\<lambda>v. v\<lparr>sv_releasable := {q. q < p \<and> releasable (host_stage h' q)}\<rparr>) V"
  shows "build_stage h' joins p V'
    = map_option (\<lambda>v. v\<lparr>sv_releasable := {q. q < Suc p \<and> releasable (host_stage h' q)}\<rparr>)
        (build_stage h joins p V)"
proof (cases "host_stage h p")
  case None
  then have n: "host_stage h' p = None" using assms(1) by simp
  have "{q. q < Suc p \<and> releasable (host_stage h' q)} = {q. q < p \<and> releasable (host_stage h' q)}"
    using n unfolding less_Suc_eq by (auto simp: releasable_def)
  then show ?thesis
    using None n assms(4) by (simp add: build_stage_None host_stage_dependencies_def)
next
  case (Some s)
  then obtain s' where s': "host_stage h' p = Some s'" "stage_shape s' = stage_shape s"
    using assms(1) by auto
  have refresh: "releasable_refresh p (Some s') {q. q < p \<and> releasable (host_stage h' q)}
      = {q. q < Suc p \<and> releasable (host_stage h' q)}"
    using s'(1) unfolding releasable_refresh_def less_Suc_eq set_eq_iff by simp metis
  have sh: "dep_local (stg_dependencies s') = dep_local (stg_dependencies s)"
    "dep_inbound (stg_dependencies s') = dep_inbound (stg_dependencies s)"
    using s'(2) by (simp_all add: stage_shape_def)
  have v: "sv_local_successors (view_of V') = sv_local_successors (view_of V)"
    "sv_inbound_successors (view_of V') = sv_inbound_successors (view_of V)"
    using assms(4) by (cases V; simp)+
  show ?thesis
    using Some s'(1) sh v refresh assms(3)
    by (simp add: build_stage_Some host_stage_dependencies_def)
qed

lemma build_views_shape:
  assumes "\<And>p. p < n \<Longrightarrow> map_option stage_shape (host_stage h' p) = map_option stage_shape (host_stage h p)"
  shows "build_views h' joins n
    = map_option (\<lambda>v. v\<lparr>sv_releasable := {q. q < n \<and> releasable (host_stage h' q)}\<rparr>) (build_views h joins n)"
  using assms
proof (induction n)
  case (Suc n)
  show ?case unfolding build_views_Suc
    by (rule build_stage_shape [where n = "Suc n"])
      (use Suc build_views_releasable [of h' joins n] in simp_all)
qed simp

definition table_releasable :: "nat \<Rightarrow> collective_stage option list \<Rightarrow> nat set" where
  "table_releasable n stages = {p. p < n \<and> releasable (stage_at stages p)}"

lemma index_rebuild:
  assumes "same_shape (hs_stages h) stages"
  shows "host_stage_index_build (h\<lparr>hs_stages := stages\<rparr>) joins
    = set_releasable (table_releasable (length (hs_generators h)) stages) (host_stage_index_build h joins)"
proof -
  have e: "build_views (h\<lparr>hs_stages := stages\<rparr>) joins n
    = map_option (\<lambda>v. v\<lparr>sv_releasable := {q. q < n \<and> releasable (stage_at stages q)}\<rparr>) (build_views h joins n)" for n
    using build_views_shape [of n "h\<lparr>hs_stages := stages\<rparr>" h joins] assms
    by (simp add: host_stage_at same_shape_def)
  show ?thesis
    using e [of "length (hs_generators h)"]
    by (simp add: host_stage_index_build_def build_views_def set_releasable_def table_releasable_def)
qed

lemma releasable_of_build:
  "releasable_of (host_stage_index_build h joins) = table_releasable (length (hs_generators h)) (hs_stages h)"
  using build_views_releasable [of h joins "length (hs_generators h)"]
    build_views_None [of h joins "length (hs_generators h)"]
  by (cases "build_views h joins (length (hs_generators h))")
    (auto simp: releasable_of_def build_eq_views table_releasable_def host_stage_at releasable_def)

text \<open>A walk keeps the table's shape and the releasable set in step with the table.\<close>

definition walk_inv :: "nat \<Rightarrow> collective_stage option list \<Rightarrow> stage_walk \<Rightarrow> bool" where
  "walk_inv n stages0 w \<longleftrightarrow> same_shape stages0 (fst w) \<and> fst (snd w) = table_releasable n (fst w)
     \<and> causes_inv (snd (snd w))"

lemma table_releasable_update:
  assumes "p < n" "stage_at ss p = Some s"
  shows "releasable_refresh p (Some s') (table_releasable n ss) = table_releasable n (ss[p := Some s'])"
proof -
  have "p < length ss" using assms(2) by (simp add: stage_at_def split: if_splits)
  then have "releasable (stage_at (ss[p := Some s']) q)
      \<longleftrightarrow> (if q = p then releasable (Some s') else releasable (stage_at ss q))" for q
    by (simp add: stage_at_update)
  then show ?thesis
    using assms(1) unfolding table_releasable_def releasable_refresh_def set_eq_iff by simp
qed

lemma write_dependencies_inv:
  assumes "walk_inv n ss w" "p < n" "stage_at (fst w) p = Some s"
    and "dep_local d = dep_local (stg_dependencies s)" "dep_inbound d = dep_inbound (stg_dependencies s)"
  shows "walk_inv n ss (write_dependencies p s d cause w)"
proof -
  obtain stages rel causes where w: "w = (stages, rel, causes)" by (cases w) auto
  have sh: "same_shape stages (stages[p := Some (s\<lparr>stg_dependencies := d\<rparr>)])"
    by (rule same_shape_update [OF assms(3) [unfolded w fst_conv]]) (simp add: stage_shape_def assms(4,5))
  show ?thesis
    using assms(1) same_shape_trans [OF _ sh] causes_push_inv
      table_releasable_update [OF assms(2), of stages s "s\<lparr>stg_dependencies := d\<rparr>"] assms(3)
    by (simp add: walk_inv_def w write_dependencies_def Let_def)
qed

lemma complete_local_one_inv:
  "walk_inv n ss w \<Longrightarrow> p < n \<Longrightarrow> walk_inv n ss (complete_local_one gs f c p w)"
  by (cases "stage_at (fst w) p") (simp_all add: complete_local_one_def Let_def write_dependencies_inv)

lemma complete_local_fold_inv:
  "walk_inv n ss w \<Longrightarrow> list_all (\<lambda>p. p < n) ps \<Longrightarrow> walk_inv n ss (fold (complete_local_one gs f c) ps w)"
  by (induction ps arbitrary: w) (simp_all add: complete_local_one_inv)

lemma inbound_one_inv:
  "walk_inv n ss w \<Longrightarrow> p < n \<Longrightarrow> inbound_one gs f pr node p w = Inr w' \<Longrightarrow> walk_inv n ss w'"
  by (cases "stage_at (fst w) p")
    (auto simp: inbound_one_def Let_def result_simps intro!: write_dependencies_inv split: if_splits)

lemma inbound_all_inv:
  "walk_inv n ss w \<Longrightarrow> list_all (\<lambda>p. p < n) ps \<Longrightarrow> inbound_all gs f pr node ps w = Inr w' \<Longrightarrow> walk_inv n ss w'"
  by (induction ps arbitrary: w) (auto simp: result_simps dest: inbound_one_inv)

lemma indexed_positions_in_range:
  "list_all (\<lambda>p. p < n) (indexed_successors side h joins n f)"
  by (auto simp: list_all_iff indexed_successors_def)

lemma local_successors_in_range:
  "local_successors_of (host_stage_index_build h joins) f = Some ps
     \<Longrightarrow> list_all (\<lambda>p. p < length (hs_generators h)) ps"
  using indexed_local_list [of h joins f] indexed_positions_in_range [of _ dep_local h joins f] by simp

lemma inbound_successors_in_range:
  "inbound_successors_of (host_stage_index_build h joins) f = Some ps
     \<Longrightarrow> list_all (\<lambda>p. p < length (hs_generators h)) ps"
  using indexed_inbound_list [of h joins f] indexed_positions_in_range [of _ dep_inbound h joins f] by simp

lemma start_walk_inv:
  "causes_inv causes \<Longrightarrow> walk_inv (length (hs_generators h)) (hs_stages h)
     (hs_stages h, releasable_of (host_stage_index_build h joins), causes)"
  by (simp add: walk_inv_def same_shape_refl releasable_of_build)

lemma complete_local_successors_index:
  assumes "complete_local_successors (hs_generators h) f c
      (hs_stages h, host_stage_index_build h joins, causes) = (stages, index, causes')"
    and "causes_inv causes"
  shows "index = host_stage_index_build (h\<lparr>hs_stages := stages\<rparr>) joins \<and> causes_inv causes'
    \<and> same_shape (hs_stages h) stages"
proof (cases "local_successors_of (host_stage_index_build h joins) f")
  case None
  then show ?thesis using assms by (auto simp: complete_local_successors_def same_shape_refl)
next
  case (Some ps)
  obtain rel where w: "fold (complete_local_one (hs_generators h) f c) ps
      (hs_stages h, releasable_of (host_stage_index_build h joins), causes) = (stages, rel, causes')"
    and i: "index = set_releasable rel (host_stage_index_build h joins)"
    using assms(1) Some by (auto simp: complete_local_successors_def split: prod.splits)
  have "walk_inv (length (hs_generators h)) (hs_stages h) (stages, rel, causes')"
    using complete_local_fold_inv [OF start_walk_inv [OF assms(2)] local_successors_in_range [OF Some]]
    unfolding w [symmetric] .
  then show ?thesis unfolding i by (simp add: index_rebuild walk_inv_def)
qed

lemma record_inbound_progress_index:
  assumes "record_inbound_progress (hs_generators h) f pr node
      (hs_stages h, host_stage_index_build h joins, causes) = Inr (stages, index, causes')"
    and "causes_inv causes"
  shows "index = host_stage_index_build (h\<lparr>hs_stages := stages\<rparr>) joins \<and> causes_inv causes'
    \<and> same_shape (hs_stages h) stages"
proof (cases "inbound_successors_of (host_stage_index_build h joins) f")
  case None
  then show ?thesis using assms by (auto simp: record_inbound_progress_def same_shape_refl)
next
  case (Some ps)
  obtain rel where w: "inbound_all (hs_generators h) f pr node ps
      (hs_stages h, releasable_of (host_stage_index_build h joins), causes) = Inr (stages, rel, causes')"
    and i: "index = set_releasable rel (host_stage_index_build h joins)"
    using assms(1) Some by (auto simp: record_inbound_progress_def result_simps)
  have "walk_inv (length (hs_generators h)) (hs_stages h) (stages, rel, causes')"
    by (rule inbound_all_inv [OF start_walk_inv [OF assms(2)] inbound_successors_in_range [OF Some] w])
  then show ?thesis unfolding i by (simp add: index_rebuild walk_inv_def)
qed

lemma release_stage_index:
  assumes "stage_at (hs_stages h) p = Some s" "p < length (hs_generators h)"
    and "release_stage p s (hs_stages h, host_stage_index_build h joins) = (stages, index)"
  shows "index = host_stage_index_build (h\<lparr>hs_stages := stages\<rparr>) joins"
proof -
  let ?s = "s\<lparr>stg_activated := True\<rparr>"
  have st: "stages = (hs_stages h)[p := Some ?s]"
    and i: "index = refresh_releasable p (Some ?s) (host_stage_index_build h joins)"
    using assms(3) by (simp_all add: release_stage_def Let_def)
  have sh: "same_shape (hs_stages h) stages"
    unfolding st by (rule same_shape_update [OF assms(1)]) (simp add: stage_shape_def)
  have "refresh_releasable p (Some ?s) ix = set_releasable (releasable_refresh p (Some ?s) (releasable_of ix)) ix" for ix
    by (cases "hi_stage_views ix") (simp_all add: refresh_releasable_def set_releasable_def releasable_of_def)
  then show ?thesis
    unfolding i by (simp only: releasable_of_build table_releasable_update [OF assms(2,1)] st [symmetric]
      index_rebuild [OF sh])
qed

lemma build_same_flows:
  assumes "map fg_flow gs = map fg_flow (hs_generators h)"
  shows "host_stage_index_build (h\<lparr>hs_generators := gs\<rparr>) joins = host_stage_index_build h joins"
proof -
  have n: "length gs = length (hs_generators h)" using assms by (rule map_eq_imp_length_eq)
  have "host_stage (h\<lparr>hs_generators := gs\<rparr>) = host_stage h"
    by (rule ext) (simp add: host_stage_def)
  then have "build_stage (h\<lparr>hs_generators := gs\<rparr>) joins = build_stage h joins"
    by (intro ext) (simp only: build_stage_def host_stage_dependencies_def)
  then show ?thesis using assms n by (simp add: host_stage_index_build_def)
qed

text \<open>
  A host's tables and its maintained index, from the state the run starts with, under the writes
  the executor performs: the two dependency writers, the release of the first ready stage, and
  any write to generators that keeps each generator's flow.
\<close>

inductive stage_reachable :: "flow_id list \<Rightarrow> host_state \<Rightarrow> host_state \<Rightarrow> host_stage_index \<Rightarrow> bool"
  for joins h0 where
  start: "stage_reachable joins h0 h0 (host_stage_index_build h0 joins)"
| complete: "stage_reachable joins h0 h index \<Longrightarrow> causes_inv causes
    \<Longrightarrow> complete_local_successors (hs_generators h) f c (hs_stages h, index, causes) = (stages, index', causes')
    \<Longrightarrow> stage_reachable joins h0 (h\<lparr>hs_stages := stages\<rparr>) index'"
| inbound: "stage_reachable joins h0 h index \<Longrightarrow> causes_inv causes
    \<Longrightarrow> record_inbound_progress (hs_generators h) f pr node (hs_stages h, index, causes) = Inr (stages, index', causes')
    \<Longrightarrow> stage_reachable joins h0 (h\<lparr>hs_stages := stages\<rparr>) index'"
| release: "stage_reachable joins h0 h index \<Longrightarrow> first_ready index (hs_generators h) = Some p
    \<Longrightarrow> stage_at (hs_stages h) p = Some s \<Longrightarrow> release_stage p s (hs_stages h, index) = (stages, index')
    \<Longrightarrow> stage_reachable joins h0 (h\<lparr>hs_stages := stages\<rparr>) index'"
| generators: "stage_reachable joins h0 h index \<Longrightarrow> map fg_flow gs = map fg_flow (hs_generators h)
    \<Longrightarrow> stage_reachable joins h0 (h\<lparr>hs_generators := gs\<rparr>) index"

lemma first_ready_built:
  "first_ready (host_stage_index_build h joins) (hs_generators h) = scan_first_ready h"
proof (rule first_ready_scan)
  show "releasable_positions h = {}" if "hi_stage_views (host_stage_index_build h joins) = None"
    using releasable_of_build [of h joins] that
    by (simp add: releasable_positions_def table_releasable_def host_stage_at releasable_of_def)
  show "sv_releasable v = releasable_positions h" if "hi_stage_views (host_stage_index_build h joins) = Some v" for v
    using releasable_of_build [of h joins] that
    by (simp add: releasable_positions_def table_releasable_def host_stage_at releasable_of_def)
qed

lemma scan_first_ready_in_range: "scan_first_ready h = Some p \<Longrightarrow> p < length (hs_generators h)"
proof -
  assume a: "scan_first_ready h = Some p"
  define ps where "ps = positions_where (\<lambda>i g. se_status (fg_next_emission g) = Blocked
      \<and> releasable (host_stage h i)) h"
  have "p \<in> set ps"
    using a unfolding scan_first_ready_def ps_def [symmetric] by (cases ps) simp_all
  then show ?thesis by (simp add: ps_def positions_where_eq)
qed

lemma stage_reachable_index:
  "stage_reachable joins h0 h index \<Longrightarrow> index = host_stage_index_build h joins"
proof (induction rule: stage_reachable.induct)
  case (complete h index causes f c stages index' causes')
  then show ?case using complete_local_successors_index by blast
next
  case (inbound h index causes f pr node stages index' causes')
  then show ?case using record_inbound_progress_index by blast
next
  case (release h index p s stages index')
  have "p < length (hs_generators h)"
    using release.hyps(2) release.IH by (simp add: first_ready_built scan_first_ready_in_range)
  then show ?case using release release_stage_index by blast
next
  case (generators h index gs)
  then show ?case by (simp add: build_same_flows)
qed simp

text \<open>
  However the executor writes a host's stages, the incrementally maintained stage index equals
  the index built afresh from the host's tables, and the ready stage it answers is the first one
  a scan of the generator table finds.
\<close>

theorem stage_index_maintained:
  assumes "stage_reachable joins h0 h index"
  shows "index = host_stage_index_build h joins
    \<and> first_ready index (hs_generators h) = scan_first_ready h"
  using stage_reachable_index [OF assms] first_ready_built by simp

text \<open>
  Taking a cause by flow from the keyed list of pending causes is taking the first cause for
  that flow from the plain vector of causes still pending, and what is left is the vector without it.
\<close>

theorem causes_take_refines_vector:
  assumes "causes_inv pc"
  shows "causes_inv (snd (causes_take f pc))
    \<and> (fst (causes_take f pc), into_remaining (snd (causes_take f pc))) = take_first f (into_remaining pc)"
  by (rule causes_take_first [OF assms])

subsection \<open>A concrete host\<close>

text \<open>Two compute stages of flows 7 and 3; the second waits for the first and for no bytes.\<close>

definition sample_generator :: "flow_id \<Rightarrow> generator_status \<Rightarrow> flow_generator_state" where
  "sample_generator flow status =
     \<lparr>fg_flow = flow, fg_packets_emitted = 0, fg_bytes_emitted = 0,
      fg_next_emission = \<lparr>se_status = status, se_departure_time_ns = 0, se_payload = 0\<rparr>,
      fg_rng_state = 0,
      fg_feedback = \<lparr>gf_arrivals = 0, gf_outstanding_bytes = 0, gf_unacknowledged_bytes = 0\<rparr>,
      fg_kind = GenConstant \<lparr>cg_first_departure_ns = 0, cg_interval_ns = 1, cg_packet_size_bytes = 0,
                             cg_termination = TermBytes 0\<rparr>\<rparr>"

definition sample_stage :: "stage_predecessors \<Rightarrow> bool \<Rightarrow> collective_stage" where
  "sample_stage predecessor activated =
     \<lparr>stg_role = Compute \<lparr>cs_compute_id = 0, cs_group_size = 1, cs_rank = 0, cs_duration_ns = 1\<rparr>,
      stg_dependencies = \<lparr>dep_local = predecessor, dep_inbound = NoPredecessor,
        dep_inbound_predecessor_bytes = 0, dep_inbound_bytes_received = 0, dep_local_completed = 0\<rparr>,
      stg_activated = activated\<rparr>"

definition sample_stage_host :: host_state where
  "sample_stage_host =
     \<lparr>hs_egress_link = 0, hs_queue = [], hs_in_service = None, hs_tx_ready_pending = False,
      hs_generators = [sample_generator 7 Finished, sample_generator 3 Blocked],
      hs_stages = [Some (sample_stage NoPredecessor True), Some (sample_stage (OnePredecessor 7) False)],
      hs_tcp_receivers = [], hs_dcqcn_receivers = [], hs_roce_receivers = None, hs_pfc = None,
      hs_next_origin_seq = 0, hs_next_payload_seq = 0, hs_sourced_packets = 0,
      hs_departed_packets = 0, hs_received_packets = 0\<rparr>"

definition sample_cause :: "flow_id \<Rightarrow> u64 \<Rightarrow> pending_progress" where
  "sample_cause flow bytes =
     \<lparr>pp_flow = flow, pp_cause = InboundArrival, pp_cause_flow = 1, pp_arrival_bytes = bytes,
      pp_before_local_completed = 0, pp_before_inbound_complete = False, pp_before_inbound_bytes = 0,
      pp_segment_sequence = 0, pp_segment_bytes = bytes, pp_completion = completion_default\<rparr>"

theorem causes_take_refines_vector_witness:
  "let pc = causes_push (sample_cause 3 20) (causes_push (sample_cause 9 5)
              (causes_push (sample_cause 3 10) causes_default))
   in causes_inv pc \<and> fst (causes_take 3 pc) = Some (sample_cause 3 10)
      \<and> into_remaining (snd (causes_take 3 pc)) = [sample_cause 9 5, sample_cause 3 20]"
proof -
  let ?pc = "causes_push (sample_cause 3 20) (causes_push (sample_cause 9 5)
              (causes_push (sample_cause 3 10) causes_default))"
  have i: "causes_inv ?pc" and r: "into_remaining ?pc = [sample_cause 3 10, sample_cause 9 5, sample_cause 3 20]"
    by (simp_all add: causes_push_inv causes_default_inv)
  have f: "pp_flow (sample_cause a b) = a" for a b by (simp add: sample_cause_def)
  show ?thesis
    using causes_take_refines_vector [OF i, of 3] i unfolding r by (simp add: Let_def f)
qed

theorem stage_index_maintained_witness:
  "\<exists>h index. stage_reachable [] sample_stage_host h index
     \<and> hs_stages h ! 1 = Some ((sample_stage (OnePredecessor 7) False)
          \<lparr>stg_dependencies := \<lparr>dep_local = OnePredecessor 7, dep_inbound = NoPredecessor,
             dep_inbound_predecessor_bytes = 0, dep_inbound_bytes_received = 0, dep_local_completed = 1\<rparr>\<rparr>)
     \<and> index = host_stage_index_build h [] \<and> first_ready index (hs_generators h) = Some 1"
proof -
  let ?i = "host_stage_index_build sample_stage_host []"
  let ?s = "(sample_stage (OnePredecessor 7) False)\<lparr>stg_dependencies := \<lparr>dep_local = OnePredecessor 7,
      dep_inbound = NoPredecessor, dep_inbound_predecessor_bytes = 0, dep_inbound_bytes_received = 0,
      dep_local_completed = 1\<rparr>\<rparr>"
  let ?st = "[Some (sample_stage NoPredecessor True), Some ?s]"
  obtain stages index causes where c: "complete_local_successors (hs_generators sample_stage_host) 7
      completion_default (hs_stages sample_stage_host, ?i, causes_default) = (stages, index, causes)"
    by (rule prod_cases3)
  have succ: "local_successors_of ?i 7 = Some [1]"
    by code_simp
  have f: "fst (case x of (a, b, c) \<Rightarrow> (a, g b, c)) = fst x" for x :: stage_walk and g :: "nat set \<Rightarrow> host_stage_index"
    by (cases x) simp
  have st: "stages = ?st"
  proof -
    have "fst (complete_local_successors (hs_generators sample_stage_host) 7 completion_default
        (hs_stages sample_stage_host, ?i, causes_default)) = ?st"
      unfolding complete_local_successors_def prod.case succ option.case f
      by (simp add: complete_local_one_def stage_at_def
        sample_stage_host_def sample_stage_def local_complete_def write_dependencies_def Let_def)
    then show ?thesis unfolding c by simp
  qed
  have r: "stage_reachable [] sample_stage_host (sample_stage_host\<lparr>hs_stages := stages\<rparr>) index"
    by (rule stage_reachable.complete [OF stage_reachable.start causes_default_inv(1) c])
  have "scan_first_ready (sample_stage_host\<lparr>hs_stages := ?st\<rparr>) = Some 1"
    by code_simp
  then have "first_ready index (hs_generators (sample_stage_host\<lparr>hs_stages := ?st\<rparr>)) = Some 1"
    using conjunct2 [OF stage_index_maintained [OF r]] unfolding st by (rule trans [rotated])
  moreover have "hs_stages (sample_stage_host\<lparr>hs_stages := ?st\<rparr>) ! 1 = Some ?s" by simp
  ultimately show ?thesis
    using conjunct1 [OF stage_index_maintained [OF r]] r unfolding st by blast
qed

end
