(* ===== verification/Tcp_Ledger.thy ===== *)
theory Tcp_Ledger
  imports Image_Types Exec_Error
begin

section \<open>The TCP segment ledger\<close>

text \<open>
  \<open>executor/src/tcp_ledger.rs\<close> and the wrappers of \<open>scalar.rs\<close>: per flow, the segments sent and not
  yet acknowledged, by first byte.  A cumulative acknowledgment drops what it covers and splits the
  segment it cuts.  The lemmas show that the segments of a flow always tile the bytes between the
  cumulative acknowledgment and the next byte to send, so that acknowledging never conflicts and the
  segment a retransmission asks for is always there.
\<close>

type_synonym flow_segments = "(u64, packet_descriptor) omap"
type_synonym tcp_segment_ledger = "(flow_id, flow_segments) omap"

record tcp_segment_conflict =
  tsc_flow :: flow_id
  tsc_sequence :: u64
  tsc_original_size_bytes :: u64
  tsc_replacement_size_bytes :: u64

definition initial_live_payloads :: "simulation_image \<Rightarrow> payload_id set" where
  "initial_live_payloads img = set
     (map ev_payload (filter (\<lambda>e. ev_kind e \<noteq> RetransmissionTimeout) (img_initial_events img))
      @ concat (map (\<lambda>s. hs_queue s @ (case hs_in_service s of None \<Rightarrow> [] | Some p \<Rightarrow> [p]))
          (img_host_states img))
      @ concat (map (\<lambda>s. concat (map (\<lambda>q. sq_queue q @ (case sq_in_service q of None \<Rightarrow> [] | Some p \<Rightarrow> [p]))
          (ss_queues s))) (img_switch_states img)))"

definition seed_segment ::
  "packet_descriptor \<Rightarrow> tcp_segment_ledger \<Rightarrow> tcp_segment_conflict + tcp_segment_ledger" where
  "seed_segment packet segments =
     (case pkt_kind packet of
        TcpData header \<Rightarrow>
          (let flow_segments = (case om_get segments (pkt_flow packet) of None \<Rightarrow> [] | Some m \<Rightarrow> m);
               segments' = om_insert (pkt_flow packet)
                             (om_insert (tdh_sequence header) packet flow_segments) segments
           in case om_get flow_segments (tdh_sequence header) of
                Some original \<Rightarrow>
                  if pkt_size_bytes original \<noteq> pkt_size_bytes packet
                  then Inl \<lparr>tsc_flow = pkt_flow packet, tsc_sequence = tdh_sequence header,
                            tsc_original_size_bytes = pkt_size_bytes original,
                            tsc_replacement_size_bytes = pkt_size_bytes packet\<rparr>
                  else Inr segments'
              | None \<Rightarrow> Inr segments')
      | _ \<Rightarrow> Inr segments)"

text \<open>
  The header of a ledger entry is rewritten in place; the ledger holds only TCP data, so the other
  kinds are the source's \<open>unreachable!\<close> (\<open>seed_segment\<close> stores nothing else).
\<close>

definition set_sequence :: "u64 \<Rightarrow> packet_descriptor \<Rightarrow> packet_descriptor" where
  "set_sequence sequence packet =
     (case pkt_kind packet of
        TcpData header \<Rightarrow> packet\<lparr>pkt_kind := TcpData (header\<lparr>tdh_sequence := sequence\<rparr>)\<rparr>
      | _ \<Rightarrow> packet)"

text \<open>\<open>split_off\<close>, \<open>pop_last\<close> and the reinsertion of the cut segment, on one flow's segments.\<close>

definition acknowledge_flow ::
  "flow_id \<Rightarrow> u64 \<Rightarrow> flow_segments \<Rightarrow> tcp_segment_conflict + flow_segments" where
  "acknowledge_flow flow acknowledgment flow_segments =
     (let unacknowledged = om_split_off acknowledgment flow_segments
      in case om_last (om_below acknowledgment flow_segments) of
           None \<Rightarrow> Inr unacknowledged
         | Some (sequence, packet) \<Rightarrow>
             let acknowledged_bytes = acknowledgment - sequence in
             if acknowledged_bytes < pkt_size_bytes packet then
               let rest = set_sequence acknowledgment
                            (packet\<lparr>pkt_size_bytes := pkt_size_bytes packet - acknowledged_bytes\<rparr>)
               in case om_get unacknowledged acknowledgment of
                    Some original \<Rightarrow>
                      if pkt_size_bytes original \<noteq> pkt_size_bytes rest
                      then Inl \<lparr>tsc_flow = flow, tsc_sequence = acknowledgment,
                                tsc_original_size_bytes = pkt_size_bytes original,
                                tsc_replacement_size_bytes = pkt_size_bytes rest\<rparr>
                      else Inr unacknowledged
                  | None \<Rightarrow> Inr (om_insert acknowledgment rest unacknowledged)
             else Inr unacknowledged)"

definition acknowledge_segments ::
  "flow_id \<Rightarrow> u64 \<Rightarrow> tcp_segment_ledger \<Rightarrow> tcp_segment_conflict + tcp_segment_ledger" where
  "acknowledge_segments flow acknowledgment segments =
     (case om_get segments flow of
        None \<Rightarrow> Inr segments
      | Some flow_segments \<Rightarrow>
          and_then (acknowledge_flow flow acknowledgment flow_segments)
            (\<lambda>m. Inr (if m = [] then om_remove flow segments else om_insert flow m segments)))"

fun seed_all ::
  "packet_descriptor list \<Rightarrow> tcp_segment_ledger \<Rightarrow> tcp_segment_conflict + tcp_segment_ledger" where
  "seed_all [] segments = Inr segments"
| "seed_all (p # ps) segments = and_then (seed_segment p segments) (seed_all ps)"

fun normalize_generators ::
  "flow_generator_state list \<Rightarrow> tcp_segment_ledger \<Rightarrow> tcp_segment_conflict + tcp_segment_ledger" where
  "normalize_generators [] segments = Inr segments"
| "normalize_generators (g # gs) segments =
     and_then (case fg_kind g of
                 GenTcp tcp \<Rightarrow> acknowledge_segments (fg_flow g) (tg_highest_ack tcp) segments
               | _ \<Rightarrow> Inr segments)
       (normalize_generators gs)"

definition normalize_image ::
  "simulation_image \<Rightarrow> tcp_segment_ledger \<Rightarrow> tcp_segment_conflict + tcp_segment_ledger" where
  "normalize_image img segments =
     (if segments = [] then Inr segments
      else normalize_generators (concat (map hs_generators (img_host_states img))) segments)"

definition seed_image :: "simulation_image \<Rightarrow> tcp_segment_conflict + tcp_segment_ledger" where
  "seed_image img = and_then (seed_all (img_initial_packets img) []) (normalize_image img)"

definition seed_packets ::
  "simulation_image \<Rightarrow> packet_descriptor list \<Rightarrow> tcp_segment_conflict + tcp_segment_ledger" where
  "seed_packets img packets = and_then (seed_all packets []) (normalize_image img)"

definition tcp_segment_conflict_error :: "tcp_segment_conflict \<Rightarrow> execution_error" where
  "tcp_segment_conflict_error c =
     InconsistentTcpSegment (tsc_flow c) (tsc_sequence c) (tsc_original_size_bytes c)
       (tsc_replacement_size_bytes c)"

definition from_conflict :: "tcp_segment_conflict + 'a \<Rightarrow> execution_error + 'a" where
  "from_conflict r = (case r of Inl c \<Rightarrow> Inl (tcp_segment_conflict_error c) | Inr x \<Rightarrow> Inr x)"

definition seed_tcp_segment ::
  "packet_descriptor \<Rightarrow> tcp_segment_ledger \<Rightarrow> execution_error + tcp_segment_ledger" where
  "seed_tcp_segment packet segments = from_conflict (seed_segment packet segments)"

definition acknowledge_tcp_segments ::
  "flow_id \<Rightarrow> u64 \<Rightarrow> tcp_segment_ledger \<Rightarrow> execution_error + tcp_segment_ledger" where
  "acknowledge_tcp_segments flow acknowledgment segments =
     from_conflict (acknowledge_segments flow acknowledgment segments)"

subsection \<open>Segments tile the unacknowledged bytes\<close>

text \<open>The entries cover \<open>[a, b)\<close> without gap or overlap, each filed under its own first byte.\<close>

fun tiles :: "nat \<Rightarrow> nat \<Rightarrow> flow_segments \<Rightarrow> bool" where
  "tiles a b [] \<longleftrightarrow> a = b"
| "tiles a b ((s, p) # m) \<longleftrightarrow> unat s = a \<and> 0 < pkt_size_bytes p
     \<and> (\<exists>h. pkt_kind p = TcpData h \<and> tdh_sequence h = s)
     \<and> tiles (a + unat (pkt_size_bytes p)) b m"

lemma tiles_le: "tiles a b m \<Longrightarrow> a \<le> b"
  by (induction a b m rule: tiles.induct) auto

lemma tiles_keys: "tiles a b m \<Longrightarrow> (s, p) \<in> set m \<Longrightarrow> a \<le> unat s \<and> unat s + unat (pkt_size_bytes p) \<le> b"
  by (induction a b m rule: tiles.induct) (auto dest: tiles_le)

lemma tiles_wf: "tiles a b m \<Longrightarrow> om_wf m"
proof (induction a b m rule: tiles.induct)
  case (2 a b s p m)
  have "s < t" if "(t, q) \<in> set m" for t q
    using 2 tiles_keys [OF _ that, of "a + unat (pkt_size_bytes p)" b]
    by (auto simp: word_less_nat_alt)
  then show ?case using 2 by auto
qed simp

lemma om_below_tiles: "tiles a b m \<Longrightarrow> unat k \<le> a \<Longrightarrow> om_below k m = [] \<and> om_split_off k m = m"
  using tiles_keys [of a b m]
  by (fastforce simp: om_below_def om_split_off_def filter_empty_conv filter_id_conv word_less_nat_alt word_le_nat_alt)

lemma tiles_cut:
  assumes "tiles a b ((s, p) # m)" "a < unat k" "unat k < a + unat (pkt_size_bytes p)"
  shows "tiles (unat k) b ((k, set_sequence k (p\<lparr>pkt_size_bytes := pkt_size_bytes p - (k - s)\<rparr>)) # m)"
proof -
  from assms(1) obtain h where h: "pkt_kind p = TcpData h" by auto
  have ks: "unat (k - s) = unat k - a" using assms by (subst unat_sub_exact) (auto simp: word_le_nat_alt)
  then have "unat (pkt_size_bytes p - (k - s)) = unat (pkt_size_bytes p) - (unat k - a)"
    using assms by (subst unat_sub_exact) (auto simp: word_le_nat_alt)
  then show ?thesis
    using assms h by (simp add: set_sequence_def word_less_nat_alt add.commute)
qed

text \<open>What an acknowledgment leaves of segments that tile the bytes sent.\<close>

fun unacked_after :: "u64 \<Rightarrow> flow_segments \<Rightarrow> flow_segments" where
  "unacked_after k [] = []"
| "unacked_after k ((s, p) # m) =
     (if unat s + unat (pkt_size_bytes p) \<le> unat k then unacked_after k m
      else if s < k then (k, set_sequence k (p\<lparr>pkt_size_bytes := pkt_size_bytes p - (k - s)\<rparr>)) # m
      else (s, p) # m)"

lemma acknowledge_flow_exact:
  assumes "tiles a b m" "a \<le> unat k" "unat k \<le> b"
  shows "acknowledge_flow f k m = Inr (unacked_after k m)"
  using assms
proof (induction a b m rule: tiles.induct)
  case (1 a b)
  then show ?case by (simp add: acknowledge_flow_def om_below_def om_split_off_def om_last_def)
next
  case (2 a b s p m)
  let ?z = "unat (pkt_size_bytes p)"
  have m: "tiles (a + ?z) b m" and s: "unat s = a" and z: "0 < ?z"
    using "2.prems"(1) by (auto simp: word_less_nat_alt)
  consider "unat k = a" | "a < unat k" "unat k < a + ?z" | "a + ?z \<le> unat k"
    using "2.prems"(2) by linarith
  then show ?case
  proof cases
    case 1
    then show ?thesis using om_below_tiles [OF "2.prems"(1), of k] s z
      by (simp add: acknowledge_flow_def om_last_def Let_def word_less_nat_alt)
  next
    case 2
    have sp: "om_below k ((s, p) # m) = [(s, p)]" "om_split_off k ((s, p) # m) = m"
      using om_below_tiles [OF m, of k] 2 s
      by (simp_all add: om_below_def om_split_off_def word_less_nat_alt word_le_nat_alt)
    have ks: "k - s < pkt_size_bytes p"
      using 2 s by (simp add: word_less_nat_alt unat_sub_exact word_le_nat_alt)
    have none: "om_get m k = None"
      using tiles_keys [OF m] 2 by (force simp: om_get_def map_of_eq_None_iff)
    have "om_insert k v m = (k, v) # m" for v
      using tiles_keys [OF m] 2 by (cases m) (force simp: word_less_nat_alt)+
    then show ?thesis
      using ks none 2 s unfolding acknowledge_flow_def sp Let_def by (simp add: om_last_def word_less_nat_alt)
  next
    case 3
    have sp: "om_below k ((s, p) # m) = (s, p) # om_below k m" "om_split_off k ((s, p) # m) = om_split_off k m"
      using 3 s z by (simp_all add: om_below_def om_split_off_def word_less_nat_alt word_le_nat_alt)
    have ks: "\<not> k - s < pkt_size_bytes p"
      using 3 s by (simp add: word_less_nat_alt unat_sub_exact word_le_nat_alt)
    have "acknowledge_flow f k ((s, p) # m) = acknowledge_flow f k m"
      unfolding acknowledge_flow_def sp Let_def using ks by (simp add: om_last_def)
    then show ?thesis using "2.IH" m 3 "2.prems"(3) s by simp
  qed
qed

lemma tiles_unacked_after: "tiles a b m \<Longrightarrow> a \<le> unat k \<Longrightarrow> unat k \<le> b \<Longrightarrow> tiles (unat k) b (unacked_after k m)"
proof (induction a b m rule: tiles.induct)
  case (2 a b s p m)
  have s: "unat s = a" using "2.prems"(1) by simp
  consider "a + unat (pkt_size_bytes p) \<le> unat k" | "a < unat k" "unat k < a + unat (pkt_size_bytes p)" | "unat k = a"
    "0 < unat (pkt_size_bytes p)"
    using "2.prems" by (fastforce simp: word_less_nat_alt)
  then show ?case
  proof cases
    case 1
    then show ?thesis using 2 s by simp
  next
    case 2
    then show ?thesis using tiles_cut [OF "2.prems"(1) 2] s by (simp add: word_less_nat_alt)
  next
    case 3
    then show ?thesis using "2.prems"(1) s by (simp add: word_less_nat_alt)
  qed
qed simp

lemma acknowledge_flow_tiles:
  assumes "tiles a b m" "a \<le> unat k" "unat k \<le> b"
  shows "\<exists>m'. acknowledge_flow f k m = Inr m' \<and> tiles (unat k) b m'"
  using acknowledge_flow_exact [OF assms] tiles_unacked_after [OF assms] by blast

lemma tiles_append:
  assumes "tiles a b m" "unat s = b" "0 < pkt_size_bytes p" "pkt_kind p = TcpData h" "tdh_sequence h = s"
  shows "tiles a (b + unat (pkt_size_bytes p)) (om_insert s p m) \<and> om_get m s = None"
  using assms
proof (induction a b m rule: tiles.induct)
  case (1 a b)
  then show ?case by (simp add: om_get_def)
next
  case (2 a b t q m)
  have "unat t < unat s" using 2 tiles_le [of "a + unat (pkt_size_bytes q)" b m]
    by (auto simp: word_less_nat_alt)
  then have "t < s" "t \<noteq> s" by (auto simp: word_less_nat_alt)
  then show ?case using 2 by (auto simp: om_get_def)
qed

lemma tiles_replace:
  assumes "tiles a b m" "om_get m s = Some q" "pkt_size_bytes p = pkt_size_bytes q"
    "pkt_kind p = TcpData h" "tdh_sequence h = s"
  shows "tiles a b (om_insert s p m)"
  using assms
proof (induction a b m rule: tiles.induct)
  case (2 a b t r m)
  show ?case
  proof (cases "s = t")
    case True
    then show ?thesis using 2 by (auto simp: om_get_def)
  next
    case False
    then have "om_get m s = Some q" using 2 by (simp add: om_get_def)
    then have "(s, q) \<in> set m" using tiles_wf 2 by (auto simp: om_get_in_set)
    then have "unat t < unat s" using tiles_keys [of "a + unat (pkt_size_bytes r)" b m s q] 2
      by (auto simp: word_less_nat_alt)
    then have "t < s" by (simp add: word_less_nat_alt)
    then show ?thesis using 2 False \<open>om_get m s = Some q\<close> by auto
  qed
qed (simp add: om_get_def)

lemma tiles_head: "tiles (unat k) b m \<Longrightarrow> unat k < b \<Longrightarrow> \<exists>p. om_get m k = Some p"
  by (cases m) (auto simp: om_get_def word_unat_eq_iff)

definition segments_of :: "tcp_segment_ledger \<Rightarrow> flow_id \<Rightarrow> flow_segments" where
  "segments_of L f = (case om_get L f of None \<Rightarrow> [] | Some m \<Rightarrow> m)"

lemma seed_segment_eq:
  "pkt_kind p = TcpData h \<Longrightarrow> seed_segment p L =
     (case om_get (segments_of L (pkt_flow p)) (tdh_sequence h) of
        Some q \<Rightarrow> if pkt_size_bytes q \<noteq> pkt_size_bytes p
          then Inl \<lparr>tsc_flow = pkt_flow p, tsc_sequence = tdh_sequence h,
                    tsc_original_size_bytes = pkt_size_bytes q,
                    tsc_replacement_size_bytes = pkt_size_bytes p\<rparr>
          else Inr (om_insert (pkt_flow p) (om_insert (tdh_sequence h) p (segments_of L (pkt_flow p))) L)
      | None \<Rightarrow> Inr (om_insert (pkt_flow p) (om_insert (tdh_sequence h) p (segments_of L (pkt_flow p))) L))"
  unfolding seed_segment_def segments_of_def Let_def by simp

lemma segments_of_insert: "om_wf L \<Longrightarrow> segments_of (om_insert f m L) g = (if g = f then m else segments_of L g)"
  by (simp add: segments_of_def om_get_insert)

lemma segments_of_remove: "segments_of (om_remove f L) g = (if g = f then [] else segments_of L g)"
  by (simp add: segments_of_def om_get_remove)

lemma acknowledge_segments_eq:
  assumes "om_wf L" "tiles a b (segments_of L f)" "a \<le> unat k" "unat k \<le> b"
  shows "\<exists>L'. acknowledge_segments f k L = Inr L' \<and> om_wf L' \<and> tiles (unat k) b (segments_of L' f)
    \<and> (\<forall>g. g \<noteq> f \<longrightarrow> segments_of L' g = segments_of L g)"
proof (cases "om_get L f")
  case None
  then show ?thesis using assms by (auto simp: acknowledge_segments_def segments_of_def)
next
  case (Some m)
  then have "tiles a b m" using assms(2) by (simp add: segments_of_def)
  from acknowledge_flow_tiles [OF this assms(3,4), of f]
  obtain m' where m': "acknowledge_flow f k m = Inr m'" "tiles (unat k) b m'" by blast
  then show ?thesis using assms(1) Some
    by (auto simp: acknowledge_segments_def segments_of_insert segments_of_remove om_wf_insert om_wf_remove)
qed

text \<open>
  The ledger under the operations a sender of flow \<open>f\<close> performs: it seeds the next bytes it sends,
  seeds a segment again when it retransmits it, and acknowledges a byte it has sent; other flows
  seed and acknowledge in between.  The two numbers are the cumulative acknowledgment and the next
  byte to send.
\<close>

inductive ledger_run :: "flow_id \<Rightarrow> nat \<Rightarrow> nat \<Rightarrow> tcp_segment_ledger \<Rightarrow> bool" for f where
  start: "ledger_run f 0 0 []"
| send: "ledger_run f a b L \<Longrightarrow> pkt_flow p = f \<Longrightarrow> pkt_kind p = TcpData h \<Longrightarrow> unat (tdh_sequence h) = b
    \<Longrightarrow> 0 < pkt_size_bytes p \<Longrightarrow> seed_segment p L = Inr L'
    \<Longrightarrow> ledger_run f a (b + unat (pkt_size_bytes p)) L'"
| resend: "ledger_run f a b L \<Longrightarrow> pkt_flow p = f \<Longrightarrow> pkt_kind p = TcpData h
    \<Longrightarrow> om_get (segments_of L f) (tdh_sequence h) = Some q \<Longrightarrow> pkt_size_bytes p = pkt_size_bytes q
    \<Longrightarrow> seed_segment p L = Inr L' \<Longrightarrow> ledger_run f a b L'"
| ack: "ledger_run f a b L \<Longrightarrow> a \<le> unat k \<Longrightarrow> unat k \<le> b \<Longrightarrow> acknowledge_segments f k L = Inr L'
    \<Longrightarrow> ledger_run f (unat k) b L'"
| other_seed: "ledger_run f a b L \<Longrightarrow> pkt_flow p \<noteq> f \<Longrightarrow> seed_segment p L = Inr L' \<Longrightarrow> ledger_run f a b L'"
| other_ack: "ledger_run f a b L \<Longrightarrow> g \<noteq> f \<Longrightarrow> acknowledge_segments g k L = Inr L' \<Longrightarrow> ledger_run f a b L'"

lemma seed_segment_frame:
  "om_wf L \<Longrightarrow> seed_segment p L = Inr L' \<Longrightarrow>
     om_wf L' \<and> (\<forall>g. g \<noteq> pkt_flow p \<longrightarrow> segments_of L' g = segments_of L g)"
proof (cases "\<exists>h. pkt_kind p = TcpData h")
  case True
  then obtain h where "pkt_kind p = TcpData h" by blast
  moreover assume "om_wf L" "seed_segment p L = Inr L'"
  ultimately show ?thesis
    by (auto simp: seed_segment_eq segments_of_insert om_wf_insert split: option.splits if_splits)
next
  case False
  moreover assume "om_wf L" "seed_segment p L = Inr L'"
  ultimately show ?thesis by (cases "pkt_kind p") (auto simp: seed_segment_def)
qed

lemma acknowledge_segments_frame:
  "om_wf L \<Longrightarrow> acknowledge_segments f k L = Inr L' \<Longrightarrow>
     om_wf L' \<and> (\<forall>g. g \<noteq> f \<longrightarrow> segments_of L' g = segments_of L g)"
  by (auto simp: acknowledge_segments_def result_simps segments_of_insert segments_of_remove om_wf_insert
      om_wf_remove split: option.splits)

lemma ledger_run_tiles: "ledger_run f a b L \<Longrightarrow> om_wf L \<and> tiles a b (segments_of L f)"
proof (induction rule: ledger_run.induct)
  case start
  show ?case by (simp add: segments_of_def om_get_def)
next
  case (send a b L p h L')
  note t = tiles_append [OF conjunct2 [OF send.IH] send.hyps(4,5,3) refl]
  have "L' = om_insert f (om_insert (tdh_sequence h) p (segments_of L f)) L"
    using send.hyps t by (simp add: seed_segment_eq)
  then show ?case using t send.IH by (simp add: segments_of_insert om_wf_insert)
next
  case (resend a b L p h q L')
  have "L' = om_insert f (om_insert (tdh_sequence h) p (segments_of L f)) L"
    using resend.hyps by (simp add: seed_segment_eq)
  then show ?case
    using tiles_replace [OF conjunct2 [OF resend.IH] resend.hyps(4,5,3) refl] resend.IH
    by (simp add: segments_of_insert om_wf_insert)
next
  case (ack a b L k L')
  then show ?case using acknowledge_segments_eq [of L a b f k] by auto
next
  case (other_seed a b L p L')
  then show ?case using seed_segment_frame [of L p L'] by auto
next
  case (other_ack a b L g k L')
  then show ?case using acknowledge_segments_frame [of L g k L'] by auto
qed

text \<open>
  C31. A flow's ledger entries always tile the bytes from its cumulative acknowledgment to its next
  byte to send.  So acknowledging any of those bytes succeeds without a conflict, and while bytes
  are outstanding the segment that starts at the cumulative acknowledgment, which a retransmission
  asks for, is in the ledger.
\<close>

theorem tcp_ledger_tiles:
  assumes "ledger_run f a b L"
  shows "tiles a b (segments_of L f)
    \<and> (a \<le> unat k \<and> unat k \<le> b \<longrightarrow>
         (\<exists>L'. acknowledge_segments f k L = Inr L' \<and> tiles (unat k) b (segments_of L' f)
            \<and> (unat k < b \<longrightarrow> (\<exists>p. om_get (segments_of L' f) k = Some p))))"
proof -
  have "\<exists>L'. acknowledge_segments f k L = Inr L' \<and> tiles (unat k) b (segments_of L' f)"
    if "a \<le> unat k" "unat k \<le> b"
    using acknowledge_segments_eq [OF conjunct1 [OF ledger_run_tiles [OF assms]]
        conjunct2 [OF ledger_run_tiles [OF assms]] that] by blast
  then show ?thesis using ledger_run_tiles [OF assms] tiles_head by blast
qed

definition sample_segment :: "u64 \<Rightarrow> u64 \<Rightarrow> packet_descriptor" where
  "sample_segment sequence bytes =
     \<lparr>pkt_id = sequence, pkt_flow = 4, pkt_size_bytes = bytes, pkt_ecn_marked = False,
      pkt_kind = TcpData \<lparr>tdh_sequence = sequence, tdh_sent_time_ns = 0, tdh_retransmission = False\<rparr>\<rparr>"

text \<open>Two segments of 1000 and 500 bytes; an acknowledgment of byte 400 cuts the first.\<close>

theorem tcp_ledger_tiles_witness:
  "\<exists>L L'. ledger_run 4 0 1500 L \<and> acknowledge_segments 4 400 L = Inr L'
     \<and> tiles 400 1500 (segments_of L' 4) \<and> om_get (segments_of L' 4) 400 \<noteq> None"
proof -
  let ?p = "sample_segment 0 1000" and ?q = "sample_segment 1000 500"
  let ?L = "[(4, [(0, ?p), (1000, ?q)])]"
  let ?h = "\<lambda>s. \<lparr>tdh_sequence = s, tdh_sent_time_ns = 0, tdh_retransmission = False\<rparr>"
  have "ledger_run 4 0 (0 + unat (pkt_size_bytes ?p)) [(4, [(0, ?p)])]"
    by (rule ledger_run.send [OF ledger_run.start, where h = "?h 0"])
      (simp_all add: sample_segment_def seed_segment_def om_get_def)
  then have "ledger_run 4 0 (0 + unat (pkt_size_bytes ?p) + unat (pkt_size_bytes ?q)) ?L"
    by (rule ledger_run.send [where h = "?h 1000"]) (simp_all add: sample_segment_def seed_segment_def om_get_def)
  then have r: "ledger_run 4 0 1500 ?L" by (simp add: sample_segment_def)
  then show ?thesis using tcp_ledger_tiles [OF r, of 400] by auto
qed

end
