(* ===== verification/Tcp_Receive.thy ===== *)
theory Tcp_Receive
  imports Image_Types
begin

section \<open>The TCP receiver\<close>

text \<open>
  \<open>tcp_receive_range\<close> of \<open>executor/src/scalar.rs\<close>: a received byte range joins the out-of-order ranges,
  which are sorted, merged and absorbed into the cumulative frontier.  The abstraction is the set
  of bytes received so far; the update adds exactly the new range to it, keeps the ranges sorted
  and separated, and leaves the frontier at the least byte that is missing.
\<close>

text \<open>The merged vector is kept in reverse, so its last element is the head.\<close>

fun merge_into :: "tcp_receive_range list \<Rightarrow> tcp_receive_range \<Rightarrow> tcp_receive_range list" where
  "merge_into [] rng = [rng]"
| "merge_into (last_range # merged) rng =
     (if rr_start rng \<le> rr_end last_range
      then last_range\<lparr>rr_end := max (rr_end last_range) (rr_end rng)\<rparr> # merged
      else rng # last_range # merged)"

definition merge_ranges :: "tcp_receive_range list \<Rightarrow> tcp_receive_range list" where
  "merge_ranges ranges = rev (foldl merge_into [] ranges)"

fun keep_ranges :: "u64 \<Rightarrow> tcp_receive_range list \<Rightarrow> u64 \<times> tcp_receive_range list" where
  "keep_ranges next [] = (next, [])"
| "keep_ranges next (rng # ranges) =
     (if rr_start rng \<le> next then keep_ranges (max next (rr_end rng)) ranges
      else (case keep_ranges next ranges of (next', keep) \<Rightarrow> (next', rng # keep)))"

definition tcp_receive_range_step :: "tcp_receiver_state \<Rightarrow> u64 \<Rightarrow> u64 \<Rightarrow> tcp_receiver_state" where
  "tcp_receive_range_step receiver start_seq end_seq =
     (if end_seq \<le> start_seq \<or> end_seq \<le> tr_next_expected_sequence receiver then receiver
      else
        let ranges = sort_key (\<lambda>rng. (rr_start rng, rr_end rng))
              (tr_out_of_order receiver @ [\<lparr>rr_start = start_seq, rr_end = end_seq\<rparr>]);
            (next, keep) = keep_ranges (tr_next_expected_sequence receiver) (merge_ranges ranges)
        in receiver\<lparr>tr_next_expected_sequence := next, tr_out_of_order := keep\<rparr>)"

subsection \<open>The bytes received\<close>

definition range_bytes :: "tcp_receive_range \<Rightarrow> nat set" where
  "range_bytes r = {unat (rr_start r)..<unat (rr_end r)}"

definition received_bytes :: "tcp_receiver_state \<Rightarrow> nat set" where
  "received_bytes v =
     {..<unat (tr_next_expected_sequence v)} \<union> (\<Union>r \<in> set (tr_out_of_order v). range_bytes r)"

definition separated :: "tcp_receive_range list \<Rightarrow> bool" where
  "separated rs \<longleftrightarrow> sorted_wrt (\<lambda>a b. unat (rr_end a) < unat (rr_start b)) rs
     \<and> (\<forall>r \<in> set rs. unat (rr_start r) < unat (rr_end r))"

definition receiver_inv :: "tcp_receiver_state \<Rightarrow> bool" where
  "receiver_inv v \<longleftrightarrow> separated (tr_out_of_order v)
     \<and> (\<forall>r \<in> set (tr_out_of_order v). unat (tr_next_expected_sequence v) < unat (rr_start r))"

lemma range_bytes_merge:
  assumes "unat (rr_start a) \<le> unat (rr_start b)" "unat (rr_start b) \<le> unat (rr_end a)"
  shows "range_bytes (a\<lparr>rr_end := max (rr_end a) (rr_end b)\<rparr>) = range_bytes a \<union> range_bytes b"
  using assms by (auto simp: range_bytes_def unat_max)

lemma merge_into_step:
  assumes "separated (rev acc)" "\<forall>r \<in> set acc. unat (rr_start r) \<le> unat (rr_start x)"
    "unat (rr_start x) < unat (rr_end x)"
  shows "separated (rev (merge_into acc x))"
    and "(\<Union>r \<in> set (merge_into acc x). range_bytes r) = (\<Union>r \<in> set acc. range_bytes r) \<union> range_bytes x"
    and "\<forall>r \<in> set (merge_into acc x). unat (rr_start r) \<le> unat (rr_start x)"
proof -
  have "separated (rev (merge_into acc x))
    \<and> (\<Union>r \<in> set (merge_into acc x). range_bytes r) = (\<Union>r \<in> set acc. range_bytes r) \<union> range_bytes x
    \<and> (\<forall>r \<in> set (merge_into acc x). unat (rr_start r) \<le> unat (rr_start x))"
  proof (cases acc)
    case Nil
    then show ?thesis using assms(3) by (simp add: separated_def)
  next
    case (Cons a rest)
    have sa: "unat (rr_start a) \<le> unat (rr_start x)" using assms(2) Cons by simp
    have ea: "unat (rr_start a) < unat (rr_end a)"
      and r: "\<forall>b \<in> set rest. unat (rr_end b) < unat (rr_start a)" "\<forall>b \<in> set rest. unat (rr_start b) < unat (rr_end b)"
      using assms(1) Cons by (auto simp: separated_def sorted_wrt_append)
    show ?thesis
    proof (cases "rr_start x \<le> rr_end a")
      case True
      then have le: "unat (rr_start x) \<le> unat (rr_end a)" by (simp add: unat_word_le)
      from range_bytes_merge [OF sa le] assms(1) Cons True ea sa assms(2) show ?thesis
        by (auto simp: separated_def sorted_wrt_append unat_max)
    next
      case False
      then have lt: "unat (rr_end a) < unat (rr_start x)" by (simp add: unat_word_le not_le)
      have "\<forall>b \<in> set rest. unat (rr_end b) < unat (rr_start x)"
        using r(1) sa by (meson order_less_le_trans)
      with assms Cons False lt show ?thesis
        by (auto simp: separated_def sorted_wrt_append)
    qed
  qed
  then show "separated (rev (merge_into acc x))"
    "(\<Union>r \<in> set (merge_into acc x). range_bytes r) = (\<Union>r \<in> set acc. range_bytes r) \<union> range_bytes x"
    "\<forall>r \<in> set (merge_into acc x). unat (rr_start r) \<le> unat (rr_start x)" by blast+
qed

lemma foldl_merge_into:
  "separated (rev acc) \<Longrightarrow> sorted (map (\<lambda>r. unat (rr_start r)) xs) \<Longrightarrow>
   \<forall>r \<in> set acc. \<forall>x \<in> set xs. unat (rr_start r) \<le> unat (rr_start x) \<Longrightarrow>
   \<forall>x \<in> set xs. unat (rr_start x) < unat (rr_end x) \<Longrightarrow>
   separated (rev (foldl merge_into acc xs))
   \<and> (\<Union>r \<in> set (foldl merge_into acc xs). range_bytes r)
       = (\<Union>r \<in> set acc. range_bytes r) \<union> (\<Union>x \<in> set xs. range_bytes x)"
proof (induction xs arbitrary: acc)
  case (Cons x xs)
  have a: "\<forall>r \<in> set acc. unat (rr_start r) \<le> unat (rr_start x)" "unat (rr_start x) < unat (rr_end x)"
    using Cons.prems by simp_all
  note m = merge_into_step [OF Cons.prems(1) a]
  have "\<forall>r \<in> set (merge_into acc x). \<forall>y \<in> set xs. unat (rr_start r) \<le> unat (rr_start y)"
    using m(3) Cons.prems(2) by (auto intro: order_trans)
  from Cons.IH [OF m(1) _ this] Cons.prems m(2) show ?case by auto
qed simp

lemma keep_ranges_spec:
  "separated rs \<Longrightarrow> (\<And>next' keep. keep_ranges next rs = (next', keep) \<Longrightarrow>
   separated keep \<and> set keep \<subseteq> set rs \<and> (\<forall>r \<in> set keep. unat next' < unat (rr_start r))
   \<and> unat next \<le> unat next'
   \<and> {..<unat next'} \<union> (\<Union>r \<in> set keep. range_bytes r) = {..<unat next} \<union> (\<Union>r \<in> set rs. range_bytes r))"
proof (induction rs arbitrary: "next")
  case (Cons r rs)
  have s: "separated rs" using Cons.prems(1) by (simp add: separated_def)
  have gap: "\<forall>b \<in> set rs. unat (rr_end r) < unat (rr_start b)" "unat (rr_start r) < unat (rr_end r)"
    using Cons.prems(1) by (simp_all add: separated_def)
  show ?case
  proof (cases "rr_start r \<le> next")
    case True
    then have "{..<unat next} \<union> range_bytes r = {..<unat (max next (rr_end r))}"
      by (auto simp: range_bytes_def unat_max unat_word_le)
    moreover have "keep_ranges (max next (rr_end r)) rs = (next', keep)"
      using Cons.prems(2) True by simp
    from Cons.IH [OF s this] have "separated keep \<and> set keep \<subseteq> set rs
      \<and> (\<forall>r \<in> set keep. unat next' < unat (rr_start r)) \<and> unat (max next (rr_end r)) \<le> unat next'
      \<and> {..<unat next'} \<union> (\<Union>r \<in> set keep. range_bytes r)
          = {..<unat (max next (rr_end r))} \<union> (\<Union>r \<in> set rs. range_bytes r)" .
    ultimately show ?thesis by (auto simp: unat_max)
  next
    case False
    then have lt: "unat next < unat (rr_start r)" by (simp add: unat_word_le not_le)
    have none: "keep_ranges next rs = (next, rs)"
      using gap lt
    proof (induction rs)
      case (Cons b rs)
      then have "\<not> rr_start b \<le> next" by (simp add: unat_word_le)
      with Cons show ?case by simp
    qed simp
    from False Cons.prems(2) have "next' = next" "keep = r # rs" by (simp_all add: none)
    with Cons.prems(1) lt gap show ?thesis by auto
  qed
qed simp

lemma tcp_receive_range_step_spec:
  assumes "receiver_inv v"
  shows "receiver_inv (tcp_receive_range_step v a b)"
    and "received_bytes (tcp_receive_range_step v a b) = received_bytes v \<union> {unat a..<unat b}"
    and "unat (tr_next_expected_sequence v) \<le> unat (tr_next_expected_sequence (tcp_receive_range_step v a b))"
proof -
  have "receiver_inv (tcp_receive_range_step v a b)
    \<and> received_bytes (tcp_receive_range_step v a b) = received_bytes v \<union> {unat a..<unat b}
    \<and> unat (tr_next_expected_sequence v) \<le> unat (tr_next_expected_sequence (tcp_receive_range_step v a b))"
  proof (cases "b \<le> a \<or> b \<le> tr_next_expected_sequence v")
    case True
    then have "{unat a..<unat b} \<subseteq> received_bytes v"
      by (auto simp: unat_word_le received_bytes_def)
    with True assms show ?thesis by (auto simp: tcp_receive_range_step_def)
  next
    case False
    define new where "new = \<lparr>rr_start = a, rr_end = b\<rparr>"
    define ranges where "ranges = sort_key (\<lambda>rng. (rr_start rng, rr_end rng)) (tr_out_of_order v @ [new])"
    obtain next' keep where k: "keep_ranges (tr_next_expected_sequence v) (merge_ranges ranges) = (next', keep)"
      by fastforce
    have res: "tcp_receive_range_step v a b = v\<lparr>tr_next_expected_sequence := next', tr_out_of_order := keep\<rparr>"
      using False k by (simp add: tcp_receive_range_step_def ranges_def new_def Let_def)
    have set: "set ranges = insert new (set (tr_out_of_order v))" by (simp add: ranges_def)
    have "sorted (map (\<lambda>rng. (rr_start rng, rr_end rng)) ranges)" by (simp add: ranges_def)
    then have "sorted_wrt (\<lambda>x y. (rr_start x, rr_end x) \<le> (rr_start y, rr_end y)) ranges"
      by (simp only: sorted_map)
    then have "sorted_wrt (\<lambda>x y. unat (rr_start x) \<le> unat (rr_start y)) ranges"
      by (rule sorted_wrt_mono_rel [rotated]) (auto simp: less_eq_prod_def unat_word_le unat_word_less)
    then have sorted: "sorted (map (\<lambda>r. unat (rr_start r)) ranges)" by (simp add: sorted_map)
    have pos: "\<forall>x \<in> set ranges. unat (rr_start x) < unat (rr_end x)"
      using assms False by (auto simp: set new_def receiver_inv_def separated_def unat_word_le)
    have "separated (rev [])" by (simp add: separated_def)
    from foldl_merge_into [OF this sorted _ pos]
    have m: "separated (merge_ranges ranges)"
      "(\<Union>r \<in> set (merge_ranges ranges). range_bytes r) = (\<Union>x \<in> set ranges. range_bytes x)"
      by (simp_all add: merge_ranges_def)
    from keep_ranges_spec [OF m(1) k] have ks: "separated keep" "\<forall>r \<in> set keep. unat next' < unat (rr_start r)"
      "unat (tr_next_expected_sequence v) \<le> unat next'"
      "{..<unat next'} \<union> (\<Union>r \<in> set keep. range_bytes r)
        = {..<unat (tr_next_expected_sequence v)} \<union> (\<Union>r \<in> set (merge_ranges ranges). range_bytes r)" by blast+
    have "range_bytes new = {unat a..<unat b}" by (simp add: range_bytes_def new_def)
    then have "received_bytes (tcp_receive_range_step v a b) = received_bytes v \<union> {unat a..<unat b}"
      unfolding received_bytes_def res using ks(4) m(2) by (auto simp: set)
    with ks show ?thesis by (simp add: res receiver_inv_def)
  qed
  then show "receiver_inv (tcp_receive_range_step v a b)"
    "received_bytes (tcp_receive_range_step v a b) = received_bytes v \<union> {unat a..<unat b}"
    "unat (tr_next_expected_sequence v) \<le> unat (tr_next_expected_sequence (tcp_receive_range_step v a b))" by blast+
qed

lemma frontier_least_missing:
  assumes "receiver_inv v"
  shows "unat (tr_next_expected_sequence v) \<notin> received_bytes v"
    and "n < unat (tr_next_expected_sequence v) \<Longrightarrow> n \<in> received_bytes v"
  using assms by (auto simp: receiver_inv_def received_bytes_def range_bytes_def)

definition receive_all :: "(u64 \<times> u64) list \<Rightarrow> tcp_receiver_state \<Rightarrow> tcp_receiver_state" where
  "receive_all segments v = fold (\<lambda>(a, b) v. tcp_receive_range_step v a b) segments v"

lemma receive_all_spec:
  "receiver_inv v \<Longrightarrow> receiver_inv (receive_all segments v)
   \<and> received_bytes (receive_all segments v) = received_bytes v \<union> (\<Union>(a, b) \<in> set segments. {unat a..<unat b})"
proof (induction segments arbitrary: v)
  case (Cons s segments)
  obtain a b where s: "s = (a, b)" by fastforce
  from Cons.IH [OF tcp_receive_range_step_spec(1) [OF Cons.prems, of a b]]
    tcp_receive_range_step_spec(2) [OF Cons.prems, of a b] show ?case
    by (auto simp: receive_all_def s)
qed (simp add: receive_all_def)

lemma least_missing_unique:
  assumes "receiver_inv v" "receiver_inv w" "received_bytes v = received_bytes w"
  shows "tr_next_expected_sequence v = tr_next_expected_sequence w"
proof -
  have "unat (tr_next_expected_sequence v) = unat (tr_next_expected_sequence w)"
    using frontier_least_missing [OF assms(1)] frontier_least_missing [OF assms(2)] assms(3)
    by (metis linorder_neqE_nat)
  then show ?thesis by (simp add: word_unat_eq_iff)
qed

subsection \<open>Properties\<close>

text \<open>
  C29. The receiver's cumulative frontier is the least byte that has not arrived: from an empty
  receiver, after any segments in any order, with gaps, overlaps and duplicates, a byte below the
  frontier is in some segment, the frontier byte is in none, and the out-of-order ranges hold
  exactly the remaining bytes, sorted and separated by gaps.
\<close>

theorem receiver_frontier_exact:
  "let v = receive_all segments (tcp_receiver_new flow ack_size);
       arrived = (\<Union>(a, b) \<in> set segments. {unat a..<unat b});
       frontier = unat (tr_next_expected_sequence v)
   in {..<frontier} \<subseteq> arrived \<and> frontier \<notin> arrived
     \<and> (\<Union>r \<in> set (tr_out_of_order v). range_bytes r) = arrived - {..<frontier}
     \<and> separated (tr_out_of_order v)"
proof -
  define v where "v = receive_all segments (tcp_receiver_new flow ack_size)"
  have "receiver_inv (tcp_receiver_new flow ack_size)" "received_bytes (tcp_receiver_new flow ack_size) = {}"
    by (simp_all add: receiver_inv_def tcp_receiver_new_def separated_def received_bytes_def)
  with receive_all_spec [of "tcp_receiver_new flow ack_size" segments]
  have v: "receiver_inv v" "received_bytes v = (\<Union>(a, b) \<in> set segments. {unat a..<unat b})"
    by (simp_all add: v_def)
  have "(\<Union>r \<in> set (tr_out_of_order v). range_bytes r) = received_bytes v - {..<unat (tr_next_expected_sequence v)}"
    using v(1) by (auto simp: receiver_inv_def received_bytes_def range_bytes_def)
  with frontier_least_missing [OF v(1)] v show ?thesis
    unfolding v_def [symmetric] Let_def by (auto simp: receiver_inv_def)
qed



end
