(* ===== verification/Schedulers.thy ===== *)
theory Schedulers
  imports Image_Types Exec_Error Stage_Index
begin

section \<open>Queue disciplines\<close>

text \<open>
  The scheduler functions of \<open>executor/src/scalar.rs\<close>: static priority and weighted fair queueing
  keep their service order in the queue and serve its head; deficit and weighted round robin choose
  a class and serve its first packet.  The two round-robin loops have no bound in the source; they
  are \<open>partial_function\<close>s, \<open>None\<close> meaning that the loop does not return, and are shown to return on
  every state their guards accept.
\<close>

definition scheduler_class :: "flow_id \<Rightarrow> nat \<Rightarrow> nat option" where
  "scheduler_class flow class_count =
     (if class_count = 0 then None else Some (unat flow mod class_count))"

definition vec_insert :: "nat \<Rightarrow> 'a \<Rightarrow> 'a list \<Rightarrow> 'a list" where
  "vec_insert i x xs = take i xs @ x # drop i xs"

subsection \<open>Weighted fair queueing\<close>

definition wfq_active_weight_sum :: "wfq_state \<Rightarrow> nat" where
  "wfq_active_weight_sum state =
     fold (\<lambda>(weight, _) acc. acc + unat weight)
       (filter (\<lambda>(_, active). active \<noteq> 0) (zip (wfq_weights state) (wfq_active_packets state))) 0"

definition wfq_advance_virtual_time ::
  "u64 \<Rightarrow> u64 \<Rightarrow> node_id \<Rightarrow> wfq_state \<Rightarrow> execution_error + wfq_state" where
  "wfq_advance_virtual_time time_ns rate_bps node state =
     and_then (ok_or (NonMonotoneWfqTime node (wfq_last_updated_ns state) time_ns)
                 (checked_sub time_ns (wfq_last_updated_ns state)))
     (\<lambda>elapsed_ns.
        let weight_sum = wfq_active_weight_sum state in
        if weight_sum = 0 then Inl (InvalidSchedulerState node)
        else if elapsed_ns \<noteq> 0 then
          Inr (state\<lparr>wfq_virtual_time := wfq_virtual_time state
            + of_nat (unat elapsed_ns * unat rate_bps) / of_nat (1000000000 * weight_sum)\<rparr>)
        else Inr state)"

text \<open>The scan for the first queued packet with a later finish tag; a queued packet without a tag is an error.\<close>

fun wfq_position ::
  "(payload_id, rat) omap \<Rightarrow> rat \<Rightarrow> node_id \<Rightarrow> payload_id list \<Rightarrow> nat \<Rightarrow> execution_error + nat" where
  "wfq_position tags finish node [] index = Inr index"
| "wfq_position tags finish node (queued # rest) index =
     (case om_get tags queued of
        None \<Rightarrow> Inl (MissingWfqFinishTag node queued)
      | Some queued_finish \<Rightarrow>
          if queued_finish > finish then Inr index
          else wfq_position tags finish node rest (Suc index))"

definition wfq_all_idle :: "wfq_state \<Rightarrow> bool" where
  "wfq_all_idle state = list_all (\<lambda>active. active = 0) (wfq_active_packets state)"

definition wfq_enqueue ::
  "packet_descriptor \<Rightarrow> u64 \<Rightarrow> u64 \<Rightarrow> node_id \<Rightarrow> wfq_state \<times> payload_id list \<Rightarrow>
     execution_error + wfq_state \<times> payload_id list" where
  "wfq_enqueue packet arrival_ns rate_bps node sq =
     (case sq of (state0, queue) \<Rightarrow>
      and_then (ok_or (InvalidSchedulerState node)
                  (scheduler_class (pkt_flow packet) (length (wfq_weights state0))))
      (\<lambda>class.
        if wfq_weights state0 ! class = 0
           \<or> length (wfq_finish_times state0) \<noteq> length (wfq_weights state0)
           \<or> length (wfq_active_packets state0) \<noteq> length (wfq_weights state0)
        then Inl (InvalidSchedulerState node)
        else if arrival_ns < wfq_last_updated_ns state0
        then Inl (NonMonotoneWfqTime node (wfq_last_updated_ns state0) arrival_ns)
        else
          and_then
            (if wfq_all_idle state0
             then Inr (state0\<lparr>wfq_virtual_time := 0,
                         wfq_finish_times := map (\<lambda>_. 0) (wfq_finish_times state0)\<rparr>)
             else wfq_advance_virtual_time arrival_ns rate_bps node state0)
          (\<lambda>state.
            let virtual_start = max (wfq_virtual_time state) (wfq_finish_times state ! class);
                service = of_nat (unat (pkt_size_bytes packet) * 8) / of_nat (unat (wfq_weights state ! class));
                finish = virtual_start + service
            in and_then (wfq_position (wfq_packet_finish_times state) finish node queue 0)
          (\<lambda>position.
            if om_get (wfq_packet_finish_times state) (pkt_id packet) \<noteq> None
            then Inl (InvalidSchedulerState node)
            else
              and_then (ok_or (CounterOverflow node) (checked_add (wfq_active_packets state ! class) 1))
          (\<lambda>active.
            Inr (state\<lparr>wfq_finish_times := (wfq_finish_times state)[class := finish],
                       wfq_packet_finish_times := om_insert (pkt_id packet) finish (wfq_packet_finish_times state),
                       wfq_active_packets := (wfq_active_packets state)[class := active],
                       wfq_last_updated_ns := arrival_ns\<rparr>,
                 vec_insert position (pkt_id packet) queue))))))"

definition wfq_complete ::
  "packet_descriptor \<Rightarrow> u64 \<Rightarrow> u64 \<Rightarrow> node_id \<Rightarrow> wfq_state \<Rightarrow> execution_error + wfq_state" where
  "wfq_complete packet departure_time_ns rate_bps node state0 =
     and_then (ok_or (InvalidSchedulerState node)
                 (scheduler_class (pkt_flow packet) (length (wfq_weights state0))))
     (\<lambda>class.
       if wfq_weights state0 ! class = 0
          \<or> length (wfq_finish_times state0) \<noteq> length (wfq_weights state0)
          \<or> length (wfq_active_packets state0) \<noteq> length (wfq_weights state0)
          \<or> wfq_active_packets state0 ! class = 0
       then Inl (InvalidSchedulerState node)
       else
         and_then (wfq_advance_virtual_time departure_time_ns rate_bps node state0)
     (\<lambda>state.
         and_then (ok_or (MissingWfqFinishTag node (pkt_id packet))
                     (om_get (wfq_packet_finish_times state) (pkt_id packet)))
     (\<lambda>_.
         let state = state\<lparr>wfq_packet_finish_times := om_remove (pkt_id packet) (wfq_packet_finish_times state),
               wfq_active_packets := (wfq_active_packets state)[class := wfq_active_packets state ! class - 1]\<rparr>;
             state = (if wfq_all_idle state
                      then state\<lparr>wfq_virtual_time := 0, wfq_finish_times := (wfq_finish_times state)[class := 0]\<rparr>
                      else state)
         in Inr (state\<lparr>wfq_last_updated_ns := departure_time_ns\<rparr>))))"

subsection \<open>Deficit round robin\<close>

definition class_position :: "packet_descriptor list \<Rightarrow> nat \<Rightarrow> nat \<Rightarrow> nat option" where
  "class_position packets class_count class =
     position_of (\<lambda>packet. scheduler_class (pkt_flow packet) class_count = Some class) packets"

text \<open>The end of a round: every class with a packet earns its quantum, every other class is reset.\<close>

fun drr_refill ::
  "packet_descriptor list \<Rightarrow> nat \<Rightarrow> u64 list \<Rightarrow> node_id \<Rightarrow> nat list \<Rightarrow> u64 list \<Rightarrow> execution_error + u64 list" where
  "drr_refill packets class_count quanta node [] deficits = Inr deficits"
| "drr_refill packets class_count quanta node (class # rest) deficits =
     (if class_position packets class_count class \<noteq> None then
        and_then (ok_or (InvalidSchedulerState node) (checked_add (deficits ! class) (quanta ! class)))
          (\<lambda>d. drr_refill packets class_count quanta node rest (deficits[class := d]))
      else drr_refill packets class_count quanta node rest (deficits[class := 0]))"

text \<open>The test at the top of the loop, and what the loop does when it fails.\<close>

definition drr_serve :: "packet_descriptor list \<Rightarrow> nat \<Rightarrow> nat \<Rightarrow> drr_state \<Rightarrow> (nat \<times> drr_state) option" where
  "drr_serve packets class_count current state =
     (case class_position packets class_count current of
        None \<Rightarrow> None
      | Some position \<Rightarrow>
          let deficit = drr_deficits_bytes state ! current;
              bytes = pkt_size_bytes (packets ! position)
          in if deficit > 0 \<and> bytes \<le> deficit
             then Some (position, state\<lparr>drr_deficits_bytes := (drr_deficits_bytes state)[current := deficit - bytes],
                                         drr_current_class := of_nat current\<rparr>)
             else None)"

definition drr_advance ::
  "packet_descriptor list \<Rightarrow> nat \<Rightarrow> node_id \<Rightarrow> nat \<Rightarrow> drr_state \<Rightarrow> execution_error + nat \<times> drr_state" where
  "drr_advance packets class_count node current state =
     (if current + 1 = class_count then
        and_then (drr_refill packets class_count (drr_quanta_bytes state) node [0..<class_count]
                    (drr_deficits_bytes state))
          (\<lambda>deficits. Inr (0, state\<lparr>drr_deficits_bytes := deficits, drr_current_class := 0\<rparr>))
      else Inr (current + 1, state\<lparr>drr_current_class := of_nat (current + 1)\<rparr>))"

partial_function (option) drr_loop ::
  "packet_descriptor list \<Rightarrow> nat \<Rightarrow> node_id \<Rightarrow> nat \<Rightarrow> drr_state \<Rightarrow> u128 \<Rightarrow>
     (execution_error + (nat \<times> u128) \<times> drr_state) option" where
  "drr_loop packets class_count node current state scan_steps =
     (case drr_serve packets class_count current state of
        Some (position, state') \<Rightarrow> Some (Inr ((position, scan_steps), state'))
      | None \<Rightarrow>
          (case drr_advance packets class_count node current state of
             Inl e \<Rightarrow> Some (Inl e)
           | Inr (current', state') \<Rightarrow>
               drr_loop packets class_count node current' state' (scan_steps + 1)))"

declare drr_loop.simps [code]

definition drr_select ::
  "packet_descriptor list \<Rightarrow> node_id \<Rightarrow> drr_state \<Rightarrow> (execution_error + (nat \<times> u128) \<times> drr_state) option" where
  "drr_select packets node state =
     (let class_count = length (drr_quanta_bytes state) in
      if class_count = 0 \<or> length (drr_deficits_bytes state) \<noteq> class_count
         \<or> 0 \<in> set (drr_quanta_bytes state)
      then Some (Inl (InvalidSchedulerState node))
      else if unat (drr_current_class state) < class_count
      then drr_loop packets class_count node (unat (drr_current_class state)) state 0
      else Some (Inl (InvalidSchedulerState node)))"

subsection \<open>Weighted round robin\<close>

definition wrr_serve :: "packet_descriptor list \<Rightarrow> nat \<Rightarrow> nat \<Rightarrow> wrr_state \<Rightarrow> (nat \<times> wrr_state) option" where
  "wrr_serve packets class_count current state =
     (if wrr_packets_sent_in_round state ! current < wrr_weights state ! current then
        map_option (\<lambda>position. (position,
            state\<lparr>wrr_packets_sent_in_round := (wrr_packets_sent_in_round state)[current :=
                    wrr_packets_sent_in_round state ! current + 1],
                  wrr_current_class := of_nat current\<rparr>))
          (class_position packets class_count current)
      else None)"

definition wrr_advance :: "nat \<Rightarrow> nat \<Rightarrow> wrr_state \<Rightarrow> nat \<times> wrr_state" where
  "wrr_advance class_count current state =
     (let next_class = (current + 1) mod class_count
      in (next_class, state\<lparr>wrr_packets_sent_in_round := (wrr_packets_sent_in_round state)[current := 0],
                            wrr_current_class := of_nat next_class\<rparr>))"

partial_function (option) wrr_loop ::
  "packet_descriptor list \<Rightarrow> nat \<Rightarrow> nat \<Rightarrow> wrr_state \<Rightarrow> ((nat \<times> u128) \<times> wrr_state) option" where
  "wrr_loop packets class_count current state =
     (case wrr_serve packets class_count current state of
        Some (position, state') \<Rightarrow> Some ((position, 0), state')
      | None \<Rightarrow>
          (case wrr_advance class_count current state of
             (current', state') \<Rightarrow> wrr_loop packets class_count current' state'))"

declare wrr_loop.simps [code]

definition wrr_select ::
  "packet_descriptor list \<Rightarrow> node_id \<Rightarrow> wrr_state \<Rightarrow> (execution_error + (nat \<times> u128) \<times> wrr_state) option" where
  "wrr_select packets node state =
     (let class_count = length (wrr_weights state) in
      if class_count = 0 \<or> length (wrr_packets_sent_in_round state) \<noteq> class_count
         \<or> 0 \<in> set (wrr_weights state)
      then Some (Inl (InvalidSchedulerState node))
      else if unat (wrr_current_class state) < class_count
      then map_option Inr (wrr_loop packets class_count (unat (wrr_current_class state)) state)
      else Some (Inl (InvalidSchedulerState node)))"

subsection \<open>Selection\<close>

fun scheduler_serves_head :: "scheduler_kind \<Rightarrow> bool" where
  "scheduler_serves_head Fifo = True"
| "scheduler_serves_head (StaticPriority _) = True"
| "scheduler_serves_head (WeightedFairQueue _) = True"
| "scheduler_serves_head (DeficitRoundRobin _) = False"
| "scheduler_serves_head (WeightedRoundRobin _) = False"

definition queue_serves_head :: "switch_queue_state \<Rightarrow> bool" where
  "queue_serves_head queue \<longleftrightarrow> sq_pfc queue = None \<and> scheduler_serves_head (sq_scheduler queue)"

text \<open>The outer option is \<open>None\<close> when a loop does not return.\<close>

definition scheduler_select_position ::
  "scheduler_kind \<Rightarrow> packet_descriptor list \<Rightarrow> node_id \<Rightarrow>
     (execution_error + (nat \<times> u128) option \<times> scheduler_kind) option" where
  "scheduler_select_position scheduler packets node =
     (if packets = [] then Some (Inr (None, scheduler))
      else case scheduler of
        DeficitRoundRobin state \<Rightarrow>
          map_option (\<lambda>r. and_then r (\<lambda>(selected, state'). Inr (Some selected, DeficitRoundRobin state')))
            (drr_select packets node state)
      | WeightedRoundRobin state \<Rightarrow>
          map_option (\<lambda>r. and_then r (\<lambda>(selected, state'). Inr (Some selected, WeightedRoundRobin state')))
            (wrr_select packets node state)
      | _ \<Rightarrow> Some (Inr (Some (0, 0), scheduler)))"

subsection \<open>Admission\<close>

datatype queue_admission_action = AdmitEnqueue | AdmitMark | AdmitDrop

definition taildrop_action ::
  "u64 \<Rightarrow> u64 \<Rightarrow> u64 \<Rightarrow> u64 \<Rightarrow> node_id \<Rightarrow> execution_error + queue_admission_action" where
  "taildrop_action capacity_packets queued_packets queued_bytes packet_size_bytes node =
     and_then (ok_or (CounterOverflow node) (checked_add queued_packets 1))
     (\<lambda>post_packets.
        Inr (if checked_add queued_bytes packet_size_bytes = None
                \<or> (capacity_packets \<noteq> 0 \<and> post_packets > capacity_packets)
             then AdmitDrop else AdmitEnqueue))"

definition ecn_ramp_action ::
  "ecn_ramp_policy \<Rightarrow> u64 \<Rightarrow> packet_descriptor \<Rightarrow> u64 \<Rightarrow> node_id \<Rightarrow> u64 \<Rightarrow> payload_id \<Rightarrow> queue_admission_action" where
  "ecn_ramp_action policy queued_bytes packet seed node queue_id payload =
     (case ecn_ramp_decision policy queued_bytes (pkt_size_bytes packet) (is_data (pkt_kind packet))
             (ecn_draw (ecn_queue_key seed node queue_id) payload) of
        EcnEnqueue \<Rightarrow> AdmitEnqueue | EcnMark \<Rightarrow> AdmitMark | EcnDrop \<Rightarrow> AdmitDrop)"

subsection \<open>The round-robin loops return\<close>

lemma class_position_nonempty:
  assumes "packets \<noteq> []" "0 < n"
  obtains c where "c < n" "class_position packets n c \<noteq> None"
proof
  show "unat (pkt_flow (hd packets)) mod n < n" using assms(2) by simp
  show "class_position packets n (unat (pkt_flow (hd packets)) mod n) \<noteq> None"
    using assms by (cases packets) (simp_all add: class_position_def scheduler_class_def)
qed

lemma class_position_Some:
  "class_position packets n c = Some i \<Longrightarrow> i < length packets
     \<and> scheduler_class (pkt_flow (packets ! i)) n = Some c
     \<and> (\<forall>j<i. scheduler_class (pkt_flow (packets ! j)) n \<noteq> Some c)"
  unfolding class_position_def by (drule position_of_Some) simp

lemma drr_refill_Inr:
  assumes "drr_refill packets n quanta node cs deficits = Inr deficits'" "distinct cs"
    "set cs \<subseteq> {..<length deficits}"
  shows "length deficits' = length deficits
    \<and> (\<forall>c. c \<in> set cs \<longrightarrow> unat (deficits' ! c) =
          (if class_position packets n c \<noteq> None then unat (deficits ! c) + unat (quanta ! c) else 0))
    \<and> (\<forall>c. c \<notin> set cs \<longrightarrow> deficits' ! c = deficits ! c)"
  using assms
proof (induction cs arbitrary: deficits)
  case (Cons c cs)
  show ?case
  proof (cases "class_position packets n c")
    case None
    with Cons.prems have "drr_refill packets n quanta node cs (deficits[c := 0]) = Inr deficits'" by simp
    from Cons.IH [OF this] Cons.prems None show ?thesis by (auto simp: nth_list_update)
  next
    case (Some i)
    with Cons.prems obtain d where d: "checked_add (deficits ! c) (quanta ! c) = Some d"
      "drr_refill packets n quanta node cs (deficits[c := d]) = Inr deficits'"
      by (auto simp: result_simps)
    from Cons.IH [OF d(2)] Cons.prems Some d(1) show ?thesis
      by (auto simp: nth_list_update checked_iffs)
  qed
qed simp

definition drr_valid :: "nat \<Rightarrow> drr_state \<Rightarrow> bool" where
  "drr_valid n state \<longleftrightarrow> 0 < n \<and> length (drr_quanta_bytes state) = n
     \<and> length (drr_deficits_bytes state) = n \<and> 0 \<notin> set (drr_quanta_bytes state)"

lemma drr_advance_Inr:
  assumes "drr_advance packets n node current state = Inr (current', state')" "drr_valid n state"
    "current < n"
  shows "drr_valid n state' \<and> current' < n \<and> drr_quanta_bytes state' = drr_quanta_bytes state
    \<and> (if current + 1 = n
       then current' = 0 \<and> (\<forall>c<n. unat (drr_deficits_bytes state' ! c) =
          (if class_position packets n c \<noteq> None
           then unat (drr_deficits_bytes state ! c) + unat (drr_quanta_bytes state ! c) else 0))
       else current' = current + 1 \<and> drr_deficits_bytes state' = drr_deficits_bytes state)"
proof (cases "current + 1 = n")
  case True
  then obtain ds where ds: "drr_refill packets n (drr_quanta_bytes state) node [0..<n]
      (drr_deficits_bytes state) = Inr ds" "current' = 0"
    "state' = state\<lparr>drr_deficits_bytes := ds, drr_current_class := 0\<rparr>"
    using assms(1) by (auto simp: drr_advance_def result_simps)
  show ?thesis
    using drr_refill_Inr [OF ds(1)] assms(2) ds(2,3) True
    by (simp add: drr_valid_def atLeast0LessThan)
next
  case False
  then show ?thesis using assms by (auto simp: drr_advance_def drr_valid_def)
qed

text \<open>Some class has a packet; every round gives it a quantum, so its deficit bounds the rounds left.\<close>

definition drr_left :: "nat \<Rightarrow> nat \<Rightarrow> nat \<Rightarrow> drr_state \<Rightarrow> nat" where
  "drr_left n c current state = (2 ^ 64 - unat (drr_deficits_bytes state ! c)) * (n + 1) + (n - current)"

lemma drr_advance_decreases:
  assumes "drr_advance packets n node current state = Inr (current', state')" "drr_valid n state"
    "current < n" "c < n" "class_position packets n c \<noteq> None"
  shows "drr_left n c current' state' < drr_left n c current state"
proof (cases "current + 1 = n")
  case True
  let ?d = "unat (drr_deficits_bytes state ! c)" and ?d' = "unat (drr_deficits_bytes state' ! c)"
  have q: "0 < unat (drr_quanta_bytes state ! c)"
    using assms(2,4) by (metis drr_valid_def nth_mem unat_gt_0)
  have "?d' = ?d + unat (drr_quanta_bytes state ! c)" "current' = 0"
    using drr_advance_Inr [OF assms(1-3)] True assms(4,5) by auto
  moreover have "?d' < 2 ^ 64" using unat_lt [of "drr_deficits_bytes state' ! c"] by simp
  ultimately have "2 ^ 64 - ?d' < 2 ^ 64 - ?d" using q by linarith
  then have "(2 ^ 64 - ?d' + 1) * (n + 1) \<le> (2 ^ 64 - ?d) * (n + 1)" by (intro mult_le_mono1) simp
  then show ?thesis using \<open>current' = 0\<close> assms(3) by (simp add: drr_left_def)
next
  case False
  then have e: "drr_deficits_bytes state' = drr_deficits_bytes state" and "n - current' < n - current"
    using drr_advance_Inr [OF assms(1-3)] assms(3) by auto
  then show ?thesis unfolding drr_left_def e by (intro add_strict_left_mono)
qed

lemma drr_loop_returns:
  assumes "drr_valid n state" "current < n" "c < n" "class_position packets n c \<noteq> None"
  shows "\<exists>r. drr_loop packets n node current state steps = Some r"
  using assms(1,2)
proof (induction "drr_left n c current state" arbitrary: current state steps rule: less_induct)
  case less
  show ?case
  proof (cases "drr_serve packets n current state")
    case (Some ps)
    then show ?thesis by (cases ps) (simp add: drr_loop.simps)
  next
    case None
    show ?thesis
    proof (cases "drr_advance packets n node current state")
      case (Inl e)
      with None show ?thesis by (simp add: drr_loop.simps)
    next
      case (Inr cs)
      obtain current' state' where cs: "cs = (current', state')" by (cases cs)
      note adv = Inr [unfolded cs]
      from less.hyps [OF drr_advance_decreases [OF adv less.prems assms(3,4)]]
        drr_advance_Inr [OF adv less.prems]
      obtain r where "drr_loop packets n node current' state' (steps + 1) = Some r" by blast
      with None adv show ?thesis by (simp add: drr_loop.simps)
    qed
  qed
qed

definition wrr_valid :: "nat \<Rightarrow> wrr_state \<Rightarrow> bool" where
  "wrr_valid n state \<longleftrightarrow> 0 < n \<and> length (wrr_weights state) = n
     \<and> length (wrr_packets_sent_in_round state) = n \<and> 0 \<notin> set (wrr_weights state)"

text \<open>Steps to class \<open>c\<close>, counting one more cycle when its share of this round is used up.\<close>

definition wrr_left :: "nat \<Rightarrow> nat \<Rightarrow> nat \<Rightarrow> wrr_state \<Rightarrow> nat" where
  "wrr_left n c current state =
     (if current \<le> c then c - current else c + n - current)
     + (if wrr_packets_sent_in_round state ! c < wrr_weights state ! c then 0 else n)"

lemma wrr_advance_valid:
  "wrr_valid n state \<Longrightarrow> wrr_advance n current state = (current', state')
     \<Longrightarrow> wrr_valid n state' \<and> current' < n \<and> wrr_weights state' = wrr_weights state"
  by (auto simp: wrr_advance_def wrr_valid_def Let_def)

lemma wrr_advance_decreases:
  assumes "wrr_valid n state" "current < n" "c < n" "class_position packets n c \<noteq> None"
    "wrr_serve packets n current state = None" "wrr_advance n current state = (current', state')"
  shows "wrr_left n c current' state' < wrr_left n c current state"
proof -
  have w: "0 < wrr_weights state ! c"
    using assms(1,3) by (metis nth_mem word_gt_0 wrr_valid_def)
  have e: "current' = (if current + 1 = n then 0 else current + 1)"
    "wrr_packets_sent_in_round state' = (wrr_packets_sent_in_round state)[current := 0]"
    "wrr_weights state' = wrr_weights state"
    using assms(2,6) by (auto simp: wrr_advance_def Let_def)
  have len: "length (wrr_packets_sent_in_round state) = n" using assms(1) by (simp add: wrr_valid_def)
  show ?thesis
  proof (cases "current = c")
    case True
    then have "\<not> wrr_packets_sent_in_round state ! c < wrr_weights state ! c"
      using assms(4,5) by (auto simp: wrr_serve_def split: if_splits)
    then show ?thesis using True w assms(2) len by (auto simp: wrr_left_def e)
  next
    case False
    then show ?thesis using assms(2,3) by (auto simp: wrr_left_def e)
  qed
qed

lemma wrr_loop_returns:
  assumes "wrr_valid n state" "current < n" "c < n" "class_position packets n c \<noteq> None"
  shows "\<exists>r. wrr_loop packets n current state = Some r"
  using assms(1,2)
proof (induction "wrr_left n c current state" arbitrary: current state rule: less_induct)
  case less
  show ?case
  proof (cases "wrr_serve packets n current state")
    case (Some ps)
    then show ?thesis by (cases ps) (simp add: wrr_loop.simps)
  next
    case None
    obtain current' state' where adv: "wrr_advance n current state = (current', state')"
      by (cases "wrr_advance n current state")
    from less.hyps [OF wrr_advance_decreases [OF less.prems assms(3,4) None adv]]
      wrr_advance_valid [OF less.prems(1) adv]
    obtain r where "wrr_loop packets n current' state' = Some r" by blast
    with None adv show ?thesis by (simp add: wrr_loop.simps)
  qed
qed

lemma drr_select_returns: "packets \<noteq> [] \<Longrightarrow> drr_select packets node state \<noteq> None"
  using class_position_nonempty [of packets "length (drr_quanta_bytes state)"]
    drr_loop_returns [of "length (drr_quanta_bytes state)" state "unat (drr_current_class state)" _ packets node 0]
  by (fastforce simp: drr_select_def Let_def drr_valid_def)

lemma wrr_select_returns: "packets \<noteq> [] \<Longrightarrow> wrr_select packets node state \<noteq> None"
  using class_position_nonempty [of packets "length (wrr_weights state)"]
    wrr_loop_returns [of "length (wrr_weights state)" state "unat (wrr_current_class state)" _ packets]
  by (fastforce simp: wrr_select_def Let_def wrr_valid_def)

text \<open>
  C34. Selecting a packet always returns, for every discipline, state and list of eligible packets:
  the unbounded loops of deficit and weighted round robin end with a selection or an error.
\<close>

theorem scheduler_select_returns: "scheduler_select_position scheduler packets node \<noteq> None"
  using drr_select_returns [of packets node] wrr_select_returns [of packets node]
  by (cases scheduler) (simp_all add: scheduler_select_position_def)

subsection \<open>What is selected\<close>

text \<open>
  A deficit round robin selection: the packet is the first of its class among the eligible ones, the
  class's deficit paid for its bytes, and the configuration is untouched.
\<close>

definition drr_selection :: "packet_descriptor list \<Rightarrow> nat \<Rightarrow> drr_state \<Rightarrow> nat \<Rightarrow> drr_state \<Rightarrow> bool" where
  "drr_selection packets n state position state' \<longleftrightarrow>
     drr_valid n state' \<and> drr_quanta_bytes state' = drr_quanta_bytes state
     \<and> unat (drr_current_class state') < n
     \<and> class_position packets n (unat (drr_current_class state')) = Some position
     \<and> unat (drr_deficits_bytes state' ! unat (drr_current_class state'))
         + unat (pkt_size_bytes (packets ! position)) < 2 ^ 64"

lemma unat_of_nat_small: "c < n \<Longrightarrow> n < 2 ^ 64 \<Longrightarrow> unat (of_nat c :: u64) = c"
  by (simp add: unat_of_nat take_bit_nat_eq_self)

lemma drr_serve_selection:
  assumes "drr_serve packets n current state = Some (position, state')" "drr_valid n state"
    "current < n" "n < 2 ^ 64"
  shows "drr_selection packets n state position state'"
proof -
  let ?d = "drr_deficits_bytes state ! current" and ?b = "pkt_size_bytes (packets ! position)"
  have p: "class_position packets n current = Some position" and le: "?b \<le> ?d"
    and s: "state' = state\<lparr>drr_deficits_bytes := (drr_deficits_bytes state)[current := ?d - ?b],
              drr_current_class := of_nat current\<rparr>"
    using assms(1) by (auto simp: drr_serve_def Let_def split: option.splits if_splits)
  have "unat (?d - ?b) + unat ?b = unat ?d"
    using le by (simp add: unat_sub_exact word_le_nat_alt)
  then have lt: "unat (?d - ?b) + unat ?b < 2 ^ 64" using unat_lt [of ?d] by simp
  have c: "unat (of_nat current :: u64) = current" by (rule unat_of_nat_small [OF assms(3,4)])
  show ?thesis using assms(2,3) p lt c by (simp add: drr_selection_def drr_valid_def s)
qed

text \<open>A class's head packet and quantum, or its deficit and quantum, fit in 64 bits together.\<close>

definition drr_room :: "packet_descriptor list \<Rightarrow> nat \<Rightarrow> u64 list \<Rightarrow> nat \<Rightarrow> bool" where
  "drr_room packets n quanta c \<longleftrightarrow>
     (case class_position packets n c of
        None \<Rightarrow> True
      | Some i \<Rightarrow> unat (pkt_size_bytes (packets ! i)) + unat (quanta ! c) < 2 ^ 64)"

definition drr_slack :: "packet_descriptor list \<Rightarrow> nat \<Rightarrow> u64 list \<Rightarrow> u64 list \<Rightarrow> nat \<Rightarrow> bool" where
  "drr_slack packets n quanta deficits c \<longleftrightarrow>
     class_position packets n c = None \<or> unat (deficits ! c) + unat (quanta ! c) < 2 ^ 64"

definition drr_bounded :: "packet_descriptor list \<Rightarrow> nat \<Rightarrow> nat \<Rightarrow> drr_state \<Rightarrow> bool" where
  "drr_bounded packets n current state \<longleftrightarrow>
     list_all (drr_room packets n (drr_quanta_bytes state)) [0..<n]
     \<and> list_all (drr_slack packets n (drr_quanta_bytes state) (drr_deficits_bytes state)) [0..<current]"

lemma drr_refill_ok:
  assumes "distinct cs" "set cs \<subseteq> {..<length deficits}"
    "\<And>c. c \<in> set cs \<Longrightarrow> class_position packets n c \<noteq> None
       \<Longrightarrow> unat (deficits ! c) + unat (quanta ! c) < 2 ^ 64"
  shows "\<exists>ds. drr_refill packets n quanta node cs deficits = Inr ds"
  using assms
proof (induction cs arbitrary: deficits)
  case (Cons c cs)
  show ?case
  proof (cases "class_position packets n c")
    case None
    have "\<exists>ds. drr_refill packets n quanta node cs (deficits[c := 0]) = Inr ds"
      using Cons.prems by (intro Cons.IH) (auto simp: nth_list_update)
    then show ?thesis using None by simp
  next
    case (Some i)
    have "checked_add (deficits ! c) (quanta ! c) = Some (deficits ! c + quanta ! c)"
      using Cons.prems(3) [of c] Some by (simp add: checked_add_def)
    moreover have "\<exists>ds. drr_refill packets n quanta node cs (deficits[c := deficits ! c + quanta ! c]) = Inr ds"
      using Cons.prems by (intro Cons.IH) (auto simp: nth_list_update)
    ultimately show ?thesis using Some by simp
  qed
qed simp

lemma drr_pass_slack:
  assumes "drr_serve packets n current state = None" "drr_room packets n (drr_quanta_bytes state) current"
  shows "drr_slack packets n (drr_quanta_bytes state) (drr_deficits_bytes state) current"
proof (cases "class_position packets n current")
  case (Some i)
  have "unat (drr_deficits_bytes state ! current) = 0
      \<or> unat (drr_deficits_bytes state ! current) < unat (pkt_size_bytes (packets ! i))"
    using assms(1) Some
    by (auto simp: drr_serve_def Let_def word_less_nat_alt word_le_nat_alt unat_eq_0 split: if_splits)
  then show ?thesis using assms(2) Some by (auto simp: drr_slack_def drr_room_def)
qed (simp add: drr_slack_def)

lemma drr_advance_ok:
  assumes "drr_serve packets n current state = None" "drr_bounded packets n current state"
    "drr_valid n state" "current < n"
  shows "\<exists>current' state'. drr_advance packets n node current state = Inr (current', state')
    \<and> drr_bounded packets n current' state'"
proof -
  let ?q = "drr_quanta_bytes state" and ?d = "drr_deficits_bytes state"
  have room: "list_all (drr_room packets n ?q) [0..<n]"
    and slack: "list_all (drr_slack packets n ?q ?d) [0..<current]"
    using assms(2) by (simp_all add: drr_bounded_def)
  have "drr_room packets n ?q current" using room assms(4) by (simp add: list_all_iff)
  then have "list_all (drr_slack packets n ?q ?d) [0..<Suc current]"
    using slack drr_pass_slack [OF assms(1)] by simp
  moreover have "\<exists>ds. drr_refill packets n ?q node [0..<n] ?d = Inr ds"
    if "list_all (drr_slack packets n ?q ?d) [0..<n]"
  proof (rule drr_refill_ok)
    fix c assume "c \<in> set [0..<n]" "class_position packets n c \<noteq> None"
    then show "unat (?d ! c) + unat (?q ! c) < 2 ^ 64"
      using bspec [OF that [unfolded list_all_iff], of c] by (auto simp: drr_slack_def)
  qed (use assms(3) in \<open>auto simp: drr_valid_def\<close>)
  ultimately show ?thesis
    using room by (cases "current + 1 = n") (auto simp: drr_advance_def drr_bounded_def)
qed

lemma drr_loop_selects:
  assumes "drr_valid n state" "current < n" "drr_bounded packets n current state"
    "c < n" "class_position packets n c \<noteq> None" "n < 2 ^ 64"
  shows "\<exists>position k state'. drr_loop packets n node current state steps = Some (Inr ((position, k), state'))
    \<and> drr_selection packets n state position state'"
  using assms(1-3)
proof (induction "drr_left n c current state" arbitrary: current state steps rule: less_induct)
  case less
  show ?case
  proof (cases "drr_serve packets n current state")
    case (Some ps)
    then show ?thesis
      using drr_serve_selection [of packets n current state "fst ps" "snd ps"] less.prems assms(6)
      by (cases ps) (simp add: drr_loop.simps)
  next
    case None
    from drr_advance_ok [OF None less.prems(3,1,2)] obtain current' state' where
      adv: "drr_advance packets n node current state = Inr (current', state')"
      and b: "drr_bounded packets n current' state'" by blast
    note v = drr_advance_Inr [OF adv less.prems(1,2)]
    from less.hyps [OF drr_advance_decreases [OF adv less.prems(1,2) assms(4,5)] _ _ b] v
    obtain position k state'' where
      "drr_loop packets n node current' state' (steps + 1) = Some (Inr ((position, k), state''))"
      "drr_selection packets n state' position state''" by blast
    with None adv v show ?thesis by (simp add: drr_loop.simps drr_selection_def)
  qed
qed


definition sample_packet :: "payload_id \<Rightarrow> flow_id \<Rightarrow> u64 \<Rightarrow> packet_descriptor" where
  "sample_packet payload flow bytes =
     \<lparr>pkt_id = payload, pkt_flow = flow, pkt_size_bytes = bytes, pkt_ecn_marked = False, pkt_kind = Data\<rparr>"


subsection \<open>Weighted round robin shares\<close>

text \<open>No class has sent more than its weight in its current round.\<close>

definition wrr_shares :: "nat \<Rightarrow> wrr_state \<Rightarrow> bool" where
  "wrr_shares n state \<longleftrightarrow> wrr_valid n state
     \<and> list_all (\<lambda>c. wrr_packets_sent_in_round state ! c \<le> wrr_weights state ! c) [0..<n]"

definition wrr_selection :: "packet_descriptor list \<Rightarrow> nat \<Rightarrow> nat \<Rightarrow> wrr_state \<Rightarrow> bool" where
  "wrr_selection packets n position state' \<longleftrightarrow>
     wrr_shares n state' \<and> unat (wrr_current_class state') < n
     \<and> class_position packets n (unat (wrr_current_class state')) = Some position"

lemma wrr_serve_selection:
  assumes "wrr_serve packets n current state = Some (position, state')" "wrr_shares n state"
    "current < n" "n < 2 ^ 64"
  shows "wrr_selection packets n position state' \<and> wrr_weights state' = wrr_weights state"
proof -
  let ?s = "wrr_packets_sent_in_round state ! current" and ?w = "wrr_weights state ! current"
  have p: "class_position packets n current = Some position" and lt: "?s < ?w"
    and s: "state' = state\<lparr>wrr_packets_sent_in_round := (wrr_packets_sent_in_round state)[current := ?s + 1],
              wrr_current_class := of_nat current\<rparr>"
    using assms(1) by (auto simp: wrr_serve_def split: if_splits)
  have "?s + 1 \<le> ?w" using lt by (rule inc_le)
  then show ?thesis
    using assms(2,3) p unat_of_nat_small [OF assms(3,4)]
    by (auto simp: wrr_selection_def wrr_shares_def wrr_valid_def s list_all_iff nth_list_update)
qed

lemma wrr_advance_shares:
  "wrr_shares n state \<Longrightarrow> current < n \<Longrightarrow> wrr_advance n current state = (current', state')
     \<Longrightarrow> wrr_shares n state' \<and> current' < n \<and> wrr_weights state' = wrr_weights state"
  using mod_less_divisor [of n "current + 1"]
  by (auto simp: wrr_advance_def wrr_shares_def wrr_valid_def Let_def list_all_iff nth_list_update)

lemma wrr_loop_selects:
  assumes "wrr_shares n state" "current < n" "c < n" "class_position packets n c \<noteq> None" "n < 2 ^ 64"
  shows "\<exists>position state'. wrr_loop packets n current state = Some ((position, 0), state')
    \<and> wrr_selection packets n position state' \<and> wrr_weights state' = wrr_weights state"
  using assms(1,2)
proof (induction "wrr_left n c current state" arbitrary: current state rule: less_induct)
  case less
  have v: "wrr_valid n state" using less.prems(1) by (simp add: wrr_shares_def)
  show ?case
  proof (cases "wrr_serve packets n current state")
    case (Some ps)
    then show ?thesis
      using wrr_serve_selection [of packets n current state "fst ps" "snd ps"] less.prems assms(5)
      by (cases ps) (simp add: wrr_loop.simps)
  next
    case None
    obtain current' state' where adv: "wrr_advance n current state = (current', state')"
      by (cases "wrr_advance n current state")
    note sh = wrr_advance_shares [OF less.prems adv]
    from less.hyps [OF wrr_advance_decreases [OF v less.prems(2) assms(3,4) None adv]] sh
    obtain position state'' where
      "wrr_loop packets n current' state' = Some ((position, 0), state'')"
      "wrr_selection packets n position state''" "wrr_weights state'' = wrr_weights state'" by blast
    with None adv sh show ?thesis by (simp add: wrr_loop.simps)
  qed
qed



subsection \<open>Weighted fair queueing keeps the queue in finish order\<close>

definition wfq_tag :: "wfq_state \<Rightarrow> payload_id \<Rightarrow> rat" where
  "wfq_tag state payload = (case om_get (wfq_packet_finish_times state) payload of None \<Rightarrow> 0 | Some f \<Rightarrow> f)"

definition wfq_ordered :: "wfq_state \<times> payload_id list \<Rightarrow> bool" where
  "wfq_ordered sq \<longleftrightarrow> om_wf (wfq_packet_finish_times (fst sq))
     \<and> list_all (\<lambda>p. om_get (wfq_packet_finish_times (fst sq)) p \<noteq> None) (snd sq)
     \<and> sorted (map (wfq_tag (fst sq)) (snd sq))"

lemma wfq_position_Inr:
  "wfq_position tags finish node queue k = Inr i \<Longrightarrow> \<exists>j. i = k + j \<and> j \<le> length queue
     \<and> (\<forall>p\<in>set (take j queue). \<exists>f. om_get tags p = Some f \<and> f \<le> finish)
     \<and> (j < length queue \<longrightarrow> (\<exists>f. om_get tags (queue ! j) = Some f \<and> finish < f))"
proof (induction tags finish node queue k rule: wfq_position.induct)
  case (2 tags finish node q rest k)
  show ?case
  proof (cases "om_get tags q")
    case None
    then show ?thesis using "2.prems" by simp
  next
    case (Some f)
    show ?thesis
    proof (cases "finish < f")
      case True
      then show ?thesis using "2.prems" Some by (intro exI [of _ 0]) simp
    next
      case False
      then obtain j where "i = Suc k + j \<and> j \<le> length rest
          \<and> (\<forall>p\<in>set (take j rest). \<exists>f. om_get tags p = Some f \<and> f \<le> finish)
          \<and> (j < length rest \<longrightarrow> (\<exists>f. om_get tags (rest ! j) = Some f \<and> finish < f))"
        using "2.IH" [OF Some False] "2.prems" Some by auto
      then show ?thesis using Some False by (intro exI [of _ "Suc j"]) simp
    qed
  qed
qed simp

lemma sorted_vec_insert:
  assumes "sorted (map g xs)" "i \<le> length xs" "\<forall>y\<in>set (take i xs). g y \<le> g x"
    "i < length xs \<longrightarrow> g x \<le> g (xs ! i)"
  shows "sorted (map g (vec_insert i x xs))"
proof -
  have split: "sorted (map g (take i xs) @ map g (drop i xs))"
    using assms(1) by (simp flip: map_append)
  have "\<forall>y\<in>set (drop i xs). g x \<le> g y"
  proof (cases "i < length xs")
    case True
    then have "drop i xs = xs ! i # drop (Suc i) xs" by (rule Cons_nth_drop_Suc [symmetric])
    then show ?thesis using split assms(4) True by (force simp: sorted_append)
  qed (use assms(2) in simp)
  then show ?thesis
    using split assms(3) unfolding vec_insert_def by (auto simp: sorted_append)
qed

lemma unsigned_rat_nonneg [simp]: "0 \<le> (unsigned (x :: 'a::len word) :: rat)"
  using of_nat_0_le_iff [of "unat x", where ?'a = rat] by simp

lemma wfq_advance_frame:
  "wfq_advance_virtual_time t r node state = Inr state' \<Longrightarrow>
     wfq_packet_finish_times state' = wfq_packet_finish_times state
     \<and> wfq_weights state' = wfq_weights state \<and> wfq_finish_times state' = wfq_finish_times state
     \<and> wfq_active_packets state' = wfq_active_packets state \<and> wfq_virtual_time state \<le> wfq_virtual_time state'"
  by (auto simp: wfq_advance_virtual_time_def result_simps Let_def zero_le_divide_iff zero_le_mult_iff unsigned_greater_eq
      split: if_splits)

lemma wfq_tag_insert:
  assumes "om_wf (wfq_packet_finish_times state)" "wfq_packet_finish_times state' = om_insert p f (wfq_packet_finish_times state)"
  shows "wfq_tag state' q = (if q = p then f else wfq_tag state q)"
  using assms by (simp add: wfq_tag_def om_get_insert)

text \<open>The virtual finish time an arrival of class \<open>class\<close> gets: its start plus its bits over its weight.\<close>

definition wfq_finish :: "wfq_state \<Rightarrow> nat \<Rightarrow> packet_descriptor \<Rightarrow> rat" where
  "wfq_finish state class packet = max (wfq_virtual_time state) (wfq_finish_times state ! class)
     + of_nat (unat (pkt_size_bytes packet) * 8) / of_nat (unat (wfq_weights state ! class))"

lemma if_Inl_Inr_iff: "(if b then Inl e else r) = Inr y \<longleftrightarrow> \<not> b \<and> r = Inr y"
  by simp

lemma wfq_enqueue_Inr:
  assumes "wfq_enqueue packet t r node (state, queue) = Inr (state', queue')"
  obtains cls mid i active where
    "scheduler_class (pkt_flow packet) (length (wfq_weights state)) = Some cls"
    "(if wfq_all_idle state
      then Inr (state\<lparr>wfq_virtual_time := 0, wfq_finish_times := map (\<lambda>_. 0) (wfq_finish_times state)\<rparr>)
      else wfq_advance_virtual_time t r node state) = Inr mid"
    "wfq_position (wfq_packet_finish_times mid) (wfq_finish mid cls packet) node queue 0 = Inr i"
    "om_get (wfq_packet_finish_times mid) (pkt_id packet) = None"
    "state' = mid\<lparr>wfq_finish_times := (wfq_finish_times mid)[cls := wfq_finish mid cls packet],
       wfq_packet_finish_times := om_insert (pkt_id packet) (wfq_finish mid cls packet) (wfq_packet_finish_times mid),
       wfq_active_packets := (wfq_active_packets mid)[cls := active], wfq_last_updated_ns := t\<rparr>"
    "queue' = vec_insert i (pkt_id packet) queue"
proof -
  from assms obtain cls mid i active where
    "scheduler_class (pkt_flow packet) (length (wfq_weights state)) = Some cls"
    "(if wfq_all_idle state
      then Inr (state\<lparr>wfq_virtual_time := 0, wfq_finish_times := map (\<lambda>_. 0) (wfq_finish_times state)\<rparr>)
      else wfq_advance_virtual_time t r node state) = Inr mid"
    "wfq_position (wfq_packet_finish_times mid) (wfq_finish mid cls packet) node queue 0 = Inr i"
    "om_get (wfq_packet_finish_times mid) (pkt_id packet) = None"
    "Inr (mid\<lparr>wfq_finish_times := (wfq_finish_times mid)[cls := wfq_finish mid cls packet],
       wfq_packet_finish_times := om_insert (pkt_id packet) (wfq_finish mid cls packet) (wfq_packet_finish_times mid),
       wfq_active_packets := (wfq_active_packets mid)[cls := active], wfq_last_updated_ns := t\<rparr>,
      vec_insert i (pkt_id packet) queue) = (Inr (state', queue') :: execution_error + wfq_state \<times> payload_id list)"
    unfolding wfq_enqueue_def prod.case Let_def and_then_Inr_iff ok_or_Inr_iff if_Inl_Inr_iff wfq_finish_def
    by blast
  then show ?thesis by (intro that) (auto simp only: sum.inject prod.inject)
qed

lemma wfq_enqueue_ordered:
  assumes "wfq_enqueue packet t r node (state, queue) = Inr (state', queue')" "wfq_ordered (state, queue)"
  shows "wfq_ordered (state', queue')
    \<and> (\<exists>i\<le>length queue. queue' = vec_insert i (pkt_id packet) queue
        \<and> (\<forall>p\<in>set (take i queue). wfq_tag state p \<le> wfq_tag state' (pkt_id packet))
        \<and> (\<forall>p\<in>set (drop i queue). wfq_tag state' (pkt_id packet) < wfq_tag state p))"
proof -
  obtain cls mid i active where
    m: "(if wfq_all_idle state
      then Inr (state\<lparr>wfq_virtual_time := 0, wfq_finish_times := map (\<lambda>_. 0) (wfq_finish_times state)\<rparr>)
      else wfq_advance_virtual_time t r node state) = Inr mid"
    and pos: "wfq_position (wfq_packet_finish_times mid) (wfq_finish mid cls packet) node queue 0 = Inr i"
    and new: "om_get (wfq_packet_finish_times mid) (pkt_id packet) = None"
    and s: "state' = mid\<lparr>wfq_finish_times := (wfq_finish_times mid)[cls := wfq_finish mid cls packet],
       wfq_packet_finish_times := om_insert (pkt_id packet) (wfq_finish mid cls packet) (wfq_packet_finish_times mid),
       wfq_active_packets := (wfq_active_packets mid)[cls := active], wfq_last_updated_ns := t\<rparr>"
    and q: "queue' = vec_insert i (pkt_id packet) queue"
    by (rule wfq_enqueue_Inr [OF assms(1)])
  define finish where "finish = wfq_finish mid cls packet"
  note pos = pos [folded finish_def]
  have mid: "wfq_packet_finish_times mid = wfq_packet_finish_times state"
    using m wfq_advance_frame [of t r node state mid] by (auto split: if_splits)
  then have st: "wfq_packet_finish_times state' = om_insert (pkt_id packet) finish (wfq_packet_finish_times state)"
    unfolding s finish_def by simp
  let ?tags = "wfq_packet_finish_times state"
  have wf: "om_wf ?tags" and tagged: "list_all (\<lambda>p. om_get ?tags p \<noteq> None) queue"
    and srt: "sorted (map (wfq_tag state) queue)"
    using assms(2) by (simp_all add: wfq_ordered_def)
  note tag = wfq_tag_insert [OF wf st]
  have np: "pkt_id packet \<notin> set queue" using tagged new mid by (auto simp: list_all_iff)
  from wfq_position_Inr [OF pos] mid have i: "i \<le> length queue"
    "\<forall>p\<in>set (take i queue). wfq_tag state p \<le> finish"
    "i < length queue \<longrightarrow> finish < wfq_tag state (queue ! i)"
    by (auto simp: wfq_tag_def)
  have later: "\<forall>p\<in>set (drop i queue). finish < wfq_tag state p"
  proof (cases "i < length queue")
    case True
    then have "drop i queue = queue ! i # drop (Suc i) queue" by (rule Cons_nth_drop_Suc [symmetric])
    moreover have "sorted (map (wfq_tag state) (drop i queue))"
      using srt by (simp add: drop_map [symmetric] sorted_wrt_drop)
    ultimately show ?thesis using i(3) True by (auto intro: less_le_trans)
  qed simp
  have same: "map (wfq_tag state') queue = map (wfq_tag state) queue"
    using np by (auto simp: tag)
  have "sorted (map (wfq_tag state') (vec_insert i (pkt_id packet) queue))"
    by (rule sorted_vec_insert) (use srt i np in \<open>auto simp: same tag dest: in_set_takeD\<close>)
  moreover have "list_all (\<lambda>p. om_get (wfq_packet_finish_times state') p \<noteq> None) (vec_insert i (pkt_id packet) queue)"
    using tagged wf by (auto simp: st om_get_insert vec_insert_def list_all_iff dest: in_set_takeD in_set_dropD)
  ultimately show ?thesis
    using i later wf unfolding q by (auto simp: wfq_ordered_def st om_wf_insert tag)
qed

text \<open>
  C37. A weighted fair queue is always in the order of virtual finish times: an arrival is tagged
  and placed behind every packet that finishes no later and ahead of every packet that finishes
  later, so ties keep arrival order.
\<close>

theorem wfq_queue_in_finish_order:
  assumes "wfq_enqueue packet t r node (state, queue) = Inr (state', queue')" "wfq_ordered (state, queue)"
  shows "wfq_ordered (state', queue')
    \<and> (\<exists>i\<le>length queue. queue' = vec_insert i (pkt_id packet) queue
        \<and> (\<forall>p\<in>set (take i queue). wfq_tag state p \<le> wfq_tag state' (pkt_id packet))
        \<and> (\<forall>p\<in>set (drop i queue). wfq_tag state' (pkt_id packet) < wfq_tag state p))"
  by (rule wfq_enqueue_ordered [OF assms])

text \<open>A packet of 1000 bytes waits; one of 100 bytes of the other class, of equal weight, overtakes it.\<close>

definition sample_wfq :: wfq_state where
  "sample_wfq = \<lparr>wfq_weights = [1, 1], wfq_virtual_time = 0, wfq_last_updated_ns = 5,
     wfq_finish_times = [8000, 0], wfq_active_packets = [1, 0], wfq_packet_finish_times = [(10, 8000)]\<rparr>"

theorem wfq_queue_in_finish_order_witness:
  "wfq_enqueue (sample_packet 10 2 1000) 5 8 7 (wfq_new [1, 1], []) = Inr (sample_wfq, [10])
   \<and> wfq_ordered (sample_wfq, [10])
   \<and> (\<exists>state'. wfq_enqueue (sample_packet 11 3 100) 5 8 7 (sample_wfq, [10]) = Inr (state', [11, 10])
        \<and> wfq_ordered (state', [11, 10]) \<and> wfq_tag state' 11 < wfq_tag sample_wfq 10)"
proof -
  have mods: "2 mod Suc (Suc 0) = 0" "3 mod Suc (Suc 0) = Suc 0" by presburger+
  note ev = wfq_enqueue_def scheduler_class_def sample_packet_def sample_wfq_def wfq_all_idle_def
    wfq_advance_virtual_time_def wfq_active_weight_sum_def checked_sub_def checked_add_def om_get_def
    vec_insert_def Let_def mods
  have a: "wfq_enqueue (sample_packet 10 2 1000) 5 8 7 (wfq_new [1, 1], []) = Inr (sample_wfq, [10])"
    by (simp add: ev wfq_new_def)
  have o: "wfq_ordered (sample_wfq, [10])"
    by (simp add: wfq_ordered_def sample_wfq_def om_get_def)
  have "\<exists>state'. wfq_enqueue (sample_packet 11 3 100) 5 8 7 (sample_wfq, [10]) = Inr (state', [11, 10])
      \<and> wfq_tag state' 11 < wfq_tag sample_wfq 10"
    by (rule exI [of _ "\<lparr>wfq_weights = [1, 1], wfq_virtual_time = 0, wfq_last_updated_ns = 5,
     wfq_finish_times = [8000, 800], wfq_active_packets = [1, 1],
     wfq_packet_finish_times = [(10, 8000), (11, 800)]\<rparr>"]) (simp add: ev wfq_tag_def)
  then show ?thesis using a o wfq_queue_in_finish_order [OF _ o] by blast
qed

end
