(* ===== verification/Pfc_Order.thy ===== *)
theory Pfc_Order
  imports Stage_Index
begin

section \<open>Class orders of paused FIFO queues\<close>

text \<open>
  \<open>PfcClassOrder\<close> of \<open>executor/src/scalar.rs\<close>: for a FIFO queue with priority flow control, the
  arrival numbers of the queued packets by class.  From it the executor finds the first queued packet
  whose class is not paused without reading the queue.  The lemmas show that the answer is the one a
  search from the head of the queue gives, whatever was admitted and served before.
\<close>

record pfc_class_order =
  po_next_seq :: u64
  po_classes :: "u64 list list"

definition pfc_order_new :: pfc_class_order where
  "pfc_order_new = \<lparr>po_next_seq = 0, po_classes = replicate 8 []\<rparr>"

definition pfc_order_push :: "nat \<Rightarrow> pfc_class_order \<Rightarrow> pfc_class_order" where
  "pfc_order_push cls order =
     \<lparr>po_next_seq = po_next_seq order + 1,
      po_classes = (po_classes order)[cls := po_classes order ! cls @ [po_next_seq order]]\<rparr>"

definition pfc_order_pop :: "nat \<Rightarrow> pfc_class_order \<Rightarrow> u64 option \<times> pfc_class_order" where
  "pfc_order_pop cls order =
     (case po_classes order ! cls of
        [] \<Rightarrow> (None, order)
      | key # keys \<Rightarrow> (Some key, order\<lparr>po_classes := (po_classes order)[cls := keys]\<rparr>))"

text \<open>The least front key among the classes not paused, and the number of keys below it in all classes.\<close>

definition unpaused_fronts :: "(nat \<Rightarrow> bool) \<Rightarrow> u64 list list \<Rightarrow> u64 list" where
  "unpaused_fronts paused classes =
     map (\<lambda>(_, keys). hd keys)
       (filter (\<lambda>(cls, keys). \<not> paused cls \<and> keys \<noteq> []) (enumerate 0 classes))"

definition first_unpaused_position :: "pfc_queue_state \<Rightarrow> pfc_class_order \<Rightarrow> nat option" where
  "first_unpaused_position pfc order =
     (case unpaused_fronts (queue_is_paused pfc) (po_classes order) of
        [] \<Rightarrow> None
      | front # fronts \<Rightarrow>
          let first = fold min fronts front
          in Some (sum_list (map (\<lambda>keys. partition_point (\<lambda>key. key < first) keys) (po_classes order))))"

definition pfc_any_paused :: "pfc_queue_state \<Rightarrow> bool" where
  "pfc_any_paused pfc = list_ex (\<lambda>controllers. controllers \<noteq> {}) (pq_paused_by_controller pfc)"

subsection \<open>An order and the queue it stands for\<close>

text \<open>Queue entries as pairs of arrival number and class, in queue order.\<close>

definition keys_of_class :: "(u64 \<times> nat) list \<Rightarrow> nat \<Rightarrow> u64 list" where
  "keys_of_class es cls = map fst (filter (\<lambda>e. snd e = cls) es)"

definition order_of :: "(u64 \<times> nat) list \<Rightarrow> pfc_class_order \<Rightarrow> bool" where
  "order_of es order \<longleftrightarrow>
     length (po_classes order) = 8 \<and> sorted_wrt (<) (map fst es)
     \<and> (\<forall>e\<in>set es. snd e < 8 \<and> fst e < po_next_seq order)
     \<and> (\<forall>cls<8. po_classes order ! cls = keys_of_class es cls)"

text \<open>The classes of the queued packets, in queue order, under admissions and services.\<close>

inductive order_run :: "nat list \<Rightarrow> pfc_class_order \<Rightarrow> bool" where
  start: "order_run [] pfc_order_new"
| push: "order_run cs order \<Longrightarrow> cls < 8 \<Longrightarrow> po_next_seq order \<noteq> u_max
    \<Longrightarrow> order_run (cs @ [cls]) (pfc_order_push cls order)"
| pop: "order_run cs order \<Longrightarrow> cls \<in> set cs \<Longrightarrow> pfc_order_pop cls order = (Some key, order')
    \<Longrightarrow> order_run (remove1 cls cs) order'"

lemma order_of_push:
  assumes "order_of es order" "cls < 8" "po_next_seq order \<noteq> u_max"
  shows "order_of (es @ [(po_next_seq order, cls)]) (pfc_order_push cls order)"
proof -
  have lt: "po_next_seq order < po_next_seq order + 1"
  proof -
    have "unat (po_next_seq order) \<noteq> 2 ^ 64 - 1"
      using assms(3) unat_u_max [where ?'a = 64] by (auto simp: word_unat_eq_iff)
    then have "unat (po_next_seq order) + 1 < 2 ^ LENGTH(64)" using unat_lt [of "po_next_seq order"] by simp
    then show ?thesis by (simp add: word_less_nat_alt unat_Suc_exact)
  qed
  show ?thesis
    using assms lt
    by (auto simp: order_of_def pfc_order_push_def keys_of_class_def sorted_wrt_append nth_list_update
        intro: less_trans)
qed

lemma order_of_pop:
  assumes "order_of es order" "pfc_order_pop cls order = (Some key, order')" "cls < 8"
  shows "\<exists>pre post. es = pre @ (key, cls) # post \<and> cls \<notin> snd ` set pre \<and> order_of (pre @ post) order'"
proof -
  obtain keys where k: "po_classes order ! cls = key # keys"
    and o': "order' = order\<lparr>po_classes := (po_classes order)[cls := keys]\<rparr>"
    using assms(2) by (auto simp: pfc_order_pop_def split: list.splits)
  have "keys_of_class es cls = key # keys" using assms(1,3) k by (simp add: order_of_def)
  then obtain e r where er: "filter (\<lambda>e. snd e = cls) es = e # r" "fst e = key" "map fst r = keys"
    by (auto simp: keys_of_class_def map_eq_Cons_conv)
  from er(1) obtain pre post where es: "es = pre @ e # post" and pre: "\<forall>x\<in>set pre. snd x \<noteq> cls"
    and e: "snd e = cls" and r: "r = filter (\<lambda>e. snd e = cls) post"
    by (auto simp: filter_eq_Cons_iff)
  have ecl: "e = (key, cls)" using e er(2) by (cases e) simp
  have "order_of (pre @ post) order'"
    using assms(1,3) pre er(3) r
    by (auto simp: order_of_def es ecl o' keys_of_class_def sorted_wrt_append nth_list_update filter_empty_conv)
  then show ?thesis using es ecl pre by auto
qed

lemma order_run_entries: "order_run cs order \<Longrightarrow> \<exists>es. order_of es order \<and> cs = map snd es"
proof (induction rule: order_run.induct)
  case start
  show ?case by (intro exI [of _ "[]"]) (simp add: order_of_def pfc_order_new_def keys_of_class_def)
next
  case (push cs order cls)
  then obtain es where "order_of es order" "cs = map snd es" by blast
  then show ?case using order_of_push [OF _ push.hyps(2,3)]
    by (intro exI [of _ "es @ [(po_next_seq order, cls)]"]) simp
next
  case (pop cs order cls key order')
  then obtain es where es: "order_of es order" "cs = map snd es" by blast
  then have "cls < 8" using pop.hyps(2) by (auto simp: order_of_def)
  from order_of_pop [OF es(1) pop.hyps(3) this] obtain pre post where
    "es = pre @ (key, cls) # post" "cls \<notin> snd ` set pre" "order_of (pre @ post) order'" by blast
  then show ?case using es(2) by (intro exI [of _ "pre @ post"]) (simp add: remove1_append)
qed

lemma unpaused_fronts_set:
  assumes "order_of es order"
  shows "set (unpaused_fronts paused (po_classes order))
    = {k. \<exists>cls<8. \<not> paused cls \<and> keys_of_class es cls \<noteq> [] \<and> k = hd (keys_of_class es cls)}"
proof -
  have "set (unpaused_fronts paused cs) = {k. \<exists>i<length cs. \<not> paused i \<and> cs ! i \<noteq> [] \<and> k = hd (cs ! i)}" for cs
    by (force simp: unpaused_fronts_def in_set_enumerate_eq)
  then show ?thesis using assms by (auto simp: order_of_def)
qed

lemma keys_of_class_sorted: "sorted_wrt (<) (map fst es) \<Longrightarrow> sorted_wrt (<) (keys_of_class es cls)"
  by (induction es) (auto simp: keys_of_class_def)

lemma partition_point_sorted:
  "sorted_wrt (<) xs \<Longrightarrow> partition_point (\<lambda>k. k < x) xs = length (filter (\<lambda>k. k < x) xs)"
  for xs :: "'a::linorder list"
  by (induction xs) (auto simp: partition_point_def filter_empty_conv)

lemma sum_class_counts:
  "\<forall>e\<in>set es. snd e < n \<Longrightarrow>
     (\<Sum>cls\<leftarrow>[0..<n]. length (filter P (keys_of_class es cls))) = length (filter (\<lambda>e. P (fst e)) es)"
proof (induction es)
  case (Cons e es)
  have one: "(\<Sum>cls\<leftarrow>[0..<n]. if snd e = cls then Suc 0 else 0) = Suc 0" if "snd e < n"
    using that by (simp add: interv_sum_list_conv_sum_set_nat)
  have step: "length (filter P (keys_of_class (e # es) cls))
      = (if P (fst e) then (if snd e = cls then Suc 0 else 0) else 0) + length (filter P (keys_of_class es cls))" for cls
    by (simp add: keys_of_class_def)
  show ?case unfolding step sum_list_addf using Cons one by simp
qed (simp add: keys_of_class_def)

lemma first_unpaused_None:
  assumes "order_of es order" "\<forall>e\<in>set es. paused (snd e)"
  shows "unpaused_fronts paused (po_classes order) = []"
proof -
  have "keys_of_class es cls = []" if "\<not> paused cls" for cls
    using assms(2) that by (auto simp: keys_of_class_def filter_empty_conv)
  then have "set (unpaused_fronts paused (po_classes order)) = {}"
    unfolding unpaused_fronts_set [OF assms(1)] by auto
  then show ?thesis by simp
qed

lemma first_unpaused_Min:
  assumes "order_of es order" "es = pre @ (k, cls) # post" "\<forall>e\<in>set pre. paused (snd e)" "\<not> paused cls"
  shows "k \<in> set (unpaused_fronts paused (po_classes order))
    \<and> (\<forall>x\<in>set (unpaused_fronts paused (po_classes order)). k \<le> x)"
proof
  have "filter (\<lambda>e. snd e = cls) pre = []" using assms(3,4) by (auto simp: filter_empty_conv)
  then have "keys_of_class es cls \<noteq> [] \<and> hd (keys_of_class es cls) = k"
    by (simp add: keys_of_class_def assms(2))
  moreover have "cls < 8" using assms(1,2) by (auto simp: order_of_def)
  ultimately show "k \<in> set (unpaused_fronts paused (po_classes order))"
    unfolding unpaused_fronts_set [OF assms(1)] using assms(4) by auto
  show "\<forall>x\<in>set (unpaused_fronts paused (po_classes order)). k \<le> x"
  proof
    fix x assume "x \<in> set (unpaused_fronts paused (po_classes order))"
    then obtain c where c: "\<not> paused c" "keys_of_class es c \<noteq> []" "x = hd (keys_of_class es c)"
      unfolding unpaused_fronts_set [OF assms(1)] by auto
    then have "x \<in> set (keys_of_class es c)" by simp
    then have "(x, c) \<in> set es" by (auto simp: keys_of_class_def)
    then have "(x, c) = (k, cls) \<or> (x, c) \<in> set post" using c(1) assms(3) by (auto simp: assms(2))
    moreover have "\<forall>e\<in>set post. k < fst e"
      using assms(1) by (auto simp: order_of_def assms(2) sorted_wrt_append)
    ultimately show "k \<le> x" by auto
  qed
qed

lemma first_unpaused_search:
  assumes "order_of es order"
  shows "first_unpaused_position pfc order = position_of (\<lambda>cls. \<not> queue_is_paused pfc cls) (map snd es)"
proof (cases "position_of (\<lambda>cls. \<not> queue_is_paused pfc cls) (map snd es)")
  case None
  have "\<forall>e\<in>set es. queue_is_paused pfc (snd e)"
    using None by (simp add: position_of_None)
  from first_unpaused_None [OF assms this] show ?thesis
    unfolding None by (simp add: first_unpaused_position_def)
next
  case (Some i)
  define k where "k = fst (es ! i)"
  have i: "i < length es" and un: "\<not> queue_is_paused pfc (snd (es ! i))"
    and before: "\<forall>j<i. queue_is_paused pfc (snd (es ! j))"
    using position_of_Some [OF Some] by auto
  have split: "es = take i es @ (k, snd (es ! i)) # drop (Suc i) es"
    using id_take_nth_drop [OF i] by (simp add: k_def)
  have pre: "\<forall>e\<in>set (take i es). queue_is_paused pfc (snd e)"
  proof
    fix e assume "e \<in> set (take i es)"
    then obtain j where "j < i" "e = es ! j" by (auto simp: in_set_conv_nth)
    then show "queue_is_paused pfc (snd e)" using before by simp
  qed
  note min = first_unpaused_Min [where paused = "queue_is_paused pfc", OF assms split pre un]
  obtain f fs where fs: "unpaused_fronts (queue_is_paused pfc) (po_classes order) = f # fs"
    using min by (cases "unpaused_fronts (queue_is_paused pfc) (po_classes order)") auto
  have "fold min fs f = Min (set (f # fs))" by (rule Min.set_eq_fold [symmetric])
  also have "\<dots> = k" using min unfolding fs by (intro Min_eqI) auto
  finally have first: "fold min fs f = k" .
  have srt: "sorted_wrt (<) (map fst es)" and cl: "\<forall>e\<in>set es. snd e < 8"
    and cls: "\<forall>c<8. po_classes order ! c = keys_of_class es c" and len: "length (po_classes order) = 8"
    using assms by (auto simp: order_of_def)
  have "map (\<lambda>keys. partition_point (\<lambda>key. key < k) keys) (po_classes order)
      = map (\<lambda>c. length (filter (\<lambda>key. key < k) (keys_of_class es c))) [0..<8]"
    using cls len by (intro nth_equalityI) (simp_all add: partition_point_sorted keys_of_class_sorted [OF srt])
  then have "sum_list (map (\<lambda>keys. partition_point (\<lambda>key. key < k) keys) (po_classes order))
      = length (filter (\<lambda>e. fst e < k) es)"
    using sum_class_counts [OF cl, of "\<lambda>key. key < k"] by simp
  also have "\<dots> = i"
  proof -
    have "\<forall>e\<in>set (take i es). fst e < k" "\<forall>e\<in>set (drop (Suc i) es). \<not> fst e < k"
      using srt by (subst (asm) split; force simp: sorted_wrt_append)+
    then have "filter (\<lambda>e. fst e < k) (take i es @ (k, snd (es ! i)) # drop (Suc i) es) = take i es"
      by (simp add: filter_id_conv filter_empty_conv)
    then show ?thesis using i split by simp
  qed
  finally show ?thesis using Some by (simp add: first_unpaused_position_def fs first)
qed

text \<open>
  C38. Whatever packets a FIFO queue has admitted and served, the class order answers the position of
  the first queued packet whose class is not paused exactly as a search of the queue from its head.
\<close>

theorem class_order_is_search:
  assumes "order_run cs order"
  shows "first_unpaused_position pfc order = position_of (\<lambda>cls. \<not> queue_is_paused pfc cls) cs"
  using order_run_entries [OF assms] first_unpaused_search by auto

text \<open>Classes 3, 0, 3, 5 are admitted and the first packet of class 3 is served; class 0 is paused.\<close>

theorem class_order_is_search_witness:
  "\<exists>order. order_run [0, 3, 5] order
     \<and> first_unpaused_position \<lparr>pq_paused_by_controller = {9} # replicate 7 {}, pq_ingresses = []\<rparr> order = Some 1"
proof -
  let ?o = "pfc_order_push 5 (pfc_order_push 3 (pfc_order_push 0 (pfc_order_push 3 pfc_order_new)))"
  have "order_run ([] @ [3]) (pfc_order_push 3 pfc_order_new)"
    by (rule order_run.push [OF order_run.start]) (simp_all add: pfc_order_new_def u_max_def)
  then have "order_run (([] @ [3]) @ [0]) (pfc_order_push 0 (pfc_order_push 3 pfc_order_new))"
    by (rule order_run.push) (simp_all add: pfc_order_push_def pfc_order_new_def u_max_def)
  then have "order_run ((([] @ [3]) @ [0]) @ [3]) (pfc_order_push 3 (pfc_order_push 0 (pfc_order_push 3 pfc_order_new)))"
    by (rule order_run.push) (simp_all add: pfc_order_push_def pfc_order_new_def u_max_def)
  then have "order_run (((([] @ [3]) @ [0]) @ [3]) @ [5]) ?o"
    by (rule order_run.push) (simp_all add: pfc_order_push_def pfc_order_new_def u_max_def)
  then have r: "order_run [3, 0, 3, 5] ?o" by simp
  have "fst (pfc_order_pop 3 ?o) = Some 0"
    by (simp add: pfc_order_pop_def pfc_order_push_def pfc_order_new_def numeral_eq_Suc)
  then obtain order' where p: "pfc_order_pop 3 ?o = (Some 0, order')"
    by (cases "pfc_order_pop 3 ?o") simp
  have q: "order_run [0, 3, 5] order'" using order_run.pop [OF r _ p] by simp
  show ?thesis
    using q class_order_is_search [OF q, of "\<lparr>pq_paused_by_controller = {9} # replicate 7 {}, pq_ingresses = []\<rparr>"]
    by (intro exI [of _ order']) (simp add: queue_is_paused_def)
qed

end
