(* ===== verification/Roce.thy ===== *)
theory Roce
  imports Image_Types Exec_Error
begin

section \<open>RoCE queue pairs\<close>

text \<open>
  \<open>executor/src/roce.rs\<close> and the queue-pair helpers of \<open>scalar.rs\<close>: the pacer's predictions and its
  restart grid, the window, the Go-back-N receiver, and the blocks of the sender's handlers that
  update a pair (credit, send, acknowledge, time out).  The lemmas compose sender and receiver over a
  network that may lose and reorder packets: cumulative acknowledgments never overtake the receiver,
  the receiver's frontier never overtakes what was sent, every sequence number stays a packet
  boundary, and a finished sender means a complete receiver.
\<close>

subsection \<open>Pacing\<close>

definition pacing_credit_scale :: "u64 \<Rightarrow> u128 option" where
  "pacing_credit_scale rate_denominator = checked_mul (u64_to_u128 rate_denominator) 1000000000"

definition pacing_tick_credit :: "u64 \<Rightarrow> u64 \<Rightarrow> u128 option" where
  "pacing_tick_credit rate_bps pacing_interval_ns =
     checked_mul (u64_to_u128 rate_bps) (u64_to_u128 pacing_interval_ns)"

definition paced_packet_cost :: "u64 \<Rightarrow> u128 \<Rightarrow> u128 option" where
  "paced_packet_cost size_bytes scale =
     Option.bind (checked_mul (u64_to_u128 size_bytes) 8) (\<lambda>bits. checked_mul bits scale)"

definition roce_packet_size :: "roce_generator \<Rightarrow> u64 \<Rightarrow> u64" where
  "roce_packet_size roce psn =
     (let remaining = rp_total_bytes (rq_pacer roce) - psn
      in if rp_mtu_bytes (rq_pacer roce) < remaining then rp_mtu_bytes (rq_pacer roce) else remaining)"

definition roce_packet_cost :: "u64 \<Rightarrow> u128" where
  "roce_packet_cost size_bytes = u64_to_u128 size_bytes * 8 * 1000000000"

definition roce_window_bytes :: "roce_generator \<Rightarrow> u64 option" where
  "roce_window_bytes roce =
     (if rq_window_bytes roce = 0 then None
      else if \<not> rq_variable_window roce then Some (rq_window_bytes roce)
      else
        let scaled = u64_to_u128 (rq_window_bytes roce) * u64_to_u128 (dc_current_rate_bps (rq_controller roce))
                     div u64_to_u128 (max (cfg_maximum_rate_bps (dc_config (rq_controller roce))) 1)
        in Some (max (case u64_try_from scaled of Some w \<Rightarrow> w | None \<Rightarrow> u_max) 1))"

definition window_bound :: "roce_generator \<Rightarrow> bool" where
  "window_bound roce =
     (case roce_window_bytes roce of
        None \<Rightarrow> False
      | Some window \<Rightarrow> saturating_sub (rq_next_psn roce) (rq_snd_una roce) \<ge> window)"

definition armed_status :: "roce_generator \<Rightarrow> generator_status" where
  "armed_status roce =
     (if rq_next_psn roce \<ge> rp_total_bytes (rq_pacer roce) \<or> window_bound roce then Blocked
      else
        let tick = u64_to_u128 (dc_current_rate_bps (rq_controller roce))
                   * u64_to_u128 (rp_pacing_interval_ns (rq_pacer roce));
            covered = (case checked_add (rp_credit_quanta (rq_pacer roce)) tick of
              None \<Rightarrow> False
            | Some credit \<Rightarrow> credit \<ge> roce_packet_cost (roce_packet_size roce (rq_next_psn roce)))
        in if covered then Scheduled else Blocked)"

definition settled_status :: "roce_generator \<Rightarrow> generator_status \<Rightarrow> generator_status" where
  "settled_status roce parked_status =
     (if rq_snd_una roce \<ge> rp_total_bytes (rq_pacer roce) then Finished
      else if rq_pacer_armed roce then armed_status roce
      else parked_status)"

definition restart_time_ns :: "roce_generator \<Rightarrow> u64 \<Rightarrow> u64 option" where
  "restart_time_ns roce now_ns =
     (let first = rp_first_pacing_time_ns (rq_pacer roce);
          interval = rp_pacing_interval_ns (rq_pacer roce)
      in if now_ns < first then Some first
         else
           let elapsed_ticks = (now_ns - first) div interval
           in Option.bind (checked_add elapsed_ticks 1)
                (\<lambda>t. Option.bind (checked_mul t interval) (\<lambda>d. checked_add d first)))"

subsection \<open>The receiver\<close>

datatype roce_receiver_action =
    ActAck | ActDuplicateAck | ActNack | ActNackSuppressed | ActNone

fun sends_feedback :: "roce_receiver_action \<Rightarrow> bool" where
  "sends_feedback ActAck = True"
| "sends_feedback ActDuplicateAck = True"
| "sends_feedback ActNack = True"
| "sends_feedback _ = False"

definition nack_admitted :: "roce_receiver_state \<Rightarrow> u64 \<Rightarrow> bool" where
  "nack_admitted receiver now_ns =
     (case rv_last_nack receiver of
        None \<Rightarrow> True
      | Some mark \<Rightarrow>
          nm_expected_psn mark \<noteq> rv_expected_psn receiver
          \<or> (case checked_add (nm_time_ns mark) (rv_nack_interval_ns receiver) of
               None \<Rightarrow> False | Some earliest \<Rightarrow> now_ns \<ge> earliest))"

definition roce_receive ::
  "roce_receiver_state \<Rightarrow> u64 \<Rightarrow> u64 \<Rightarrow> u64 \<Rightarrow> roce_receiver_action \<times> roce_receiver_state" where
  "roce_receive receiver psn size_bytes now_ns =
     (let (action, receiver') =
        (if psn = rv_expected_psn receiver then
           let r = receiver\<lparr>rv_expected_psn := rv_expected_psn receiver + size_bytes,
                            rv_packets_since_ack := rv_packets_since_ack receiver + 1\<rparr>
           in (if rv_packets_since_ack r \<ge> rv_ack_every_packets r \<or> rv_expected_psn r = rv_total_bytes r
               then ActAck else ActNone, r)
         else if psn < rv_expected_psn receiver then
           (if rv_duplicate_ack receiver then ActDuplicateAck else ActNone, receiver)
         else if nack_admitted receiver now_ns then
           (ActNack, receiver\<lparr>rv_last_nack :=
              Some \<lparr>nm_expected_psn = rv_expected_psn receiver, nm_time_ns = now_ns\<rparr>\<rparr>)
         else (ActNackSuppressed, receiver))
      in (action, if sends_feedback action then receiver'\<lparr>rv_packets_since_ack := 0\<rparr> else receiver'))"

definition notification_point_sends_cnp ::
  "dcqcn_receiver_state \<Rightarrow> u64 \<Rightarrow> bool \<Rightarrow> bool \<times> dcqcn_receiver_state" where
  "notification_point_sends_cnp np now_ns congestion_experienced =
     (let interval_open = (case dr_last_cnp_time_ns np of
            None \<Rightarrow> True
          | Some last_ns \<Rightarrow>
              (case checked_add last_ns (dr_cnp_interval_ns np) of
                 None \<Rightarrow> False | Some earliest \<Rightarrow> now_ns \<ge> earliest))
      in if \<not> congestion_experienced \<or> \<not> interval_open then (False, np)
         else (True, np\<lparr>dr_last_cnp_time_ns := Some now_ns\<rparr>))"

subsection \<open>The sender\<close>

definition settle_roce_sender ::
  "flow_generator_state \<Rightarrow> roce_generator \<Rightarrow> generator_status \<Rightarrow> flow_generator_state" where
  "settle_roce_sender generator roce parked_status =
     (let outstanding = fg_bytes_emitted generator - rq_snd_una roce
      in generator\<lparr>fg_next_emission := (fg_next_emission generator)\<lparr>se_status := settled_status roce parked_status\<rparr>,
                   fg_feedback := (fg_feedback generator)\<lparr>gf_outstanding_bytes := outstanding,
                                                         gf_unacknowledged_bytes := outstanding\<rparr>\<rparr>)"

definition restart_roce_pacer ::
  "flow_generator_state \<Rightarrow> roce_generator \<Rightarrow> u64 \<Rightarrow> u64 \<Rightarrow>
     execution_error + u64 option \<times> flow_generator_state \<times> roce_generator" where
  "restart_roce_pacer generator roce0 now_ns stop_time_ns =
     (let roce = roce0\<lparr>rq_window_parked := False\<rparr> in
      if rq_pacer_armed roce \<or> rq_next_psn roce \<ge> rp_total_bytes (rq_pacer roce)
         \<or> rq_snd_una roce \<ge> rp_total_bytes (rq_pacer roce)
      then Inr (None, generator, roce)
      else
        and_then (ok_or (GeneratorTimeOverflow (fg_flow generator)) (restart_time_ns roce now_ns))
        (\<lambda>time_ns.
           let generator = generator\<lparr>fg_next_emission :=
                 (fg_next_emission generator)\<lparr>se_departure_time_ns := time_ns\<rparr>\<rparr>
           in if time_ns \<le> stop_time_ns
              then Inr (Some time_ns, generator, roce\<lparr>rq_pacer_armed := True\<rparr>)
              else Inr (None, generator\<lparr>fg_next_emission := (fg_next_emission generator)\<lparr>se_status := Stopped\<rparr>\<rparr>,
                        roce)))"

text \<open>
  \<open>leave_parked_list\<close>; the parked lists of a host have one entry per priority.  A pacing interval is
  positive in every image the validator accepts, so the division of \<open>restart_time_ns\<close> is defined.
\<close>

definition leave_parked_list ::
  "host_pfc_state option \<Rightarrow> u8 \<Rightarrow> nat \<Rightarrow> flow_generator_state \<Rightarrow> roce_generator \<Rightarrow> host_pfc_state option" where
  "leave_parked_list pfc data_class position generator roce =
     map_option (\<lambda>pfc.
       let restartable = \<not> rq_pacer_armed roce \<and> se_status (fg_next_emission generator) \<noteq> Stopped
             \<and> rq_next_psn roce < rp_total_bytes (rq_pacer roce)
             \<and> rq_snd_una roce < rp_total_bytes (rq_pacer roce)
       in if restartable then pfc
          else pfc\<lparr>hp_pause_parked := (hp_pause_parked pfc)[unat data_class :=
                     hp_pause_parked pfc ! unat data_class - {position}]\<rparr>) pfc"

record roce_emission =
  re_psn :: u64
  re_bytes :: u64
  re_retransmission :: bool
  re_payload :: payload_id

text \<open>
  The credit of one tick of \<open>host_roce_pacing_timer\<close>: the pair with its credit raised, and lowered
  again by the next packet's cost when the credit covers it, with that packet's first byte and size.
\<close>

definition roce_credit ::
  "node_id \<Rightarrow> roce_generator \<Rightarrow> execution_error + (u64 \<times> u64) option \<times> roce_generator" where
  "roce_credit node roce =
     and_then (ok_or (CounterOverflow node) (pacing_credit_scale 1)) (\<lambda>scale.
     and_then (ok_or (CounterOverflow node)
                 (pacing_tick_credit (dc_current_rate_bps (rq_controller roce))
                    (rp_pacing_interval_ns (rq_pacer roce)))) (\<lambda>tick.
     and_then (ok_or (CounterOverflow node) (checked_add (rp_credit_quanta (rq_pacer roce)) tick)) (\<lambda>credit.
     let psn = rq_next_psn roce;
         bytes = roce_packet_size roce psn
     in and_then (ok_or (CounterOverflow node) (paced_packet_cost bytes scale)) (\<lambda>cost.
        if credit \<ge> cost
        then Inr (Some (psn, bytes), roce\<lparr>rq_pacer := (rq_pacer roce)\<lparr>rp_credit_quanta := credit - cost\<rparr>\<rparr>)
        else Inr (None, roce\<lparr>rq_pacer := (rq_pacer roce)\<lparr>rp_credit_quanta := credit\<rparr>\<rparr>)))))"

text \<open>The send of a covered tick: the next byte, the high-water mark of first transmissions, the timeout.\<close>

definition roce_send ::
  "node_id \<Rightarrow> flow_id \<Rightarrow> u64 \<Rightarrow> payload_id \<Rightarrow> u64 \<times> u64 \<Rightarrow> flow_generator_state \<Rightarrow> roce_generator \<Rightarrow>
     execution_error + roce_emission \<times> u64 option \<times> flow_generator_state \<times> roce_generator" where
  "roce_send node flow now payload packet generator roce0 =
     (case packet of (psn, bytes) \<Rightarrow>
      let retransmission = psn < fg_bytes_emitted generator;
          outstanding_before = rq_snd_una roce0 < fg_bytes_emitted generator;
          roce = roce0\<lparr>rq_next_psn := psn + bytes\<rparr>;
          emission = \<lparr>re_psn = psn, re_bytes = bytes, re_retransmission = retransmission, re_payload = payload\<rparr>
      in and_then
           (if retransmission then Inr generator
            else and_then (ok_or (CounterOverflow node) (checked_add (fg_packets_emitted generator) 1))
                   (\<lambda>n. Inr (generator\<lparr>fg_bytes_emitted := rq_next_psn roce, fg_packets_emitted := n\<rparr>)))
         (\<lambda>generator.
            if rq_rto_ns roce \<noteq> 0 \<and> \<not> outstanding_before then
              and_then (ok_or (GeneratorTimeOverflow flow) (checked_add now (rq_rto_ns roce)))
                (\<lambda>deadline. Inr (emission, Some deadline, generator, roce\<lparr>rq_rto_deadline_ns := deadline\<rparr>))
            else Inr (emission, None, generator, roce)))"

text \<open>How an acknowledgment that is not stale restarts the retransmission timeout, if the pair has one.\<close>

definition roce_rearm ::
  "flow_id \<Rightarrow> u64 \<Rightarrow> bool \<Rightarrow> flow_generator_state \<Rightarrow> roce_generator \<Rightarrow>
     execution_error + u64 option \<times> u64 option \<times> roce_generator" where
  "roce_rearm flow now outstanding_before generator roce =
     (if rq_rto_ns roce \<noteq> 0 then
        let superseded = (if outstanding_before then Some (rq_rto_deadline_ns roce) else None)
        in if rq_snd_una roce < fg_bytes_emitted generator then
             and_then (ok_or (GeneratorTimeOverflow flow) (checked_add now (rq_rto_ns roce)))
               (\<lambda>deadline. Inr (superseded, Some deadline, roce\<lparr>rq_rto_deadline_ns := deadline\<rparr>))
           else Inr (superseded, None, roce\<lparr>rq_rto_deadline_ns := 0\<rparr>)
      else Inr (None, None, roce))"

text \<open>
  The acknowledgment block of \<open>host_roce_feedback_arrival\<close>: the deadline it supersedes, the one it
  arms and the tick it restarts.
\<close>

definition roce_apply_ack ::
  "flow_id \<Rightarrow> payload_id \<Rightarrow> u64 \<Rightarrow> u64 \<Rightarrow> u64 \<Rightarrow> bool \<Rightarrow> flow_generator_state \<Rightarrow> roce_generator \<Rightarrow>
     execution_error + (u64 option \<times> u64 option \<times> u64 option) \<times> flow_generator_state \<times> roce_generator" where
  "roce_apply_ack flow payload now stop_time_ns acknowledgment nack generator roce0 =
     (if acknowledgment > fg_bytes_emitted generator then Inl (InconsistentRocePacket flow payload)
      else if (if nack then acknowledgment < rq_snd_una roce0 else acknowledgment \<le> rq_snd_una roce0)
      then Inr ((None, None, None), generator, roce0)
      else
        let outstanding_before = rq_snd_una roce0 < fg_bytes_emitted generator;
            una = max (rq_snd_una roce0) acknowledgment;
            roce = roce0\<lparr>rq_snd_una := una,
                         rq_next_psn := (if nack then una else max (rq_next_psn roce0) una)\<rparr>
        in and_then (roce_rearm flow now outstanding_before generator roce)
           (\<lambda>(superseded, timer, roce).
              and_then (restart_roce_pacer generator roce now stop_time_ns)
                (\<lambda>(tick, generator, roce). Inr ((superseded, timer, tick), generator, roce))))"

text \<open>The rewind of \<open>host_roce_timeout\<close>.\<close>

definition roce_apply_timeout ::
  "flow_id \<Rightarrow> u64 \<Rightarrow> u64 \<Rightarrow> flow_generator_state \<Rightarrow> roce_generator \<Rightarrow>
     execution_error + (u64 \<times> u64 option) \<times> flow_generator_state \<times> roce_generator" where
  "roce_apply_timeout flow now stop_time_ns generator roce0 =
     and_then (ok_or (GeneratorTimeOverflow flow) (checked_add now (rq_rto_ns roce0)))
     (\<lambda>deadline.
        let roce = roce0\<lparr>rq_next_psn := rq_snd_una roce0, rq_rto_deadline_ns := deadline\<rparr>
        in and_then (restart_roce_pacer generator roce now stop_time_ns)
             (\<lambda>(tick, generator, roce).
                Inr ((deadline, tick),
                     settle_roce_sender generator roce (se_status (fg_next_emission generator)), roce)))"

subsection \<open>Sender, receiver and network\<close>

text \<open>
  A queue pair with the packets and acknowledgments in flight: data as (first byte, size), feedback
  as (cumulative acknowledgment, whether it is a NACK).
\<close>

record gbn_state =
  gb_generator :: flow_generator_state
  gb_roce :: roce_generator
  gb_receiver :: roce_receiver_state
  gb_data :: "(u64 \<times> u64) list"
  gb_acks :: "(u64 \<times> bool) list"

text \<open>What a transition that neither sends nor acknowledges leaves alone.\<close>

definition same_progress ::
  "flow_generator_state \<Rightarrow> roce_generator \<Rightarrow> flow_generator_state \<Rightarrow> roce_generator \<Rightarrow> bool" where
  "same_progress g r g' r' \<longleftrightarrow>
     fg_bytes_emitted g' = fg_bytes_emitted g \<and> rq_next_psn r' = rq_next_psn r
     \<and> rq_snd_una r' = rq_snd_una r
     \<and> rp_mtu_bytes (rq_pacer r') = rp_mtu_bytes (rq_pacer r)
     \<and> rp_total_bytes (rq_pacer r') = rp_total_bytes (rq_pacer r)"

inductive gbn_step :: "gbn_state \<Rightarrow> gbn_state \<Rightarrow> bool" where
  tick: "rq_next_psn (gb_roce s) < rp_total_bytes (rq_pacer (gb_roce s))
    \<Longrightarrow> roce_credit node (gb_roce s) = Inr (Some packet, roce)
    \<Longrightarrow> roce_send node flow now payload packet (gb_generator s) roce = Inr (emission, timer, generator', roce')
    \<Longrightarrow> gbn_step s (s\<lparr>gb_generator := generator', gb_roce := roce', gb_data := gb_data s @ [packet]\<rparr>)"
| idle: "same_progress (gb_generator s) (gb_roce s) generator' roce'
    \<Longrightarrow> gbn_step s (s\<lparr>gb_generator := generator', gb_roce := roce'\<rparr>)"
| lose_data: "gb_data s = xs @ packet # ys \<Longrightarrow> gbn_step s (s\<lparr>gb_data := xs @ ys\<rparr>)"
| lose_ack: "gb_acks s = xs @ ack # ys \<Longrightarrow> gbn_step s (s\<lparr>gb_acks := xs @ ys\<rparr>)"
| arrive: "gb_data s = xs @ (psn, bytes) # ys
    \<Longrightarrow> roce_receive (gb_receiver s) psn bytes now = (action, receiver')
    \<Longrightarrow> gbn_step s (s\<lparr>gb_receiver := receiver', gb_data := xs @ ys,
          gb_acks := gb_acks s @ (if sends_feedback action then [(rv_expected_psn receiver', action = ActNack)] else [])\<rparr>)"
| feedback: "gb_acks s = xs @ (acknowledgment, nack) # ys
    \<Longrightarrow> roce_apply_ack flow payload now stop acknowledgment nack (gb_generator s) (gb_roce s)
          = Inr (timers, generator', roce')
    \<Longrightarrow> gbn_step s (s\<lparr>gb_generator := generator', gb_roce := roce', gb_acks := xs @ ys\<rparr>)"
| timeout: "roce_apply_timeout flow now stop (gb_generator s) (gb_roce s) = Inr (timers, generator', roce')
    \<Longrightarrow> gbn_step s (s\<lparr>gb_generator := generator', gb_roce := roce'\<rparr>)"

definition gbn_start :: "gbn_state \<Rightarrow> bool" where
  "gbn_start s \<longleftrightarrow>
     fg_bytes_emitted (gb_generator s) = 0 \<and> rq_next_psn (gb_roce s) = 0 \<and> rq_snd_una (gb_roce s) = 0
     \<and> rv_expected_psn (gb_receiver s) = 0 \<and> 0 < rp_mtu_bytes (rq_pacer (gb_roce s))
     \<and> rv_total_bytes (gb_receiver s) = rp_total_bytes (rq_pacer (gb_roce s))
     \<and> gb_data s = [] \<and> gb_acks s = []"

text \<open>Byte offsets a sender of \<open>total\<close> bytes in packets of \<open>mtu\<close> bytes can name.\<close>

definition packet_boundary :: "nat \<Rightarrow> nat \<Rightarrow> nat \<Rightarrow> bool" where
  "packet_boundary mtu bound x \<longleftrightarrow> x \<le> bound \<and> (mtu dvd x \<or> x = bound)"

definition gbn_ordered ::
  "nat \<Rightarrow> nat \<Rightarrow> nat \<Rightarrow> nat \<Rightarrow> nat \<Rightarrow> nat \<Rightarrow> (nat \<times> nat) list \<Rightarrow> nat list \<Rightarrow> bool" where
  "gbn_ordered mtu bound una expected sent nxt data acks \<longleftrightarrow>
     0 < mtu \<and> una \<le> expected \<and> expected \<le> sent \<and> una \<le> nxt \<and> nxt \<le> sent
     \<and> list_all (packet_boundary mtu bound) [una, expected, sent, nxt]
     \<and> list_all (\<lambda>(psn, bytes). packet_boundary mtu bound psn \<and> psn < bound
          \<and> bytes = min mtu (bound - psn) \<and> psn + bytes \<le> sent) data
     \<and> list_all (\<lambda>a. a \<le> expected \<and> packet_boundary mtu bound a) acks"

definition gbn_inv :: "gbn_state \<Rightarrow> bool" where
  "gbn_inv s \<longleftrightarrow>
     rv_total_bytes (gb_receiver s) = rp_total_bytes (rq_pacer (gb_roce s))
     \<and> gbn_ordered (unat (rp_mtu_bytes (rq_pacer (gb_roce s)))) (unat (rp_total_bytes (rq_pacer (gb_roce s))))
         (unat (rq_snd_una (gb_roce s))) (unat (rv_expected_psn (gb_receiver s)))
         (unat (fg_bytes_emitted (gb_generator s))) (unat (rq_next_psn (gb_roce s)))
         (map (\<lambda>(psn, bytes). (unat psn, unat bytes)) (gb_data s)) (map (\<lambda>(a, _). unat a) (gb_acks s))"

lemma boundary_step:
  assumes "packet_boundary m t x" "x < t" "0 < m"
  shows "packet_boundary m t (x + min m (t - x))"
  using assms by (cases "m \<le> t - x") (auto simp: packet_boundary_def min_def)

lemma boundary_gap:
  assumes "packet_boundary m t x" "packet_boundary m t y" "x < y" "0 < m"
  shows "x + min m (t - x) \<le> y"
proof (cases "y = t")
  case True
  then show ?thesis using assms(3) by linarith
next
  case False
  then have "m dvd y" "m dvd x" using assms by (auto simp: packet_boundary_def)
  then have "m dvd y - x" by (rule dvd_diff_nat)
  then have "m \<le> y - x" using assms(3) by (intro dvd_imp_le) auto
  then show ?thesis using assms(3) by simp
qed

lemma unat_roce_packet_size:
  assumes "psn \<le> rp_total_bytes (rq_pacer r)"
  shows "unat (roce_packet_size r psn)
    = min (unat (rp_mtu_bytes (rq_pacer r))) (unat (rp_total_bytes (rq_pacer r)) - unat psn)"
  using assms by (simp add: roce_packet_size_def Let_def word_less_nat_alt unat_sub_exact min_def)

lemma gbn_send:
  assumes "gbn_ordered m t una ex sent nxt data acks" "nxt < t" "b = min m (t - nxt)"
  shows "gbn_ordered m t una ex (max sent (nxt + b)) (nxt + b) (data @ [(nxt, b)]) acks
    \<and> (nxt < sent \<longrightarrow> nxt + b \<le> sent) \<and> nxt + b \<le> t"
proof -
  define S where "S = max sent (nxt + b)"
  have n: "packet_boundary m t nxt" "packet_boundary m t sent" "0 < m" "una \<le> nxt" "ex \<le> sent"
    and d: "list_all (\<lambda>(psn, bytes). packet_boundary m t psn \<and> psn < t
          \<and> bytes = min m (t - psn) \<and> psn + bytes \<le> sent) data"
    using assms(1) by (auto simp: gbn_ordered_def)
  have e: "packet_boundary m t (nxt + b)" unfolding assms(3) by (rule boundary_step [OF n(1) assms(2) n(3)])
  have g: "nxt < sent \<Longrightarrow> nxt + b \<le> sent" unfolding assms(3) by (rule boundary_gap [OF n(1,2) _ n(3)])
  have S: "packet_boundary m t S" "sent \<le> S" "nxt + b \<le> S" using e n(2) by (simp_all add: S_def max_def)
  have "list_all (\<lambda>(psn, bytes). packet_boundary m t psn \<and> psn < t
          \<and> bytes = min m (t - psn) \<and> psn + bytes \<le> S) data"
    using d by (rule list.pred_mono_strong) (use S(2) in auto)
  then have "gbn_ordered m t una ex S (nxt + b) (data @ [(nxt, b)]) acks"
    using assms(1) n e S assms(2,3) by (simp add: gbn_ordered_def)
  moreover have "nxt + b \<le> t" using e by (simp add: packet_boundary_def)
  ultimately show ?thesis using g by (simp add: S_def)
qed

lemma gbn_remove_data:
  "gbn_ordered m t una ex sent nxt (xs @ p # ys) acks \<Longrightarrow> gbn_ordered m t una ex sent nxt (xs @ ys) acks"
  by (simp add: gbn_ordered_def)

lemma gbn_remove_ack:
  "gbn_ordered m t una ex sent nxt data (xs @ a # ys) \<Longrightarrow> gbn_ordered m t una ex sent nxt data (xs @ ys)"
  by (simp add: gbn_ordered_def)

lemma gbn_advance:
  assumes "gbn_ordered m t una ex sent nxt (xs @ (ex, b) # ys) acks"
  shows "gbn_ordered m t una (ex + b) sent nxt (xs @ ys) acks \<and> ex + b \<le> t"
proof -
  have n: "packet_boundary m t ex" "ex < t" "b = min m (t - ex)" "ex + b \<le> sent" "0 < m" "una \<le> ex"
    and a: "list_all (\<lambda>a. a \<le> ex \<and> packet_boundary m t a) acks"
    using assms by (simp_all add: gbn_ordered_def)
  have e: "packet_boundary m t (ex + b)" unfolding n(3) by (rule boundary_step [OF n(1,2,5)])
  have "list_all (\<lambda>a. a \<le> ex + b \<and> packet_boundary m t a) acks"
    using a by (rule list.pred_mono_strong) simp
  then show ?thesis using assms n e by (simp add: gbn_ordered_def packet_boundary_def)
qed

lemma gbn_answer:
  "gbn_ordered m t una ex sent nxt data acks \<Longrightarrow> gbn_ordered m t una ex sent nxt data (acks @ [ex])"
  by (simp add: gbn_ordered_def)

lemma gbn_acknowledge:
  "gbn_ordered m t una ex sent nxt data (xs @ a # ys) \<Longrightarrow>
     gbn_ordered m t (max una a) ex sent (max nxt (max una a)) data (xs @ ys)
     \<and> gbn_ordered m t (max una a) ex sent (max una a) data (xs @ ys) \<and> a \<le> sent"
  by (auto simp: gbn_ordered_def max_def)

lemma gbn_rewind: "gbn_ordered m t una ex sent nxt data acks \<Longrightarrow> gbn_ordered m t una ex sent una data acks"
  by (auto simp: gbn_ordered_def)

lemma roce_receive_frame:
  assumes "roce_receive r psn bytes now = (action, r')"
  shows "rv_total_bytes r' = rv_total_bytes r
    \<and> rv_expected_psn r' = (if psn = rv_expected_psn r then rv_expected_psn r + bytes else rv_expected_psn r)"
  using assms by (auto simp: roce_receive_def Let_def split: if_splits)

lemma restart_roce_pacer_frame:
  "restart_roce_pacer g r now stop = Inr (tick, g', r') \<Longrightarrow> same_progress g r g' r'"
  by (auto simp: restart_roce_pacer_def same_progress_def Let_def result_simps split: if_splits)

lemma settle_roce_sender_frame: "same_progress g r g r' \<Longrightarrow> same_progress g r (settle_roce_sender g r' st) r'"
  by (simp add: settle_roce_sender_def same_progress_def Let_def)

lemma roce_credit_frame:
  assumes "roce_credit node r = Inr (packet, r')"
  shows "same_progress g r g r' \<and> rq_rto_ns r' = rq_rto_ns r
    \<and> (packet = None \<or> packet = Some (rq_next_psn r, roce_packet_size r (rq_next_psn r)))"
  using assms by (auto simp: roce_credit_def same_progress_def result_simps Let_def split: if_splits)

lemma roce_send_frame:
  assumes "roce_send node flow now payload (psn, bytes) g r = Inr (e, timer, g', r')"
  shows "rq_next_psn r' = psn + bytes \<and> rq_snd_una r' = rq_snd_una r \<and> rq_pacer r' = rq_pacer r
    \<and> fg_bytes_emitted g' = (if psn < fg_bytes_emitted g then fg_bytes_emitted g else psn + bytes)"
  using assms by (auto simp: roce_send_def result_simps Let_def split: if_splits)

lemma same_progress_inv:
  "same_progress g r g' r' \<Longrightarrow> gbn_inv (s\<lparr>gb_generator := g, gb_roce := r\<rparr>)
     \<Longrightarrow> gbn_inv (s\<lparr>gb_generator := g', gb_roce := r'\<rparr>)"
  by (simp add: gbn_inv_def same_progress_def)

lemma unat_add_le:
  "unat a + unat b \<le> unat (c :: u64) \<Longrightarrow> unat (a + b :: u64) = unat a + unat b"
  using unat_lt [of c] by (intro unat_add_exact) simp

lemma gbn_inv_tick:
  assumes "gbn_inv s" "rq_next_psn (gb_roce s) < rp_total_bytes (rq_pacer (gb_roce s))"
    "roce_credit node (gb_roce s) = Inr (Some packet, r)"
    "roce_send node flow now payload packet (gb_generator s) r = Inr (e, timer, g', r')"
  shows "gbn_inv (s\<lparr>gb_generator := g', gb_roce := r', gb_data := gb_data s @ [packet]\<rparr>)"
proof -
  let ?r = "gb_roce s" and ?g = "gb_generator s"
  let ?psn = "rq_next_psn ?r" and ?b = "roce_packet_size ?r (rq_next_psn ?r)"
  let ?m = "unat (rp_mtu_bytes (rq_pacer ?r))" and ?t = "unat (rp_total_bytes (rq_pacer ?r))"
  have p: "packet = (?psn, ?b)" and sp: "same_progress ?g ?r ?g r"
    using roce_credit_frame [OF assms(3), of ?g] by auto
  have lt: "unat ?psn < ?t" using assms(2) by (simp add: word_less_nat_alt)
  have b: "unat ?b = min ?m (?t - unat ?psn)"
    using assms(2) by (intro unat_roce_packet_size) simp
  note sf = roce_send_frame [OF assms(4) [unfolded p]]
  have o: "gbn_ordered ?m ?t (unat (rq_snd_una ?r)) (unat (rv_expected_psn (gb_receiver s)))
      (unat (fg_bytes_emitted ?g)) (unat ?psn) (map (\<lambda>(psn, bytes). (unat psn, unat bytes)) (gb_data s))
      (map (\<lambda>(a, _). unat a) (gb_acks s))"
    using assms(1) by (simp add: gbn_inv_def)
  note send = gbn_send [OF o lt b]
  have e: "unat (?psn + ?b) = unat ?psn + unat ?b"
    by (rule unat_add_le [of _ _ "rp_total_bytes (rq_pacer ?r)"]) (use send in simp)
  have le: "unat ?psn \<le> unat (fg_bytes_emitted ?g)" using o by (simp add: gbn_ordered_def)
  have emitted: "unat (fg_bytes_emitted g') = max (unat (fg_bytes_emitted ?g)) (unat ?psn + unat ?b)"
    using sf send e le by (auto simp: word_less_nat_alt)
  show ?thesis
    using conjunct1 [OF send] sf sp e emitted assms(1)
    by (simp add: gbn_inv_def p same_progress_def)
qed

lemma gbn_inv_arrive:
  assumes "gbn_inv s" "gb_data s = xs @ (psn, bytes) # ys"
    "roce_receive (gb_receiver s) psn bytes now = (action, rv)"
  shows "gbn_inv (s\<lparr>gb_receiver := rv, gb_data := xs @ ys,
          gb_acks := gb_acks s @ (if sends_feedback action then [(rv_expected_psn rv, action = ActNack)] else [])\<rparr>)"
proof -
  let ?r = "gb_roce s" and ?e = "rv_expected_psn (gb_receiver s)"
  let ?t = "unat (rp_total_bytes (rq_pacer ?r))"
  note f = roce_receive_frame [OF assms(3)]
  define D where "D = (\<lambda>x. map (\<lambda>(psn, bytes). (unat psn, unat bytes)) (x :: (u64 \<times> u64) list))"
  define A where "A = map (\<lambda>(a, _). unat a) (gb_acks s)"
  have o: "gbn_ordered (unat (rp_mtu_bytes (rq_pacer ?r))) ?t (unat (rq_snd_una ?r)) (unat ?e)
      (unat (fg_bytes_emitted (gb_generator s))) (unat (rq_next_psn ?r)) (D xs @ (unat psn, unat bytes) # D ys) A"
    using assms(1,2) by (simp add: gbn_inv_def D_def A_def)
  have o': "gbn_ordered (unat (rp_mtu_bytes (rq_pacer ?r))) ?t (unat (rq_snd_una ?r)) (unat (rv_expected_psn rv))
      (unat (fg_bytes_emitted (gb_generator s))) (unat (rq_next_psn ?r)) (D xs @ D ys) A"
  proof (cases "psn = ?e")
    case True
    note adv = gbn_advance [OF o [unfolded True]]
    have "unat (?e + bytes) = unat ?e + unat bytes"
      by (rule unat_add_le [of _ _ "rp_total_bytes (rq_pacer ?r)"]) (use adv in simp)
    then show ?thesis using adv f True by simp
  next
    case False
    then show ?thesis using gbn_remove_data [OF o] f by simp
  qed
  show ?thesis
    using o' gbn_answer [OF o'] f assms(1) by (auto simp: gbn_inv_def D_def A_def)
qed

lemma roce_rearm_frame: "roce_rearm flow now ob g r = Inr (old, timer, r') \<Longrightarrow> same_progress g r g r'"
  by (auto simp: roce_rearm_def same_progress_def Let_def result_simps split: if_splits)

lemma roce_apply_ack_frame:
  assumes "roce_apply_ack flow payload now stop a nack g r = Inr (timers, g', r')"
  shows "a \<le> fg_bytes_emitted g
    \<and> (same_progress g r g' r'
       \<or> same_progress g (r\<lparr>rq_snd_una := max (rq_snd_una r) a,
            rq_next_psn := (if nack then max (rq_snd_una r) a else max (rq_next_psn r) (max (rq_snd_una r) a))\<rparr>) g' r')"
proof -
  have le: "a \<le> fg_bytes_emitted g"
    using assms by (auto simp: roce_apply_ack_def split: if_splits)
  show ?thesis
  proof (cases "if nack then a < rq_snd_una r else a \<le> rq_snd_una r")
    case True
    have "\<not> a > fg_bytes_emitted g" using le by simp
    then have "Inr ((None, None, None), g, r) = (Inr (timers, g', r')
        :: execution_error + (u64 option \<times> u64 option \<times> u64 option) \<times> flow_generator_state \<times> roce_generator)"
      using assms unfolding roce_apply_ack_def if_P [OF True] by (simp only: if_False)
    then have "g' = g \<and> r' = r" by simp
    then show ?thesis using le by (simp add: same_progress_def)
  next
    case False
    let ?u = "max (rq_snd_una r) a"
    let ?r = "r\<lparr>rq_snd_una := ?u, rq_next_psn := (if nack then ?u else max (rq_next_psn r) ?u)\<rparr>"
    obtain tick r1 where r1: "same_progress g ?r g r1" and rs: "restart_roce_pacer g r1 now stop = Inr (tick, g', r')"
    proof -
      have "\<not> a > fg_bytes_emitted g" using le by simp
      with assms have "and_then (roce_rearm flow now (rq_snd_una r < fg_bytes_emitted g) g ?r)
          (\<lambda>(superseded, timer, roce). and_then (restart_roce_pacer g roce now stop)
             (\<lambda>(tick, generator, roce). Inr ((superseded, timer, tick), generator, roce)))
        = Inr (timers, g', r')"
        unfolding roce_apply_ack_def if_not_P [OF False] Let_def by (simp only: if_False)
      then obtain old timer r1 tick where
        "roce_rearm flow now (rq_snd_una r < fg_bytes_emitted g) g ?r = Inr (old, timer, r1)"
        "restart_roce_pacer g r1 now stop = Inr (tick, g', r')"
        by (auto simp: and_then_Inr_iff)
      then show ?thesis using that roce_rearm_frame by blast
    qed
    have "same_progress g ?r g' r'"
      using r1 restart_roce_pacer_frame [OF rs] by (simp add: same_progress_def)
    then show ?thesis using le by simp
  qed
qed

lemma gbn_inv_feedback:
  assumes "gbn_inv s" "gb_acks s = xs @ (a, nack) # ys"
    "roce_apply_ack flow payload now stop a nack (gb_generator s) (gb_roce s) = Inr (timers, g', r')"
  shows "gbn_inv (s\<lparr>gb_generator := g', gb_roce := r', gb_acks := xs @ ys\<rparr>)"
proof -
  let ?r = "gb_roce s" and ?g = "gb_generator s" and ?t = "s\<lparr>gb_acks := xs @ ys\<rparr>"
  let ?u = "max (rq_snd_una (gb_roce s)) a"
  let ?q = "?r\<lparr>rq_snd_una := ?u, rq_next_psn := (if nack then ?u else max (rq_next_psn ?r) ?u)\<rparr>"
  have o: "gbn_ordered (unat (rp_mtu_bytes (rq_pacer ?r))) (unat (rp_total_bytes (rq_pacer ?r)))
      (unat (rq_snd_una ?r)) (unat (rv_expected_psn (gb_receiver s))) (unat (fg_bytes_emitted ?g))
      (unat (rq_next_psn ?r)) (map (\<lambda>(psn, bytes). (unat psn, unat bytes)) (gb_data s))
      (map (\<lambda>(a, _). unat a) xs @ unat a # map (\<lambda>(a, _). unat a) ys)"
    using assms(1,2) by (simp add: gbn_inv_def)
  have same: "gbn_inv (?t\<lparr>gb_generator := ?g, gb_roce := ?r\<rparr>)"
    using gbn_remove_ack [OF o] assms(1) by (simp add: gbn_inv_def)
  have moved: "gbn_inv (?t\<lparr>gb_generator := ?g, gb_roce := ?q\<rparr>)"
    using gbn_acknowledge [OF o] assms(1) by (simp add: gbn_inv_def unat_max)
  from roce_apply_ack_frame [OF assms(3)]
  have "gbn_inv (?t\<lparr>gb_generator := g', gb_roce := r'\<rparr>)"
    using same_progress_inv [OF _ same] same_progress_inv [OF _ moved] by blast
  then show ?thesis by (simp add: gbn_inv_def)
qed

lemma gbn_inv_timeout:
  assumes "gbn_inv s"
    "roce_apply_timeout flow now stop (gb_generator s) (gb_roce s) = Inr (timers, g', r')"
  shows "gbn_inv (s\<lparr>gb_generator := g', gb_roce := r'\<rparr>)"
proof -
  let ?r = "gb_roce s" and ?g = "gb_generator s"
  from assms(2) obtain deadline tick g1 where
    r: "restart_roce_pacer ?g (?r\<lparr>rq_next_psn := rq_snd_una ?r, rq_rto_deadline_ns := deadline\<rparr>) now stop
         = Inr (tick, g1, r')"
    and g: "g' = settle_roce_sender g1 r' (se_status (fg_next_emission g1))"
    by (auto simp: roce_apply_timeout_def result_simps Let_def)
  have "same_progress ?g (?r\<lparr>rq_next_psn := rq_snd_una ?r\<rparr>) g' r'"
    using restart_roce_pacer_frame [OF r] by (simp add: same_progress_def g settle_roce_sender_def Let_def)
  moreover have "gbn_inv (s\<lparr>gb_generator := ?g, gb_roce := ?r\<lparr>rq_next_psn := rq_snd_una ?r\<rparr>\<rparr>)"
    using assms(1) by (simp add: gbn_inv_def) (blast intro: gbn_rewind)
  ultimately show ?thesis by (rule same_progress_inv)
qed

lemma gbn_step_inv: "gbn_step s s' \<Longrightarrow> gbn_inv s \<Longrightarrow> gbn_inv s'"
proof (induction rule: gbn_step.induct)
  case (tick s node packet roce flow now payload emission timer generator' roce')
  then show ?case by (blast intro: gbn_inv_tick)
next
  case (idle s generator' roce')
  then show ?case using same_progress_inv [of "gb_generator s" "gb_roce s"] by simp
next
  case (lose_data s xs packet ys)
  then show ?case by (simp add: gbn_inv_def) (blast intro: gbn_remove_data)
next
  case (lose_ack s xs ack ys)
  then show ?case by (simp add: gbn_inv_def) (blast intro: gbn_remove_ack)
next
  case (arrive s xs psn bytes ys now action receiver')
  then show ?case by (blast intro: gbn_inv_arrive)
next
  case (feedback s xs acknowledgment nack ys flow payload now stop timers generator' roce')
  then show ?case by (blast intro: gbn_inv_feedback)
next
  case (timeout flow now stop s timers generator' roce')
  then show ?case by (blast intro: gbn_inv_timeout)
qed

lemma gbn_start_inv: "gbn_start s \<Longrightarrow> gbn_inv s"
  by (simp add: gbn_start_def gbn_inv_def gbn_ordered_def packet_boundary_def word_less_nat_alt)

lemma gbn_reachable_inv: "gbn_step\<^sup>*\<^sup>* s s' \<Longrightarrow> gbn_start s \<Longrightarrow> gbn_inv s'"
  by (induction rule: rtranclp_induct) (simp_all add: gbn_start_inv gbn_step_inv)

text \<open>
  C32. Go-back-N is safe over a network that loses and reorders packets and acknowledgments: in every
  reachable state the sender's cumulative acknowledgment is at most the receiver's frontier, the
  frontier is at most what was sent, no packet in flight reaches beyond the flow, no acknowledgment
  in flight exceeds what was sent, so neither end rejects a packet as inconsistent, and a sender that
  has everything acknowledged faces a receiver that has every byte.
\<close>

theorem go_back_n_safe:
  assumes "gbn_start s" "gbn_step\<^sup>*\<^sup>* s s'"
  shows "rq_snd_una (gb_roce s') \<le> rv_expected_psn (gb_receiver s')
    \<and> rv_expected_psn (gb_receiver s') \<le> fg_bytes_emitted (gb_generator s')
    \<and> (\<forall>(psn, bytes)\<in>set (gb_data s'). unat psn + unat bytes \<le> unat (rv_total_bytes (gb_receiver s')))
    \<and> (\<forall>(a, nack)\<in>set (gb_acks s'). a \<le> fg_bytes_emitted (gb_generator s'))
    \<and> (settled_status (gb_roce s') Blocked = Finished \<longrightarrow>
         rv_expected_psn (gb_receiver s') = rv_total_bytes (gb_receiver s'))"
proof -
  let ?t = "unat (rp_total_bytes (rq_pacer (gb_roce s')))"
  note i = gbn_reachable_inv [OF assms(2,1)]
  then have o: "unat (rq_snd_una (gb_roce s')) \<le> unat (rv_expected_psn (gb_receiver s'))"
    "unat (rv_expected_psn (gb_receiver s')) \<le> unat (fg_bytes_emitted (gb_generator s'))"
    "unat (fg_bytes_emitted (gb_generator s')) \<le> ?t"
    and tot: "rv_total_bytes (gb_receiver s') = rp_total_bytes (rq_pacer (gb_roce s'))"
    by (simp_all add: gbn_inv_def gbn_ordered_def packet_boundary_def)
  have data: "unat psn + unat bytes \<le> ?t" if "(psn, bytes) \<in> set (gb_data s')" for psn bytes
    using i o(3) that by (force simp: gbn_inv_def gbn_ordered_def list_all_iff)
  have acks: "unat a \<le> unat (fg_bytes_emitted (gb_generator s'))" if "(a, n) \<in> set (gb_acks s')" for a n
    using i o(2) that by (force simp: gbn_inv_def gbn_ordered_def list_all_iff)
  have fin: "?t \<le> unat (rq_snd_una (gb_roce s'))" if "settled_status (gb_roce s') Blocked = Finished"
    using that by (auto simp: settled_status_def armed_status_def Let_def word_le_nat_alt split: if_splits)
  have "rv_expected_psn (gb_receiver s') = rv_total_bytes (gb_receiver s')"
    if "settled_status (gb_roce s') Blocked = Finished"
    using o fin [OF that] by (simp add: tot word_unat_eq_iff)
  then show ?thesis using o data acks tot by (auto simp: word_le_nat_alt)
qed

text \<open>A pair of 1500 bytes in packets of 1000, paced at 8 Gbit/s with a tick per microsecond.\<close>

definition sample_roce :: roce_generator where
  "sample_roce =
     \<lparr>rq_pacer = \<lparr>rp_first_pacing_time_ns = 0, rp_pacing_interval_ns = 1000, rp_mtu_bytes = 1000,
                  rp_total_bytes = 1500, rp_credit_quanta = 0\<rparr>,
      rq_controller = fixed_rate 8000000000, rq_pacing_timer_payload = 0, rq_next_psn = 0, rq_snd_una = 0,
      rq_rto_deadline_ns = 0, rq_rto_ns = 0, rq_window_bytes = 0, rq_pacer_armed = True,
      rq_variable_window = False, rq_window_parked = False, rq_congestion_control = RoceNone\<rparr>"

definition sample_roce_generator :: flow_generator_state where
  "sample_roce_generator =
     \<lparr>fg_flow = 4, fg_packets_emitted = 0, fg_bytes_emitted = 0,
      fg_next_emission = \<lparr>se_status = Scheduled, se_departure_time_ns = 0, se_payload = 0\<rparr>,
      fg_rng_state = 0,
      fg_feedback = \<lparr>gf_arrivals = 0, gf_outstanding_bytes = 0, gf_unacknowledged_bytes = 0\<rparr>,
      fg_kind = GenRoce sample_roce\<rparr>"

definition sample_receiver :: roce_receiver_state where
  "sample_receiver = \<lparr>rv_flow = 4, rv_total_bytes = 1500, rv_expected_psn = 0, rv_ack_every_packets = 1,
     rv_packets_since_ack = 0, rv_ack_size_bytes = 64, rv_nack_interval_ns = 100, rv_last_nack = None,
     rv_duplicate_ack = True\<rparr>"

definition sample_gbn :: gbn_state where
  "sample_gbn = \<lparr>gb_generator = sample_roce_generator, gb_roce = sample_roce, gb_receiver = sample_receiver,
     gb_data = [], gb_acks = []\<rparr>"

text \<open>The first packet is sent and arrives; its acknowledgment is in flight.\<close>

theorem go_back_n_safe_witness:
  "gbn_start sample_gbn
   \<and> (\<exists>s. gbn_step\<^sup>*\<^sup>* sample_gbn s \<and> gb_acks s = [(1000, False)]
        \<and> rq_snd_una (gb_roce s) \<le> rv_expected_psn (gb_receiver s)
        \<and> rv_expected_psn (gb_receiver s) \<le> fg_bytes_emitted (gb_generator s)
        \<and> (\<forall>(a, nack)\<in>set (gb_acks s). a \<le> fg_bytes_emitted (gb_generator s)))"
proof -
  have st: "gbn_start sample_gbn"
    by (simp add: gbn_start_def sample_gbn_def sample_roce_generator_def sample_roce_def sample_receiver_def)
  let ?r = "sample_roce\<lparr>rq_next_psn := 1000\<rparr>"
  let ?g = "sample_roce_generator\<lparr>fg_bytes_emitted := 1000, fg_packets_emitted := 1\<rparr>"
  let ?v = "sample_receiver\<lparr>rv_expected_psn := 1000\<rparr>"
  have c: "roce_credit 7 sample_roce = Inr (Some (0, 1000), sample_roce)"
    by (simp add: roce_credit_def pacing_credit_scale_def pacing_tick_credit_def paced_packet_cost_def
        checked_mul_def checked_add_def u64_to_u128_def sample_roce_def fixed_rate_def pristine_def
        roce_packet_size_def Let_def)
  have pr: "gb_roce sample_gbn = sample_roce" "gb_generator sample_gbn = sample_roce_generator"
    "gb_receiver sample_gbn = sample_receiver" "gb_data sample_gbn = []" "gb_acks sample_gbn = []"
    by (simp_all add: sample_gbn_def)
  have sd: "roce_send 7 4 0 9 (0, 1000) sample_roce_generator sample_roce
      = Inr (\<lparr>re_psn = 0, re_bytes = 1000, re_retransmission = False, re_payload = 9\<rparr>, None, ?g, ?r)"
    by (simp add: roce_send_def sample_roce_def sample_roce_generator_def checked_add_def)
  let ?s1 = "sample_gbn\<lparr>gb_generator := ?g, gb_roce := ?r, gb_data := gb_data sample_gbn @ [(0, 1000)]\<rparr>"
  have 1: "gbn_step sample_gbn ?s1"
  proof (rule gbn_step.tick)
    show "rq_next_psn (gb_roce sample_gbn) < rp_total_bytes (rq_pacer (gb_roce sample_gbn))"
      unfolding pr by (simp add: sample_roce_def)
    show "roce_credit 7 (gb_roce sample_gbn) = Inr (Some (0, 1000), sample_roce)" unfolding pr by (rule c)
    show "roce_send 7 4 0 9 (0, 1000) (gb_generator sample_gbn) sample_roce
      = Inr (\<lparr>re_psn = 0, re_bytes = 1000, re_retransmission = False, re_payload = 9\<rparr>, None, ?g, ?r)"
      unfolding pr by (rule sd)
  qed
  have rc: "roce_receive (gb_receiver ?s1) 0 1000 5 = (ActAck, ?v)"
    by (simp add: pr roce_receive_def sample_receiver_def)
  let ?s2 = "?s1\<lparr>gb_receiver := ?v, gb_data := [] @ [],
      gb_acks := gb_acks ?s1 @ (if sends_feedback ActAck then [(rv_expected_psn ?v, ActAck = ActNack)] else [])\<rparr>"
  have 2: "gbn_step ?s1 ?s2"
    by (rule gbn_step.arrive [OF _ rc]) (simp add: pr)
  have r: "gbn_step\<^sup>*\<^sup>* sample_gbn ?s2" using 1 2 by (meson converse_rtranclp_into_rtranclp rtranclp.rtrancl_refl)
  have "gb_acks ?s2 = [(1000, False)]" by (simp add: pr)
  then show ?thesis using st r go_back_n_safe [OF st r] by blast
qed

subsection \<open>The restart grid and the NACK limit\<close>

lemma restart_time_Some:
  assumes "restart_time_ns r now = Some t" "\<not> now < rp_first_pacing_time_ns (rq_pacer r)"
  shows "unat t = unat (rp_first_pacing_time_ns (rq_pacer r))
    + ((unat now - unat (rp_first_pacing_time_ns (rq_pacer r)))
         div unat (rp_pacing_interval_ns (rq_pacer r)) + 1) * unat (rp_pacing_interval_ns (rq_pacer r))"
proof -
  let ?f = "rp_first_pacing_time_ns (rq_pacer r)" and ?i = "rp_pacing_interval_ns (rq_pacer r)"
  have e: "unat ((now - ?f) div ?i) = (unat now - unat ?f) div unat ?i"
    using assms(2) by (simp add: unat_div unat_sub_exact)
  have bind: "Option.bind x g = Some t \<longleftrightarrow> (\<exists>y. x = Some y \<and> g y = Some t)" for x :: "u64 option" and g
    by (cases x) auto
  from assms obtain a b where "checked_add ((now - ?f) div ?i) 1 = Some a" "checked_mul a ?i = Some b"
    "checked_add b ?f = Some t"
    by (auto simp: restart_time_ns_def Let_def bind)
  then show ?thesis using e by (simp add: checked_iffs)
qed

text \<open>
  A parked pacer restarts at the first point of its pacing grid strictly after the present: the
  restart time lies on the grid, after now, and no grid point lies between.
\<close>

theorem restart_on_next_grid_point:
  assumes "0 < rp_pacing_interval_ns (rq_pacer r)" "restart_time_ns r now = Some t"
  shows "now < t
    \<and> (\<exists>k. unat t = unat (rp_first_pacing_time_ns (rq_pacer r)) + k * unat (rp_pacing_interval_ns (rq_pacer r)))
    \<and> (\<forall>k. unat now < unat (rp_first_pacing_time_ns (rq_pacer r)) + k * unat (rp_pacing_interval_ns (rq_pacer r))
        \<longrightarrow> unat t \<le> unat (rp_first_pacing_time_ns (rq_pacer r)) + k * unat (rp_pacing_interval_ns (rq_pacer r)))"
proof (cases "now < rp_first_pacing_time_ns (rq_pacer r)")
  case True
  then have "t = rp_first_pacing_time_ns (rq_pacer r)"
    using assms(2) by (simp add: restart_time_ns_def Let_def)
  then show ?thesis using True by (auto intro: exI [of _ 0])
next
  case False
  define f i n where "f = unat (rp_first_pacing_time_ns (rq_pacer r))"
    and "i = unat (rp_pacing_interval_ns (rq_pacer r))" and "n = unat now"
  have i: "0 < i" using assms(1) by (simp add: i_def word_less_nat_alt)
  have fn: "f \<le> n" using False by (simp add: f_def n_def word_less_nat_alt)
  have t: "unat t = f + ((n - f) div i + 1) * i"
    using restart_time_Some [OF assms(2) False] by (simp add: f_def i_def n_def)
  have "n - f < ((n - f) div i + 1) * i" using i by (simp add: dividend_less_div_times)
  then have lt: "n < unat t" using t fn by linarith
  have least: "unat t \<le> f + k * i" if "n < f + k * i" for k
  proof -
    have "n - f < k * i" using that fn by linarith
    then have "(n - f) div i < k" by (simp add: less_mult_imp_div_less)
    then have "((n - f) div i + 1) * i \<le> k * i" by (intro mult_le_mono1) simp
    then show ?thesis using t by linarith
  qed
  have "\<exists>k. unat t = f + k * i" using t by blast
  then show ?thesis
    using lt least unfolding f_def i_def n_def word_less_nat_alt by blast
qed

text \<open>The NACKs a receiver sends over a sequence of arrivals (first byte, size, time): frontier and time.\<close>

fun nacks_sent :: "roce_receiver_state \<Rightarrow> (u64 \<times> u64 \<times> u64) list \<Rightarrow> (u64 \<times> u64) list" where
  "nacks_sent r [] = []"
| "nacks_sent r ((psn, bytes, now) # rest) =
     (case roce_receive r psn bytes now of
        (action, r') \<Rightarrow>
          (if action = ActNack then [(rv_expected_psn r', now)] else []) @ nacks_sent r' rest)"

text \<open>Arrivals in time order, each within the flow, as the arrival handler checks.\<close>

definition arrivals_ok :: "u64 \<Rightarrow> (u64 \<times> u64 \<times> u64) list \<Rightarrow> bool" where
  "arrivals_ok bound arrivals \<longleftrightarrow>
     list_all (\<lambda>(psn, bytes, _). unat psn + unat bytes \<le> unat bound) arrivals
     \<and> sorted (map (\<lambda>(_, _, now). now) arrivals)"

definition mark_ok :: "roce_receiver_state \<Rightarrow> bool" where
  "mark_ok r \<longleftrightarrow> (case rv_last_nack r of None \<Rightarrow> True | Some m \<Rightarrow> nm_expected_psn m \<le> rv_expected_psn r)"

lemma roce_receive_nack:
  assumes "roce_receive r psn bytes now = (action, r')" "mark_ok r" "unat psn + unat bytes \<le> unat (rv_total_bytes r)"
  shows "mark_ok r' \<and> rv_expected_psn r \<le> rv_expected_psn r' \<and> rv_nack_interval_ns r' = rv_nack_interval_ns r
    \<and> rv_total_bytes r' = rv_total_bytes r
    \<and> (if action = ActNack
       then rv_last_nack r' = Some \<lparr>nm_expected_psn = rv_expected_psn r', nm_time_ns = now\<rparr>
         \<and> rv_expected_psn r' = rv_expected_psn r \<and> nack_admitted r now
       else rv_last_nack r' = rv_last_nack r)"
proof -
  have mono: "rv_expected_psn r \<le> rv_expected_psn r + bytes" if "psn = rv_expected_psn r"
    using unat_add_le [of psn bytes "rv_total_bytes r"] assms(3) that by (simp add: word_le_nat_alt)
  consider "psn = rv_expected_psn r" | "psn < rv_expected_psn r" | "psn > rv_expected_psn r" by fastforce
  then show ?thesis
  proof cases
    case 1
    then show ?thesis using assms(1,2) mono order_trans
      by (auto simp: roce_receive_def mark_ok_def Let_def split: option.splits if_splits)
  next
    case 2
    then show ?thesis using assms(1,2)
      by (auto simp: roce_receive_def mark_ok_def Let_def split: option.splits if_splits)
  next
    case 3
    then show ?thesis using assms(1,2)
      by (auto simp: roce_receive_def mark_ok_def Let_def split: option.splits if_splits)
  qed
qed

lemma nacks_sent_later:
  assumes "mark_ok r" "arrivals_ok (rv_total_bytes r) arrivals" "(e, t) \<in> set (nacks_sent r arrivals)"
  shows "rv_expected_psn r \<le> e \<and> t \<in> set (map (\<lambda>(_, _, now). now) arrivals)
    \<and> (\<forall>m. rv_last_nack r = Some m \<and> nm_expected_psn m = e \<longrightarrow>
         unat (nm_time_ns m) + unat (rv_nack_interval_ns r) \<le> unat t)"
  using assms
proof (induction arrivals arbitrary: r)
  case (Cons a arrivals)
  obtain psn bytes now where a: "a = (psn, bytes, now)" by (cases a) auto
  obtain action r' where rc: "roce_receive r psn bytes now = (action, r')"
    by (cases "roce_receive r psn bytes now") auto
  have fit: "unat psn + unat bytes \<le> unat (rv_total_bytes r)"
    using Cons.prems(2) by (simp add: arrivals_ok_def a)
  note f = roce_receive_nack [OF rc Cons.prems(1) fit]
  have ok': "arrivals_ok (rv_total_bytes r') arrivals"
    using Cons.prems(2) f by (simp add: arrivals_ok_def a)
  have adm: "unat (nm_time_ns m) + unat (rv_nack_interval_ns r) \<le> unat now"
    if "action = ActNack" "rv_last_nack r = Some m" "nm_expected_psn m = rv_expected_psn r" for m
    using f that by (auto simp: nack_admitted_def checked_iffs word_le_nat_alt split: option.splits)
  from Cons.prems(3) consider (here) "action = ActNack" "e = rv_expected_psn r" "t = now"
    | (later) "(e, t) \<in> set (nacks_sent r' arrivals)"
    using f by (auto simp: a rc split: if_splits)
  then show ?case
  proof cases
    case here
    then show ?thesis using adm by (auto simp: a)
  next
    case later
    note ih = Cons.IH [OF conjunct1 [OF f] ok' later]
    have "now \<le> t" using Cons.prems(2) ih by (auto simp: arrivals_ok_def a)
    have "unat (nm_time_ns m) + unat (rv_nack_interval_ns r) \<le> unat t"
      if m: "rv_last_nack r = Some m" "nm_expected_psn m = e" for m
    proof (cases "action = ActNack")
      case True
      have "nm_expected_psn m = rv_expected_psn r"
        using m f ih True Cons.prems(1) by (simp add: mark_ok_def)
      then show ?thesis using adm [OF True m(1)] \<open>now \<le> t\<close> by (simp add: word_le_nat_alt)
    next
      case False
      then show ?thesis using ih f m by auto
    qed
    then show ?thesis using ih f by (auto simp: a)
  qed
qed simp

lemma nacks_sent_spaced:
  assumes "mark_ok r" "arrivals_ok (rv_total_bytes r) arrivals"
  shows "sorted_wrt (\<lambda>(e, t) (e', t'). e \<noteq> e' \<or> unat t + unat (rv_nack_interval_ns r) \<le> unat t')
    (nacks_sent r arrivals)"
  using assms
proof (induction arrivals arbitrary: r)
  case (Cons a arrivals)
  obtain psn bytes now where a: "a = (psn, bytes, now)" by (cases a) auto
  obtain action r' where rc: "roce_receive r psn bytes now = (action, r')"
    by (cases "roce_receive r psn bytes now") auto
  have fit: "unat psn + unat bytes \<le> unat (rv_total_bytes r)"
    using Cons.prems(2) by (simp add: arrivals_ok_def a)
  note f = roce_receive_nack [OF rc Cons.prems(1) fit]
  have ok': "arrivals_ok (rv_total_bytes r') arrivals"
    using Cons.prems(2) f by (simp add: arrivals_ok_def a)
  note ih = Cons.IH [OF conjunct1 [OF f] ok']
  show ?case
  proof (cases "action = ActNack")
    case True
    have "e \<noteq> rv_expected_psn r' \<or> unat now + unat (rv_nack_interval_ns r) \<le> unat t"
      if "(e, t) \<in> set (nacks_sent r' arrivals)" for e t
      using nacks_sent_later [OF conjunct1 [OF f] ok' that] f True by auto
    then show ?thesis using ih f True by (auto simp: a rc)
  next
    case False
    then show ?thesis using ih f by (simp add: a rc)
  qed
qed simp

text \<open>
  C33. Over any sequence of arrivals in time order, two NACKs a receiver sends for the same frontier
  are at least the NACK interval apart.
\<close>

theorem nack_rate_limited:
  assumes "mark_ok r" "arrivals_ok (rv_total_bytes r) arrivals"
  shows "sorted_wrt (\<lambda>(e, t) (e', t'). e \<noteq> e' \<or> unat t + unat (rv_nack_interval_ns r) \<le> unat t')
    (nacks_sent r arrivals)"
  by (rule nacks_sent_spaced [OF assms])

text \<open>Three packets beyond the frontier at times 10, 50 and 120 with an interval of 100: two NACKs.\<close>

theorem nack_rate_limited_witness:
  "let arrivals = [(1000, 500, 10), (1000, 500, 50), (1000, 500, 120)]
   in mark_ok sample_receiver \<and> arrivals_ok (rv_total_bytes sample_receiver) arrivals
      \<and> nacks_sent sample_receiver arrivals = [(0, 10), (0, 120)]
      \<and> sorted_wrt (\<lambda>(e, t) (e', t'). e \<noteq> e' \<or> unat t + unat (rv_nack_interval_ns sample_receiver) \<le> unat t')
          (nacks_sent sample_receiver arrivals)"
proof -
  let ?as = "[(1000, 500, 10), (1000, 500, 50), (1000, 500, 120)] :: (u64 \<times> u64 \<times> u64) list"
  have m: "mark_ok sample_receiver" by (simp add: mark_ok_def sample_receiver_def)
  have o: "arrivals_ok (rv_total_bytes sample_receiver) ?as"
    by (simp add: arrivals_ok_def sample_receiver_def)
  have "nacks_sent sample_receiver ?as = [(0, 10), (0, 120)]"
    by (simp add: roce_receive_def nack_admitted_def sample_receiver_def checked_add_def)
  then show ?thesis unfolding Let_def using m o nack_rate_limited [OF m o] by blast
qed

end
