(* ===== verification/Transition_State.thy ===== *)
theory Transition_State
  imports Exec_Monad Future_Events Stage_Progress Tcp_Ledger Tcp_Receive Schedulers Pfc_Order Roce
begin

section \<open>The state of a logical process and its primitive transitions\<close>

text \<open>
  \<open>TransitionState\<close> of \<open>executor/src/scalar.rs\<close> under \<open>ObservationMode::Summary\<close>, the mode of
  \<open>run_scalar\<close>: the records that only full observation retains (observed packets, departures,
  arrivals, mechanism transitions) are not part of the state, and the debug assertions are not part
  of the code.  The three shapes of \<open>HostStore\<close> present the same slices and are one list of entries,
  a host's state beside its stage index; \<open>PacketStore\<close> is the map it implements; the vector of
  children that every handler appends to is a field.

  The theory has the lookups in the image, the emission of child events, the packet table, the
  counters, and the construction of the state from an image.
\<close>

record host_entry =
  he_state :: host_state
  he_index :: host_stage_index

record resident_packet =
  res_descriptor :: packet_descriptor
  res_source_time_ns :: "u64 option"
  res_transmitters :: u64
  res_terminal :: bool

record run_summary =
  sum_sourced_packets :: u128
  sum_sourced_bytes :: u128
  sum_departed_packets :: u128
  sum_departed_bytes :: u128
  sum_admitted_packets :: u128
  sum_admitted_bytes :: u128
  sum_received_packets :: u128
  sum_received_bytes :: u128
  sum_dropped_packets :: u128
  sum_dropped_bytes :: u128
  sum_feedback_packets :: u128
  sum_feedback_bytes :: u128

definition run_summary_default :: run_summary where
  "run_summary_default = \<lparr>sum_sourced_packets = 0, sum_sourced_bytes = 0, sum_departed_packets = 0,
     sum_departed_bytes = 0, sum_admitted_packets = 0, sum_admitted_bytes = 0,
     sum_received_packets = 0, sum_received_bytes = 0, sum_dropped_packets = 0,
     sum_dropped_bytes = 0, sum_feedback_packets = 0, sum_feedback_bytes = 0\<rparr>"

record transition_state =
  ts_image :: simulation_image
  ts_hosts :: "host_entry list"
  ts_switch_states :: "switch_state list"
  ts_switch_queue_bytes :: "u64 list list"
  ts_switch_pfc_orders :: "(nat \<times> nat, pfc_class_order) omap option"
  ts_local_node :: "node_descriptor option"
  ts_packets :: "(payload_id, resident_packet) omap"
  ts_summary :: run_summary
  ts_tcp_sent_segments :: tcp_segment_ledger
  ts_superseded_timers :: "superseded_timer list"
  ts_children :: "event list"

record child_emission =
  ce_target :: node_id
  ce_kind :: event_kind
  ce_payload :: payload_id
  ce_time_ns :: u64

record pfc_frame_plan =
  fp_channel_index :: u32
  fp_flow :: flow_id
  fp_header :: pfc_header

record tcp_send_plan =
  sp_packets :: "packet_descriptor list"
  sp_timer :: "tcp_timer_state option"

datatype arrival_disposition = Admitted | Dropped | Delivered | ArrivedFeedback

datatype generator_feedback_action = NoFeedbackAction | EmitFeedback flow_id u64

type_synonym 'a handler = "(transition_state, 'a) trans"

subsection \<open>Lookups\<close>

definition indexed_lookup :: "'a list \<Rightarrow> u64 \<Rightarrow> ('a \<Rightarrow> bool) \<Rightarrow> 'a option" where
  "indexed_lookup table ident matches_id =
     (if unat ident < length table \<and> matches_id (table ! unat ident) then Some (table ! unat ident)
      else find matches_id table)"

definition ts_node :: "node_id \<Rightarrow> node_descriptor handler" where
  "ts_node ident = tbind (tgets ts_image) (\<lambda>img.
     tok_or (UnknownNode ident) (indexed_lookup (img_nodes img) ident (\<lambda>node. nd_id node = ident)))"

definition ts_link :: "link_id \<Rightarrow> link_descriptor handler" where
  "ts_link ident = tbind (tgets ts_image) (\<lambda>img.
     tok_or (UnknownLink ident) (indexed_lookup (img_links img) ident (\<lambda>link. link_id link = ident)))"

definition ts_flow :: "flow_id \<Rightarrow> flow_descriptor handler" where
  "ts_flow ident = tbind (tgets ts_image) (\<lambda>img.
     tok_or (UnknownFlow ident) (indexed_lookup (img_flows img) ident (\<lambda>flow. flow_id_of flow = ident)))"

definition ts_packet :: "payload_id \<Rightarrow> packet_descriptor handler" where
  "ts_packet ident = tbind (tgets ts_packets) (\<lambda>packets.
     tok_or (UnknownPacket ident) (map_option res_descriptor (om_get packets ident)))"

definition packet_size :: "payload_id \<Rightarrow> u64 handler" where
  "packet_size ident = tbind (ts_packet ident) (\<lambda>packet. treturn (pkt_size_bytes packet))"

definition image_flow_priority :: "simulation_image \<Rightarrow> flow_id \<Rightarrow> execution_error + u8" where
  "image_flow_priority img flow =
     ok_or (UnknownFlow flow)
       (map_option flow_priority (indexed_lookup (img_flows img) flow (\<lambda>d. flow_id_of d = flow)))"

text \<open>\<open>u64::try_from(self.image.nodes.len()).unwrap_or(u64::MAX)\<close>\<close>

definition u64_of_len :: "nat \<Rightarrow> u64" where
  "u64_of_len n = (if n < 2 ^ 64 then of_nat n else u_max)"

definition node_count_of :: "simulation_image \<Rightarrow> u64" where
  "node_count_of img = u64_of_len (length (img_nodes img))"

definition local_state_slot :: "node_descriptor \<Rightarrow> nat handler" where
  "local_state_slot node = tbind (tgets ts_local_node) (\<lambda>local_node.
     case local_node of
       None \<Rightarrow> treturn (unat (nd_state_slot node))
     | Some local \<Rightarrow> if local = node then treturn 0 else tfail (UnknownNode (nd_id node)))"

subsection \<open>The state of a node\<close>

text \<open>
  A method that borrows a part of the state mutably runs a transition of that part; \<open>tzoom\<close> runs it
  and writes the part back.
\<close>

definition tzoom :: "('s \<Rightarrow> 't) \<Rightarrow> ('t \<Rightarrow> 's \<Rightarrow> 's) \<Rightarrow> ('t, 'a) trans \<Rightarrow> ('s, 'a) trans" where
  "tzoom get put m = (\<lambda>s. case m (get s) of
     None \<Rightarrow> None | Some (Inl e) \<Rightarrow> Some (Inl e) | Some (Inr (x, t)) \<Rightarrow> Some (Inr (x, put t s)))"

text \<open>\<open>counter = counter.checked_add(amount).ok_or(e)?\<close>\<close>

definition tcounter ::
  "('s \<Rightarrow> 'w::len word) \<Rightarrow> (('w word \<Rightarrow> 'w word) \<Rightarrow> 's \<Rightarrow> 's) \<Rightarrow> 'w word \<Rightarrow> execution_error \<Rightarrow> ('s, unit) trans" where
  "tcounter get upd amount e = tbind (tgets get) (\<lambda>v.
     tbind (tok_or e (checked_add v amount)) (\<lambda>v'. tmodify (upd (\<lambda>_. v'))))"

definition invalid_slot :: "node_descriptor \<Rightarrow> execution_error" where
  "invalid_slot node = InvalidStateSlot (nd_id node) (nd_kind node) (nd_state_slot node)"

definition host_parts_mut :: "node_descriptor \<Rightarrow> (host_entry, 'a) trans \<Rightarrow> 'a handler" where
  "host_parts_mut node m = tbind (local_state_slot node) (\<lambda>slot.
     tbind (tgets ts_hosts) (\<lambda>hosts.
     if slot < length hosts
     then tzoom (\<lambda>s. ts_hosts s ! slot) (\<lambda>h s. s\<lparr>ts_hosts := (ts_hosts s)[slot := h]\<rparr>) m
     else tfail (invalid_slot node)))"

definition host_state_mut :: "node_descriptor \<Rightarrow> (host_state, 'a) trans \<Rightarrow> 'a handler" where
  "host_state_mut node m =
     host_parts_mut node (tzoom he_state (\<lambda>h e. e\<lparr>he_state := h\<rparr>) m)"

definition switch_state_mut :: "node_descriptor \<Rightarrow> (switch_state, 'a) trans \<Rightarrow> 'a handler" where
  "switch_state_mut node m = tbind (local_state_slot node) (\<lambda>slot.
     tbind (tgets ts_switch_states) (\<lambda>switches.
     if slot < length switches
     then tzoom (\<lambda>s. ts_switch_states s ! slot)
            (\<lambda>w s. s\<lparr>ts_switch_states := (ts_switch_states s)[slot := w]\<rparr>) m
     else tfail (invalid_slot node)))"

definition host_state_of :: "node_descriptor \<Rightarrow> host_state handler" where
  "host_state_of node = host_state_mut node (tgets id)"

definition switch_state_of :: "node_descriptor \<Rightarrow> switch_state handler" where
  "switch_state_of node = switch_state_mut node (tgets id)"

text \<open>The entry's state and index; a generator by position, which panics out of range.\<close>

definition on_state :: "(host_state, 'a) trans \<Rightarrow> (host_entry, 'a) trans" where
  "on_state m = tzoom he_state (\<lambda>h e. e\<lparr>he_state := h\<rparr>) m"

definition with_generator :: "nat \<Rightarrow> (flow_generator_state, 'a) trans \<Rightarrow> (host_state, 'a) trans" where
  "with_generator position m = tbind (tgets hs_generators) (\<lambda>generators.
     if position < length generators
     then tzoom (\<lambda>h. hs_generators h ! position)
            (\<lambda>g h. h\<lparr>hs_generators := (hs_generators h)[position := g]\<rparr>) m
     else tpanic)"

text \<open>\<open>index.first_generator(flow).ok_or(e)?\<close>\<close>

definition generator_position :: "flow_id \<Rightarrow> execution_error \<Rightarrow> (host_entry, nat) trans" where
  "generator_position flow e = tbind (tgets he_index) (\<lambda>index. tok_or e (first_generator index flow))"

text \<open>
  The allocation that every source of packets inlines: the identifier of the host's next payload,
  and the host's sequence advanced.
\<close>

definition allocate_payload_id :: "node_id \<Rightarrow> u64 \<Rightarrow> u64 \<Rightarrow> payload_id option" where
  "allocate_payload_id source node_count sequence = from_node_sequence source node_count sequence"

definition next_payload :: "node_id \<Rightarrow> u64 \<Rightarrow> (host_state, payload_id) trans" where
  "next_payload node node_count =
     tbind (tgets hs_next_payload_seq) (\<lambda>seq.
     tbind (tok_or (PayloadSequenceOverflow node) (allocate_payload_id node node_count seq)) (\<lambda>payload.
     tthen (tcounter hs_next_payload_seq hs_next_payload_seq_update 1 (PayloadSequenceOverflow node))
       (treturn payload)))"

text \<open>
  \<open>in_service.is_none() && !tx_ready_pending\<close>, which then sets \<open>tx_ready_pending\<close>: whether the host
  owns a new \<open>TxReady\<close>.
\<close>

definition claim_ready :: "(host_state, bool) trans" where
  "claim_ready = tbind (tgets id) (\<lambda>h.
     if hs_in_service h = None \<and> \<not> hs_tx_ready_pending h
     then tthen (tmodify (hs_tx_ready_pending_update (\<lambda>_. True))) (treturn True)
     else treturn False)"

subsection \<open>Child events\<close>

definition insert_child :: "event \<Rightarrow> event \<Rightarrow> unit handler" where
  "insert_child parent child =
     (if ev_key child \<le> ev_key parent then tfail (NonMonotoneChild (ev_key parent) (ev_key child))
      else tmodify (\<lambda>s. s\<lparr>ts_children := ts_children s @ [child]\<rparr>))"

definition child_event :: "node_descriptor \<Rightarrow> child_emission \<Rightarrow> u64 \<Rightarrow> event" where
  "child_event origin emission origin_seq =
     \<lparr>ev_key = \<lparr>key_time_ns = ce_time_ns emission, key_phase = event_phase (ce_kind emission),
                key_origin_node = nd_id origin, key_origin_seq = origin_seq\<rparr>,
      ev_target = ce_target emission, ev_kind = ce_kind emission, ev_payload = ce_payload emission\<rparr>"

text \<open>The sequence number of a node's next child, advanced.\<close>

definition take_origin_seq ::
  "node_id \<Rightarrow> ('s \<Rightarrow> u64) \<Rightarrow> ((u64 \<Rightarrow> u64) \<Rightarrow> 's \<Rightarrow> 's) \<Rightarrow> ('s, u64) trans" where
  "take_origin_seq node get upd = tbind (tgets get) (\<lambda>origin_seq.
     tthen (tcounter get upd 1 (OriginSequenceOverflow node)) (treturn origin_seq))"

definition emit_from_host :: "node_descriptor \<Rightarrow> event \<Rightarrow> child_emission \<Rightarrow> unit handler" where
  "emit_from_host origin parent emission =
     tbind (host_state_mut origin
              (take_origin_seq (nd_id origin) hs_next_origin_seq hs_next_origin_seq_update))
       (\<lambda>origin_seq. insert_child parent (child_event origin emission origin_seq))"

definition emit_from_switch :: "node_descriptor \<Rightarrow> event \<Rightarrow> child_emission \<Rightarrow> unit handler" where
  "emit_from_switch origin parent emission =
     tbind (switch_state_mut origin
              (take_origin_seq (nd_id origin) ss_next_origin_seq ss_next_origin_seq_update))
       (\<lambda>origin_seq. insert_child parent (child_event origin emission origin_seq))"

text \<open>The \<open>TxReady\<close> a host emits to itself at the parent's time.\<close>

definition emit_host_ready :: "node_descriptor \<Rightarrow> event \<Rightarrow> payload_id \<Rightarrow> unit handler" where
  "emit_host_ready node parent payload = emit_from_host node parent
     \<lparr>ce_target = nd_id node, ce_kind = TxReady, ce_payload = payload,
      ce_time_ns = key_time_ns (ev_key parent)\<rparr>"

definition emit_switch_ready :: "node_descriptor \<Rightarrow> event \<Rightarrow> payload_id \<Rightarrow> unit handler" where
  "emit_switch_ready node parent payload = emit_from_switch node parent
     \<lparr>ce_target = nd_id node, ce_kind = TxReady, ce_payload = payload,
      ce_time_ns = key_time_ns (ev_key parent)\<rparr>"

definition schedule_host_ready :: "node_descriptor \<Rightarrow> event \<Rightarrow> payload_id \<Rightarrow> unit handler" where
  "schedule_host_ready node parent payload =
     tbind (host_state_mut node claim_ready) (\<lambda>ready.
     twhen ready (emit_host_ready node parent payload))"

subsection \<open>The packet table\<close>

definition put_packets :: "((payload_id, resident_packet) omap \<Rightarrow> (payload_id, resident_packet) omap) \<Rightarrow> unit handler" where
  "put_packets f = tmodify (ts_packets_update f)"

definition new_resident :: "packet_descriptor \<Rightarrow> u64 option \<Rightarrow> resident_packet" where
  "new_resident packet source_time_ns =
     \<lparr>res_descriptor = packet, res_source_time_ns = source_time_ns, res_transmitters = 0,
      res_terminal = False\<rparr>"

text \<open>\<open>packets.get_mut(&payload).ok_or(UnknownPacket)?\<close>, updated by a fallible function.\<close>

definition resident_mut ::
  "payload_id \<Rightarrow> (resident_packet \<Rightarrow> execution_error + resident_packet) \<Rightarrow> resident_packet handler" where
  "resident_mut payload f = tbind (tgets ts_packets) (\<lambda>packets.
     tbind (tok_or (UnknownPacket payload) (om_get packets payload)) (\<lambda>resident.
     tbind (tresult (f resident)) (\<lambda>resident'.
     tthen (put_packets (om_insert payload resident')) (treturn resident'))))"

definition insert_packet :: "packet_descriptor \<Rightarrow> u64 option \<Rightarrow> unit handler" where
  "insert_packet packet source_time_ns = tbind (tgets ts_packets) (\<lambda>packets.
     if om_get packets (pkt_id packet) \<noteq> None then tfail (DuplicatePayload (pkt_id packet))
     else put_packets (om_insert (pkt_id packet) (new_resident packet source_time_ns)))"

definition install_packet :: "packet_descriptor \<Rightarrow> unit handler" where
  "install_packet descriptor = tbind (tgets ts_packets) (\<lambda>packets.
     case om_get packets (pkt_id descriptor) of
       Some existing \<Rightarrow>
         if res_descriptor existing = descriptor then treturn ()
         else tfail (DuplicatePayload (pkt_id descriptor))
     | None \<Rightarrow> put_packets (om_insert (pkt_id descriptor) (new_resident descriptor None)))"

definition set_source_time :: "payload_id \<Rightarrow> u64 \<Rightarrow> unit handler" where
  "set_source_time payload time_ns =
     tthen (resident_mut payload (\<lambda>r. Inr (r\<lparr>res_source_time_ns := Some time_ns\<rparr>))) (treturn ())"

definition set_packet_marked :: "payload_id \<Rightarrow> unit handler" where
  "set_packet_marked payload = tthen (resident_mut payload
     (\<lambda>r. Inr (r\<lparr>res_descriptor := (res_descriptor r)\<lparr>pkt_ecn_marked := True\<rparr>\<rparr>))) (treturn ())"

definition start_transmission :: "node_id \<Rightarrow> payload_id \<Rightarrow> unit handler" where
  "start_transmission node payload = tthen (resident_mut payload (\<lambda>r.
     and_then (ok_or (CounterOverflow node) (checked_add (res_transmitters r) 1))
       (\<lambda>n. Inr (r\<lparr>res_transmitters := n\<rparr>)))) (treturn ())"

definition finish_transmission :: "node_id \<Rightarrow> payload_id \<Rightarrow> unit handler" where
  "finish_transmission node payload = tbind (resident_mut payload (\<lambda>r.
     and_then (ok_or (UnexpectedTxComplete node None payload) (checked_sub (res_transmitters r) 1))
       (\<lambda>n. Inr (r\<lparr>res_transmitters := n\<rparr>)))) (\<lambda>r.
     tbind (tgets ts_local_node) (\<lambda>local_node.
     twhen (res_transmitters r = 0 \<and> (res_terminal r \<or> local_node \<noteq> None))
       (put_packets (om_remove payload))))"

definition mark_terminal :: "payload_id \<Rightarrow> unit handler" where
  "mark_terminal payload =
     tbind (resident_mut payload (\<lambda>r. Inr (r\<lparr>res_terminal := True\<rparr>))) (\<lambda>r.
     twhen (res_transmitters r = 0) (put_packets (om_remove payload)))"

text \<open>
  The position of a new packet in a host's queue: after the last queued packet that precedes it by
  source time, flow and identifier (\<open>rposition\<close>), whether or not packets after it precede it too.
\<close>

definition source_rank :: "resident_packet \<Rightarrow> nat \<times> u64 \<times> flow_id \<times> payload_id" where
  "source_rank r =
     (if res_source_time_ns r = None then 0 else 1,
      case res_source_time_ns r of None \<Rightarrow> 0 | Some t \<Rightarrow> t,
      pkt_flow (res_descriptor r), pkt_id (res_descriptor r))"

fun rposition :: "('a \<Rightarrow> bool) \<Rightarrow> 'a list \<Rightarrow> nat option" where
  "rposition P [] = None"
| "rposition P (x # xs) =
     (case rposition P xs of Some i \<Rightarrow> Some (Suc i) | None \<Rightarrow> if P x then Some 0 else None)"

definition enqueue_position ::
  "(payload_id, resident_packet) omap \<Rightarrow> nat \<times> u64 \<times> flow_id \<times> payload_id \<Rightarrow> payload_id list \<Rightarrow> nat" where
  "enqueue_position packets rank queue =
     (case rposition (\<lambda>queued. case om_get packets queued of
              None \<Rightarrow> False | Some resident \<Rightarrow> source_rank resident \<le> rank) queue of
        None \<Rightarrow> 0 | Some position \<Rightarrow> position + 1)"

definition enqueue_source_packet :: "node_descriptor \<Rightarrow> payload_id \<Rightarrow> unit handler" where
  "enqueue_source_packet node payload =
     tbind (ts_packet payload) (\<lambda>packet.
     tbind (tgets ts_packets) (\<lambda>packets.
     tbind (tok_or (UnknownPacket payload) (Option.bind (om_get packets payload) res_source_time_ns))
       (\<lambda>source_time_ns.
     host_state_mut node (tmodify (\<lambda>h. h\<lparr>hs_queue :=
       vec_insert (enqueue_position packets (1, source_time_ns, pkt_flow packet, pkt_id packet) (hs_queue h))
         payload (hs_queue h)\<rparr>)))))"

subsection \<open>Counters\<close>

definition add_summary ::
  "(run_summary \<Rightarrow> u128) \<Rightarrow> ((u128 \<Rightarrow> u128) \<Rightarrow> run_summary \<Rightarrow> run_summary) \<Rightarrow> u64 \<Rightarrow> node_id \<Rightarrow> unit handler" where
  "add_summary get upd value node =
     tzoom ts_summary (\<lambda>c s. s\<lparr>ts_summary := c\<rparr>)
       (tcounter get upd (u64_to_u128 value) (CounterOverflow node))"

definition record_sourced :: "node_id \<Rightarrow> packet_descriptor \<Rightarrow> unit handler" where
  "record_sourced node packet =
     tthen (add_summary sum_sourced_packets sum_sourced_packets_update 1 node)
       (add_summary sum_sourced_bytes sum_sourced_bytes_update (pkt_size_bytes packet) node)"

definition record_departure :: "node_id \<Rightarrow> packet_descriptor \<Rightarrow> unit handler" where
  "record_departure node packet =
     tthen (add_summary sum_departed_packets sum_departed_packets_update 1 node)
       (add_summary sum_departed_bytes sum_departed_bytes_update (pkt_size_bytes packet) node)"

fun record_arrival :: "node_id \<Rightarrow> packet_descriptor \<Rightarrow> arrival_disposition \<Rightarrow> unit handler" where
  "record_arrival node packet Admitted =
     tthen (add_summary sum_admitted_packets sum_admitted_packets_update 1 node)
       (add_summary sum_admitted_bytes sum_admitted_bytes_update (pkt_size_bytes packet) node)"
| "record_arrival node packet Dropped =
     tthen (add_summary sum_dropped_packets sum_dropped_packets_update 1 node)
       (add_summary sum_dropped_bytes sum_dropped_bytes_update (pkt_size_bytes packet) node)"
| "record_arrival node packet Delivered =
     tthen (add_summary sum_received_packets sum_received_packets_update 1 node)
       (add_summary sum_received_bytes sum_received_bytes_update (pkt_size_bytes packet) node)"
| "record_arrival node packet ArrivedFeedback =
     tthen (add_summary sum_feedback_packets sum_feedback_packets_update 1 node)
       (add_summary sum_feedback_bytes sum_feedback_bytes_update (pkt_size_bytes packet) node)"

text \<open>A packet the host sources: it enters the table and the host's queue, and is counted.\<close>

definition source_new_packet :: "node_descriptor \<Rightarrow> u64 \<Rightarrow> packet_descriptor \<Rightarrow> unit handler" where
  "source_new_packet node time_ns packet =
     tthen (insert_packet packet (Some time_ns))
       (tthen (enqueue_source_packet node (pkt_id packet)) (record_sourced (nd_id node) packet))"

definition cancel_superseded_timer :: "node_id \<Rightarrow> tcp_timer_state \<Rightarrow> unit handler" where
  "cancel_superseded_timer node timer = tmodify (\<lambda>s. s\<lparr>ts_superseded_timers := ts_superseded_timers s
     @ [\<lparr>st_target = node, st_payload = tt_attempt timer, st_deadline_ns = tt_deadline_ns timer\<rparr>]\<rparr>)"

subsection \<open>Routes\<close>

definition packet_route :: "packet_descriptor \<Rightarrow> flow_descriptor \<Rightarrow> link_id list" where
  "packet_route packet flow =
     (if is_data (pkt_kind packet) then flow_route flow else flow_reverse_route flow)"

definition packet_terminal :: "packet_descriptor \<Rightarrow> flow_descriptor \<Rightarrow> node_id" where
  "packet_terminal packet flow =
     (if is_data (pkt_kind packet) then flow_target flow else flow_source flow)"

fun route_egress :: "node_id \<Rightarrow> link_id list \<Rightarrow> link_id option handler" where
  "route_egress node [] = treturn None"
| "route_egress node (l # ls) = tbind (ts_link l) (\<lambda>link.
     if link_source link = node then treturn (Some (link_id link)) else route_egress node ls)"

definition packet_egress_at :: "packet_descriptor \<Rightarrow> node_id \<Rightarrow> link_id option handler" where
  "packet_egress_at packet node =
     tbind (ts_flow (pkt_flow packet)) (\<lambda>flow.
     tbind (route_egress node (packet_route packet flow)) (\<lambda>egress.
     if egress \<noteq> None then treturn egress
     else if packet_terminal packet flow = node then treturn None
     else tfail (FlowRouteMiss (flow_id_of flow) node)))"

text \<open>The node a route enters after a link: the source of the next link, or the packet's terminal.\<close>

fun route_incoming :: "node_id \<Rightarrow> node_id \<Rightarrow> link_id list \<Rightarrow> link_id option handler" where
  "route_incoming node terminal [] = treturn None"
| "route_incoming node terminal [l] = treturn (if terminal = node then Some l else None)"
| "route_incoming node terminal (l # next_link # ls) = tbind (ts_link next_link) (\<lambda>link.
     if link_source link = node then treturn (Some l)
     else route_incoming node terminal (next_link # ls))"

definition packet_incoming_link_at :: "packet_descriptor \<Rightarrow> node_id \<Rightarrow> link_id option handler" where
  "packet_incoming_link_at packet node =
     tbind (ts_flow (pkt_flow packet)) (\<lambda>flow.
     route_incoming node (packet_terminal packet flow) (packet_route packet flow))"

definition packet_remote_target_for :: "packet_descriptor \<Rightarrow> link_id \<Rightarrow> node_id handler" where
  "packet_remote_target_for packet egress =
     tbind (ts_flow (pkt_flow packet)) (\<lambda>flow.
     let route = packet_route packet flow in
     case position_of (\<lambda>link. link = egress) route of
       None \<Rightarrow> tbind (ts_link egress) (\<lambda>link. tfail (FlowRouteMiss (flow_id_of flow) (link_source link)))
     | Some index \<Rightarrow>
         if index + 1 < length route
         then tbind (ts_link (route ! (index + 1))) (\<lambda>link. treturn (link_source link))
         else treturn (packet_terminal packet flow))"

definition packet_remote_target :: "payload_id \<Rightarrow> link_id \<Rightarrow> node_id handler" where
  "packet_remote_target payload egress =
     tbind (ts_packet payload) (\<lambda>packet. packet_remote_target_for packet egress)"

definition packet_pfc_class :: "packet_descriptor \<Rightarrow> nat handler" where
  "packet_pfc_class packet = tbind (ts_flow (pkt_flow packet)) (\<lambda>flow.
     treturn (unat (packet_priority flow (pkt_kind packet))))"

fun add_link_delays :: "simulation_image \<Rightarrow> flow_id \<Rightarrow> u64 \<Rightarrow> link_id list \<Rightarrow> u64 \<Rightarrow> execution_error + u64" where
  "add_link_delays img flow bytes [] acc = Inr acc"
| "add_link_delays img flow bytes (l # ls) acc =
     and_then (ok_or (UnknownLink l) (indexed_lookup (img_links img) l (\<lambda>link. link_id link = l))) (\<lambda>link.
     and_then (case delay_ns link bytes of Inl _ \<Rightarrow> Inl (GeneratorTimeOverflow flow) | Inr d \<Rightarrow> Inr d) (\<lambda>delay.
     and_then (ok_or (GeneratorTimeOverflow flow) (checked_add acc delay)) (\<lambda>acc'.
     add_link_delays img flow bytes ls acc')))"

definition unloaded_round_trip_ns ::
  "simulation_image \<Rightarrow> flow_id \<Rightarrow> u64 \<Rightarrow> u64 \<Rightarrow> execution_error + u64" where
  "unloaded_round_trip_ns img flow data_bytes ack_bytes =
     and_then (ok_or (UnknownFlow flow) (indexed_lookup (img_flows img) flow (\<lambda>d. flow_id_of d = flow)))
     (\<lambda>descriptor.
     and_then (add_link_delays img flow data_bytes (flow_route descriptor) 0)
       (add_link_delays img flow ack_bytes (flow_reverse_route descriptor)))"

subsection \<open>Priority flow control\<close>

text \<open>
  A control frame is identified by the switch's next child number: the frame is the next child it
  emits.
\<close>

definition emit_pfc_frame :: "node_descriptor \<Rightarrow> event \<Rightarrow> pfc_frame_plan \<Rightarrow> unit handler" where
  "emit_pfc_frame origin parent plan =
     tbind (tgets ts_image) (\<lambda>img.
     if unat (fp_channel_index plan) < length (img_channels img) then
       let channel = img_channels img ! unat (fp_channel_index plan) in
       tbind (switch_state_of origin) (\<lambda>switch.
       tbind (tok_or (PayloadSequenceOverflow (nd_id origin))
                (from_node_sequence (nd_id origin) (node_count_of img) (ss_next_origin_seq switch)))
         (\<lambda>payload.
       tthen (insert_packet
                \<lparr>pkt_id = payload, pkt_flow = fp_flow plan, pkt_size_bytes = 64, pkt_ecn_marked = False,
                 pkt_kind = Pfc (fp_header plan)\<rparr>
                (Some (key_time_ns (ev_key parent))))
         (tbind (tok_or (TimeFailure ArrivalOverflow)
                   (checked_add (key_time_ns (ev_key parent)) (chan_min_delay_ns channel)))
           (\<lambda>arrival_time_ns. emit_from_switch origin parent
              \<lparr>ce_target = chan_target channel, ce_kind = RemoteArrival, ce_payload = payload,
               ce_time_ns = arrival_time_ns\<rparr>))))
     else tfail (UnknownLink (pfch_controlled_link (fp_header plan))))"

definition pfc_order :: "nat \<Rightarrow> nat \<Rightarrow> pfc_class_order option handler" where
  "pfc_order state_slot queue_slot = tbind (tgets ts_switch_pfc_orders) (\<lambda>orders.
     treturn (Option.bind orders (\<lambda>m. om_get m (state_slot, queue_slot))))"

text \<open>\<open>if let Some(order) = self.pfc_order_mut(..) { .. }\<close>\<close>

definition pfc_order_mut :: "nat \<Rightarrow> nat \<Rightarrow> (pfc_class_order \<Rightarrow> pfc_class_order) \<Rightarrow> unit handler" where
  "pfc_order_mut state_slot queue_slot f = tbind (pfc_order state_slot queue_slot) (\<lambda>order.
     tif_let order (\<lambda>order. tmodify (\<lambda>s. s\<lparr>ts_switch_pfc_orders :=
       map_option (om_insert (state_slot, queue_slot) (f order)) (ts_switch_pfc_orders s)\<rparr>)))"

fun pfc_order_of_queue :: "payload_id list \<Rightarrow> pfc_class_order \<Rightarrow> pfc_class_order handler" where
  "pfc_order_of_queue [] order = treturn order"
| "pfc_order_of_queue (payload # queue) order =
     tbind (ts_packet payload) (\<lambda>packet.
     tbind (packet_pfc_class packet) (\<lambda>cls.
     tthen (tindex (po_classes order) cls) (pfc_order_of_queue queue (pfc_order_push cls order))))"

definition ensure_pfc_order :: "nat \<Rightarrow> nat \<Rightarrow> unit handler" where
  "ensure_pfc_order state_slot queue_slot =
     tbind (tgets ts_switch_states) (\<lambda>switches.
     if state_slot < length switches \<and> queue_slot < length (ss_queues (switches ! state_slot)) then
       let queue = ss_queues (switches ! state_slot) ! queue_slot in
       tbind (pfc_order state_slot queue_slot) (\<lambda>known.
       if sq_pfc queue = None \<or> sq_scheduler queue \<noteq> Fifo \<or> known \<noteq> None then treturn ()
       else tbind (pfc_order_of_queue (sq_queue queue) pfc_order_new) (\<lambda>order.
         tmodify (\<lambda>s. s\<lparr>ts_switch_pfc_orders :=
           Some (om_insert (state_slot, queue_slot) order
                   (case ts_switch_pfc_orders s of None \<Rightarrow> [] | Some m \<Rightarrow> m))\<rparr>)))
     else treturn ())"

text \<open>\<open>is_paused(priority)\<close>, which panics on a priority out of range.\<close>

definition queue_paused_at :: "pfc_queue_state \<Rightarrow> nat \<Rightarrow> ('s, bool) trans" where
  "queue_paused_at pfc priority = tbind (tindex (pq_paused_by_controller pfc) priority)
     (\<lambda>controllers. treturn (controllers \<noteq> {}))"

definition host_paused_at :: "host_pfc_state \<Rightarrow> nat \<Rightarrow> ('s, bool) trans" where
  "host_paused_at pfc priority = tbind (tindex (hp_paused_by_controller pfc) priority)
     (\<lambda>controllers. treturn (controllers \<noteq> {}))"

fun pfc_first_eligible_by_search ::
  "pfc_queue_state \<Rightarrow> nat \<Rightarrow> payload_id list \<Rightarrow> (nat \<times> payload_id) option handler" where
  "pfc_first_eligible_by_search pfc position [] = treturn None"
| "pfc_first_eligible_by_search pfc position (payload # queue) =
     tbind (ts_packet payload) (\<lambda>packet.
     tbind (packet_pfc_class packet) (\<lambda>cls.
     tbind (queue_paused_at pfc cls) (\<lambda>paused.
     if \<not> paused then treturn (Some (position, payload))
     else pfc_first_eligible_by_search pfc (Suc position) queue)))"

text \<open>The number of entries read serves only the test probe and is left out.\<close>

definition pfc_first_eligible ::
  "node_descriptor \<Rightarrow> switch_queue_state \<Rightarrow> pfc_queue_state \<Rightarrow> pfc_class_order option \<Rightarrow>
     (nat \<times> payload_id) option handler" where
  "pfc_first_eligible node queue pfc order =
     (case sq_queue queue of
        [] \<Rightarrow> treturn None
      | head # _ \<Rightarrow>
          if \<not> pfc_any_paused pfc then treturn (Some (0, head))
          else case order of
            None \<Rightarrow> pfc_first_eligible_by_search pfc 0 (sq_queue queue)
          | Some order \<Rightarrow>
              (case first_unpaused_position pfc order of
                 None \<Rightarrow> treturn None
               | Some position \<Rightarrow>
                   if position < length (sq_queue queue)
                   then treturn (Some (position, sq_queue queue ! position))
                   else tfail (InvalidSchedulerState (nd_id node))))"

subsection \<open>Construction and result\<close>

fun new_packets ::
  "(packet_descriptor \<Rightarrow> bool) \<Rightarrow> packet_descriptor list \<Rightarrow> (payload_id, resident_packet) omap \<Rightarrow>
     execution_error + (payload_id, resident_packet) omap" where
  "new_packets keep [] packets = Inr packets"
| "new_packets keep (d # ds) packets =
     (if \<not> keep d then new_packets keep ds packets
      else if om_get packets (pkt_id d) \<noteq> None then Inl (DuplicatePayload (pkt_id d))
      else new_packets keep ds (om_insert (pkt_id d) (new_resident d None) packets))"

text \<open>The image's packets, without the segments of TCP flows that nothing in the image carries.\<close>

definition live_packet :: "payload_id set \<Rightarrow> packet_descriptor \<Rightarrow> bool" where
  "live_packet live d = (case pkt_kind d of TcpData _ \<Rightarrow> pkt_id d \<in> live | _ \<Rightarrow> True)"

fun count_in_service ::
  "node_id \<Rightarrow> payload_id list \<Rightarrow> (payload_id, resident_packet) omap \<Rightarrow>
     execution_error + (payload_id, resident_packet) omap" where
  "count_in_service node [] packets = Inr packets"
| "count_in_service node (payload # payloads) packets =
     and_then (ok_or (UnknownPacket payload) (om_get packets payload)) (\<lambda>r.
     and_then (ok_or (CounterOverflow node) (checked_add (res_transmitters r) 1)) (\<lambda>n.
     count_in_service node payloads (om_insert payload (r\<lparr>res_transmitters := n\<rparr>) packets)))"

definition option_list :: "'a option list \<Rightarrow> 'a list" where
  "option_list xs = map the (filter (\<lambda>x. x \<noteq> None) xs)"

fun switch_node_ids :: "node_descriptor list \<Rightarrow> node_id option list \<Rightarrow> node_id option list" where
  "switch_node_ids [] ids = ids"
| "switch_node_ids (node # nodes) ids =
     switch_node_ids nodes
       (if nd_kind node = Switch then ids[unat (nd_state_slot node) := Some (nd_id node)] else ids)"

fun queue_byte_sum ::
  "node_id \<Rightarrow> (payload_id, resident_packet) omap \<Rightarrow> payload_id list \<Rightarrow> u64 \<Rightarrow> execution_error + u64" where
  "queue_byte_sum node packets [] acc = Inr acc"
| "queue_byte_sum node packets (payload # queue) acc =
     and_then (ok_or (UnknownPacket payload) (om_get packets payload)) (\<lambda>r.
     and_then (ok_or (CounterOverflow node) (checked_add acc (pkt_size_bytes (res_descriptor r)))) (\<lambda>acc'.
     queue_byte_sum node packets queue acc'))"

fun collect_results :: "('e + 'a) list \<Rightarrow> 'e + 'a list" where
  "collect_results [] = Inr []"
| "collect_results (r # rs) = and_then r (\<lambda>x. and_then (collect_results rs) (\<lambda>xs. Inr (x # xs)))"

definition paused_fifo :: "switch_queue_state \<Rightarrow> bool" where
  "paused_fifo queue \<longleftrightarrow> sq_scheduler queue = Fifo
     \<and> (case sq_pfc queue of None \<Rightarrow> False | Some pfc \<Rightarrow> pfc_any_paused pfc)"

definition derive_switch_queue_bytes ::
  "node_id option list \<Rightarrow> switch_state list \<Rightarrow> (payload_id, resident_packet) omap \<Rightarrow>
     execution_error + u64 list list \<times> (nat \<times> nat) list" where
  "derive_switch_queue_bytes node_ids switches packets =
     and_then (collect_results (map (\<lambda>(slot, switch).
         and_then (ok_or (UnknownNode (of_nat slot)) (node_ids ! slot)) (\<lambda>node.
         collect_results (map (\<lambda>queue. queue_byte_sum node packets (sq_queue queue) 0) (ss_queues switch))))
       (enumerate 0 switches)))
     (\<lambda>bytes. Inr (bytes,
       concat (map (\<lambda>(slot, switch).
           map (\<lambda>(q, _). (slot, q)) (filter (\<lambda>(_, queue). paused_fifo queue) (enumerate 0 (ss_queues switch))))
         (enumerate 0 switches))))"

definition transition_state_of ::
  "simulation_image \<Rightarrow> host_state list \<Rightarrow> switch_state list \<Rightarrow> u64 list list \<Rightarrow> node_descriptor option \<Rightarrow>
     (payload_id, resident_packet) omap \<Rightarrow> tcp_segment_ledger \<Rightarrow> transition_state" where
  "transition_state_of img hosts switches bytes local_node packets segments =
     \<lparr>ts_image = img,
      ts_hosts = map (\<lambda>h. \<lparr>he_state = h, he_index = host_stage_index_build h (img_stage_joins img)\<rparr>) hosts,
      ts_switch_states = switches, ts_switch_queue_bytes = bytes, ts_switch_pfc_orders = None,
      ts_local_node = local_node, ts_packets = packets, ts_summary = run_summary_default,
      ts_tcp_sent_segments = segments, ts_superseded_timers = [], ts_children = []\<rparr>"

text \<open>The class orders of the queues that start with a class paused.\<close>

definition with_pfc_orders ::
  "(nat \<times> nat) list \<Rightarrow> transition_state \<Rightarrow> (execution_error + transition_state) option" where
  "with_pfc_orders paused s =
     map_option (map_sum id snd) (tfor paused (\<lambda>(slot, queue). ensure_pfc_order slot queue) s)"

definition ts_new :: "simulation_image \<Rightarrow> (execution_error + transition_state) option" where
  "ts_new img =
     (let switches = img_switch_states img;
          in_service = option_list (map hs_in_service (img_host_states img))
            @ concat (map (\<lambda>s. option_list (map sq_in_service (ss_queues s))) switches);
          prepared =
            and_then (from_conflict (seed_image img)) (\<lambda>segments.
            and_then (new_packets (live_packet (initial_live_payloads img)) (img_initial_packets img) [])
              (\<lambda>packets.
            and_then (count_in_service 0 in_service packets) (\<lambda>packets.
            and_then (derive_switch_queue_bytes
                (switch_node_ids (img_nodes img) (replicate (length switches) None)) switches packets)
              (\<lambda>(bytes, paused). Inr (paused,
                transition_state_of img (img_host_states img) switches bytes None packets segments)))))
      in case prepared of
           Inl e \<Rightarrow> Some (Inl e)
         | Inr (paused, s) \<Rightarrow> with_pfc_orders paused s)"

definition ts_new_local ::
  "simulation_image \<Rightarrow> node_descriptor \<Rightarrow> packet_descriptor list \<Rightarrow> packet_descriptor list \<Rightarrow>
     (execution_error + transition_state) option" where
  "ts_new_local img node packets segment_seeds =
     (let slot = unat (nd_state_slot node);
          prepared =
            and_then
              (case nd_kind node of
                 Host \<Rightarrow> if slot < length (img_host_states img) then Inr ([img_host_states img ! slot], [])
                         else Inl (invalid_slot node)
               | Switch \<Rightarrow> if slot < length (img_switch_states img) then Inr ([], [img_switch_states img ! slot])
                         else Inl (invalid_slot node)) (\<lambda>(hosts, switches).
            and_then (new_packets (\<lambda>_. True) packets []) (\<lambda>resident.
            and_then (from_conflict (seed_packets img segment_seeds)) (\<lambda>segments.
            and_then (count_in_service (nd_id node)
                (option_list (map hs_in_service hosts)
                 @ concat (map (\<lambda>s. option_list (map sq_in_service (ss_queues s))) switches)) resident)
              (\<lambda>resident.
            and_then (derive_switch_queue_bytes (map (\<lambda>_. Some (nd_id node)) switches) switches resident)
              (\<lambda>(bytes, paused). Inr (paused,
                transition_state_of img hosts switches bytes (Some node) resident segments))))))
      in case prepared of
           Inl e \<Rightarrow> Some (Inl e)
         | Inr (paused, s) \<Rightarrow> with_pfc_orders paused s)"

text \<open>The result of a run in summary observation: the fields that are not empty by construction.\<close>

record run_result =
  run_host_states :: "host_state list"
  run_switch_states :: "switch_state list"
  run_summary_of :: run_summary
  run_resident_packets :: "packet_descriptor list"
  run_pending_events :: "event list"

definition resumable_packets ::
  "(payload_id, resident_packet) omap \<Rightarrow> tcp_segment_ledger \<Rightarrow> packet_descriptor list" where
  "resumable_packets packets segments =
     om_values (fold (\<lambda>packet m. if om_get m (pkt_id packet) \<noteq> None then m else om_insert (pkt_id packet) packet m)
       (concat (map om_values (om_values segments)))
       (fold (\<lambda>r. om_insert (pkt_id (res_descriptor r)) (res_descriptor r)) (om_values packets) []))"

definition ts_finish :: "event list \<Rightarrow> transition_state \<Rightarrow> run_result" where
  "ts_finish pending_events s =
     \<lparr>run_host_states = map he_state (ts_hosts s), run_switch_states = ts_switch_states s,
      run_summary_of = ts_summary s,
      run_resident_packets = resumable_packets (ts_packets s) (ts_tcp_sent_segments s),
      run_pending_events = pending_events\<rparr>"

end
