(* ===== verification/Host_Service.thy ===== *)
theory Host_Service
  imports Transition_State
begin

section \<open>A host's egress\<close>

text \<open>
  The handlers of \<open>executor/src/scalar.rs\<close> that move packets through a host's egress queue: the
  arrival of a preloaded packet, the start and the completion of a transmission, and the choice of
  the first packet whose class host-link flow control does not pause.
\<close>

definition host_preloaded_packet_arrival :: "node_descriptor \<Rightarrow> event \<Rightarrow> unit handler" where
  "host_preloaded_packet_arrival node event =
     tbind (ts_packet (ev_payload event)) (\<lambda>packet.
     tthen (set_source_time (ev_payload event) (key_time_ns (ev_key event)))
     (tbind (host_state_mut node
         (tthen (tcounter hs_sourced_packets hs_sourced_packets_update 1 (CounterOverflow (nd_id node)))
            claim_ready)) (\<lambda>schedule_ready.
     tthen (enqueue_source_packet node (ev_payload event))
     (tthen (record_sourced (nd_id node) packet)
     (twhen schedule_ready (emit_host_ready node event (ev_payload event)))))))"

fun first_unpaused_of_queue :: "host_pfc_state \<Rightarrow> nat \<Rightarrow> payload_id list \<Rightarrow> nat option handler" where
  "first_unpaused_of_queue pfc position [] = treturn None"
| "first_unpaused_of_queue pfc position (payload # queue) =
     tbind (ts_packet payload) (\<lambda>packet.
     tbind (ts_flow (pkt_flow packet)) (\<lambda>flow.
     tbind (host_paused_at pfc (unat (packet_priority flow (pkt_kind packet)))) (\<lambda>paused.
     if \<not> paused then treturn (Some position)
     else first_unpaused_of_queue pfc (Suc position) queue)))"

definition host_pfc_first_eligible :: "node_descriptor \<Rightarrow> nat option handler" where
  "host_pfc_first_eligible node =
     tbind (host_state_of node) (\<lambda>state.
     case hs_pfc state of
       None \<Rightarrow> treturn (if hs_queue state \<noteq> [] then Some 0 else None)
     | Some pfc \<Rightarrow> first_unpaused_of_queue pfc 0 (hs_queue state))"

text \<open>\<open>VecDeque::remove\<close>: \<open>None\<close> out of range.\<close>

definition vec_remove :: "nat \<Rightarrow> 'a list \<Rightarrow> ('a \<times> 'a list) option" where
  "vec_remove i xs = (if i < length xs then Some (xs ! i, take i xs @ drop (Suc i) xs) else None)"

definition host_pfc_start_eligible :: "node_descriptor \<Rightarrow> (link_id \<times> payload_id) option handler" where
  "host_pfc_start_eligible node =
     tbind (host_pfc_first_eligible node) (\<lambda>eligible.
     case eligible of
       None \<Rightarrow> treturn None
     | Some position \<Rightarrow> host_state_mut node (tbind (tgets id) (\<lambda>state.
         tbind (tok_or (InvalidSchedulerState (nd_id node)) (vec_remove position (hs_queue state)))
         (\<lambda>(payload, rest).
         tthen (tmodify (\<lambda>h. h\<lparr>hs_queue := rest, hs_in_service := Some payload\<rparr>))
           (treturn (Some (hs_egress_link state, payload)))))))"

definition host_pfc_claim_ready :: "node_descriptor \<Rightarrow> bool handler" where
  "host_pfc_claim_ready node =
     tbind (host_pfc_first_eligible node) (\<lambda>eligible.
     host_state_mut node (tbind (tgets id) (\<lambda>state.
       if eligible \<noteq> None \<and> \<not> hs_tx_ready_pending state
       then tthen (tmodify (hs_tx_ready_pending_update (\<lambda>_. True))) (treturn True)
       else treturn False)))"

text \<open>The link and payload a \<open>TxReady\<close> starts; \<open>None\<close> when nothing can be sent.\<close>

definition host_select :: "node_descriptor \<Rightarrow> (link_id \<times> payload_id) option handler" where
  "host_select node =
     tbind (host_state_mut node (tthen (tmodify (hs_tx_ready_pending_update (\<lambda>_. False))) (tgets id)))
     (\<lambda>state.
     if hs_in_service state \<noteq> None then tfail (HostAlreadyTransmitting (nd_id node))
     else if hs_pfc state = None then
       (case hs_queue state of
          [] \<Rightarrow> treturn None
        | payload # queue \<Rightarrow>
            host_state_mut node
              (tthen (tmodify (\<lambda>h. h\<lparr>hs_queue := queue, hs_in_service := Some payload\<rparr>))
                 (treturn (Some (hs_egress_link state, payload)))))
     else host_pfc_start_eligible node)"

text \<open>
  The times of a transmission on a link that starts now: the arrival at the far end, and the
  departure, which is the arrival less the propagation.
\<close>

definition transmission_times :: "link_descriptor \<Rightarrow> u64 \<Rightarrow> u64 \<Rightarrow> (u64 \<times> u64) handler" where
  "transmission_times link start_ns size_bytes =
     tbind (tresult (from_time_error (arrival_time_ns link start_ns size_bytes))) (\<lambda>arrival_ns.
     tbind (tok_or (TimeFailure ArrivalOverflow) (checked_sub arrival_ns (link_propagation_ns link)))
       (\<lambda>departure_ns. treturn (departure_ns, arrival_ns)))"

definition host_tx_ready :: "node_descriptor \<Rightarrow> event \<Rightarrow> unit handler" where
  "host_tx_ready node event =
     tbind (host_select node) (\<lambda>selected.
     case selected of
       None \<Rightarrow> treturn ()
     | Some (egress_link, payload) \<Rightarrow>
         tbind (ts_link egress_link) (\<lambda>link.
         if link_source link \<noteq> nd_id node
         then tfail (LinkSourceMismatch (link_id link) (nd_id node) (link_source link))
         else
           tthen (start_transmission (nd_id node) payload)
           (tbind (packet_size payload) (\<lambda>size_bytes.
            tbind (transmission_times link (key_time_ns (ev_key event)) size_bytes)
              (\<lambda>(departure_time_ns, arrival_time_ns).
            tthen (emit_from_host node event
                     \<lparr>ce_target = nd_id node, ce_kind = TxComplete, ce_payload = payload,
                      ce_time_ns = departure_time_ns\<rparr>)
            (tbind (packet_remote_target payload (link_id link)) (\<lambda>target.
             emit_from_host node event
               \<lparr>ce_target = target, ce_kind = RemoteArrival, ce_payload = payload,
                ce_time_ns = arrival_time_ns\<rparr>)))))))"

definition host_tx_complete :: "node_descriptor \<Rightarrow> event \<Rightarrow> unit handler" where
  "host_tx_complete node event =
     tbind (host_state_mut node (tbind (tgets id) (\<lambda>state.
       if hs_in_service state \<noteq> Some (ev_payload event)
       then tfail (UnexpectedTxComplete (nd_id node) (hs_in_service state) (ev_payload event))
       else
         tthen (tmodify (hs_in_service_update (\<lambda>_. None)))
         (tthen (tcounter hs_departed_packets hs_departed_packets_update 1 (CounterOverflow (nd_id node)))
         (if hs_pfc state \<noteq> None then treturn None
          else if hs_queue state \<noteq> [] \<and> \<not> hs_tx_ready_pending state
          then tthen (tmodify (hs_tx_ready_pending_update (\<lambda>_. True))) (treturn (Some True))
          else treturn (Some False))))))
     (\<lambda>claimed.
     tbind (case claimed of Some ready \<Rightarrow> treturn ready | None \<Rightarrow> host_pfc_claim_ready node) (\<lambda>schedule_ready.
     tbind (ts_packet (ev_payload event)) (\<lambda>packet.
     tthen (record_departure (nd_id node) packet)
     (tthen (finish_transmission (nd_id node) (ev_payload event))
     (twhen schedule_ready (emit_host_ready node event (ev_payload event)))))))"

end
