(* ===== verification/Stage_Activation.thy ===== *)
theory Stage_Activation
  imports Host_Service
begin

section \<open>TCP sends and the activation of stages\<close>

text \<open>
  The part of \<open>executor/src/scalar.rs\<close> that sends TCP segments (\<open>prepare_tcp_attempts\<close>,
  \<open>install_tcp_attempts\<close>) and that releases dependency-gated stages: \<open>activate_ready_collectives\<close>
  takes the stages that became ready, in table order, each with the cause that released it, and
  starts the stage's transport; compute intervals and stage notifications are timers.

  \<open>push_stage_progress\<close> records nothing in summary observation and is left out.
\<close>

subsection \<open>Filling a TCP window\<close>

definition tcp_segment :: "payload_id \<Rightarrow> flow_id \<Rightarrow> u64 \<Rightarrow> u64 \<Rightarrow> u64 \<Rightarrow> bool \<Rightarrow> packet_descriptor" where
  "tcp_segment payload flow size_bytes sequence now_ns retransmission =
     \<lparr>pkt_id = payload, pkt_flow = flow, pkt_size_bytes = size_bytes, pkt_ecn_marked = False,
      pkt_kind = TcpData \<lparr>tdh_sequence = sequence, tdh_sent_time_ns = now_ns,
                          tdh_retransmission = retransmission\<rparr>\<rparr>"

text \<open>
  The loop variables: the host's payload sequence, the generator, its TCP state and the packets sent.
\<close>

type_synonym tcp_fill = "u64 \<times> flow_generator_state \<times> tcp_generator \<times> packet_descriptor list"

text \<open>The size of the next segment the window allows; 0 ends the loop.\<close>

definition fill_size :: "tcp_generator \<Rightarrow> u64" where
  "fill_size tcp =
     (let allowance = saturating_sub (tcp_cwnd_bytes (tg_control tcp) (tg_mss_bytes tcp))
                        (tg_bytes_in_flight tcp)
      in if allowance = 0 \<or> tg_next_sequence tcp \<ge> tg_total_bytes tcp then 0
         else min (min (tg_mss_bytes tcp) (tg_total_bytes tcp - tg_next_sequence tcp)) allowance)"

definition fill_one :: "node_id \<Rightarrow> u64 \<Rightarrow> flow_id \<Rightarrow> u64 \<Rightarrow> tcp_fill \<Rightarrow> execution_error + tcp_fill option" where
  "fill_one node node_count flow now_ns st =
     (case st of (seq, generator, tcp, packets) \<Rightarrow>
      let size_bytes = fill_size tcp in
      if size_bytes = 0 then Inr None
      else
        and_then (ok_or (PayloadSequenceOverflow node) (allocate_payload_id node node_count seq)) (\<lambda>payload.
        and_then (ok_or (PayloadSequenceOverflow node) (checked_add seq 1)) (\<lambda>seq'.
        and_then (ok_or (CounterOverflow node) (checked_add (tg_next_sequence tcp) size_bytes)) (\<lambda>next_sequence.
        and_then (ok_or (CounterOverflow node) (checked_add (tg_bytes_in_flight tcp) size_bytes)) (\<lambda>in_flight.
        and_then (ok_or (CounterOverflow node) (checked_add (fg_packets_emitted generator) 1)) (\<lambda>emitted.
        and_then (ok_or (CounterOverflow node) (checked_add (fg_bytes_emitted generator) size_bytes)) (\<lambda>bytes.
        Inr (Some (seq',
          generator\<lparr>fg_packets_emitted := emitted, fg_bytes_emitted := bytes\<rparr>,
          tcp\<lparr>tg_next_sequence := next_sequence, tg_bytes_in_flight := in_flight, tg_last_attempt := payload\<rparr>,
          packets @ [tcp_segment payload flow size_bytes (tg_next_sequence tcp) now_ns False])))))))))"

lemma fill_size_pos:
  assumes "fill_size tcp \<noteq> 0"
  shows "unat (fill_size tcp) \<le> unat (tg_total_bytes tcp) - unat (tg_next_sequence tcp)"
    and "unat (tg_next_sequence tcp) < unat (tg_total_bytes tcp)"
    and "unat (fill_size tcp) \<le> unat (tg_mss_bytes tcp)"
    and "unat (tg_bytes_in_flight tcp) + unat (fill_size tcp)
      \<le> unat (tcp_cwnd_bytes (tg_control tcp) (tg_mss_bytes tcp))"
    and "0 < unat (fill_size tcp)"
proof -
  define cwnd where "cwnd = tcp_cwnd_bytes (tg_control tcp) (tg_mss_bytes tcp)"
  define rest where "rest = tg_total_bytes tcp - tg_next_sequence tcp"
  have lt: "tg_next_sequence tcp < tg_total_bytes tcp"
    and al: "saturating_sub cwnd (tg_bytes_in_flight tcp) \<noteq> 0"
    and sz: "fill_size tcp = min (min (tg_mss_bytes tcp) rest) (saturating_sub cwnd (tg_bytes_in_flight tcp))"
    using assms by (auto simp: fill_size_def Let_def cwnd_def rest_def not_le split: if_splits)
  have fl: "tg_bytes_in_flight tcp \<le> cwnd" "saturating_sub cwnd (tg_bytes_in_flight tcp) = cwnd - tg_bytes_in_flight tcp"
    using al by (auto simp: saturating_sub_def split: if_splits)
  have r: "unat rest = unat (tg_total_bytes tcp) - unat (tg_next_sequence tcp)"
    using lt by (simp add: rest_def unat_sub_exact)
  have c: "unat (cwnd - tg_bytes_in_flight tcp) = unat cwnd - unat (tg_bytes_in_flight tcp)"
    using fl(1) by (simp add: unat_sub_exact)
  have le: "fill_size tcp \<le> rest" "fill_size tcp \<le> tg_mss_bytes tcp" "fill_size tcp \<le> cwnd - tg_bytes_in_flight tcp"
    unfolding sz fl(2) by (simp_all add: min_le_iff_disj)
  show "unat (fill_size tcp) \<le> unat (tg_total_bytes tcp) - unat (tg_next_sequence tcp)"
    using le(1) r by (simp add: word_le_nat_alt)
  show "unat (tg_next_sequence tcp) < unat (tg_total_bytes tcp)" using lt by (simp add: word_less_nat_alt)
  show "unat (fill_size tcp) \<le> unat (tg_mss_bytes tcp)" using le(2) by (simp add: word_le_nat_alt)
  show "unat (tg_bytes_in_flight tcp) + unat (fill_size tcp)
      \<le> unat (tcp_cwnd_bytes (tg_control tcp) (tg_mss_bytes tcp))"
    using le(3) c fl(1) unfolding cwnd_def [symmetric] by (simp add: word_le_nat_alt)
  show "0 < unat (fill_size tcp)" using assms by (simp add: unat_gt_0)
qed

lemma fill_one_Some:
  assumes "fill_one node node_count flow now_ns (seq, g, tcp, ps) = Inr (Some (seq', g', tcp', ps'))"
  shows "fill_size tcp \<noteq> 0"
    and "\<exists>next_sequence in_flight payload. checked_add (tg_next_sequence tcp) (fill_size tcp) = Some next_sequence
      \<and> checked_add (tg_bytes_in_flight tcp) (fill_size tcp) = Some in_flight
      \<and> tcp' = tcp\<lparr>tg_next_sequence := next_sequence, tg_bytes_in_flight := in_flight, tg_last_attempt := payload\<rparr>
      \<and> ps' = ps @ [tcp_segment payload flow (fill_size tcp) (tg_next_sequence tcp) now_ns False]
      \<and> allocate_payload_id node node_count seq = Some payload \<and> checked_add seq 1 = Some seq'"
    and "\<exists>emitted bytes. g' = g\<lparr>fg_packets_emitted := emitted, fg_bytes_emitted := bytes\<rparr>"
  using assms
  by (auto simp: fill_one_def Let_def result_simps split: if_splits)

function fill_window :: "node_id \<Rightarrow> u64 \<Rightarrow> flow_id \<Rightarrow> u64 \<Rightarrow> tcp_fill \<Rightarrow> execution_error + tcp_fill" where
  "fill_window node node_count flow now_ns st =
     (case fill_one node node_count flow now_ns st of
        Inl e \<Rightarrow> Inl e
      | Inr None \<Rightarrow> Inr st
      | Inr (Some st') \<Rightarrow> fill_window node node_count flow now_ns st')"
  by pat_completeness auto

termination
proof (relation "measure (\<lambda>(_, _, _, _, _, _, tcp, _). unat (tg_total_bytes tcp) - unat (tg_next_sequence tcp))")
  show "((node, node_count, flow, now_ns, st'), (node, node_count, flow, now_ns, st))
    \<in> measure (\<lambda>(_, _, _, _, _, _, tcp, _). unat (tg_total_bytes tcp) - unat (tg_next_sequence tcp))"
    if "fill_one node node_count flow now_ns st = Inr z" "z = Some st'"
    for node node_count flow now_ns st z st'
  proof -
    obtain seq g tcp ps seq' g' tcp' ps' where st: "st = (seq, g, tcp, ps)" "st' = (seq', g', tcp', ps')"
      by (metis prod_cases4)
    have f: "fill_one node node_count flow now_ns (seq, g, tcp, ps) = Inr (Some (seq', g', tcp', ps'))"
      using that st by simp
    show ?thesis
      using fill_one_Some [OF f] fill_size_pos [OF fill_one_Some(1) [OF f]]
      by (auto simp: st checked_iffs)
  qed
qed simp

declare fill_window.simps [simp del]

subsection \<open>TCP attempts\<close>

text \<open>The retransmission timer of a sender with bytes in flight and no timer armed.\<close>

definition arm_tcp_timer ::
  "node_id \<Rightarrow> flow_id \<Rightarrow> u64 \<Rightarrow> bool \<Rightarrow> tcp_generator \<Rightarrow>
     execution_error + tcp_timer_state option \<times> tcp_generator" where
  "arm_tcp_timer node flow now_ns preserve_scheduled_send tcp =
     (if \<not> preserve_scheduled_send \<and> tg_active_timer tcp = None \<and> tg_bytes_in_flight tcp \<noteq> 0 then
        and_then (ok_or (CounterOverflow node) (checked_add (tg_timer_generation tcp) 1)) (\<lambda>generation.
        and_then (ok_or (GeneratorTimeOverflow flow) (checked_add now_ns (tg_rto_ns tcp))) (\<lambda>deadline_ns.
        let timer = \<lparr>tt_attempt = tg_last_attempt tcp, tt_sequence = tg_highest_ack tcp,
                     tt_deadline_ns = deadline_ns, tt_generation = generation, tt_rto_ns = tg_rto_ns tcp\<rparr>
        in Inr (Some timer, tcp\<lparr>tg_timer_generation := generation, tg_active_timer := Some timer\<rparr>)))
      else Inr (None, tcp))"

definition retransmit_one ::
  "node_id \<Rightarrow> u64 \<Rightarrow> flow_id \<Rightarrow> u64 \<Rightarrow> (u64 \<times> u64) option \<Rightarrow> tcp_generator \<Rightarrow>
     (host_state, tcp_generator \<times> packet_descriptor list) trans" where
  "retransmit_one node node_count flow now_ns segment tcp =
     (case segment of
        None \<Rightarrow> treturn (tcp, [])
      | Some (sequence, size_bytes) \<Rightarrow>
          if sequence < tg_total_bytes tcp then
            tbind (next_payload node node_count) (\<lambda>payload.
            treturn (tcp\<lparr>tg_last_attempt := payload\<rparr>,
                     [tcp_segment payload flow size_bytes sequence now_ns True]))
          else treturn (tcp, []))"

text \<open>The generator as the attempts leave it.\<close>

definition settle_tcp_sender :: "bool \<Rightarrow> tcp_generator \<Rightarrow> flow_generator_state \<Rightarrow> flow_generator_state" where
  "settle_tcp_sender preserve_scheduled_send tcp g =
     g\<lparr>fg_feedback := (fg_feedback g)\<lparr>gf_outstanding_bytes := tg_bytes_in_flight tcp,
                                     gf_unacknowledged_bytes := tg_bytes_in_flight tcp\<rparr>,
       fg_next_emission := (if preserve_scheduled_send then fg_next_emission g
         else (fg_next_emission g)\<lparr>se_status := (if tg_highest_ack tcp \<ge> tg_total_bytes tcp
                                                then Finished else Blocked)\<rparr>),
       fg_kind := GenTcp tcp\<rparr>"

definition prepare_on_host ::
  "node_id \<Rightarrow> u64 \<Rightarrow> flow_id \<Rightarrow> u64 \<Rightarrow> (u64 \<times> u64) option \<Rightarrow> bool \<Rightarrow> bool \<Rightarrow> nat \<Rightarrow>
     (host_state, tcp_send_plan) trans" where
  "prepare_on_host node node_count flow now_ns segment fill preserve_scheduled_send position =
     tbind (with_generator position (tgets id)) (\<lambda>generator.
     case fg_kind generator of
       GenTcp tcp0 \<Rightarrow>
         tbind (retransmit_one node node_count flow now_ns segment tcp0) (\<lambda>(tcp1, packets1).
         tbind (tgets hs_next_payload_seq) (\<lambda>seq.
         tbind (tresult (if fill then fill_window node node_count flow now_ns (seq, generator, tcp1, packets1)
                         else Inr (seq, generator, tcp1, packets1))) (\<lambda>(seq', generator', tcp2, packets).
         tthen (tmodify (hs_next_payload_seq_update (\<lambda>_. seq')))
         (tbind (tresult (arm_tcp_timer node flow now_ns preserve_scheduled_send tcp2)) (\<lambda>(timer, tcp).
         tthen (with_generator position
                  (tmodify (\<lambda>g. settle_tcp_sender preserve_scheduled_send tcp
                     (g\<lparr>fg_packets_emitted := fg_packets_emitted generator',
                        fg_bytes_emitted := fg_bytes_emitted generator'\<rparr>))))
         (tthen (tcounter hs_sourced_packets hs_sourced_packets_update (u64_of_len (length packets))
                   (CounterOverflow node))
         (treturn \<lparr>sp_packets = packets, sp_timer = timer\<rparr>)))))))
     | _ \<Rightarrow> tfail (UnknownGenerator node flow))"

definition update_ledger ::
  "(tcp_segment_ledger \<Rightarrow> execution_error + tcp_segment_ledger) \<Rightarrow> unit handler" where
  "update_ledger f = tbind (tgets ts_tcp_sent_segments) (\<lambda>segments.
     tbind (tresult (f segments)) (\<lambda>segments'. tmodify (\<lambda>s. s\<lparr>ts_tcp_sent_segments := segments'\<rparr>)))"

definition prepare_tcp_attempts ::
  "node_descriptor \<Rightarrow> flow_id \<Rightarrow> u64 \<Rightarrow> u64 option \<Rightarrow> bool \<Rightarrow> bool \<Rightarrow> tcp_send_plan handler" where
  "prepare_tcp_attempts node flow now_ns retransmit_sequence fill preserve_scheduled_send =
     tbind (tgets ts_image) (\<lambda>img.
     tbind (tgets ts_tcp_sent_segments) (\<lambda>segments.
     tbind (case retransmit_sequence of
              None \<Rightarrow> treturn None
            | Some sequence \<Rightarrow>
                tbind (tok_or (MissingTcpSegment flow sequence)
                         (Option.bind (om_get segments flow) (\<lambda>m. om_get m sequence)))
                  (\<lambda>packet. treturn (Some (sequence, pkt_size_bytes packet)))) (\<lambda>segment.
     tbind (host_parts_mut node
         (tbind (generator_position flow (UnknownGenerator (nd_id node) flow)) (\<lambda>position.
          on_state (prepare_on_host (nd_id node) (node_count_of img) flow now_ns segment fill
            preserve_scheduled_send position)))) (\<lambda>plan.
     tthen (tfor (sp_packets plan) (\<lambda>packet. update_ledger (seed_tcp_segment packet)))
       (treturn plan)))))"

text \<open>A queued packet, if the egress is idle and no \<open>TxReady\<close> is pending, which it then claims.\<close>

definition claim_front :: "(host_state, payload_id option) trans" where
  "claim_front = tbind (tgets id) (\<lambda>h.
     if hs_in_service h = None \<and> \<not> hs_tx_ready_pending h then
       (case hs_queue h of
          [] \<Rightarrow> treturn None
        | payload # _ \<Rightarrow> tthen (tmodify (hs_tx_ready_pending_update (\<lambda>_. True))) (treturn (Some payload)))
     else treturn None)"

definition install_tcp_attempts :: "node_descriptor \<Rightarrow> event \<Rightarrow> tcp_send_plan \<Rightarrow> unit handler" where
  "install_tcp_attempts node parent plan =
     tthen (tfor (sp_packets plan) (source_new_packet node (key_time_ns (ev_key parent))))
     (tbind (host_state_mut node claim_front) (\<lambda>ready_payload.
     tthen (tif_let (sp_timer plan) (\<lambda>timer. emit_from_host node parent
              \<lparr>ce_target = nd_id node, ce_kind = RetransmissionTimeout, ce_payload = tt_attempt timer,
               ce_time_ns = tt_deadline_ns timer\<rparr>))
       (tif_let ready_payload (emit_host_ready node parent))))"

subsection \<open>Starting a released stage\<close>

definition start_roce_stage :: "node_descriptor \<Rightarrow> event \<Rightarrow> flow_id \<Rightarrow> unit handler" where
  "start_roce_stage node parent flow =
     tbind (host_parts_mut node
         (tbind (generator_position flow (UnknownGenerator (nd_id node) flow)) (\<lambda>position.
          on_state (with_generator position (tbind (tgets id) (\<lambda>generator.
            case fg_kind generator of
              GenRoce roce0 \<Rightarrow>
                let now = key_time_ns (ev_key parent);
                    roce = roce0\<lparr>rq_pacer := (rq_pacer roce0)\<lparr>rp_first_pacing_time_ns := now\<rparr>,
                                 rq_pacer_armed := True\<rparr>
                in tthen (tmodify (\<lambda>g. g\<lparr>fg_next_emission :=
                       \<lparr>se_status = armed_status roce, se_departure_time_ns = now,
                        se_payload = rq_pacing_timer_payload roce\<rparr>,
                       fg_kind := GenRoce roce\<rparr>))
                     (treturn (rq_pacing_timer_payload roce))
            | _ \<Rightarrow> tfail (UnexpectedGeneratorEmission (nd_id node) flow (ev_payload parent)))))))) (\<lambda>token.
     emit_from_host node parent
       \<lparr>ce_target = nd_id node, ce_kind = PacingTimer, ce_payload = token,
        ce_time_ns = key_time_ns (ev_key parent)\<rparr>)"

definition start_compute_stage ::
  "node_descriptor \<Rightarrow> event \<Rightarrow> flow_id \<Rightarrow> u64 \<Rightarrow> u64 \<times> packet_kind \<Rightarrow> unit handler" where
  "start_compute_stage node parent flow duration_ns token =
     tbind (tgets ts_image) (\<lambda>img.
     tbind (tok_or (GeneratorTimeOverflow flow) (checked_add (key_time_ns (ev_key parent)) duration_ns))
       (\<lambda>deadline_ns.
     tbind (host_parts_mut node
         (tbind (if deadline_ns \<le> img_stop_time_ns img
                 then tbind (on_state (next_payload (nd_id node) (node_count_of img))) (\<lambda>p. treturn (Some p))
                 else treturn None) (\<lambda>payload.
          tbind (generator_position flow (UnknownGenerator (nd_id node) flow)) (\<lambda>position.
          tthen (on_state (with_generator position (tmodify (\<lambda>g. g\<lparr>fg_next_emission :=
                   \<lparr>se_status = (if payload \<noteq> None then Scheduled else Stopped),
                    se_departure_time_ns = deadline_ns,
                    se_payload = (case payload of None \<Rightarrow> 0 | Some p \<Rightarrow> p)\<rparr>\<rparr>))))
            (treturn payload))))) (\<lambda>payload.
     tif_let payload (\<lambda>payload.
       tthen (insert_packet \<lparr>pkt_id = payload, pkt_flow = flow, pkt_size_bytes = fst token,
                             pkt_ecn_marked = False, pkt_kind = snd token\<rparr>
                (Some (key_time_ns (ev_key parent))))
         (emit_from_host node parent
            \<lparr>ce_target = nd_id node, ce_kind = PacingTimer, ce_payload = payload,
             ce_time_ns = deadline_ns\<rparr>)))))"

definition compute_duration :: "collective_stage option \<Rightarrow> u64 option" where
  "compute_duration stage = (case stage of
     None \<Rightarrow> None
   | Some s \<Rightarrow> (case stg_role s of Compute compute \<Rightarrow> Some (cs_duration_ns compute) | Collective _ \<Rightarrow> None))"

definition activate_wrapped_stage :: "node_descriptor \<Rightarrow> event \<Rightarrow> flow_id \<Rightarrow> unit handler" where
  "activate_wrapped_stage node parent flow =
     tbind (host_parts_mut node
         (tbind (generator_position flow (UnknownGenerator (nd_id node) flow)) (\<lambda>position.
          on_state (tbind (with_generator position (tgets id)) (\<lambda>generator.
            tgets (\<lambda>h. (fg_kind generator, compute_duration (host_stage h position))))))))
     (\<lambda>(kind, duration).
     case kind of
       GenConstant constant \<Rightarrow>
         (case duration of
            Some duration_ns \<Rightarrow> start_compute_stage node parent flow duration_ns (0, Data)
          | None \<Rightarrow> start_compute_stage node parent flow (cg_interval_ns constant)
                      (cg_packet_size_bytes constant, StageNotify))
     | GenRoce _ \<Rightarrow> start_roce_stage node parent flow
     | GenTcp _ \<Rightarrow>
         tbind (prepare_tcp_attempts node flow (key_time_ns (ev_key parent)) None True False) (\<lambda>plan.
         install_tcp_attempts node parent plan)
     | _ \<Rightarrow> tfail (UnexpectedGeneratorEmission (nd_id node) flow (ev_payload parent)))"

subsection \<open>Releasing the stages that are ready\<close>

text \<open>The first ready stage, marked activated, by its flow.  A position out of range of a table panics.\<close>

definition release_first_ready :: "(host_entry, flow_id option) trans" where
  "release_first_ready = tbind (tgets id) (\<lambda>e.
     let h = he_state e in
     case first_ready (he_index e) (hs_generators h) of
       None \<Rightarrow> treturn None
     | Some position \<Rightarrow>
         tbind (texpect (host_stage h position)) (\<lambda>stage.
         tthen (tmodify (\<lambda>e. case release_stage position stage (hs_stages (he_state e), he_index e) of
                  (stages, index) \<Rightarrow> e\<lparr>he_state := (he_state e)\<lparr>hs_stages := stages\<rparr>, he_index := index\<rparr>))
         (tbind (tindex (hs_generators h) position) (\<lambda>generator. treturn (Some (fg_flow generator))))))"

text \<open>
  The loop of \<open>activate_ready_collectives\<close>.  Every turn takes a cause, so it ends when the causes do.
\<close>

function activate_loop ::
  "node_descriptor \<Rightarrow> event \<Rightarrow> pending_causes \<Rightarrow> u64 \<Rightarrow> transition_state \<Rightarrow>
     (execution_error + (pending_causes \<times> u64) \<times> transition_state) option" where
  "activate_loop node parent causes ordinal s =
     (case host_parts_mut node release_first_ready s of
        None \<Rightarrow> None
      | Some (Inl e) \<Rightarrow> Some (Inl e)
      | Some (Inr (None, s')) \<Rightarrow> Some (Inr ((causes, ordinal), s'))
      | Some (Inr (Some flow, s')) \<Rightarrow>
          (case causes_take flow causes of
             (None, _) \<Rightarrow> Some (Inl (UnexpectedGeneratorEmission (nd_id node) flow (ev_payload parent)))
           | (Some cause, causes') \<Rightarrow>
               (case tthen (activate_wrapped_stage node parent flow)
                       (tok_or (CounterOverflow (nd_id node)) (checked_add ordinal 1)) s' of
                  None \<Rightarrow> None
                | Some (Inl e) \<Rightarrow> Some (Inl e)
                | Some (Inr (ordinal', s'')) \<Rightarrow> activate_loop node parent causes' ordinal' s'')))"
  by pat_completeness auto

termination
  by (relation "measure (\<lambda>(_, _, causes, _, _). length (into_remaining causes))")
    (simp_all, metis causes_take_decreases)

declare activate_loop.simps [simp del]

text \<open>The causes that released nothing are numbered after the releases.\<close>

fun number_remaining :: "node_id \<Rightarrow> pending_progress list \<Rightarrow> u64 \<Rightarrow> ('s, unit) trans" where
  "number_remaining node [] ordinal = treturn ()"
| "number_remaining node (cause # causes) ordinal =
     tbind (tok_or (CounterOverflow node) (checked_add ordinal 1)) (number_remaining node causes)"

definition activate_ready_collectives :: "node_descriptor \<Rightarrow> event \<Rightarrow> pending_causes \<Rightarrow> unit handler" where
  "activate_ready_collectives node parent causes =
     tbind (activate_loop node parent causes 0) (\<lambda>(causes', ordinal).
     number_remaining (nd_id node) (into_remaining causes') ordinal)"

text \<open>\<open>if !causes.is_empty() { .. }\<close>\<close>

definition activate_causes :: "node_descriptor \<Rightarrow> event \<Rightarrow> pending_causes \<Rightarrow> unit handler" where
  "activate_causes node parent causes =
     twhen (\<not> causes_is_empty causes) (activate_ready_collectives node parent causes)"

subsection \<open>Writing dependencies\<close>

definition complete_successors ::
  "flow_id \<Rightarrow> completion_signal \<Rightarrow> (host_entry, pending_causes) trans" where
  "complete_successors flow completion = tbind (tgets id) (\<lambda>e.
     case complete_local_successors (hs_generators (he_state e)) flow completion
            (hs_stages (he_state e), he_index e, causes_default) of
       (stages, index, causes) \<Rightarrow>
         tthen (tmodify (\<lambda>e. e\<lparr>he_state := (he_state e)\<lparr>hs_stages := stages\<rparr>, he_index := index\<rparr>))
           (treturn causes))"

definition inbound_progress_of ::
  "flow_id \<Rightarrow> inbound_progress \<Rightarrow> node_id \<Rightarrow> (host_entry, pending_causes) trans" where
  "inbound_progress_of flow progress node = tbind (tgets id) (\<lambda>e.
     tbind (tresult (record_inbound_progress (hs_generators (he_state e)) flow progress node
              (hs_stages (he_state e), he_index e, causes_default))) (\<lambda>(stages, index, causes).
     tthen (tmodify (\<lambda>e. e\<lparr>he_state := (he_state e)\<lparr>hs_stages := stages\<rparr>, he_index := index\<rparr>))
       (treturn causes)))"

text \<open>The emission an event must match: scheduled, for this payload and this time.\<close>

definition emission_due :: "event \<Rightarrow> flow_generator_state \<Rightarrow> bool" where
  "emission_due event g \<longleftrightarrow> se_status (fg_next_emission g) = Scheduled
     \<and> se_payload (fg_next_emission g) = ev_payload event
     \<and> se_departure_time_ns (fg_next_emission g) = key_time_ns (ev_key event)"

definition set_status :: "generator_status \<Rightarrow> flow_generator_state \<Rightarrow> flow_generator_state" where
  "set_status status g = g\<lparr>fg_next_emission := (fg_next_emission g)\<lparr>se_status := status\<rparr>\<rparr>"

definition host_compute_timer :: "node_descriptor \<Rightarrow> event \<Rightarrow> flow_id \<Rightarrow> unit handler" where
  "host_compute_timer node event flow =
     (let unexpected = UnexpectedGeneratorEmission (nd_id node) flow (ev_payload event) in
     tbind (host_parts_mut node
         (tbind (generator_position flow (UnknownGenerator (nd_id node) flow)) (\<lambda>position.
          tbind (on_state (tgets (\<lambda>h. compute_duration (host_stage h position)))) (\<lambda>duration.
          tthen (on_state (with_generator position (tbind (tgets id) (\<lambda>g.
                   if emission_due event g then tmodify (set_status Finished) else tfail unexpected))))
          (tbind (tok_or unexpected duration) (\<lambda>duration_ns.
           complete_successors flow
             \<lparr>cmp_ack_number = 0, cmp_origin_ns = key_time_ns (ev_key event) - duration_ns,
              cmp_delay_ns = duration_ns\<rparr>)))))) (\<lambda>causes.
     tthen (mark_terminal (ev_payload event)) (activate_causes node event causes)))"

definition host_notify_timer :: "node_descriptor \<Rightarrow> event \<Rightarrow> flow_id \<Rightarrow> unit handler" where
  "host_notify_timer node event flow =
     (let unexpected = UnexpectedGeneratorEmission (nd_id node) flow (ev_payload event) in
     tbind (host_parts_mut node
         (tbind (generator_position flow (UnknownGenerator (nd_id node) flow)) (\<lambda>position.
          tbind (on_state (with_generator position (tbind (tgets id) (\<lambda>g.
            case fg_kind g of
              GenConstant constant \<Rightarrow>
                if emission_due event g then
                  tthen (tmodify (\<lambda>g. (set_status Finished g)\<lparr>fg_packets_emitted := 1,
                           fg_bytes_emitted := cg_packet_size_bytes constant\<rparr>))
                    (treturn constant)
                else tfail unexpected
            | _ \<Rightarrow> tfail unexpected)))) (\<lambda>constant.
          tbind (complete_successors flow
             \<lparr>cmp_ack_number = 0, cmp_origin_ns = key_time_ns (ev_key event) - cg_interval_ns constant,
              cmp_delay_ns = cg_interval_ns constant\<rparr>) (\<lambda>causes.
          treturn (causes, cg_first_departure_ns constant)))))) (\<lambda>(causes, lane_ns).
     tbind (ts_flow flow) (\<lambda>descriptor.
     tbind (tok_or (TimeFailure ArrivalOverflow) (checked_add (key_time_ns (ev_key event)) lane_ns)) (\<lambda>arrival_ns.
     tthen (emit_from_host node event
              \<lparr>ce_target = flow_target descriptor, ce_kind = RemoteArrival, ce_payload = ev_payload event,
               ce_time_ns = arrival_ns\<rparr>)
       (activate_causes node event causes)))))"

definition host_notify_arrival :: "node_descriptor \<Rightarrow> event \<Rightarrow> packet_descriptor \<Rightarrow> unit handler" where
  "host_notify_arrival node event packet =
     tbind (host_parts_mut node (inbound_progress_of (pkt_flow packet)
         \<lparr>ib_sequence = 0, ib_bytes = pkt_size_bytes packet, ib_advance = pkt_size_bytes packet\<rparr> (nd_id node)))
     (\<lambda>causes.
     tthen (mark_terminal (ev_payload event)) (activate_causes node event causes))"

end
