(* ===== verification/Tcp_Handlers.thy ===== *)
theory Tcp_Handlers
  imports Stage_Activation
begin

section \<open>TCP endpoints\<close>

text \<open>
  The TCP handlers of \<open>executor/src/scalar.rs\<close>: the first scheduled send, the arrival of data at a
  receiver, of an acknowledgment at a sender, and a retransmission timeout.
\<close>

definition apply_generator_feedback ::
  "node_id \<Rightarrow> (flow_generator_state, generator_feedback_action) trans" where
  "apply_generator_feedback node =
     tthen (tcounter (\<lambda>g. gf_arrivals (fg_feedback g))
              (\<lambda>f g. g\<lparr>fg_feedback := gf_arrivals_update f (fg_feedback g)\<rparr>) 1 (CounterOverflow node))
       (treturn NoFeedbackAction)"

definition tcp_initial_valid :: "event \<Rightarrow> packet_descriptor \<Rightarrow> tcp_data_header \<Rightarrow> flow_generator_state \<Rightarrow> tcp_generator \<Rightarrow> bool" where
  "tcp_initial_valid event packet header g tcp \<longleftrightarrow>
     se_status (fg_next_emission g) = Scheduled
     \<and> se_payload (fg_next_emission g) = pkt_id packet
     \<and> se_departure_time_ns (fg_next_emission g) = key_time_ns (ev_key event)
     \<and> tdh_sequence header = tg_next_sequence tcp
     \<and> tdh_sent_time_ns header = key_time_ns (ev_key event)
     \<and> \<not> tdh_retransmission header"

definition tcp_initial_on_generator ::
  "node_id \<Rightarrow> event \<Rightarrow> packet_descriptor \<Rightarrow> tcp_data_header \<Rightarrow> (flow_generator_state, unit) trans" where
  "tcp_initial_on_generator node event packet header = tbind (tgets id) (\<lambda>g.
     let unexpected = UnexpectedGeneratorEmission node (pkt_flow packet) (pkt_id packet);
         overflow = CounterOverflow node
     in case fg_kind g of
       GenTcp tcp \<Rightarrow>
         if \<not> tcp_initial_valid event packet header g tcp then tfail unexpected
         else
           tthen (tcounter fg_packets_emitted fg_packets_emitted_update 1 overflow)
           (tthen (tcounter fg_bytes_emitted fg_bytes_emitted_update (pkt_size_bytes packet) overflow)
           (tbind (tok_or overflow (checked_add (tg_next_sequence tcp) (pkt_size_bytes packet))) (\<lambda>next_sequence.
            tbind (tok_or overflow (checked_add (tg_bytes_in_flight tcp) (pkt_size_bytes packet))) (\<lambda>in_flight.
            tmodify (\<lambda>g. (set_status Blocked g)
              \<lparr>fg_feedback := (fg_feedback g)\<lparr>gf_outstanding_bytes := in_flight,
                                             gf_unacknowledged_bytes := in_flight\<rparr>,
               fg_kind := GenTcp (tcp\<lparr>tg_next_sequence := next_sequence, tg_bytes_in_flight := in_flight,
                                      tg_last_attempt := pkt_id packet\<rparr>)\<rparr>)))))
     | _ \<Rightarrow> tfail unexpected)"

definition host_tcp_initial_send ::
  "node_descriptor \<Rightarrow> event \<Rightarrow> packet_descriptor \<Rightarrow> tcp_data_header \<Rightarrow> unit handler" where
  "host_tcp_initial_send node event packet header =
     tthen (set_source_time (ev_payload event) (key_time_ns (ev_key event)))
     (tthen (host_parts_mut node
         (tbind (generator_position (pkt_flow packet) (UnknownGenerator (nd_id node) (pkt_flow packet))) (\<lambda>position.
          on_state (tthen (with_generator position (tcp_initial_on_generator (nd_id node) event packet header))
            (tcounter hs_sourced_packets hs_sourced_packets_update 1 (CounterOverflow (nd_id node)))))))
     (tthen (update_ledger (seed_tcp_segment packet))
     (tthen (enqueue_source_packet node (pkt_id packet))
     (tthen (record_sourced (nd_id node) packet)
     (tbind (prepare_tcp_attempts node (pkt_flow packet) (key_time_ns (ev_key event)) None True False) (\<lambda>plan.
      install_tcp_attempts node event plan))))))"

subsection \<open>Data at a receiver\<close>

definition with_receiver :: "nat \<Rightarrow> (tcp_receiver_state, 'a) trans \<Rightarrow> (host_state, 'a) trans" where
  "with_receiver position m = tbind (tgets hs_tcp_receivers) (\<lambda>receivers.
     if position < length receivers
     then tzoom (\<lambda>h. hs_tcp_receivers h ! position)
            (\<lambda>r h. h\<lparr>hs_tcp_receivers := (hs_tcp_receivers h)[position := r]\<rparr>) m
     else tpanic)"

text \<open>The segment enters the receiver; the receiver as left and how far its frontier moved.\<close>

definition receive_segment ::
  "node_id \<Rightarrow> packet_descriptor \<Rightarrow> u64 \<Rightarrow> (tcp_receiver_state, tcp_receiver_state \<times> u64) trans" where
  "receive_segment node packet sequence =
     tbind (tok_or (CounterOverflow node) (checked_add sequence (pkt_size_bytes packet))) (\<lambda>end_sequence.
     tbind (tgets tr_next_expected_sequence) (\<lambda>frontier_before.
     tthen (tmodify (\<lambda>r. tcp_receive_range_step r sequence end_sequence))
     (tgets (\<lambda>r. (r, tr_next_expected_sequence r - frontier_before)))))"

definition tcp_data_on_host ::
  "node_id \<Rightarrow> u64 \<Rightarrow> packet_descriptor \<Rightarrow> tcp_data_header \<Rightarrow>
     (host_entry, payload_id \<times> u64 \<times> u64 \<times> pending_causes) trans" where
  "tcp_data_on_host node node_count packet header =
     tbind (tgets he_index) (\<lambda>index.
     tbind (tok_or (UnknownGenerator node (pkt_flow packet)) (first_receiver index (pkt_flow packet))) (\<lambda>position.
     tbind (on_state (with_receiver position (receive_segment node packet (tdh_sequence header))))
       (\<lambda>(receiver, advanced).
     tbind (inbound_progress_of (pkt_flow packet)
         \<lparr>ib_sequence = tdh_sequence header, ib_bytes = pkt_size_bytes packet, ib_advance = advanced\<rparr> node)
       (\<lambda>causes.
     tbind (on_state
         (tbind (next_payload node node_count) (\<lambda>payload.
          tthen (tcounter hs_received_packets hs_received_packets_update 1 (CounterOverflow node))
          (tthen (tcounter hs_sourced_packets hs_sourced_packets_update 1 (CounterOverflow node))
          (treturn payload))))) (\<lambda>payload.
     treturn (payload, tr_next_expected_sequence receiver, tr_ack_size_bytes receiver, causes))))))"

definition host_tcp_data_arrival ::
  "node_descriptor \<Rightarrow> event \<Rightarrow> packet_descriptor \<Rightarrow> tcp_data_header \<Rightarrow> unit handler" where
  "host_tcp_data_arrival node event packet header =
     tbind (ts_flow (pkt_flow packet)) (\<lambda>flow.
     if flow_target flow \<noteq> nd_id node then tfail (FlowRouteMiss (flow_id_of flow) (nd_id node))
     else
       tbind (tgets ts_image) (\<lambda>img.
       tbind (host_parts_mut node (tcp_data_on_host (nd_id node) (node_count_of img) packet header))
         (\<lambda>(ack_payload, acknowledgment, ack_size_bytes, stage_causes).
       tthen (record_arrival (nd_id node) packet Delivered)
       (tthen (mark_terminal (pkt_id packet))
       (tthen (source_new_packet node (key_time_ns (ev_key event))
           \<lparr>pkt_id = ack_payload, pkt_flow = pkt_flow packet, pkt_size_bytes = ack_size_bytes,
            pkt_ecn_marked = False,
            pkt_kind = TcpAck \<lparr>tah_acknowledgment = acknowledgment,
                               tah_acknowledged_bytes = pkt_size_bytes packet,
                               tah_echoed_sent_time_ns = tdh_sent_time_ns header\<rparr>\<rparr>)
       (tthen (schedule_host_ready node event ack_payload)
       (activate_causes node event stage_causes)))))))"

subsection \<open>An acknowledgment at a sender\<close>

text \<open>
  What an acknowledgment asks of the sender: a segment to retransmit, whether to fill the window, how
  far it acknowledges when it is new, whether the congestion control moved, and the timer it supersedes.
\<close>

record tcp_ack_plan =
  ap_retransmit :: "u64 option"
  ap_fill :: bool
  ap_acknowledged_through :: "u64 option"
  ap_transition :: bool
  ap_superseded :: "tcp_timer_state option"

definition tcp_new_ack :: "u64 \<Rightarrow> u64 \<Rightarrow> u64 \<Rightarrow> tcp_generator \<Rightarrow> tcp_ack_plan \<times> tcp_generator" where
  "tcp_new_ack now_ns echoed_sent_time_ns acknowledgment tcp =
     (let acknowledged_bytes = acknowledgment - tg_highest_ack tcp;
          rtt_sample = max (saturating_sub now_ns echoed_sent_time_ns) 1;
          (srtt, rtt_var, rto) = update_rto_ns (tg_srtt_ns tcp) (tg_rtt_var_ns tcp) rtt_sample;
          control = tcp_on_new_ack acknowledged_bytes now_ns rtt_sample (tg_bytes_in_flight tcp)
                      acknowledgment (tg_control tcp)
      in (\<lparr>ap_retransmit = (if tcp_phase_of control = FastRecovery
                              \<and> acknowledgment < tg_recovery_high_sequence tcp
                           then Some acknowledgment else None),
           ap_fill = (acknowledgment < tg_total_bytes tcp),
           ap_acknowledged_through = Some acknowledgment, ap_transition = True,
           ap_superseded = tg_active_timer tcp\<rparr>,
          tcp\<lparr>tg_srtt_ns := srtt, tg_rtt_var_ns := rtt_var, tg_rto_ns := rto, tg_control := control,
              tg_bytes_in_flight := saturating_sub (tg_bytes_in_flight tcp) acknowledged_bytes,
              tg_highest_ack := acknowledgment, tg_duplicate_acks := 0, tg_active_timer := None\<rparr>))"

definition tcp_duplicate_ack :: "u64 \<Rightarrow> tcp_generator \<Rightarrow> tcp_ack_plan \<times> tcp_generator" where
  "tcp_duplicate_ack now_ns tcp =
     (let (fast_retransmit, control) = tcp_on_duplicate_ack (tg_bytes_in_flight tcp) now_ns (tg_control tcp);
          duplicates = tcp_duplicate_acks control
      in if fast_retransmit then
           (\<lparr>ap_retransmit = Some (tg_highest_ack tcp), ap_fill = False, ap_acknowledged_through = None,
             ap_transition = True, ap_superseded = tg_active_timer tcp\<rparr>,
            tcp\<lparr>tg_control := set_recovery_high_sequence (tg_next_sequence tcp) control,
                tg_duplicate_acks := duplicates, tg_recovery_high_sequence := tg_next_sequence tcp,
                tg_active_timer := None\<rparr>)
         else
           (\<lparr>ap_retransmit = None, ap_fill = (duplicates > 3), ap_acknowledged_through = None,
             ap_transition = True, ap_superseded = None\<rparr>,
            tcp\<lparr>tg_control := control, tg_duplicate_acks := duplicates\<rparr>))"

definition tcp_ack_step :: "u64 \<Rightarrow> tcp_ack_header \<Rightarrow> tcp_generator \<Rightarrow> tcp_ack_plan \<times> tcp_generator" where
  "tcp_ack_step now_ns header tcp =
     (let acknowledgment = min (tah_acknowledgment header) (tg_next_sequence tcp) in
      if acknowledgment > tg_highest_ack tcp
      then tcp_new_ack now_ns (tah_echoed_sent_time_ns header) acknowledgment tcp
      else if acknowledgment = tg_highest_ack tcp \<and> tg_highest_ack tcp < tg_total_bytes tcp
              \<and> tg_bytes_in_flight tcp \<noteq> 0
      then tcp_duplicate_ack now_ns tcp
      else (\<lparr>ap_retransmit = None, ap_fill = False, ap_acknowledged_through = None,
             ap_transition = False, ap_superseded = None\<rparr>, tcp))"

definition tcp_ack_on_generator ::
  "node_id \<Rightarrow> flow_id \<Rightarrow> u64 \<Rightarrow> tcp_ack_header \<Rightarrow>
     (flow_generator_state, tcp_ack_plan \<times> bool \<times> u64) trans" where
  "tcp_ack_on_generator node flow now_ns header = tbind (tgets id) (\<lambda>g.
     case fg_kind g of
       GenTcp tcp0 \<Rightarrow>
         tthen (apply_generator_feedback node)
         (case tcp_ack_step now_ns header tcp0 of (plan, tcp) \<Rightarrow>
            tthen (tmodify (\<lambda>g. g\<lparr>fg_feedback := (fg_feedback g)
                     \<lparr>gf_outstanding_bytes := tg_bytes_in_flight tcp,
                      gf_unacknowledged_bytes := tg_bytes_in_flight tcp\<rparr>,
                     fg_kind := GenTcp tcp\<rparr>))
              (treturn (plan, se_status (fg_next_emission g) = Scheduled, tg_total_bytes tcp)))
     | _ \<Rightarrow> tfail (UnknownGenerator node flow))"

text \<open>The local successors of a stage whose last byte was acknowledged.\<close>

definition complete_tcp_stage ::
  "node_descriptor \<Rightarrow> packet_descriptor \<Rightarrow> tcp_ack_header \<Rightarrow> u64 \<Rightarrow> pending_causes handler" where
  "complete_tcp_stage node packet header acknowledged =
     tbind (tgets ts_image) (\<lambda>img.
     tbind (tresult (unloaded_round_trip_ns img (pkt_flow packet) (tah_acknowledged_bytes header)
              (pkt_size_bytes packet))) (\<lambda>round_trip_ns.
     host_parts_mut node (complete_successors (pkt_flow packet)
       \<lparr>cmp_ack_number = acknowledged, cmp_origin_ns = tah_echoed_sent_time_ns header,
        cmp_delay_ns = round_trip_ns\<rparr>)))"

definition host_tcp_ack_arrival ::
  "node_descriptor \<Rightarrow> event \<Rightarrow> packet_descriptor \<Rightarrow> tcp_ack_header \<Rightarrow> unit handler" where
  "host_tcp_ack_arrival node event packet header =
     tbind (ts_flow (pkt_flow packet)) (\<lambda>flow.
     if flow_source flow \<noteq> nd_id node then tfail (FlowRouteMiss (flow_id_of flow) (nd_id node))
     else
       tthen (record_arrival (nd_id node) packet ArrivedFeedback)
       (tthen (mark_terminal (pkt_id packet))
       (tbind (host_parts_mut node
           (tbind (generator_position (pkt_flow packet) (UnknownGenerator (nd_id node) (pkt_flow packet))) (\<lambda>position.
            on_state
              (tbind (tgets (\<lambda>h. host_stage h position \<noteq> None)) (\<lambda>is_stage.
               tbind (with_generator position
                        (tcp_ack_on_generator (nd_id node) (pkt_flow packet) (key_time_ns (ev_key event)) header))
                 (\<lambda>(plan, scheduled_send_pending, total_bytes).
               treturn (plan, scheduled_send_pending,
                 is_stage \<and> (case ap_acknowledged_through plan of
                   None \<Rightarrow> False | Some acknowledged \<Rightarrow> acknowledged \<ge> total_bytes))))))))
         (\<lambda>(plan, scheduled_send_pending, stage_completed).
       tbind (if stage_completed then
                tbind (texpect (ap_acknowledged_through plan)) (complete_tcp_stage node packet header)
              else treturn causes_default) (\<lambda>stage_causes.
       tthen (tif_let (ap_superseded plan) (cancel_superseded_timer (nd_id node)))
       (tthen (tif_let (ap_acknowledged_through plan)
                 (\<lambda>acknowledgment. update_ledger (acknowledge_tcp_segments (pkt_flow packet) acknowledgment)))
       (tthen (twhen (ap_transition plan \<and> \<not> (scheduled_send_pending \<and> ap_retransmit plan = None))
                 (tbind (prepare_tcp_attempts node (pkt_flow packet) (key_time_ns (ev_key event))
                           (ap_retransmit plan) (ap_fill plan \<and> \<not> scheduled_send_pending)
                           scheduled_send_pending)
                    (\<lambda>attempts. install_tcp_attempts node event attempts)))
       (activate_causes node event stage_causes))))))))"

subsection \<open>A retransmission timeout\<close>

definition timer_due :: "event \<Rightarrow> flow_generator_state \<Rightarrow> bool" where
  "timer_due event g =
     (case fg_kind g of
        GenTcp tcp \<Rightarrow> (case tg_active_timer tcp of
          None \<Rightarrow> False
        | Some timer \<Rightarrow> tt_attempt timer = ev_payload event \<and> tt_deadline_ns timer = key_time_ns (ev_key event))
      | _ \<Rightarrow> False)"

definition tcp_timeout_step :: "u64 \<Rightarrow> u64 \<Rightarrow> tcp_generator \<Rightarrow> tcp_generator" where
  "tcp_timeout_step now_ns rto_ns tcp =
     tcp\<lparr>tg_active_timer := None,
         tg_control := tcp_on_timeout (tg_bytes_in_flight tcp) now_ns (tg_control tcp),
         tg_rto_ns := min (saturating_mul rto_ns 2) 60000000000\<rparr>"

text \<open>The first sender whose armed timer this is, after its timeout: its flow and the segment to resend.\<close>

definition tcp_timed_out :: "event \<Rightarrow> (host_state, (flow_id \<times> u64) option) trans" where
  "tcp_timed_out event = tbind (tgets id) (\<lambda>h.
     case position_of (timer_due event) (hs_generators h) of
       None \<Rightarrow> treturn None
     | Some position \<Rightarrow> with_generator position (tbind (tgets id) (\<lambda>g.
         case fg_kind g of
           GenTcp tcp \<Rightarrow>
             tbind (texpect (tg_active_timer tcp)) (\<lambda>timer.
             tthen (tmodify (fg_kind_update (\<lambda>_.
                      GenTcp (tcp_timeout_step (key_time_ns (ev_key event)) (tt_rto_ns timer) tcp))))
               (treturn (Some (fg_flow g, tg_highest_ack tcp))))
         | _ \<Rightarrow> tpanic)))"

definition tcp_retransmit_timed_out :: "node_descriptor \<Rightarrow> event \<Rightarrow> flow_id \<Rightarrow> u64 \<Rightarrow> unit handler" where
  "tcp_retransmit_timed_out node event flow sequence =
     tbind (prepare_tcp_attempts node flow (key_time_ns (ev_key event)) (Some sequence) False False) (\<lambda>plan.
     install_tcp_attempts node event plan)"

end
