(* ===== verification/Paced_Handlers.thy ===== *)
theory Paced_Handlers
  imports Tcp_Handlers
begin

section \<open>Paced sources\<close>

text \<open>
  The pacing timers of \<open>executor/src/scalar.rs\<close>: rate generators, DCQCN generators, and the
  congestion notifications a DCQCN receiver sends and its sender applies.  The tick of a rate and of a
  DCQCN generator is written twice in the source with the same steps; here the steps are
  \<open>paced_tick\<close>, which the two handlers share.  A \<open>None\<close> from the DCQCN controller, which stands for
  a loop that does not return, cannot occur (\<open>Dcqcn\<close>).
\<close>

record paced_plan =
  pl_emitted :: bool
  pl_next_packet :: "packet_descriptor option"
  pl_next_timer :: "(payload_id \<times> u64) option"
  pl_unused_token :: bool

text \<open>The statuses a pending pacing timer may find.\<close>

definition pacing_due :: "event \<Rightarrow> flow_generator_state \<Rightarrow> bool" where
  "pacing_due event g \<longleftrightarrow>
     (se_status (fg_next_emission g) = Scheduled \<or> se_status (fg_next_emission g) = Blocked)
     \<and> se_payload (fg_next_emission g) = ev_payload event
     \<and> se_departure_time_ns (fg_next_emission g) = key_time_ns (ev_key event)"

text \<open>One tick of credit, and the packet it pays for.\<close>

definition paced_credit ::
  "node_id \<Rightarrow> packet_descriptor \<Rightarrow> u64 \<Rightarrow> nat \<Rightarrow> rate_generator \<Rightarrow>
     (host_state, bool \<times> u128 \<times> u128 \<times> rate_generator) trans" where
  "paced_credit node packet rate_bps position rate =
     (let overflow = CounterOverflow node in
     tbind (tok_or overflow (pacing_credit_scale (rg_rate_denominator rate))) (\<lambda>scale.
     tbind (tok_or overflow (pacing_tick_credit rate_bps (rg_pacing_interval_ns rate))) (\<lambda>tick_credit.
     tbind (tok_or overflow (paced_packet_cost (pkt_size_bytes packet) scale)) (\<lambda>packet_cost.
     tbind (tok_or overflow (checked_add (rg_credit_quanta rate) tick_credit)) (\<lambda>credit.
     if credit \<ge> packet_cost then
       tthen (with_generator position
                (tthen (tcounter fg_packets_emitted fg_packets_emitted_update 1 overflow)
                   (tcounter fg_bytes_emitted fg_bytes_emitted_update (pkt_size_bytes packet) overflow)))
       (tthen (tcounter hs_sourced_packets hs_sourced_packets_update 1 overflow)
       (treturn (True, scale, tick_credit, rate\<lparr>rg_credit_quanta := credit - packet_cost\<rparr>)))
     else treturn (False, scale, tick_credit, rate\<lparr>rg_credit_quanta := credit\<rparr>))))))"

text \<open>The next timer: for a new packet when the tick emitted, for the same token otherwise.\<close>

definition paced_next ::
  "node_id \<Rightarrow> u64 \<Rightarrow> packet_descriptor \<Rightarrow> u64 \<Rightarrow> nat \<Rightarrow> bool \<times> u128 \<times> u128 \<times> rate_generator \<Rightarrow>
     (host_state, paced_plan) trans" where
  "paced_next node node_count packet next_time position tick =
     (case tick of (emitted, scale, tick_credit, rate) \<Rightarrow>
     tbind (if emitted then
              tbind (next_payload node node_count) (\<lambda>payload.
              tbind (with_generator position (tgets fg_bytes_emitted)) (\<lambda>bytes.
              treturn (payload, min (rg_packet_size_bytes rate) (rg_total_bytes rate - bytes))))
            else treturn (pkt_id packet, pkt_size_bytes packet)) (\<lambda>(payload, size_bytes).
     tbind (tok_or (CounterOverflow node) (paced_packet_cost size_bytes scale)) (\<lambda>next_cost.
     tthen (with_generator position (tmodify (\<lambda>g. g\<lparr>fg_next_emission :=
              \<lparr>se_status = (case checked_add (rg_credit_quanta rate) tick_credit of
                  None \<Rightarrow> Blocked | Some credit \<Rightarrow> if credit \<ge> next_cost then Scheduled else Blocked),
               se_departure_time_ns = next_time, se_payload = payload\<rparr>\<rparr>)))
       (treturn \<lparr>pl_emitted = emitted,
          pl_next_packet = (if emitted then Some \<lparr>pkt_id = payload, pkt_flow = pkt_flow packet,
            pkt_size_bytes = size_bytes, pkt_ecn_marked = False, pkt_kind = Data\<rparr> else None),
          pl_next_timer = Some (payload, next_time), pl_unused_token = False\<rparr>))))"

text \<open>A finished source, or one whose next tick is beyond the stop, keeps no timer.\<close>

definition paced_stop ::
  "nat \<Rightarrow> bool \<Rightarrow> bool \<Rightarrow> u64 option \<Rightarrow> (host_state, paced_plan) trans" where
  "paced_stop position emitted finished candidate_time =
     tthen (with_generator position (tmodify (\<lambda>g.
       (let g' = set_status (if finished then Finished else Stopped) g
        in case candidate_time of
             None \<Rightarrow> g'
           | Some t \<Rightarrow> g'\<lparr>fg_next_emission := (fg_next_emission g')\<lparr>se_departure_time_ns := t\<rparr>\<rparr>))))
     (treturn \<lparr>pl_emitted = emitted, pl_next_packet = None, pl_next_timer = None,
               pl_unused_token = \<not> emitted\<rparr>)"

text \<open>The whole tick: the plan, whether a timer follows, and the rate state left.\<close>

definition paced_tick ::
  "node_id \<Rightarrow> u64 \<Rightarrow> u64 \<Rightarrow> u64 \<Rightarrow> packet_descriptor \<Rightarrow> u64 \<Rightarrow> nat \<Rightarrow> rate_generator \<Rightarrow>
     (host_state, paced_plan \<times> bool \<times> rate_generator) trans" where
  "paced_tick node node_count stop_time_ns now packet rate_bps position rate0 =
     tbind (paced_credit node packet rate_bps position rate0) (\<lambda>(emitted, scale, tick_credit, rate).
     tbind (with_generator position (tgets fg_bytes_emitted)) (\<lambda>bytes.
     let finished = bytes \<ge> rg_total_bytes rate in
     tbind (if finished then treturn None
            else tbind (tok_or (GeneratorTimeOverflow (pkt_flow packet))
                          (checked_add now (rg_pacing_interval_ns rate))) (\<lambda>t. treturn (Some t)))
       (\<lambda>candidate_time.
     case candidate_time of
       Some next_time \<Rightarrow>
         if next_time \<le> stop_time_ns then
           tbind (paced_next node node_count packet next_time position (emitted, scale, tick_credit, rate))
             (\<lambda>plan. treturn (plan, True, rate))
         else tbind (paced_stop position emitted finished (Some next_time)) (\<lambda>plan. treturn (plan, False, rate))
     | None \<Rightarrow> tbind (paced_stop position emitted finished None) (\<lambda>plan. treturn (plan, False, rate)))))"

text \<open>What a tick does outside the host's state.\<close>

definition finish_paced :: "node_descriptor \<Rightarrow> event \<Rightarrow> packet_descriptor \<Rightarrow> paced_plan \<Rightarrow> unit handler" where
  "finish_paced node event packet plan =
     tthen (if pl_emitted plan then
              tthen (set_source_time (pkt_id packet) (key_time_ns (ev_key event)))
              (tthen (enqueue_source_packet node (pkt_id packet)) (record_sourced (nd_id node) packet))
            else twhen (pl_unused_token plan) (mark_terminal (pkt_id packet)))
     (tthen (tif_let (pl_next_packet plan) (\<lambda>next_packet. insert_packet next_packet None))
     (tthen (tif_let (pl_next_timer plan) (\<lambda>(payload, time_ns). emit_from_host node event
               \<lparr>ce_target = nd_id node, ce_kind = PacingTimer, ce_payload = payload, ce_time_ns = time_ns\<rparr>))
     (twhen (pl_emitted plan) (schedule_host_ready node event (pkt_id packet)))))"

subsection \<open>Rate generators\<close>

definition rate_tick_on_host ::
  "node_id \<Rightarrow> simulation_image \<Rightarrow> event \<Rightarrow> packet_descriptor \<Rightarrow> (host_entry, paced_plan option) trans" where
  "rate_tick_on_host node img event packet = tbind (tgets he_index) (\<lambda>index.
     case first_generator index (pkt_flow packet) of
       None \<Rightarrow> treturn None
     | Some position \<Rightarrow> on_state (tbind (with_generator position (tgets id)) (\<lambda>g.
         case fg_kind g of
           GenRate rate \<Rightarrow>
             if \<not> pacing_due event g then treturn None
             else
               tbind (paced_tick node (node_count_of img) (img_stop_time_ns img) (key_time_ns (ev_key event))
                        packet (rg_rate_numerator_bits_per_second rate) position rate) (\<lambda>(plan, _, rate').
               tthen (with_generator position (tmodify (fg_kind_update (\<lambda>_. GenRate rate'))))
                 (treturn (Some plan)))
         | _ \<Rightarrow> treturn None)))"

definition host_rate_pacing_timer :: "node_descriptor \<Rightarrow> event \<Rightarrow> packet_descriptor \<Rightarrow> unit handler" where
  "host_rate_pacing_timer node event packet =
     tbind (tgets ts_image) (\<lambda>img.
     tbind (host_parts_mut node (rate_tick_on_host (nd_id node) img event packet)) (\<lambda>plan.
     tif_let plan (finish_paced node event packet)))"

subsection \<open>DCQCN generators\<close>

definition dcqcn_tick_on_host ::
  "node_id \<Rightarrow> simulation_image \<Rightarrow> event \<Rightarrow> packet_descriptor \<Rightarrow> (host_state, paced_plan option) trans" where
  "dcqcn_tick_on_host node img event packet = tbind (tgets hs_generators) (\<lambda>generators.
     tbind (tok_or (UnknownGenerator node (pkt_flow packet))
              (position_of (\<lambda>g. fg_flow g = pkt_flow packet) generators)) (\<lambda>position.
     tbind (with_generator position (tgets id)) (\<lambda>g.
     case fg_kind g of
       GenDcqcn dcqcn \<Rightarrow>
         if \<not> pacing_due event g then treturn None
         else
           let bound = saturating_add (key_time_ns (ev_key event)) 1 in
           tbind (texpect (dcqcn_materialize (dg_controller dcqcn) False bound)) (\<lambda>(_, controller).
           tbind (paced_tick node (node_count_of img) (img_stop_time_ns img) (key_time_ns (ev_key event))
                    packet (dc_current_rate_bps controller) position (dg_rate dcqcn)) (\<lambda>(plan, again, rate).
           tbind (if again then treturn controller
                  else tbind (texpect (settle bound controller)) (\<lambda>(_, c). treturn c)) (\<lambda>controller'.
           tthen (with_generator position (tmodify (fg_kind_update (\<lambda>_. GenDcqcn (dcqcn
                    \<lparr>dg_rate := rate\<lparr>rg_rate_numerator_bits_per_second := dc_current_rate_bps controller'\<rparr>,
                     dg_controller := controller'\<rparr>)))))
             (treturn (Some plan)))))
     | _ \<Rightarrow> treturn None)))"

definition host_dcqcn_pacing_timer :: "node_descriptor \<Rightarrow> event \<Rightarrow> packet_descriptor \<Rightarrow> unit handler" where
  "host_dcqcn_pacing_timer node event packet =
     tbind (tgets ts_image) (\<lambda>img.
     tbind (host_state_mut node (dcqcn_tick_on_host (nd_id node) img event packet)) (\<lambda>plan.
     tif_let plan (finish_paced node event packet)))"

text \<open>The notification point: a marked packet asks for a congestion notification, at most one an interval.\<close>

definition dcqcn_receive_on_host ::
  "node_id \<Rightarrow> u64 \<Rightarrow> u64 \<Rightarrow> packet_descriptor \<Rightarrow> (host_state, (payload_id \<times> u64 \<times> bool) option) trans" where
  "dcqcn_receive_on_host node node_count now packet = tbind (tgets hs_dcqcn_receivers) (\<lambda>receivers.
     tbind (tok_or (UnknownGenerator node (pkt_flow packet))
              (position_of (\<lambda>r. dr_flow r = pkt_flow packet) receivers)) (\<lambda>position.
     tthen (tcounter hs_received_packets hs_received_packets_update 1 (CounterOverflow node))
     (case notification_point_sends_cnp (receivers ! position) now (packet_ecn_codepoint packet = Ce) of
        (sends, receiver) \<Rightarrow>
          tthen (tmodify (\<lambda>h. h\<lparr>hs_dcqcn_receivers := receivers[position := receiver]\<rparr>))
          (if \<not> sends then treturn None
           else
             tbind (next_payload node node_count) (\<lambda>payload.
             tthen (tcounter hs_sourced_packets hs_sourced_packets_update 1 (CounterOverflow node))
             (tbind claim_ready (\<lambda>ready.
              treturn (Some (payload, dr_cnp_size_bytes receiver, ready)))))))))"

definition host_dcqcn_data_arrival :: "node_descriptor \<Rightarrow> event \<Rightarrow> packet_descriptor \<Rightarrow> unit handler" where
  "host_dcqcn_data_arrival node event packet =
     tbind (ts_flow (pkt_flow packet)) (\<lambda>flow.
     if flow_target flow \<noteq> nd_id node then tfail (FlowRouteMiss (flow_id_of flow) (nd_id node))
     else
       tbind (tgets ts_image) (\<lambda>img.
       tbind (host_state_mut node (dcqcn_receive_on_host (nd_id node) (node_count_of img)
                (key_time_ns (ev_key event)) packet)) (\<lambda>cnp_plan.
       tthen (record_arrival (nd_id node) packet Delivered)
       (tthen (mark_terminal (pkt_id packet))
       (tif_let cnp_plan (\<lambda>(payload, size_bytes, schedule_ready).
          tthen (source_new_packet node (key_time_ns (ev_key event))
             \<lparr>pkt_id = payload, pkt_flow = pkt_flow packet, pkt_size_bytes = size_bytes,
              pkt_ecn_marked = False, pkt_kind = DcqcnCnp (pkt_id packet)\<rparr>)
            (twhen schedule_ready (emit_host_ready node event payload))))))))"

text \<open>A notification at its sender; a complete flow ignores it.\<close>

definition cnp_on_generator :: "node_id \<Rightarrow> flow_id \<Rightarrow> u64 \<Rightarrow> (flow_generator_state, unit) trans" where
  "cnp_on_generator node flow now =
     tthen (tcounter (\<lambda>g. gf_arrivals (fg_feedback g))
              (\<lambda>f g. g\<lparr>fg_feedback := gf_arrivals_update f (fg_feedback g)\<rparr>) 1 (CounterOverflow node))
     (tbind (tgets id) (\<lambda>g.
      case fg_kind g of
        GenDcqcn dcqcn \<Rightarrow>
          if \<not> (se_status (fg_next_emission g) = Scheduled \<or> se_status (fg_next_emission g) = Blocked)
          then treturn ()
          else
            tbind (texpect (on_feedback now (dg_controller dcqcn))) (\<lambda>(_, controller).
            tmodify (fg_kind_update (\<lambda>_. GenDcqcn (dcqcn
              \<lparr>dg_controller := controller,
               dg_rate := (dg_rate dcqcn)\<lparr>rg_rate_numerator_bits_per_second := dc_current_rate_bps controller\<rparr>\<rparr>))))
      | GenRoce roce \<Rightarrow>
          if rq_snd_una roce \<ge> rp_total_bytes (rq_pacer roce) then treturn ()
          else
            tbind (texpect (on_feedback now (rq_controller roce))) (\<lambda>(_, controller).
            let roce' = roce\<lparr>rq_controller := controller\<rparr> in
            tmodify (\<lambda>g. (settle_roce_sender g roce' (se_status (fg_next_emission g)))\<lparr>fg_kind := GenRoce roce'\<rparr>))
      | _ \<Rightarrow> tfail (UnknownGenerator node flow)))"

definition host_dcqcn_cnp_arrival :: "node_descriptor \<Rightarrow> event \<Rightarrow> packet_descriptor \<Rightarrow> unit handler" where
  "host_dcqcn_cnp_arrival node event packet =
     tbind (ts_flow (pkt_flow packet)) (\<lambda>flow.
     if flow_source flow \<noteq> nd_id node then tfail (FlowRouteMiss (flow_id_of flow) (nd_id node))
     else
       tthen (host_parts_mut node
         (tbind (generator_position (pkt_flow packet) (UnknownGenerator (nd_id node) (pkt_flow packet))) (\<lambda>position.
          on_state (with_generator position
            (cnp_on_generator (nd_id node) (pkt_flow packet) (key_time_ns (ev_key event)))))))
       (tthen (record_arrival (nd_id node) packet ArrivedFeedback) (mark_terminal (pkt_id packet))))"

end
