(* ===== verification/Roce_Handlers.thy ===== *)
theory Roce_Handlers
  imports Paced_Handlers
begin

section \<open>RoCE endpoints\<close>

text \<open>
  The queue-pair handlers of \<open>executor/src/scalar.rs\<close>: the pacing tick, the arrival of data, of an
  acknowledgment or a negative acknowledgment, the retransmission timeout, and the control frames of
  host-link flow control, which restart the pairs a pause parked.  The updates of a pair are those of
  \<open>Roce\<close>.
\<close>

subsection \<open>A pacing tick\<close>

text \<open>Write a pair back: the generator settled with the status a parked pacer has, and the pair in it.\<close>

definition settle_pair :: "roce_generator \<Rightarrow> generator_status \<Rightarrow> flow_generator_state \<Rightarrow> flow_generator_state" where
  "settle_pair roce parked_status g = (settle_roce_sender g roce parked_status)\<lparr>fg_kind := GenRoce roce\<rparr>"

text \<open>Whether the host pauses the class of the flow's data, and which class that is.\<close>

definition paused_class :: "simulation_image \<Rightarrow> flow_id \<Rightarrow> (host_state, u8 option) trans" where
  "paused_class img flow = tbind (tgets hs_pfc) (\<lambda>pfc.
     case pfc of
       None \<Rightarrow> treturn None
     | Some pfc \<Rightarrow>
         tbind (tresult (image_flow_priority img flow)) (\<lambda>cls.
         tbind (host_paused_at pfc (unat cls)) (\<lambda>paused.
         treturn (if paused then Some cls else None))))"

definition park_position :: "nat \<Rightarrow> nat \<Rightarrow> (host_state, unit) trans" where
  "park_position cls position = tmodify (\<lambda>h. h\<lparr>hs_pfc := map_option (\<lambda>pfc.
     pfc\<lparr>hp_pause_parked := (hp_pause_parked pfc)[cls := insert position (hp_pause_parked pfc ! cls)]\<rparr>)
     (hs_pfc h)\<rparr>)"

text \<open>The send of a tick: credit first, then the packet it pays for.\<close>

definition roce_tick_send ::
  "node_id \<Rightarrow> u64 \<Rightarrow> flow_id \<Rightarrow> u64 \<Rightarrow> nat \<Rightarrow> roce_generator \<Rightarrow>
     (host_state, roce_emission option \<times> u64 option \<times> roce_generator) trans" where
  "roce_tick_send node node_count flow now position roce0 =
     (if rq_next_psn roce0 < rp_total_bytes (rq_pacer roce0) then
        tbind (tresult (roce_credit node roce0)) (\<lambda>(covered, roce).
        case covered of
          None \<Rightarrow> treturn (None, None, roce)
        | Some packet \<Rightarrow>
            tbind (next_payload node node_count) (\<lambda>payload.
            tthen (tcounter hs_sourced_packets hs_sourced_packets_update 1 (CounterOverflow node))
            (tbind (with_generator position (tbind (tgets id) (\<lambda>g.
               tbind (tresult (roce_send node flow now payload packet g roce)) (\<lambda>(emission, timer, g', roce').
               tthen (tmodify (\<lambda>_. g')) (treturn (Some emission, timer, roce')))))) treturn)))
      else treturn (None, None, roce0))"

text \<open>The next tick: one interval later while packets remain.\<close>

definition roce_tick_rearm ::
  "flow_id \<Rightarrow> u64 \<Rightarrow> u64 \<Rightarrow> roce_generator \<Rightarrow> (flow_generator_state, u64 option) trans" where
  "roce_tick_rearm flow now stop_time_ns roce =
     (if rq_next_psn roce < rp_total_bytes (rq_pacer roce) then
        tbind (tok_or (GeneratorTimeOverflow flow) (checked_add now (rp_pacing_interval_ns (rq_pacer roce)))) (\<lambda>next_ns.
        tthen (tmodify (\<lambda>g. g\<lparr>fg_next_emission := (fg_next_emission g)\<lparr>se_departure_time_ns := next_ns\<rparr>\<rparr>))
        (if next_ns \<le> stop_time_ns then
           tthen (tmodify (settle_pair (roce\<lparr>rq_pacer_armed := True\<rparr>) Blocked)) (treturn (Some next_ns))
         else tthen (tmodify (settle_pair roce Stopped)) (treturn None)))
      else tthen (tmodify (settle_pair roce Blocked)) (treturn None))"

definition roce_tick_on_host ::
  "node_id \<Rightarrow> simulation_image \<Rightarrow> event \<Rightarrow> packet_descriptor \<Rightarrow>
     (host_entry, roce_emission option \<times> u64 option \<times> u64 option) trans" where
  "roce_tick_on_host node img event packet =
     (let unexpected = UnexpectedGeneratorEmission node (pkt_flow packet) (ev_payload event);
          now = key_time_ns (ev_key event) in
     tbind (generator_position (pkt_flow packet) unexpected) (\<lambda>position.
     on_state (tbind (with_generator position (tgets id)) (\<lambda>g.
     case fg_kind g of
       GenRoce roce0 \<Rightarrow>
         if \<not> rq_pacer_armed roce0 \<or> rq_pacing_timer_payload roce0 \<noteq> ev_payload event
            \<or> se_departure_time_ns (fg_next_emission g) \<noteq> now
         then tfail unexpected
         else
           tbind (texpect (dcqcn_materialize (rq_controller roce0)
                    (rq_snd_una roce0 \<ge> rp_total_bytes (rq_pacer roce0)) (saturating_add now 1))) (\<lambda>(_, controller).
           let roce = roce0\<lparr>rq_pacer_armed := False, rq_controller := controller\<rparr>;
               remaining = rq_next_psn roce < rp_total_bytes (rq_pacer roce) in
           tbind (paused_class img (pkt_flow packet)) (\<lambda>paused.
           case paused of
             Some cls \<Rightarrow>
               tthen (twhen (remaining \<and> rq_snd_una roce < rp_total_bytes (rq_pacer roce))
                        (park_position (unat cls) position))
               (tthen (with_generator position (tmodify (settle_pair roce Blocked)))
               (treturn (None, None, None)))
           | None \<Rightarrow>
               if rq_window_bytes roce \<noteq> 0 \<and> remaining \<and> window_bound roce then
                 tthen (tresult (image_flow_priority img (pkt_flow packet)))
                 (tthen (with_generator position
                           (tmodify (settle_pair (roce\<lparr>rq_window_parked := True\<rparr>) Blocked)))
                 (treturn (None, None, None)))
               else
                 tbind (roce_tick_send node (node_count_of img) (pkt_flow packet) now position roce)
                   (\<lambda>(emission, timer_ns, roce').
                 tbind (with_generator position
                          (roce_tick_rearm (pkt_flow packet) now (img_stop_time_ns img) roce')) (\<lambda>next_tick_ns.
                 treturn (emission, next_tick_ns, timer_ns)))))
     | _ \<Rightarrow> tfail unexpected))))"

definition host_roce_pacing_timer :: "node_descriptor \<Rightarrow> event \<Rightarrow> packet_descriptor \<Rightarrow> unit handler" where
  "host_roce_pacing_timer node event packet =
     tbind (tgets ts_image) (\<lambda>img.
     tbind (host_parts_mut node (roce_tick_on_host (nd_id node) img event packet))
       (\<lambda>(emission, next_tick_ns, timer_ns).
     tthen (tif_let next_tick_ns (\<lambda>time_ns. emit_from_host node event
              \<lparr>ce_target = nd_id node, ce_kind = PacingTimer, ce_payload = ev_payload event, ce_time_ns = time_ns\<rparr>))
     (tthen (tif_let timer_ns (\<lambda>time_ns. emit_from_host node event
              \<lparr>ce_target = nd_id node, ce_kind = RetransmissionTimeout, ce_payload = ev_payload event,
               ce_time_ns = time_ns\<rparr>))
     (tif_let emission (\<lambda>emission.
        tthen (source_new_packet node (key_time_ns (ev_key event))
           \<lparr>pkt_id = re_payload emission, pkt_flow = pkt_flow packet, pkt_size_bytes = re_bytes emission,
            pkt_ecn_marked = False,
            pkt_kind = RoceData \<lparr>rdh_psn = re_psn emission, rdh_sent_time_ns = key_time_ns (ev_key event),
                                 rdh_retransmission = re_retransmission emission\<rparr>\<rparr>)
          (schedule_host_ready node event (re_payload emission)))))))"

subsection \<open>Feedback at the sender\<close>

definition emit_roce_timers ::
  "node_descriptor \<Rightarrow> event \<Rightarrow> payload_id \<Rightarrow> u64 option \<Rightarrow> u64 option \<Rightarrow> unit handler" where
  "emit_roce_timers node parent token tick_ns timer_ns =
     tfor [(PacingTimer, tick_ns), (RetransmissionTimeout, timer_ns)] (\<lambda>(kind, time_ns).
       tif_let time_ns (\<lambda>time_ns. emit_from_host node parent
         \<lparr>ce_target = nd_id node, ce_kind = kind, ce_payload = token, ce_time_ns = time_ns\<rparr>))"

text \<open>
  The controller after the acknowledgment: the one that completes the pair freezes it, an echoed
  congestion mark feeds it.
\<close>

definition roce_control_feedback ::
  "u64 \<Rightarrow> bool \<Rightarrow> u64 \<Rightarrow> roce_generator \<Rightarrow> roce_generator option" where
  "roce_control_feedback now ce_echo snd_una_before roce =
     (let total_bytes = rp_total_bytes (rq_pacer roce);
          dcqcn = (rq_congestion_control roce = RoceDcqcn);
          froze = (snd_una_before < total_bytes \<and> rq_snd_una roce \<ge> total_bytes \<and> dcqcn);
          feedback = (ce_echo \<and> rq_snd_una roce < total_bytes \<and> dcqcn)
      in Option.bind (if froze then map_option snd (settle now (rq_controller roce))
                      else Some (rq_controller roce)) (\<lambda>controller.
         Option.bind (if feedback then map_option snd (on_feedback now controller) else Some controller)
           (\<lambda>controller. Some (roce\<lparr>rq_controller := controller\<rparr>))))"

record roce_feedback_plan =
  rf_superseded_ns :: "u64 option"
  rf_timer_ns :: "u64 option"
  rf_tick_ns :: "u64 option"
  rf_token :: payload_id
  rf_completed_stage :: "u64 option"

definition roce_feedback_on_generator ::
  "node_id \<Rightarrow> u64 \<Rightarrow> u64 \<Rightarrow> packet_descriptor \<Rightarrow> roce_ack_header \<Rightarrow> bool \<Rightarrow>
     (flow_generator_state,
      (u64 option \<times> u64 option \<times> u64 option) \<times> u64 \<times> flow_generator_state \<times> roce_generator) trans" where
  "roce_feedback_on_generator node stop_time_ns now packet header nack = tbind (tgets fg_kind) (\<lambda>kind.
     case kind of
       GenRoce roce0 \<Rightarrow>
         tthen (tcounter (\<lambda>g. gf_arrivals (fg_feedback g))
                  (\<lambda>f g. g\<lparr>fg_feedback := gf_arrivals_update f (fg_feedback g)\<rparr>) 1 (CounterOverflow node))
         (tbind (tgets id) (\<lambda>g.
          tbind (texpect (dcqcn_materialize (rq_controller roce0)
                   (rq_snd_una roce0 \<ge> rp_total_bytes (rq_pacer roce0)) now)) (\<lambda>(_, controller).
          tbind (tresult (roce_apply_ack (pkt_flow packet) (pkt_id packet) now stop_time_ns
                   (rah_acknowledgment header) nack g (roce0\<lparr>rq_controller := controller\<rparr>)))
            (\<lambda>(times, g', roce1).
          tbind (texpect (roce_control_feedback now (rah_ce_echo header) (rq_snd_una roce0) roce1)) (\<lambda>roce.
          let g'' = settle_pair roce (se_status (fg_next_emission g')) g' in
          tthen (tmodify (\<lambda>_. g'')) (treturn (times, rq_snd_una roce0, g'', roce)))))))
     | _ \<Rightarrow> tfail (UnknownGenerator node (pkt_flow packet)))"

definition roce_feedback_on_host ::
  "node_id \<Rightarrow> u64 \<Rightarrow> u8 \<Rightarrow> u64 \<Rightarrow> packet_descriptor \<Rightarrow> roce_ack_header \<Rightarrow> bool \<Rightarrow>
     (host_entry, roce_feedback_plan) trans" where
  "roce_feedback_on_host node stop_time_ns data_class now packet header nack =
     tbind (generator_position (pkt_flow packet) (UnknownGenerator node (pkt_flow packet))) (\<lambda>position.
     on_state
       (tbind (with_generator position (roce_feedback_on_generator node stop_time_ns now packet header nack))
         (\<lambda>((superseded_ns, timer_ns, tick_ns), snd_una_before, g, roce).
        tthen (tmodify (\<lambda>h. h\<lparr>hs_pfc := leave_parked_list (hs_pfc h) data_class position g roce\<rparr>))
        (tgets (\<lambda>h. \<lparr>rf_superseded_ns = superseded_ns, rf_timer_ns = timer_ns, rf_tick_ns = tick_ns,
           rf_token = rq_pacing_timer_payload roce,
           rf_completed_stage =
             (if snd_una_before < rp_total_bytes (rq_pacer roce)
                 \<and> rq_snd_una roce \<ge> rp_total_bytes (rq_pacer roce)
                 \<and> host_stage h position \<noteq> None
              then Some (rah_acknowledgment header) else None)\<rparr>)))))"

definition complete_roce_stage ::
  "node_descriptor \<Rightarrow> event \<Rightarrow> packet_descriptor \<Rightarrow> roce_ack_header \<Rightarrow> u64 \<Rightarrow> unit handler" where
  "complete_roce_stage node event packet header acknowledgment =
     tbind (tgets ts_image) (\<lambda>img.
     tbind (tresult (unloaded_round_trip_ns img (pkt_flow packet) (ucast (rah_acknowledged_bytes header))
              (pkt_size_bytes packet))) (\<lambda>round_trip_ns.
     tbind (host_parts_mut node (complete_successors (pkt_flow packet)
         \<lparr>cmp_ack_number = acknowledgment, cmp_origin_ns = rah_echoed_sent_time_ns header,
          cmp_delay_ns = round_trip_ns\<rparr>)) (\<lambda>causes.
     activate_causes node event causes)))"

definition host_roce_feedback_arrival ::
  "node_descriptor \<Rightarrow> event \<Rightarrow> packet_descriptor \<Rightarrow> roce_ack_header \<Rightarrow> bool \<Rightarrow> unit handler" where
  "host_roce_feedback_arrival node event packet header nack =
     tbind (ts_flow (pkt_flow packet)) (\<lambda>flow.
     if flow_source flow \<noteq> nd_id node then tfail (FlowRouteMiss (flow_id_of flow) (nd_id node))
     else
       tthen (record_arrival (nd_id node) packet ArrivedFeedback)
       (tthen (mark_terminal (pkt_id packet))
       (tbind (tgets ts_image) (\<lambda>img.
        tbind (host_parts_mut node (roce_feedback_on_host (nd_id node) (img_stop_time_ns img)
                 (flow_priority flow) (key_time_ns (ev_key event)) packet header nack)) (\<lambda>plan.
        tthen (tif_let (rf_superseded_ns plan) (\<lambda>deadline_ns.
                 tmodify (\<lambda>s. s\<lparr>ts_superseded_timers := ts_superseded_timers s
                   @ [\<lparr>st_target = nd_id node, st_payload = rf_token plan, st_deadline_ns = deadline_ns\<rparr>]\<rparr>)))
        (tthen (emit_roce_timers node event (rf_token plan) (rf_tick_ns plan) (rf_timer_ns plan))
        (tif_let (rf_completed_stage plan) (complete_roce_stage node event packet header))))))))"

subsection \<open>A retransmission timeout\<close>

definition roce_timeout_on_generator ::
  "node_id \<Rightarrow> u64 \<Rightarrow> event \<Rightarrow> flow_id \<Rightarrow>
     (flow_generator_state, ((u64 \<times> u64 option) \<times> flow_generator_state \<times> roce_generator) option) trans" where
  "roce_timeout_on_generator node stop_time_ns event flow = tbind (tgets id) (\<lambda>g.
     let now = key_time_ns (ev_key event) in
     case fg_kind g of
       GenRoce roce0 \<Rightarrow>
         if \<not> (rq_rto_ns roce0 \<noteq> 0 \<and> rq_snd_una roce0 < fg_bytes_emitted g
                \<and> rq_rto_deadline_ns roce0 = now \<and> rq_pacing_timer_payload roce0 = ev_payload event)
         then treturn None
         else
           tbind (texpect (dcqcn_materialize (rq_controller roce0) False (saturating_add now 1))) (\<lambda>(_, controller).
           tbind (tresult (roce_apply_timeout flow now stop_time_ns g (roce0\<lparr>rq_controller := controller\<rparr>)))
             (\<lambda>(times, g', roce).
           let g'' = g'\<lparr>fg_kind := GenRoce roce\<rparr> in
           tthen (tmodify (\<lambda>_. g'')) (treturn (Some (times, g'', roce)))))
     | _ \<Rightarrow> tfail (UnknownGenerator node flow))"

definition roce_timeout_on_host ::
  "node_id \<Rightarrow> simulation_image \<Rightarrow> u8 \<Rightarrow> event \<Rightarrow> flow_id \<Rightarrow> (host_entry, (u64 \<times> u64 option) option) trans" where
  "roce_timeout_on_host node img data_class event flow =
     tbind (generator_position flow (UnknownGenerator node flow)) (\<lambda>position.
     on_state
       (tbind (with_generator position (roce_timeout_on_generator node (img_stop_time_ns img) event flow)) (\<lambda>fired.
        case fired of
          None \<Rightarrow> treturn None
        | Some (rearmed, g, roce) \<Rightarrow>
            tthen (tmodify (\<lambda>h. h\<lparr>hs_pfc := leave_parked_list (hs_pfc h) data_class position g roce\<rparr>))
              (treturn (Some rearmed)))))"

definition host_roce_timeout :: "node_descriptor \<Rightarrow> event \<Rightarrow> unit handler" where
  "host_roce_timeout node event =
     tbind (ts_packet (ev_payload event)) (\<lambda>packet.
     tbind (tgets ts_image) (\<lambda>img.
     tbind (tresult (image_flow_priority img (pkt_flow packet))) (\<lambda>data_class.
     tbind (host_parts_mut node (roce_timeout_on_host (nd_id node) img data_class event (pkt_flow packet)))
       (\<lambda>rearmed.
     tif_let rearmed (\<lambda>(deadline, tick_ns).
       emit_roce_timers node event (ev_payload event) tick_ns (Some deadline))))))"

subsection \<open>Data at the receiver\<close>

text \<open>
  A host's receivers are sorted by flow and name a flow once, so the binary search finds the first
  receiver of the flow.
\<close>

definition roce_receive_on_host ::
  "node_id \<Rightarrow> packet_descriptor \<Rightarrow> roce_data_header \<Rightarrow> u64 \<Rightarrow>
     (host_state, roce_receiver_action \<times> roce_receiver_state \<times> u64) trans" where
  "roce_receive_on_host node packet header now =
     (let unknown = UnknownGenerator node (pkt_flow packet) in
     tbind (tgets hs_roce_receivers) (\<lambda>table.
     tbind (tok_or unknown table) (\<lambda>receivers.
     tbind (tok_or unknown (position_of (\<lambda>r. rv_flow r = pkt_flow packet) receivers)) (\<lambda>position.
     let receiver = receivers ! position in
     if (case checked_add (rdh_psn header) (pkt_size_bytes packet) of
           None \<Rightarrow> True | Some end_psn \<Rightarrow> end_psn > rv_total_bytes receiver)
     then tfail (InconsistentRocePacket (pkt_flow packet) (pkt_id packet))
     else
       (case roce_receive receiver (rdh_psn header) (pkt_size_bytes packet) now of
          (action, receiver') \<Rightarrow>
            tthen (tmodify (\<lambda>h. h\<lparr>hs_roce_receivers := Some (receivers[position := receiver'])\<rparr>))
              (treturn (action, receiver', rv_expected_psn receiver' - rv_expected_psn receiver)))))))"

definition roce_feedback_payload ::
  "node_id \<Rightarrow> u64 \<Rightarrow> roce_receiver_action \<Rightarrow> (host_state, (payload_id \<times> bool) option) trans" where
  "roce_feedback_payload node node_count action =
     (if sends_feedback action then
        tbind (next_payload node node_count) (\<lambda>payload.
        tthen (tcounter hs_sourced_packets hs_sourced_packets_update 1 (CounterOverflow node))
        (tbind claim_ready (\<lambda>ready. treturn (Some (payload, ready)))))
      else treturn None)"

definition roce_data_on_host ::
  "node_id \<Rightarrow> u64 \<Rightarrow> packet_descriptor \<Rightarrow> roce_data_header \<Rightarrow> u64 \<Rightarrow>
     (host_entry, (payload_id \<times> bool) option \<times> roce_receiver_action \<times> roce_receiver_state \<times> pending_causes) trans" where
  "roce_data_on_host node node_count packet header now =
     tbind (on_state (roce_receive_on_host node packet header now)) (\<lambda>(action, receiver, advance).
     tbind (inbound_progress_of (pkt_flow packet)
         \<lparr>ib_sequence = rdh_psn header, ib_bytes = pkt_size_bytes packet, ib_advance = advance\<rparr> node) (\<lambda>causes.
     tthen (on_state (tcounter hs_received_packets hs_received_packets_update 1 (CounterOverflow node)))
     (tbind (on_state (roce_feedback_payload node node_count action)) (\<lambda>feedback.
      treturn (feedback, action, receiver, causes)))))"

definition roce_reply ::
  "packet_descriptor \<Rightarrow> roce_data_header \<Rightarrow> payload_id \<Rightarrow> roce_receiver_action \<Rightarrow> roce_receiver_state \<Rightarrow>
     execution_error + packet_descriptor" where
  "roce_reply packet header payload action receiver =
     (if unat (pkt_size_bytes packet) < 2 ^ 32 then
        let h = \<lparr>rah_acknowledgment = rv_expected_psn receiver,
                 rah_echoed_sent_time_ns = rdh_sent_time_ns header,
                 rah_acknowledged_bytes = ucast (pkt_size_bytes packet),
                 rah_ce_echo = (packet_ecn_codepoint packet = Ce)\<rparr>
        in Inr \<lparr>pkt_id = payload, pkt_flow = pkt_flow packet, pkt_size_bytes = rv_ack_size_bytes receiver,
                pkt_ecn_marked = False, pkt_kind = (if action = ActNack then RoceNack h else RoceAck h)\<rparr>
      else Inl (InconsistentRocePacket (pkt_flow packet) (pkt_id packet)))"

definition host_roce_data_arrival ::
  "node_descriptor \<Rightarrow> event \<Rightarrow> packet_descriptor \<Rightarrow> roce_data_header \<Rightarrow> unit handler" where
  "host_roce_data_arrival node event packet header =
     tbind (ts_flow (pkt_flow packet)) (\<lambda>flow.
     if flow_target flow \<noteq> nd_id node then tfail (FlowRouteMiss (flow_id_of flow) (nd_id node))
     else
       tbind (tgets ts_image) (\<lambda>img.
       tbind (host_parts_mut node (roce_data_on_host (nd_id node) (node_count_of img) packet header
                (key_time_ns (ev_key event)))) (\<lambda>(feedback, action, receiver, stage_causes).
       tthen (record_arrival (nd_id node) packet Delivered)
       (tthen (mark_terminal (pkt_id packet))
       (tthen (tif_let feedback (\<lambda>(payload, schedule_ready).
          tbind (tresult (roce_reply packet header payload action receiver)) (\<lambda>reply.
          tthen (source_new_packet node (key_time_ns (ev_key event)) reply)
            (twhen schedule_ready (emit_host_ready node event payload)))))
       (activate_causes node event stage_causes))))))"

subsection \<open>Host-link flow control\<close>

text \<open>
  A PAUSE or RESUME at a host: the set of controllers that pause the class, and whether the class
  became free.
\<close>

definition host_pfc_control :: "node_id \<Rightarrow> node_id \<Rightarrow> pfc_header \<Rightarrow> (host_state, bool) trans" where
  "host_pfc_control node controller header =
     (let priority = unat (pfch_priority header) in
     tbind (tgets hs_pfc) (\<lambda>table.
     tbind (tok_or (InvalidSchedulerState node) table) (\<lambda>pfc.
     tbind (tindex (hp_paused_by_controller pfc) priority) (\<lambda>controllers.
     let controllers' = (if pfch_pause header then insert controller controllers else controllers - {controller})
     in tthen (tmodify (\<lambda>h. h\<lparr>hs_pfc := Some (pfc\<lparr>hp_paused_by_controller :=
                  (hp_paused_by_controller pfc)[priority := controllers']\<rparr>)\<rparr>))
          (treturn (\<not> pfch_pause header \<and> controller \<in> controllers \<and> controllers' = {}))))))"

definition restart_parked ::
  "simulation_image \<Rightarrow> node_id \<Rightarrow> u64 \<Rightarrow> nat \<Rightarrow> (host_state, (payload_id \<times> u64) option) trans" where
  "restart_parked img node now position = with_generator position (tbind (tgets id) (\<lambda>g.
     case fg_kind g of
       GenRoce roce0 \<Rightarrow>
         tbind (texpect (dcqcn_materialize (rq_controller roce0)
                  (rq_snd_una roce0 \<ge> rp_total_bytes (rq_pacer roce0)) now)) (\<lambda>(_, controller).
         tbind (tresult (restart_roce_pacer g (roce0\<lparr>rq_controller := controller\<rparr>) now (img_stop_time_ns img)))
           (\<lambda>(tick_ns, g', roce).
         tthen (tmodify (\<lambda>_. settle_pair roce (se_status (fg_next_emission g')) g'))
         (tthen (tresult (image_flow_priority img (fg_flow g)))
         (treturn (map_option (Pair (rq_pacing_timer_payload roce)) tick_ns)))))
     | _ \<Rightarrow> tfail (InvalidSchedulerState node)))"

fun restart_all ::
  "simulation_image \<Rightarrow> node_id \<Rightarrow> u64 \<Rightarrow> nat list \<Rightarrow> (host_state, (payload_id \<times> u64) list) trans" where
  "restart_all img node now [] = treturn []"
| "restart_all img node now (position # positions) =
     tbind (restart_parked img node now position) (\<lambda>tick.
     tbind (restart_all img node now positions) (\<lambda>ticks.
     treturn ((case tick of None \<Rightarrow> [] | Some t \<Rightarrow> [t]) @ ticks)))"

text \<open>The pairs parked for the class leave the list, in position order, and restart.\<close>

definition take_parked :: "node_id \<Rightarrow> nat \<Rightarrow> (host_state, nat list) trans" where
  "take_parked node priority = tbind (tgets hs_pfc) (\<lambda>table.
     tbind (tok_or (InvalidSchedulerState node) table) (\<lambda>pfc.
     tbind (tindex (hp_pause_parked pfc) priority) (\<lambda>parked.
     tthen (tmodify (\<lambda>h. h\<lparr>hs_pfc := Some (pfc\<lparr>hp_pause_parked := (hp_pause_parked pfc)[priority := {}]\<rparr>)\<rparr>))
       (treturn (sorted_list_of_set parked)))))"

definition claim_position :: "nat \<Rightarrow> (host_state, payload_id option) trans" where
  "claim_position position = tbind claim_ready (\<lambda>claimed.
     if claimed then tbind (tgets hs_queue) (\<lambda>queue. tbind (tindex queue position) (\<lambda>p. treturn (Some p)))
     else treturn None)"

definition host_pfc_remote_arrival :: "node_descriptor \<Rightarrow> event \<Rightarrow> pfc_header \<Rightarrow> unit handler" where
  "host_pfc_remote_arrival node event header =
     (let priority = unat (pfch_priority header); now = key_time_ns (ev_key event) in
     tbind (host_state_mut node (host_pfc_control (nd_id node) (key_origin_node (ev_key event)) header))
       (\<lambda>unpaused.
     tthen (mark_terminal (ev_payload event))
     (twhen unpaused
       (tbind (host_pfc_first_eligible node) (\<lambda>eligible.
        tbind (case eligible of
                 None \<Rightarrow> treturn None
               | Some position \<Rightarrow> host_state_mut node (claim_position position)) (\<lambda>ready_payload.
        tbind (tgets ts_image) (\<lambda>img.
        tbind (host_state_mut node (tbind (take_parked (nd_id node) priority) (\<lambda>parked.
                 restart_all img (nd_id node) now parked))) (\<lambda>restarts.
        tthen (tif_let ready_payload (emit_host_ready node event))
        (tfor restarts (\<lambda>(payload, time_ns). emit_from_host node event
           \<lparr>ce_target = nd_id node, ce_kind = PacingTimer, ce_payload = payload, ce_time_ns = time_ns\<rparr>))))))))))"

end
