(* ===== verification/Switch_Handlers.thy ===== *)
theory Switch_Handlers
  imports Host_Service
begin

section \<open>Switches\<close>

text \<open>
  The switch handlers of \<open>executor/src/scalar.rs\<close>: the admission of an arriving packet, a control
  frame of priority flow control, the start and the completion of a transmission.  A switch's queue
  is found by its egress link; \<open>with_queue\<close> runs a transition of one queue of a switch.
\<close>

definition queue_slot_of :: "link_id option \<Rightarrow> switch_queue_state list \<Rightarrow> nat option" where
  "queue_slot_of egress_link queues = position_of (\<lambda>queue. sq_egress_link queue = egress_link) queues"

definition find_queue :: "node_descriptor \<Rightarrow> link_id option \<Rightarrow> (nat \<times> switch_queue_state) handler" where
  "find_queue node egress_link = tbind (switch_state_of node) (\<lambda>state.
     tbind (tok_or (MissingSwitchQueue (nd_id node) egress_link) (queue_slot_of egress_link (ss_queues state)))
       (\<lambda>slot. treturn (slot, ss_queues state ! slot)))"

definition with_queue :: "nat \<Rightarrow> (switch_queue_state, 'a) trans \<Rightarrow> (switch_state, 'a) trans" where
  "with_queue slot m = tbind (tgets ss_queues) (\<lambda>queues.
     if slot < length queues
     then tzoom (\<lambda>s. ss_queues s ! slot) (\<lambda>q s. s\<lparr>ss_queues := (ss_queues s)[slot := q]\<rparr>) m
     else tpanic)"

text \<open>\<open>self.switch_queue_bytes[state_slot][queue_slot]\<close>\<close>

definition queue_bytes_at :: "nat \<Rightarrow> nat \<Rightarrow> u64 handler" where
  "queue_bytes_at state_slot queue_slot = tbind (tgets ts_switch_queue_bytes) (\<lambda>table.
     tbind (tindex table state_slot) (\<lambda>row. tindex row queue_slot))"

definition set_queue_bytes :: "nat \<Rightarrow> nat \<Rightarrow> u64 option \<Rightarrow> node_id \<Rightarrow> unit handler" where
  "set_queue_bytes state_slot queue_slot total_bytes node =
     tbind (tok_or (CounterOverflow node) total_bytes) (\<lambda>v.
     tmodify (\<lambda>s. s\<lparr>ts_switch_queue_bytes := (ts_switch_queue_bytes s)[state_slot :=
       (ts_switch_queue_bytes s ! state_slot)[queue_slot := v]]\<rparr>))"

subsection \<open>Admission\<close>

fun sp_scan ::
  "node_id \<Rightarrow> u64 list \<Rightarrow> u64 \<Rightarrow> nat \<Rightarrow> payload_id list \<Rightarrow> nat handler" where
  "sp_scan node priorities incoming position [] = treturn position"
| "sp_scan node priorities incoming position (payload # queue) =
     tbind (ts_packet payload) (\<lambda>queued.
     tbind (tok_or (InvalidSchedulerState node) (scheduler_class (pkt_flow queued) (length priorities))) (\<lambda>cls.
     if priorities ! cls < incoming then treturn position
     else sp_scan node priorities incoming (Suc position) queue))"

definition switch_sp_insertion_position ::
  "node_descriptor \<Rightarrow> link_id option \<Rightarrow> flow_id \<Rightarrow> nat option handler" where
  "switch_sp_insertion_position node egress_link incoming_flow =
     tbind (find_queue node egress_link) (\<lambda>(_, queue).
     case sq_scheduler queue of
       StaticPriority priorities \<Rightarrow>
         tbind (tok_or (InvalidSchedulerState (nd_id node)) (scheduler_class incoming_flow (length priorities)))
           (\<lambda>cls.
         tbind (sp_scan (nd_id node) priorities (priorities ! cls) 0 (sq_queue queue)) (\<lambda>position.
         treturn (Some position)))
     | _ \<Rightarrow> treturn None)"

definition ingress_slot :: "pfc_queue_state \<Rightarrow> link_id option \<Rightarrow> nat option" where
  "ingress_slot pfc incoming_link =
     position_of (\<lambda>ingress. Some (pi_controlled_link ingress) = incoming_link) (pq_ingresses pfc)"

definition ingress_of :: "switch_queue_state \<Rightarrow> link_id option \<Rightarrow> (pfc_queue_state \<times> nat) option" where
  "ingress_of queue incoming_link = Option.bind (sq_pfc queue) (\<lambda>pfc.
     map_option (Pair pfc) (ingress_slot pfc incoming_link))"

definition pfc_overflow :: "switch_queue_state \<Rightarrow> link_id option \<Rightarrow> nat \<Rightarrow> u64 \<Rightarrow> ('s, bool) trans" where
  "pfc_overflow queue incoming_link priority size_bytes =
     (case ingress_of queue incoming_link of
        None \<Rightarrow> treturn False
      | Some (pfc, slot) \<Rightarrow>
          let ingress = pq_ingresses pfc ! slot in
          tbind (tindex (pi_xoff_threshold_bytes ingress) priority) (\<lambda>xoff.
          if xoff = 0 then treturn False
          else
            tbind (tindex (pi_occupancy_bytes ingress) priority) (\<lambda>occupancy.
            tbind (tindex (pi_buffer_capacity_bytes ingress) priority) (\<lambda>capacity.
            treturn (case checked_add occupancy size_bytes of None \<Rightarrow> True | Some depth \<Rightarrow> depth > capacity)))))"

definition admission_action ::
  "node_id \<Rightarrow> u64 \<Rightarrow> u64 \<Rightarrow> u64 \<Rightarrow> link_id option \<Rightarrow> nat \<Rightarrow> packet_descriptor \<Rightarrow> payload_id \<Rightarrow>
     (switch_queue_state, queue_admission_action) trans" where
  "admission_action node seed queue_id queue_bytes incoming_link priority packet payload =
     tbind (tgets id) (\<lambda>queue.
     tbind (pfc_overflow queue incoming_link priority (pkt_size_bytes packet)) (\<lambda>overflow.
     if overflow then treturn AdmitDrop
     else case sq_drop_mark queue of
       TailDrop \<Rightarrow> tresult (taildrop_action (sq_queue_capacity_packets queue)
         (u64_of_len (length (sq_queue queue))) queue_bytes (pkt_size_bytes packet) node)
     | EcnRamp policy \<Rightarrow> treturn (ecn_ramp_action policy queue_bytes packet seed node queue_id payload)))"

definition enqueue_by_discipline ::
  "node_id \<Rightarrow> u64 \<Rightarrow> u64 option \<Rightarrow> nat option \<Rightarrow> packet_descriptor \<Rightarrow> payload_id \<Rightarrow>
     (switch_queue_state, unit) trans" where
  "enqueue_by_discipline node now rate_bps sp_position packet payload = tbind (tgets id) (\<lambda>queue.
     case sq_scheduler queue of
       StaticPriority _ \<Rightarrow>
         tbind (tok_or (InvalidSchedulerState node) sp_position) (\<lambda>position.
         tmodify (\<lambda>q. q\<lparr>sq_queue := vec_insert position payload (sq_queue q)\<rparr>))
     | WeightedFairQueue wfq \<Rightarrow>
         tbind (tok_or (InvalidSchedulerState node) rate_bps) (\<lambda>rate.
         tbind (tresult (wfq_enqueue packet now rate node (wfq, sq_queue queue))) (\<lambda>(wfq', queue').
         tmodify (\<lambda>q. q\<lparr>sq_scheduler := WeightedFairQueue wfq', sq_queue := queue'\<rparr>)))
     | _ \<Rightarrow> tmodify (\<lambda>q. q\<lparr>sq_queue := sq_queue q @ [payload]\<rparr>))"

text \<open>The ingress occupancy of a class, raised by an admission: a PAUSE when it reaches the threshold.\<close>

definition put_ingress ::
  "pfc_queue_state \<Rightarrow> nat \<Rightarrow> pfc_ingress_state \<Rightarrow> switch_queue_state \<Rightarrow> switch_queue_state" where
  "put_ingress pfc slot ingress q = q\<lparr>sq_pfc := Some (pfc\<lparr>pq_ingresses := (pq_ingresses pfc)[slot := ingress]\<rparr>)\<rparr>"

definition frame_plan :: "pfc_ingress_state \<Rightarrow> flow_id \<Rightarrow> nat \<Rightarrow> bool \<Rightarrow> pfc_frame_plan" where
  "frame_plan ingress flow priority pause =
     \<lparr>fp_channel_index = pi_control_channel_index ingress, fp_flow = flow,
      fp_header = \<lparr>pfch_controlled_link = pi_controlled_link ingress, pfch_priority = of_nat priority,
                   pfch_pause = pause\<rparr>\<rparr>"

definition ingress_admit ::
  "node_id \<Rightarrow> link_id option \<Rightarrow> nat \<Rightarrow> packet_descriptor \<Rightarrow> (switch_queue_state, pfc_frame_plan option) trans" where
  "ingress_admit node incoming_link priority packet = tbind (tgets id) (\<lambda>queue.
     case ingress_of queue incoming_link of
       None \<Rightarrow> treturn None
     | Some (pfc, slot) \<Rightarrow>
         let ingress = pq_ingresses pfc ! slot in
         tbind (tindex (pi_xoff_threshold_bytes ingress) priority) (\<lambda>xoff.
         if xoff = 0 then treturn None
         else
           tbind (tindex (pi_occupancy_bytes ingress) priority) (\<lambda>occupancy.
           tbind (tindex (pi_pause_asserted ingress) priority) (\<lambda>asserted.
           tbind (tok_or (CounterOverflow node) (checked_add occupancy (pkt_size_bytes packet))) (\<lambda>depth.
           let ingress' = ingress\<lparr>pi_occupancy_bytes := (pi_occupancy_bytes ingress)[priority := depth]\<rparr> in
           if depth < xoff \<or> asserted
           then tthen (tmodify (put_ingress pfc slot ingress')) (treturn None)
           else tthen (tmodify (put_ingress pfc slot
                         (ingress'\<lparr>pi_pause_asserted := (pi_pause_asserted ingress)[priority := True]\<rparr>)))
                  (treturn (Some (frame_plan ingress (pkt_flow packet) priority True))))))))"

definition claim_queue_ready :: "nat \<Rightarrow> (switch_queue_state, bool) trans" where
  "claim_queue_ready priority = tbind (tgets id) (\<lambda>queue.
     tbind (case sq_pfc queue of None \<Rightarrow> treturn False | Some pfc \<Rightarrow> queue_paused_at pfc priority) (\<lambda>paused.
     if sq_egress_link queue \<noteq> None \<and> sq_in_service queue = None \<and> \<not> sq_tx_ready_pending queue \<and> \<not> paused
     then tthen (tmodify (sq_tx_ready_pending_update (\<lambda>_. True))) (treturn True)
     else treturn False))"

text \<open>The admission on the switch: \<open>None\<close> for a drop, else whether to schedule service, to mark, and a frame.\<close>

definition admit_on_switch ::
  "node_id \<Rightarrow> u64 \<Rightarrow> u64 \<Rightarrow> nat \<Rightarrow> u64 \<Rightarrow> u64 option \<Rightarrow> nat option \<Rightarrow> link_id option \<Rightarrow> nat \<Rightarrow>
     packet_descriptor \<Rightarrow> payload_id \<Rightarrow> (switch_state, (bool \<times> bool \<times> pfc_frame_plan option) option) trans" where
  "admit_on_switch node seed now queue_slot queue_bytes rate_bps sp_position incoming_link priority packet payload =
     tthen (tcounter ss_arrived_packets ss_arrived_packets_update 1 (CounterOverflow node))
     (tbind (with_queue queue_slot (admission_action node seed (u64_of_len queue_slot) queue_bytes incoming_link
               priority packet payload)) (\<lambda>action.
      if action = AdmitDrop then
        tthen (tcounter ss_dropped_packets ss_dropped_packets_update 1 (CounterOverflow node)) (treturn None)
      else
        with_queue queue_slot
          (tthen (enqueue_by_discipline node now rate_bps sp_position packet payload)
          (tbind (claim_queue_ready priority) (\<lambda>schedule_ready.
           tbind (ingress_admit node incoming_link priority packet) (\<lambda>pfc_plan.
           treturn (Some (schedule_ready, action = AdmitMark, pfc_plan))))))))"

subsection \<open>Control frames\<close>

definition switch_pfc_control ::
  "node_id \<Rightarrow> node_id \<Rightarrow> pfc_header \<Rightarrow> (switch_queue_state, bool) trans" where
  "switch_pfc_control node controller header =
     (let priority = unat (pfch_priority header) in
     tbind (tgets sq_pfc) (\<lambda>table.
     tbind (tok_or (InvalidSchedulerState node) table) (\<lambda>pfc.
     tbind (tindex (pq_paused_by_controller pfc) priority) (\<lambda>controllers.
     let controllers' = (if pfch_pause header then insert controller controllers else controllers - {controller});
         resumed = (\<not> pfch_pause header \<and> controller \<in> controllers \<and> controllers' = {})
     in tthen (tmodify (\<lambda>q. q\<lparr>sq_pfc := Some (pfc\<lparr>pq_paused_by_controller :=
                  (pq_paused_by_controller pfc)[priority := controllers']\<rparr>)\<rparr>))
          (tgets (\<lambda>q. resumed \<and> sq_in_service q = None \<and> \<not> sq_tx_ready_pending q))))))"

text \<open>The first packet a queue with flow control may serve, by its class order where it keeps one.\<close>

definition first_eligible_of ::
  "node_descriptor \<Rightarrow> nat \<Rightarrow> nat \<Rightarrow> switch_queue_state \<Rightarrow> pfc_queue_state \<Rightarrow> (nat \<times> payload_id) option handler" where
  "first_eligible_of node state_slot queue_slot queue pfc =
     tbind (pfc_order state_slot queue_slot) (\<lambda>order. pfc_first_eligible node queue pfc order)"

definition switch_pfc_remote_arrival :: "node_descriptor \<Rightarrow> event \<Rightarrow> pfc_header \<Rightarrow> unit handler" where
  "switch_pfc_remote_arrival node event header =
     tbind (local_state_slot node) (\<lambda>state_slot.
     tbind (find_queue node (Some (pfch_controlled_link header))) (\<lambda>(queue_slot, _).
     tbind (switch_state_mut node (with_queue queue_slot
              (switch_pfc_control (nd_id node) (key_origin_node (ev_key event)) header))) (\<lambda>may_schedule.
     tthen (twhen (pfch_pause header) (ensure_pfc_order state_slot queue_slot))
     (tbind (if may_schedule then
               tbind (switch_state_mut node (with_queue queue_slot (tgets id))) (\<lambda>queue.
               tbind (tok_or (InvalidSchedulerState (nd_id node)) (sq_pfc queue)) (\<lambda>pfc.
               tbind (first_eligible_of node state_slot queue_slot queue pfc) (\<lambda>first_eligible.
               case first_eligible of
                 None \<Rightarrow> treturn None
               | Some (_, payload) \<Rightarrow>
                   tthen (switch_state_mut node (with_queue queue_slot
                            (tmodify (sq_tx_ready_pending_update (\<lambda>_. True)))))
                     (treturn (Some payload)))))
             else treturn None) (\<lambda>schedule_payload.
      tthen (mark_terminal (ev_payload event))
        (tif_let schedule_payload (emit_switch_ready node event)))))))"

definition switch_remote_arrival :: "node_descriptor \<Rightarrow> event \<Rightarrow> unit handler" where
  "switch_remote_arrival node event =
     tbind (ts_packet (ev_payload event)) (\<lambda>packet.
     case pkt_kind packet of
       Pfc header \<Rightarrow> switch_pfc_remote_arrival node event header
     | _ \<Rightarrow>
         tbind (packet_egress_at packet (nd_id node)) (\<lambda>egress_link.
         tbind (case egress_link of
                  None \<Rightarrow> treturn None
                | Some l \<Rightarrow> tbind (ts_link l) (\<lambda>link. treturn (Some (link_rate_bps link)))) (\<lambda>rate_bps.
         tbind (switch_sp_insertion_position node egress_link (pkt_flow packet)) (\<lambda>sp_position.
         tbind (local_state_slot node) (\<lambda>state_slot.
         tbind (find_queue node egress_link) (\<lambda>(queue_slot, queue).
         tbind (queue_bytes_at state_slot queue_slot) (\<lambda>queue_bytes.
         tbind (if sq_pfc queue \<noteq> None then packet_pfc_class packet else treturn 0) (\<lambda>priority.
         tbind (if sq_pfc queue \<noteq> None then packet_incoming_link_at packet (nd_id node) else treturn None)
           (\<lambda>incoming_link.
         tbind (tgets ts_image) (\<lambda>img.
         tbind (switch_state_mut node (admit_on_switch (nd_id node) (img_seed img) (key_time_ns (ev_key event))
                  queue_slot queue_bytes rate_bps sp_position incoming_link priority packet (ev_payload event)))
           (\<lambda>admitted.
         case admitted of
           None \<Rightarrow>
             tthen (record_arrival (nd_id node) packet Dropped) (mark_terminal (ev_payload event))
         | Some (schedule_ready, mark_packet, pfc_plan) \<Rightarrow>
             tthen (set_queue_bytes state_slot queue_slot (checked_add queue_bytes (pkt_size_bytes packet))
                      (nd_id node))
             (tthen (twhen (sq_pfc queue \<noteq> None) (pfc_order_mut state_slot queue_slot (pfc_order_push priority)))
             (tthen (twhen mark_packet (set_packet_marked (ev_payload event)))
             (tthen (record_arrival (nd_id node) packet Admitted)
             (tthen (tif_let pfc_plan (emit_pfc_frame node event))
             (twhen schedule_ready (emit_switch_ready node event (ev_payload event))))))))))))))))))"

subsection \<open>Starting a transmission\<close>

text \<open>
  \<open>SwitchServicePlan\<close>; its four parallel vectors of eligible packets are one list of selections.
\<close>

record pfc_selection =
  sel_position :: nat
  sel_packet :: packet_descriptor
  sel_priority :: nat
  sel_incoming_link :: "link_id option"

datatype switch_service_plan =
    HeadPlan "packet_descriptor option"
  | PfcFirstPlan "pfc_selection option"
  | EligiblePlan "pfc_selection list"

fun eligible_packets ::
  "node_id \<Rightarrow> pfc_queue_state option \<Rightarrow> nat \<Rightarrow> payload_id list \<Rightarrow> pfc_selection list handler" where
  "eligible_packets node pfc position [] = treturn []"
| "eligible_packets node pfc position (payload # queue) =
     tbind (ts_packet payload) (\<lambda>packet.
     tbind (packet_pfc_class packet) (\<lambda>priority.
     tbind (case pfc of None \<Rightarrow> treturn False | Some pfc \<Rightarrow> queue_paused_at pfc priority) (\<lambda>paused.
     tbind (if paused then treturn []
            else tbind (packet_incoming_link_at packet node) (\<lambda>incoming_link.
              treturn [\<lparr>sel_position = position, sel_packet = packet, sel_priority = priority,
                        sel_incoming_link = incoming_link\<rparr>])) (\<lambda>selected.
     tbind (eligible_packets node pfc (Suc position) queue) (\<lambda>rest.
     treturn (selected @ rest))))))"

definition pfc_first_plan ::
  "node_descriptor \<Rightarrow> nat \<Rightarrow> nat \<Rightarrow> switch_queue_state \<Rightarrow> pfc_queue_state \<Rightarrow> pfc_selection option handler" where
  "pfc_first_plan node state_slot queue_slot queue pfc =
     tbind (first_eligible_of node state_slot queue_slot queue pfc) (\<lambda>first_eligible.
     case first_eligible of
       None \<Rightarrow> treturn None
     | Some (position, payload) \<Rightarrow>
         tbind (ts_packet payload) (\<lambda>packet.
         tbind (packet_pfc_class packet) (\<lambda>priority.
         tbind (packet_incoming_link_at packet (nd_id node)) (\<lambda>incoming_link.
         treturn (Some \<lparr>sel_position = position, sel_packet = packet, sel_priority = priority,
                        sel_incoming_link = incoming_link\<rparr>)))))"

definition service_plan ::
  "node_descriptor \<Rightarrow> nat \<Rightarrow> nat \<Rightarrow> switch_queue_state \<Rightarrow> switch_service_plan handler" where
  "service_plan node state_slot queue_slot queue =
     (if queue_serves_head queue then
        (case sq_queue queue of
           [] \<Rightarrow> treturn (HeadPlan None)
         | payload # _ \<Rightarrow> tbind (ts_packet payload) (\<lambda>packet. treturn (HeadPlan (Some packet))))
      else case sq_pfc queue of
        Some pfc \<Rightarrow>
          if scheduler_serves_head (sq_scheduler queue)
          then tbind (pfc_first_plan node state_slot queue_slot queue pfc) (\<lambda>s. treturn (PfcFirstPlan s))
          else tbind (eligible_packets (nd_id node) (Some pfc) 0 (sq_queue queue)) (\<lambda>s. treturn (EligiblePlan s))
      | None \<Rightarrow>
          tbind (eligible_packets (nd_id node) None 0 (sq_queue queue)) (\<lambda>s. treturn (EligiblePlan s)))"

text \<open>A weighted fair queue serves a packet that carries its finish tag.\<close>

definition check_finish_tag :: "node_id \<Rightarrow> payload_id \<Rightarrow> (switch_queue_state, unit) trans" where
  "check_finish_tag node payload = tbind (tgets sq_scheduler) (\<lambda>scheduler.
     case scheduler of
       WeightedFairQueue wfq \<Rightarrow>
         tthen (tok_or (MissingWfqFinishTag node payload) (om_get (wfq_packet_finish_times wfq) payload))
           (treturn ())
     | _ \<Rightarrow> treturn ())"

text \<open>The ingress occupancy of a class, lowered by a service: a RESUME when it falls to the lower threshold.\<close>

definition ingress_drain ::
  "node_id \<Rightarrow> pfc_selection \<Rightarrow> (switch_queue_state, pfc_frame_plan option) trans" where
  "ingress_drain node selection = tbind (tgets id) (\<lambda>queue.
     let priority = sel_priority selection in
     case ingress_of queue (sel_incoming_link selection) of
       None \<Rightarrow> treturn None
     | Some (pfc, slot) \<Rightarrow>
         let ingress = pq_ingresses pfc ! slot in
         tbind (tindex (pi_xoff_threshold_bytes ingress) priority) (\<lambda>xoff.
         if xoff = 0 then treturn None
         else
           tbind (tindex (pi_occupancy_bytes ingress) priority) (\<lambda>occupancy.
           tbind (tindex (pi_pause_asserted ingress) priority) (\<lambda>asserted.
           tbind (tok_or (CounterOverflow node) (checked_sub occupancy (pkt_size_bytes (sel_packet selection)))) (\<lambda>depth.
           tbind (tindex (pi_xon_threshold_bytes ingress) priority) (\<lambda>xon.
           let ingress' = ingress\<lparr>pi_occupancy_bytes := (pi_occupancy_bytes ingress)[priority := depth]\<rparr> in
           if \<not> asserted \<or> depth > xon
           then tthen (tmodify (put_ingress pfc slot ingress')) (treturn None)
           else tthen (tmodify (put_ingress pfc slot
                         (ingress'\<lparr>pi_pause_asserted := (pi_pause_asserted ingress)[priority := False]\<rparr>)))
                  (treturn (Some (frame_plan ingress (pkt_flow (sel_packet selection)) priority False)))))))))"

text \<open>What a service starts: payload, packet, the class where a class order may record it, and a frame.\<close>

record started_service =
  sv_payload :: payload_id
  sv_packet :: packet_descriptor
  sv_priority :: "nat option"
  sv_plan :: "pfc_frame_plan option"

definition serve_selected ::
  "node_id \<Rightarrow> pfc_selection \<Rightarrow> (switch_queue_state, started_service option) trans" where
  "serve_selected node selection = tbind (tgets sq_queue) (\<lambda>queue.
     tbind (tok_or (InvalidSchedulerState node) (vec_remove (sel_position selection) queue)) (\<lambda>(payload, rest).
     tthen (tmodify (sq_queue_update (\<lambda>_. rest)))
     (tthen (check_finish_tag node payload)
     (tthen (tmodify (sq_in_service_update (\<lambda>_. Some payload)))
     (tbind (ingress_drain node selection) (\<lambda>plan.
      treturn (Some \<lparr>sv_payload = payload, sv_packet = sel_packet selection,
                     sv_priority = Some (sel_priority selection), sv_plan = plan\<rparr>)))))))"

definition serve_queue ::
  "node_id \<Rightarrow> link_id \<Rightarrow> switch_service_plan \<Rightarrow> (switch_queue_state, started_service option) trans" where
  "serve_queue node egress_link plan =
     tthen (tmodify (sq_tx_ready_pending_update (\<lambda>_. False)))
     (tbind (tgets id) (\<lambda>queue.
      if sq_in_service queue \<noteq> None then tfail (SwitchAlreadyTransmitting node egress_link)
      else case plan of
        HeadPlan None \<Rightarrow> treturn None
      | HeadPlan (Some packet) \<Rightarrow>
          (case sq_queue queue of
             [] \<Rightarrow> tfail (InvalidSchedulerState node)
           | payload # rest \<Rightarrow>
               tthen (tmodify (sq_queue_update (\<lambda>_. rest)))
               (tthen (check_finish_tag node payload)
               (tthen (tmodify (sq_in_service_update (\<lambda>_. Some payload)))
               (treturn (Some \<lparr>sv_payload = payload, sv_packet = packet, sv_priority = None, sv_plan = None\<rparr>)))))
      | PfcFirstPlan None \<Rightarrow> treturn None
      | PfcFirstPlan (Some selection) \<Rightarrow> serve_selected node selection
      | EligiblePlan selections \<Rightarrow>
          tbind (texpect (scheduler_select_position (sq_scheduler queue) (map sel_packet selections) node)) (\<lambda>r.
          tbind (tresult r) (\<lambda>(selected, scheduler).
          tthen (tmodify (sq_scheduler_update (\<lambda>_. scheduler)))
          (case selected of
             None \<Rightarrow> treturn None
           | Some (position, _) \<Rightarrow> tbind (tindex selections position) (serve_selected node))))))"

definition start_service ::
  "node_descriptor \<Rightarrow> event \<Rightarrow> link_id \<Rightarrow> started_service \<Rightarrow> unit handler" where
  "start_service node event egress_link service =
     tbind (ts_link egress_link) (\<lambda>link.
     if link_source link \<noteq> nd_id node
     then tfail (LinkSourceMismatch (link_id link) (nd_id node) (link_source link))
     else
       tthen (start_transmission (nd_id node) (sv_payload service))
       (tbind (transmission_times link (key_time_ns (ev_key event)) (pkt_size_bytes (sv_packet service)))
         (\<lambda>(departure_time_ns, arrival_time_ns).
       tthen (tif_let (sv_plan service) (emit_pfc_frame node event))
       (tthen (emit_from_switch node event
                \<lparr>ce_target = nd_id node, ce_kind = TxComplete, ce_payload = sv_payload service,
                 ce_time_ns = departure_time_ns\<rparr>)
       (tbind (packet_remote_target_for (sv_packet service) (link_id link)) (\<lambda>target.
        emit_from_switch node event
          \<lparr>ce_target = target, ce_kind = RemoteArrival, ce_payload = sv_payload service,
           ce_time_ns = arrival_time_ns\<rparr>))))))"

definition switch_tx_ready :: "node_descriptor \<Rightarrow> event \<Rightarrow> unit handler" where
  "switch_tx_ready node event =
     tbind (ts_packet (ev_payload event)) (\<lambda>ready_packet.
     tbind (packet_egress_at ready_packet (nd_id node)) (\<lambda>egress.
     tbind (tok_or (MissingSwitchQueue (nd_id node) None) egress) (\<lambda>egress_link.
     tbind (local_state_slot node) (\<lambda>state_slot.
     tbind (find_queue node (Some egress_link)) (\<lambda>(queue_slot, queue).
     tbind (service_plan node state_slot queue_slot queue) (\<lambda>plan.
     tbind (switch_state_mut node (with_queue queue_slot (serve_queue (nd_id node) egress_link plan))) (\<lambda>started.
     tif_let started (\<lambda>service.
       tbind (queue_bytes_at state_slot queue_slot) (\<lambda>queue_bytes.
       tthen (set_queue_bytes state_slot queue_slot (checked_sub queue_bytes (pkt_size_bytes (sv_packet service)))
                (nd_id node))
       (tthen (tif_let (sv_priority service) (\<lambda>priority.
                 pfc_order_mut state_slot queue_slot (\<lambda>order. snd (pfc_order_pop priority order))))
       (start_service node event egress_link service)))))))))))"

subsection \<open>Completing a transmission\<close>

definition complete_on_switch ::
  "node_id \<Rightarrow> u64 \<Rightarrow> u64 \<Rightarrow> nat \<Rightarrow> packet_descriptor \<Rightarrow> payload_id \<Rightarrow> payload_id option \<Rightarrow>
     (switch_state, payload_id option) trans" where
  "complete_on_switch node now rate_bps queue_slot packet payload eligible_next =
     tbind (with_queue queue_slot (tbind (tgets id) (\<lambda>queue.
       if sq_in_service queue \<noteq> Some payload
       then tfail (UnexpectedTxComplete node (sq_in_service queue) payload)
       else
         tthen (case sq_scheduler queue of
                  WeightedFairQueue wfq \<Rightarrow>
                    tbind (tresult (wfq_complete packet now rate_bps node wfq)) (\<lambda>wfq'.
                    tmodify (sq_scheduler_update (\<lambda>_. WeightedFairQueue wfq')))
                | _ \<Rightarrow> treturn ())
         (tthen (tmodify (sq_in_service_update (\<lambda>_. None)))
         (if eligible_next \<noteq> None \<and> \<not> sq_tx_ready_pending queue
          then tthen (tmodify (sq_tx_ready_pending_update (\<lambda>_. True))) (treturn eligible_next)
          else treturn None))))) (\<lambda>schedule_payload.
     tthen (tcounter ss_departed_packets ss_departed_packets_update 1 (CounterOverflow node))
       (treturn schedule_payload))"

definition switch_tx_complete :: "node_descriptor \<Rightarrow> event \<Rightarrow> unit handler" where
  "switch_tx_complete node event =
     tbind (ts_packet (ev_payload event)) (\<lambda>packet.
     tbind (packet_egress_at packet (nd_id node)) (\<lambda>egress.
     tbind (tok_or (MissingSwitchQueue (nd_id node) None) egress) (\<lambda>egress_link.
     tbind (ts_link egress_link) (\<lambda>link.
     tbind (find_queue node (Some egress_link)) (\<lambda>(queue_slot, queue).
     tbind (case sq_pfc queue of
              None \<Rightarrow> treturn (case sq_queue queue of [] \<Rightarrow> None | payload # _ \<Rightarrow> Some payload)
            | Some pfc \<Rightarrow>
                tbind (local_state_slot node) (\<lambda>state_slot.
                tbind (first_eligible_of node state_slot queue_slot queue pfc) (\<lambda>first_eligible.
                treturn (map_option snd first_eligible)))) (\<lambda>eligible_next.
     tbind (switch_state_mut node (complete_on_switch (nd_id node) (key_time_ns (ev_key event))
              (link_rate_bps link) queue_slot packet (ev_payload event) eligible_next)) (\<lambda>next_payload.
     tthen (record_departure (nd_id node) packet)
     (tthen (finish_transmission (nd_id node) (ev_payload event))
     (tif_let next_payload (emit_switch_ready node event))))))))))"

end
