(* ===== verification/Scalar_Run.thy ===== *)
theory Scalar_Run
  imports Roce_Handlers Switch_Handlers
begin

section \<open>Dispatch and the event loop\<close>

text \<open>
  The rest of the handlers of \<open>executor/src/scalar.rs\<close>, \<open>dispatch\<close>, and \<open>run_scalar\<close>: pop the least
  event, dispatch it, remove the timers it superseded, insert its children, until nothing is due.
\<close>

subsection \<open>Constant generators\<close>

text \<open>The next departure of a constant generator after one at \<open>now\<close>, before the stop is considered.\<close>

definition constant_next ::
  "flow_id \<Rightarrow> u64 \<Rightarrow> u64 \<Rightarrow> constant_generator \<Rightarrow> execution_error + u64 option" where
  "constant_next flow now bytes_emitted constant =
     (case cg_termination constant of
        TermBytes bytes \<Rightarrow>
          if bytes_emitted < bytes
          then and_then (ok_or (GeneratorTimeOverflow flow) (checked_add now (cg_interval_ns constant)))
                 (\<lambda>t. Inr (Some t))
          else Inr None
      | TermDurationNs duration_ns \<Rightarrow>
          and_then (ok_or (GeneratorTimeOverflow flow) (checked_add (cg_first_departure_ns constant) duration_ns))
            (\<lambda>end_time_ns.
          and_then (ok_or (GeneratorTimeOverflow flow) (checked_add now (cg_interval_ns constant)))
            (\<lambda>candidate. Inr (if candidate < end_time_ns then Some candidate else None))))"

text \<open>The emission on the generator: its kind and the candidate for the next departure.\<close>

definition constant_emission ::
  "node_id \<Rightarrow> event \<Rightarrow> packet_descriptor \<Rightarrow> (flow_generator_state, constant_generator \<times> u64 option) trans" where
  "constant_emission node event packet = tbind (tgets id) (\<lambda>g0.
     if \<not> emission_due event g0
     then tfail (UnexpectedGeneratorEmission node (pkt_flow packet) (ev_payload event))
     else
       tthen (tcounter fg_packets_emitted fg_packets_emitted_update 1 (CounterOverflow node))
       (tthen (tcounter fg_bytes_emitted fg_bytes_emitted_update (pkt_size_bytes packet) (CounterOverflow node))
       (tbind (tgets id) (\<lambda>g.
        case fg_kind g of
          GenConstant constant \<Rightarrow>
            tbind (tresult (constant_next (pkt_flow packet) (key_time_ns (ev_key event)) (fg_bytes_emitted g) constant))
              (\<lambda>candidate. treturn (constant, candidate))
        | _ \<Rightarrow> tpanic))))"

definition constant_on_host ::
  "node_id \<Rightarrow> simulation_image \<Rightarrow> event \<Rightarrow> packet_descriptor \<Rightarrow>
     (host_entry, (packet_descriptor \<times> u64) option \<times> bool) trans" where
  "constant_on_host node img event packet =
     tbind (generator_position (pkt_flow packet) (UnknownGenerator node (pkt_flow packet))) (\<lambda>position.
     on_state
       (tbind (with_generator position (constant_emission node event packet)) (\<lambda>(constant, candidate).
        tbind (case candidate of
            Some departure_ns \<Rightarrow>
              if departure_ns \<le> img_stop_time_ns img then
                tbind (next_payload node (node_count_of img)) (\<lambda>payload.
                tthen (with_generator position (tmodify (\<lambda>g. g\<lparr>fg_next_emission :=
                         \<lparr>se_status = Scheduled, se_departure_time_ns = departure_ns, se_payload = payload\<rparr>\<rparr>)))
                (treturn (Some (\<lparr>pkt_id = payload, pkt_flow = pkt_flow packet,
                   pkt_size_bytes = cg_packet_size_bytes constant, pkt_ecn_marked = False,
                   pkt_kind = Data\<rparr>, departure_ns))))
              else
                tthen (with_generator position (tmodify (\<lambda>g. g\<lparr>fg_next_emission := (fg_next_emission g)
                         \<lparr>se_status := Stopped, se_departure_time_ns := departure_ns\<rparr>\<rparr>)))
                (treturn None)
          | None \<Rightarrow> tthen (with_generator position (tmodify (set_status Finished))) (treturn None))
          (\<lambda>next_emission.
        tthen (tcounter hs_sourced_packets hs_sourced_packets_update 1 (CounterOverflow node))
        (tbind claim_ready (\<lambda>schedule_ready. treturn (next_emission, schedule_ready)))))))"

definition host_packet_arrival :: "node_descriptor \<Rightarrow> event \<Rightarrow> unit handler" where
  "host_packet_arrival node event =
     tbind (ts_packet (ev_payload event)) (\<lambda>packet.
     tbind (host_parts_mut node (tgets (\<lambda>e. first_generator (he_index e) (pkt_flow packet) \<noteq> None)))
       (\<lambda>owns_generator.
     if \<not> owns_generator then host_preloaded_packet_arrival node event
     else case pkt_kind packet of
       TcpData header \<Rightarrow> host_tcp_initial_send node event packet header
     | _ \<Rightarrow>
         tthen (set_source_time (ev_payload event) (key_time_ns (ev_key event)))
         (tbind (tgets ts_image) (\<lambda>img.
          tbind (host_parts_mut node (constant_on_host (nd_id node) img event packet))
            (\<lambda>(next_emission, schedule_ready).
          tthen (enqueue_source_packet node (ev_payload event))
          (tthen (record_sourced (nd_id node) packet)
          (tthen (tif_let next_emission (\<lambda>(next_packet, departure_ns).
             tthen (insert_packet next_packet (Some departure_ns))
               (emit_from_host node event
                  \<lparr>ce_target = nd_id node, ce_kind = PacketArrival, ce_payload = pkt_id next_packet,
                   ce_time_ns = departure_ns\<rparr>)))
          (twhen schedule_ready (emit_host_ready node event (ev_payload event))))))))))"

subsection \<open>Arrivals at a host\<close>

definition emit_feedback_driven_packet ::
  "node_descriptor \<Rightarrow> event \<Rightarrow> flow_id \<Rightarrow> u64 \<Rightarrow> unit handler" where
  "emit_feedback_driven_packet node parent flow size_bytes =
     tbind (tgets ts_image) (\<lambda>img.
     tbind (host_state_mut node
         (tbind (next_payload (nd_id node) (node_count_of img)) (\<lambda>payload.
          tthen (tcounter hs_sourced_packets hs_sourced_packets_update 1 (CounterOverflow (nd_id node)))
          (tbind claim_ready (\<lambda>ready. treturn (payload, ready)))))) (\<lambda>(payload, schedule_ready).
     tthen (source_new_packet node (key_time_ns (ev_key parent))
        \<lparr>pkt_id = payload, pkt_flow = flow, pkt_size_bytes = size_bytes, pkt_ecn_marked = False,
         pkt_kind = Data\<rparr>)
       (twhen schedule_ready (emit_host_ready node parent payload))))"

definition plain_arrival_on_host ::
  "node_id \<Rightarrow> flow_descriptor \<Rightarrow> packet_descriptor \<Rightarrow>
     (host_state, arrival_disposition \<times> generator_feedback_action) trans" where
  "plain_arrival_on_host node flow packet = tbind (tgets hs_generators) (\<lambda>generators.
     case (if is_feedback (pkt_kind packet)
           then position_of (\<lambda>g. fg_flow g = pkt_flow packet) generators else None) of
       Some position \<Rightarrow>
         tbind (with_generator position (apply_generator_feedback node)) (\<lambda>action.
         treturn (ArrivedFeedback, action))
     | None \<Rightarrow>
         if packet_terminal packet flow \<noteq> node then tfail (FlowRouteMiss (flow_id_of flow) node)
         else tthen (tcounter hs_received_packets hs_received_packets_update 1 (CounterOverflow node))
                (treturn (Delivered, NoFeedbackAction)))"

definition host_plain_arrival :: "node_descriptor \<Rightarrow> event \<Rightarrow> flow_descriptor \<Rightarrow> packet_descriptor \<Rightarrow> unit handler" where
  "host_plain_arrival node event flow packet =
     tbind (host_state_mut node (plain_arrival_on_host (nd_id node) flow packet)) (\<lambda>(disposition, action).
     tthen (record_arrival (nd_id node) packet disposition)
     (tthen (mark_terminal (ev_payload event))
     (case action of
        NoFeedbackAction \<Rightarrow> treturn ()
      | EmitFeedback flow size_bytes \<Rightarrow> emit_feedback_driven_packet node event flow size_bytes)))"

definition host_remote_arrival :: "node_descriptor \<Rightarrow> event \<Rightarrow> unit handler" where
  "host_remote_arrival node event =
     tbind (ts_packet (ev_payload event)) (\<lambda>packet.
     tbind (ts_flow (pkt_flow packet)) (\<lambda>flow.
     case pkt_kind packet of
       TcpData header \<Rightarrow> host_tcp_data_arrival node event packet header
     | TcpAck header \<Rightarrow> host_tcp_ack_arrival node event packet header
     | DcqcnCnp _ \<Rightarrow> host_dcqcn_cnp_arrival node event packet
     | RoceData header \<Rightarrow> host_roce_data_arrival node event packet header
     | RoceAck header \<Rightarrow> host_roce_feedback_arrival node event packet header False
     | RoceNack header \<Rightarrow> host_roce_feedback_arrival node event packet header True
     | Pfc header \<Rightarrow> host_pfc_remote_arrival node event header
     | StageNotify \<Rightarrow> host_notify_arrival node event packet
     | Data \<Rightarrow>
         tbind (host_state_of node) (\<lambda>state.
         if list_ex (\<lambda>receiver. dr_flow receiver = pkt_flow packet) (hs_dcqcn_receivers state)
         then host_dcqcn_data_arrival node event packet
         else host_plain_arrival node event flow packet)
     | _ \<Rightarrow> host_plain_arrival node event flow packet))"

subsection \<open>Timers of a host\<close>

definition host_retransmission_timeout :: "node_descriptor \<Rightarrow> event \<Rightarrow> unit handler" where
  "host_retransmission_timeout node event =
     tbind (host_state_mut node (tcp_timed_out event)) (\<lambda>timed_out.
     case timed_out of
       Some (flow, sequence) \<Rightarrow> tcp_retransmit_timed_out node event flow sequence
     | None \<Rightarrow>
         tbind (tgets ts_packets) (\<lambda>packets.
         case om_get packets (ev_payload event) of
           None \<Rightarrow> treturn ()
         | Some resident \<Rightarrow>
             twhen (pkt_kind (res_descriptor resident) = RocePacingTimer) (host_roce_timeout node event)))"

text \<open>Whether a compute stage, or a DCQCN generator, of the flow owns the timer.\<close>

definition compute_stage_owns :: "flow_id \<Rightarrow> host_entry \<Rightarrow> bool" where
  "compute_stage_owns flow e \<longleftrightarrow> list_ex (\<lambda>(_, position).
     compute_duration (host_stage (he_state e) position) \<noteq> None) (generators_of (he_index e) flow)"

definition dcqcn_owns :: "flow_id \<Rightarrow> host_entry \<Rightarrow> bool" where
  "dcqcn_owns flow e \<longleftrightarrow> list_ex (\<lambda>(_, position).
     case fg_kind (hs_generators (he_state e) ! position) of GenDcqcn _ \<Rightarrow> True | _ \<Rightarrow> False)
     (generators_of (he_index e) flow)"

definition host_pacing_timer :: "node_descriptor \<Rightarrow> event \<Rightarrow> unit handler" where
  "host_pacing_timer node event =
     tbind (ts_packet (ev_payload event)) (\<lambda>packet.
     case pkt_kind packet of
       RocePacingTimer \<Rightarrow> host_roce_pacing_timer node event packet
     | StageNotify \<Rightarrow> host_notify_timer node event (pkt_flow packet)
     | _ \<Rightarrow>
         tbind (host_parts_mut node (tgets (compute_stage_owns (pkt_flow packet)))) (\<lambda>compute.
         if compute then host_compute_timer node event (pkt_flow packet)
         else
           tbind (host_parts_mut node (tgets (dcqcn_owns (pkt_flow packet)))) (\<lambda>dcqcn.
           if dcqcn then host_dcqcn_pacing_timer node event packet
           else host_rate_pacing_timer node event packet)))"

subsection \<open>Dispatch\<close>

fun run_handler :: "transition_handler \<Rightarrow> node_descriptor \<Rightarrow> event \<Rightarrow> unit handler" where
  "run_handler HostPacketArrival node event = host_packet_arrival node event"
| "run_handler HostTxReady node event = host_tx_ready node event"
| "run_handler HostTxComplete node event = host_tx_complete node event"
| "run_handler HostRemoteArrival node event = host_remote_arrival node event"
| "run_handler SwitchTxReady node event = switch_tx_ready node event"
| "run_handler SwitchTxComplete node event = switch_tx_complete node event"
| "run_handler SwitchRemoteArrival node event = switch_remote_arrival node event"
| "run_handler HostRetransmissionTimeout node event = host_retransmission_timeout node event"
| "run_handler HostPacingTimer node event = host_pacing_timer node event"

definition dispatch :: "event \<Rightarrow> unit handler" where
  "dispatch event =
     tbind (ts_node (ev_target event)) (\<lambda>node.
     tbind (tok_or (UnsupportedTransition (nd_id node) (nd_kind node) (ev_kind event))
              (resolve_transition (nd_kind node) (ev_kind event))) (\<lambda>handler.
     run_handler handler node event))"

subsection \<open>The event loop\<close>

fun insert_initial ::
  "event list \<Rightarrow> event_key set \<Rightarrow> future_events \<Rightarrow> execution_error + future_events" where
  "insert_initial [] keys q = Inr q"
| "insert_initial (e # es) keys q =
     (if ev_key e \<in> keys then Inl (DuplicateEventKey (ev_key e))
      else and_then (fe_insert e q) (insert_initial es (insert (ev_key e) keys)))"

definition initial_event_queue :: "simulation_image \<Rightarrow> execution_error + future_events" where
  "initial_event_queue img = insert_initial (img_initial_events img) {} fe_new"

fun remove_superseded :: "superseded_timer list \<Rightarrow> future_events \<Rightarrow> execution_error + future_events" where
  "remove_superseded [] q = Inr q"
| "remove_superseded (t # ts) q =
     and_then (fe_remove_superseded_timer t q) (\<lambda>(_, q'). remove_superseded ts q')"

fun insert_children :: "event list \<Rightarrow> future_events \<Rightarrow> execution_error + future_events" where
  "insert_children [] q = Inr q"
| "insert_children (e # es) q = and_then (fe_insert e q) (insert_children es)"

text \<open>One turn of the loop; \<open>None\<close> is a panic.\<close>

definition scalar_step ::
  "transition_state \<Rightarrow> future_events \<Rightarrow> (execution_error + transition_state \<times> future_events) option" where
  "scalar_step s q =
     (case fe_pop q of
        Inl e \<Rightarrow> Some (Inl e)
      | Inr (None, _) \<Rightarrow> None
      | Inr (Some event, q1) \<Rightarrow>
          (case dispatch event s of
             None \<Rightarrow> None
           | Some (Inl e) \<Rightarrow> Some (Inl e)
           | Some (Inr (_, s1)) \<Rightarrow>
               Some (and_then (remove_superseded (ts_superseded_timers s1) q1) (\<lambda>q2.
                     and_then (insert_children (ts_children s1) q2) (\<lambda>q3.
                     Inr (s1\<lparr>ts_superseded_timers := [], ts_children := []\<rparr>, q3))))))"

definition event_due :: "u64 \<Rightarrow> u64 option \<Rightarrow> future_events \<Rightarrow> bool" where
  "event_due stop_time_ns exclusive_horizon_ns q =
     (case fe_peek_key q of
        None \<Rightarrow> False
      | Some key \<Rightarrow> key_time_ns key \<le> stop_time_ns
          \<and> (case exclusive_horizon_ns of None \<Rightarrow> True | Some horizon_ns \<Rightarrow> key_time_ns key < horizon_ns))"

text \<open>The loop: the outer option is \<open>None\<close> when it does not return, the inner one when it panics.\<close>

partial_function (option) scalar_loop ::
  "u64 \<Rightarrow> u64 option \<Rightarrow> transition_state \<Rightarrow> future_events \<Rightarrow>
     (execution_error + transition_state \<times> future_events) option option" where
  "scalar_loop stop_time_ns horizon s q =
     (if event_due stop_time_ns horizon q then
        (case scalar_step s q of
           Some (Inr (s', q')) \<Rightarrow> scalar_loop stop_time_ns horizon s' q'
         | Some (Inl e) \<Rightarrow> Some (Some (Inl e))
         | None \<Rightarrow> Some None)
      else Some (Some (Inr (s, q))))"

declare scalar_loop.simps [code]

definition run_scalar_events ::
  "simulation_image \<Rightarrow> u64 option \<Rightarrow> (execution_error + transition_state \<times> event list) option option" where
  "run_scalar_events img exclusive_horizon_ns =
     (case ts_new img of
        None \<Rightarrow> Some None
      | Some (Inl e) \<Rightarrow> Some (Some (Inl e))
      | Some (Inr s) \<Rightarrow>
          (case initial_event_queue img of
             Inl e \<Rightarrow> Some (Some (Inl e))
           | Inr q \<Rightarrow>
               map_option (map_option (\<lambda>r. and_then r (\<lambda>(s', q').
                   and_then (fe_into_sorted_vec q') (\<lambda>pending. Inr (s', pending)))))
                 (scalar_loop (img_stop_time_ns img) exclusive_horizon_ns s q)))"

definition run_scalar ::
  "simulation_image \<Rightarrow> u64 option \<Rightarrow> (execution_error + run_result) option option" where
  "run_scalar img exclusive_horizon_ns =
     map_option (map_option (\<lambda>r. and_then r (\<lambda>(s, pending). Inr (ts_finish pending s))))
       (run_scalar_events img exclusive_horizon_ns)"

end
