(* ===== verification/Handler_Frame.thy ===== *)
theory Handler_Frame
  imports Scalar_Run
begin

section \<open>What a handler may change\<close>

text \<open>
  The frame of every handler of \<open>executor/src/scalar.rs\<close>.  A successful handler of a node changes the
  state of that node only; it appends its children to the vector, each later than the event, each
  with the node as origin and the node's next sequence number; and it leaves the stage index of a
  host equal to the index built from the host's tables.  \<open>node_step\<close> is the conjunction, a preorder
  on states, so it passes from the primitive transitions through every handler to \<open>dispatch\<close>.

  The parts of the state have preorders of their own: \<open>gen_same\<close> for a generator, \<open>host_same\<close> for a
  host's tables, \<open>entry_step\<close> for a host beside its index, \<open>switch_same\<close> for a switch, and \<open>quiet\<close>
  for transitions that touch neither nodes nor children.
\<close>

subsection \<open>The relations\<close>

definition gen_same :: "flow_generator_state \<Rightarrow> flow_generator_state \<Rightarrow> bool" where
  "gen_same g g' \<longleftrightarrow> fg_flow g' = fg_flow g"

definition receiver_same :: "tcp_receiver_state \<Rightarrow> tcp_receiver_state \<Rightarrow> bool" where
  "receiver_same r r' \<longleftrightarrow> tr_flow r' = tr_flow r"

definition host_same :: "host_state \<Rightarrow> host_state \<Rightarrow> bool" where
  "host_same h h' \<longleftrightarrow> hs_next_origin_seq h' = hs_next_origin_seq h \<and> hs_stages h' = hs_stages h
     \<and> map fg_flow (hs_generators h') = map fg_flow (hs_generators h)
     \<and> map tr_flow (hs_tcp_receivers h') = map tr_flow (hs_tcp_receivers h)"

definition index_ok :: "flow_id list \<Rightarrow> host_entry \<Rightarrow> bool" where
  "index_ok joins e \<longleftrightarrow> he_index e = host_stage_index_build (he_state e) joins"

definition entry_step :: "host_entry \<Rightarrow> host_entry \<Rightarrow> bool" where
  "entry_step e e' \<longleftrightarrow> hs_next_origin_seq (he_state e') = hs_next_origin_seq (he_state e)
     \<and> (\<forall>joins. index_ok joins e \<longrightarrow> index_ok joins e')"

definition switch_same :: "switch_state \<Rightarrow> switch_state \<Rightarrow> bool" where
  "switch_same w w' \<longleftrightarrow> ss_next_origin_seq w' = ss_next_origin_seq w"

definition quiet :: "transition_state \<Rightarrow> transition_state \<Rightarrow> bool" where
  "quiet s s' \<longleftrightarrow> ts_image s' = ts_image s \<and> ts_local_node s' = ts_local_node s
     \<and> ts_hosts s' = ts_hosts s \<and> ts_switch_states s' = ts_switch_states s
     \<and> ts_children s' = ts_children s"

text \<open>Children of one event, numbered from \<open>a\<close> to \<open>b\<close>.\<close>

fun numbered :: "event_key \<Rightarrow> node_id \<Rightarrow> u64 \<Rightarrow> event list \<Rightarrow> u64 \<Rightarrow> bool" where
  "numbered parent node a [] b \<longleftrightarrow> a = b"
| "numbered parent node a (e # es) b \<longleftrightarrow> parent < ev_key e \<and> key_origin_node (ev_key e) = node
     \<and> key_origin_seq (ev_key e) = a \<and> key_phase (ev_key e) = event_phase (ev_kind e)
     \<and> a < u_max \<and> numbered parent node (a + 1) es b"

text \<open>The slot of a node, and the number of its next child.\<close>

definition node_slot :: "transition_state \<Rightarrow> node_descriptor \<Rightarrow> nat" where
  "node_slot s node = (case ts_local_node s of None \<Rightarrow> unat (nd_state_slot node) | Some _ \<Rightarrow> 0)"

fun slot_seq :: "node_kind \<Rightarrow> nat \<Rightarrow> transition_state \<Rightarrow> u64" where
  "slot_seq Host slot s = hs_next_origin_seq (he_state (ts_hosts s ! slot))"
| "slot_seq Switch slot s = ss_next_origin_seq (ts_switch_states s ! slot)"

definition node_step ::
  "event \<Rightarrow> node_descriptor \<Rightarrow> node_kind \<Rightarrow> transition_state \<Rightarrow> transition_state \<Rightarrow> bool" where
  "node_step parent node kind s s' \<longleftrightarrow>
     ts_image s' = ts_image s \<and> ts_local_node s' = ts_local_node s
     \<and> length (ts_hosts s') = length (ts_hosts s)
     \<and> length (ts_switch_states s') = length (ts_switch_states s)
     \<and> (\<forall>i. kind \<noteq> Host \<or> i \<noteq> node_slot s node \<longrightarrow> ts_hosts s' ! i = ts_hosts s ! i)
     \<and> (\<forall>i. kind \<noteq> Switch \<or> i \<noteq> node_slot s node \<longrightarrow> ts_switch_states s' ! i = ts_switch_states s ! i)
     \<and> (\<forall>joins i. index_ok joins (ts_hosts s ! i) \<longrightarrow> index_ok joins (ts_hosts s' ! i))
     \<and> (\<exists>new. ts_children s' = ts_children s @ new
          \<and> numbered (ev_key parent) (nd_id node) (slot_seq kind (node_slot s node) s) new
              (slot_seq kind (node_slot s node) s'))"

lemma numbered_append:
  "numbered parent node a xs b \<Longrightarrow> numbered parent node b ys c \<Longrightarrow> numbered parent node a (xs @ ys) c"
  by (induction xs arbitrary: a) auto

lemma node_slot_same: "ts_local_node s' = ts_local_node s \<Longrightarrow> node_slot s' node = node_slot s node"
  by (simp add: node_slot_def)

lemma node_step_trans:
  assumes st: "node_step parent node kind s t" and tu: "node_step parent node kind t u"
  shows "node_step parent node kind s u"
proof -
  have slot: "node_slot t node = node_slot s node"
    using st by (intro node_slot_same) (simp add: node_step_def)
  from st obtain xs where xs: "ts_children t = ts_children s @ xs"
    "numbered (ev_key parent) (nd_id node) (slot_seq kind (node_slot s node) s) xs
      (slot_seq kind (node_slot s node) t)"
    unfolding node_step_def by blast
  from tu obtain ys where ys: "ts_children u = ts_children t @ ys"
    "numbered (ev_key parent) (nd_id node) (slot_seq kind (node_slot s node) t) ys
      (slot_seq kind (node_slot s node) u)"
    unfolding node_step_def slot by blast
  have "\<exists>new. ts_children u = ts_children s @ new
      \<and> numbered (ev_key parent) (nd_id node) (slot_seq kind (node_slot s node) s) new
          (slot_seq kind (node_slot s node) u)"
    using xs ys numbered_append [OF xs(2) ys(2)] by auto
  then show ?thesis
    using st tu unfolding node_step_def slot by metis
qed

text \<open>The rules of the calculus, for every preorder that is interpreted.\<close>

context state_preorder
begin

lemmas rules [keeps_intros] =
  keeps_return keeps_fail keeps_panic keeps_bind keeps_then keeps_gets keeps_result keeps_ok_or
  keeps_expect keeps_index keeps_when keeps_if_let keeps_for keeps_modify

lemma keeps_counter [keeps_intros]:
  "(\<And>v s. R s (upd (\<lambda>_. v) s)) \<Longrightarrow> keeps R (tcounter get upd amount e)"
  unfolding tcounter_def by (intro keeps_bind keeps_gets keeps_ok_or keeps_modify)

lemma keeps_queue_paused_at [keeps_intros]: "keeps R (queue_paused_at pfc priority)"
  unfolding queue_paused_at_def by (intro keeps_bind keeps_index keeps_return)

lemma keeps_host_paused_at [keeps_intros]: "keeps R (host_paused_at pfc priority)"
  unfolding host_paused_at_def by (intro keeps_bind keeps_index keeps_return)

lemma keeps_number_remaining [keeps_intros]: "keeps R (number_remaining node causes ordinal)"
  by (induction causes arbitrary: ordinal) (simp_all add: keeps_return keeps_bind keeps_ok_or)

end

interpretation gs: state_preorder gen_same
  by unfold_locales (simp_all add: gen_same_def)

interpretation rs: state_preorder receiver_same
  by unfold_locales (simp_all add: receiver_same_def)

interpretation hs: state_preorder host_same
  by unfold_locales (simp_all add: host_same_def)

interpretation es: state_preorder entry_step
  by unfold_locales (simp_all add: entry_step_def)

interpretation ws: state_preorder switch_same
  by unfold_locales (simp_all add: switch_same_def)

interpretation qt: state_preorder quiet
  by unfold_locales (simp_all add: quiet_def)

interpretation ns: state_preorder "node_step parent node kind" for parent node kind
proof unfold_locales
  show "node_step parent node kind s s" for s by (simp add: node_step_def)
qed (rule node_step_trans)

subsection \<open>Branches\<close>

lemma keeps_case_generator [keeps_intros]:
  assumes "\<And>x. keeps R (f1 x)" "\<And>x. keeps R (f2 x)" "\<And>x. keeps R (f3 x)" "\<And>x. keeps R (f4 x)"
    "\<And>x. keeps R (f5 x)"
  shows "keeps R (case kind of GenConstant x \<Rightarrow> f1 x | GenTcp x \<Rightarrow> f2 x | GenRate x \<Rightarrow> f3 x
    | GenDcqcn x \<Rightarrow> f4 x | GenRoce x \<Rightarrow> f5 x)"
  using assms by (cases kind) simp_all

lemma keeps_case_packet_kind [keeps_intros]:
  assumes "keeps R f1" "keeps R f2" "\<And>x. keeps R (f3 x)" "\<And>x. keeps R (f4 x)" "\<And>x. keeps R (f5 x)"
    "\<And>x. keeps R (f6 x)" "\<And>x. keeps R (f7 x)" "\<And>x. keeps R (f8 x)" "\<And>x. keeps R (f9 x)"
    "keeps R f10" "keeps R f11"
  shows "keeps R (case kind of Data \<Rightarrow> f1 | FeedbackPacket \<Rightarrow> f2 | TcpData x \<Rightarrow> f3 x | TcpAck x \<Rightarrow> f4 x
    | Pfc x \<Rightarrow> f5 x | DcqcnCnp x \<Rightarrow> f6 x | RoceData x \<Rightarrow> f7 x | RoceAck x \<Rightarrow> f8 x | RoceNack x \<Rightarrow> f9 x
    | RocePacingTimer \<Rightarrow> f10 | StageNotify \<Rightarrow> f11)"
  using assms by (cases kind) simp_all

lemma keeps_case_list [keeps_intros]:
  "keeps R m \<Longrightarrow> (\<And>x xs. keeps R (f x xs)) \<Longrightarrow> keeps R (case l of [] \<Rightarrow> m | x # xs \<Rightarrow> f x xs)"
  by (cases l) simp_all

lemma keeps_case_feedback [keeps_intros]:
  "keeps R m \<Longrightarrow> (\<And>x y. keeps R (f x y)) \<Longrightarrow>
   keeps R (case a of NoFeedbackAction \<Rightarrow> m | EmitFeedback x y \<Rightarrow> f x y)"
  by (cases a) simp_all

lemma keeps_case_prod_applied [keeps_intros]:
  "(\<And>x y. keeps R (f x y z)) \<Longrightarrow> keeps R ((case p of (x, y) \<Rightarrow> f x y) z)"
  by (cases p) simp

lemma keeps_mono: "keeps R m \<Longrightarrow> (\<And>s s'. R s s' \<Longrightarrow> Q s s') \<Longrightarrow> keeps Q m"
  unfolding keeps_def by blast

subsection \<open>Parts of the state\<close>

lemma tzoom_Inr_iff [result_simps]:
  "tzoom get put m s = Some (Inr (x, s')) \<longleftrightarrow> (\<exists>t. m (get s) = Some (Inr (x, t)) \<and> s' = put t s)"
  by (auto simp: tzoom_def split: option.splits sum.splits)

lemma keeps_zoom:
  "keeps Q m \<Longrightarrow> (\<And>t s. Q (get s) t \<Longrightarrow> R s (put t s)) \<Longrightarrow> keeps R (tzoom get put m)"
  unfolding keeps_def tzoom_Inr_iff by blast

lemma map_update_same: "f x = f (xs ! i) \<Longrightarrow> map f (xs[i := x]) = map f xs"
  by (metis list_update_id map_update)

lemma keeps_with_generator [keeps_intros]:
  "keeps gen_same m \<Longrightarrow> keeps host_same (with_generator position m)"
  unfolding with_generator_def
  by (intro keeps_intros keeps_zoom [where Q = gen_same])
    (simp_all add: host_same_def gen_same_def map_update_same)

lemma keeps_with_receiver [keeps_intros]:
  "keeps receiver_same m \<Longrightarrow> keeps host_same (with_receiver position m)"
  unfolding with_receiver_def
  by (intro keeps_intros keeps_zoom [where Q = receiver_same])
    (simp_all add: host_same_def receiver_same_def map_update_same)

lemma build_same_tables:
  assumes "hs_stages h' = hs_stages h" "map fg_flow (hs_generators h') = map fg_flow (hs_generators h)"
    "map tr_flow (hs_tcp_receivers h') = map tr_flow (hs_tcp_receivers h)"
  shows "host_stage_index_build h' joins = host_stage_index_build h joins"
proof -
  have n: "length (hs_generators h') = length (hs_generators h)"
    using assms(2) by (rule map_eq_imp_length_eq)
  have "host_stage h' = host_stage h"
    using assms by (intro ext) (simp add: host_stage_def)
  then have "build_stage h' joins = build_stage h joins"
    by (intro ext) (simp only: build_stage_def host_stage_dependencies_def)
  then show ?thesis using assms by (simp add: host_stage_index_build_def n)
qed

lemma host_same_build:
  "host_same h h' \<Longrightarrow> host_stage_index_build h' joins = host_stage_index_build h joins"
  by (rule build_same_tables) (simp_all add: host_same_def)

lemma keeps_on_state [keeps_intros]: "keeps host_same m \<Longrightarrow> keeps entry_step (on_state m)"
  unfolding on_state_def
  by (erule keeps_zoom) (auto simp: entry_step_def index_ok_def host_same_build, simp add: host_same_def)

lemma local_state_slot_Inr:
  "local_state_slot node s = Some (Inr (slot, s')) \<Longrightarrow> slot = node_slot s node \<and> s' = s"
  by (auto simp: local_state_slot_def trans_defs node_slot_def split: option.splits if_splits)

lemma keeps_host_parts_mut [keeps_intros]:
  assumes "keeps entry_step m"
  shows "keeps (node_step parent node Host) (host_parts_mut node m)"
  unfolding keeps_def
proof (intro allI impI)
  fix s x s'
  assume a: "host_parts_mut node m s = Some (Inr (x, s'))"
  let ?k = "node_slot s node"
  from a obtain e where e: "m (ts_hosts s ! ?k) = Some (Inr (x, e))" "?k < length (ts_hosts s)"
    "s' = s\<lparr>ts_hosts := (ts_hosts s)[?k := e]\<rparr>"
    unfolding host_parts_mut_def tbind_Inr_iff
    by (auto dest!: local_state_slot_Inr simp: tzoom_Inr_iff trans_defs split: if_splits)
  have "entry_step (ts_hosts s ! ?k) e" using assms e(1) by (rule keepsD)
  then show "node_step parent node Host s s'"
    unfolding e(3) using e(2)
    by (auto simp: node_step_def entry_step_def nth_list_update)
qed

lemma keeps_host_state_mut [keeps_intros]:
  "keeps host_same m \<Longrightarrow> keeps (node_step parent node Host) (host_state_mut node m)"
  unfolding host_state_mut_def on_state_def [symmetric] by (intro keeps_intros)

lemma keeps_switch_state_mut [keeps_intros]:
  assumes "keeps switch_same m"
  shows "keeps (node_step parent node Switch) (switch_state_mut node m)"
  unfolding keeps_def
proof (intro allI impI)
  fix s x s'
  assume a: "switch_state_mut node m s = Some (Inr (x, s'))"
  let ?k = "node_slot s node"
  from a obtain w where w: "m (ts_switch_states s ! ?k) = Some (Inr (x, w))" "?k < length (ts_switch_states s)"
    "s' = s\<lparr>ts_switch_states := (ts_switch_states s)[?k := w]\<rparr>"
    unfolding switch_state_mut_def tbind_Inr_iff
    by (auto dest!: local_state_slot_Inr simp: tzoom_Inr_iff trans_defs split: if_splits)
  have "switch_same (ts_switch_states s ! ?k) w" using assms w(1) by (rule keepsD)
  then show "node_step parent node Switch s s'"
    unfolding w(3) using w(2)
    by (auto simp: node_step_def switch_same_def nth_list_update)
qed

lemma keeps_host_state_of [keeps_intros]: "keeps (node_step parent node Host) (host_state_of node)"
  unfolding host_state_of_def by (intro keeps_intros)

lemma keeps_switch_state_of [keeps_intros]: "keeps (node_step parent node Switch) (switch_state_of node)"
  unfolding switch_state_of_def by (intro keeps_intros)

lemma keeps_with_queue [keeps_intros]: "keeps switch_same (with_queue slot m)"
  unfolding with_queue_def
  by (intro keeps_intros keeps_zoom [where Q = "\<lambda>_ _. True"]) (simp_all add: switch_same_def keeps_def)

subsection \<open>Quiet transitions\<close>

text \<open>Lookups, the packet table, the counters and the ledger touch neither a node nor the children.\<close>

named_theorems quiet_ops "transitions that touch neither nodes nor children"

lemma quiet_node_step: "keeps quiet m \<Longrightarrow> keeps (node_step parent node kind) m"
  by (erule keeps_mono) (cases kind; simp add: quiet_def node_step_def)


lemma quiet_local_state_slot [quiet_ops]: "keeps quiet (local_state_slot node)"
  unfolding local_state_slot_def by (intro keeps_intros)

lemma quiet_ts_node [quiet_ops]: "keeps quiet (ts_node ident)"
  unfolding ts_node_def by (intro keeps_intros)

lemma quiet_ts_link [quiet_ops]: "keeps quiet (ts_link ident)"
  unfolding ts_link_def by (intro keeps_intros)

lemma quiet_ts_flow [quiet_ops]: "keeps quiet (ts_flow ident)"
  unfolding ts_flow_def by (intro keeps_intros)

lemma quiet_ts_packet [quiet_ops]: "keeps quiet (ts_packet ident)"
  unfolding ts_packet_def by (intro keeps_intros)

lemma quiet_packet_size [quiet_ops]: "keeps quiet (packet_size ident)"
  unfolding packet_size_def by (intro keeps_intros quiet_ops)

lemma quiet_put_packets [quiet_ops]: "keeps quiet (put_packets f)"
  unfolding put_packets_def by (intro keeps_intros) (simp add: quiet_def)

lemma quiet_resident_mut [quiet_ops]: "keeps quiet (resident_mut payload f)"
  unfolding resident_mut_def by (intro keeps_intros quiet_ops)

lemma quiet_insert_packet [quiet_ops]: "keeps quiet (insert_packet packet t)"
  unfolding insert_packet_def by (intro keeps_intros quiet_ops)

lemma quiet_set_source_time [quiet_ops]: "keeps quiet (set_source_time payload t)"
  unfolding set_source_time_def by (intro keeps_intros quiet_ops)

lemma quiet_set_packet_marked [quiet_ops]: "keeps quiet (set_packet_marked payload)"
  unfolding set_packet_marked_def by (intro keeps_intros quiet_ops)

lemma quiet_start_transmission [quiet_ops]: "keeps quiet (start_transmission node payload)"
  unfolding start_transmission_def by (intro keeps_intros quiet_ops)

lemma quiet_finish_transmission [quiet_ops]: "keeps quiet (finish_transmission node payload)"
  unfolding finish_transmission_def by (intro keeps_intros quiet_ops)

lemma quiet_mark_terminal [quiet_ops]: "keeps quiet (mark_terminal payload)"
  unfolding mark_terminal_def by (intro keeps_intros quiet_ops)

lemma quiet_add_summary [quiet_ops]: "keeps quiet (add_summary get upd v node)"
  unfolding add_summary_def
  by (rule keeps_zoom [where Q = "\<lambda>_ _. True"]) (simp_all add: keeps_def quiet_def)

lemma quiet_record_sourced [quiet_ops]: "keeps quiet (record_sourced node packet)"
  unfolding record_sourced_def by (intro keeps_intros quiet_ops)

lemma quiet_record_departure [quiet_ops]: "keeps quiet (record_departure node packet)"
  unfolding record_departure_def by (intro keeps_intros quiet_ops)

lemma quiet_record_arrival [quiet_ops]: "keeps quiet (record_arrival node packet d)"
  by (cases d) (simp_all, (intro keeps_intros quiet_ops)+)

lemma quiet_cancel_superseded_timer [quiet_ops]: "keeps quiet (cancel_superseded_timer node timer)"
  unfolding cancel_superseded_timer_def by (intro keeps_intros) (simp add: quiet_def)

lemma quiet_update_ledger [quiet_ops]: "keeps quiet (update_ledger f)"
  unfolding update_ledger_def by (intro keeps_intros) (simp add: quiet_def)

lemma quiet_route_egress [quiet_ops]: "keeps quiet (route_egress node ls)"
  by (induction ls) (simp_all, (intro keeps_intros quiet_ops | assumption)+)

lemma quiet_packet_egress_at [quiet_ops]: "keeps quiet (packet_egress_at packet node)"
  unfolding packet_egress_at_def by (intro keeps_intros quiet_ops)

lemma quiet_route_incoming [quiet_ops]: "keeps quiet (route_incoming node terminal ls)"
  by (induction node terminal ls rule: route_incoming.induct)
    (simp_all only: route_incoming.simps, (intro keeps_intros quiet_ops | blast)+)

lemma quiet_packet_incoming_link_at [quiet_ops]: "keeps quiet (packet_incoming_link_at packet node)"
  unfolding packet_incoming_link_at_def by (intro keeps_intros quiet_ops)

lemma quiet_packet_remote_target_for [quiet_ops]: "keeps quiet (packet_remote_target_for packet egress)"
  unfolding packet_remote_target_for_def Let_def by (intro keeps_intros quiet_ops)

lemma quiet_packet_remote_target [quiet_ops]: "keeps quiet (packet_remote_target payload egress)"
  unfolding packet_remote_target_def by (intro keeps_intros quiet_ops)

lemma quiet_packet_pfc_class [quiet_ops]: "keeps quiet (packet_pfc_class packet)"
  unfolding packet_pfc_class_def by (intro keeps_intros quiet_ops)

lemma quiet_pfc_order [quiet_ops]: "keeps quiet (pfc_order state_slot queue_slot)"
  unfolding pfc_order_def by (intro keeps_intros)

lemma quiet_pfc_order_mut [quiet_ops]: "keeps quiet (pfc_order_mut state_slot queue_slot f)"
  unfolding pfc_order_mut_def by (intro keeps_intros quiet_ops) (simp add: quiet_def)

lemma quiet_pfc_order_of_queue [quiet_ops]: "keeps quiet (pfc_order_of_queue queue order)"
  by (induction queue arbitrary: order) (simp_all, (intro keeps_intros quiet_ops | simp)+)

lemma quiet_ensure_pfc_order [quiet_ops]: "keeps quiet (ensure_pfc_order state_slot queue_slot)"
  unfolding ensure_pfc_order_def Let_def by (intro keeps_intros quiet_ops) (simp add: quiet_def)

lemma quiet_pfc_first_eligible_by_search [quiet_ops]:
  "keeps quiet (pfc_first_eligible_by_search pfc position queue)"
  by (induction queue arbitrary: position) (simp_all, (intro keeps_intros quiet_ops | simp)+)

lemma quiet_pfc_first_eligible [quiet_ops]: "keeps quiet (pfc_first_eligible node queue pfc order)"
  unfolding pfc_first_eligible_def by (intro keeps_intros quiet_ops)

lemma quiet_first_eligible_of [quiet_ops]:
  "keeps quiet (first_eligible_of node state_slot queue_slot queue pfc)"
  unfolding first_eligible_of_def by (intro keeps_intros quiet_ops)

lemma quiet_first_unpaused_of_queue [quiet_ops]: "keeps quiet (first_unpaused_of_queue pfc position queue)"
  by (induction queue arbitrary: position) (simp_all, (intro keeps_intros quiet_ops | simp)+)

lemma quiet_transmission_times [quiet_ops]: "keeps quiet (transmission_times link start_ns size_bytes)"
  unfolding transmission_times_def by (intro keeps_intros)

lemma quiet_queue_bytes_at [quiet_ops]: "keeps quiet (queue_bytes_at state_slot queue_slot)"
  unfolding queue_bytes_at_def by (intro keeps_intros)

lemma quiet_set_queue_bytes [quiet_ops]: "keeps quiet (set_queue_bytes state_slot queue_slot v node)"
  unfolding set_queue_bytes_def by (intro keeps_intros) (simp add: quiet_def)

lemma quiet_sp_scan [quiet_ops]: "keeps quiet (sp_scan node priorities incoming position queue)"
  by (induction queue arbitrary: position) (simp_all, (intro keeps_intros quiet_ops | simp)+)

lemma quiet_eligible_packets [quiet_ops]: "keeps quiet (eligible_packets node pfc position queue)"
  by (induction queue arbitrary: position) (simp_all, (intro keeps_intros quiet_ops | simp)+)

lemma quiet_pfc_first_plan [quiet_ops]:
  "keeps quiet (pfc_first_plan node state_slot queue_slot queue pfc)"
  unfolding pfc_first_plan_def by (intro keeps_intros quiet_ops)

lemma quiet_service_plan [quiet_ops]: "keeps quiet (service_plan node state_slot queue_slot queue)"
  unfolding service_plan_def by (intro keeps_intros quiet_ops)

lemmas quiet_steps = quiet_ops [THEN quiet_node_step]

subsection \<open>Child events\<close>

lemma insert_child_Inr:
  "insert_child parent child s = Some (Inr (x, s')) \<longleftrightarrow>
     ev_key parent < ev_key child \<and> s' = s\<lparr>ts_children := ts_children s @ [child]\<rparr>"
  by (auto simp: insert_child_def trans_defs not_le)

lemma take_origin_seq_Inr:
  assumes "\<And>v s. get (upd (\<lambda>_. v) s) = v"
  shows "take_origin_seq node get upd s = Some (Inr (n, s')) \<longleftrightarrow>
     n = get s \<and> get s < u_max \<and> s' = upd (\<lambda>_. get s + 1) s"
proof -
  have "checked_add (get s) 1 = (if get s < u_max then Some (get s + 1) else None)"
    by (auto simp: checked_add_def word_less_nat_alt unat_u_max)
  then show ?thesis
    by (auto simp: take_origin_seq_def tcounter_def trans_defs)
qed

lemma keeps_emit_from_host [keeps_intros]:
  "keeps (node_step parent node Host) (emit_from_host node parent emission)"
  unfolding keeps_def
proof (intro allI impI)
  fix s x s'
  assume a: "emit_from_host node parent emission s = Some (Inr (x, s'))"
  let ?k = "node_slot s node"
  let ?h = "he_state (ts_hosts s ! ?k)"
  from a obtain n e t where "?k < length (ts_hosts s)"
    and n: "take_origin_seq (nd_id node) hs_next_origin_seq hs_next_origin_seq_update ?h = Some (Inr (n, e))"
    and t: "t = s\<lparr>ts_hosts := (ts_hosts s)[?k := (ts_hosts s ! ?k)\<lparr>he_state := e\<rparr>]\<rparr>"
    and c: "insert_child parent (child_event node emission n) t = Some (Inr (x, s'))"
    unfolding emit_from_host_def host_state_mut_def host_parts_mut_def tbind_Inr_iff
    by (auto dest!: local_state_slot_Inr simp: tzoom_Inr_iff trans_defs split: if_splits)
  moreover have "host_stage_index_build e joins = host_stage_index_build ?h joins" for joins
    by (rule build_same_tables) (use n in \<open>simp_all add: take_origin_seq_Inr\<close>)
  ultimately show "node_step parent node Host s s'"
    using n by (auto simp: take_origin_seq_Inr insert_child_Inr node_step_def nth_list_update index_ok_def
      child_event_def)
qed

lemma keeps_emit_from_switch [keeps_intros]:
  "keeps (node_step parent node Switch) (emit_from_switch node parent emission)"
  unfolding keeps_def
proof (intro allI impI)
  fix s x s'
  assume a: "emit_from_switch node parent emission s = Some (Inr (x, s'))"
  let ?k = "node_slot s node"
  from a obtain n w t where "?k < length (ts_switch_states s)"
    and n: "take_origin_seq (nd_id node) ss_next_origin_seq ss_next_origin_seq_update
      (ts_switch_states s ! ?k) = Some (Inr (n, w))"
    and t: "t = s\<lparr>ts_switch_states := (ts_switch_states s)[?k := w]\<rparr>"
    and c: "insert_child parent (child_event node emission n) t = Some (Inr (x, s'))"
    unfolding emit_from_switch_def switch_state_mut_def tbind_Inr_iff
    by (auto dest!: local_state_slot_Inr simp: tzoom_Inr_iff trans_defs split: if_splits)
  then show "node_step parent node Switch s s'"
    by (auto simp: take_origin_seq_Inr insert_child_Inr node_step_def nth_list_update child_event_def)
qed

lemma keeps_emit_host_ready [keeps_intros]:
  "keeps (node_step parent node Host) (emit_host_ready node parent payload)"
  unfolding emit_host_ready_def by (intro keeps_intros)

lemma keeps_emit_switch_ready [keeps_intros]:
  "keeps (node_step parent node Switch) (emit_switch_ready node parent payload)"
  unfolding emit_switch_ready_def by (intro keeps_intros)

lemma keeps_claim_ready [keeps_intros]: "keeps host_same claim_ready"
  unfolding claim_ready_def by (intro keeps_intros) (simp add: host_same_def)

lemma keeps_next_payload [keeps_intros]: "keeps host_same (next_payload node node_count)"
  unfolding next_payload_def by (intro keeps_intros) (simp add: host_same_def)

lemma keeps_schedule_host_ready [keeps_intros]:
  "keeps (node_step parent node Host) (schedule_host_ready node parent payload)"
  unfolding schedule_host_ready_def by (intro keeps_intros)

lemma keeps_enqueue_source_packet [keeps_intros]:
  "keeps (node_step parent node Host) (enqueue_source_packet node payload)"
  unfolding enqueue_source_packet_def by (intro keeps_intros quiet_steps) (simp add: host_same_def)

lemma keeps_source_new_packet [keeps_intros]:
  "keeps (node_step parent node Host) (source_new_packet node t packet)"
  unfolding source_new_packet_def by (intro keeps_intros quiet_steps)

lemma keeps_emit_pfc_frame [keeps_intros]:
  "keeps (node_step parent node Switch) (emit_pfc_frame node parent plan)"
  unfolding emit_pfc_frame_def Let_def by (intro keeps_intros quiet_steps)

subsection \<open>A host's egress\<close>

lemma keeps_host_preloaded_packet_arrival [keeps_intros]:
  "keeps (node_step event node Host) (host_preloaded_packet_arrival node event)"
  unfolding host_preloaded_packet_arrival_def
  by (intro keeps_intros quiet_steps) (simp add: host_same_def)

lemma keeps_host_pfc_first_eligible [keeps_intros]:
  "keeps (node_step event node Host) (host_pfc_first_eligible node)"
  unfolding host_pfc_first_eligible_def by (intro keeps_intros quiet_steps)

lemma keeps_host_pfc_start_eligible [keeps_intros]:
  "keeps (node_step event node Host) (host_pfc_start_eligible node)"
  unfolding host_pfc_start_eligible_def by (intro keeps_intros) (simp add: host_same_def)

lemma keeps_host_pfc_claim_ready [keeps_intros]:
  "keeps (node_step event node Host) (host_pfc_claim_ready node)"
  unfolding host_pfc_claim_ready_def by (intro keeps_intros) (simp add: host_same_def)

lemma keeps_host_select [keeps_intros]: "keeps (node_step event node Host) (host_select node)"
  unfolding host_select_def by (intro keeps_intros) (simp_all add: host_same_def)

lemma keeps_host_tx_ready [keeps_intros]: "keeps (node_step event node Host) (host_tx_ready node event)"
  unfolding host_tx_ready_def by (intro keeps_intros quiet_steps)

lemma keeps_host_tx_complete [keeps_intros]: "keeps (node_step event node Host) (host_tx_complete node event)"
  unfolding host_tx_complete_def by (intro keeps_intros quiet_steps) (simp_all add: host_same_def)

subsection \<open>TCP sends and stages\<close>

lemma keeps_retransmit_one [keeps_intros]:
  "keeps host_same (retransmit_one node node_count flow now_ns segment tcp)"
  unfolding retransmit_one_def by (intro keeps_intros)

lemma keeps_prepare_on_host [keeps_intros]:
  "keeps host_same (prepare_on_host node node_count flow now_ns segment fill preserve position)"
  unfolding prepare_on_host_def
  by (intro keeps_intros) (simp_all add: host_same_def gen_same_def settle_tcp_sender_def)

lemma keeps_generator_position [keeps_intros]: "keeps entry_step (generator_position flow e)"
  unfolding generator_position_def by (intro keeps_intros)

lemma keeps_prepare_tcp_attempts [keeps_intros]:
  "keeps (node_step event node Host) (prepare_tcp_attempts node flow now_ns sequence fill preserve)"
  unfolding prepare_tcp_attempts_def by (intro keeps_intros quiet_steps)

lemma keeps_claim_front [keeps_intros]: "keeps host_same claim_front"
  unfolding claim_front_def by (intro keeps_intros) (simp_all add: host_same_def)

lemma keeps_install_tcp_attempts [keeps_intros]:
  "keeps (node_step event node Host) (install_tcp_attempts node event plan)"
  unfolding install_tcp_attempts_def by (intro keeps_intros)

lemma keeps_start_roce_stage [keeps_intros]:
  "keeps (node_step event node Host) (start_roce_stage node event flow)"
  unfolding start_roce_stage_def Let_def by (intro keeps_intros) (simp_all add: gen_same_def)

lemma keeps_start_compute_stage [keeps_intros]:
  "keeps (node_step event node Host) (start_compute_stage node event flow duration_ns token)"
  unfolding start_compute_stage_def by (intro keeps_intros quiet_steps) (simp_all add: gen_same_def)

lemma keeps_activate_wrapped_stage [keeps_intros]:
  "keeps (node_step event node Host) (activate_wrapped_stage node event flow)"
  unfolding activate_wrapped_stage_def by (intro keeps_intros)

text \<open>The writers of the stage table, which maintain the index with it.\<close>

lemma keeps_release_first_ready [keeps_intros]: "keeps entry_step release_first_ready"
  unfolding keeps_def
proof (intro allI impI)
  fix e x e'
  assume a: "release_first_ready e = Some (Inr (x, e'))"
  show "entry_step e e'"
  proof (cases "first_ready (he_index e) (hs_generators (he_state e))")
    case None
    then show ?thesis using a by (simp add: release_first_ready_def trans_defs es.refl)
  next
    case (Some p)
    obtain st where st: "host_stage (he_state e) p = Some st"
      using a Some by (cases "host_stage (he_state e) p") (simp_all add: release_first_ready_def trans_defs Let_def)
    obtain stages index where r: "release_stage p st (hs_stages (he_state e), he_index e) = (stages, index)"
      by (rule prod.exhaust)
    have e': "e' = e\<lparr>he_state := (he_state e)\<lparr>hs_stages := stages\<rparr>, he_index := index\<rparr>"
      using a Some st r by (simp add: release_first_ready_def trans_defs Let_def split: if_splits)
    have "index_ok joins e'" if "index_ok joins e" for joins
    proof -
      have i: "he_index e = host_stage_index_build (he_state e) joins" using that by (simp add: index_ok_def)
      have "p < length (hs_generators (he_state e))"
        using Some unfolding i first_ready_built by (rule scan_first_ready_in_range)
      then show ?thesis
        using release_stage_index [OF _ _ r [unfolded i]] st by (simp add: e' index_ok_def host_stage_at)
    qed
    then show ?thesis by (simp add: e' entry_step_def)
  qed
qed

lemma keeps_complete_successors [keeps_intros]: "keeps entry_step (complete_successors flow completion)"
  unfolding keeps_def
proof (intro allI impI)
  fix e x e'
  assume a: "complete_successors flow completion e = Some (Inr (x, e'))"
  obtain stages index causes where c: "complete_local_successors (hs_generators (he_state e)) flow completion
      (hs_stages (he_state e), he_index e, causes_default) = (stages, index, causes)" by (rule prod_cases3)
  have e': "e' = e\<lparr>he_state := (he_state e)\<lparr>hs_stages := stages\<rparr>, he_index := index\<rparr>"
    using a by (simp add: complete_successors_def trans_defs c)
  have "index_ok joins e'" if "index_ok joins e" for joins
    using complete_local_successors_index [OF c [unfolded that [unfolded index_ok_def]] causes_default_inv(1)]
    by (simp add: e' index_ok_def)
  then show "entry_step e e'" by (simp add: e' entry_step_def)
qed

lemma keeps_inbound_progress_of [keeps_intros]: "keeps entry_step (inbound_progress_of flow progress node)"
  unfolding keeps_def
proof (intro allI impI)
  fix e x e'
  assume a: "inbound_progress_of flow progress node e = Some (Inr (x, e'))"
  then obtain stages index causes where
    c: "record_inbound_progress (hs_generators (he_state e)) flow progress node
      (hs_stages (he_state e), he_index e, causes_default) = Inr (stages, index, causes)"
    and e': "e' = e\<lparr>he_state := (he_state e)\<lparr>hs_stages := stages\<rparr>, he_index := index\<rparr>"
    by (auto simp: inbound_progress_of_def trans_defs split: sum.splits option.splits prod.splits)
  have "index_ok joins e'" if "index_ok joins e" for joins
    using record_inbound_progress_index [OF c [unfolded that [unfolded index_ok_def]] causes_default_inv(1)]
    by (simp add: e' index_ok_def)
  then show "entry_step e e'" by (simp add: e' entry_step_def)
qed

lemma trans_result_cases:
  obtains (panic) "r = None" | (error) e where "r = Some (Inl e)" | (ok) x s where "r = Some (Inr (x, s))"
  by (metis not_None_eq old.sum.exhaust surj_pair)

lemma take_result_cases:
  obtains (none) xs where "r = (None, xs)" | (some) x xs where "r = (Some x, xs)"
  by (metis not_None_eq surj_pair)

lemma activate_loop_step:
  "activate_loop node parent causes ordinal s = Some (Inr (r, s')) \<Longrightarrow> node_step parent node Host s s'"
proof (induction node parent causes ordinal s arbitrary: r s' rule: activate_loop.induct)
  case (1 node parent causes ordinal s)
  have first: "keeps (node_step parent node Host) (host_parts_mut node release_first_ready)"
    by (intro keeps_intros)
  have wrapped: "keeps (node_step parent node Host) (tthen (activate_wrapped_stage node parent flow)
      (tok_or (CounterOverflow (nd_id node)) (checked_add ordinal 1)))" for flow
    by (intro keeps_intros)
  note run = 1(2) [unfolded activate_loop.simps [of node parent causes ordinal s]]
  obtain found t where f: "host_parts_mut node release_first_ready s = Some (Inr (found, t))"
    using run by (cases "host_parts_mut node release_first_ready s" rule: trans_result_cases) simp_all
  have st: "node_step parent node Host s t" using f by (rule keepsD [OF first])
  show ?case
  proof (cases found)
    case None
    then show ?thesis using run f st by simp
  next
    case (Some flow)
    obtain cause causes' where c: "causes_take flow causes = (Some cause, causes')"
      using run f Some by (cases "causes_take flow causes" rule: take_result_cases) simp_all
    obtain ordinal' u where u: "tthen (activate_wrapped_stage node parent flow)
        (tok_or (CounterOverflow (nd_id node)) (checked_add ordinal 1)) t = Some (Inr (ordinal', u))"
      using run f Some c
      by (cases "tthen (activate_wrapped_stage node parent flow)
        (tok_or (CounterOverflow (nd_id node)) (checked_add ordinal 1)) t" rule: trans_result_cases) simp_all
    have "activate_loop node parent causes' ordinal' u = Some (Inr (r, s'))"
      using run f Some c u by simp
    then have "node_step parent node Host u s'"
      by (rule 1(1) [OF f refl refl Some c [symmetric] refl u refl refl])
    moreover have "node_step parent node Host t u" using u by (rule keepsD [OF wrapped])
    ultimately show ?thesis using st by (blast intro: node_step_trans)
  qed
qed

lemma keeps_activate_loop [keeps_intros]:
  "keeps (node_step parent node Host) (activate_loop node parent causes ordinal)"
  unfolding keeps_def by (blast intro: activate_loop_step)

lemma keeps_activate_causes [keeps_intros]:
  "keeps (node_step event node Host) (activate_causes node event causes)"
  unfolding activate_causes_def activate_ready_collectives_def by (intro keeps_intros)

lemma keeps_host_compute_timer [keeps_intros]:
  "keeps (node_step event node Host) (host_compute_timer node event flow)"
  unfolding host_compute_timer_def Let_def
  by (intro keeps_intros quiet_steps) (simp add: gen_same_def set_status_def)

lemma keeps_host_notify_timer [keeps_intros]:
  "keeps (node_step event node Host) (host_notify_timer node event flow)"
  unfolding host_notify_timer_def Let_def
  by (intro keeps_intros quiet_steps) (simp add: gen_same_def set_status_def)

lemma keeps_host_notify_arrival [keeps_intros]:
  "keeps (node_step event node Host) (host_notify_arrival node event packet)"
  unfolding host_notify_arrival_def by (intro keeps_intros quiet_steps)

subsection \<open>TCP endpoints\<close>

lemma keeps_apply_generator_feedback [keeps_intros]: "keeps gen_same (apply_generator_feedback node)"
  unfolding apply_generator_feedback_def by (intro keeps_intros) (simp add: gen_same_def)

lemma keeps_tcp_initial_on_generator [keeps_intros]:
  "keeps gen_same (tcp_initial_on_generator node event packet header)"
  unfolding tcp_initial_on_generator_def Let_def
  by (intro keeps_intros) (simp_all add: gen_same_def set_status_def)

lemma keeps_host_tcp_initial_send [keeps_intros]:
  "keeps (node_step event node Host) (host_tcp_initial_send node event packet header)"
  unfolding host_tcp_initial_send_def
  by (intro keeps_intros quiet_steps) (simp add: host_same_def)

lemma tcp_receive_range_step_flow: "tr_flow (tcp_receive_range_step r a b) = tr_flow r"
  by (simp add: tcp_receive_range_step_def Let_def split: prod.splits)

lemma keeps_receive_segment [keeps_intros]: "keeps receiver_same (receive_segment node packet sequence)"
  unfolding receive_segment_def by (intro keeps_intros) (simp add: receiver_same_def tcp_receive_range_step_flow)

lemma keeps_tcp_data_on_host [keeps_intros]:
  "keeps entry_step (tcp_data_on_host node node_count packet header)"
  unfolding tcp_data_on_host_def by (intro keeps_intros) (simp_all add: host_same_def)

lemma keeps_host_tcp_data_arrival [keeps_intros]:
  "keeps (node_step event node Host) (host_tcp_data_arrival node event packet header)"
  unfolding host_tcp_data_arrival_def by (intro keeps_intros quiet_steps)

lemma keeps_tcp_ack_on_generator [keeps_intros]:
  "keeps gen_same (tcp_ack_on_generator node flow now_ns header)"
  unfolding tcp_ack_on_generator_def by (intro keeps_intros) (simp add: gen_same_def)

lemma keeps_complete_tcp_stage [keeps_intros]:
  "keeps (node_step event node Host) (complete_tcp_stage node packet header acknowledged)"
  unfolding complete_tcp_stage_def by (intro keeps_intros)

lemma keeps_host_tcp_ack_arrival [keeps_intros]:
  "keeps (node_step event node Host) (host_tcp_ack_arrival node event packet header)"
  unfolding host_tcp_ack_arrival_def by (intro keeps_intros quiet_steps)

lemma keeps_tcp_timed_out [keeps_intros]: "keeps host_same (tcp_timed_out event)"
  unfolding tcp_timed_out_def by (intro keeps_intros) (simp add: gen_same_def)

lemma keeps_tcp_retransmit_timed_out [keeps_intros]:
  "keeps (node_step event node Host) (tcp_retransmit_timed_out node event flow sequence)"
  unfolding tcp_retransmit_timed_out_def by (intro keeps_intros)

subsection \<open>Paced sources\<close>

lemma keeps_paced_credit [keeps_intros]:
  "keeps host_same (paced_credit node packet rate_bps position rate)"
  unfolding paced_credit_def Let_def by (intro keeps_intros) (simp_all add: gen_same_def host_same_def)

lemma keeps_paced_next [keeps_intros]:
  "keeps host_same (paced_next node node_count packet next_time position tick)"
  unfolding paced_next_def by (intro keeps_intros) (simp add: gen_same_def)

lemma keeps_paced_stop [keeps_intros]: "keeps host_same (paced_stop position emitted finished t)"
  unfolding paced_stop_def
  by (intro keeps_intros) (simp add: gen_same_def set_status_def Let_def split: option.splits)

lemma keeps_paced_tick [keeps_intros]:
  "keeps host_same (paced_tick node node_count stop_time_ns now packet rate_bps position rate)"
  unfolding paced_tick_def by (intro keeps_intros)

lemma keeps_finish_paced [keeps_intros]:
  "keeps (node_step event node Host) (finish_paced node event packet plan)"
  unfolding finish_paced_def by (intro keeps_intros quiet_steps)

lemma keeps_rate_tick_on_host [keeps_intros]: "keeps entry_step (rate_tick_on_host node img event packet)"
  unfolding rate_tick_on_host_def by (intro keeps_intros) (simp add: gen_same_def)

lemma keeps_host_rate_pacing_timer [keeps_intros]:
  "keeps (node_step event node Host) (host_rate_pacing_timer node event packet)"
  unfolding host_rate_pacing_timer_def by (intro keeps_intros)

lemma keeps_dcqcn_tick_on_host [keeps_intros]: "keeps host_same (dcqcn_tick_on_host node img event packet)"
  unfolding dcqcn_tick_on_host_def Let_def by (intro keeps_intros) (simp add: gen_same_def)

lemma keeps_host_dcqcn_pacing_timer [keeps_intros]:
  "keeps (node_step event node Host) (host_dcqcn_pacing_timer node event packet)"
  unfolding host_dcqcn_pacing_timer_def by (intro keeps_intros)

lemma keeps_dcqcn_receive_on_host [keeps_intros]:
  "keeps host_same (dcqcn_receive_on_host node node_count now packet)"
  unfolding dcqcn_receive_on_host_def by (intro keeps_intros) (simp_all add: host_same_def)

lemma keeps_host_dcqcn_data_arrival [keeps_intros]:
  "keeps (node_step event node Host) (host_dcqcn_data_arrival node event packet)"
  unfolding host_dcqcn_data_arrival_def by (intro keeps_intros quiet_steps)

lemma settle_roce_sender_flow [simp]: "fg_flow (settle_roce_sender g roce status) = fg_flow g"
  by (simp add: settle_roce_sender_def Let_def)

lemma keeps_cnp_on_generator [keeps_intros]: "keeps gen_same (cnp_on_generator node flow now)"
  unfolding cnp_on_generator_def Let_def by (intro keeps_intros) (simp_all add: gen_same_def)

lemma keeps_host_dcqcn_cnp_arrival [keeps_intros]:
  "keeps (node_step event node Host) (host_dcqcn_cnp_arrival node event packet)"
  unfolding host_dcqcn_cnp_arrival_def by (intro keeps_intros quiet_steps)

subsection \<open>RoCE endpoints\<close>

lemma settle_pair_flow [simp]: "fg_flow (settle_pair roce status g) = fg_flow g"
  by (simp add: settle_pair_def)

lemma restart_roce_pacer_flow:
  "restart_roce_pacer g roce now stop = Inr (tick, g', roce') \<Longrightarrow> fg_flow g' = fg_flow g"
  by (auto simp: restart_roce_pacer_def Let_def result_simps split: if_splits)

lemma roce_send_flow:
  "roce_send node flow now payload packet g roce = Inr (emission, timer, g', roce') \<Longrightarrow> fg_flow g' = fg_flow g"
  by (cases packet) (auto simp: roce_send_def Let_def result_simps split: if_splits)

lemma roce_apply_ack_flow:
  "roce_apply_ack flow payload now stop ack nack g roce = Inr (due, g', roce') \<Longrightarrow> fg_flow g' = fg_flow g"
  by (auto simp: roce_apply_ack_def Let_def result_simps split: if_splits dest!: restart_roce_pacer_flow)

lemma roce_apply_timeout_flow:
  "roce_apply_timeout flow now stop g roce = Inr (due, g', roce') \<Longrightarrow> fg_flow g' = fg_flow g"
  by (auto simp: roce_apply_timeout_def Let_def result_simps dest!: restart_roce_pacer_flow)

lemma keeps_paused_class [keeps_intros]: "keeps host_same (paused_class img flow)"
  unfolding paused_class_def by (intro keeps_intros)

lemma keeps_park_position [keeps_intros]: "keeps host_same (park_position cls position)"
  unfolding park_position_def by (intro keeps_intros) (simp add: host_same_def)

text \<open>A generator read, rewritten by a fallible update that keeps its flow, and written back.\<close>

lemma keeps_rewrite_generator:
  assumes "\<And>g x g'. f g = Some (Inr (x, g')) \<Longrightarrow> fg_flow g' = fg_flow g"
  shows "keeps gen_same f"
  using assms by (simp add: keeps_def gen_same_def)

lemma keeps_roce_tick_send [keeps_intros]:
  "keeps host_same (roce_tick_send node node_count flow now position roce)"
proof -
  have send: "keeps gen_same (tbind (tgets id) (\<lambda>g.
      tbind (tresult (roce_send node flow now payload packet g roce)) (\<lambda>(emission, timer, g', roce').
      tthen (tmodify (\<lambda>_. g')) (treturn (Some emission, timer, roce')))))" for payload packet roce
    by (rule keeps_rewrite_generator)
      (auto simp: trans_defs split: sum.splits dest!: roce_send_flow)
  show ?thesis
    unfolding roce_tick_send_def by (rule send | rule keeps_intros | simp add: host_same_def)+
qed

lemma keeps_roce_tick_rearm [keeps_intros]: "keeps gen_same (roce_tick_rearm flow now stop_time_ns roce)"
  unfolding roce_tick_rearm_def by (intro keeps_intros) (simp_all add: gen_same_def)

lemma keeps_roce_tick_on_host [keeps_intros]: "keeps entry_step (roce_tick_on_host node img event packet)"
  unfolding roce_tick_on_host_def Let_def by (intro keeps_intros) (simp_all add: gen_same_def)

lemma keeps_host_roce_pacing_timer [keeps_intros]:
  "keeps (node_step event node Host) (host_roce_pacing_timer node event packet)"
  unfolding host_roce_pacing_timer_def by (intro keeps_intros)

lemma keeps_emit_roce_timers [keeps_intros]:
  "keeps (node_step event node Host) (emit_roce_timers node event token tick_ns timer_ns)"
  unfolding emit_roce_timers_def by (intro keeps_intros)

lemma keeps_roce_feedback_on_generator [keeps_intros]:
  "keeps gen_same (roce_feedback_on_generator node stop_time_ns now packet header nack)"
proof (rule keeps_rewrite_generator)
  fix g x g'
  assume a: "roce_feedback_on_generator node stop_time_ns now packet header nack g = Some (Inr (x, g'))"
  then obtain roce0 where k: "fg_kind g = GenRoce roce0"
    by (cases "fg_kind g") (simp_all add: roce_feedback_on_generator_def trans_defs)
  let ?count = "tcounter (\<lambda>g. gf_arrivals (fg_feedback g))
    (\<lambda>f g. g\<lparr>fg_feedback := gf_arrivals_update f (fg_feedback g)\<rparr>) 1 (CounterOverflow node)"
  have c: "keeps gen_same ?count" by (intro keeps_intros) (simp add: gen_same_def)
  from a k obtain u g1 c1 controller due g2 roce1 roce where "?count g = Some (Inr (u, g1))"
    and "roce_apply_ack (pkt_flow packet) (pkt_id packet) now stop_time_ns (rah_acknowledgment header) nack g1
      (roce0\<lparr>rq_controller := controller\<rparr>) = Inr (due, g2, roce1)"
    and "g' = settle_pair roce (se_status (fg_next_emission g2)) g2"
    by (auto simp: roce_feedback_on_generator_def tthen_def tbind_Inr_iff tgets_def texpect_def tresult_def
        treturn_def tpanic_def tfail_def tmodify_def Let_def split: option.splits sum.splits)
  then show "fg_flow g' = fg_flow g"
    using keepsD [OF c] by (auto simp: gen_same_def dest!: roce_apply_ack_flow)
qed

lemma keeps_roce_feedback_on_host [keeps_intros]:
  "keeps entry_step (roce_feedback_on_host node stop_time_ns data_class now packet header nack)"
  unfolding roce_feedback_on_host_def by (intro keeps_intros) (simp add: host_same_def)

lemma keeps_complete_roce_stage [keeps_intros]:
  "keeps (node_step event node Host) (complete_roce_stage node event packet header acknowledgment)"
  unfolding complete_roce_stage_def by (intro keeps_intros)

lemma keeps_host_roce_feedback_arrival [keeps_intros]:
  "keeps (node_step event node Host) (host_roce_feedback_arrival node event packet header nack)"
  unfolding host_roce_feedback_arrival_def
  by (intro keeps_intros quiet_steps) (simp add: node_step_def)

lemma keeps_roce_timeout_on_generator [keeps_intros]:
  "keeps gen_same (roce_timeout_on_generator node stop_time_ns event flow)"
  by (rule keeps_rewrite_generator)
    (auto simp: roce_timeout_on_generator_def Let_def trans_defs dest!: roce_apply_timeout_flow
      split: flow_generator_kind.splits if_splits option.splits sum.splits)

lemma keeps_roce_timeout_on_host [keeps_intros]:
  "keeps entry_step (roce_timeout_on_host node img data_class event flow)"
  unfolding roce_timeout_on_host_def by (intro keeps_intros) (simp add: host_same_def)

lemma keeps_host_roce_timeout [keeps_intros]:
  "keeps (node_step event node Host) (host_roce_timeout node event)"
  unfolding host_roce_timeout_def by (intro keeps_intros quiet_steps)

lemma keeps_roce_receive_on_host [keeps_intros]:
  "keeps host_same (roce_receive_on_host node packet header now)"
  unfolding roce_receive_on_host_def Let_def by (intro keeps_intros) (simp add: host_same_def)

lemma keeps_roce_feedback_payload [keeps_intros]:
  "keeps host_same (roce_feedback_payload node node_count action)"
  unfolding roce_feedback_payload_def by (intro keeps_intros) (simp add: host_same_def)

lemma keeps_roce_data_on_host [keeps_intros]:
  "keeps entry_step (roce_data_on_host node node_count packet header now)"
  unfolding roce_data_on_host_def by (intro keeps_intros) (simp add: host_same_def)

lemma keeps_host_roce_data_arrival [keeps_intros]:
  "keeps (node_step event node Host) (host_roce_data_arrival node event packet header)"
  unfolding host_roce_data_arrival_def by (intro keeps_intros quiet_steps)

lemma keeps_host_pfc_control [keeps_intros]: "keeps host_same (host_pfc_control node controller header)"
  unfolding host_pfc_control_def Let_def by (intro keeps_intros) (simp add: host_same_def)

lemma keeps_restart_parked [keeps_intros]: "keeps host_same (restart_parked img node now position)"
  unfolding restart_parked_def
  by (intro keeps_with_generator keeps_rewrite_generator)
    (auto simp: trans_defs dest!: restart_roce_pacer_flow
      split: flow_generator_kind.splits option.splits sum.splits)

lemma keeps_restart_all [keeps_intros]: "keeps host_same (restart_all img node now positions)"
  by (induction positions) (simp_all only: restart_all.simps, (intro keeps_intros | assumption)+)

lemma keeps_take_parked [keeps_intros]: "keeps host_same (take_parked node priority)"
  unfolding take_parked_def by (intro keeps_intros) (simp add: host_same_def)

lemma keeps_claim_position [keeps_intros]: "keeps host_same (claim_position position)"
  unfolding claim_position_def by (intro keeps_intros)

lemma keeps_host_pfc_remote_arrival [keeps_intros]:
  "keeps (node_step event node Host) (host_pfc_remote_arrival node event header)"
  unfolding host_pfc_remote_arrival_def Let_def by (intro keeps_intros quiet_steps)

subsection \<open>Switches\<close>

lemma keeps_find_queue [keeps_intros]: "keeps (node_step event node Switch) (find_queue node egress)"
  unfolding find_queue_def by (intro keeps_intros)

lemma keeps_case_scheduler [keeps_intros]:
  assumes "keeps R f1" "\<And>x. keeps R (f2 x)" "\<And>x. keeps R (f3 x)" "\<And>x. keeps R (f4 x)" "\<And>x. keeps R (f5 x)"
  shows "keeps R (case k of Fifo \<Rightarrow> f1 | StaticPriority x \<Rightarrow> f2 x | WeightedFairQueue x \<Rightarrow> f3 x
    | DeficitRoundRobin x \<Rightarrow> f4 x | WeightedRoundRobin x \<Rightarrow> f5 x)"
  using assms by (cases k) simp_all

lemma keeps_switch_sp_insertion_position [keeps_intros]:
  "keeps (node_step event node Switch) (switch_sp_insertion_position node egress flow)"
  unfolding switch_sp_insertion_position_def by (intro keeps_intros quiet_steps)

lemma keeps_admit_on_switch [keeps_intros]:
  "keeps switch_same (admit_on_switch node seed now queue_slot queue_bytes rate_bps sp_position incoming_link
     priority packet payload)"
  unfolding admit_on_switch_def by (intro keeps_intros) (simp_all add: switch_same_def)

lemma keeps_switch_pfc_remote_arrival [keeps_intros]:
  "keeps (node_step event node Switch) (switch_pfc_remote_arrival node event header)"
  unfolding switch_pfc_remote_arrival_def by (intro keeps_intros quiet_steps)

lemma keeps_switch_remote_arrival [keeps_intros]:
  "keeps (node_step event node Switch) (switch_remote_arrival node event)"
  unfolding switch_remote_arrival_def by (intro keeps_intros quiet_steps)

lemma keeps_start_service [keeps_intros]:
  "keeps (node_step event node Switch) (start_service node event egress_link service)"
  unfolding start_service_def by (intro keeps_intros quiet_steps)

lemma keeps_switch_tx_ready [keeps_intros]:
  "keeps (node_step event node Switch) (switch_tx_ready node event)"
  unfolding switch_tx_ready_def by (intro keeps_intros quiet_steps)

lemma keeps_complete_on_switch [keeps_intros]:
  "keeps switch_same (complete_on_switch node now rate_bps queue_slot packet payload eligible_next)"
  unfolding complete_on_switch_def by (intro keeps_intros) (simp add: switch_same_def)

lemma keeps_switch_tx_complete [keeps_intros]:
  "keeps (node_step event node Switch) (switch_tx_complete node event)"
  unfolding switch_tx_complete_def by (intro keeps_intros quiet_steps)

subsection \<open>The remaining host handlers\<close>

lemma keeps_constant_emission [keeps_intros]: "keeps gen_same (constant_emission node event packet)"
  unfolding constant_emission_def by (intro keeps_intros) (simp_all add: gen_same_def)

lemma keeps_constant_on_host [keeps_intros]: "keeps entry_step (constant_on_host node img event packet)"
  unfolding constant_on_host_def by (intro keeps_intros) (simp_all add: gen_same_def host_same_def set_status_def)

lemma keeps_host_packet_arrival [keeps_intros]:
  "keeps (node_step event node Host) (host_packet_arrival node event)"
  unfolding host_packet_arrival_def by (intro keeps_intros quiet_steps)

lemma keeps_emit_feedback_driven_packet [keeps_intros]:
  "keeps (node_step event node Host) (emit_feedback_driven_packet node event flow size_bytes)"
  unfolding emit_feedback_driven_packet_def by (intro keeps_intros quiet_steps) (simp add: host_same_def)

lemma keeps_plain_arrival_on_host [keeps_intros]:
  "keeps host_same (plain_arrival_on_host node flow packet)"
  unfolding plain_arrival_on_host_def by (intro keeps_intros) (simp add: host_same_def)

lemma keeps_host_plain_arrival [keeps_intros]:
  "keeps (node_step event node Host) (host_plain_arrival node event flow packet)"
  unfolding host_plain_arrival_def by (intro keeps_intros quiet_steps)

lemma keeps_host_remote_arrival [keeps_intros]:
  "keeps (node_step event node Host) (host_remote_arrival node event)"
  unfolding host_remote_arrival_def by (intro keeps_intros quiet_steps)

lemma keeps_host_retransmission_timeout [keeps_intros]:
  "keeps (node_step event node Host) (host_retransmission_timeout node event)"
  unfolding host_retransmission_timeout_def by (intro keeps_intros)

lemma keeps_host_pacing_timer [keeps_intros]:
  "keeps (node_step event node Host) (host_pacing_timer node event)"
  unfolding host_pacing_timer_def by (intro keeps_intros quiet_steps)

subsection \<open>Dispatch\<close>

lemma keeps_run_handler:
  "resolve_transition (nd_kind node) (ev_kind event) = Some handler \<Longrightarrow>
   keeps (node_step event node (nd_kind node)) (run_handler handler node event)"
  by (cases "nd_kind node"; cases "ev_kind event") (auto intro: keeps_intros)

lemma dispatch_node_step:
  assumes "dispatch event s = Some (Inr (x, s'))"
  obtains node where
    "indexed_lookup (img_nodes (ts_image s)) (ev_target event) (\<lambda>node. nd_id node = ev_target event) = Some node"
    "node_step event node (nd_kind node) s s'"
proof -
  from assms obtain node handler where
    "indexed_lookup (img_nodes (ts_image s)) (ev_target event) (\<lambda>node. nd_id node = ev_target event) = Some node"
    "resolve_transition (nd_kind node) (ev_kind event) = Some handler"
    "run_handler handler node event s = Some (Inr (x, s'))"
    by (auto simp: dispatch_def ts_node_def tbind_Inr_iff tgets_def tok_or_def tfail_def treturn_def
        split: option.splits)
  with that keepsD [OF keeps_run_handler] show ?thesis by blast
qed

end
