(* ===== verification/Image_Validation.thy ===== *)
theory Image_Validation
  imports Image_Types Ordered_Map
begin

section \<open>Structural validation of an image\<close>

text \<open>
  The checks of \<open>executor/src/validate.rs\<close> that the executors' lookups rely on: dense identifiers,
  ascending packets, one owner per state slot, links between known nodes, and next sequence numbers
  above those of the initial events.  A \<open>ValidationError\<close> is a message; here it is the check that
  wrote it, with the values it prints.
\<close>

datatype id_table = NodeTable | LinkTable | FlowTable | PacketTable

datatype validation_error =
    DuplicateId id_table u64 nat
  | IdOutsideDenseRange id_table u64 nat
  | IdNotDenseIndex id_table u64 nat
  | PacketIdNotAdvancing payload_id nat payload_id
  | BadStateSlot node_descriptor nat
  | StateSlotOwnedTwice node_kind u32 node_id node_id
  | StateSlotUnowned node_kind nat
  | LinkSourceUnknown link_id node_id
  | LinkTargetUnknown link_id node_id
  | LinkRateZero link_id
  | OriginSequenceNotAdvanced node_id u64 u64

subsection \<open>Identifiers\<close>

fun node_ids_from :: "u64 \<Rightarrow> nat \<Rightarrow> u64 list \<Rightarrow> validation_error + unit" where
  "node_ids_from total_ids index [] = Inr ()"
| "node_ids_from total_ids index (ident # ids) =
     (if ident < of_nat index then Inl (DuplicateId NodeTable ident index)
      else if ident \<ge> total_ids then Inl (IdOutsideDenseRange NodeTable ident index)
      else if ident \<noteq> of_nat index then Inl (IdNotDenseIndex NodeTable ident index)
      else node_ids_from total_ids (Suc index) ids)"

definition validate_node_ids :: "simulation_image \<Rightarrow> validation_error + unit" where
  "validate_node_ids img =
     node_ids_from (of_nat (length (img_nodes img))) 0 (map nd_id (img_nodes img))"

text \<open>The link and the flow table are checked with the set of the identifiers seen.\<close>

fun seen_ids_from :: "id_table \<Rightarrow> u64 \<Rightarrow> nat \<Rightarrow> u64 set \<Rightarrow> u64 list \<Rightarrow> validation_error + unit" where
  "seen_ids_from table total_ids index seen [] = Inr ()"
| "seen_ids_from table total_ids index seen (ident # ids) =
     (if ident \<in> seen then Inl (DuplicateId table ident index)
      else if ident \<ge> total_ids then Inl (IdOutsideDenseRange table ident index)
      else if ident \<noteq> of_nat index then Inl (IdNotDenseIndex table ident index)
      else seen_ids_from table total_ids (Suc index) (insert ident seen) ids)"

definition validate_link_ids :: "simulation_image \<Rightarrow> validation_error + unit" where
  "validate_link_ids img =
     seen_ids_from LinkTable (of_nat (length (img_links img))) 0 {} (map link_id (img_links img))"

definition validate_flow_ids :: "simulation_image \<Rightarrow> validation_error + unit" where
  "validate_flow_ids img =
     seen_ids_from FlowTable (of_nat (length (img_flows img))) 0 {} (map flow_id_of (img_flows img))"

fun packet_ids_from :: "nat \<Rightarrow> payload_id set \<Rightarrow> payload_id option \<Rightarrow> payload_id list \<Rightarrow> validation_error + unit" where
  "packet_ids_from index seen previous [] = Inr ()"
| "packet_ids_from index seen previous (ident # ids) =
     (if ident \<in> seen then Inl (DuplicateId PacketTable ident index)
      else if (case previous of None \<Rightarrow> False | Some p \<Rightarrow> p \<ge> ident)
      then Inl (PacketIdNotAdvancing ident index (the previous))
      else packet_ids_from (Suc index) (insert ident seen) (Some ident) ids)"

definition validate_packet_ids :: "simulation_image \<Rightarrow> validation_error + unit" where
  "validate_packet_ids img = packet_ids_from 0 {} None (map pkt_id (img_initial_packets img))"

subsection \<open>State slots and links\<close>

type_synonym slot_owners = "node_id option list \<times> node_id option list"

definition own_slot ::
  "node_descriptor \<Rightarrow> node_id option list \<Rightarrow> validation_error + node_id option list" where
  "own_slot node owners =
     (let slot = unat (nd_state_slot node) in
      if slot < length owners then
        (case owners ! slot of
           Some first \<Rightarrow> Inl (StateSlotOwnedTwice (nd_kind node) (nd_state_slot node) first (nd_id node))
         | None \<Rightarrow> Inr (owners[slot := Some (nd_id node)]))
      else Inl (BadStateSlot node (length owners)))"

fun own_slots :: "node_descriptor list \<Rightarrow> slot_owners \<Rightarrow> validation_error + slot_owners" where
  "own_slots [] owners = Inr owners"
| "own_slots (node # nodes) (hosts, switches) =
     and_then
       (case nd_kind node of
          Host \<Rightarrow> and_then (own_slot node hosts) (\<lambda>hosts'. Inr (hosts', switches))
        | Switch \<Rightarrow> and_then (own_slot node switches) (\<lambda>switches'. Inr (hosts, switches')))
       (own_slots nodes)"

fun first_unowned :: "nat \<Rightarrow> node_id option list \<Rightarrow> nat option" where
  "first_unowned slot [] = None"
| "first_unowned slot (owner # owners) = (if owner = None then Some slot else first_unowned (Suc slot) owners)"

definition validate_state_ownership :: "simulation_image \<Rightarrow> validation_error + unit" where
  "validate_state_ownership img =
     and_then (own_slots (img_nodes img)
         (replicate (length (img_host_states img)) None, replicate (length (img_switch_states img)) None))
       (\<lambda>(hosts, switches).
         case first_unowned 0 hosts of
           Some slot \<Rightarrow> Inl (StateSlotUnowned Host slot)
         | None \<Rightarrow>
             (case first_unowned 0 switches of
                Some slot \<Rightarrow> Inl (StateSlotUnowned Switch slot)
              | None \<Rightarrow> Inr ()))"

definition image_node :: "simulation_image \<Rightarrow> node_id \<Rightarrow> node_descriptor option" where
  "image_node img ident =
     (if unat ident < length (img_nodes img) \<and> nd_id (img_nodes img ! unat ident) = ident
      then Some (img_nodes img ! unat ident) else None)"

fun check_links :: "simulation_image \<Rightarrow> link_descriptor list \<Rightarrow> validation_error + unit" where
  "check_links img [] = Inr ()"
| "check_links img (link # links) =
     (if image_node img (link_source link) = None then Inl (LinkSourceUnknown (link_id link) (link_source link))
      else if image_node img (link_target link) = None then Inl (LinkTargetUnknown (link_id link) (link_target link))
      else if link_rate_bps link = 0 then Inl (LinkRateZero (link_id link))
      else check_links img links)"

definition validate_links :: "simulation_image \<Rightarrow> validation_error + unit" where
  "validate_links img = check_links img (img_links img)"

subsection \<open>Sequence numbers\<close>

text \<open>
  The first check of \<open>validate_origin_sequences\<close>, on the greatest sequence number of each origin;
  the capacity checks that follow it are not modelled.  The slots are in range once
  \<open>validate_state_ownership\<close> has passed.
\<close>

definition maximum_origin_seqs :: "event list \<Rightarrow> (node_id, u64) omap" where
  "maximum_origin_seqs events = fold (\<lambda>event m.
     om_insert (key_origin_node (ev_key event))
       (case om_get m (key_origin_node (ev_key event)) of
          None \<Rightarrow> key_origin_seq (ev_key event)
        | Some v \<Rightarrow> max v (key_origin_seq (ev_key event))) m) events []"

definition image_origin_seq :: "simulation_image \<Rightarrow> node_descriptor \<Rightarrow> u64" where
  "image_origin_seq img node =
     (case nd_kind node of
        Host \<Rightarrow> hs_next_origin_seq (img_host_states img ! unat (nd_state_slot node))
      | Switch \<Rightarrow> ss_next_origin_seq (img_switch_states img ! unat (nd_state_slot node)))"

fun check_origin_seqs ::
  "simulation_image \<Rightarrow> (node_id, u64) omap \<Rightarrow> node_descriptor list \<Rightarrow> validation_error + unit" where
  "check_origin_seqs img maximum [] = Inr ()"
| "check_origin_seqs img maximum (node # nodes) =
     (case om_get maximum (nd_id node) of
        Some existing \<Rightarrow>
          if image_origin_seq img node \<le> existing
          then Inl (OriginSequenceNotAdvanced (nd_id node) (image_origin_seq img node) existing)
          else check_origin_seqs img maximum nodes
      | None \<Rightarrow> check_origin_seqs img maximum nodes)"

definition validate_origin_advance :: "simulation_image \<Rightarrow> validation_error + unit" where
  "validate_origin_advance img =
     check_origin_seqs img (maximum_origin_seqs (img_initial_events img)) (img_nodes img)"

subsection \<open>What the checks establish\<close>

text \<open>
  The node table is checked by position alone: an identifier repeats an earlier one exactly when it is
  below its position.  The check answers as the one with the set of seen identifiers does.
\<close>

lemma node_ids_seen:
  assumes "index \<le> unat total_ids" "seen = of_nat ` {..<index}"
  shows "node_ids_from total_ids index ids = seen_ids_from NodeTable total_ids index seen ids"
  using assms
proof (induction ids arbitrary: index seen)
  case (Cons ident ids)
  have i: "unat (of_nat j :: u64) = j" if "j \<le> index" for j
    using that Cons.prems(1) unat_lt [of total_ids] by (simp add: unat_of_nat)
  have "ident \<in> seen \<longleftrightarrow> unat ident < index"
  proof
    assume "ident \<in> seen"
    then show "unat ident < index" using i by (auto simp: Cons.prems(2))
  next
    assume "unat ident < index"
    moreover have "ident = of_nat (unat ident)" by simp
    ultimately show "ident \<in> seen" unfolding Cons.prems(2) by blast
  qed
  then have m: "ident \<in> seen \<longleftrightarrow> ident < of_nat index" using i [of index] by (simp add: word_less_nat_alt)
  show ?case
  proof (cases "ident < total_ids \<and> ident = of_nat index")
    case True
    then have "Suc index \<le> unat total_ids" "insert ident seen = of_nat ` {..<Suc index}"
      using i [of index] by (auto simp: word_less_nat_alt Cons.prems(2) lessThan_Suc)
    from Cons.IH [OF this] show ?thesis using m by simp
  qed (use m in auto)
qed simp

text \<open>Once accepted, an identifier is its position.\<close>

lemma seen_ids_dense:
  assumes "seen_ids_from table total_ids index seen ids = Inr ()" "index \<le> unat total_ids"
  shows "index + length ids \<le> unat total_ids" "i < length ids \<Longrightarrow> unat (ids ! i) = index + i"
proof -
  have "index + length ids \<le> unat total_ids \<and> (\<forall>i < length ids. unat (ids ! i) = index + i)"
    using assms
  proof (induction ids arbitrary: index seen)
    case (Cons ident ids)
    have a: "ident < total_ids" "ident = of_nat index"
      "seen_ids_from table total_ids (Suc index) (insert ident seen) ids = Inr ()"
      using Cons.prems(1) by (auto simp: not_le split: if_splits)
    have u: "unat ident = index"
      using a(2) Cons.prems(2) unat_lt [of total_ids] by (simp add: unat_of_nat)
    then have "Suc index \<le> unat total_ids" using a(1) by (simp add: word_less_nat_alt)
    from Cons.IH [OF a(3) this] u show ?case by (auto simp: nth_Cons split: nat.splits)
  qed simp
  then show "index + length ids \<le> unat total_ids" "i < length ids \<Longrightarrow> unat (ids ! i) = index + i" by auto
qed

lemma distinct_dense: "(\<And>i. i < length ids \<Longrightarrow> unat (ids ! i) = i) \<Longrightarrow> distinct ids"
  by (metis distinct_conv_nth)

lemma validate_node_ids_seen:
  "validate_node_ids img =
     seen_ids_from NodeTable (of_nat (length (img_nodes img))) 0 {} (map nd_id (img_nodes img))"
  unfolding validate_node_ids_def by (rule node_ids_seen) simp_all

lemma node_ids_dense:
  assumes "validate_node_ids img = Inr ()" "i < length (img_nodes img)"
  shows "unat (nd_id (img_nodes img ! i)) = i"
  using seen_ids_dense(2) [OF assms(1) [unfolded validate_node_ids_seen]] assms(2) by fastforce

lemma node_ids_distinct:
  assumes "validate_node_ids img = Inr ()"
  shows "distinct (map nd_id (img_nodes img))"
  by (rule distinct_dense) (simp add: node_ids_dense [OF assms])

text \<open>Every initial event carries a sequence number below its origin's next one.\<close>

lemma maximum_origin_seqs_ge:
  assumes "e \<in> set events"
  obtains v where "om_get (maximum_origin_seqs events) (key_origin_node (ev_key e)) = Some v"
    "key_origin_seq (ev_key e) \<le> v"
proof -
  let ?f = "\<lambda>event m. om_insert (key_origin_node (ev_key event))
       (case om_get m (key_origin_node (ev_key event)) of
          None \<Rightarrow> key_origin_seq (ev_key event)
        | Some v \<Rightarrow> max v (key_origin_seq (ev_key event))) m"
  have "om_wf m \<Longrightarrow> om_wf (fold ?f es m)
      \<and> (\<forall>n v. om_get m n = Some v \<longrightarrow> (\<exists>v'. om_get (fold ?f es m) n = Some v' \<and> v \<le> v'))
      \<and> (\<forall>e \<in> set es. \<exists>v. om_get (fold ?f es m) (key_origin_node (ev_key e)) = Some v
           \<and> key_origin_seq (ev_key e) \<le> v)" for es m
  proof (induction es arbitrary: m)
    case (Cons x es)
    let ?m = "?f x m"
    have wf: "om_wf ?m" using Cons.prems by (rule om_wf_insert)
    have up: "\<exists>v'. om_get ?m n = Some v' \<and> v \<le> v'" if "om_get m n = Some v" for n v
      using that Cons.prems by (auto simp: om_get_insert)
    have new: "\<exists>v. om_get ?m (key_origin_node (ev_key x)) = Some v \<and> key_origin_seq (ev_key x) \<le> v"
      using Cons.prems by (auto simp: om_get_insert split: option.splits)
    have ih: "om_wf (fold ?f es ?m)"
      "\<And>n v. om_get ?m n = Some v \<Longrightarrow> \<exists>v'. om_get (fold ?f es ?m) n = Some v' \<and> v \<le> v'"
      "\<And>e. e \<in> set es \<Longrightarrow> \<exists>v. om_get (fold ?f es ?m) (key_origin_node (ev_key e)) = Some v
         \<and> key_origin_seq (ev_key e) \<le> v"
      using Cons.IH [OF wf] by blast+
    have old: "\<exists>v'. om_get (fold ?f es ?m) n = Some v' \<and> v \<le> v'" if "om_get m n = Some v" for n v
      using up [OF that] ih(2) by (meson order_trans)
    have x: "\<exists>v. om_get (fold ?f es ?m) (key_origin_node (ev_key x)) = Some v \<and> key_origin_seq (ev_key x) \<le> v"
      using new ih(2) by (meson order_trans)
    have "fold ?f (x # es) m = fold ?f es ?m" by (simp only: fold_simps)
    then show ?case using ih(1,3) old x by (simp only: list.set) blast
  qed simp
  from this [of "[]" events] assms that show ?thesis
    by (auto simp: maximum_origin_seqs_def om_wf_def)
qed

lemma check_origin_seqs_all:
  "check_origin_seqs img maximum nodes = Inr () \<Longrightarrow> node \<in> set nodes \<Longrightarrow>
   om_get maximum (nd_id node) = Some v \<Longrightarrow> v < image_origin_seq img node"
  by (induction nodes) (auto simp: not_le split: option.splits if_splits)

lemma origin_seq_below:
  assumes "validate_origin_advance img = Inr ()" "e \<in> set (img_initial_events img)"
    "node \<in> set (img_nodes img)" "nd_id node = key_origin_node (ev_key e)"
  shows "key_origin_seq (ev_key e) < image_origin_seq img node"
proof -
  obtain v where v: "om_get (maximum_origin_seqs (img_initial_events img)) (nd_id node) = Some v"
    "key_origin_seq (ev_key e) \<le> v"
    using maximum_origin_seqs_ge [OF assms(2)] unfolding assms(4) by blast
  have "v < image_origin_seq img node"
    using check_origin_seqs_all [OF assms(1) [unfolded validate_origin_advance_def] assms(3) v(1)] .
  with v(2) show ?thesis by (rule order.strict_trans1)
qed

lemma own_slot_Inr:
  "own_slot node owners = Inr owners' \<Longrightarrow> unat (nd_state_slot node) < length owners \<and> length owners' = length owners"
  by (auto simp: own_slot_def Let_def split: if_splits option.splits)

lemma own_slots_in_range:
  "own_slots nodes (hosts, switches) = Inr owners \<Longrightarrow> node \<in> set nodes \<Longrightarrow>
   unat (nd_state_slot node) < (case nd_kind node of Host \<Rightarrow> length hosts | Switch \<Rightarrow> length switches)"
proof (induction nodes arbitrary: hosts switches)
  case (Cons first nodes)
  from Cons.prems(1) obtain h w where hw: "own_slots nodes (h, w) = Inr owners" "length h = length hosts"
      "length w = length switches"
    and f: "unat (nd_state_slot first) < (case nd_kind first of Host \<Rightarrow> length hosts | Switch \<Rightarrow> length switches)"
    by (cases "nd_kind first") (auto simp: result_simps dest!: own_slot_Inr)
  show ?case
  proof (cases "node = first")
    case False
    then have "node \<in> set nodes" using Cons.prems(2) by simp
    with Cons.IH [OF hw(1)] hw(2,3) show ?thesis by (simp split: node_kind.splits)
  qed (use f in blast)
qed simp

lemma state_slot_in_range:
  assumes "validate_state_ownership img = Inr ()" "node \<in> set (img_nodes img)"
  shows "unat (nd_state_slot node) < (case nd_kind node of Host \<Rightarrow> length (img_host_states img)
    | Switch \<Rightarrow> length (img_switch_states img))"
proof -
  obtain owners where "own_slots (img_nodes img) (replicate (length (img_host_states img)) None,
      replicate (length (img_switch_states img)) None) = Inr owners"
    using assms(1) by (auto simp: validate_state_ownership_def result_simps)
  from own_slots_in_range [OF this assms(2)] show ?thesis by (simp split: node_kind.splits)
qed

end
