(* ===== verification/Run_Properties.thy ===== *)
theory Run_Properties
  imports Handler_Frame Image_Validation
begin

section \<open>Properties of a whole run\<close>

text \<open>
  The loop of \<open>run_scalar\<close> over the frame of the handlers: it returns, it takes events in strictly
  increasing key order, no two pending events ever share a key, every stage index stays exact, and a
  run may be cut at any horizon and continued.  \<open>run_trace\<close> relates an image to the states the loop
  passes through and the events it has taken.
\<close>

subsection \<open>The queue across a turn\<close>

lemma fe_list_insert:
  assumes "fe_insert e q = Inr q'" "fe_wf q"
  shows "fe_wf q'" "set (fe_list q') \<subseteq> insert e (set (fe_list q))"
proof -
  show "fe_wf q'"
    using assms by (auto simp: fe_insert_def fe_wf_def om_wf_insert dest!: set_om_insert split: if_splits)
  show "set (fe_list q') \<subseteq> insert e (set (fe_list q))"
    using assms by (auto simp: fe_insert_def fe_list_def om_values_def dest!: set_om_insert split: if_splits)
qed

lemma insert_children_list:
  "insert_children es q = Inr q' \<Longrightarrow> fe_wf q \<Longrightarrow> fe_wf q' \<and> set (fe_list q') \<subseteq> set es \<union> set (fe_list q)"
proof (induction es arbitrary: q)
  case (Cons e es)
  then obtain q1 where "fe_insert e q = Inr q1" "insert_children es q1 = Inr q'"
    by (auto simp: result_simps)
  with Cons.IH [of q1] fe_list_insert [of e q q1] Cons.prems(2) show ?case by auto
qed simp

lemma fe_list_remove_superseded:
  assumes "fe_remove_superseded_timer t q = Inr (e, q')" "fe_wf q"
  shows "fe_wf q'" "set (fe_list q') \<subseteq> set (fe_list q)"
proof -
  from assms(1) obtain k where q': "q' = q\<lparr>fe_timers := om_remove k (fe_timers q)\<rparr>"
    by (auto simp: fe_remove_superseded_timer_def remove_superseded_timer_def result_simps
        split: prod.splits option.splits)
  show "fe_wf q'" using assms(2) om_wf_remove [of "fe_timers q" k] by (auto simp: q' fe_wf_def om_remove_def)
  show "set (fe_list q') \<subseteq> set (fe_list q)"
    by (auto simp: q' fe_list_def om_values_def om_remove_def)
qed

lemma remove_superseded_list:
  "remove_superseded ts q = Inr q' \<Longrightarrow> fe_wf q \<Longrightarrow> fe_wf q' \<and> set (fe_list q') \<subseteq> set (fe_list q)"
proof (induction ts arbitrary: q)
  case (Cons t ts)
  then obtain e q1 where "fe_remove_superseded_timer t q = Inr (e, q1)" "remove_superseded ts q1 = Inr q'"
    by (auto simp: result_simps)
  with Cons.IH [of q1] fe_list_remove_superseded [of t q e q1] Cons.prems(2) show ?case by auto
qed simp

lemma fe_pop_later:
  assumes "fe_pop q = Inr (Some e, q')" "fe_wf q"
  shows "fe_wf q'" "e \<in> set (fe_list q)" "set (fe_list q') \<subseteq> set (fe_list q)"
    "\<And>x. x \<in> set (fe_list q) \<Longrightarrow> ev_key e \<le> ev_key x" "\<And>x. x \<in> set (fe_list q') \<Longrightarrow> ev_key e < ev_key x"
proof -
  have "fe_list q \<noteq> []" using assms(1) fe_pop_empty [of q] by auto
  then obtain f r where f: "fe_wf r" "mset (fe_list q) = add_mset f (mset (fe_list r))"
    "\<forall>x \<in> set (fe_list q). ev_key f \<le> ev_key x"
    "fe_pop q = (if ev_key f \<in> ev_key ` set (fe_list r)
       then Inl (DuplicateEventKey (ev_key f)) else Inr (Some f, r))"
    using fe_pop_step [OF assms(2)] by metis
  have [simp]: "f = e" "r = q'" and n: "ev_key e \<notin> ev_key ` set (fe_list q')"
    using f(4) assms(1) by (auto split: if_splits)
  have s: "set (fe_list q) = insert e (set (fe_list q'))"
    using arg_cong [OF f(2), of set_mset] by simp
  show "fe_wf q'" "e \<in> set (fe_list q)" "set (fe_list q') \<subseteq> set (fe_list q)"
    "\<And>x. x \<in> set (fe_list q) \<Longrightarrow> ev_key e \<le> ev_key x"
    using f(1,3) s by auto
  show "\<And>x. x \<in> set (fe_list q') \<Longrightarrow> ev_key e < ev_key x"
    using f(3) s n by (metis \<open>f = e\<close> image_eqI insertI2 order_le_neq_trans)
qed

subsection \<open>A turn of the loop\<close>

lemma numbered_members:
  assumes "numbered parent node a es b"
  shows "unat b = unat a + length es"
    and "\<And>e. e \<in> set es \<Longrightarrow> parent < ev_key e \<and> key_origin_node (ev_key e) = node
      \<and> a \<le> key_origin_seq (ev_key e) \<and> key_origin_seq (ev_key e) < b"
proof -
  have "unat b = unat a + length es \<and> (\<forall>e \<in> set es. parent < ev_key e \<and> key_origin_node (ev_key e) = node
      \<and> a \<le> key_origin_seq (ev_key e) \<and> key_origin_seq (ev_key e) < b)"
    using assms
  proof (induction es arbitrary: a)
    case (Cons e es)
    then have "a < u_max" and n: "numbered parent node (a + 1) es b" by simp_all
    then have a1: "unat (a + 1) = unat a + 1"
      using unat_Suc_exact [of a] by (simp add: word_less_nat_alt unat_u_max)
    note ih = Cons.IH [OF n]
    have "a < b" using ih a1 by (simp add: word_less_nat_alt)
    moreover have "a \<le> x" if "a + 1 \<le> x" for x using that a1 by (simp add: word_le_nat_alt)
    ultimately show ?case using ih a1 Cons.prems by auto
  qed simp
  then show "unat b = unat a + length es" "\<And>e. e \<in> set es \<Longrightarrow> parent < ev_key e
      \<and> key_origin_node (ev_key e) = node \<and> a \<le> key_origin_seq (ev_key e) \<and> key_origin_seq (ev_key e) < b"
    by blast+
qed

lemma numbered_nth:
  "numbered parent node a es b \<Longrightarrow> i < length es \<Longrightarrow> unat (key_origin_seq (ev_key (es ! i))) = unat a + i"
proof (induction es arbitrary: a i)
  case (Cons e es)
  then have n: "numbered parent node (a + 1) es b" and a: "key_origin_seq (ev_key e) = a" "a < u_max" by simp_all
  have "unat (a + 1) = unat a + 1"
    using a(2) unat_Suc_exact [of a] by (simp add: word_less_nat_alt unat_u_max)
  with Cons.IH [OF n] Cons.prems(2) a(1) show ?case by (cases i) simp_all
qed simp

lemma numbered_distinct: "numbered parent node a es b \<Longrightarrow> distinct (map ev_key es)"
proof (induction es arbitrary: a)
  case (Cons e es)
  then have n: "numbered parent node (a + 1) es b" and a: "key_origin_seq (ev_key e) = a" "a < u_max" by simp_all
  have "unat (a + 1) = unat a + 1"
    using a(2) unat_Suc_exact [of a] by (simp add: word_less_nat_alt unat_u_max)
  then have "a < key_origin_seq (ev_key x)" if "x \<in> set es" for x
    using numbered_members(2) [OF n that] by (simp add: word_less_nat_alt word_le_nat_alt)
  then have "ev_key e \<noteq> ev_key x" if "x \<in> set es" for x using that a(1) by fastforce
  then show ?case using Cons.IH [OF n] by auto
qed simp

text \<open>
  A turn: the least event is taken and dispatched at its target; what is pending afterwards was
  pending before or is a new child, and is later than the event.
\<close>

lemma scalar_step_cases:
  assumes "scalar_step s q = Some (Inr (s', q'))"
  obtains event q1 s1 q2 node where
    "fe_pop q = Inr (Some event, q1)" "dispatch event s = Some (Inr ((), s1))"
    "remove_superseded (ts_superseded_timers s1) q1 = Inr q2" "insert_children (ts_children s1) q2 = Inr q'"
    "s' = s1\<lparr>ts_superseded_timers := [], ts_children := []\<rparr>"
    "indexed_lookup (img_nodes (ts_image s)) (ev_target event) (\<lambda>node. nd_id node = ev_target event) = Some node"
    "node_step event node (nd_kind node) s s1"
proof -
  from assms obtain event q1 where p: "fe_pop q = Inr (Some event, q1)"
    by (auto simp: scalar_step_def split: sum.splits option.splits)
  from assms p obtain s1 where d: "dispatch event s = Some (Inr ((), s1))"
    by (cases "dispatch event s" rule: trans_result_cases) (auto simp: scalar_step_def)
  from assms p d obtain q2 where "remove_superseded (ts_superseded_timers s1) q1 = Inr q2"
    "insert_children (ts_children s1) q2 = Inr q'" "s' = s1\<lparr>ts_superseded_timers := [], ts_children := []\<rparr>"
    by (auto simp: scalar_step_def result_simps)
  with p d dispatch_node_step [OF d] that show ?thesis by metis
qed

lemma scalar_step_queue:
  assumes step: "scalar_step s q = Some (Inr (s', q'))" and wf: "fe_wf q" and ch: "ts_children s = []"
    and pop: "fe_pop q = Inr (Some event, q1)"
  shows "fe_wf q'" "ts_children s' = []" "\<And>x. x \<in> set (fe_list q') \<Longrightarrow> ev_key event < ev_key x"
proof -
  obtain e p s1 q2 node where
    c: "fe_pop q = Inr (Some e, p)" "dispatch e s = Some (Inr ((), s1))"
      "remove_superseded (ts_superseded_timers s1) p = Inr q2" "insert_children (ts_children s1) q2 = Inr q'"
      "s' = s1\<lparr>ts_superseded_timers := [], ts_children := []\<rparr>" "node_step e node (nd_kind node) s s1"
    using scalar_step_cases [OF step] by metis
  have [simp]: "e = event" "p = q1" using c(1) pop by simp_all
  have p: "fe_wf q1" "\<And>x. x \<in> set (fe_list q1) \<Longrightarrow> ev_key event < ev_key x"
    using fe_pop_later [OF pop wf] by auto
  have r: "fe_wf q2" "set (fe_list q2) \<subseteq> set (fe_list q1)"
    using remove_superseded_list [of "ts_superseded_timers s1" q1 q2] c(3) p(1) by simp_all
  have i: "fe_wf q'" "set (fe_list q') \<subseteq> set (ts_children s1) \<union> set (fe_list q2)"
    using insert_children_list [OF c(4) r(1)] by simp_all
  have "\<And>x. x \<in> set (ts_children s1) \<Longrightarrow> ev_key event < ev_key x"
    using c(6) numbered_members(2) unfolding node_step_def ch by fastforce
  then show "fe_wf q'" "ts_children s' = []" "\<And>x. x \<in> set (fe_list q') \<Longrightarrow> ev_key event < ev_key x"
    using i r(2) p(2) c(5) by auto
qed

subsection \<open>The loop returns\<close>

lemma finite_event_keys: "finite (UNIV :: event_key set)"
proof (rule finite_imageD)
  show "finite (key_tuple ` (UNIV :: event_key set))" by (rule finite_subset [OF subset_UNIV]) simp
  show "inj (key_tuple :: event_key \<Rightarrow> _)" by (simp add: inj_def key_tuple_inject)
qed

text \<open>The keys at or after a pending one: every turn removes the key it takes.\<close>

definition keys_left :: "future_events \<Rightarrow> nat" where
  "keys_left q = card {k. \<exists>x \<in> set (fe_list q). ev_key x \<le> k}"

lemma keys_left_decreases:
  assumes "e \<in> set (fe_list q)" "\<And>x. x \<in> set (fe_list q') \<Longrightarrow> ev_key e < ev_key x"
  shows "keys_left q' < keys_left q"
  unfolding keys_left_def
proof (rule psubset_card_mono)
  show "finite {k. \<exists>x \<in> set (fe_list q). ev_key x \<le> k}" by (rule finite_subset [OF subset_UNIV finite_event_keys])
  have "ev_key e \<notin> {k. \<exists>x \<in> set (fe_list q'). ev_key x \<le> k}" using assms(2) by (auto simp: not_le)
  moreover have "{k. \<exists>x \<in> set (fe_list q'). ev_key x \<le> k} \<subseteq> {k. \<exists>x \<in> set (fe_list q). ev_key x \<le> k}"
    using assms by (auto intro: bexI [of _ e] dest: less_imp_le order_trans)
  ultimately show "{k. \<exists>x \<in> set (fe_list q'). ev_key x \<le> k} \<subset> {k. \<exists>x \<in> set (fe_list q). ev_key x \<le> k}"
    using assms(1) by blast
qed

lemma scalar_step_decreases:
  assumes "scalar_step s q = Some (Inr (s', q'))" "fe_wf q" "ts_children s = []"
  shows "keys_left q' < keys_left q" "fe_wf q'" "ts_children s' = []"
proof -
  obtain event q1 where p: "fe_pop q = Inr (Some event, q1)"
    using scalar_step_cases [OF assms(1)] by metis
  show "keys_left q' < keys_left q"
    by (rule keys_left_decreases [OF fe_pop_later(2) [OF p assms(2)] scalar_step_queue(3) [OF assms p]])
  show "fe_wf q'" "ts_children s' = []" using scalar_step_queue(1,2) [OF assms p] .
qed

text \<open>Induction along the loop.\<close>

lemma loop_induct [consumes 2, case_names step]:
  assumes "fe_wf q" "ts_children s = []"
    and step: "\<And>s q. fe_wf q \<Longrightarrow> ts_children s = [] \<Longrightarrow>
      (\<And>s' q'. scalar_step s q = Some (Inr (s', q')) \<Longrightarrow> P s' q') \<Longrightarrow> P s q"
  shows "P s q"
  using assms(1,2)
proof (induction "keys_left q" arbitrary: s q rule: less_induct)
  case less
  show ?case
  proof (rule step [OF less.prems])
    show "P s' q'" if "scalar_step s q = Some (Inr (s', q'))" for s' q'
      using less.hyps scalar_step_decreases [OF that less.prems] by blast
  qed
qed

lemma scalar_loop_returns:
  assumes "fe_wf q" "ts_children s = []"
  shows "scalar_loop stop_time_ns horizon s q \<noteq> None"
  using assms
proof (induction rule: loop_induct)
  case (step s q)
  then show ?case
    by (cases "scalar_step s q" rule: trans_result_cases) (auto simp: scalar_loop.simps [of _ _ s q])
qed

lemma fe_wf_new: "fe_wf fe_new" "fe_list fe_new = []"
  by (simp_all add: fe_wf_def fe_new_def fe_list_def om_values_def om_wf_def)

lemma insert_initial_wf: "insert_initial es keys q = Inr q' \<Longrightarrow> fe_wf q \<Longrightarrow> fe_wf q'"
  by (induction es arbitrary: keys q) (auto simp: result_simps fe_list_insert(1) split: if_splits)

lemma ts_new_start:
  assumes "ts_new img = Some (Inr s)"
  shows "ts_image s = img" "ts_local_node s = None" "ts_children s = []"
    "ts_hosts s = map (\<lambda>h. \<lparr>he_state = h, he_index = host_stage_index_build h (img_stage_joins img)\<rparr>) (img_host_states img)"
    "ts_switch_states s = img_switch_states img"
proof -
  from assms obtain paused s0 bytes packets segments where
    s0: "s0 = transition_state_of img (img_host_states img) (img_switch_states img) bytes None packets segments"
    and w: "with_pfc_orders paused s0 = Some (Inr s)"
    by (auto simp: ts_new_def Let_def result_simps split: sum.splits)
  have "keeps quiet (tfor paused (\<lambda>(slot, queue). ensure_pfc_order slot queue))"
    by (intro keeps_intros quiet_ops)
  moreover have "tfor paused (\<lambda>(slot, queue). ensure_pfc_order slot queue) s0 = Some (Inr ((), s))"
    using w by (cases "tfor paused (\<lambda>(slot, queue). ensure_pfc_order slot queue) s0" rule: trans_result_cases)
      (simp_all add: with_pfc_orders_def)
  ultimately have "quiet s0 s" by (rule keepsD)
  then show "ts_image s = img" "ts_local_node s = None" "ts_children s = []"
    "ts_hosts s = map (\<lambda>h. \<lparr>he_state = h, he_index = host_stage_index_build h (img_stage_joins img)\<rparr>) (img_host_states img)"
    "ts_switch_states s = img_switch_states img"
    by (simp_all add: quiet_def s0 transition_state_of_def)
qed


subsection \<open>The states of a run\<close>

inductive run_trace ::
  "simulation_image \<Rightarrow> u64 option \<Rightarrow> event list \<Rightarrow> transition_state \<Rightarrow> future_events \<Rightarrow> bool"
  for img horizon where
  start: "ts_new img = Some (Inr s) \<Longrightarrow> initial_event_queue img = Inr q \<Longrightarrow> run_trace img horizon [] s q"
| turn: "run_trace img horizon es s q \<Longrightarrow> event_due (img_stop_time_ns img) horizon q \<Longrightarrow>
    fe_pop q = Inr (Some e, q1) \<Longrightarrow> scalar_step s q = Some (Inr (s', q')) \<Longrightarrow>
    run_trace img horizon (es @ [e]) s' q'"

lemma run_trace_queue:
  "run_trace img horizon es s q \<Longrightarrow> fe_wf q \<and> ts_children s = []"
proof (induction rule: run_trace.induct)
  case (start s q)
  then show ?case
    using ts_new_start(3) insert_initial_wf [of _ _ fe_new] fe_wf_new(1) by (auto simp: initial_event_queue_def)
next
  case (turn es s q e q1 s' q')
  then show ?case using scalar_step_decreases(2,3) by blast
qed

lemma loop_trace:
  assumes "fe_wf q" "ts_children s = []" "run_trace img horizon es s q"
    "scalar_loop (img_stop_time_ns img) horizon s q = Some (Some (Inr (s', q')))"
  shows "\<exists>es'. run_trace img horizon es' s' q' \<and> \<not> event_due (img_stop_time_ns img) horizon q'"
  using assms
proof (induction arbitrary: es rule: loop_induct)
  case (step s q)
  show ?case
  proof (cases "event_due (img_stop_time_ns img) horizon q")
    case False
    then show ?thesis using step.prems by (subst (asm) scalar_loop.simps) auto
  next
    case True
    note run = step.prems(2) [unfolded scalar_loop.simps [of _ _ s q]]
    obtain s1 q1 where t: "scalar_step s q = Some (Inr (s1, q1))"
      using run True by (cases "scalar_step s q" rule: trans_result_cases) simp_all
    obtain e p where "fe_pop q = Inr (Some e, p)" using scalar_step_cases [OF t] by metis
    with step.prems(1) True t have "run_trace img horizon (es @ [e]) s1 q1" by (blast intro: run_trace.turn)
    with step.IH [OF t] run True t show ?thesis by simp
  qed
qed

lemma run_result_trace:
  assumes "run_scalar_events img horizon = Some (Some (Inr (s, pending)))"
  obtains es q where "run_trace img horizon es s q" "\<not> event_due (img_stop_time_ns img) horizon q"
    "fe_into_sorted_vec q = Inr pending"
proof -
  from assms obtain s0 q0 q where s0: "ts_new img = Some (Inr s0)" "initial_event_queue img = Inr q0"
    and l: "scalar_loop (img_stop_time_ns img) horizon s0 q0 = Some (Some (Inr (s, q)))"
    and p: "fe_into_sorted_vec q = Inr pending"
    by (auto simp: run_scalar_events_def result_simps split: option.splits sum.splits)
  have r: "run_trace img horizon [] s0 q0" using s0 by (rule run_trace.start)
  with loop_trace [OF _ _ r l] run_trace_queue [OF r] p that show ?thesis by blast
qed

text \<open>The events of a run in order, and all pending ones after them.\<close>

lemma run_trace_sorted:
  "run_trace img horizon es s q \<Longrightarrow> sorted_wrt (<) (map ev_key es)
     \<and> (\<forall>e \<in> set es. \<forall>x \<in> set (fe_list q). ev_key e < ev_key x)
     \<and> (\<forall>e \<in> set es. key_time_ns (ev_key e) \<le> img_stop_time_ns img
          \<and> (\<forall>h. horizon = Some h \<longrightarrow> key_time_ns (ev_key e) < h))"
proof (induction rule: run_trace.induct)
  case (turn es s q e q1 s' q')
  have wf: "fe_wf q" "ts_children s = []" using run_trace_queue [OF turn.hyps(1)] by simp_all
  note pop = fe_pop_later [OF turn.hyps(3) wf(1)]
  note later = scalar_step_queue(3) [OF turn.hyps(4) wf turn.hyps(3)]
  obtain k where k: "fe_peek_key q = Some k" "key_time_ns k \<le> img_stop_time_ns img"
    "\<forall>h. horizon = Some h \<longrightarrow> key_time_ns k < h"
    using turn.hyps(2) by (auto simp: event_due_def split: option.splits)
  have "k = ev_key e"
    using fe_peek_key_least [OF wf(1) k(1)] pop(2,4) by (metis imageE order_antisym)
  moreover have "ev_key a < ev_key x" if "a \<in> set es" "x \<in> set (fe_list q')" for a x
    using turn.IH pop(2) later [OF that(2)] that(1) by (metis order.strict_trans)
  ultimately show ?case
    using k pop(2) later turn.IH by (auto simp: sorted_wrt_append)
qed simp

text \<open>
  C2. A successful run takes its events in strictly increasing key order, none after the stop time or
  at the horizon; what it leaves pending is strictly increasing too, later than everything taken, and
  not due.
\<close>

theorem run_takes_events_in_order:
  assumes "run_scalar_events img horizon = Some (Some (Inr (s, pending)))"
  shows "\<exists>es q. run_trace img horizon es s q \<and> mset pending = mset (fe_list q)
    \<and> sorted_wrt (<) (map ev_key (es @ pending))
    \<and> (\<forall>e \<in> set es. key_time_ns (ev_key e) \<le> img_stop_time_ns img
         \<and> (\<forall>h. horizon = Some h \<longrightarrow> key_time_ns (ev_key e) < h))
    \<and> (\<forall>e \<in> set pending. img_stop_time_ns img < key_time_ns (ev_key e)
         \<or> (\<exists>h. horizon = Some h \<and> h \<le> key_time_ns (ev_key e)))"
proof -
  obtain es q where r: "run_trace img horizon es s q" and nd: "\<not> event_due (img_stop_time_ns img) horizon q"
    and p: "fe_into_sorted_vec q = Inr pending"
    by (rule run_result_trace [OF assms])
  have wf: "fe_wf q" using run_trace_queue [OF r] by simp
  have ps: "pending = sort_key ev_key (fe_list q)" "first_duplicate pending = None"
    using p by (auto simp: fe_into_sorted_vec_def fe_list_def Let_def split: option.splits)
  have m: "mset pending = mset (fe_list q)" by (simp add: ps(1))
  have "sorted (map ev_key pending)" "distinct (map ev_key pending)"
    using ps first_duplicate_None_iff [of pending] by (simp_all add: ps(1))
  then have sp: "sorted_wrt (<) (map ev_key pending)" by (simp add: strict_sorted_iff)
  have "img_stop_time_ns img < key_time_ns (ev_key e) \<or> (\<exists>h. horizon = Some h \<and> h \<le> key_time_ns (ev_key e))"
    if "e \<in> set pending" for e
  proof -
    have e: "e \<in> set (fe_list q)" using that ps(1) by simp
    then obtain k where k: "fe_peek_key q = Some k" using fe_peek_key_None_iff [of q] by fastforce
    have "key_time_ns k \<le> key_time_ns (ev_key e)"
      by (rule event_key_le_time [OF fe_peek_key_least(2) [OF wf k e]])
    with nd k show ?thesis by (auto simp: event_due_def not_le not_less split: option.splits dest: order.strict_trans1 order_trans)
  qed
  with r m sp run_trace_sorted [OF r] show ?thesis
    by (intro exI [of _ es] exI [of _ q]) (auto simp: sorted_wrt_append ps(1))
qed

subsection \<open>Keys are unique\<close>

text \<open>Every pending event of an origin carries a number below the origin's next one.\<close>

definition keys_numbered :: "transition_state \<Rightarrow> event list \<Rightarrow> bool" where
  "keys_numbered s events \<longleftrightarrow> (\<forall>e \<in> set events. \<forall>node \<in> set (img_nodes (ts_image s)).
     nd_id node = key_origin_node (ev_key e) \<longrightarrow>
     key_origin_seq (ev_key e) < slot_seq (nd_kind node) (node_slot s node) s)"

lemma node_step_numbered:
  assumes "node_step event node kind s s1"
  obtains new where "ts_children s1 = ts_children s @ new"
    "numbered (ev_key event) (nd_id node) (slot_seq kind (node_slot s node) s) new
       (slot_seq kind (node_slot s node) s1)"
  using assms unfolding node_step_def by blast

lemma slot_seq_mono:
  assumes "node_step event node kind s s1"
  shows "slot_seq k i s \<le> slot_seq k i s1"
proof (cases "k = kind \<and> i = node_slot s node")
  case True
  then show ?thesis
    using node_step_numbered [OF assms] numbered_members(1) by (metis le_add1 word_le_nat_alt)
next
  case False
  then show ?thesis using assms by (cases k) (auto simp: node_step_def)
qed

lemma indexed_lookup_in: "indexed_lookup table ident P = Some x \<Longrightarrow> x \<in> set table \<and> P x"
  by (auto simp: indexed_lookup_def find_Some_iff split: if_splits)

lemma insert_children_all: "insert_children es q = insert_all fe_insert es q"
  by (induction es arbitrary: q) (simp_all add: and_then_def split: sum.splits)

lemma insert_children_fresh:
  assumes "fe_ok q" "distinct (map ev_key es)" "ev_key ` set es \<inter> ev_key ` set (fe_list q) = {}"
  obtains q' where "insert_children es q = Inr q'" "fe_ok q'"
proof -
  have d: "distinct (map ev_key (rev es @ fe_list q))"
    using assms by (auto simp: fe_ok_def rev_map [symmetric])
  show ?thesis
    using fel.insert_all_map [OF assms(1) fe_abs_def d] that by (auto simp: insert_children_all)
qed

lemma remove_superseded_ok: "remove_superseded ts q = Inr q' \<Longrightarrow> fe_ok q \<Longrightarrow> fe_ok q'"
  by (induction ts arbitrary: q) (auto simp: result_simps dest: fe_remove_superseded_ok(2))

lemma fe_ok_pop: "fe_ok q \<Longrightarrow> fe_pop q = Inr (e, q') \<Longrightarrow> fe_ok q'"
  using fe_pop_ok [of q] by (metis Pair_inject sum.inject(2))

text \<open>The children of a turn fit into the queue it left, and the numbering stands.\<close>

lemma children_fit:
  assumes ids: "distinct (map nd_id (img_nodes (ts_image s)))" and ch: "ts_children s = []"
    and q: "fe_ok q" "keys_numbered s (fe_list q)"
    and pop: "fe_pop q = Inr (Some event, q1)" and d: "dispatch event s = Some (Inr ((), s1))"
    and r: "remove_superseded (ts_superseded_timers s1) q1 = Inr q2"
  obtains q3 where "insert_children (ts_children s1) q2 = Inr q3" "fe_ok q3" "keys_numbered s1 (fe_list q3)"
proof -
  obtain node where n: "node \<in> set (img_nodes (ts_image s))" "node_step event node (nd_kind node) s s1"
    using dispatch_node_step [OF d] indexed_lookup_in by metis
  let ?k = "nd_kind node" and ?i = "node_slot s node"
  have num: "numbered (ev_key event) (nd_id node) (slot_seq ?k ?i s) (ts_children s1) (slot_seq ?k ?i s1)"
    using node_step_numbered [OF n(2)] ch by auto
  have img: "ts_image s1 = ts_image s" "node_slot s1 = node_slot s"
    using n(2) by (auto simp: node_step_def node_slot_def fun_eq_iff)
  have wf: "fe_wf q" using q(1) by (simp add: fe_ok_def)
  have q2: "fe_ok q2" "set (fe_list q2) \<subseteq> set (fe_list q)"
    using remove_superseded_ok [OF r] remove_superseded_list [OF r] fe_ok_pop [OF q(1) pop]
      fe_pop_later(1,3) [OF pop wf] by auto
  have "ev_key ` set (ts_children s1) \<inter> ev_key ` set (fe_list q2) = {}"
  proof -
    have "ev_key c \<noteq> ev_key x" if "c \<in> set (ts_children s1)" "x \<in> set (fe_list q2)" for c x
    proof
      assume eq: "ev_key c = ev_key x"
      have "key_origin_node (ev_key x) = nd_id node" "slot_seq ?k ?i s \<le> key_origin_seq (ev_key x)"
        using numbered_members(2) [OF num that(1)] eq by simp_all
      moreover have "x \<in> set (fe_list q)" using that(2) q2(2) by blast
      ultimately show False using q(2) n(1) by (fastforce simp: keys_numbered_def)
    qed
    then show ?thesis by blast
  qed
  then obtain q3 where q3: "insert_children (ts_children s1) q2 = Inr q3" "fe_ok q3"
    using insert_children_fresh [OF q2(1) numbered_distinct [OF num]] by blast
  have "keys_numbered s1 (fe_list q3)"
    unfolding keys_numbered_def
  proof (intro ballI impI)
    fix x node' assume x: "x \<in> set (fe_list q3)" and n': "node' \<in> set (img_nodes (ts_image s1))"
      "nd_id node' = key_origin_node (ev_key x)"
    from x insert_children_list [OF q3(1)] q2 consider "x \<in> set (ts_children s1)" | "x \<in> set (fe_list q)"
      by (auto simp: fe_ok_def)
    then show "key_origin_seq (ev_key x) < slot_seq (nd_kind node') (node_slot s1 node') s1"
    proof cases
      case 1
      note c = numbered_members(2) [OF num 1]
      have "node' = node" using ids n(1) n' c by (simp add: img distinct_map inj_on_def)
      then show ?thesis using c img by simp
    next
      case 2
      then have "key_origin_seq (ev_key x) < slot_seq (nd_kind node') (node_slot s node') s"
        using q(2) n' img by (simp add: keys_numbered_def)
      then show ?thesis using slot_seq_mono [OF n(2)] unfolding img(2) by (rule order.strict_trans2)
    qed
  qed
  with q3 that show ?thesis by blast
qed

lemma insert_initial_ok:
  "insert_initial es keys q = Inr q' \<Longrightarrow> fe_ok q \<Longrightarrow> ev_key ` set (fe_list q) \<subseteq> keys \<Longrightarrow>
   fe_ok q' \<and> set (fe_list q') \<subseteq> set es \<union> set (fe_list q)"
proof (induction es arbitrary: keys q)
  case (Cons e es)
  then obtain q1 where k: "ev_key e \<notin> keys" and q1: "fe_insert e q = Inr q1"
    "insert_initial es (insert (ev_key e) keys) q1 = Inr q'"
    by (auto simp: result_simps split: if_splits)
  have "om_get (fe_abs q) (ev_key e) = None"
    using k Cons.prems(3) by (auto simp: fe_abs_def om_get_events_map_None)
  then have "fe_ok q1" using fe_insert_fresh [OF Cons.prems(2)] q1(1) by (metis sum.inject(2))
  moreover have s: "set (fe_list q1) \<subseteq> insert e (set (fe_list q))"
    using fe_list_insert(2) [OF q1(1)] Cons.prems(2) by (simp add: fe_ok_def)
  ultimately show ?case using Cons.IH [OF q1(2)] Cons.prems(3) by fastforce
qed simp

lemma slot_seq_start:
  assumes "ts_new img = Some (Inr s)" "validate_state_ownership img = Inr ()" "node \<in> set (img_nodes img)"
  shows "slot_seq (nd_kind node) (node_slot s node) s = image_origin_seq img node"
  using ts_new_start [OF assms(1)] state_slot_in_range [OF assms(2,3)]
  by (cases "nd_kind node") (simp_all add: node_slot_def image_origin_seq_def)

lemma run_trace_keys:
  assumes "run_trace img horizon es s q" and v: "validate_node_ids img = Inr ()"
    "validate_state_ownership img = Inr ()" "validate_origin_advance img = Inr ()"
  shows "ts_image s = img \<and> fe_ok q \<and> keys_numbered s (fe_list q)"
  using assms(1)
proof (induction rule: run_trace.induct)
  case (start s q)
  have q: "fe_ok q" "set (fe_list q) \<subseteq> set (img_initial_events img)"
    using insert_initial_ok [OF start(2) [unfolded initial_event_queue_def]] fe_wf_new by (simp_all add: fe_ok_def)
  show ?case
    using ts_new_start(1) [OF start(1)] q origin_seq_below [OF v(3)] slot_seq_start [OF start(1) v(2)]
    by (auto simp: keys_numbered_def)
next
  case (turn es s q e q1 s' q')
  obtain event p s1 q2 where c: "fe_pop q = Inr (Some event, p)" "dispatch event s = Some (Inr ((), s1))"
    "remove_superseded (ts_superseded_timers s1) p = Inr q2" "insert_children (ts_children s1) q2 = Inr q'"
    "s' = s1\<lparr>ts_superseded_timers := [], ts_children := []\<rparr>"
    using scalar_step_cases [OF turn.hyps(4)] by metis
  have "distinct (map nd_id (img_nodes (ts_image s)))" using turn.IH node_ids_distinct [OF v(1)] by simp
  from children_fit [OF this _ _ _ c(1,2,3)] turn.IH run_trace_queue [OF turn.hyps(1)]
  obtain q3 where "insert_children (ts_children s1) q2 = Inr q3" "fe_ok q3" "keys_numbered s1 (fe_list q3)"
    by metis
  moreover have "ts_image s1 = ts_image s" using dispatch_node_step [OF c(2)] by (metis node_step_def)
  moreover have "slot_seq k i s' = slot_seq k i s1" "node_slot s' = node_slot s1" for k i
    unfolding c(5) by (cases k; simp add: node_slot_def fun_eq_iff)+
  ultimately show ?case using c(4,5) turn.IH by (simp add: keys_numbered_def)
qed


subsection \<open>Stage indexes stay exact\<close>

lemma run_trace_index:
  "run_trace img horizon es s q \<Longrightarrow> ts_image s = img
     \<and> (\<forall>i < length (ts_hosts s). index_ok (img_stage_joins img) (ts_hosts s ! i))"
proof (induction rule: run_trace.induct)
  case (start s q)
  then show ?case using ts_new_start [OF start(1)] by (simp add: index_ok_def)
next
  case (turn es s q e q1 s' q')
  obtain event s1 node where "s' = s1\<lparr>ts_superseded_timers := [], ts_children := []\<rparr>"
    "node_step event node (nd_kind node) s s1"
    using scalar_step_cases [OF turn.hyps(4)] by metis
  with turn.IH show ?case by (simp add: node_step_def)
qed

text \<open>
  C11. At every point of every run, whatever the image and its transports, each host's stage index is
  the one built afresh from the host's tables, and the ready stage it answers is the one a scan of
  the generator table finds.
\<close>

theorem run_stage_index_exact:
  assumes "run_trace img horizon es s q" "i < length (ts_hosts s)"
  shows "he_index (ts_hosts s ! i) = host_stage_index_build (he_state (ts_hosts s ! i)) (img_stage_joins img)
    \<and> first_ready (he_index (ts_hosts s ! i)) (hs_generators (he_state (ts_hosts s ! i)))
        = scan_first_ready (he_state (ts_hosts s ! i))"
proof -
  have "he_index (ts_hosts s ! i) = host_stage_index_build (he_state (ts_hosts s ! i)) (img_stage_joins img)"
    using run_trace_index [OF assms(1)] assms(2) by (simp add: index_ok_def)
  then show ?thesis using first_ready_built by simp
qed

subsection \<open>A run can be cut at a horizon\<close>

lemma event_due_horizon:
  "event_due stop_time_ns (Some h) q \<Longrightarrow> event_due stop_time_ns None q"
  by (auto simp: event_due_def split: option.splits)

text \<open>
  C4. A run may be cut: running to any horizon and then on to the end, from the state and the events
  the first part left, gives what the uninterrupted run gives, errors and panics included.
\<close>

theorem run_cut_at_horizon:
  assumes "run_trace img horizon es s q"
  shows "scalar_loop stop_time_ns None s q =
    (case scalar_loop stop_time_ns (Some h) s q of
       Some (Some (Inr (s', q'))) \<Rightarrow> scalar_loop stop_time_ns None s' q'
     | r \<Rightarrow> r)"
proof -
  have "fe_wf q" "ts_children s = []" using run_trace_queue [OF assms] by simp_all
  then show ?thesis
  proof (induction rule: loop_induct)
    case (step s q)
    show ?case
    proof (cases "event_due stop_time_ns (Some h) q")
      case False
      then show ?thesis by (simp add: scalar_loop.simps [of stop_time_ns "Some h" s q])
    next
      case True
      then show ?thesis
        using step.IH event_due_horizon [OF True]
        by (cases "scalar_step s q" rule: trans_result_cases)
          (simp_all add: scalar_loop.simps [of stop_time_ns "Some h" s q] scalar_loop.simps [of stop_time_ns None s q])
    qed
  qed
qed

subsection \<open>Handlers are local\<close>

text \<open>
  C10. An event changes its target only.  A successful dispatch leaves the image and every other node's
  state as they were; the children it appends are later than the event, name the target as their
  origin, and carry consecutive sequence numbers from the target's counter, which ends past them.
\<close>

theorem dispatch_is_local:
  assumes "dispatch event s = Some (Inr (x, s'))"
  shows "\<exists>node new. indexed_lookup (img_nodes (ts_image s)) (ev_target event)
        (\<lambda>node. nd_id node = ev_target event) = Some node
    \<and> ts_image s' = ts_image s
    \<and> (\<forall>i. nd_kind node \<noteq> Host \<or> i \<noteq> node_slot s node \<longrightarrow> ts_hosts s' ! i = ts_hosts s ! i)
    \<and> (\<forall>i. nd_kind node \<noteq> Switch \<or> i \<noteq> node_slot s node \<longrightarrow> ts_switch_states s' ! i = ts_switch_states s ! i)
    \<and> ts_children s' = ts_children s @ new
    \<and> (\<forall>i < length new. ev_key event < ev_key (new ! i)
         \<and> key_origin_node (ev_key (new ! i)) = ev_target event
         \<and> unat (key_origin_seq (ev_key (new ! i))) = unat (slot_seq (nd_kind node) (node_slot s node) s) + i)
    \<and> unat (slot_seq (nd_kind node) (node_slot s node) s')
        = unat (slot_seq (nd_kind node) (node_slot s node) s) + length new"
proof -
  obtain node where n: "indexed_lookup (img_nodes (ts_image s)) (ev_target event)
        (\<lambda>node. nd_id node = ev_target event) = Some node" "node_step event node (nd_kind node) s s'"
    by (rule dispatch_node_step [OF assms])
  have t: "nd_id node = ev_target event" using indexed_lookup_in [OF n(1)] by simp
  obtain new where "ts_children s' = ts_children s @ new"
    and num: "numbered (ev_key event) (nd_id node) (slot_seq (nd_kind node) (node_slot s node) s) new
       (slot_seq (nd_kind node) (node_slot s node) s')"
    by (rule node_step_numbered [OF n(2)])
  then show ?thesis
    using n t numbered_members [OF num] numbered_nth [OF num]
    by (intro exI [of _ node] exI [of _ new]) (simp add: node_step_def)
qed

subsection \<open>A concrete run\<close>

text \<open>Two hosts and a link; the first sends one preloaded packet of a hundred bytes to the second.\<close>

definition sample_host :: "u64 \<Rightarrow> host_state" where
  "sample_host seq = \<lparr>hs_egress_link = 0, hs_queue = [], hs_in_service = None, hs_tx_ready_pending = False,
     hs_generators = [], hs_stages = [], hs_tcp_receivers = [], hs_dcqcn_receivers = [],
     hs_roce_receivers = None, hs_pfc = None, hs_next_origin_seq = seq, hs_next_payload_seq = 1,
     hs_sourced_packets = 0, hs_departed_packets = 0, hs_received_packets = 0\<rparr>"

definition sample_arrival :: event where
  "sample_arrival = \<lparr>ev_key = \<lparr>key_time_ns = 0, key_phase = 0, key_origin_node = 0, key_origin_seq = 0\<rparr>,
     ev_target = 0, ev_kind = PacketArrival, ev_payload = 0\<rparr>"

definition sample_payload :: packet_descriptor where
  "sample_payload = \<lparr>pkt_id = 0, pkt_flow = 0, pkt_size_bytes = 100, pkt_ecn_marked = False, pkt_kind = Data\<rparr>"

definition sample_image :: simulation_image where
  "sample_image = \<lparr>img_stop_time_ns = 1000,
     img_nodes = [\<lparr>nd_id = 0, nd_kind = Host, nd_state_slot = 0\<rparr>, \<lparr>nd_id = 1, nd_kind = Host, nd_state_slot = 1\<rparr>],
     img_host_states = [sample_host 1, sample_host 0], img_switch_states = [],
     img_flows = [\<lparr>flow_id_of = 0, flow_source = 0, flow_target = 1, flow_priority = 0,
       flow_feedback_priority = 0, flow_route = [0], flow_reverse_route = []\<rparr>],
     img_initial_packets = [sample_payload],
     img_links = [\<lparr>link_id = 0, link_source = 0, link_target = 1, link_rate_bps = 8000000000, link_propagation_ns = 5\<rparr>],
     img_channels = [], img_initial_events = [sample_arrival], img_seed = 0, img_stage_joins = []\<rparr>"

text \<open>Its children: service starts at once, ends after 100 ns, and the packet arrives 5 ns later.\<close>

definition sample_child :: "u64 \<Rightarrow> event_kind \<Rightarrow> node_id \<Rightarrow> u64 \<Rightarrow> event" where
  "sample_child t kind target seq = \<lparr>ev_key = \<lparr>key_time_ns = t, key_phase = event_phase kind,
     key_origin_node = 0, key_origin_seq = seq\<rparr>, ev_target = target, ev_kind = kind, ev_payload = 0\<rparr>"

definition sample_entry :: "host_state \<Rightarrow> host_entry" where
  "sample_entry h = \<lparr>he_state = h, he_index = host_stage_index_build (sample_host 0) []\<rparr>"

definition sample_state ::
  "host_state \<Rightarrow> resident_packet \<Rightarrow> run_summary \<Rightarrow> event list \<Rightarrow> transition_state" where
  "sample_state h resident counters children =
    \<lparr>ts_image = sample_image, ts_hosts = [sample_entry h, sample_entry (sample_host 0)],
     ts_switch_states = [], ts_switch_queue_bytes = [], ts_switch_pfc_orders = None, ts_local_node = None,
     ts_packets = [(0, resident)], ts_summary = counters, ts_tcp_sent_segments = [],
     ts_superseded_timers = [], ts_children = children\<rparr>"

definition sample_sourced :: run_summary where
  "sample_sourced = run_summary_default\<lparr>sum_sourced_packets := 1, sum_sourced_bytes := 100\<rparr>"

definition sample_s0 :: transition_state where
  "sample_s0 = sample_state (sample_host 1) (new_resident sample_payload None) run_summary_default []"

definition sample_s1 :: "event list \<Rightarrow> transition_state" where
  "sample_s1 = sample_state ((sample_host 2)\<lparr>hs_queue := [0], hs_tx_ready_pending := True, hs_sourced_packets := 1\<rparr>)
     (new_resident sample_payload (Some 0)) sample_sourced"

definition sample_s2 :: "event list \<Rightarrow> transition_state" where
  "sample_s2 = sample_state ((sample_host 4)\<lparr>hs_in_service := Some 0, hs_sourced_packets := 1\<rparr>)
     ((new_resident sample_payload (Some 0))\<lparr>res_transmitters := 1\<rparr>) sample_sourced"

lemma sample_index: "host_stage_index_build (sample_host seq) [] = host_stage_index_build (sample_host 0) []"
  by (rule build_same_tables) (simp_all add: sample_host_def)

lemma sample_no_generator: "first_generator (host_stage_index_build (sample_host 0) []) flow = None"
  by (simp add: first_generator_def first_entry_def host_stage_index_build_def sample_host_def by_flow_def
      entries_of_def)

lemmas sample_defs = sample_state_def sample_entry_def sample_host_def sample_image_def sample_payload_def
  sample_sourced_def new_resident_def run_summary_default_def sample_arrival_def sample_child_def

lemmas run_evals = trans_defs indexed_lookup_def om_get_def host_parts_mut_def local_state_slot_def tzoom_def
  host_state_mut_def tcounter_def checked_add_def resident_mut_def put_packets_def ts_packet_def ts_node_def
  ts_link_def ts_flow_def

lemma sample_new: "ts_new sample_image = Some (Inr sample_s0)"
  by (simp add: ts_new_def seed_image_def initial_live_payloads_def with_pfc_orders_def
      derive_switch_queue_bytes_def option_list_def live_packet_def om_get_def Let_def trans_defs
      seed_segment_def normalize_image_def from_conflict_def transition_state_of_def sample_index [of 1]
      sample_s0_def sample_state_def sample_entry_def sample_image_def sample_payload_def sample_arrival_def)
    (simp add: sample_host_def)

lemma sample_dispatch_arrival:
  "dispatch sample_arrival sample_s0 = Some (Inr ((), sample_s1 [sample_child 0 TxReady 0 1]))"
  unfolding sample_s0_def sample_s1_def
  apply (simp add: dispatch_def run_evals sample_state_def sample_arrival_def sample_image_def)
  apply (simp add: host_packet_arrival_def run_evals sample_entry_def sample_no_generator new_resident_def
      sample_payload_def)
  apply (simp add: host_preloaded_packet_arrival_def run_evals set_source_time_def claim_ready_def)
  apply (simp add: enqueue_source_packet_def run_evals sample_host_def enqueue_position_def vec_insert_def)
  apply (simp add: record_sourced_def add_summary_def run_evals run_summary_default_def u64_to_u128_def)
  apply (simp add: emit_host_ready_def emit_from_host_def insert_child_def child_event_def take_origin_seq_def
      run_evals event_key_le_iff event_key_less_iff)
  apply (simp add: sample_defs)
  done

lemma sample_serialization: "serialization_time_ns 100 8000000000 = Inr 100"
  by (simp add: serialization_time_ns_def bits_per_byte_def nanos_per_second_def u64_to_u128_def
      u64_try_from_def ok_or_def)

lemma sample_dispatch_ready:
  "dispatch (sample_child 0 TxReady 0 1) (sample_s1 []) =
     Some (Inr ((), sample_s2 [sample_child 100 TxComplete 0 2, sample_child 105 RemoteArrival 1 3]))"
  unfolding sample_s1_def sample_s2_def
  apply (simp add: dispatch_def run_evals sample_state_def sample_child_def sample_image_def)
  apply (simp add: host_tx_ready_def host_select_def run_evals sample_entry_def sample_host_def new_resident_def
      sample_payload_def)
  apply (simp add: start_transmission_def packet_size_def run_evals)
  apply (simp add: transmission_times_def run_evals arrival_time_ns_def link_arrival_time_ns_def
      sample_serialization from_time_error_def checked_sub_def ok_or_def)
  apply (simp add: packet_remote_target_def packet_remote_target_for_def packet_route_def packet_terminal_def
      emit_from_host_def insert_child_def child_event_def take_origin_seq_def run_evals event_key_le_iff
      event_key_less_iff)
  done

lemmas queue_evals = fe_insert_def fe_pop_def fe_from_timers_def heap_pop_def fe_peek_key_def om_first_def
  fe_new_def Let_def event_key_le_iff event_key_less_iff

lemma sample_queue: "initial_event_queue sample_image = Inr \<lparr>fe_heap = [sample_arrival], fe_timers = []\<rparr>"
  by (simp add: initial_event_queue_def queue_evals sample_image_def sample_arrival_def)

lemma sample_turn_arrival:
  "scalar_step sample_s0 \<lparr>fe_heap = [sample_arrival], fe_timers = []\<rparr> =
     Some (Inr (sample_s1 [], \<lparr>fe_heap = [sample_child 0 TxReady 0 1], fe_timers = []\<rparr>))"
  by (simp add: scalar_step_def queue_evals sample_dispatch_arrival)
    (simp add: sample_s1_def sample_state_def sample_child_def queue_evals)

lemma sample_turn_ready:
  "scalar_step (sample_s1 []) \<lparr>fe_heap = [sample_child 0 TxReady 0 1], fe_timers = []\<rparr> =
     Some (Inr (sample_s2 [], \<lparr>fe_heap = [sample_child 105 RemoteArrival 1 3, sample_child 100 TxComplete 0 2],
       fe_timers = []\<rparr>))"
  by (simp add: scalar_step_def queue_evals sample_dispatch_ready)
    (simp add: sample_s2_def sample_state_def sample_child_def queue_evals)

lemma sample_due:
  "event_due 1000 (Some 1) \<lparr>fe_heap = [sample_arrival], fe_timers = []\<rparr>"
  "event_due 1000 (Some 1) \<lparr>fe_heap = [sample_child 0 TxReady 0 1], fe_timers = []\<rparr>"
  "\<not> event_due 1000 (Some 1)
     \<lparr>fe_heap = [sample_child 105 RemoteArrival 1 3, sample_child 100 TxComplete 0 2], fe_timers = []\<rparr>"
  by (simp_all add: event_due_def queue_evals sample_arrival_def sample_child_def)

lemma sample_sorted:
  "fe_into_sorted_vec \<lparr>fe_heap = [sample_child 105 RemoteArrival 1 3, sample_child 100 TxComplete 0 2], fe_timers = []\<rparr>
     = Inr [sample_child 100 TxComplete 0 2, sample_child 105 RemoteArrival 1 3]"
  by (simp add: fe_into_sorted_vec_def om_values_def sample_child_def event_key_le_iff event_key_less_iff)

lemma sample_trace:
  "run_trace sample_image (Some 1) [sample_arrival, sample_child 0 TxReady 0 1] (sample_s2 [])
     \<lparr>fe_heap = [sample_child 105 RemoteArrival 1 3, sample_child 100 TxComplete 0 2], fe_timers = []\<rparr>"
proof -
  have "run_trace sample_image (Some 1) [] sample_s0 \<lparr>fe_heap = [sample_arrival], fe_timers = []\<rparr>"
    by (rule run_trace.start [OF sample_new sample_queue])
  then have "run_trace sample_image (Some 1) ([] @ [sample_arrival]) (sample_s1 [])
      \<lparr>fe_heap = [sample_child 0 TxReady 0 1], fe_timers = []\<rparr>"
    by (rule run_trace.turn [OF _ _ _ sample_turn_arrival])
      (simp_all add: event_due_def queue_evals sample_arrival_def sample_image_def)
  then have "run_trace sample_image (Some 1) (([] @ [sample_arrival]) @ [sample_child 0 TxReady 0 1]) (sample_s2 [])
      \<lparr>fe_heap = [sample_child 105 RemoteArrival 1 3, sample_child 100 TxComplete 0 2], fe_timers = []\<rparr>"
    by (rule run_trace.turn [OF _ _ _ sample_turn_ready])
      (simp_all add: event_due_def queue_evals sample_child_def sample_image_def)
  then show ?thesis by simp
qed

lemma sample_run:
  "run_scalar_events sample_image (Some 1) =
     Some (Some (Inr (sample_s2 [], [sample_child 100 TxComplete 0 2, sample_child 105 RemoteArrival 1 3])))"
proof -
  have l0: "scalar_loop 1000 (Some 1) sample_s0 \<lparr>fe_heap = [sample_arrival], fe_timers = []\<rparr> =
      scalar_loop 1000 (Some 1) (sample_s1 []) \<lparr>fe_heap = [sample_child 0 TxReady 0 1], fe_timers = []\<rparr>"
    by (subst scalar_loop.simps) (simp add: sample_turn_arrival sample_due)
  have l1: "scalar_loop 1000 (Some 1) (sample_s1 []) \<lparr>fe_heap = [sample_child 0 TxReady 0 1], fe_timers = []\<rparr> =
      scalar_loop 1000 (Some 1) (sample_s2 [])
        \<lparr>fe_heap = [sample_child 105 RemoteArrival 1 3, sample_child 100 TxComplete 0 2], fe_timers = []\<rparr>"
    by (subst scalar_loop.simps) (simp add: sample_turn_ready sample_due)
  have l2: "scalar_loop 1000 (Some 1) (sample_s2 []) q = Some (Some (Inr (sample_s2 [], q)))"
    if "q = \<lparr>fe_heap = [sample_child 105 RemoteArrival 1 3, sample_child 100 TxComplete 0 2], fe_timers = []\<rparr>" for q
    by (subst scalar_loop.simps) (simp add: that sample_due)
  have st: "img_stop_time_ns sample_image = 1000" by (simp add: sample_image_def)
  show ?thesis
    by (simp add: run_scalar_events_def sample_new sample_queue st l0 l1 l2 sample_sorted)
qed

lemma sample_valid:
  "validate_node_ids sample_image = Inr ()" "validate_state_ownership sample_image = Inr ()"
  "validate_origin_advance sample_image = Inr ()"
  by (simp_all add: validate_node_ids_def validate_state_ownership_def validate_origin_advance_def
      maximum_origin_seqs_def own_slot_def om_get_def image_origin_seq_def sample_image_def sample_arrival_def
      sample_host_def word_le_nat_alt Let_def)

theorem run_takes_events_in_order_witness:
  "\<exists>es q. run_trace sample_image (Some 1) es (sample_s2 []) q
     \<and> sorted_wrt (<) (map ev_key (es @ [sample_child 100 TxComplete 0 2, sample_child 105 RemoteArrival 1 3]))"
  using run_takes_events_in_order [OF sample_run] by blast


theorem run_stage_index_exact_witness:
  "he_index (ts_hosts (sample_s2 []) ! 0) = host_stage_index_build (he_state (ts_hosts (sample_s2 []) ! 0)) []"
proof -
  have "img_stage_joins sample_image = []" "0 < length (ts_hosts (sample_s2 []))"
    by (simp_all add: sample_image_def sample_s2_def sample_state_def)
  then show ?thesis using conjunct1 [OF run_stage_index_exact [OF sample_trace, of 0]] by simp
qed

theorem run_cut_at_horizon_witness:
  "scalar_loop 1000 None (sample_s2 [])
      \<lparr>fe_heap = [sample_child 105 RemoteArrival 1 3, sample_child 100 TxComplete 0 2], fe_timers = []\<rparr> =
    (case scalar_loop 1000 (Some 101) (sample_s2 [])
        \<lparr>fe_heap = [sample_child 105 RemoteArrival 1 3, sample_child 100 TxComplete 0 2], fe_timers = []\<rparr> of
       Some (Some (Inr (s', q'))) \<Rightarrow> scalar_loop 1000 None s' q'
     | r \<Rightarrow> r)"
  by (rule run_cut_at_horizon [OF sample_trace])

theorem dispatch_is_local_witness:
  "ts_children (sample_s1 [sample_child 0 TxReady 0 1]) = [sample_child 0 TxReady 0 1]
     \<and> ts_image (sample_s1 [sample_child 0 TxReady 0 1]) = ts_image sample_s0"
proof -
  have "ts_image (sample_s1 [sample_child 0 TxReady 0 1]) = ts_image sample_s0"
    using dispatch_is_local [OF sample_dispatch_arrival] by blast
  then show ?thesis by (simp add: sample_s1_def sample_state_def)
qed

end
