(* ===== verification/Probe_Index.thy ===== *)
theory Probe_Index
  imports Ordered_Map Prelude
begin

section \<open>The probed index of the packet store\<close>

text \<open>
  The open-addressing index of \<open>executor/src/packet_store.rs\<close>: buckets of a payload identity and a slot
  number, linear probing from a multiply-shift hash, and deletion that shifts the probe run back.  The
  invariant \<open>probe_wf\<close> says that every member is reachable from its home bucket; a lookup, a placement
  and a deletion are then operations on the set of \<open>entries\<close>.

  A probe is \<open>None\<close> where the source would index out of range or not return.
\<close>

unbundle bit_operations_syntax

definition empty_slot :: u32 where "empty_slot = u_max"

definition fibonacci :: u64 where "fibonacci = 0x9e3779b97f4a7c15"

record bucket =
  bk_payload :: u64
  bk_slot :: u32

definition empty_bucket :: bucket where
  "empty_bucket = \<lparr>bk_payload = 0, bk_slot = empty_slot\<rparr>"

definition bucket_of :: "u64 \<Rightarrow> nat \<Rightarrow> nat" where
  "bucket_of payload shift = unat (drop_bit shift (payload * fibonacci))"

fun trailing_zeros :: "nat \<Rightarrow> nat" where
  "trailing_zeros n = (if n = 0 \<or> odd n then 0 else Suc (trailing_zeros (n div 2)))"

declare trailing_zeros.simps [simp del]

partial_function (option) find_from :: "bucket list \<Rightarrow> u64 \<Rightarrow> nat \<Rightarrow> nat option option" where
  "find_from buckets payload index =
     (if index < length buckets then
        if bk_slot (buckets ! index) = empty_slot then Some None
        else if bk_payload (buckets ! index) = payload then Some (Some index)
        else find_from buckets payload ((index + 1) AND (length buckets - 1))
      else None)"

declare find_from.simps [code]

partial_function (option) place_from :: "bucket list \<Rightarrow> nat \<Rightarrow> nat option" where
  "place_from buckets index =
     (if index < length buckets then
        if bk_slot (buckets ! index) \<noteq> empty_slot
        then place_from buckets ((index + 1) AND (length buckets - 1))
        else Some index
      else None)"

declare place_from.simps [code]

definition place :: "nat \<Rightarrow> u64 \<Rightarrow> u32 \<Rightarrow> bucket list \<Rightarrow> bucket list option" where
  "place shift payload slot buckets =
     map_option (\<lambda>index. buckets[index := \<lparr>bk_payload = payload, bk_slot = slot\<rparr>])
       (place_from buckets (bucket_of payload shift))"

fun place_all :: "nat \<Rightarrow> bucket list \<Rightarrow> bucket list \<Rightarrow> bucket list option" where
  "place_all shift [] buckets = Some buckets"
| "place_all shift (b # old) buckets =
     (if bk_slot b \<noteq> empty_slot
      then Option.bind (place shift (bk_payload b) (bk_slot b) buckets) (place_all shift old)
      else place_all shift old buckets)"

text \<open>The deletion: later members of the probe run move back into the hole unless they must stay.\<close>

partial_function (option) shift_back :: "nat \<Rightarrow> bucket list \<Rightarrow> nat \<Rightarrow> nat \<Rightarrow> bucket list option" where
  "shift_back shift buckets hole next_index =
     (if hole < length buckets \<and> next_index < length buckets then
        if bk_slot (buckets ! next_index) \<noteq> empty_slot then
          let home = bucket_of (bk_payload (buckets ! next_index)) shift;
              stays = (if hole \<le> next_index then hole < home \<and> home \<le> next_index
                       else hole < home \<or> home \<le> next_index);
              after = (next_index + 1) AND (length buckets - 1)
          in if stays then shift_back shift buckets hole after
             else shift_back shift (buckets[hole := buckets ! next_index]) next_index after
        else Some (buckets[hole := empty_bucket])
      else None)"

declare shift_back.simps [code]

subsection \<open>Cyclic probe runs\<close>

text \<open>
  The distance from one bucket to another in probe order.  A bucket lies on the probe path from \<open>a\<close>
  to \<open>b\<close> when it is at most as far from \<open>a\<close> as \<open>b\<close> is.
\<close>

definition dist :: "nat \<Rightarrow> nat \<Rightarrow> nat \<Rightarrow> nat" where
  "dist n a b = (if a \<le> b then b - a else b + n - a)"

definition occupied :: "bucket list \<Rightarrow> nat \<Rightarrow> bool" where
  "occupied b i \<longleftrightarrow> bk_slot (b ! i) \<noteq> empty_slot"

definition home :: "nat \<Rightarrow> bucket list \<Rightarrow> nat \<Rightarrow> nat" where
  "home shift b i = bucket_of (bk_payload (b ! i)) shift"

lemma step_index:
  assumes "i < 2 ^ k"
  shows "(i + 1) AND (2 ^ k - 1) = (if Suc i = 2 ^ k then 0 else Suc i)"
proof -
  have "(i + 1) AND (2 ^ k - 1) = Suc i mod 2 ^ k"
    by (metis Suc_eq_plus1 mask_eq_exp_minus_1 take_bit_eq_mask take_bit_eq_mod)
  then show ?thesis using assms by auto
qed

lemma dist_step:
  assumes "i < n" "t < n" "t \<noteq> i"
  shows "dist n i t = Suc (dist n (if Suc i = n then 0 else Suc i) t)"
  using assms by (auto simp: dist_def)

lemma dist_self [simp]: "dist n a a = 0"
  by (simp add: dist_def)

lemma dist_less: "a < n \<Longrightarrow> b < n \<Longrightarrow> dist n a b < n"
  by (auto simp: dist_def)

lemma dist_eq_iff: "a < n \<Longrightarrow> b < n \<Longrightarrow> c < n \<Longrightarrow> dist n a b = dist n a c \<longleftrightarrow> b = c"
  by (auto simp: dist_def)

lemma bucket_of_less:
  assumes "shift \<le> 64" shows "bucket_of payload shift < 2 ^ (64 - shift)"
proof -
  have "unat (payload * fibonacci) < 2 ^ shift * 2 ^ (64 - shift)"
    using unat_lt [of "payload * fibonacci"] assms by (simp flip: power_add)
  moreover have "bucket_of payload shift = unat (payload * fibonacci) div 2 ^ shift"
    by (metis bucket_of_def drop_bit_eq_div unat_drop_bit_eq)
  ultimately show ?thesis by (simp add: less_mult_imp_div_less mult.commute)
qed

text \<open>
  A loop that moves on while its bucket is to be skipped reaches the first bucket that is not.
\<close>

definition next_bucket :: "nat \<Rightarrow> nat \<Rightarrow> nat" where
  "next_bucket n i = (if Suc i = n then 0 else Suc i)"

lemma first_on_path:
  assumes "e < n" "Q e"
  obtains j where "j < n" "Q j" "\<And>t. t < n \<Longrightarrow> dist n i t < dist n i j \<Longrightarrow> \<not> Q t"
  using ex_has_least_nat [of "\<lambda>j. j < n \<and> Q j" e "dist n i"] assms by (metis not_less)

lemma walk_path:
  assumes step: "\<And>i. i < n \<Longrightarrow> \<not> Q i \<Longrightarrow> f i = f (next_bucket n i)"
    and "i < n" "j < n" "\<And>t. t < n \<Longrightarrow> dist n i t < dist n i j \<Longrightarrow> \<not> Q t"
  shows "f i = f j"
  using assms(2,4)
proof (induction "dist n i j" arbitrary: i)
  case 0
  then show ?case using assms(3) by (auto simp: dist_def split: if_splits)
next
  case (Suc d)
  let ?i = "next_bucket n i"
  have ne: "j \<noteq> i" using Suc.hyps(2) by auto
  have i: "?i < n" using Suc.prems(1) by (auto simp: next_bucket_def)
  have d: "dist n i t = Suc (dist n ?i t)" if "t < n" "t \<noteq> i" for t
    using dist_step [OF Suc.prems(1) that] by (simp add: next_bucket_def)
  have "\<not> Q i" using Suc.prems(2) [OF Suc.prems(1)] Suc.hyps(2) by simp
  then have "f i = f ?i" using step Suc.prems(1) by blast
  also have "\<dots> = f j"
  proof (rule Suc.hyps(1))
    show "d = dist n ?i j" using d [OF assms(3) ne] Suc.hyps(2) by simp
    show "\<not> Q t" if "t < n" "dist n ?i t < dist n ?i j" for t
    proof (cases "t = i")
      case True
      then show ?thesis using \<open>\<not> Q i\<close> by simp
    next
      case False
      then show ?thesis using Suc.prems(2) [OF that(1)] d [OF that(1)] d [OF assms(3) ne] that(2) by simp
    qed
  qed (rule i)
  finally show ?case .
qed

text \<open>A probe from a bucket stops at the first empty bucket or the first that holds the payload.\<close>

lemma find_from_spec:
  assumes n: "length b = 2 ^ k" and i: "i < 2 ^ k" and e: "e < 2 ^ k" "\<not> occupied b e"
  obtains j where "j < 2 ^ k"
    "\<And>t. t < 2 ^ k \<Longrightarrow> dist (2 ^ k) i t < dist (2 ^ k) i j \<Longrightarrow> occupied b t \<and> bk_payload (b ! t) \<noteq> payload"
    "occupied b j \<Longrightarrow> bk_payload (b ! j) = payload"
    "find_from b payload i = Some (if occupied b j then Some j else None)"
proof -
  let ?Q = "\<lambda>i. \<not> (occupied b i \<and> bk_payload (b ! i) \<noteq> payload)"
  have "?Q e" using e by simp
  then obtain j where j: "j < 2 ^ k" "?Q j" "\<And>t. t < 2 ^ k \<Longrightarrow> dist (2 ^ k) i t < dist (2 ^ k) i j \<Longrightarrow> \<not> ?Q t"
    using first_on_path [OF e(1), of ?Q i] by blast
  have "find_from b payload i = find_from b payload j"
  proof (rule walk_path [OF _ i j(1) j(3)])
    show "find_from b payload i = find_from b payload (next_bucket (2 ^ k) i)" if "i < 2 ^ k" "\<not> ?Q i" for i
      using that n step_index [OF that(1)]
      by (subst find_from.simps) (simp add: occupied_def next_bucket_def)
  qed
  also have "\<dots> = Some (if occupied b j then Some j else None)"
    using j(1,2) n by (subst find_from.simps) (auto simp: occupied_def)
  finally show thesis using that j by blast
qed

lemma place_from_spec:
  assumes n: "length b = 2 ^ k" and i: "i < 2 ^ k" and e: "e < 2 ^ k" "\<not> occupied b e"
  obtains j where "j < 2 ^ k" "\<not> occupied b j"
    "\<And>t. t < 2 ^ k \<Longrightarrow> dist (2 ^ k) i t < dist (2 ^ k) i j \<Longrightarrow> occupied b t"
    "place_from b i = Some j"
proof -
  let ?Q = "\<lambda>i. \<not> occupied b i"
  obtain j where j: "j < 2 ^ k" "?Q j" "\<And>t. t < 2 ^ k \<Longrightarrow> dist (2 ^ k) i t < dist (2 ^ k) i j \<Longrightarrow> \<not> ?Q t"
    using first_on_path [where Q = ?Q and i = i, OF e(1)] e(2) by blast
  have "place_from b i = place_from b j"
  proof (rule walk_path [OF _ i j(1) j(3)])
    show "place_from b i = place_from b (next_bucket (2 ^ k) i)" if "i < 2 ^ k" "\<not> ?Q i" for i
      using that n step_index [OF that(1)]
      by (subst place_from.simps) (simp add: occupied_def next_bucket_def)
  qed
  also have "\<dots> = Some j"
    using j(1,2) n by (subst place_from.simps) (auto simp: occupied_def)
  finally show thesis using that j by blast
qed

subsection \<open>The index as a set of entries\<close>

text \<open>
  The invariant of the index: a power of two of buckets, every member reachable from its home bucket
  through occupied buckets, and no payload twice.
\<close>

definition probe_wf :: "nat \<Rightarrow> bucket list \<Rightarrow> bool" where
  "probe_wf shift b \<longleftrightarrow> 0 < shift \<and> shift < 64 \<and> length b = 2 ^ (64 - shift)
     \<and> (\<forall>i<length b. \<forall>j<length b. occupied b i \<longrightarrow>
          dist (length b) (home shift b i) j \<le> dist (length b) (home shift b i) i \<longrightarrow> occupied b j)
     \<and> (\<forall>i<length b. \<forall>j<length b. occupied b i \<longrightarrow> occupied b j \<longrightarrow>
          bk_payload (b ! i) = bk_payload (b ! j) \<longrightarrow> i = j)"

definition entries :: "bucket list \<Rightarrow> (u64 \<times> u32) set" where
  "entries b = {(bk_payload (b ! i), bk_slot (b ! i)) |i. i < length b \<and> occupied b i}"

lemma probe_wfD:
  assumes "probe_wf shift b"
  shows "0 < shift" "shift < 64" "length b = 2 ^ (64 - shift)"
    and "\<And>i j. i < length b \<Longrightarrow> j < length b \<Longrightarrow> occupied b i \<Longrightarrow>
      dist (length b) (home shift b i) j \<le> dist (length b) (home shift b i) i \<Longrightarrow> occupied b j"
    and "\<And>i j. i < length b \<Longrightarrow> j < length b \<Longrightarrow> occupied b i \<Longrightarrow> occupied b j \<Longrightarrow>
      bk_payload (b ! i) = bk_payload (b ! j) \<Longrightarrow> i = j"
  using assms unfolding probe_wf_def by blast+

lemma probe_wfI:
  assumes "0 < shift" "shift < 64" "length b = 2 ^ (64 - shift)"
    and "\<And>i j. i < length b \<Longrightarrow> j < length b \<Longrightarrow> occupied b i \<Longrightarrow>
      dist (length b) (home shift b i) j \<le> dist (length b) (home shift b i) i \<Longrightarrow> occupied b j"
    and "\<And>i j. i < length b \<Longrightarrow> j < length b \<Longrightarrow> occupied b i \<Longrightarrow> occupied b j \<Longrightarrow>
      bk_payload (b ! i) = bk_payload (b ! j) \<Longrightarrow> i = j"
  shows "probe_wf shift b"
  using assms unfolding probe_wf_def by (intro conjI allI impI) assumption+

lemma home_less: "probe_wf shift b \<Longrightarrow> home shift b i < length b"
  using bucket_of_less [of shift] probe_wfD(2,3) [of shift b] by (simp add: home_def)

lemma entriesE:
  assumes "(p, s) \<in> entries b"
  obtains i where "i < length b" "occupied b i" "bk_payload (b ! i) = p" "bk_slot (b ! i) = s"
  using assms unfolding entries_def by blast

lemma entriesI: "i < length b \<Longrightarrow> occupied b i \<Longrightarrow> (bk_payload (b ! i), bk_slot (b ! i)) \<in> entries b"
  unfolding entries_def by blast

lemma entries_functional:
  assumes "probe_wf shift b" "(p, s) \<in> entries b" "(p, t) \<in> entries b"
  shows "s = t"
  using probe_wfD(5) [OF assms(1)] assms(2,3) by (metis entriesE)

lemma card_entries:
  assumes "probe_wf shift b"
  shows "finite (entries b)" "card (entries b) = card {i. i < length b \<and> occupied b i}"
proof -
  have e: "entries b = (\<lambda>i. (bk_payload (b ! i), bk_slot (b ! i))) ` {i. i < length b \<and> occupied b i}"
    by (auto simp: entries_def)
  then show "finite (entries b)" by simp
  have "inj_on (\<lambda>i. (bk_payload (b ! i), bk_slot (b ! i))) {i. i < length b \<and> occupied b i}"
    by (rule inj_onI) (use probe_wfD(5) [OF assms] in blast)
  then show "card (entries b) = card {i. i < length b \<and> occupied b i}" by (simp add: e card_image)
qed

lemma empty_bucket_exists:
  assumes "probe_wf shift b" "card (entries b) < length b"
  obtains e where "e < length b" "\<not> occupied b e"
proof (rule ccontr)
  assume "\<not> thesis"
  then have "{i. i < length b \<and> occupied b i} = {..<length b}" using that by auto
  then show False using card_entries(2) [OF assms(1)] assms(2) by simp
qed

lemma slab_find_index:
  assumes w: "probe_wf shift b" and "card (entries b) < length b"
  shows "(\<exists>i<length b. occupied b i \<and> bk_payload (b ! i) = p \<and> find_from b p (bucket_of p shift) = Some (Some i))
    \<or> (\<forall>s. (p, s) \<notin> entries b) \<and> find_from b p (bucket_of p shift) = Some None"
proof -
  let ?h = "bucket_of p shift" and ?n = "length b"
  note d = probe_wfD [OF w]
  have h: "?h < 2 ^ (64 - shift)" using bucket_of_less d(2) by simp
  obtain e where e: "e < ?n" "\<not> occupied b e" using empty_bucket_exists [OF assms] .
  obtain j where j: "j < ?n" "\<And>t. t < ?n \<Longrightarrow> dist ?n ?h t < dist ?n ?h j \<Longrightarrow> occupied b t \<and> bk_payload (b ! t) \<noteq> p"
    "occupied b j \<Longrightarrow> bk_payload (b ! j) = p"
    "find_from b p ?h = Some (if occupied b j then Some j else None)"
    using find_from_spec [OF d(3) h _ e(2), of p] e(1) unfolding d(3) by blast
  show ?thesis
  proof (cases "occupied b j")
    case True
    then show ?thesis using j by auto
  next
    case False
    have "\<not> occupied b i" if i: "i < ?n" "bk_payload (b ! i) = p" for i
    proof
      assume o: "occupied b i"
      have "home shift b i = ?h" using i by (simp add: home_def)
      then have "dist ?n ?h i < dist ?n ?h j"
        using d(4) [OF i(1) j(1) o] False by (auto simp: not_le [symmetric])
      then show False using j(2) [OF i(1)] i(2) by blast
    qed
    then show ?thesis using j(4) False by (auto simp: entries_def)
  qed
qed

lemma home_update:
  "home shift (b[j := c]) i = (if i = j \<and> j < length b then bucket_of (bk_payload c) shift else home shift b i)"
  by (cases "j < length b") (auto simp: home_def nth_list_update list_update_beyond)

lemma occupied_update:
  "occupied (b[j := c]) i \<longleftrightarrow> (if i = j \<and> j < length b then bk_slot c \<noteq> empty_slot else occupied b i)"
  by (cases "j < length b") (auto simp: occupied_def nth_list_update list_update_beyond)

lemma entries_update_empty:
  assumes "j < length b" "\<not> occupied b j" "s \<noteq> empty_slot"
  shows "entries (b[j := \<lparr>bk_payload = p, bk_slot = s\<rparr>]) = insert (p, s) (entries b)"
  using assms by (auto simp: entries_def occupied_update nth_list_update)

lemma place_spec:
  assumes w: "probe_wf shift b" and c: "card (entries b) < length b"
    and p: "\<And>s. (p, s) \<notin> entries b" and s: "s \<noteq> empty_slot"
  obtains b' where "place shift p s b = Some b'" "probe_wf shift b'" "length b' = length b"
    "entries b' = insert (p, s) (entries b)"
proof -
  let ?h = "bucket_of p shift" and ?n = "length b"
  note d = probe_wfD [OF w]
  have h: "?h < ?n" using bucket_of_less d(2,3) by simp
  obtain e where e: "e < ?n" "\<not> occupied b e" using empty_bucket_exists [OF w c] .
  obtain j where j: "j < ?n" "\<not> occupied b j" "\<And>t. t < ?n \<Longrightarrow> dist ?n ?h t < dist ?n ?h j \<Longrightarrow> occupied b t"
    "place_from b ?h = Some j"
    using place_from_spec [OF d(3) h [unfolded d(3)] _ e(2)] e(1) unfolding d(3) by blast
  let ?b = "b[j := \<lparr>bk_payload = p, bk_slot = s\<rparr>]"
  have "probe_wf shift ?b"
    unfolding probe_wf_def
  proof (intro conjI allI impI)
    show "occupied ?b t" if "i < length ?b" "t < length ?b" "occupied ?b i"
      "dist (length ?b) (home shift ?b i) t \<le> dist (length ?b) (home shift ?b i) i" for i t
    proof (cases "i = j")
      case True
      then have "dist ?n ?h t < dist ?n ?h j \<or> t = j"
        using that dist_eq_iff [OF h, of t j] j(1) by (simp add: home_update) linarith
      then show ?thesis using j(3) [of t] that s by (auto simp: occupied_update)
    next
      case False
      then have "occupied b t" using that d(4) [of i t] by (simp add: home_update occupied_update)
      then show ?thesis using s by (simp add: occupied_update)
    qed
    show "i = t" if "i < length ?b" "t < length ?b" "occupied ?b i" "occupied ?b t"
      "bk_payload (?b ! i) = bk_payload (?b ! t)" for i t
    proof (cases "i = j \<or> t = j")
      case True
      have "bk_payload (b ! m) \<noteq> p" if "m < ?n" "occupied b m" for m
        using entriesI [OF that] p by metis
      then show ?thesis using True that j(1) by (cases "i = j"; cases "t = j") (auto simp: occupied_update)
    next
      case False
      then show ?thesis using that d(5) [of i t] by (simp add: occupied_update)
    qed
  qed (use d in auto)
  then show thesis
    using that [of ?b] j entries_update_empty [OF j(1,2) s] by (simp add: place_def)
qed

subsection \<open>Backward-shift deletion\<close>

text \<open>
  The state of the deletion loop: the bucket \<open>hole\<close> still holds a stale member, every other member is
  reachable from its home through occupied buckets, and a member whose path leads through the hole
  lies at or after \<open>next\<close>.
\<close>

definition hole_inv :: "nat \<Rightarrow> bucket list \<Rightarrow> nat \<Rightarrow> nat \<Rightarrow> bool" where
  "hole_inv shift b hole nx \<longleftrightarrow> 0 < shift \<and> shift < 64 \<and> length b = 2 ^ (64 - shift)
     \<and> hole < length b \<and> nx < length b \<and> hole \<noteq> nx \<and> occupied b hole
     \<and> (\<forall>t<length b. dist (length b) hole t < dist (length b) hole nx \<longrightarrow> occupied b t)
     \<and> (\<forall>i<length b. \<forall>j<length b. i \<noteq> hole \<longrightarrow> occupied b i \<longrightarrow>
          dist (length b) (home shift b i) j \<le> dist (length b) (home shift b i) i \<longrightarrow> occupied b j)
     \<and> (\<forall>i<length b. i \<noteq> hole \<longrightarrow> occupied b i \<longrightarrow>
          dist (length b) (home shift b i) hole \<le> dist (length b) (home shift b i) i \<longrightarrow>
          dist (length b) hole nx \<le> dist (length b) hole i)
     \<and> (\<forall>i<length b. \<forall>j<length b. i \<noteq> hole \<longrightarrow> j \<noteq> hole \<longrightarrow> occupied b i \<longrightarrow> occupied b j \<longrightarrow>
          bk_payload (b ! i) = bk_payload (b ! j) \<longrightarrow> i = j)"

lemma hole_invD:
  assumes "hole_inv shift b hole nx"
  shows "0 < shift" "shift < 64" "length b = 2 ^ (64 - shift)" "hole < length b" "nx < length b"
    "hole \<noteq> nx" "occupied b hole"
    and "\<And>t. t < length b \<Longrightarrow> dist (length b) hole t < dist (length b) hole nx \<Longrightarrow> occupied b t"
    and "\<And>i j. i < length b \<Longrightarrow> j < length b \<Longrightarrow> i \<noteq> hole \<Longrightarrow> occupied b i \<Longrightarrow>
      dist (length b) (home shift b i) j \<le> dist (length b) (home shift b i) i \<Longrightarrow> occupied b j"
    and "\<And>i. i < length b \<Longrightarrow> i \<noteq> hole \<Longrightarrow> occupied b i \<Longrightarrow>
      dist (length b) (home shift b i) hole \<le> dist (length b) (home shift b i) i \<Longrightarrow>
      dist (length b) hole nx \<le> dist (length b) hole i"
    and "\<And>i j. i < length b \<Longrightarrow> j < length b \<Longrightarrow> i \<noteq> hole \<Longrightarrow> j \<noteq> hole \<Longrightarrow> occupied b i \<Longrightarrow>
      occupied b j \<Longrightarrow> bk_payload (b ! i) = bk_payload (b ! j) \<Longrightarrow> i = j"
  using assms unfolding hole_inv_def by blast+

lemma hole_invI:
  assumes "0 < shift" "shift < 64" "length b = 2 ^ (64 - shift)" "hole < length b" "nx < length b"
    "hole \<noteq> nx" "occupied b hole"
    and "\<And>t. t < length b \<Longrightarrow> dist (length b) hole t < dist (length b) hole nx \<Longrightarrow> occupied b t"
    and "\<And>i j. i < length b \<Longrightarrow> j < length b \<Longrightarrow> i \<noteq> hole \<Longrightarrow> occupied b i \<Longrightarrow>
      dist (length b) (home shift b i) j \<le> dist (length b) (home shift b i) i \<Longrightarrow> occupied b j"
    and "\<And>i. i < length b \<Longrightarrow> i \<noteq> hole \<Longrightarrow> occupied b i \<Longrightarrow>
      dist (length b) (home shift b i) hole \<le> dist (length b) (home shift b i) i \<Longrightarrow>
      dist (length b) hole nx \<le> dist (length b) hole i"
    and "\<And>i j. i < length b \<Longrightarrow> j < length b \<Longrightarrow> i \<noteq> hole \<Longrightarrow> j \<noteq> hole \<Longrightarrow> occupied b i \<Longrightarrow>
      occupied b j \<Longrightarrow> bk_payload (b ! i) = bk_payload (b ! j) \<Longrightarrow> i = j"
  shows "hole_inv shift b hole nx"
  using assms unfolding hole_inv_def by (intro conjI allI impI) assumption+

lemma two_buckets: "shift < 64 \<Longrightarrow> (2::nat) \<le> 2 ^ (64 - shift)"
  using self_le_power [of "2::nat" "64 - shift"] by simp

lemma stays_iff:
  assumes "h < n" "hole < n" "nx < n" "hole \<noteq> nx"
  shows "(if hole \<le> nx then hole < h \<and> h \<le> nx else hole < h \<or> h \<le> nx) \<longleftrightarrow> \<not> dist n h hole \<le> dist n h nx"
  using assms by (auto simp: dist_def)

lemma hole_inv_start:
  assumes w: "probe_wf shift b" and h: "hole < length b" "occupied b hole"
  shows "hole_inv shift b hole (next_bucket (length b) hole)"
proof -
  let ?n = "length b" and ?nx = "next_bucket (length b) hole"
  note d = probe_wfD [OF w]
  have n2: "2 \<le> ?n" using two_buckets d(2,3) by simp
  then have nx: "?nx < ?n" "?nx \<noteq> hole" using h(1) by (auto simp: next_bucket_def)
  then have d1: "dist ?n hole ?nx = 1" using n2 h(1) by (auto simp: dist_def next_bucket_def)
  show ?thesis
  proof (rule hole_invI)
    show "occupied b t" if "t < ?n" "dist ?n hole t < dist ?n hole ?nx" for t
      using that d1 h dist_eq_iff [OF h(1) that(1) h(1)] by simp
    show "dist ?n hole ?nx \<le> dist ?n hole i" if "i < ?n" "i \<noteq> hole" for i
      using that d1 dist_eq_iff [OF h(1) that(1) h(1)] by simp
  qed (fact d(1-3) h nx(1) nx(2) [symmetric] | rule d(4) d(5); assumption)+
qed

lemma hole_inv_stay:
  assumes inv: "hole_inv shift b hole nx" and o: "occupied b nx" and e: "e < length b" "\<not> occupied b e"
    and stays: "\<not> dist (length b) (home shift b nx) hole \<le> dist (length b) (home shift b nx) nx"
  shows "hole_inv shift b hole (next_bucket (length b) nx)"
proof -
  let ?n = "length b" and ?nx = "next_bucket (length b) nx"
  note d = hole_invD [OF inv]
  have occ: "occupied b t" if "t < ?n" "dist ?n hole t \<le> dist ?n hole nx" for t
    using that o d(8) [OF that(1)] dist_eq_iff [OF d(4) that(1) d(5)] by force
  have ne: "?nx \<noteq> hole"
  proof
    assume "?nx = hole"
    then have "dist ?n hole e \<le> dist ?n hole nx"
      using e(1) d(4,5) by (auto simp: dist_def next_bucket_def split: if_splits)
    then show False using occ e by blast
  qed
  have nx: "?nx < ?n" using d(5) by (auto simp: next_bucket_def)
  have dn: "dist ?n hole ?nx = Suc (dist ?n hole nx)"
    using ne d(4,5) by (auto simp: dist_def next_bucket_def split: if_splits)
  show ?thesis
  proof (rule hole_invI)
    show "dist ?n hole ?nx \<le> dist ?n hole i"
      if i: "i < ?n" "i \<noteq> hole" "occupied b i" "dist ?n (home shift b i) hole \<le> dist ?n (home shift b i) i" for i
    proof -
      have "i \<noteq> nx" using stays i(4) by auto
      then show ?thesis using d(10) [OF i] dn dist_eq_iff [OF d(4) i(1) d(5)] by linarith
    qed
    show "occupied b t" if "t < ?n" "dist ?n hole t < dist ?n hole ?nx" for t
      using occ [OF that(1)] that(2) dn by simp
  qed (fact d(1-4) d(7) nx ne [symmetric] | rule d(9) d(11); assumption)+
qed

lemma hole_inv_move:
  assumes inv: "hole_inv shift b hole nx" and o: "occupied b nx"
    and moves: "dist (length b) (home shift b nx) hole \<le> dist (length b) (home shift b nx) nx"
  shows "hole_inv shift (b[hole := b ! nx]) nx (next_bucket (length b) nx)"
    and "entries (b[hole := b ! nx, nx := empty_bucket]) = entries (b[hole := empty_bucket])"
proof -
  let ?n = "length b" and ?nx = "next_bucket (length b) nx" and ?b = "b[hole := b ! nx]"
  note d = hole_invD [OF inv]
  have n2: "2 \<le> ?n" using two_buckets d(2,3) by simp
  have nx: "?nx < ?n" "nx \<noteq> ?nx" using d(5) n2 by (auto simp: next_bucket_def)
  have d1: "dist ?n nx ?nx = 1" using n2 d(5) by (auto simp: dist_def next_bucket_def)
  have occ: "occupied ?b t \<longleftrightarrow> occupied b t" if "t < ?n" for t
    using that o d(4,7) by (auto simp: occupied_def nth_list_update)
  have hm: "home shift ?b i = home shift b (if i = hole then nx else i)" if "i < ?n" for i
    using that d(4) by (auto simp: home_def nth_list_update)
  show "hole_inv shift ?b nx ?nx"
  proof (rule hole_invI, unfold length_list_update)
    show "occupied ?b t" if "t < ?n" "dist ?n nx t < dist ?n nx ?nx" for t
      using that d1 o occ dist_eq_iff [OF d(5) that(1) d(5)] by simp
    show "occupied ?b j" if "i < ?n" "j < ?n" "i \<noteq> nx" "occupied ?b i"
      "dist ?n (home shift ?b i) j \<le> dist ?n (home shift ?b i) i" for i j
    proof (cases "i = hole")
      case True
      then have "dist ?n (home shift b nx) j \<le> dist ?n (home shift b nx) nx"
        using that hm moves by simp
      then show ?thesis using d(9) [OF d(5) that(2) d(6) [symmetric] o] occ that by blast
    next
      case False
      then show ?thesis using d(9) [OF that(1,2) False] occ that hm by simp
    qed
    show "dist ?n nx ?nx \<le> dist ?n nx i" if "i < ?n" "i \<noteq> nx" for i
      using that d1 dist_eq_iff [OF d(5) that(1) d(5)] by simp
    show "i = j" if "i < ?n" "j < ?n" "i \<noteq> nx" "j \<noteq> nx" "occupied ?b i" "occupied ?b j"
      "bk_payload (?b ! i) = bk_payload (?b ! j)" for i j
    proof -
      let ?o = "\<lambda>i. if i = hole then nx else i"
      have "?o i = ?o j"
        using that d(4,5,6) occ o by (intro d(11)) (auto simp: nth_list_update)
      then show ?thesis using that by (auto split: if_splits)
    qed
    show "occupied ?b nx" using o occ d(5) by blast
  qed (fact d(1-3) d(5) nx)+
  show "entries (?b[nx := empty_bucket]) = entries (b[hole := empty_bucket])"
  proof (intro equalityI subsetI; clarify)
    fix p s
    assume "(p, s) \<in> entries (?b[nx := empty_bucket])"
    then obtain i where i: "i < ?n" "i \<noteq> nx" "occupied ?b i" "bk_payload (?b ! i) = p" "bk_slot (?b ! i) = s"
      by (rule entriesE) (auto simp: occupied_update empty_bucket_def nth_list_update split: if_splits)
    define j where "j = (if i = hole then nx else i)"
    have j: "j < ?n" "j \<noteq> hole" "b ! j = ?b ! i"
      using i d(4,5,6) by (auto simp: j_def nth_list_update)
    then show "(p, s) \<in> entries (b[hole := empty_bucket])"
      using entriesI [of j "b[hole := empty_bucket]"] i by (simp add: occupied_def)
  next
    fix p s
    assume "(p, s) \<in> entries (b[hole := empty_bucket])"
    then obtain i where i: "i < ?n" "i \<noteq> hole" "occupied b i" "bk_payload (b ! i) = p" "bk_slot (b ! i) = s"
      by (rule entriesE) (auto simp: occupied_update empty_bucket_def nth_list_update split: if_splits)
    define j where "j = (if i = nx then hole else i)"
    have j: "j < ?n" "j \<noteq> nx" "?b ! j = b ! i"
      using i d(4,5,6) by (auto simp: j_def nth_list_update)
    then show "(p, s) \<in> entries (?b[nx := empty_bucket])"
      using entriesI [of j "?b[nx := empty_bucket]"] i by (simp add: occupied_def)
  qed
qed

lemma path_through:
  assumes "h < n" "i < n" "hole < n" "nx < n" "dist n h hole \<le> dist n h i" "dist n hole nx \<le> dist n hole i"
  shows "dist n h nx \<le> dist n h i"
  using assms by (auto simp: dist_def split: if_splits)

lemma hole_inv_done:
  assumes inv: "hole_inv shift b hole nx" and e: "\<not> occupied b nx"
  shows "probe_wf shift (b[hole := empty_bucket])"
proof -
  let ?n = "length b" and ?b = "b[hole := empty_bucket]"
  note d = hole_invD [OF inv]
  have occ: "occupied ?b i \<longleftrightarrow> i \<noteq> hole \<and> occupied b i" if "i < ?n" for i
    using that d(4) by (auto simp: occupied_update empty_bucket_def)
  have hm: "home shift ?b i = home shift b i" if "i \<noteq> hole" for i using that by (simp add: home_update)
  have hl: "home shift b i < ?n" for i using bucket_of_less [of shift] d(2,3) by (simp add: home_def)
  show ?thesis
  proof (rule probe_wfI, unfold length_list_update)
    fix i j
    assume i: "i < ?n" "j < ?n" "occupied ?b i"
    with occ have o: "i \<noteq> hole" "occupied b i" by blast+
    {
      assume "dist ?n (home shift ?b i) j \<le> dist ?n (home shift ?b i) i"
      with o hm have p: "dist ?n (home shift b i) j \<le> dist ?n (home shift b i) i" by simp
      have "j \<noteq> hole"
      proof
        assume "j = hole"
        with p have p': "dist ?n (home shift b i) hole \<le> dist ?n (home shift b i) i" by simp
        have "dist ?n (home shift b i) nx \<le> dist ?n (home shift b i) i"
          by (rule path_through [OF hl i(1) d(4,5) p' d(10) [OF i(1) o p']])
        then show False using d(9) [OF i(1) d(5) o] e by blast
      qed
      then show "occupied ?b j" using d(9) [OF i(1,2) o p] occ [OF i(2)] by blast
    }
    assume j: "occupied ?b j" "bk_payload (?b ! i) = bk_payload (?b ! j)"
    with occ i(2) have oj: "j \<noteq> hole" "occupied b j" by blast+
    show "i = j" using d(11) [OF i(1,2) o(1) oj(1) o(2) oj(2)] j(2) o(1) oj(1) by simp
  qed (fact d(1-3))+
qed

lemma shift_back_spec:
  assumes "hole_inv shift b hole nx" "e < length b" "\<not> occupied b e"
  shows "\<exists>b'. shift_back shift b hole nx = Some b' \<and> probe_wf shift b' \<and> length b' = length b
    \<and> entries b' = entries (b[hole := empty_bucket])"
  using assms
proof (induction "dist (length b) nx e" arbitrary: b hole nx rule: less_induct)
  case less
  let ?n = "length b" and ?h = "home shift b nx" and ?nx = "next_bucket (length b) nx"
  note d = hole_invD [OF less.prems(1)]
  note run = shift_back.simps [of shift b hole nx]
  have after: "(nx + 1) AND (?n - 1) = ?nx"
    using step_index [of nx "64 - shift"] d(3,5) by (simp add: next_bucket_def)
  show ?case
  proof (cases "occupied b nx")
    case False
    then show ?thesis
      using run d(4,5) hole_inv_done [OF less.prems(1) False] by (simp add: occupied_def)
  next
    case True
    then have "e \<noteq> nx" using less.prems(3) by auto
    then have lt: "dist ?n ?nx e < dist ?n nx e"
      using dist_step [OF d(5) less.prems(2)] by (simp add: next_bucket_def)
    have h: "?h < ?n" using bucket_of_less [of shift] d(2,3) by (simp add: home_def)
    have run': "shift_back shift b hole nx = (if \<not> dist ?n ?h hole \<le> dist ?n ?h nx
        then shift_back shift b hole ?nx else shift_back shift (b[hole := b ! nx]) nx ?nx)"
      using True d(4,5) unfolding run Let_def after home_def [symmetric] stays_iff [OF h d(4,5,6)]
      by (simp add: occupied_def)
    show ?thesis
    proof (cases "dist ?n ?h hole \<le> dist ?n ?h nx")
      case False
      then have "shift_back shift b hole nx = shift_back shift b hole ?nx"
        using run' by simp
      then show ?thesis
        using less.hyps [OF lt hole_inv_stay [OF less.prems(1) True less.prems(2,3) False] less.prems(2,3)] by simp
    next
      case move: True
      let ?b = "b[hole := b ! nx]"
      have "shift_back shift b hole nx = shift_back shift ?b nx ?nx"
        using run' move by simp
      moreover have "\<not> occupied ?b e"
        using less.prems(3) True d(4,7) by (auto simp: occupied_def nth_list_update less.prems(2))
      ultimately show ?thesis
        using less.hyps [of ?b ?nx nx] hole_inv_move [OF less.prems(1) True move] lt less.prems(2) by simp
    qed
  qed
qed

subsection \<open>Growing the index\<close>

lemma trailing_zeros_power: "trailing_zeros (2 ^ k) = k"
  by (induction k) (simp_all add: trailing_zeros.simps [of "2 * _"] trailing_zeros.simps [of "Suc 0"])

lemma empty_index:
  assumes "0 < shift" "shift < 64"
  shows "probe_wf shift (replicate (2 ^ (64 - shift)) empty_bucket)"
    and "entries (replicate n empty_bucket) = {}"
  using assms by (auto simp: probe_wf_def entries_def occupied_def empty_bucket_def)

lemma entries_set:
  "entries b = (\<lambda>c. (bk_payload c, bk_slot c)) ` {c \<in> set b. bk_slot c \<noteq> empty_slot}"
  by (auto simp: entries_def occupied_def in_set_conv_nth)

lemma entries_Cons:
  "entries (c # bs) = (if bk_slot c = empty_slot then entries bs else insert (bk_payload c, bk_slot c) (entries bs))"
  by (auto simp: entries_set)

lemma distinct_payloads:
  assumes "probe_wf shift b"
  shows "distinct (map bk_payload (filter (\<lambda>c. bk_slot c \<noteq> empty_slot) b))"
proof -
  have "filter (\<lambda>c. bk_slot c \<noteq> empty_slot) b
      = filter (\<lambda>c. bk_slot c \<noteq> empty_slot) (map ((!) b) [0..<length b])"
    by (simp only: map_nth)
  also have "\<dots> = map ((!) b) (filter (occupied b) [0..<length b])"
    by (simp add: filter_map comp_def occupied_def [abs_def])
  finally have f: "filter (\<lambda>c. bk_slot c \<noteq> empty_slot) b = \<dots>" .
  have "inj_on (\<lambda>i. bk_payload (b ! i)) (set (filter (occupied b) [0..<length b]))"
    by (rule inj_onI) (rule probe_wfD(5) [OF assms]; simp)
  then show ?thesis unfolding f by (simp add: distinct_map comp_def)
qed

lemma place_all_spec:
  assumes "probe_wf shift b" "distinct (map bk_payload (filter (\<lambda>c. bk_slot c \<noteq> empty_slot) bs))"
    "fst ` entries b \<inter> fst ` entries bs = {}"
    "card (entries b) + length (filter (\<lambda>c. bk_slot c \<noteq> empty_slot) bs) < length b"
  shows "\<exists>b'. place_all shift bs b = Some b' \<and> probe_wf shift b' \<and> length b' = length b
    \<and> entries b' = entries b \<union> entries bs"
  using assms
proof (induction bs arbitrary: b)
  case Nil
  then show ?case by (auto simp: entries_def)
next
  case (Cons c bs)
  show ?case
  proof (cases "bk_slot c = empty_slot")
    case True
    then show ?thesis using Cons.IH [of b] Cons.prems by (simp add: entries_Cons)
  next
    case False
    have fresh: "(bk_payload c, s) \<notin> entries b" for s
    proof
      assume "(bk_payload c, s) \<in> entries b"
      then have "bk_payload c \<in> fst ` entries b" by force
      then show False using Cons.prems(3) False by (auto simp: entries_Cons)
    qed
    obtain b1 where b1: "place shift (bk_payload c) (bk_slot c) b = Some b1" "probe_wf shift b1" "length b1 = length b"
      "entries b1 = insert (bk_payload c, bk_slot c) (entries b)"
      using place_spec [OF Cons.prems(1) _ fresh False] Cons.prems(4) False by auto
    have "bk_payload c \<notin> fst ` entries bs"
    proof
      assume "bk_payload c \<in> fst ` entries bs"
      then have "bk_payload c \<in> bk_payload ` set (filter (\<lambda>c. bk_slot c \<noteq> empty_slot) bs)"
        by (auto simp: entries_set)
      then show False using Cons.prems(2) False by simp
    qed
    moreover have "finite (entries b)" "(bk_payload c, bk_slot c) \<notin> entries b"
      using card_entries(1) [OF Cons.prems(1)] fresh by blast+
    ultimately have "\<exists>b'. place_all shift bs b1 = Some b' \<and> probe_wf shift b' \<and> length b' = length b1
        \<and> entries b' = entries b1 \<union> entries bs"
      using Cons.prems False b1(3) by (intro Cons.IH b1(2)) (auto simp: b1(4) entries_Cons)
    then show ?thesis using b1 False by (auto simp: entries_Cons)
  qed
qed

end
