(* ===== verification/Packet_Store.thy ===== *)
theory Packet_Store
  imports Probe_Index
begin

section \<open>The packet store\<close>

text \<open>
  \<open>executor/src/packet_store.rs\<close>: the packets resident at one queue owner, by payload identity.  A
  small store is an unsorted vector; above \<open>SMALL_LIMIT\<close> packets it is a slab with a free list behind
  an open-addressing index with linear probing and backward-shift deletion.  The executors' theories
  take the store as an ordered map; here the store is the code's, and every history of operations
  answers as that map does.

  An operation returns \<open>None\<close> where the source panics (an index out of range, an \<open>unreachable!\<close>, the
  \<open>expect\<close> on the slot number) or where a probe would not end.
\<close>

unbundle bit_operations_syntax

definition small_limit :: nat where "small_limit = 16"
definition first_buckets :: nat where "first_buckets = 64"
definition no_slot :: u32 where "no_slot = u_max"

datatype 'v slab_slot = FullSlot 'v | VacantSlot u32

record 'v slab =
  sl_buckets :: "bucket list"
  sl_shift :: nat
  sl_len :: nat
  sl_slots :: "'v slab_slot list"
  sl_free :: u32

datatype 'v packet_store = SmallStore "'v list" | LargeStore "'v slab"

definition with_buckets :: "nat \<Rightarrow> 'v slab" where
  "with_buckets buckets = \<lparr>sl_buckets = replicate buckets empty_bucket,
     sl_shift = 64 - trailing_zeros buckets, sl_len = 0, sl_slots = [], sl_free = no_slot\<rparr>"

subsection \<open>The slab\<close>

definition slab_find :: "u64 \<Rightarrow> 'v slab \<Rightarrow> nat option option" where
  "slab_find payload slab = find_from (sl_buckets slab) payload (bucket_of payload (sl_shift slab))"

definition grow :: "'v slab \<Rightarrow> 'v slab option" where
  "grow slab =
     (let buckets = length (sl_buckets slab) * 2;
          shift = 64 - trailing_zeros buckets
      in map_option (\<lambda>b. slab\<lparr>sl_buckets := b, sl_shift := shift\<rparr>)
           (place_all shift (sl_buckets slab) (replicate buckets empty_bucket)))"

definition full_slot :: "u32 \<Rightarrow> 'v slab \<Rightarrow> 'v option" where
  "full_slot slot slab =
     (if unat slot < length (sl_slots slab) then
        (case sl_slots slab ! unat slot of FullSlot v \<Rightarrow> Some v | VacantSlot _ \<Rightarrow> None)
      else None)"

definition slab_get :: "u64 \<Rightarrow> 'v slab \<Rightarrow> 'v option option" where
  "slab_get payload slab = Option.bind (slab_find payload slab) (\<lambda>found.
     case found of
       None \<Rightarrow> Some None
     | Some index \<Rightarrow> map_option Some (full_slot (bk_slot (sl_buckets slab ! index)) slab))"

text \<open>\<open>get_mut\<close> with the write of its caller.\<close>

definition slab_get_mut :: "u64 \<Rightarrow> ('v \<Rightarrow> 'v) \<Rightarrow> 'v slab \<Rightarrow> (bool \<times> 'v slab) option" where
  "slab_get_mut payload f slab = Option.bind (slab_find payload slab) (\<lambda>found.
     case found of
       None \<Rightarrow> Some (False, slab)
     | Some index \<Rightarrow>
         (let slot = bk_slot (sl_buckets slab ! index) in
          map_option (\<lambda>v. (True, slab\<lparr>sl_slots := (sl_slots slab)[unat slot := FullSlot (f v)]\<rparr>))
            (full_slot slot slab)))"

definition take_slot :: "'v \<Rightarrow> 'v slab \<Rightarrow> (u32 \<times> 'v slab) option" where
  "take_slot value slab =
     (if sl_free slab = no_slot then
        if length (sl_slots slab) < 2 ^ 32 - 1
        then Some (of_nat (length (sl_slots slab)), slab\<lparr>sl_slots := sl_slots slab @ [FullSlot value]\<rparr>)
        else None
      else
        let slot = sl_free slab in
        if unat slot < length (sl_slots slab) then
          (case sl_slots slab ! unat slot of
             VacantSlot next_free \<Rightarrow>
               Some (slot, slab\<lparr>sl_slots := (sl_slots slab)[unat slot := FullSlot value], sl_free := next_free\<rparr>)
           | FullSlot _ \<Rightarrow> None)
        else None)"

definition slab_insert :: "u64 \<Rightarrow> 'v \<Rightarrow> 'v slab \<Rightarrow> ('v option \<times> 'v slab) option" where
  "slab_insert payload value slab = Option.bind (slab_find payload slab) (\<lambda>found.
     case found of
       Some index \<Rightarrow>
         (let slot = bk_slot (sl_buckets slab ! index) in
          map_option (\<lambda>old. (Some old, slab\<lparr>sl_slots := (sl_slots slab)[unat slot := FullSlot value]\<rparr>))
            (full_slot slot slab))
     | None \<Rightarrow>
         Option.bind (if (sl_len slab + 1) * 8 > length (sl_buckets slab) * 7 then grow slab else Some slab)
           (\<lambda>slab1.
         Option.bind (take_slot value slab1) (\<lambda>(slot, slab2).
         map_option (\<lambda>b. (None, slab2\<lparr>sl_buckets := b, sl_len := sl_len slab2 + 1\<rparr>))
           (place (sl_shift slab2) payload slot (sl_buckets slab2)))))"

definition slab_remove :: "u64 \<Rightarrow> 'v slab \<Rightarrow> ('v option \<times> 'v slab) option" where
  "slab_remove payload slab = Option.bind (slab_find payload slab) (\<lambda>found.
     case found of
       None \<Rightarrow> Some (None, slab)
     | Some hole \<Rightarrow>
         (let slot = bk_slot (sl_buckets slab ! hole) in
          Option.bind (full_slot slot slab) (\<lambda>value.
          map_option (\<lambda>b. (Some value, slab
              \<lparr>sl_buckets := b, sl_len := sl_len slab - 1,
               sl_slots := (sl_slots slab)[unat slot := VacantSlot (sl_free slab)], sl_free := slot\<rparr>))
            (shift_back (sl_shift slab) (sl_buckets slab) hole
              ((hole + 1) AND (length (sl_buckets slab) - 1))))))"

fun insert_all_slab :: "('v \<Rightarrow> u64) \<Rightarrow> 'v list \<Rightarrow> 'v slab \<Rightarrow> 'v slab option" where
  "insert_all_slab pid [] slab = Some slab"
| "insert_all_slab pid (v # vs) slab =
     Option.bind (slab_insert (pid v) v slab) (\<lambda>(_, slab'). insert_all_slab pid vs slab')"

subsection \<open>The store\<close>

text \<open>The trait method \<open>Resident::payload\<close> is the parameter \<open>pid\<close>.\<close>

definition store_new :: "'v packet_store" where
  "store_new = SmallStore []"

fun store_get :: "('v \<Rightarrow> u64) \<Rightarrow> u64 \<Rightarrow> 'v packet_store \<Rightarrow> 'v option option" where
  "store_get pid payload (SmallStore packets) = Some (find (\<lambda>packet. pid packet = payload) packets)"
| "store_get pid payload (LargeStore slab) = slab_get payload slab"

fun update_first :: "('v \<Rightarrow> bool) \<Rightarrow> ('v \<Rightarrow> 'v) \<Rightarrow> 'v list \<Rightarrow> bool \<times> 'v list" where
  "update_first P f [] = (False, [])"
| "update_first P f (x # xs) =
     (if P x then (True, f x # xs) else map_prod id (Cons x) (update_first P f xs))"

fun store_get_mut :: "('v \<Rightarrow> u64) \<Rightarrow> u64 \<Rightarrow> ('v \<Rightarrow> 'v) \<Rightarrow> 'v packet_store \<Rightarrow> (bool \<times> 'v packet_store) option" where
  "store_get_mut pid payload f (SmallStore packets) =
     Some (map_prod id SmallStore (update_first (\<lambda>packet. pid packet = payload) f packets))"
| "store_get_mut pid payload f (LargeStore slab) =
     map_option (map_prod id LargeStore) (slab_get_mut payload f slab)"

definition store_contains_key :: "('v \<Rightarrow> u64) \<Rightarrow> u64 \<Rightarrow> 'v packet_store \<Rightarrow> bool option" where
  "store_contains_key pid payload store = map_option (\<lambda>r. r \<noteq> None) (store_get pid payload store)"

fun store_insert :: "('v \<Rightarrow> u64) \<Rightarrow> 'v \<Rightarrow> 'v packet_store \<Rightarrow> ('v option \<times> 'v packet_store) option" where
  "store_insert pid packet (SmallStore packets) =
     (let same = (\<lambda>old. pid old = pid packet) in
      case find same packets of
        Some old \<Rightarrow> Some (Some old, SmallStore (snd (update_first same (\<lambda>_. packet) packets)))
      | None \<Rightarrow>
          if length packets < small_limit then Some (None, SmallStore (packets @ [packet]))
          else
            Option.bind (insert_all_slab pid packets (with_buckets first_buckets)) (\<lambda>slab.
            map_option (\<lambda>(_, slab'). (None, LargeStore slab')) (slab_insert (pid packet) packet slab)))"
| "store_insert pid packet (LargeStore slab) =
     map_option (map_prod id LargeStore) (slab_insert (pid packet) packet slab)"

definition swap_remove :: "nat \<Rightarrow> 'v list \<Rightarrow> 'v list" where
  "swap_remove i xs = butlast (xs[i := last xs])"

fun store_remove :: "('v \<Rightarrow> u64) \<Rightarrow> u64 \<Rightarrow> 'v packet_store \<Rightarrow> ('v option \<times> 'v packet_store) option" where
  "store_remove pid payload (SmallStore packets) =
     (case position_of (\<lambda>packet. pid packet = payload) packets of
        None \<Rightarrow> Some (None, SmallStore packets)
      | Some position \<Rightarrow> Some (Some (packets ! position), SmallStore (swap_remove position packets)))"
| "store_remove pid payload (LargeStore slab) =
     map_option (\<lambda>(removed, slab'). (removed, if sl_len slab' = 0 then SmallStore [] else LargeStore slab'))
       (slab_remove payload slab)"

fun slot_value :: "'v slab_slot \<Rightarrow> 'v option" where
  "slot_value (FullSlot v) = Some v"
| "slot_value (VacantSlot _) = None"

fun store_into_sorted :: "('v \<Rightarrow> u64) \<Rightarrow> 'v packet_store \<Rightarrow> 'v list" where
  "store_into_sorted pid (SmallStore packets) = sort_key pid packets"
| "store_into_sorted pid (LargeStore slab) = sort_key pid (List.map_filter slot_value (sl_slots slab))"

subsection \<open>The slots\<close>

fun free_chain :: "'v slab_slot list \<Rightarrow> u32 \<Rightarrow> nat list \<Rightarrow> bool" where
  "free_chain slots free [] \<longleftrightarrow> free = no_slot"
| "free_chain slots free (k # ks) \<longleftrightarrow> free = of_nat k \<and> k < length slots
     \<and> (\<exists>next_free. slots ! k = VacantSlot next_free \<and> free_chain slots next_free ks)"

definition value_at :: "'v slab_slot list \<Rightarrow> u32 \<Rightarrow> 'v option" where
  "value_at slots s = (if unat s < length slots then slot_value (slots ! unat s) else None)"

text \<open>
  The slots hold the values of the entries \<open>E\<close> of the index, which stand for the map \<open>m\<close>; the free
  list has the other slots.
\<close>

definition slots_rel :: "'v slab_slot list \<Rightarrow> u32 \<Rightarrow> (u64 \<times> u32) set \<Rightarrow> (u64 \<rightharpoonup> 'v) \<Rightarrow> bool" where
  "slots_rel slots free E m \<longleftrightarrow> length slots < 2 ^ 32
     \<and> (\<forall>p s. (p, s) \<in> E \<longrightarrow> value_at slots s \<noteq> None \<and> m p = value_at slots s)
     \<and> (\<forall>p. m p \<noteq> None \<longrightarrow> (\<exists>s. (p, s) \<in> E))
     \<and> (\<forall>p q s. (p, s) \<in> E \<longrightarrow> (q, s) \<in> E \<longrightarrow> p = q)
     \<and> (\<forall>k<length slots. slot_value (slots ! k) \<noteq> None \<longrightarrow> (\<exists>p. (p, of_nat k) \<in> E))
     \<and> (\<exists>ks. free_chain slots free ks \<and> distinct ks \<and> (\<forall>k<length slots. slot_value (slots ! k) = None \<longrightarrow> k \<in> set ks))"

lemma slots_relD:
  assumes "slots_rel slots free E m"
  shows "length slots < 2 ^ 32"
    and "\<And>p s. (p, s) \<in> E \<Longrightarrow> value_at slots s \<noteq> None" "\<And>p s. (p, s) \<in> E \<Longrightarrow> m p = value_at slots s"
    and "\<And>p v. m p = Some v \<Longrightarrow> \<exists>s. (p, s) \<in> E"
    and "\<And>p q s. (p, s) \<in> E \<Longrightarrow> (q, s) \<in> E \<Longrightarrow> p = q"
    and "\<And>k. k < length slots \<Longrightarrow> slot_value (slots ! k) \<noteq> None \<Longrightarrow> \<exists>p. (p, of_nat k) \<in> E"
  using assms unfolding slots_rel_def by blast+

lemma slots_relI:
  assumes "length slots < 2 ^ 32"
    and "\<And>p s. (p, s) \<in> E \<Longrightarrow> value_at slots s \<noteq> None \<and> m p = value_at slots s"
    and "\<And>p. m p \<noteq> None \<Longrightarrow> \<exists>s. (p, s) \<in> E"
    and "\<And>p q s. (p, s) \<in> E \<Longrightarrow> (q, s) \<in> E \<Longrightarrow> p = q"
    and "\<And>k. k < length slots \<Longrightarrow> slot_value (slots ! k) \<noteq> None \<Longrightarrow> \<exists>p. (p, of_nat k) \<in> E"
    and "free_chain slots free ks" "distinct ks"
    and "\<And>k. k < length slots \<Longrightarrow> slot_value (slots ! k) = None \<Longrightarrow> k \<in> set ks"
  shows "slots_rel slots free E m"
  using assms unfolding slots_rel_def by (intro conjI allI impI exI [of _ ks]) (assumption | blast)+

lemma free_chain_frame:
  assumes "free_chain slots free ks" "\<And>k. k \<in> set ks \<Longrightarrow> slots' ! k = slots ! k" "length slots \<le> length slots'"
  shows "free_chain slots' free ks"
  using assms by (induction ks arbitrary: free) fastforce+

lemma free_chain_vacant: "free_chain slots free ks \<Longrightarrow> k \<in> set ks \<Longrightarrow> k < length slots \<and> slot_value (slots ! k) = None"
  by (induction ks arbitrary: free) auto

lemma slots_rel_chain:
  assumes "slots_rel slots free E m"
  obtains ks where "free_chain slots free ks" "distinct ks"
    "\<And>k. k < length slots \<Longrightarrow> slot_value (slots ! k) = None \<Longrightarrow> k \<in> set ks"
  using assms unfolding slots_rel_def by blast

lemma value_at_update:
  "unat t < length slots \<Longrightarrow> value_at (slots[unat t := c]) s = (if s = t then slot_value c else value_at slots s)"
  by (auto simp: value_at_def word_unat_eq_iff)

lemma value_at_Some: "value_at slots s \<noteq> None \<Longrightarrow> unat s < length slots"
  by (simp add: value_at_def split: if_splits)

lemma of_nat_unat_eq: "k < 2 ^ 32 \<Longrightarrow> (of_nat k :: u32) = s \<longleftrightarrow> unat s = k"
  by (auto simp: word_unat_eq_iff unsigned_of_nat take_bit_eq_mod)

lemma slots_rel_replace:
  assumes r: "slots_rel slots free E m" and e: "(p, s) \<in> E" and f: "\<And>t. (p, t) \<in> E \<Longrightarrow> t = s"
  shows "slots_rel (slots[unat s := FullSlot v]) free E (m(p \<mapsto> v))"
proof -
  note d = slots_relD [OF r]
  obtain ks where ks: "free_chain slots free ks" "distinct ks"
    "\<And>k. k < length slots \<Longrightarrow> slot_value (slots ! k) = None \<Longrightarrow> k \<in> set ks"
    using slots_rel_chain [OF r] by blast
  have l: "unat s < length slots" by (rule value_at_Some [OF d(2) [OF e]])
  have sv: "slot_value (slots ! unat s) \<noteq> None" using d(2) [OF e] l by (simp add: value_at_def)
  then have nk: "unat s \<notin> set ks" using free_chain_vacant [OF ks(1), of "unat s"] by auto
  show ?thesis
  proof (rule slots_relI [where ks = ks])
    show "value_at (slots[unat s := FullSlot v]) t \<noteq> None \<and> (m(p \<mapsto> v)) q = value_at (slots[unat s := FullSlot v]) t"
      if "(q, t) \<in> E" for q t
    proof (cases "t = s")
      case True
      with d(5) [OF e] that have "q = p" by blast
      with True show ?thesis by (simp add: value_at_update [OF l])
    next
      case False
      with f that have "q \<noteq> p" by blast
      with False d(2,3) [OF that] show ?thesis by (simp add: value_at_update [OF l])
    qed
    show "\<exists>t. (q, t) \<in> E" if "(m(p \<mapsto> v)) q \<noteq> None" for q
      using that e d(4) [of q] by (cases "q = p") auto
    show "\<exists>p. (p, of_nat k) \<in> E" if "k < length (slots[unat s := FullSlot v])"
      "slot_value (slots[unat s := FullSlot v] ! k) \<noteq> None" for k
    proof -
      have "k < length slots" "slot_value (slots ! k) \<noteq> None" using that sv by (cases "k = unat s"; simp)+
      then show ?thesis by (rule d(6))
    qed
    show "free_chain (slots[unat s := FullSlot v]) free ks"
    proof (rule free_chain_frame [OF ks(1)])
      show "slots[unat s := FullSlot v] ! k = slots ! k" if "k \<in> set ks" for k
        using that nk by (metis nth_list_update_neq)
    qed simp
    show "k \<in> set ks" if "k < length (slots[unat s := FullSlot v])"
      "slot_value (slots[unat s := FullSlot v] ! k) = None" for k
      using that ks(3) l by (cases "k = unat s") auto
    show "q = q'" if "(q, t) \<in> E" "(q', t) \<in> E" for q q' t by (rule d(5) [OF that])
  qed (use d(1) ks(2) in simp_all)
qed

lemma slots_rel_release:
  assumes r: "slots_rel slots free E m" and e: "(p, s) \<in> E" and f: "\<And>t. (p, t) \<in> E \<Longrightarrow> t = s"
  shows "slots_rel (slots[unat s := VacantSlot free]) s (E - {(p, s)}) (m(p := None))"
proof -
  note d = slots_relD [OF r]
  obtain ks where ks: "free_chain slots free ks" "distinct ks"
    "\<And>k. k < length slots \<Longrightarrow> slot_value (slots ! k) = None \<Longrightarrow> k \<in> set ks"
    using slots_rel_chain [OF r] by blast
  have l: "unat s < length slots" by (rule value_at_Some [OF d(2) [OF e]])
  then have nk: "unat s \<notin> set ks" using d(2) [OF e] free_chain_vacant [OF ks(1)] by (auto simp: value_at_def)
  have ne: "t \<noteq> s" if "(q, t) \<in> E - {(p, s)}" for q t using that d(5) [OF e] by auto
  show ?thesis
  proof (rule slots_relI [where ks = "unat s # ks"])
    show "value_at (slots[unat s := VacantSlot free]) t \<noteq> None
        \<and> (m(p := None)) q = value_at (slots[unat s := VacantSlot free]) t"
      if "(q, t) \<in> E - {(p, s)}" for q t
    proof -
      have "(q, t) \<in> E" "q \<noteq> p" using that ne [OF that] f by blast+
      then show ?thesis using ne [OF that] d(2,3) [of q t] by (simp add: value_at_update [OF l])
    qed
    show "\<exists>t. (q, t) \<in> E - {(p, s)}" if "(m(p := None)) q \<noteq> None" for q
      using that d(4) [of q] by (cases "q = p") auto
    show "\<exists>q. (q, of_nat k) \<in> E - {(p, s)}" if "k < length (slots[unat s := VacantSlot free])"
      "slot_value (slots[unat s := VacantSlot free] ! k) \<noteq> None" for k
    proof -
      have "k \<noteq> unat s" using that by auto
      moreover from this have "of_nat k \<noteq> s" using of_nat_unat_eq [of k s] that(1) d(1) by simp
      ultimately show ?thesis using that d(6) [of k] by auto
    qed
    show "free_chain (slots[unat s := VacantSlot free]) s (unat s # ks)"
    proof -
      have "free_chain (slots[unat s := VacantSlot free]) free ks"
      proof (rule free_chain_frame [OF ks(1)])
        show "slots[unat s := VacantSlot free] ! k = slots ! k" if "k \<in> set ks" for k
          using that nk by (metis nth_list_update_neq)
      qed simp
      then show ?thesis using l by simp
    qed
    show "k \<in> set (unat s # ks)" if "k < length (slots[unat s := VacantSlot free])"
      "slot_value (slots[unat s := VacantSlot free] ! k) = None" for k
      using that ks(3) l by (cases "k = unat s") auto
    show "q = q'" if "(q, t) \<in> E - {(p, s)}" "(q', t) \<in> E - {(p, s)}" for q q' t
      using d(5) [of q t q'] that by blast
  qed (use d(1) ks(2) nk in simp_all)
qed

lemma no_slot_unat: "k < 2 ^ 32 - 1 \<Longrightarrow> (of_nat k :: u32) \<noteq> no_slot"
  using of_nat_unat_eq [of k no_slot] by (simp add: no_slot_def unat_u_max)

lemma value_at_of_nat: "k < 2 ^ 32 \<Longrightarrow> k < length slots \<Longrightarrow> value_at slots (of_nat k) = slot_value (slots ! k)"
  using of_nat_unat_eq [of k "of_nat k"] by (simp add: value_at_def)

lemma slots_rel_add:
  assumes r: "slots_rel slots free E m" and p: "m p = None" and s: "value_at slots s = None"
    and l: "length slots' < 2 ^ 32"
    and at: "\<And>t. value_at slots' t = (if t = s then Some v else value_at slots t)"
    and ks: "free_chain slots' free' ks" "distinct ks"
      "\<And>k. k < length slots' \<Longrightarrow> slot_value (slots' ! k) = None \<Longrightarrow> k \<in> set ks"
  shows "slots_rel slots' free' (insert (p, s) E) (m(p \<mapsto> v))"
proof -
  note d = slots_relD [OF r]
  have pE: "(p, t) \<notin> E" for t using d(2,3) p by metis
  have old: "t \<noteq> s" if "(q, t) \<in> E" for q t using d(2) [OF that] s by metis
  show ?thesis
  proof (rule slots_relI [OF l _ _ _ _ ks])
    show "value_at slots' t \<noteq> None \<and> (m(p \<mapsto> v)) q = value_at slots' t" if "(q, t) \<in> insert (p, s) E" for q t
      using that old d(2,3) pE by (auto simp: at)
    show "\<exists>t. (q, t) \<in> insert (p, s) E" if "(m(p \<mapsto> v)) q \<noteq> None" for q
      using that d(4) [of q] by (cases "q = p") auto
    show "q = q'" if "(q, t) \<in> insert (p, s) E" "(q', t) \<in> insert (p, s) E" for q q' t
      using that old d(5) by (metis insertE prod.inject)
    show "\<exists>q. (q, of_nat k) \<in> insert (p, s) E" if k: "k < length slots'" "slot_value (slots' ! k) \<noteq> None" for k
    proof (cases "of_nat k = s")
      case False
      have k32: "k < 2 ^ 32" using k(1) l by simp
      then have "value_at slots (of_nat k) \<noteq> None"
        using value_at_of_nat [of k slots'] k False by (simp add: at)
      moreover from value_at_Some [OF this] have kl: "k < length slots"
        using of_nat_unat_eq [OF k32, of "of_nat k"] by simp
      ultimately show ?thesis using d(6) [OF kl] value_at_of_nat [OF k32 kl] by auto
    qed auto
  qed
qed

lemma full_slots_bound:
  assumes r: "slots_rel slots free E m" and fin: "finite E"
    and full: "\<And>k. k < length slots \<Longrightarrow> slot_value (slots ! k) \<noteq> None"
  shows "length slots \<le> card E"
proof -
  note d = slots_relD [OF r]
  have "\<exists>q. \<forall>k<length slots. (q k, of_nat k) \<in> E" using d(6) full by metis
  then obtain q where q: "\<And>k. k < length slots \<Longrightarrow> (q k, of_nat k) \<in> E" by blast
  have "inj_on (\<lambda>k. (q k, of_nat k :: u32)) {..<length slots}"
    using d(1) by (auto intro!: inj_onI simp: of_nat_unat_eq unsigned_of_nat take_bit_eq_mod)
  then show ?thesis
    using card_inj_on_le [of "\<lambda>k. (q k, of_nat k :: u32)" "{..<length slots}" E] fin q by auto
qed

lemma slots_rel_take:
  assumes r: "slots_rel (sl_slots slab) (sl_free slab) E m" and fin: "finite E" "card E < 2 ^ 32 - 1"
    and p: "m p = None"
  obtains s slab' where "take_slot v slab = Some (s, slab')" "s \<noteq> empty_slot"
    "slots_rel (sl_slots slab') (sl_free slab') (insert (p, s) E) (m(p \<mapsto> v))"
    "sl_buckets slab' = sl_buckets slab" "sl_shift slab' = sl_shift slab" "sl_len slab' = sl_len slab"
    "length (sl_slots slab) \<le> length (sl_slots slab')"
proof -
  let ?slots = "sl_slots slab" and ?free = "sl_free slab"
  note d = slots_relD [OF r]
  obtain ks where ks: "free_chain ?slots ?free ks" "distinct ks"
    "\<And>k. k < length ?slots \<Longrightarrow> slot_value (?slots ! k) = None \<Longrightarrow> k \<in> set ks"
    using slots_rel_chain [OF r] by blast
  show thesis
  proof (cases ks)
    case Nil
    let ?s = "of_nat (length ?slots) :: u32"
    have full: "slot_value (?slots ! k) \<noteq> None" if "k < length ?slots" for k using ks(3) [OF that] Nil by auto
    then have l: "length ?slots < 2 ^ 32 - 1" using full_slots_bound [OF r fin(1)] fin(2) by fastforce
    have us: "unat ?s = length ?slots" using of_nat_unat_eq [of "length ?slots" ?s] d(1) by simp
    have "slots_rel (?slots @ [FullSlot v]) ?free (insert (p, ?s) E) (m(p \<mapsto> v))"
    proof (rule slots_rel_add [OF r p, where ks = ks])
      show "value_at (?slots @ [FullSlot v]) t = (if t = ?s then Some v else value_at ?slots t)" for t
        using us by (auto simp: value_at_def nth_append word_unat_eq_iff)
      show "k \<in> set ks" if "k < length (?slots @ [FullSlot v])" "slot_value ((?slots @ [FullSlot v]) ! k) = None" for k
        using that full [of k] by (cases "k = length ?slots") (auto simp: nth_append)
    qed (use l us ks(1,2) Nil in \<open>simp_all add: value_at_def\<close>)
    then show thesis
      using that [of ?s "slab\<lparr>sl_slots := ?slots @ [FullSlot v]\<rparr>"] l ks(1) Nil no_slot_unat [OF l]
      by (simp add: take_slot_def empty_slot_def no_slot_def)
  next
    case (Cons k ks')
    with ks(1) obtain nf where k: "?free = of_nat k" "k < length ?slots" "?slots ! k = VacantSlot nf"
      "free_chain ?slots nf ks'" by auto
    have u: "unat ?free = k" using of_nat_unat_eq [of k ?free] k(1,2) d(1) by simp
    have l: "unat ?free < length ?slots" using u k(2) by simp
    have nn: "?free \<noteq> no_slot" using no_slot_unat [of k] k d(1) by simp
    let ?slots' = "?slots[unat ?free := FullSlot v]"
    have "slots_rel ?slots' nf (insert (p, ?free) E) (m(p \<mapsto> v))"
    proof (rule slots_rel_add [OF r p, where ks = ks'])
      show "j \<in> set ks'" if "j < length ?slots'" "slot_value (?slots' ! j) = None" for j
        using that ks(3) [of j] Cons u by (cases "j = k") auto
      show "free_chain ?slots' nf ks'"
      proof (rule free_chain_frame [OF k(4)])
        show "?slots' ! j = ?slots ! j" if "j \<in> set ks'" for j
          using that ks(2) Cons u by (cases "j = k") auto
      qed simp
    qed (use d(1) l u k(3) ks(2) Cons value_at_update [OF l] in \<open>simp_all add: value_at_def\<close>)
    then show thesis
      using that [of ?free "slab\<lparr>sl_slots := ?slots', sl_free := nf\<rparr>"] l nn k(3) u
      by (simp add: take_slot_def empty_slot_def no_slot_def Let_def)
  qed
qed

subsection \<open>The slab as a map\<close>

lemma entries_remove:
  assumes "probe_wf shift b" "hole < length b" "occupied b hole"
  shows "entries (b[hole := empty_bucket]) = entries b - {(bk_payload (b ! hole), bk_slot (b ! hole))}"
proof (rule set_eqI, rule iffI, goal_cases)
  case (1 x)
  obtain p s where x: "x = (p, s)" by (cases x)
  with 1 have "(p, s) \<in> entries (b[hole := empty_bucket])" by simp
  then obtain i where i: "i < length b" "i \<noteq> hole" "occupied b i" "bk_payload (b ! i) = p" "bk_slot (b ! i) = s"
    by (rule entriesE) (auto simp: occupied_update empty_bucket_def nth_list_update split: if_splits)
  then have "bk_payload (b ! hole) \<noteq> p" using probe_wfD(5) [OF assms(1) i(1) assms(2) i(3) assms(3)] by auto
  then show ?case using entriesI [OF i(1,3)] i(4,5) x by auto
next
  case (2 x)
  obtain p s where x: "x = (p, s)" by (cases x)
  with 2 have "(p, s) \<in> entries b" by simp
  then obtain i where i: "i < length b" "occupied b i" "bk_payload (b ! i) = p" "bk_slot (b ! i) = s"
    by (rule entriesE)
  with 2 x have "i \<noteq> hole" by auto
  then show ?case using entriesI [of i "b[hole := empty_bucket]"] i x by (simp add: occupied_update)
qed

definition slab_rel :: "'v slab \<Rightarrow> (u64 \<rightharpoonup> 'v) \<Rightarrow> bool" where
  "slab_rel slab m \<longleftrightarrow> probe_wf (sl_shift slab) (sl_buckets slab)
     \<and> slots_rel (sl_slots slab) (sl_free slab) (entries (sl_buckets slab)) m
     \<and> sl_len slab = card (entries (sl_buckets slab))
     \<and> sl_len slab * 8 \<le> length (sl_buckets slab) * 7 \<and> 64 \<le> length (sl_buckets slab)
     \<and> (length (sl_buckets slab) = 64 \<or> length (sl_buckets slab) * 7 < 16 * (length (sl_slots slab) + 1))"

lemma slab_relD:
  assumes "slab_rel slab m"
  shows "probe_wf (sl_shift slab) (sl_buckets slab)"
    "slots_rel (sl_slots slab) (sl_free slab) (entries (sl_buckets slab)) m"
    "sl_len slab = card (entries (sl_buckets slab))" "sl_len slab * 8 \<le> length (sl_buckets slab) * 7"
    "64 \<le> length (sl_buckets slab)"
    "length (sl_buckets slab) = 64 \<or> length (sl_buckets slab) * 7 < 16 * (length (sl_slots slab) + 1)"
    "card (entries (sl_buckets slab)) < length (sl_buckets slab)"
  using assms by (auto simp: slab_rel_def)

lemma card_dom:
  assumes "probe_wf shift b" "slots_rel slots free (entries b) m"
  shows "finite (dom m)" "card (dom m) = card (entries b)"
proof -
  note d = slots_relD [OF assms(2)]
  have dom: "dom m = fst ` entries b"
  proof (intro equalityI subsetI)
    show "p \<in> fst ` entries b" if "p \<in> dom m" for p
    proof -
      from that obtain v where "m p = Some v" by blast
      then obtain s where "(p, s) \<in> entries b" using d(4) by blast
      then show ?thesis by force
    qed
    show "p \<in> dom m" if "p \<in> fst ` entries b" for p
    proof -
      from that obtain s where "(p, s) \<in> entries b" by force
      then show ?thesis using d(2,3) [of p s] by (simp add: domIff)
    qed
  qed
  have inj: "inj_on fst (entries b)"
    by (rule inj_onI) (use entries_functional [OF assms(1)] in auto)
  show "finite (dom m)" "card (dom m) = card (entries b)"
    using card_entries(1) [OF assms(1)] by (simp_all add: dom card_image [OF inj])
qed

lemma slab_find_cases:
  assumes r: "slab_rel slab m"
  obtains (found) i s v where "slab_find p slab = Some (Some i)" "bk_slot (sl_buckets slab ! i) = s"
      "(p, s) \<in> entries (sl_buckets slab)" "m p = Some v" "full_slot s slab = Some v"
  | (absent) "slab_find p slab = Some None" "m p = None" "\<And>s. (p, s) \<notin> entries (sl_buckets slab)"
proof -
  note d = slab_relD [OF r]
  note e = slots_relD [OF d(2)]
  consider i where "i < length (sl_buckets slab)" "occupied (sl_buckets slab) i" "bk_payload (sl_buckets slab ! i) = p"
      "slab_find p slab = Some (Some i)"
    | "\<forall>s. (p, s) \<notin> entries (sl_buckets slab)" "slab_find p slab = Some None"
    using slab_find_index [OF d(1,7), of p] by (auto simp: slab_find_def)
  then show thesis
  proof cases
    case 1
    let ?s = "bk_slot (sl_buckets slab ! i)"
    have m: "(p, ?s) \<in> entries (sl_buckets slab)" using entriesI [OF 1(1,2)] 1(3) by simp
    then obtain v where "value_at (sl_slots slab) ?s = Some v" using e(2) by blast
    then have "full_slot ?s slab = Some v"
      by (auto simp: full_slot_def value_at_def split: if_splits slab_slot.splits)
    then show thesis using found [OF 1(4) refl m] e(3) [OF m] \<open>value_at (sl_slots slab) ?s = Some v\<close> by simp
  next
    case 2
    then have "m p = None" using e(4) by (cases "m p") auto
    then show thesis using absent 2 by blast
  qed
qed

lemma slab_get_spec: "slab_rel slab m \<Longrightarrow> slab_get p slab = Some (m p)"
  by (erule slab_find_cases [where p = p]) (simp_all add: slab_get_def)

lemma slab_rel_replace:
  assumes r: "slab_rel slab m" and e: "(p, s) \<in> entries (sl_buckets slab)"
  shows "slab_rel (slab\<lparr>sl_slots := (sl_slots slab)[unat s := FullSlot v]\<rparr>) (m(p \<mapsto> v))"
  using slab_relD [OF r] slots_rel_replace [OF slab_relD(2) [OF r] e]
    entries_functional [OF slab_relD(1) [OF r] e]
  by (auto simp: slab_rel_def)

lemma slab_get_mut_spec:
  assumes r: "slab_rel slab m"
  shows "\<exists>slab'. slab_get_mut p f slab = Some (m p \<noteq> None, slab')
    \<and> slab_rel slab' (case m p of None \<Rightarrow> m | Some v \<Rightarrow> m(p \<mapsto> f v))"
  using r
  by (rule slab_find_cases [where p = p])
    (use r in \<open>auto simp: slab_get_mut_def Let_def intro: slab_rel_replace\<close>)

lemma slab_remove_spec:
  assumes r: "slab_rel slab m"
  shows "\<exists>slab'. slab_remove p slab = Some (m p, slab') \<and> slab_rel slab' (m(p := None))"
proof (rule slab_find_cases [OF r, where p = p])
  assume "slab_find p slab = Some None" "m p = None"
  then show ?thesis using r by (auto simp: slab_remove_def fun_upd_idem)
next
  fix hole s v
  let ?b = "sl_buckets slab"
  assume f: "slab_find p slab = Some (Some hole)" "bk_slot (?b ! hole) = s" "(p, s) \<in> entries ?b" "m p = Some v"
    "full_slot s slab = Some v"
  note d = slab_relD [OF r]
  obtain e where e: "e < length ?b" "\<not> occupied ?b e" using empty_bucket_exists [OF d(1,7)] .
  have h: "hole < length ?b" "occupied ?b hole" "bk_payload (?b ! hole) = p"
    using slab_find_index [OF d(1,7), of p] f(1) by (auto simp: slab_find_def)
  have nx: "(hole + 1) AND (length ?b - 1) = next_bucket (length ?b) hole"
    using step_index [of hole "64 - sl_shift slab"] h(1) probe_wfD(3) [OF d(1)] by (simp add: next_bucket_def)
  obtain b' where b': "shift_back (sl_shift slab) ?b hole (next_bucket (length ?b) hole) = Some b'"
    "probe_wf (sl_shift slab) b'" "length b' = length ?b" "entries b' = entries (?b[hole := empty_bucket])"
    using shift_back_spec [OF hole_inv_start [OF d(1) h(1,2)] e] by blast
  have en: "entries (?b[hole := empty_bucket]) = entries ?b - {(p, s)}"
    by (rule entries_remove [OF d(1) h(1,2), unfolded h(3) f(2)])
  have fin: "finite (entries ?b)" by (rule card_entries(1) [OF d(1)])
  let ?slab = "slab\<lparr>sl_buckets := b', sl_len := sl_len slab - 1,
     sl_slots := (sl_slots slab)[unat s := VacantSlot (sl_free slab)], sl_free := s\<rparr>"
  have "slots_rel ((sl_slots slab)[unat s := VacantSlot (sl_free slab)]) s (entries ?b - {(p, s)}) (m(p := None))"
    by (rule slots_rel_release [OF d(2) f(3) entries_functional [OF d(1) f(3), symmetric]])
  then have "slab_rel ?slab (m(p := None))"
    using d b' en fin f(3) by (auto simp: slab_rel_def)
  then show ?thesis using f b'(1) nx by (auto simp: slab_remove_def Let_def)
qed

lemma card_occupied:
  assumes "probe_wf shift b"
  shows "length (filter (\<lambda>c. bk_slot c \<noteq> empty_slot) b) = card (entries b)"
  unfolding card_entries(2) [OF assms] occupied_def by (rule length_filter_conv_card)

lemma entries_le_slots:
  assumes "slots_rel slots free E m"
  shows "card E \<le> length slots"
proof -
  note d = slots_relD [OF assms]
  have "card E \<le> card {..<length slots}"
  proof (rule card_inj_on_le)
    show "inj_on (\<lambda>(p, s). unat s) E"
      by (rule inj_onI) (auto dest: d(5) simp: word_unat_eq_iff [symmetric])
    show "(\<lambda>(p, s). unat s) ` E \<subseteq> {..<length slots}"
      using value_at_Some [OF d(2)] by auto
  qed simp
  then show ?thesis by simp
qed

lemma grow_spec:
  assumes r: "slab_rel slab m" and full: "(sl_len slab + 1) * 8 > length (sl_buckets slab) * 7"
  obtains slab' where "grow slab = Some slab'" "slab_rel slab' m" "(sl_len slab' + 1) * 8 \<le> length (sl_buckets slab') * 7"
    "entries (sl_buckets slab') = entries (sl_buckets slab)" "sl_slots slab' = sl_slots slab"
    "sl_free slab' = sl_free slab"
proof -
  let ?b = "sl_buckets slab" and ?k = "64 - sl_shift slab"
  note d = slab_relD [OF r]
  note w = probe_wfD [OF d(1)]
  have "length ?b < 2 ^ 36" using d(6) slots_relD(1) [OF d(2)] by auto
  then have k: "?k < 36" using w(3) power_strict_increasing_iff [of "2::nat" ?k 36] by simp
  define shift where "shift = 64 - Suc ?k"
  have sh: "0 < shift" "shift < 64" "64 - shift = Suc ?k" using k w(1,2) by (simp_all add: shift_def)
  have n: "length ?b * 2 = 2 ^ (64 - shift)" by (simp add: sh(3) w(3))
  let ?e = "replicate (length ?b * 2) empty_bucket"
  have we: "probe_wf shift ?e" "entries ?e = {}" using empty_index [OF sh(1,2)] by (simp_all add: n)
  have c: "length (filter (\<lambda>c. bk_slot c \<noteq> empty_slot) ?b) = sl_len slab"
    using card_occupied [OF d(1)] d(3) by simp
  obtain b' where b': "place_all shift ?b ?e = Some b'" "probe_wf shift b'" "length b' = length ?b * 2"
    "entries b' = entries ?b"
    using place_all_spec [OF we(1) distinct_payloads [OF d(1)]] we(2) c d(3,5,7) by auto
  let ?s = "slab\<lparr>sl_buckets := b', sl_shift := shift\<rparr>"
  have "trailing_zeros (length ?b * 2) = Suc ?k" using trailing_zeros_power [of "Suc ?k"] by (simp add: w(3) mult.commute)
  then have "grow slab = Some ?s" using b'(1) by (simp add: grow_def Let_def shift_def)
  moreover have "slab_rel ?s m"
    using d(2-5) b'(2-4) full entries_le_slots [OF d(2)] by (simp add: slab_rel_def)
  moreover have "(sl_len ?s + 1) * 8 \<le> length (sl_buckets ?s) * 7"
    using d(4,5) b'(3) by simp
  ultimately show thesis using that [of ?s] b'(4) by simp
qed

lemma slab_insert_spec:
  assumes r: "slab_rel slab m" and room: "m p = None \<longrightarrow> card (dom m) < 2 ^ 32 - 1"
  shows "\<exists>slab'. slab_insert p v slab = Some (m p, slab') \<and> slab_rel slab' (m(p \<mapsto> v))"
proof (rule slab_find_cases [OF r, where p = p])
  fix i s old
  assume "slab_find p slab = Some (Some i)" "bk_slot (sl_buckets slab ! i) = s" "(p, s) \<in> entries (sl_buckets slab)"
    "m p = Some old" "full_slot s slab = Some old"
  then show ?thesis using slab_rel_replace [OF r, of p s v] by (auto simp: slab_insert_def Let_def)
next
  assume a: "slab_find p slab = Some None" "m p = None" "\<And>s. (p, s) \<notin> entries (sl_buckets slab)"
  obtain slab1 where s1: "(if (sl_len slab + 1) * 8 > length (sl_buckets slab) * 7 then grow slab else Some slab) = Some slab1"
    "slab_rel slab1 m" "(sl_len slab1 + 1) * 8 \<le> length (sl_buckets slab1) * 7"
    "entries (sl_buckets slab1) = entries (sl_buckets slab)"
  proof (cases "(sl_len slab + 1) * 8 > length (sl_buckets slab) * 7")
    case True
    from grow_spec [OF r this] show thesis using that True by metis
  next
    case False
    then show thesis using that r by auto
  qed
  note d = slab_relD [OF s1(2)]
  have fin: "finite (entries (sl_buckets slab1))" "card (entries (sl_buckets slab1)) < 2 ^ 32 - 1"
    using card_entries(1) [OF d(1)] card_dom [OF d(1,2)] room a(2) by auto
  obtain s slab2 where t: "take_slot v slab1 = Some (s, slab2)" "s \<noteq> empty_slot"
    "slots_rel (sl_slots slab2) (sl_free slab2) (insert (p, s) (entries (sl_buckets slab1))) (m(p \<mapsto> v))"
    "sl_buckets slab2 = sl_buckets slab1" "sl_shift slab2 = sl_shift slab1" "sl_len slab2 = sl_len slab1"
    "length (sl_slots slab1) \<le> length (sl_slots slab2)"
    using slots_rel_take [OF d(2) fin a(2)] by metis
  have fresh: "(p, s) \<notin> entries (sl_buckets slab1)" for s using a(3) s1(4) by simp
  obtain b' where b': "place (sl_shift slab1) p s (sl_buckets slab1) = Some b'" "probe_wf (sl_shift slab1) b'"
    "length b' = length (sl_buckets slab1)" "entries b' = insert (p, s) (entries (sl_buckets slab1))"
    using place_spec [OF d(1,7) fresh t(2)] .
  have "slab_rel (slab2\<lparr>sl_buckets := b', sl_len := sl_len slab2 + 1\<rparr>) (m(p \<mapsto> v))"
    using d(3,5,6) b'(2-4) t(3-7) s1(3) fin(1) fresh by (auto simp: slab_rel_def)
  then show ?thesis
    using a s1(1) t b'(1) by (auto simp: slab_insert_def simp del: mult_Suc)
qed

lemma with_buckets_rel: "slab_rel (with_buckets first_buckets) Map.empty"
proof -
  have t: "trailing_zeros 64 = 6" using trailing_zeros_power [of 6] by simp
  show ?thesis
    using empty_index(1) [of 58] empty_index(2) [of 58 64]
    by (simp add: slab_rel_def with_buckets_def first_buckets_def t slots_rel_def exI [of _ "[]"])
qed

subsection \<open>Histories of a packet table\<close>

text \<open>
  The operations the executors use, with their answers, on a plain map, on the ordered map that the
  executors' theories have, and on the store.
\<close>

datatype 'v store_op = GetPacket u64 | ModifyPacket u64 "'v \<Rightarrow> 'v" | InsertPacket 'v | RemovePacket u64

datatype 'v store_answer = PacketIs "'v option" | PacketFound bool

fun map_step :: "('v \<Rightarrow> u64) \<Rightarrow> 'v store_op \<Rightarrow> (u64 \<rightharpoonup> 'v) \<Rightarrow> 'v store_answer \<times> (u64 \<rightharpoonup> 'v)" where
  "map_step pid (GetPacket p) m = (PacketIs (m p), m)"
| "map_step pid (ModifyPacket p f) m =
     (PacketFound (m p \<noteq> None), case m p of None \<Rightarrow> m | Some v \<Rightarrow> m(p \<mapsto> f v))"
| "map_step pid (InsertPacket v) m = (PacketIs (m (pid v)), m(pid v \<mapsto> v))"
| "map_step pid (RemovePacket p) m = (PacketIs (m p), m(p := None))"

fun om_step :: "('v \<Rightarrow> u64) \<Rightarrow> 'v store_op \<Rightarrow> (u64, 'v) omap \<Rightarrow> ('v store_answer \<times> (u64, 'v) omap) option" where
  "om_step pid (GetPacket p) m = Some (PacketIs (om_get m p), m)"
| "om_step pid (ModifyPacket p f) m =
     Some (PacketFound (om_get m p \<noteq> None), case om_get m p of None \<Rightarrow> m | Some v \<Rightarrow> om_insert p (f v) m)"
| "om_step pid (InsertPacket v) m = Some (PacketIs (om_get m (pid v)), om_insert (pid v) v m)"
| "om_step pid (RemovePacket p) m = Some (PacketIs (om_get m p), om_remove p m)"

fun store_step ::
  "('v \<Rightarrow> u64) \<Rightarrow> 'v store_op \<Rightarrow> 'v packet_store \<Rightarrow> ('v store_answer \<times> 'v packet_store) option" where
  "store_step pid (GetPacket p) s = map_option (\<lambda>r. (PacketIs r, s)) (store_get pid p s)"
| "store_step pid (ModifyPacket p f) s = map_option (map_prod PacketFound id) (store_get_mut pid p f s)"
| "store_step pid (InsertPacket v) s = map_option (map_prod PacketIs id) (store_insert pid v s)"
| "store_step pid (RemovePacket p) s = map_option (map_prod PacketIs id) (store_remove pid p s)"

fun table_run :: "('op \<Rightarrow> 's \<Rightarrow> ('a \<times> 's) option) \<Rightarrow> 'op list \<Rightarrow> 's \<Rightarrow> ('a list \<times> 's) option" where
  "table_run step [] s = Some ([], s)"
| "table_run step (op # ops) s = Option.bind (step op s) (\<lambda>(a, s').
     map_option (map_prod (Cons a) id) (table_run step ops s'))"

text \<open>
  A write keeps the packet's identity, and a new packet finds fewer than \<open>2 ^ 32 - 1\<close> resident.
\<close>

fun op_ok :: "('v \<Rightarrow> u64) \<Rightarrow> 'v store_op \<Rightarrow> (u64 \<rightharpoonup> 'v) \<Rightarrow> bool" where
  "op_ok pid (ModifyPacket p f) m \<longleftrightarrow> (\<forall>v. m p = Some v \<longrightarrow> pid (f v) = pid v)"
| "op_ok pid (InsertPacket v) m \<longleftrightarrow> (m (pid v) = None \<longrightarrow> card (dom m) < 2 ^ 32 - 1)"
| "op_ok pid _ m \<longleftrightarrow> True"

fun ops_ok :: "('v \<Rightarrow> u64) \<Rightarrow> 'v store_op list \<Rightarrow> (u64 \<rightharpoonup> 'v) \<Rightarrow> bool" where
  "ops_ok pid [] m \<longleftrightarrow> True"
| "ops_ok pid (op # ops) m \<longleftrightarrow> op_ok pid op m \<and> ops_ok pid ops (snd (map_step pid op m))"

definition run_map :: "('v \<Rightarrow> u64) \<Rightarrow> 'v store_op list \<Rightarrow> (u64 \<rightharpoonup> 'v) \<Rightarrow> (u64 \<rightharpoonup> 'v)" where
  "run_map pid ops m = fold (\<lambda>op m. snd (map_step pid op m)) ops m"

fun map_answers :: "('v \<Rightarrow> u64) \<Rightarrow> 'v store_op list \<Rightarrow> (u64 \<rightharpoonup> 'v) \<Rightarrow> 'v store_answer list" where
  "map_answers pid [] m = []"
| "map_answers pid (op # ops) m = fst (map_step pid op m) # map_answers pid ops (snd (map_step pid op m))"

locale packet_table =
  fixes pid :: "'v \<Rightarrow> u64"
    and step :: "'v store_op \<Rightarrow> 's \<Rightarrow> ('v store_answer \<times> 's) option"
    and rel :: "'s \<Rightarrow> (u64 \<rightharpoonup> 'v) \<Rightarrow> bool"
    and new_table :: 's
  assumes rel_new: "rel new_table Map.empty"
    and rel_step: "rel s m \<Longrightarrow> op_ok pid op m \<Longrightarrow>
      \<exists>s'. step op s = Some (fst (map_step pid op m), s') \<and> rel s' (snd (map_step pid op m))"
begin

lemma run_from:
  assumes "rel s m" "ops_ok pid ops m"
  shows "\<exists>s'. table_run step ops s = Some (map_answers pid ops m, s') \<and> rel s' (run_map pid ops m)"
  using assms
proof (induction ops arbitrary: s m)
  case (Cons op ops)
  from Cons.prems obtain s1 where s1: "step op s = Some (fst (map_step pid op m), s1)"
    "rel s1 (snd (map_step pid op m))"
    using rel_step by fastforce
  with Cons show ?case by (fastforce simp: run_map_def)
qed (simp add: run_map_def)

lemmas history = run_from [OF rel_new]

end

definition om_rel :: "('v \<Rightarrow> u64) \<Rightarrow> (u64, 'v) omap \<Rightarrow> (u64 \<rightharpoonup> 'v) \<Rightarrow> bool" where
  "om_rel pid om m \<longleftrightarrow> om_wf om \<and> om_get om = m \<and> (\<forall>p v. m p = Some v \<longrightarrow> pid v = p)"

interpretation omt: packet_table pid "om_step pid" "om_rel pid" "[]" for pid
proof (unfold_locales)
  show "om_rel pid [] Map.empty" for pid :: "'v \<Rightarrow> u64"
    by (auto simp: om_rel_def om_get_def)
  show "\<exists>s'. om_step pid op s = Some (fst (map_step pid op m), s') \<and> om_rel pid s' (snd (map_step pid op m))"
    if "om_rel pid s m" "op_ok pid op m" for pid :: "'v \<Rightarrow> u64" and s m op
    using that
    by (cases op) (auto simp: om_rel_def om_wf_insert om_wf_remove om_get_insert om_get_remove
        fun_eq_iff split: option.splits)
qed

subsection \<open>The store as a map\<close>

fun store_rel :: "('v \<Rightarrow> u64) \<Rightarrow> 'v packet_store \<Rightarrow> (u64 \<rightharpoonup> 'v) \<Rightarrow> bool" where
  "store_rel pid (SmallStore packets) m \<longleftrightarrow> distinct (map pid packets) \<and> length packets \<le> small_limit
     \<and> m = (\<lambda>p. find (\<lambda>packet. pid packet = p) packets)"
| "store_rel pid (LargeStore slab) m \<longleftrightarrow> slab_rel slab m \<and> (\<forall>p v. m p = Some v \<longrightarrow> pid v = p)"

lemma find_distinct:
  "distinct (map pid packets) \<Longrightarrow>
     find (\<lambda>packet. pid packet = p) packets = Some v \<longleftrightarrow> v \<in> set packets \<and> pid v = p"
  by (induction packets) (auto simp: image_iff)

lemma find_maps_eqI:
  assumes "distinct (map pid xs)" "distinct (map pid ys)" "\<And>v. pid v = p \<Longrightarrow> v \<in> set xs \<longleftrightarrow> v \<in> set ys"
  shows "find (\<lambda>packet. pid packet = p) xs = find (\<lambda>packet. pid packet = p) ys"
  using find_distinct [OF assms(1), of p] find_distinct [OF assms(2), of p] assms(3)
  by (cases "find (\<lambda>packet. pid packet = p) xs"; cases "find (\<lambda>packet. pid packet = p) ys") auto

lemma find_dom: "dom (\<lambda>p. find (\<lambda>packet. pid packet = p) packets) = pid ` set packets"
  unfolding dom_def find_None_iff by auto

lemma update_first_map:
  assumes "\<And>v. find P xs = Some v \<Longrightarrow> pid (f v) = pid v"
  shows "map pid (snd (update_first P f xs)) = map pid xs"
  using assms by (induction xs) auto

lemma update_first_find:
  assumes "\<And>v. find (\<lambda>x. pid x = p) xs = Some v \<Longrightarrow> pid (f v) = pid v"
  shows "find (\<lambda>x. pid x = q) (snd (update_first (\<lambda>x. pid x = p) f xs))
    = (if q = p then map_option f (find (\<lambda>x. pid x = p) xs) else find (\<lambda>x. pid x = q) xs)"
  using assms by (induction xs) auto

lemma update_first_found: "fst (update_first P f xs) \<longleftrightarrow> find P xs \<noteq> None"
  by (induction xs) auto

lemma mset_swap_remove:
  assumes "i < length xs"
  shows "mset (swap_remove i xs) = mset xs - {#xs ! i#}"
proof -
  let ?ys = "xs[i := last xs]"
  have ne: "?ys \<noteq> []" using assms by auto
  have "last ?ys = last xs" using assms last_list_update [of xs i "last xs"] by (cases "xs = []") auto
  then have "mset (butlast ?ys) + {#last xs#} = mset ?ys"
    using append_butlast_last_id [OF ne] by (metis mset.simps mset_append add.commute add_mset_add_single)
  then show ?thesis using assms by (simp add: swap_remove_def mset_update)
qed

lemma swap_remove_find:
  assumes d: "distinct (map pid xs)" and i: "i < length xs"
  shows "distinct (map pid (swap_remove i xs))"
    and "find (\<lambda>x. pid x = q) (swap_remove i xs) = (if q = pid (xs ! i) then None else find (\<lambda>x. pid x = q) xs)"
proof -
  note m = mset_swap_remove [OF i]
  have p: "mset (xs ! i # swap_remove i xs) = mset xs" using m i by simp
  then have d1: "distinct (map pid (xs ! i # swap_remove i xs))"
    using d mset_eq_imp_distinct_iff [of "map pid (xs ! i # swap_remove i xs)" "map pid xs"] by (metis mset_map)
  then show d': "distinct (map pid (swap_remove i xs))" by simp
  have s: "set (swap_remove i xs) = set xs - {xs ! i}"
    using mset_eq_setD [OF p] d1 by auto
  have "pid v \<noteq> pid (xs ! i)" if "v \<in> set xs - {xs ! i}" for v
    using that d i by (auto simp: distinct_map inj_on_def)
  then show "find (\<lambda>x. pid x = q) (swap_remove i xs) = (if q = pid (xs ! i) then None else find (\<lambda>x. pid x = q) xs)"
    using s find_maps_eqI [OF d' d, of q] by (auto simp: find_None_iff)
qed

lemma insert_all_slab_spec:
  assumes "slab_rel slab m" "distinct (map pid vs)" "dom m \<inter> pid ` set vs = {}"
    "card (dom m) + length vs < 2 ^ 32 - 1" "\<forall>p v. m p = Some v \<longrightarrow> pid v = p"
  shows "\<exists>slab'. insert_all_slab pid vs slab = Some slab'
    \<and> slab_rel slab' (m ++ (\<lambda>p. find (\<lambda>x. pid x = p) vs))"
  using assms
proof (induction vs arbitrary: slab m)
  case Nil
  then show ?case by (simp add: map_add_def)
next
  case (Cons v vs)
  have fresh: "m (pid v) = None" using Cons.prems(3) by auto
  obtain slab1 where s1: "slab_insert (pid v) v slab = Some (None, slab1)" "slab_rel slab1 (m(pid v \<mapsto> v))"
  proof -
    have "m (pid v) = None \<longrightarrow> card (dom m) < 2 ^ 32 - 1" using Cons.prems(4) by linarith
    from slab_insert_spec [OF Cons.prems(1) this, of v] show thesis using that fresh by metis
  qed
  have fin: "finite (dom m)" using card_dom(1) slab_relD(1,2) [OF Cons.prems(1)] by blast
  have "card (dom (m(pid v \<mapsto> v))) = Suc (card (dom m))" using fresh fin by (simp add: domIff)
  then have c: "card (dom (m(pid v \<mapsto> v))) + length vs < 2 ^ 32 - 1" using Cons.prems(4) by simp
  have i: "dom (m(pid v \<mapsto> v)) \<inter> pid ` set vs = {}" using Cons.prems(2,3) by auto
  have p: "\<forall>p w. (m(pid v \<mapsto> v)) p = Some w \<longrightarrow> pid w = p" using Cons.prems(5) by simp
  have "distinct (map pid vs)" using Cons.prems(2) by simp
  then obtain slab' where s': "insert_all_slab pid vs slab1 = Some slab'"
    "slab_rel slab' (m(pid v \<mapsto> v) ++ (\<lambda>p. find (\<lambda>x. pid x = p) vs))"
    using Cons.IH [OF s1(2) _ i c p] by blast
  have "(m(pid v \<mapsto> v) ++ (\<lambda>p. find (\<lambda>x. pid x = p) vs)) q = (m ++ (\<lambda>p. find (\<lambda>x. pid x = p) (v # vs))) q" for q
  proof (cases "q = pid v")
    case True
    have "pid v \<notin> pid ` set vs" using Cons.prems(2) by simp
    with True have "find (\<lambda>x. pid x = q) vs = None" unfolding find_None_iff by (metis image_eqI)
    then show ?thesis by (simp add: map_add_def True)
  qed (simp add: map_add_def split: option.split)
  then have "m(pid v \<mapsto> v) ++ (\<lambda>p. find (\<lambda>x. pid x = p) vs) = m ++ (\<lambda>p. find (\<lambda>x. pid x = p) (v # vs))" by (rule ext)
  then show ?case using s' s1(1) by simp
qed

lemma find_snoc:
  "find P (xs @ [v]) = (case find P xs of None \<Rightarrow> if P v then Some v else None | Some w \<Rightarrow> Some w)"
  by (induction xs) auto

lemma small_replace:
  assumes d: "distinct (map pid packets)" and l: "length packets \<le> small_limit"
    and f: "\<And>w. find (\<lambda>x. pid x = p) packets = Some w \<Longrightarrow> pid (f w) = pid w"
  shows "store_rel pid (SmallStore (snd (update_first (\<lambda>x. pid x = p) f packets)))
    (\<lambda>q. if q = p then map_option f (find (\<lambda>x. pid x = p) packets) else find (\<lambda>x. pid x = q) packets)"
proof -
  let ?u = "snd (update_first (\<lambda>x. pid x = p) f packets)"
  have u: "map pid ?u = map pid packets" by (rule update_first_map) (rule f)
  then have "length ?u = length packets" by (metis length_map)
  moreover have "find (\<lambda>x. pid x = q) ?u = (if q = p then map_option f (find (\<lambda>x. pid x = p) packets) else find (\<lambda>x. pid x = q) packets)" for q
    by (rule update_first_find) (rule f)
  ultimately show ?thesis using d l u by simp
qed

lemma small_to_large:
  assumes d: "distinct (map pid packets)" and l: "length packets \<le> small_limit"
    and fresh: "find (\<lambda>x. pid x = pid v) packets = None"
  obtains slab slab' where "insert_all_slab pid packets (with_buckets first_buckets) = Some slab"
    "slab_insert (pid v) v slab = Some (None, slab')"
    "slab_rel slab' ((\<lambda>p. find (\<lambda>x. pid x = p) packets)(pid v \<mapsto> v))"
proof -
  let ?m = "\<lambda>p. find (\<lambda>x. pid x = p) packets"
  have lp: "card (dom (Map.empty :: u64 \<rightharpoonup> 'a)) + length packets < 2 ^ 32 - 1"
    using l by (simp add: small_limit_def)
  have m: "Map.empty ++ ?m = ?m" by simp
  obtain slab where s: "insert_all_slab pid packets (with_buckets first_buckets) = Some slab" "slab_rel slab ?m"
    using insert_all_slab_spec [OF with_buckets_rel d _ lp] unfolding m by blast
  have "card (dom ?m) \<le> 16"
    using card_image_le [of "set packets" pid] card_length [of packets] l
    by (simp add: find_dom small_limit_def)
  then have "?m (pid v) = None \<longrightarrow> card (dom ?m) < 2 ^ 32 - 1" by simp
  from slab_insert_spec [OF s(2) this, of v] show thesis using that s(1) fresh by metis
qed

lemma small_insert:
  assumes d: "distinct (map pid packets)" and l: "length packets \<le> small_limit"
  shows "\<exists>s'. store_insert pid v (SmallStore packets) = Some (find (\<lambda>x. pid x = pid v) packets, s')
    \<and> store_rel pid s' ((\<lambda>p. find (\<lambda>x. pid x = p) packets)(pid v \<mapsto> v))"
proof (cases "find (\<lambda>x. pid x = pid v) packets")
  case (Some old)
  have id: "pid v = pid w" if "find (\<lambda>x. pid x = pid v) packets = Some w" for w
    using that find_distinct [OF d, of "pid v" w] by simp
  have "(\<lambda>q. if q = pid v then map_option (\<lambda>_. v) (find (\<lambda>x. pid x = pid v) packets) else find (\<lambda>x. pid x = q) packets)
      = (\<lambda>p. find (\<lambda>x. pid x = p) packets)(pid v \<mapsto> v)"
    by (rule ext) (simp add: Some)
  moreover have "store_rel pid (SmallStore (snd (update_first (\<lambda>x. pid x = pid v) (\<lambda>_. v) packets)))
      (\<lambda>q. if q = pid v then map_option (\<lambda>_. v) (find (\<lambda>x. pid x = pid v) packets) else find (\<lambda>x. pid x = q) packets)"
    by (rule small_replace [OF d l]) (rule id)
  ultimately show ?thesis using Some by (simp add: Let_def del: store_rel.simps)
next
  case None
  have add: "(\<lambda>p. find (\<lambda>x. pid x = p) packets)(pid v \<mapsto> v) = (\<lambda>p. find (\<lambda>x. pid x = p) (packets @ [v]))"
    by (rule ext) (simp add: find_snoc None split: option.split)
  show ?thesis
  proof (cases "length packets < small_limit")
    case True
    have "pid v \<notin> pid ` set packets" using None unfolding find_None_iff by (metis image_iff)
    then show ?thesis using None d True by (simp add: add)
  next
    case False
    obtain slab slab' where s: "insert_all_slab pid packets (with_buckets first_buckets) = Some slab"
      "slab_insert (pid v) v slab = Some (None, slab')"
      "slab_rel slab' ((\<lambda>p. find (\<lambda>x. pid x = p) packets)(pid v \<mapsto> v))"
      using small_to_large [OF d l None] .
    have "pid w = p" if "((\<lambda>p. find (\<lambda>x. pid x = p) packets)(pid v \<mapsto> v)) p = Some w" for p w
      using that find_distinct [OF d, of p w] by (simp split: if_splits)
    with s(3) have "store_rel pid (LargeStore slab') ((\<lambda>p. find (\<lambda>x. pid x = p) packets)(pid v \<mapsto> v))"
      unfolding store_rel.simps by blast
    then show ?thesis using None False s(1,2) by (simp del: store_rel.simps)
  qed
qed

lemma store_remove_small:
  assumes d: "distinct (map pid packets)" and l: "length packets \<le> small_limit"
  shows "\<exists>s'. store_remove pid p (SmallStore packets) = Some (find (\<lambda>x. pid x = p) packets, s')
    \<and> store_rel pid s' ((\<lambda>p. find (\<lambda>x. pid x = p) packets)(p := None))"
proof (cases "position_of (\<lambda>x. pid x = p) packets")
  case None
  then have "find (\<lambda>x. pid x = p) packets = None" by (simp add: position_of_None find_None_iff)
  then show ?thesis using None d l by (auto simp: fun_eq_iff)
next
  case (Some i)
  note i = position_of_Some [OF Some]
  have f: "find (\<lambda>x. pid x = p) packets = Some (packets ! i)"
    using i find_distinct [OF d] by simp
  have "length (swap_remove i packets) \<le> small_limit" using l by (simp add: swap_remove_def)
  then show ?thesis
    using Some i f swap_remove_find [OF d, of i] by (auto simp: fun_eq_iff)
qed

interpretation ps: packet_table pid "store_step pid" "store_rel pid" store_new for pid
proof (unfold_locales)
  show "store_rel pid store_new Map.empty" for pid :: "'v \<Rightarrow> u64"
    by (simp add: store_new_def fun_eq_iff)
  show "\<exists>s'. store_step pid op s = Some (fst (map_step pid op m), s') \<and> store_rel pid s' (snd (map_step pid op m))"
    if r: "store_rel pid s m" "op_ok pid op m" for pid :: "'v \<Rightarrow> u64" and s m op
  proof (cases s)
    case (SmallStore packets)
    with r have d: "distinct (map pid packets)" "length packets \<le> small_limit"
      and m: "m = (\<lambda>p. find (\<lambda>x. pid x = p) packets)" by simp_all
    show ?thesis
    proof (cases op)
      case (GetPacket p)
      then show ?thesis using SmallStore r m by simp
    next
      case (ModifyPacket p f)
      let ?u = "snd (update_first (\<lambda>x. pid x = p) f packets)"
      have id: "pid (f v) = pid v" if "find (\<lambda>x. pid x = p) packets = Some v" for v
        using that r(2) ModifyPacket m by simp
      have u: "map pid ?u = map pid packets" by (rule update_first_map) (rule id)
      then have "length ?u = length packets" by (metis length_map)
      moreover have "(\<lambda>q. find (\<lambda>x. pid x = q) ?u) = (case m p of None \<Rightarrow> m | Some v \<Rightarrow> m(p \<mapsto> f v))"
        using update_first_find [of pid p packets f] id by (auto simp: m fun_eq_iff split: option.split)
      ultimately show ?thesis
        using SmallStore ModifyPacket d u m by (auto simp: map_prod_def split_beta update_first_found)
    next
      case (InsertPacket v)
      then show ?thesis using small_insert [OF d, of v] SmallStore m by auto
    next
      case (RemovePacket p)
      then show ?thesis using store_remove_small [OF d, of p] SmallStore m by auto
    qed
  next
    case (LargeStore slab)
    with r have l: "slab_rel slab m" and id: "\<And>p v. m p = Some v \<Longrightarrow> pid v = p" by simp_all
    show ?thesis
    proof (cases op)
      case (GetPacket p)
      then show ?thesis using LargeStore r slab_get_spec [OF l] by simp
    next
      case (ModifyPacket p f)
      then show ?thesis using LargeStore slab_get_mut_spec [OF l, of p f] id r(2) by (auto split: option.splits)
    next
      case (InsertPacket v)
      then show ?thesis using LargeStore slab_insert_spec [OF l, of "pid v" v] id r(2) by auto
    next
      case (RemovePacket p)
      obtain slab' where s': "slab_remove p slab = Some (m p, slab')" "slab_rel slab' (m(p := None))"
        using slab_remove_spec [OF l] by blast
      have "m(p := None) = Map.empty" if "sl_len slab' = 0"
        using card_dom [OF slab_relD(1,2) [OF s'(2)]] slab_relD(3) [OF s'(2)] that
        by (metis card_0_eq dom_eq_empty_conv)
      then show ?thesis using LargeStore RemovePacket s' id by (auto simp: fun_eq_iff)
    qed
  qed
qed


subsection \<open>The way out\<close>

lemma set_map_filter: "v \<in> set (List.map_filter f xs) \<longleftrightarrow> (\<exists>k<length xs. f (xs ! k) = Some v)"
  by (force simp: List.map_filter_def in_set_conv_nth)

lemma distinct_map_filter:
  assumes "\<And>i j v w. i < j \<Longrightarrow> j < length xs \<Longrightarrow> f (xs ! i) = Some v \<Longrightarrow> f (xs ! j) = Some w \<Longrightarrow> g v \<noteq> g w"
  shows "distinct (map g (List.map_filter f xs))"
  using assms
proof (induction xs)
  case (Cons x xs)
  have "distinct (map g (List.map_filter f xs))"
    using Cons.prems [of "Suc _" "Suc _"] by (intro Cons.IH) fastforce
  moreover have "g v \<notin> g ` set (List.map_filter f xs)" if "f x = Some v" for v
  proof
    assume "g v \<in> g ` set (List.map_filter f xs)"
    then obtain j w where "j < length xs" "f (xs ! j) = Some w" "g v = g w"
      by (auto simp: set_map_filter)
    then show False using Cons.prems [of 0 "Suc j" v w] that by simp
  qed
  ultimately show ?case by (simp add: map_filter_simps split: option.split)
qed (simp add: map_filter_simps)

lemma sorted_contents:
  assumes om: "om_rel pid om m" and d: "distinct (map pid xs)" and s: "set xs = ran m"
  shows "sort_key pid xs = om_values om"
proof (rule map_sorted_distinct_set_unique)
  have keys: "map pid (om_values om) = map fst om"
    using om om_get_in_set [of om] by (auto simp: om_rel_def om_values_def)
  then show "sorted (map pid (om_values om))" "distinct (map pid (om_values om))"
    using om om_wf_distinct [of om] by (simp_all add: om_rel_def om_wf_def strict_sorted_imp_sorted)
  show "set (sort_key pid xs) = set (om_values om)"
    using om om_get_in_set [of om] by (force simp: s om_rel_def om_values_def ran_def)
  then show "inj_on pid (set (sort_key pid xs) \<union> set (om_values om))"
    using d by (simp add: distinct_map)
  show "distinct (map pid (sort_key pid xs))"
    using d by (simp add: distinct_map)
qed simp

lemma slab_values:
  assumes r: "slab_rel slab m" and id: "\<And>p v. m p = Some v \<Longrightarrow> pid v = p"
  shows "distinct (map pid (List.map_filter slot_value (sl_slots slab)))"
    and "set (List.map_filter slot_value (sl_slots slab)) = ran m"
proof -
  let ?E = "entries (sl_buckets slab)"
  note d = slab_relD [OF r] and e = slots_relD [OF slab_relD(2) [OF r]]
  have at: "\<exists>p. (p, of_nat k) \<in> ?E \<and> m p = Some v \<and> pid v = p"
    if k: "k < length (sl_slots slab)" "slot_value (sl_slots slab ! k) = Some v" for k v
  proof -
    obtain p where p: "(p, of_nat k) \<in> ?E" using e(6) [OF k(1)] k(2) by blast
    have "unat (of_nat k :: u32) = k" using of_nat_unat_eq [of k "of_nat k"] k(1) e(1) by simp
    then have "m p = Some v" using e(3) [OF p] k by (simp add: value_at_def)
    with p id show ?thesis by blast
  qed
  show "distinct (map pid (List.map_filter slot_value (sl_slots slab)))"
  proof (rule distinct_map_filter)
    fix i j v w
    assume a: "i < j" "j < length (sl_slots slab)" "slot_value (sl_slots slab ! i) = Some v"
      "slot_value (sl_slots slab ! j) = Some w"
    have i: "(pid v, of_nat i) \<in> ?E" using at [of i v] a by auto
    have j: "(pid w, of_nat j) \<in> ?E" using at [of j w] a by auto
    show "pid v \<noteq> pid w"
    proof
      assume "pid v = pid w"
      then have "(of_nat i :: u32) = of_nat j" using entries_functional [OF d(1) i] j by simp
      then show False using of_nat_unat_eq [of i "of_nat i"] of_nat_unat_eq [of j "of_nat i"] a e(1) by simp
    qed
  qed
  have "v \<in> ran m" if "k < length (sl_slots slab)" "slot_value (sl_slots slab ! k) = Some v" for k v
    using at [OF that] by (auto simp: ran_def)
  moreover have "\<exists>k<length (sl_slots slab). slot_value (sl_slots slab ! k) = Some v" if mp: "m p = Some v" for p v
  proof -
    obtain s where s: "(p, s) \<in> ?E" using e(4) [OF mp] by blast
    have l: "unat s < length (sl_slots slab)" by (rule value_at_Some [OF e(2) [OF s]])
    then have "slot_value (sl_slots slab ! unat s) = Some v" using e(3) [OF s] mp by (simp add: value_at_def)
    with l show ?thesis by blast
  qed
  ultimately show "set (List.map_filter slot_value (sl_slots slab)) = ran m"
    unfolding set_eq_iff set_map_filter by (auto simp: ran_def)
qed

lemma into_sorted_is_values:
  assumes "store_rel pid s m" "om_rel pid om m"
  shows "store_into_sorted pid s = om_values om"
proof (cases s)
  case (SmallStore packets)
  then have d: "distinct (map pid packets)" and m: "m = (\<lambda>p. find (\<lambda>x. pid x = p) packets)"
    using assms by simp_all
  have "set packets = ran m" using find_distinct [OF d] by (auto simp: m ran_def)
  then show ?thesis using sorted_contents [OF assms(2) d] SmallStore by simp
next
  case (LargeStore slab)
  then have r: "slab_rel slab m" and id: "\<And>p v. m p = Some v \<Longrightarrow> pid v = p" using assms(1) by simp_all
  have "distinct (map pid (List.map_filter slot_value (sl_slots slab)))"
    and "set (List.map_filter slot_value (sl_slots slab)) = ran m"
    using slab_values [OF r, of pid] id by blast+
  then show ?thesis using sorted_contents [OF assms(2)] LargeStore by simp
qed

text \<open>
  C12. Every history of lookups, writes, insertions and removals on the packet store answers as the
  same history on the ordered map it replaces, never panics and ends every probe, and consuming the
  store at the end gives the map's values in ascending payload order.  A write keeps its packet's
  identity, and fewer than \<open>2 ^ 32 - 1\<close> packets are resident at an insertion.
\<close>

theorem packet_store_is_ordered_map:
  assumes "ops_ok pid ops Map.empty"
  shows "\<exists>answers store om. table_run (store_step pid) ops store_new = Some (answers, store)
    \<and> table_run (om_step pid) ops [] = Some (answers, om)
    \<and> store_into_sorted pid store = om_values om"
  using ps.history [OF assms] omt.history [OF assms] into_sorted_is_values by blast

text \<open>
  The history of the witness goes past the small limit, removes a packet of the slab and reads one
  that stays.
\<close>

definition churn :: "(u64 \<times> nat) store_op list" where
  "churn = map (\<lambda>k. InsertPacket (of_nat k, k)) [0..<18] @ [RemovePacket 3, GetPacket 4]"

theorem packet_store_is_ordered_map_witness:
  "ops_ok fst churn Map.empty
   \<and> (\<exists>answers store om. table_run (store_step fst) churn store_new = Some (answers, store)
        \<and> table_run (om_step fst) churn [] = Some (answers, om)
        \<and> store_into_sorted fst store = om_values om)"
proof -
  have "ops_ok fst churn Map.empty"
    by (simp add: churn_def upt_rec)
  with packet_store_is_ordered_map [of fst churn] show ?thesis by blast
qed

end
