(* ===== verification/Radix_Order.thy ===== *)
theory Radix_Order
  imports Events
begin

section \<open>The order of exchanged events\<close>

text \<open>
  The stable radix sorts of \<open>executor/src/safe_horizon.rs\<close> and \<open>executor/src/cpu.rs\<close>, which put the
  remote events of a round in the order of target and event key.  The two sources have the same code,
  once for events and once for envelopes; it is one definition here, with the event of an item as a
  parameter.  A pass counts the bytes, turns the counts into offsets and scatters the items; a store
  out of range would be a panic, the value \<open>None\<close>.
\<close>

unbundle bit_operations_syntax

subsection \<open>One pass\<close>

definition count_bytes :: "('a \<Rightarrow> u8) \<Rightarrow> 'a list \<Rightarrow> nat list" where
  "count_bytes byte items =
     fold (\<lambda>item counts. counts[unat (byte item) := counts ! unat (byte item) + 1]) items (replicate 256 0)"

fun running_offsets :: "nat \<Rightarrow> nat list \<Rightarrow> nat list" where
  "running_offsets offset [] = []"
| "running_offsets offset (c # counts) = offset # running_offsets (offset + c) counts"

fun scatter :: "('a \<Rightarrow> u8) \<Rightarrow> 'a list \<Rightarrow> nat list \<Rightarrow> 'a list \<Rightarrow> 'a list option" where
  "scatter byte [] counts scratch = Some scratch"
| "scatter byte (item # items) counts scratch =
     (let index = unat (byte item) in
      if counts ! index < length scratch
      then scatter byte items (counts[index := counts ! index + 1]) (scratch[counts ! index := item])
      else None)"

text \<open>The pair is the vector and its scratch copy, which a pass swaps.\<close>

definition radix_pass :: "('a \<Rightarrow> u8) \<Rightarrow> 'a list \<times> 'a list \<Rightarrow> ('a list \<times> 'a list) option" where
  "radix_pass byte = (\<lambda>(items, scratch).
     map_option (\<lambda>sorted_items. (sorted_items, items))
       (scatter byte items (running_offsets 0 (count_bytes byte items)) scratch))"

fun radix_passes :: "('a \<Rightarrow> u8) list \<Rightarrow> 'a list \<times> 'a list \<Rightarrow> ('a list \<times> 'a list) option" where
  "radix_passes [] state = Some state"
| "radix_passes (byte # bytes) state = Option.bind (radix_pass byte state) (radix_passes bytes)"

subsection \<open>The order of remote events\<close>

definition remote_order_bytes :: nat where "remote_order_bytes = 34"

definition byte_of :: "u64 \<Rightarrow> nat \<Rightarrow> u8" where
  "byte_of value byte = ucast (drop_bit (byte * 8) value AND 0xff)"

definition remote_order_byte :: "nat \<Rightarrow> event \<Rightarrow> u8" where
  "remote_order_byte pass event =
     (if pass \<le> 7 then byte_of (key_origin_seq (ev_key event)) pass
      else if pass \<le> 15 then byte_of (key_origin_node (ev_key event)) (pass - 8)
      else if pass \<le> 17 then byte_of (ucast (key_phase (ev_key event))) (pass - 16)
      else if pass \<le> 25 then byte_of (key_time_ns (ev_key event)) (pass - 18)
      else if pass \<le> 33 then byte_of (ev_target event) (pass - 26)
      else byte_of 0 0)"

definition varying_byte_mask :: "u64 \<Rightarrow> nat \<Rightarrow> u64" where
  "varying_byte_mask value first_pass =
     fold (\<lambda>byte mask. if value AND push_bit (byte * 8) 0xff \<noteq> 0
                       then mask OR push_bit (first_pass + byte) 1 else mask) [0..<8] 0"

definition varying :: "('a \<Rightarrow> 'w::len word) \<Rightarrow> 'a \<Rightarrow> 'a list \<Rightarrow> 'w word" where
  "varying field first_item items = fold (\<lambda>item acc. acc OR (field first_item XOR field item)) items 0"

definition remote_varying_bytes :: "event \<Rightarrow> event list \<Rightarrow> u64" where
  "remote_varying_bytes first_event events =
     varying_byte_mask (varying (\<lambda>e. key_origin_seq (ev_key e)) first_event events) 0
     OR varying_byte_mask (varying (\<lambda>e. key_origin_node (ev_key e)) first_event events) 8
     OR varying_byte_mask (ucast (varying (\<lambda>e. key_phase (ev_key e)) first_event events)) 16
     OR varying_byte_mask (varying (\<lambda>e. key_time_ns (ev_key e)) first_event events) 18
     OR varying_byte_mask (varying ev_target first_event events) 26"

definition radix_sort_remote :: "('a \<Rightarrow> event) \<Rightarrow> 'a list \<Rightarrow> 'a list option" where
  "radix_sort_remote ev items =
     (case items of
        first_item # second_item # rest \<Rightarrow>
          (let varying_bytes = remote_varying_bytes (ev first_item) (map ev (second_item # rest));
               passes = filter (\<lambda>pass. varying_bytes AND push_bit pass 1 \<noteq> 0) [0..<remote_order_bytes]
           in map_option fst
                (radix_passes (map (\<lambda>pass item. remote_order_byte pass (ev item)) passes)
                  (items, replicate (length items) first_item)))
      | _ \<Rightarrow> Some items)"

definition radix_sort_remote_events :: "event list \<Rightarrow> event list option" where
  "radix_sort_remote_events = radix_sort_remote id"

definition radix_sort_by_node :: "('a \<Rightarrow> node_id) \<Rightarrow> 'a list \<Rightarrow> 'a list option" where
  "radix_sort_by_node node items =
     (case items of
        first_item # _ # _ \<Rightarrow>
          map_option fst (radix_passes (map (\<lambda>pass item. byte_of (node item) pass) [0..<8])
            (items, replicate (length items) first_item))
      | _ \<Rightarrow> Some items)"


subsection \<open>A pass is a stable sort\<close>

definition byte_group :: "('a \<Rightarrow> u8) \<Rightarrow> nat \<Rightarrow> 'a list \<Rightarrow> 'a list" where
  "byte_group byte v xs = filter (\<lambda>x. unat (byte x) = v) xs"

lemma group_Cons: "byte_group byte v (x # xs) = (if unat (byte x) = v then x # byte_group byte v xs else byte_group byte v xs)"
  by (simp add: byte_group_def)

lemma unat_byte_less: "unat (b :: u8) < 256"
  using unat_lt [of b] by simp

lemma count_fold:
  "length c = 256 \<Longrightarrow> length (fold (\<lambda>x c. c[unat (byte x) := c ! unat (byte x) + 1]) xs c) = 256"
  "length c = 256 \<Longrightarrow> v < 256 \<Longrightarrow>
     fold (\<lambda>x c. c[unat (byte x) := c ! unat (byte x) + 1]) xs c ! v = c ! v + length (byte_group byte v xs)"
  by (induction xs arbitrary: c) (auto simp: byte_group_def nth_list_update unat_byte_less)

lemma count_bytes_nth:
  "length (count_bytes byte xs) = 256"
  "v < 256 \<Longrightarrow> count_bytes byte xs ! v = length (byte_group byte v xs)"
  unfolding count_bytes_def
  using count_fold(1) [of "replicate 256 0" byte xs] count_fold(2) [of "replicate 256 0" v byte xs] by simp_all

lemma running_offsets_nth:
  "length (running_offsets offset cs) = length cs"
  "v < length cs \<Longrightarrow> running_offsets offset cs ! v = offset + sum_list (take v cs)"
  by (induction cs arbitrary: offset v) (auto simp: nth_Cons split: nat.split)

lemma take_count_bytes:
  "v \<le> 256 \<Longrightarrow> take v (count_bytes byte xs) = map (\<lambda>u. length (byte_group byte u xs)) [0..<v]"
  by (rule nth_equalityI) (simp_all add: count_bytes_nth)

definition segment_start :: "('a \<Rightarrow> u8) \<Rightarrow> 'a list \<Rightarrow> nat \<Rightarrow> nat" where
  "segment_start byte xs v = sum_list (map (\<lambda>u. length (byte_group byte u xs)) [0..<v])"

lemma offsets_of_counts:
  "length (running_offsets 0 (count_bytes byte xs)) = 256"
  "v < 256 \<Longrightarrow> running_offsets 0 (count_bytes byte xs) ! v = segment_start byte xs v"
  by (simp_all add: running_offsets_nth count_bytes_nth take_count_bytes segment_start_def)

lemma segment_start_mono: "u \<le> v \<Longrightarrow> segment_start byte xs u \<le> segment_start byte xs v"
  unfolding segment_start_def by (induction v) (auto simp: le_Suc_eq)

lemma segment_start_Suc: "segment_start byte xs (Suc v) = segment_start byte xs v + length (byte_group byte v xs)"
  by (simp add: segment_start_def)

lemma concat_groups_length: "length (concat (map (\<lambda>v. byte_group byte v xs) [0..<n])) = segment_start byte xs n"
  by (simp add: segment_start_def length_concat comp_def)

lemma concat_groups_nth:
  "v < n \<Longrightarrow> j < length (byte_group byte v xs) \<Longrightarrow>
     concat (map (\<lambda>v. byte_group byte v xs) [0..<n]) ! (segment_start byte xs v + j) = byte_group byte v xs ! j"
proof (induction n)
  case (Suc n)
  then show ?case
  proof (cases "v = n")
    case False
    with Suc.prems have v: "v < n" by simp
    then have "segment_start byte xs v + j < segment_start byte xs n"
      using Suc.prems(2) segment_start_mono [of "Suc v" n byte xs] by (simp add: segment_start_Suc)
    then show ?thesis using Suc.IH [OF v Suc.prems(2)] by (simp add: nth_append concat_groups_length)
  qed (simp add: nth_append concat_groups_length)
qed simp

lemma mset_groups:
  "mset (concat (map (\<lambda>v. byte_group byte v xs) [0..<n])) = mset (filter (\<lambda>x. unat (byte x) < n) xs)"
proof (induction n)
  case (Suc n)
  have "mset (filter (\<lambda>x. unat (byte x) < Suc n) xs) =
      mset (filter (\<lambda>x. unat (byte x) < n) xs) + mset (byte_group byte n xs)"
    by (induction xs) (auto simp: byte_group_def less_Suc_eq)
  with Suc show ?case by simp
qed simp

lemma groups_all: "mset (concat (map (\<lambda>v. byte_group byte v xs) [0..<256])) = mset xs"
  unfolding mset_groups by (simp add: unat_byte_less)

lemma group_bytes: "map (\<lambda>x. unat (byte x)) (byte_group byte v xs) = replicate (length (byte_group byte v xs)) v"
  by (induction xs) (simp_all add: byte_group_def)

lemma sorted_groups: "sorted (map (\<lambda>x. unat (byte x)) (concat (map (\<lambda>v. byte_group byte v xs) [0..<n])))"
proof (induction n)
  case (Suc n)
  then show ?case by (simp add: sorted_append group_bytes) (auto simp: byte_group_def)
qed simp

lemma filter_groups:
  "v < n \<Longrightarrow> filter (\<lambda>x. unat (byte x) = v) (concat (map (\<lambda>v. byte_group byte v xs) [0..<n])) = byte_group byte v xs"
proof (induction n)
  case (Suc n)
  have "filter (\<lambda>x. unat (byte x) = v) (concat (map (\<lambda>v. byte_group byte v xs) [0..<n])) = []" if "v \<ge> n"
    using that by (auto simp: filter_empty_conv byte_group_def)
  with Suc show ?case by (cases "v = n") (auto simp: byte_group_def intro: filter_cong simp: filter_empty_conv)
qed simp

lemma groups_sort: "concat (map (\<lambda>v. byte_group byte v xs) [0..<256]) = sort_key byte xs"
proof (rule sym, rule properties_for_sort_key)
  show "mset (concat (map (\<lambda>v. byte_group byte v xs) [0..<256])) = mset xs" by (rule groups_all)
  show "filter (\<lambda>x. byte k = byte x) (concat (map (\<lambda>v. byte_group byte v xs) [0..<256])) = filter (\<lambda>x. byte k = byte x) xs" for k
    using filter_groups [of "unat (byte k)" 256 byte xs] unat_byte_less [of "byte k"]
    by (simp add: byte_group_def unat_word_eq eq_commute)
  show "sorted (map byte (concat (map (\<lambda>v. byte_group byte v xs) [0..<256])))"
    using sorted_groups [of byte xs 256] by (simp add: sorted_iff_nth_mono word_le_nat_alt)
qed


text \<open>
  What is left of the segment of each byte, from its counter on, has room for the items still to
  come, and the segments do not overlap.
\<close>

definition segment :: "('a \<Rightarrow> u8) \<Rightarrow> nat list \<Rightarrow> 'a list \<Rightarrow> nat \<Rightarrow> nat set" where
  "segment byte counts xs v = {counts ! v..<counts ! v + length (byte_group byte v xs)}"

definition segments_ok :: "('a \<Rightarrow> u8) \<Rightarrow> nat list \<Rightarrow> 'a list \<Rightarrow> nat \<Rightarrow> bool" where
  "segments_ok byte counts xs n \<longleftrightarrow> length counts = 256
     \<and> (\<forall>v<256. segment byte counts xs v \<subseteq> {..<n})
     \<and> (\<forall>u<256. \<forall>v<256. u \<noteq> v \<longrightarrow> segment byte counts xs u \<inter> segment byte counts xs v = {})"

lemma segment_Cons:
  assumes "length counts = 256" "v < 256"
  shows "segment byte (counts[unat (byte x) := counts ! unat (byte x) + 1]) xs v =
    segment byte counts (x # xs) v - {counts ! unat (byte x)} \<or>
    v \<noteq> unat (byte x) \<and> segment byte (counts[unat (byte x) := counts ! unat (byte x) + 1]) xs v =
      segment byte counts (x # xs) v"
  using assms by (auto simp: segment_def group_Cons nth_list_update)

lemma segment_Cons_subset:
  assumes "length counts = 256" "v < 256"
  shows "segment byte (counts[unat (byte x) := counts ! unat (byte x) + 1]) xs v \<subseteq> segment byte counts (x # xs) v"
  using segment_Cons [OF assms, of byte x xs] by blast

lemma segments_ok_Cons:
  assumes "segments_ok byte counts (x # xs) n"
  shows "segments_ok byte (counts[unat (byte x) := counts ! unat (byte x) + 1]) xs n"
  unfolding segments_ok_def
  using assms segment_Cons_subset [of counts _ byte x xs] unfolding segments_ok_def
  by (simp del: One_nat_def add_Suc_right) blast

lemma head_in_segment: "counts ! unat (byte x) \<in> segment byte counts (x # xs) (unat (byte x))"
  by (simp add: segment_def group_Cons)

lemma head_not_in_rest:
  assumes "segments_ok byte counts (x # xs) n" "v < 256"
  shows "counts ! unat (byte x) \<notin> segment byte (counts[unat (byte x) := counts ! unat (byte x) + 1]) xs v"
proof (cases "v = unat (byte x)")
  case True
  then show ?thesis using assms by (auto simp: segment_def segments_ok_def)
next
  case False
  then show ?thesis
    using assms head_in_segment [of counts byte x xs] unat_byte_less [of "byte x"]
      segment_Cons_subset [of counts v byte x xs]
    unfolding segments_ok_def by blast
qed

lemma scatter_spec:
  assumes "segments_ok byte counts xs (length scratch)"
  shows "\<exists>out. scatter byte xs counts scratch = Some out \<and> length out = length scratch
    \<and> (\<forall>v<256. \<forall>j<length (byte_group byte v xs). out ! (counts ! v + j) = byte_group byte v xs ! j)
    \<and> (\<forall>i<length scratch. (\<forall>v<256. i \<notin> segment byte counts xs v) \<longrightarrow> out ! i = scratch ! i)"
  using assms
proof (induction xs arbitrary: counts scratch)
  case Nil
  then show ?case by (simp add: byte_group_def)
next
  case (Cons x xs)
  let ?b = "unat (byte x)"
  let ?counts = "counts[?b := counts ! ?b + 1]" and ?scratch = "scratch[counts ! ?b := x]"
  have l: "length counts = 256" using Cons.prems by (simp add: segments_ok_def)
  have in_range: "counts ! ?b < length scratch"
    using Cons.prems head_in_segment [of counts byte x xs] unat_byte_less [of "byte x"]
    unfolding segments_ok_def by blast
  have "segments_ok byte ?counts xs (length ?scratch)" using segments_ok_Cons [OF Cons.prems] by simp
  from Cons.IH [OF this] obtain out where out: "scatter byte xs ?counts ?scratch = Some out" "length out = length scratch"
    "\<And>v j. v < 256 \<Longrightarrow> j < length (byte_group byte v xs) \<Longrightarrow> out ! (?counts ! v + j) = byte_group byte v xs ! j"
    "\<And>i. i < length scratch \<Longrightarrow> (\<And>v. v < 256 \<Longrightarrow> i \<notin> segment byte ?counts xs v) \<Longrightarrow> out ! i = ?scratch ! i"
    by auto
  have "out ! (counts ! ?b) = x"
    using out(4) [OF in_range] head_not_in_rest [OF Cons.prems] in_range by simp
  then have "out ! (counts ! v + j) = byte_group byte v (x # xs) ! j"
    if "v < 256" "j < length (byte_group byte v (x # xs))" for v j
    using that out(3) [of v j] out(3) [of v "j - 1"] l
    by (cases "v = ?b"; cases j) (auto simp: group_Cons nth_list_update)
  moreover have "out ! i = scratch ! i" if "i < length scratch" "\<forall>v<256. i \<notin> segment byte counts (x # xs) v" for i
  proof -
    have "i \<noteq> counts ! ?b" using that(2) head_in_segment [of counts byte x xs] unat_byte_less [of "byte x"] by blast
    then show ?thesis using out(4) [OF that(1)] that(2) segment_Cons_subset [OF l, of _ byte x xs] by auto
  qed
  ultimately show ?case using out(1,2) in_range by (simp add: Let_def)
qed

lemma start_segments_ok: "segments_ok byte (running_offsets 0 (count_bytes byte xs)) xs (length xs)"
proof -
  have seg: "segment byte (running_offsets 0 (count_bytes byte xs)) xs v = {segment_start byte xs v..<segment_start byte xs (Suc v)}"
    if "v < 256" for v using that by (simp add: segment_def offsets_of_counts segment_start_Suc)
  have "segment_start byte xs 256 = length xs"
    using concat_groups_length [of byte xs 256] arg_cong [OF groups_all [of byte xs], of size] by simp
  then have "{segment_start byte xs v..<segment_start byte xs (Suc v)} \<subseteq> {..<length xs}" if "v < 256" for v
    using segment_start_mono [of "Suc v" 256 byte xs] that by auto
  moreover have "{segment_start byte xs u..<segment_start byte xs (Suc u)} \<inter> {segment_start byte xs v..<segment_start byte xs (Suc v)} = {}"
    if "u < v" for u v using segment_start_mono [of "Suc u" v byte xs] that by auto
  ultimately show ?thesis
    unfolding segments_ok_def by (simp add: seg offsets_of_counts(1)) (metis Int_commute linorder_neqE_nat)
qed

lemma radix_pass_sorts:
  assumes "length scratch = length xs"
  shows "radix_pass byte (xs, scratch) = Some (sort_key byte xs, xs)"
proof -
  let ?counts = "running_offsets 0 (count_bytes byte xs)" and ?gs = "concat (map (\<lambda>v. byte_group byte v xs) [0..<256])"
  obtain out where out: "scatter byte xs ?counts scratch = Some out" "length out = length xs"
    "\<And>v j. v < 256 \<Longrightarrow> j < length (byte_group byte v xs) \<Longrightarrow> out ! (?counts ! v + j) = byte_group byte v xs ! j"
    using scatter_spec [of byte ?counts xs scratch] start_segments_ok [of byte xs] assms by auto
  have len: "length ?gs = length xs" using arg_cong [OF groups_all [of byte xs], of size] by simp
  have "out = ?gs"
  proof (rule nth_equalityI)
    fix i assume "i < length out"
    then have "i < segment_start byte xs 256" using out(2) len concat_groups_length [of byte xs 256] by simp
    then obtain v where v: "v < 256" "segment_start byte xs v \<le> i" "i < segment_start byte xs (Suc v)"
      using ex_least_nat_less [of "\<lambda>v. i < segment_start byte xs v" 256]
      by (auto simp: segment_start_def not_less)
    define j where "j = i - segment_start byte xs v"
    then have "i = segment_start byte xs v + j" "j < length (byte_group byte v xs)"
      using v by (simp_all add: segment_start_Suc)
    then show "out ! i = ?gs ! i"
      using out(3) [OF v(1), of j] concat_groups_nth [OF v(1), of j byte xs] v(1) by (simp add: offsets_of_counts)
  qed (simp add: out(2) len)
  then show ?thesis using out(1) by (simp add: radix_pass_def groups_sort)
qed

lemma radix_passes_sort:
  "length scratch = length xs \<Longrightarrow> map_option fst (radix_passes bytes (xs, scratch)) = Some (fold sort_key bytes xs)"
  by (induction bytes arbitrary: xs scratch) (simp_all add: radix_pass_sorts)


subsection \<open>Passes from the least significant byte\<close>

lemma lex_sorted:
  assumes "sorted (map f ys)" "\<And>k. sorted (map g (filter (\<lambda>y. f y = k) ys))"
  shows "sorted (map (\<lambda>y. (f y, g y)) ys)"
  using assms
proof (induction ys)
  case (Cons y ys)
  have "sorted (map g (filter (\<lambda>z. f z = k) ys))" for k
    using Cons.prems(2) [of k] by (cases "f y = k") simp_all
  moreover have "f y < f z \<or> f y = f z \<and> g y \<le> g z" if "z \<in> set ys" for z
    using Cons.prems(1) Cons.prems(2) [of "f y"] that by (cases "f y = f z") auto
  ultimately show ?case using Cons by (auto simp: less_eq_prod_def)
qed simp

lemma sort_key_pair: "sort_key f (sort_key g xs) = sort_key (\<lambda>x. (f x, g x)) xs"
proof (rule sym, rule properties_for_sort_key)
  let ?ys = "sort_key f (sort_key g xs)"
  show "filter (\<lambda>x. (f k, g k) = (f x, g x)) ?ys = filter (\<lambda>x. (f k, g k) = (f x, g x)) xs" for k
  proof -
    let ?f = "\<lambda>x. f x = f k" and ?g = "\<lambda>x. g x = g k"
    have pair: "filter (\<lambda>x. (f k, g k) = (f x, g x)) zs = filter ?g (filter ?f zs)" for zs
      by (auto intro: filter_cong)
    have swap: "filter ?g (filter ?f zs) = filter ?f (filter ?g zs)" for zs
      by (auto intro: filter_cong)
    show ?thesis
      unfolding pair sort_key_stable [of f "f k"] unfolding swap sort_key_stable [of g "g k"] ..
  qed
  show "sorted (map (\<lambda>x. (f x, g x)) ?ys)"
    by (rule lex_sorted) (simp_all add: sort_key_stable sorted_filter)
qed simp

lemma sort_key_order_cong:
  assumes "\<And>x y. x \<in> set xs \<Longrightarrow> y \<in> set xs \<Longrightarrow> f x \<le> f y \<longleftrightarrow> g x \<le> g y"
  shows "sort_key f xs = sort_key g xs"
proof (rule properties_for_sort_key)
  have eq: "f x = f y \<longleftrightarrow> g x = g y" if "x \<in> set xs" "y \<in> set xs" for x y
    using assms [OF that] assms [OF that(2,1)] by (metis order_antisym order_refl)
  show "filter (\<lambda>x. f k = f x) (sort_key g xs) = filter (\<lambda>x. f k = f x) xs" if "k \<in> set (sort_key g xs)" for k
  proof -
    have "filter (\<lambda>x. f k = f x) zs = filter (\<lambda>x. g x = g k) zs" if "set zs = set xs" for zs
      using that \<open>k \<in> set (sort_key g xs)\<close> eq by (intro filter_cong) auto
    then show ?thesis by (simp add: sort_key_stable)
  qed
  show "sorted (map f (sort_key g xs))"
    using sorted_sort_key [of g xs] assms by (simp add: sorted_map) (rule sorted_wrt_mono_rel, auto)
qed simp

lemma sort_key_agree:
  assumes "\<And>x y. x \<in> set xs \<Longrightarrow> y \<in> set xs \<Longrightarrow> f x = f y"
  shows "sort_key f xs = xs"
proof -
  have "sort_key f xs = sort_key (\<lambda>_. 0 :: nat) xs"
    by (rule sort_key_order_cong) (metis assms order_refl)
  then show ?thesis by (simp add: sort_key_const)
qed

lemma fold_skip:
  assumes "\<And>p x y. p \<in> set ps \<Longrightarrow> \<not> P p \<Longrightarrow> x \<in> set xs \<Longrightarrow> y \<in> set xs \<Longrightarrow> f p x = f p y"
  shows "fold sort_key (map f (filter P ps)) xs = fold sort_key (map f ps) xs"
  using assms
proof (induction ps arbitrary: xs)
  case (Cons p ps)
  then show ?case
  proof (cases "P p")
    case False
    have "sort_key (f p) xs = xs"
      by (rule sort_key_agree) (rule Cons.prems [OF _ False], simp_all)
    moreover have "fold sort_key (map f (filter P ps)) xs = fold sort_key (map f ps) xs"
      by (rule Cons.IH) (rule Cons.prems, simp_all)
    ultimately show ?thesis using False by simp
  next
    case True
    have "fold sort_key (map f (filter P ps)) (sort_key (f p) xs) = fold sort_key (map f ps) (sort_key (f p) xs)"
      by (rule Cons.IH) (rule Cons.prems, simp_all)
    then show ?thesis using True by simp
  qed
qed simp

subsection \<open>Bytes of a word\<close>

lemma byte_mask: "(0xff :: 'a::len word) = mask 8"
  by (simp add: mask_eq_exp_minus_1)

lemma bit_byte_of: "bit (byte_of v b) i \<longleftrightarrow> i < 8 \<and> bit v (b * 8 + i)"
  unfolding byte_of_def byte_mask by (auto simp: bit_simps)

lemma unat_byte_of: "unat (byte_of v b) = unat v div 256 ^ b mod 256"
proof -
  have "byte_of v b = ucast (drop_bit (b * 8) v)"
    by (rule bit_eqI) (auto simp: bit_byte_of bit_simps)
  moreover have "(256 :: nat) ^ b = 2 ^ (b * 8)" by (simp add: power_mult mult.commute [of b])
  moreover have "unat (drop_bit (b * 8) v) = unat v div 2 ^ (b * 8)"
    using unat_drop_bit_eq [of "b * 8" v] drop_bit_eq_div [of "b * 8" "unat v"] by simp
  ultimately show ?thesis by (simp add: unat_ucast_mod)
qed


lemma lex_le_iff:
  fixes a b c d m :: nat
  assumes "b < m" "d < m"
  shows "(a, b) \<le> (c, d) \<longleftrightarrow> a * m + b \<le> c * m + d"
proof (cases a c rule: linorder_cases)
  case less
  then have "a * m + m \<le> c * m" by (metis Suc_leI add.commute mult_Suc mult_le_mono1)
  then show ?thesis using less assms by (simp add: less_eq_prod_def)
next
  case greater
  then have "c * m + m \<le> a * m" by (metis Suc_leI add.commute mult_Suc mult_le_mono1)
  then show ?thesis using greater assms by (simp add: less_eq_prod_def)
qed (simp add: less_eq_prod_def)

lemma field_passes:
  "fold sort_key (map (\<lambda>p x. byte_of (v x) p) [0..<n]) xs = sort_key (\<lambda>x. unat (v x) mod 256 ^ n) xs"
proof (induction n)
  case 0
  then show ?case by (simp add: sort_key_const)
next
  case (Suc n)
  have "fold sort_key (map (\<lambda>p x. byte_of (v x) p) [0..<Suc n]) xs =
      sort_key (\<lambda>x. byte_of (v x) n) (sort_key (\<lambda>x. unat (v x) mod 256 ^ n) xs)"
    using Suc by simp
  also have "\<dots> = sort_key (\<lambda>x. (unat (byte_of (v x) n), unat (v x) mod 256 ^ n)) xs"
    unfolding sort_key_pair by (rule sort_key_order_cong) (simp add: less_eq_prod_def word_le_nat_alt word_less_nat_alt)
  also have "\<dots> = sort_key (\<lambda>x. unat (v x) mod 256 ^ Suc n) xs"
    unfolding unat_byte_of power_Suc2 mod_mult2_eq
    by (rule sort_key_order_cong, subst lex_le_iff [where m = "256 ^ n"]) (simp_all add: mult.commute)
  finally show ?case .
qed

lemma field_sort:
  assumes "\<And>x. x \<in> set xs \<Longrightarrow> unat (v x) < 256 ^ n"
  shows "fold sort_key (map (\<lambda>p x. byte_of (v x) p) [0..<n]) xs = sort_key v xs"
  unfolding field_passes
  by (rule sort_key_order_cong) (simp add: assms word_le_nat_alt)

lemma unat_phase: "unat (ucast (p :: u16) :: u64) = unat p"
  using unat_lt [of p] by (simp add: unat_ucast_mod)

lemma word_fields: "unat (v :: u64) < 256 ^ 8" "unat (ucast (p :: u16) :: u64) < 256 ^ 2"
  using unat_lt [of v] unat_lt [of p] by (simp_all add: unat_phase)

subsection \<open>The order of target and key\<close>

definition remote_rank :: "event \<Rightarrow> node_id \<times> event_key" where
  "remote_rank e = (ev_target e, ev_key e)"

lemma upt_blocks: "[0..<34] = map (\<lambda>i. i + 0) [0..<8] @ map (\<lambda>i. i + 8) [0..<8] @ map (\<lambda>i. i + 16) [0..<2]
  @ map (\<lambda>i. i + 18) [0..<8] @ map (\<lambda>i. i + 26) [0..<8 :: nat]"
  by (simp add: upt_rec)

lemma remote_order_fields:
  "i < 8 \<Longrightarrow> remote_order_byte (i + 0) e = byte_of (key_origin_seq (ev_key e)) i"
  "i < 8 \<Longrightarrow> remote_order_byte (i + 8) e = byte_of (key_origin_node (ev_key e)) i"
  "i < 2 \<Longrightarrow> remote_order_byte (i + 16) e = byte_of (ucast (key_phase (ev_key e))) i"
  "i < 8 \<Longrightarrow> remote_order_byte (i + 18) e = byte_of (key_time_ns (ev_key e)) i"
  "i < 8 \<Longrightarrow> remote_order_byte (i + 26) e = byte_of (ev_target e) i"
  by (simp_all add: remote_order_byte_def)

lemma all_passes:
  "fold sort_key (map (\<lambda>p x. remote_order_byte p (ev x)) [0..<34]) xs = sort_key (\<lambda>x. remote_rank (ev x)) xs"
proof -
  have f: "fold sort_key (map (\<lambda>p x. remote_order_byte p (ev x)) (map (\<lambda>i. i + k) [0..<n])) ys = sort_key v ys"
    if "\<And>i x. i < n \<Longrightarrow> remote_order_byte (i + k) (ev x) = byte_of (v x) i" "\<And>x. unat (v x) < 256 ^ n"
    for v :: "'a \<Rightarrow> u64" and k n ys
  proof -
    have "map (\<lambda>p x. remote_order_byte p (ev x)) (map (\<lambda>i. i + k) [0..<n]) = map (\<lambda>p x. byte_of (v x) p) [0..<n]"
      using that(1) by (auto simp: fun_eq_iff)
    then show ?thesis using field_sort [of ys v n] that(2) by metis
  qed
  note blocks =
    f [of 8 0 "\<lambda>x. key_origin_seq (ev_key (ev x))", OF remote_order_fields(1) word_fields(1)]
    f [of 8 8 "\<lambda>x. key_origin_node (ev_key (ev x))", OF remote_order_fields(2) word_fields(1)]
    f [of 2 16 "\<lambda>x. ucast (key_phase (ev_key (ev x)))", OF remote_order_fields(3) word_fields(2)]
    f [of 8 18 "\<lambda>x. key_time_ns (ev_key (ev x))", OF remote_order_fields(4) word_fields(1)]
    f [of 8 26 "\<lambda>x. ev_target (ev x)", OF remote_order_fields(5) word_fields(1)]
  have "fold sort_key (map (\<lambda>p x. remote_order_byte p (ev x)) [0..<34]) xs =
    sort_key (\<lambda>x. ev_target (ev x)) (sort_key (\<lambda>x. key_time_ns (ev_key (ev x)))
      (sort_key (\<lambda>x. ucast (key_phase (ev_key (ev x))) :: u64) (sort_key (\<lambda>x. key_origin_node (ev_key (ev x)))
        (sort_key (\<lambda>x. key_origin_seq (ev_key (ev x))) xs))))"
    unfolding upt_blocks map_append fold_append comp_apply by (simp only: blocks)
  also have "\<dots> = sort_key (\<lambda>x. remote_rank (ev x)) xs"
    unfolding sort_key_pair
    by (rule sort_key_order_cong)
      (auto simp: remote_rank_def less_eq_event_key_ext_def less_event_key_ext_def key_tuple_def less_eq_prod_def
        word_le_nat_alt word_less_nat_alt unat_phase unat_word_eq)
  finally show ?thesis .
qed


subsection \<open>Skipped passes\<close>

lemma pass_bit: "pass < 64 \<Longrightarrow> (w :: u64) AND push_bit pass 1 \<noteq> 0 \<longleftrightarrow> bit w pass"
  by (simp add: bit_iff_and_push_bit_not_eq_0)

lemma bit_varying:
  "bit (fold (\<lambda>x acc. acc OR (f first_item XOR f x)) xs acc) i \<longleftrightarrow>
     bit acc i \<or> (\<exists>x\<in>set xs. bit (f first_item XOR f x) i)"
  by (induction xs arbitrary: acc) (auto simp: bit_or_iff)

lemma varying_iff: "bit (varying f first_item xs) i \<longleftrightarrow> (\<exists>x\<in>set xs. bit (f first_item XOR f x) i)"
  by (simp add: varying_def bit_varying)

lemma bit_mask_fold:
  "first + b < 64 \<Longrightarrow>
   bit (fold (\<lambda>byte mask. if (value :: u64) AND push_bit (byte * 8) 0xff \<noteq> 0
                          then mask OR push_bit (first + byte) 1 else mask) bs acc :: u64) (first + b) \<longleftrightarrow>
     bit acc (first + b) \<or> b \<in> set bs \<and> value AND push_bit (b * 8) 0xff \<noteq> 0"
  by (induction bs arbitrary: acc) (auto simp: bit_simps)

lemma varying_mask_bit:
  assumes "b < 8" "first + b < 64" "i < 8" "bit value (b * 8 + i)"
  shows "bit (varying_byte_mask value first) (first + b)"
proof -
  have "bit (value AND push_bit (b * 8) 0xff) (b * 8 + i)"
    using assms unfolding byte_mask by (simp add: bit_simps)
  then have "value AND push_bit (b * 8) 0xff \<noteq> 0" by (metis bit_0_eq bot_apply bot_bool_def)
  then show ?thesis using assms(1,2) by (simp add: varying_byte_mask_def bit_mask_fold)
qed

lemma mask_clear_agree:
  assumes "\<not> bit (varying_byte_mask (varying f first_item xs) first) pass" "x \<in> set xs"
    and "first \<le> pass" "pass < first + 8" "pass < 64"
  shows "byte_of (f first_item) (pass - first) = byte_of (f x) (pass - first)"
proof (rule bit_eqI)
  fix i
  assume "possible_bit TYPE(8 word) i"
  then have "i < 8" by (simp add: possible_bit_word)
  then have "\<not> bit (varying f first_item xs) ((pass - first) * 8 + i)"
    using varying_mask_bit [of "pass - first" first i "varying f first_item xs"] assms(1,3-5) by fastforce
  then have "\<not> bit (f first_item XOR f x) ((pass - first) * 8 + i)" using assms(2) by (auto simp: varying_iff)
  then show "bit (byte_of (f first_item) (pass - first)) i = bit (byte_of (f x) (pass - first)) i"
    by (auto simp: bit_byte_of bit_xor_iff)
qed

lemma ucast_varying: "(ucast (varying f first_item xs :: u16) :: u64) = varying (\<lambda>x. ucast (f x)) first_item xs"
  by (rule bit_eqI) (auto simp: bit_ucast_iff varying_iff bit_xor_iff possible_bit_word)

lemma pass_clear_agree:
  assumes "pass < 34" "\<not> bit (remote_varying_bytes first_event events) pass" "e \<in> set events"
  shows "remote_order_byte pass first_event = remote_order_byte pass e"
proof -
  have clear: "\<not> bit (varying_byte_mask (varying (\<lambda>e. key_origin_seq (ev_key e)) first_event events) 0) pass"
    "\<not> bit (varying_byte_mask (varying (\<lambda>e. key_origin_node (ev_key e)) first_event events) 8) pass"
    "\<not> bit (varying_byte_mask (varying (\<lambda>e. ucast (key_phase (ev_key e))) first_event events) 16) pass"
    "\<not> bit (varying_byte_mask (varying (\<lambda>e. key_time_ns (ev_key e)) first_event events) 18) pass"
    "\<not> bit (varying_byte_mask (varying ev_target first_event events) 26) pass"
    using assms(2) by (simp_all add: remote_varying_bytes_def bit_or_iff ucast_varying)
  consider "pass \<le> 7" | "8 \<le> pass" "pass \<le> 15" | "16 \<le> pass" "pass \<le> 17" | "18 \<le> pass" "pass \<le> 25" | "26 \<le> pass" "pass \<le> 33"
    using assms(1) by linarith
  then show ?thesis
  proof cases
    case 1
    then show ?thesis using mask_clear_agree [OF clear(1) assms(3)] by (simp add: remote_order_byte_def)
  next
    case 2
    then show ?thesis using mask_clear_agree [OF clear(2) assms(3)] by (simp add: remote_order_byte_def)
  next
    case 3
    then show ?thesis using mask_clear_agree [OF clear(3) assms(3)] by (simp add: remote_order_byte_def)
  next
    case 4
    then show ?thesis using mask_clear_agree [OF clear(4) assms(3)] by (simp add: remote_order_byte_def)
  next
    case 5
    then show ?thesis using mask_clear_agree [OF clear(5) assms(3)] by (simp add: remote_order_byte_def)
  qed
qed


subsection \<open>The sorts\<close>

lemma radix_sort_remote_eq: "radix_sort_remote ev items = Some (sort_key (\<lambda>x. remote_rank (ev x)) items)"
proof (cases items rule: remdups_adj.cases)
  case (3 first_item second_item rest)
  let ?mask = "remote_varying_bytes (ev first_item) (map ev (second_item # rest))"
  let ?P = "\<lambda>pass. ?mask AND push_bit pass 1 \<noteq> 0" and ?byte = "\<lambda>pass item. remote_order_byte pass (ev item)"
  have agree: "?byte pass x = ?byte pass y" if "pass \<in> set [0..<34]" "\<not> ?P pass" "x \<in> set items" "y \<in> set items" for pass x y
  proof -
    have "\<not> bit ?mask pass" using that(1,2) pass_bit [of pass ?mask] by simp
    then have "?byte pass first_item = ?byte pass z" if "z \<in> set items" for z
      using pass_clear_agree [of pass "ev first_item" "map ev (second_item # rest)" "ev z"] \<open>pass \<in> set [0..<34]\<close> that 3
      by auto
    then show ?thesis using that(3,4) by metis
  qed
  have "radix_sort_remote ev items = Some (fold sort_key (map ?byte (filter ?P [0..<34])) items)"
    unfolding radix_sort_remote_def remote_order_bytes_def
    using radix_passes_sort [of "replicate (length items) first_item" items "map ?byte (filter ?P [0..<34])"] 3
    by (simp add: Let_def)
  also have "fold sort_key (map ?byte (filter ?P [0..<34])) items = fold sort_key (map ?byte [0..<34]) items"
    by (rule fold_skip) (rule agree)
  finally show ?thesis by (simp only: all_passes)
qed (simp_all add: radix_sort_remote_def)

lemma radix_sort_by_node_eq: "radix_sort_by_node node items = Some (sort_key node items)"
proof (cases items rule: remdups_adj.cases)
  case (3 first_item second_item rest)
  have "radix_sort_by_node node items = Some (fold sort_key (map (\<lambda>pass item. byte_of (node item) pass) [0..<8]) items)"
    using radix_passes_sort [of "replicate (length items) first_item" items] 3 by (simp add: radix_sort_by_node_def)
  then show ?thesis by (simp only: field_sort [OF word_fields(1)])
qed (simp_all add: radix_sort_by_node_def)

text \<open>
  C8. The radix sorts of a round's exchange are stable comparison sorts: remote events, alone or in
  envelopes, come out in the order of target and complete event key, and items come out in the order
  of their node.  Skipping the passes whose byte does not vary changes nothing, every index is in
  range, and equal items keep their order.
\<close>

theorem exchange_order_exact:
  "radix_sort_remote ev items = Some (sort_key (\<lambda>item. (ev_target (ev item), ev_key (ev item))) items)
   \<and> radix_sort_by_node node nodes = Some (sort_key node nodes)"
  by (simp add: radix_sort_remote_eq remote_rank_def radix_sort_by_node_eq)

end
