(* ===== verification/Binary_Heap.thy ===== *)
theory Binary_Heap
  imports Prelude
begin

section \<open>Binary heaps in a vector\<close>

text \<open>
  The array heaps the program maintains by hand: the frontier index of \<open>executor/src/cpu.rs\<close> and the
  heap of event records of \<open>executor/src/cuda.rs\<close>.  Both compare a key of
  their elements; the parent of position \<open>i\<close> is \<open>(i - 1) / 2\<close>.  \<open>sift_up\<close> and \<open>sift_down\<close> are the moves
  on the vector alone, in the form that swaps; each client proves that its own loop, with its
  back pointers or its word-by-word swaps, makes these moves.
\<close>

definition heap_parent :: "nat \<Rightarrow> nat" where
  "heap_parent i = (i - 1) div 2"

definition swap_at :: "nat \<Rightarrow> nat \<Rightarrow> 'a list \<Rightarrow> 'a list" where
  "swap_at i j xs = xs[i := xs ! j, j := xs ! i]"

function sift_up :: "('a \<Rightarrow> 'k::linorder) \<Rightarrow> nat \<Rightarrow> 'a list \<Rightarrow> 'a list" where
  "sift_up key i xs =
     (if i = 0 \<or> key (xs ! heap_parent i) \<le> key (xs ! i) then xs
      else sift_up key (heap_parent i) (swap_at i (heap_parent i) xs))"
  by pat_completeness auto
termination
  by (relation "measure (\<lambda>(key, i, xs). i)") (auto simp: heap_parent_def)

definition smaller_child :: "('a \<Rightarrow> 'k::linorder) \<Rightarrow> nat \<Rightarrow> 'a list \<Rightarrow> nat" where
  "smaller_child key i xs =
     (let left = 2 * i + 1 in
      if left + 1 < length xs \<and> key (xs ! (left + 1)) < key (xs ! left) then left + 1 else left)"

function sift_down :: "('a \<Rightarrow> 'k::linorder) \<Rightarrow> nat \<Rightarrow> 'a list \<Rightarrow> 'a list" where
  "sift_down key i xs =
     (if length xs \<le> 2 * i + 1 \<or> key (xs ! i) \<le> key (xs ! smaller_child key i xs) then xs
      else sift_down key (smaller_child key i xs) (swap_at i (smaller_child key i xs) xs))"
  by pat_completeness auto
termination
  by (relation "measure (\<lambda>(key, i, xs). length xs - i)")
    (auto simp: smaller_child_def Let_def swap_at_def)

declare sift_up.simps [simp del]
declare sift_down.simps [simp del]

subsection \<open>Order\<close>

definition is_heap :: "('a \<Rightarrow> 'k::linorder) \<Rightarrow> 'a list \<Rightarrow> bool" where
  "is_heap key xs \<longleftrightarrow> (\<forall>k<length xs. k \<noteq> 0 \<longrightarrow> key (xs ! heap_parent k) \<le> key (xs ! k))"

text \<open>
  A heap but for position \<open>i\<close> against its parent, or against its children; the children of \<open>i\<close> are not
  below the parent of \<open>i\<close>.
\<close>

definition over_parent :: "('a \<Rightarrow> 'k::linorder) \<Rightarrow> nat \<Rightarrow> 'a list \<Rightarrow> bool" where
  "over_parent key i xs \<longleftrightarrow> i \<noteq> 0 \<longrightarrow>
     (\<forall>k<length xs. k \<noteq> 0 \<longrightarrow> heap_parent k = i \<longrightarrow> key (xs ! heap_parent i) \<le> key (xs ! k))"

definition heap_but_up :: "('a \<Rightarrow> 'k::linorder) \<Rightarrow> nat \<Rightarrow> 'a list \<Rightarrow> bool" where
  "heap_but_up key i xs \<longleftrightarrow> over_parent key i xs
     \<and> (\<forall>k<length xs. k \<noteq> 0 \<longrightarrow> k \<noteq> i \<longrightarrow> key (xs ! heap_parent k) \<le> key (xs ! k))"

definition heap_but_down :: "('a \<Rightarrow> 'k::linorder) \<Rightarrow> nat \<Rightarrow> 'a list \<Rightarrow> bool" where
  "heap_but_down key i xs \<longleftrightarrow> over_parent key i xs
     \<and> (\<forall>k<length xs. k \<noteq> 0 \<longrightarrow> heap_parent k \<noteq> i \<longrightarrow> key (xs ! heap_parent k) \<le> key (xs ! k))"

lemma heap_parent_less: "k \<noteq> 0 \<Longrightarrow> heap_parent k < k"
  by (simp add: heap_parent_def)

lemma heap_parent_child: "k \<noteq> 0 \<Longrightarrow> heap_parent k = i \<longleftrightarrow> k = 2 * i + 1 \<or> k = 2 * i + 2"
  by (auto simp: heap_parent_def)

lemma swap_at_nth:
  "i < length xs \<Longrightarrow> j < length xs \<Longrightarrow> swap_at i j xs ! k = (if k = j then xs ! i else if k = i then xs ! j else xs ! k)"
  by (auto simp: swap_at_def nth_list_update)

lemma length_swap_at [simp]: "length (swap_at i j xs) = length xs"
  by (simp add: swap_at_def)

lemma mset_swap_at: "i < length xs \<Longrightarrow> j < length xs \<Longrightarrow> mset (swap_at i j xs) = mset xs"
  unfolding swap_at_def by (rule mset_swap)

lemma is_heap_root:
  assumes "is_heap key xs" "k < length xs"
  shows "key (xs ! 0) \<le> key (xs ! k)"
  using assms(2)
proof (induction k rule: less_induct)
  case (less k)
  show ?case
  proof (cases "k = 0")
    case False
    then have "key (xs ! 0) \<le> key (xs ! heap_parent k)"
      using less heap_parent_less [OF False] by (metis less_trans)
    also have "\<dots> \<le> key (xs ! k)" using assms(1) less.prems False by (simp add: is_heap_def)
    finally show ?thesis .
  qed simp
qed

lemma up_done:
  assumes "heap_but_up key i xs" "i = 0 \<or> key (xs ! heap_parent i) \<le> key (xs ! i)"
  shows "is_heap key xs"
  using assms unfolding heap_but_up_def is_heap_def by metis

lemma up_step:
  assumes h: "heap_but_up key i xs" and i: "i < length xs" "i \<noteq> 0" "key (xs ! i) < key (xs ! heap_parent i)"
  shows "heap_but_up key (heap_parent i) (swap_at i (heap_parent i) xs)"
proof -
  let ?p = "heap_parent i"
  have p: "?p < length xs" "?p \<noteq> i" using heap_parent_less [OF i(2)] i(1) by auto
  note nth = swap_at_nth [OF i(1) p(1)]
  have old: "key (xs ! heap_parent k) \<le> key (xs ! k)" if "k < length xs" "k \<noteq> 0" "k \<noteq> i" for k
    using h that by (simp add: heap_but_up_def)
  have grand: "key (xs ! ?p) \<le> key (xs ! k)" if "k < length xs" "k \<noteq> 0" "heap_parent k = i" for k
    using h that i(2) by (simp add: heap_but_up_def over_parent_def)
  have ge: "key (swap_at i ?p xs ! heap_parent k) \<le> key (swap_at i ?p xs ! k)"
    if k: "k < length xs" "k \<noteq> 0" "k \<noteq> ?p" for k
  proof (cases "k = i")
    case True
    then show ?thesis using i p by (simp add: nth)
  next
    case False
    then show ?thesis using old [OF k(1,2)] grand [OF k(1,2)] k i(3) p
      by (auto simp: nth)
  qed
  moreover have "over_parent key ?p (swap_at i ?p xs)"
    unfolding over_parent_def
  proof (intro impI allI)
    fix k assume pp: "?p \<noteq> 0" and k: "k < length (swap_at i ?p xs)" "k \<noteq> 0" "heap_parent k = ?p"
    have q: "heap_parent ?p \<noteq> ?p" "heap_parent ?p \<noteq> i" using heap_parent_less [OF pp] heap_parent_less [OF i(2)] by auto
    have "key (xs ! heap_parent ?p) \<le> key (xs ! ?p)" using old [of ?p] p pp by simp
    moreover have "k = i \<or> key (xs ! ?p) \<le> key (xs ! k)" using old [of k] k by auto
    moreover have "k \<noteq> ?p" using heap_parent_less [OF k(2)] k(3) by auto
    ultimately show "key (swap_at i ?p xs ! heap_parent ?p) \<le> key (swap_at i ?p xs ! k)"
      using q by (auto simp: nth)
  qed
  ultimately show ?thesis by (simp add: heap_but_up_def)
qed

lemma sift_up_heap:
  "heap_but_up key i xs \<Longrightarrow> i < length xs \<Longrightarrow> is_heap key (sift_up key i xs) \<and> mset (sift_up key i xs) = mset xs"
proof (induction key i xs rule: sift_up.induct)
  case (1 key i xs)
  show ?case
  proof (cases "i = 0 \<or> key (xs ! heap_parent i) \<le> key (xs ! i)")
    case True
    then show ?thesis using up_done [OF 1(2)] by (simp add: sift_up.simps [of key i xs])
  next
    case False
    then have p: "heap_parent i < length xs" using heap_parent_less [of i] 1(3) by simp
    from 1(1) [OF False up_step [OF 1(2,3)]] False p show ?thesis
      using mset_swap_at [OF 1(3) p] by (auto simp: sift_up.simps [of key i xs] not_le)
  qed
qed

lemma smaller_child_spec:
  assumes "2 * i + 1 < length xs"
  shows "smaller_child key i xs < length xs" "smaller_child key i xs \<noteq> 0" "heap_parent (smaller_child key i xs) = i"
    and "k < length xs \<Longrightarrow> k \<noteq> 0 \<Longrightarrow> heap_parent k = i \<Longrightarrow> key (xs ! smaller_child key i xs) \<le> key (xs ! k)"
  using assms by (auto simp: smaller_child_def Let_def heap_parent_child)

lemma down_done:
  assumes "heap_but_down key i xs" "length xs \<le> 2 * i + 1 \<or> key (xs ! i) \<le> key (xs ! smaller_child key i xs)"
  shows "is_heap key xs"
  unfolding is_heap_def
proof (intro allI impI)
  fix k assume k: "k < length xs" "k \<noteq> 0"
  show "key (xs ! heap_parent k) \<le> key (xs ! k)"
  proof (cases "heap_parent k = i")
    case True
    then have "2 * i + 1 < length xs" using k heap_parent_child [of k i] by auto
    then show ?thesis using assms(2) smaller_child_spec(4) [of i xs k key] k True by force
  qed (use assms(1) k in \<open>simp add: heap_but_down_def\<close>)
qed

lemma down_step:
  assumes h: "heap_but_down key i xs" and l: "2 * i + 1 < length xs"
    and lt: "key (xs ! smaller_child key i xs) < key (xs ! i)"
  shows "heap_but_down key (smaller_child key i xs) (swap_at i (smaller_child key i xs) xs)"
proof -
  define c where "c = smaller_child key i xs"
  note child = smaller_child_spec [where key = key, OF l, folded c_def]
  have i: "i < length xs" "i \<noteq> c" using l heap_parent_less [OF child(2)] child(3) by auto
  note nth = swap_at_nth [OF i(1) child(1)]
  have old: "key (xs ! heap_parent k) \<le> key (xs ! k)" if "k < length xs" "k \<noteq> 0" "heap_parent k \<noteq> i" for k
    using h that by (simp add: heap_but_down_def)
  have grand: "key (xs ! heap_parent i) \<le> key (xs ! k)" if "k < length xs" "k \<noteq> 0" "heap_parent k = i" "i \<noteq> 0" for k
    using h that by (simp add: heap_but_down_def over_parent_def)
  have pi: "heap_parent i \<noteq> i" "heap_parent i \<noteq> c" if "i \<noteq> 0"
    using heap_parent_less [OF that] heap_parent_less [OF child(2)] child(3) by auto
  have ge: "key (swap_at i c xs ! heap_parent k) \<le> key (swap_at i c xs ! k)"
    if k: "k < length xs" "k \<noteq> 0" "heap_parent k \<noteq> c" for k
  proof -
    consider "k = c" | "k = i" | "k \<noteq> c" "k \<noteq> i" "heap_parent k = i" | "k \<noteq> c" "k \<noteq> i" "heap_parent k \<noteq> i" by blast
    then show ?thesis
    proof cases
      case 1
      then show ?thesis using lt [folded c_def] child(3) i by (simp add: nth)
    next
      case 2
      then show ?thesis using grand [OF child(1-3)] k pi i by (simp add: nth)
    next
      case 3
      then show ?thesis using child(4) [OF k(1,2)] i by (simp add: nth)
    next
      case 4
      then show ?thesis using old [OF k(1,2)] k(3) by (simp add: nth)
    qed
  qed
  moreover have "over_parent key c (swap_at i c xs)"
    unfolding over_parent_def
  proof (intro impI allI)
    fix k assume k: "k < length (swap_at i c xs)" "k \<noteq> 0" "heap_parent k = c"
    then have "k \<noteq> c" "k \<noteq> i" using heap_parent_less [OF k(2)] heap_parent_less [OF child(2)] child(3) by auto
    moreover have "key (xs ! c) \<le> key (xs ! k)" using old [of k] k i by simp
    ultimately show "key (swap_at i c xs ! heap_parent c) \<le> key (swap_at i c xs ! k)"
      using child(3) i by (simp add: nth)
  qed
  ultimately show ?thesis by (simp add: heap_but_down_def c_def)
qed

lemma sift_down_heap:
  "heap_but_down key i xs \<Longrightarrow> i < length xs \<Longrightarrow> is_heap key (sift_down key i xs) \<and> mset (sift_down key i xs) = mset xs"
proof (induction key i xs rule: sift_down.induct)
  case (1 key i xs)
  show ?case
  proof (cases "length xs \<le> 2 * i + 1 \<or> key (xs ! i) \<le> key (xs ! smaller_child key i xs)")
    case True
    then show ?thesis using down_done [OF 1(2)] by (simp add: sift_down.simps [of key i xs])
  next
    case False
    then have l: "2 * i + 1 < length xs" by simp
    note c = smaller_child_spec [where key = key, OF l]
    from 1(1) [OF False down_step [OF 1(2) l]] False c(1) show ?thesis
      using mset_swap_at [OF 1(3) c(1)] by (auto simp: sift_down.simps [of key i xs] not_le)
  qed
qed

subsection \<open>Replacing one element\<close>

text \<open>A push: the last element may be below its parent.\<close>

lemma heap_push: "is_heap key xs \<Longrightarrow> heap_but_up key (length xs) (xs @ [x])"
proof -
  assume h: "is_heap key xs"
  have p: "heap_parent k < length xs" if "k \<le> length xs" "k \<noteq> 0" for k
    using heap_parent_less [OF that(2)] that(1) by simp
  have "key ((xs @ [x]) ! heap_parent k) \<le> key ((xs @ [x]) ! k)" if "k < length xs" "k \<noteq> 0" for k
    using h that p [of k] by (simp add: nth_append is_heap_def)
  moreover have "heap_parent k \<noteq> length xs" if "k \<le> length xs" "k \<noteq> 0" for k
    using p [OF that] by simp
  ultimately show ?thesis
    unfolding heap_but_up_def over_parent_def by (simp add: less_Suc_eq_le)
qed

text \<open>An element replaced: it moves up when it is below its parent, and down otherwise.\<close>

lemma heap_replace_up:
  assumes h: "is_heap key xs" and i: "i < length xs" "i \<noteq> 0" and less: "key x < key (xs ! heap_parent i)"
  shows "heap_but_up key i (xs[i := x])"
proof -
  have ge: "key (xs ! heap_parent k) \<le> key (xs ! k)" if "k < length xs" "k \<noteq> 0" for k
    using h that by (simp add: is_heap_def)
  have p: "heap_parent i \<noteq> i" using heap_parent_less [OF i(2)] by simp
  have child: "key (xs ! heap_parent i) \<le> key (xs ! k)" if "k < length xs" "k \<noteq> 0" "heap_parent k = i" for k
    using ge [OF that(1,2)] ge [OF i] that(3) by simp
  have "key (xs[i := x] ! heap_parent k) \<le> key (xs[i := x] ! k)" if "k < length xs" "k \<noteq> 0" "k \<noteq> i" for k
    using ge [OF that(1,2)] child [OF that(1,2)] less that i(1) by (cases "heap_parent k = i") (auto simp: nth_list_update)
  moreover have "key (xs[i := x] ! heap_parent i) \<le> key (xs[i := x] ! k)" if "k < length xs" "k \<noteq> 0" "heap_parent k = i" for k
  proof -
    have "k \<noteq> i" using heap_parent_less [OF that(2)] that(3) by simp
    then show ?thesis using child [OF that] p by (simp add: nth_list_update)
  qed
  then have "over_parent key i (xs[i := x])" by (simp add: over_parent_def)
  ultimately show ?thesis by (simp add: heap_but_up_def)
qed

lemma heap_replace_down:
  assumes h: "is_heap key xs" and i: "i < length xs" and ge: "i = 0 \<or> key (xs ! heap_parent i) \<le> key x"
  shows "heap_but_down key i (xs[i := x])"
proof -
  have old: "key (xs ! heap_parent k) \<le> key (xs ! k)" if "k < length xs" "k \<noteq> 0" for k
    using h that by (simp add: is_heap_def)
  have "key (xs[i := x] ! heap_parent k) \<le> key (xs[i := x] ! k)" if "k < length xs" "k \<noteq> 0" "heap_parent k \<noteq> i" for k
    using old [OF that(1,2)] ge that by (cases "k = i") (auto simp: nth_list_update)
  moreover have "over_parent key i (xs[i := x])"
    unfolding over_parent_def
  proof (intro impI allI)
    fix k assume k: "i \<noteq> 0" "k < length (xs[i := x])" "k \<noteq> 0" "heap_parent k = i"
    then have "k \<noteq> i" "heap_parent i \<noteq> i" using heap_parent_less [of k] heap_parent_less [of i] by auto
    then show "key (xs[i := x] ! heap_parent i) \<le> key (xs[i := x] ! k)"
      using old [of k] old [of i] k i by (auto simp: nth_list_update)
  qed
  ultimately show ?thesis by (simp add: heap_but_down_def)
qed

lemma is_heap_butlast:
  assumes "is_heap key xs"
  shows "is_heap key (butlast xs)"
  unfolding is_heap_def
proof (intro allI impI)
  fix k assume k: "k < length (butlast xs)" "k \<noteq> 0"
  then have "heap_parent k < length (butlast xs)" using heap_parent_less [OF k(2)] by simp
  then show "key (butlast xs ! heap_parent k) \<le> key (butlast xs ! k)"
    using assms k by (simp add: nth_butlast is_heap_def)
qed

text \<open>Taking out position \<open>i\<close>: the last element leaves the vector and, unless it is the one, fills the place.\<close>

lemma mset_drop_last: "Suc i = length xs \<Longrightarrow> mset (butlast xs) = mset xs - {#xs ! i#}"
  by (cases xs rule: rev_cases) simp_all

lemma mset_move_last:
  assumes "Suc i < length xs"
  shows "mset ((butlast xs)[i := last xs]) = mset xs - {#xs ! i#}"
proof (cases xs rule: rev_cases)
  case (snoc ys y)
  then have "ys ! i \<in># mset ys" using assms by simp
  then show ?thesis using assms snoc by (simp add: mset_update nth_append)
qed (use assms in simp)

definition restore_at :: "('a \<Rightarrow> 'k::linorder) \<Rightarrow> nat \<Rightarrow> 'a list \<Rightarrow> 'a list" where
  "restore_at key i xs =
     (if i \<noteq> 0 \<and> key (xs ! i) < key (xs ! heap_parent i) then sift_up key i xs else sift_down key i xs)"

lemma restore_at_heap:
  assumes h: "is_heap key xs" and i: "i < length xs"
  shows "is_heap key (restore_at key i (xs[i := x]))" "mset (restore_at key i (xs[i := x])) = mset (xs[i := x])"
proof -
  have p: "xs[i := x] ! heap_parent i = xs ! heap_parent i" if "i \<noteq> 0" using heap_parent_less [OF that] i by simp
  have "is_heap key (restore_at key i (xs[i := x])) \<and> mset (restore_at key i (xs[i := x])) = mset (xs[i := x])"
  proof (cases "i \<noteq> 0 \<and> key x < key (xs ! heap_parent i)")
    case True
    then show ?thesis
      using sift_up_heap [OF heap_replace_up [OF h i]] i p by (simp add: restore_at_def)
  next
    case False
    then have "i = 0 \<or> key (xs ! heap_parent i) \<le> key x" by auto
    then show ?thesis
      using sift_down_heap [OF heap_replace_down [OF h i]] i p False by (auto simp: restore_at_def)
  qed
  then show "is_heap key (restore_at key i (xs[i := x]))" "mset (restore_at key i (xs[i := x])) = mset (xs[i := x])"
    by simp_all
qed

lemma length_restore_at: "is_heap key xs \<Longrightarrow> i < length xs \<Longrightarrow> length (restore_at key i (xs[i := x])) = length xs"
  using arg_cong [OF restore_at_heap(2) [of key xs i x], of size] by simp

end
