(* ===== verification/Frontier_Index.thy ===== *)
theory Frontier_Index
  imports Binary_Heap Future_Events
begin

section \<open>Frontier indexes\<close>

text \<open>
  An owner of logical processes keeps the time of each process's next event in an index, from which a
  round takes every process that is due.  \<open>executor/src/safe_horizon.rs\<close> uses a standard binary heap
  with generations and lazy deletion; \<open>executor/src/cpu.rs\<close> uses an array heap with the position of
  every process in it.  The locale \<open>frontier_index\<close> is what the executors rely on, and both indexes
  interpret it.  The probe and pop counts of the source only feed its metrics and are left out.
\<close>

text \<open>What an executor asks of an index, and the answer: a due process with its time and node.\<close>

datatype frontier_op = UpdateFrontier nat "event_key option" | PeekMin | PopBefore u128

type_synonym frontier_answer = "(u64 \<times> node_id \<times> nat) option"

subsection \<open>The lazy index of the round executor\<close>

record lazy_entry =
  le_time_ns :: u64
  le_node :: node_id
  le_generation :: u64
  le_lp_slot :: nat

text \<open>The derived order of the entries, which \<open>Reverse\<close> turns into a least-first heap.\<close>

definition le_rank :: "lazy_entry \<Rightarrow> u64 \<times> node_id \<times> u64 \<times> nat" where
  "le_rank e = (le_time_ns e, le_node e, le_generation e, le_lp_slot e)"

record lazy_frontier =
  lf_heap :: "lazy_entry list"
  lf_generations :: "u64 list"

definition lf_new :: "nat \<Rightarrow> lazy_frontier" where
  "lf_new lp_count = \<lparr>lf_heap = [], lf_generations = replicate lp_count 0\<rparr>"

definition lf_update ::
  "nat \<Rightarrow> node_id \<Rightarrow> event_key option \<Rightarrow> lazy_frontier \<Rightarrow> (execution_error + lazy_frontier) option" where
  "lf_update lp_slot node next_key f =
     (if lp_slot < length (lf_generations f) then
        Some (and_then (ok_or (CounterOverflow node) (checked_add (lf_generations f ! lp_slot) 1)) (\<lambda>generation.
          Inr (f\<lparr>lf_generations := (lf_generations f)[lp_slot := generation],
                 lf_heap := (case next_key of None \<Rightarrow> lf_heap f
                   | Some key \<Rightarrow> \<lparr>le_time_ns = key_time_ns key, le_node = node, le_generation = generation,
                                  le_lp_slot = lp_slot\<rparr> # lf_heap f)\<rparr>)))
      else None)"

fun least_entry :: "lazy_entry list \<Rightarrow> lazy_entry option" where
  "least_entry [] = None"
| "least_entry (e # es) =
     (case least_entry es of None \<Rightarrow> Some e | Some m \<Rightarrow> Some (if le_rank e \<le> le_rank m then e else m))"

lemma least_entry_in: "least_entry es = Some e \<Longrightarrow> e \<in> set es"
  by (induction es arbitrary: e) (auto split: option.splits if_splits)

function lf_peek_min :: "lazy_frontier \<Rightarrow> (lazy_entry option \<times> lazy_frontier) option" where
  "lf_peek_min f =
     (case least_entry (lf_heap f) of
        None \<Rightarrow> Some (None, f)
      | Some entry \<Rightarrow>
          if le_lp_slot entry < length (lf_generations f) then
            if lf_generations f ! le_lp_slot entry = le_generation entry then Some (Some entry, f)
            else lf_peek_min (f\<lparr>lf_heap := remove1 entry (lf_heap f)\<rparr>)
          else None)"
  by pat_completeness auto
termination
  by (relation "measure (\<lambda>f. length (lf_heap f))")
    (auto dest!: least_entry_in simp: length_remove1 intro: Nat.diff_Suc_less split: option.splits)

declare lf_peek_min.simps [simp del]

definition lf_pop_before ::
  "u128 \<Rightarrow> lazy_frontier \<Rightarrow> (lazy_entry option \<times> lazy_frontier) option" where
  "lf_pop_before exclusive_horizon_ns f = Option.bind (lf_peek_min f) (\<lambda>(found, f').
     case found of
       None \<Rightarrow> Some (None, f')
     | Some entry \<Rightarrow>
         if exclusive_horizon_ns \<le> u64_to_u128 (le_time_ns entry) then Some (None, f')
         else Some (least_entry (lf_heap f'), f'\<lparr>lf_heap :=
                (case least_entry (lf_heap f') of None \<Rightarrow> lf_heap f' | Some e \<Rightarrow> remove1 e (lf_heap f'))\<rparr>))"

subsection \<open>The array heap of the parallel executor\<close>

record frontier_entry =
  fr_time_ns :: u64
  fr_node :: node_id
  fr_owner_slot :: nat

definition fr_rank :: "frontier_entry \<Rightarrow> u64 \<times> node_id \<times> nat" where
  "fr_rank e = (fr_time_ns e, fr_node e, fr_owner_slot e)"

definition no_index_slot :: nat where "no_index_slot = 2 ^ 64 - 1"

record owner_frontier =
  of_heap :: "frontier_entry list"
  of_next_time_ns :: "u64 list"
  of_active :: "bool list"
  of_index_slot :: "nat list"

definition of_new :: "nat \<Rightarrow> owner_frontier" where
  "of_new lp_count = \<lparr>of_heap = [], of_next_time_ns = replicate lp_count 0,
     of_active = replicate lp_count False, of_index_slot = replicate lp_count no_index_slot\<rparr>"

text \<open>\<open>vector[i] = v\<close>, which panics out of range.\<close>

definition store_at :: "nat \<Rightarrow> 'a \<Rightarrow> 'a list \<Rightarrow> 'a list option" where
  "store_at i v xs = (if i < length xs then Some (xs[i := v]) else None)"

definition set_index :: "nat \<Rightarrow> nat \<Rightarrow> owner_frontier \<Rightarrow> owner_frontier option" where
  "set_index slot i f = map_option (\<lambda>s. f\<lparr>of_index_slot := s\<rparr>) (store_at slot i (of_index_slot f))"

definition swap_heap :: "nat \<Rightarrow> nat \<Rightarrow> owner_frontier \<Rightarrow> owner_frontier option" where
  "swap_heap left right f =
     (if left < length (of_heap f) \<and> right < length (of_heap f) then
        let heap = swap_at left right (of_heap f) in
        Option.bind (set_index (fr_owner_slot (heap ! left)) left (f\<lparr>of_heap := heap\<rparr>))
          (set_index (fr_owner_slot (heap ! right)) right)
      else None)"

lemma swap_heap_length: "swap_heap left right f = Some f' \<Longrightarrow> length (of_heap f') = length (of_heap f)"
  by (auto simp: swap_heap_def set_index_def store_at_def Let_def split: if_splits)

function of_sift_up :: "nat \<Rightarrow> owner_frontier \<Rightarrow> owner_frontier option" where
  "of_sift_up index f =
     (if index = 0 then Some f
      else if index < length (of_heap f) then
        if fr_rank (of_heap f ! heap_parent index) \<le> fr_rank (of_heap f ! index) then Some f
        else Option.bind (swap_heap index (heap_parent index) f) (\<lambda>f'. of_sift_up (heap_parent index) f')
      else None)"
  by pat_completeness auto
termination
  by (relation "measure (\<lambda>(index, f). index)") (auto simp: heap_parent_def)

function of_sift_down :: "nat \<Rightarrow> owner_frontier \<Rightarrow> owner_frontier option" where
  "of_sift_down index f =
     (if length (of_heap f) \<le> 2 * index + 1 then Some f
      else let child = smaller_child fr_rank index (of_heap f) in
        if fr_rank (of_heap f ! index) \<le> fr_rank (of_heap f ! child) then Some f
        else Option.bind (swap_heap index child f) (\<lambda>f'. of_sift_down child f'))"
  by pat_completeness auto
termination
  by (relation "measure (\<lambda>(index, f). length (of_heap f) - index)")
    (auto simp: smaller_child_def Let_def dest!: swap_heap_length)

declare of_sift_up.simps [simp del]
declare of_sift_down.simps [simp del]

definition restore_heap_at :: "nat \<Rightarrow> owner_frontier \<Rightarrow> owner_frontier option" where
  "restore_heap_at index f =
     (if index \<noteq> 0 \<and> length (of_heap f) \<le> index then None
      else if index \<noteq> 0 \<and> fr_rank (of_heap f ! index) < fr_rank (of_heap f ! heap_parent index)
      then of_sift_up index f else of_sift_down index f)"

definition remove_at :: "nat \<Rightarrow> owner_frontier \<Rightarrow> (frontier_entry \<times> owner_frontier) option" where
  "remove_at index f =
     (if index < length (of_heap f) then
        let removed = of_heap f ! index;
            last_entry = last (of_heap f);
            heap = butlast (of_heap f)
        in Option.bind (store_at (fr_owner_slot removed) False (of_active f)) (\<lambda>active.
           Option.bind (set_index (fr_owner_slot removed) no_index_slot (f\<lparr>of_heap := heap, of_active := active\<rparr>))
             (\<lambda>f1.
           if index < length heap then
             Option.bind (set_index (fr_owner_slot last_entry) index (f1\<lparr>of_heap := heap[index := last_entry]\<rparr>))
               (\<lambda>f2. map_option (\<lambda>f3. (removed, f3)) (restore_heap_at index f2))
           else Some (removed, f1)))
      else None)"

definition of_update ::
  "nat \<Rightarrow> node_id \<Rightarrow> event_key option \<Rightarrow> owner_frontier \<Rightarrow> (execution_error + owner_frontier) option" where
  "of_update owner_slot node next_key f =
     (if length (of_next_time_ns f) \<le> owner_slot then Some (Inl (UnknownNode node))
      else if owner_slot < length (of_active f) \<and> owner_slot < length (of_index_slot f) then
        map_option Inr
          (case (of_active f ! owner_slot, next_key) of
             (True, Some key) \<Rightarrow>
               (let index = of_index_slot f ! owner_slot;
                    entry = \<lparr>fr_time_ns = key_time_ns key, fr_node = node, fr_owner_slot = owner_slot\<rparr>
                in Option.bind (store_at index entry (of_heap f)) (\<lambda>heap.
                   restore_heap_at index (f\<lparr>of_heap := heap,
                     of_next_time_ns := (of_next_time_ns f)[owner_slot := key_time_ns key]\<rparr>)))
           | (True, None) \<Rightarrow> map_option snd (remove_at (of_index_slot f ! owner_slot) f)
           | (False, Some key) \<Rightarrow>
               (let index = length (of_heap f);
                    entry = \<lparr>fr_time_ns = key_time_ns key, fr_node = node, fr_owner_slot = owner_slot\<rparr>
                in of_sift_up index (f\<lparr>of_heap := of_heap f @ [entry],
                     of_next_time_ns := (of_next_time_ns f)[owner_slot := key_time_ns key],
                     of_active := (of_active f)[owner_slot := True],
                     of_index_slot := (of_index_slot f)[owner_slot := index]\<rparr>))
           | (False, None) \<Rightarrow> Some f)
      else None)"

definition of_peek_min :: "owner_frontier \<Rightarrow> frontier_entry option" where
  "of_peek_min f = (case of_heap f of [] \<Rightarrow> None | entry # _ \<Rightarrow> Some entry)"

definition of_pop_before :: "u128 \<Rightarrow> owner_frontier \<Rightarrow> (frontier_entry option \<times> owner_frontier) option" where
  "of_pop_before exclusive_horizon_ns f =
     (case of_peek_min f of
        None \<Rightarrow> Some (None, f)
      | Some entry \<Rightarrow>
          if exclusive_horizon_ns \<le> u64_to_u128 (fr_time_ns entry) then Some (None, f)
          else map_option (map_prod Some id) (remove_at 0 f))"


text \<open>\<open>while let Some(entry) = frontier.pop_before(..) { active.push(entry) }\<close>: the outer option is \<open>None\<close>
  when the loop does not return, the inner one when it panics.\<close>

partial_function (option) collect_due ::
  "('s \<Rightarrow> ('e option \<times> 's) option) \<Rightarrow> 's \<Rightarrow> ('e list \<times> 's) option option" where
  "collect_due pop f =
     (case pop f of
        None \<Rightarrow> Some None
      | Some (None, f') \<Rightarrow> Some (Some ([], f'))
      | Some (Some entry, f') \<Rightarrow>
          Option.bind (collect_due pop f') (\<lambda>r. Some (map_option (\<lambda>(entries, f''). (entry # entries, f'')) r)))"

declare collect_due.simps [code]

subsection \<open>The interface\<close>

text \<open>
  The frontier itself is the partial map from process to time; with the node of each process it has
  one least entry, in the order of time and node.
\<close>

definition frontier_least :: "(nat \<Rightarrow> node_id) \<Rightarrow> nat \<Rightarrow> (nat \<rightharpoonup> u64) \<Rightarrow> frontier_answer" where
  "frontier_least node n m =
     (case filter (\<lambda>s. m s \<noteq> None) [0..<n] of
        [] \<Rightarrow> None
      | live \<Rightarrow> (let s = arg_min_list (\<lambda>s. (the (m s), node s)) live in Some (the (m s), node s, s)))"

fun frontier_spec :: "(nat \<Rightarrow> node_id) \<Rightarrow> nat \<Rightarrow> frontier_op \<Rightarrow> (nat \<rightharpoonup> u64) \<Rightarrow> frontier_answer \<times> (nat \<rightharpoonup> u64)" where
  "frontier_spec node n (UpdateFrontier s k) m = (None, m(s := map_option key_time_ns k))"
| "frontier_spec node n PeekMin m = (frontier_least node n m, m)"
| "frontier_spec node n (PopBefore h) m =
     (case frontier_least node n m of
        None \<Rightarrow> (None, m)
      | Some (t, nd, s) \<Rightarrow> if h \<le> u64_to_u128 t then (None, m) else (Some (t, nd, s), m(s := None)))"

fun frontier_op_ok :: "nat \<Rightarrow> frontier_op \<Rightarrow> bool" where
  "frontier_op_ok n (UpdateFrontier s _) \<longleftrightarrow> s < n"
| "frontier_op_ok n _ \<longleftrightarrow> True"

fun frontier_run ::
  "(frontier_op \<Rightarrow> 's \<Rightarrow> (execution_error + frontier_answer \<times> 's) option) \<Rightarrow> frontier_op list \<Rightarrow> 's \<Rightarrow>
     (execution_error + frontier_answer list) option" where
  "frontier_run step [] s = Some (Inr [])"
| "frontier_run step (op # ops) s =
     (case step op s of
        None \<Rightarrow> None
      | Some (Inl e) \<Rightarrow> Some (Inl e)
      | Some (Inr (a, s')) \<Rightarrow> map_option (map_sum id (Cons a)) (frontier_run step ops s'))"

fun frontier_answers :: "(nat \<Rightarrow> node_id) \<Rightarrow> nat \<Rightarrow> frontier_op list \<Rightarrow> (nat \<rightharpoonup> u64) \<Rightarrow> frontier_answer list" where
  "frontier_answers node n [] m = []"
| "frontier_answers node n (op # ops) m =
     fst (frontier_spec node n op m) # frontier_answers node n ops (snd (frontier_spec node n op m))"

lemma frontier_least_None: "(\<And>s. s < n \<Longrightarrow> m s = None) \<Longrightarrow> frontier_least node n m = None"
proof -
  assume "\<And>s. s < n \<Longrightarrow> m s = None"
  then have "filter (\<lambda>s. m s \<noteq> None) [0..<n] = []" by (simp add: filter_empty_conv)
  then show ?thesis by (simp add: frontier_least_def)
qed

lemma frontier_leastI:
  assumes inj: "inj_on node {..<n}" and s: "s < n" "m s = Some t"
    and le: "\<And>s' t'. s' < n \<Longrightarrow> m s' = Some t' \<Longrightarrow> (t, node s) \<le> (t', node s')"
  shows "frontier_least node n m = Some (t, node s, s)"
proof -
  let ?live = "filter (\<lambda>s. m s \<noteq> None) [0..<n]" and ?f = "\<lambda>s. (the (m s), node s)"
  have ne: "?live \<noteq> []" using s by (auto simp: filter_empty_conv)
  let ?a = "arg_min_list ?f ?live"
  have a: "?a < n" "m ?a \<noteq> None" using arg_min_list_in [OF ne, of ?f] by auto
  then obtain u where u: "m ?a = Some u" by blast
  have "Min (?f ` set ?live) \<le> ?f s" by (intro Min_le imageI finite_imageI) (use s in auto)
  then have "?f ?a \<le> ?f s" using f_arg_min_list_f [OF ne, of ?f] by metis
  moreover have "?f s \<le> ?f ?a" using le [OF a(1) u] s u by simp
  ultimately have "?f ?a = ?f s" by (rule order_antisym)
  then have "?a = s" using inj a(1) s(1) by (auto dest: inj_onD)
  then show ?thesis using ne s by (auto simp: frontier_least_def Let_def split: list.split)
qed

locale frontier_index =
  fixes node :: "nat \<Rightarrow> node_id"
    and n :: nat
    and step :: "frontier_op \<Rightarrow> 's \<Rightarrow> (execution_error + frontier_answer \<times> 's) option"
    and rel :: "'s \<Rightarrow> nat \<Rightarrow> (nat \<rightharpoonup> u64) \<Rightarrow> bool"
    and new_index :: 's
  assumes rel_new: "inj_on node {..<n} \<Longrightarrow> rel new_index 0 Map.empty"
    and rel_step: "rel s k m \<Longrightarrow> Suc k < 2 ^ 64 \<Longrightarrow> frontier_op_ok n op \<Longrightarrow>
      \<exists>s'. step op s = Some (Inr (fst (frontier_spec node n op m), s'))
        \<and> rel s' (Suc k) (snd (frontier_spec node n op m))"
begin

lemma run_from:
  assumes "rel s k m" "k + length ops < 2 ^ 64" "list_all (frontier_op_ok n) ops"
  shows "frontier_run step ops s = Some (Inr (frontier_answers node n ops m))"
  using assms
proof (induction ops arbitrary: s k m)
  case (Cons op ops)
  then obtain s' where "step op s = Some (Inr (fst (frontier_spec node n op m), s'))"
    "rel s' (Suc k) (snd (frontier_spec node n op m))"
    using rel_step [of s k m op] by auto
  with Cons show ?case by simp
qed simp

lemma history:
  assumes "inj_on node {..<n}" "length ops < 2 ^ 64" "list_all (frontier_op_ok n) ops"
  shows "frontier_run step ops new_index = Some (Inr (frontier_answers node n ops Map.empty))"
  using run_from [OF rel_new [OF assms(1)]] assms(2,3) by simp

end

subsection \<open>The lazy index implements it\<close>

definition le_answer :: "lazy_entry \<Rightarrow> u64 \<times> node_id \<times> nat" where
  "le_answer e = (le_time_ns e, le_node e, le_lp_slot e)"

fun lf_step :: "(nat \<Rightarrow> node_id) \<Rightarrow> frontier_op \<Rightarrow> lazy_frontier \<Rightarrow> (execution_error + frontier_answer \<times> lazy_frontier) option" where
  "lf_step node (UpdateFrontier s k) f = map_option (map_sum id (Pair None)) (lf_update s (node s) k f)"
| "lf_step node PeekMin f = map_option (\<lambda>(e, f'). Inr (map_option le_answer e, f')) (lf_peek_min f)"
| "lf_step node (PopBefore h) f = map_option (\<lambda>(e, f'). Inr (map_option le_answer e, f')) (lf_pop_before h f)"

definition lf_live :: "lazy_frontier \<Rightarrow> lazy_entry \<Rightarrow> bool" where
  "lf_live f e \<longleftrightarrow> e \<in> set (lf_heap f) \<and> lf_generations f ! le_lp_slot e = le_generation e"

definition lf_rel :: "(nat \<Rightarrow> node_id) \<Rightarrow> nat \<Rightarrow> lazy_frontier \<Rightarrow> nat \<Rightarrow> (nat \<rightharpoonup> u64) \<Rightarrow> bool" where
  "lf_rel node n f k m \<longleftrightarrow> inj_on node {..<n} \<and> length (lf_generations f) = n \<and> distinct (lf_heap f)
     \<and> (\<forall>s<n. unat (lf_generations f ! s) \<le> k)
     \<and> (\<forall>e\<in>set (lf_heap f). le_lp_slot e < n \<and> le_node e = node (le_lp_slot e)
          \<and> le_generation e \<le> lf_generations f ! le_lp_slot e)
     \<and> (\<forall>s t. m s = Some t \<longleftrightarrow> (\<exists>e. lf_live f e \<and> le_lp_slot e = s \<and> le_time_ns e = t))"

lemma lf_relD:
  assumes "lf_rel node n f k m"
  shows "inj_on node {..<n}" "length (lf_generations f) = n" "distinct (lf_heap f)"
    "\<And>s. s < n \<Longrightarrow> unat (lf_generations f ! s) \<le> k"
    "\<And>e. e \<in> set (lf_heap f) \<Longrightarrow> le_lp_slot e < n" "\<And>e. e \<in> set (lf_heap f) \<Longrightarrow> le_node e = node (le_lp_slot e)"
    "\<And>e. e \<in> set (lf_heap f) \<Longrightarrow> le_generation e \<le> lf_generations f ! le_lp_slot e"
    "\<And>s t. m s = Some t \<longleftrightarrow> (\<exists>e. lf_live f e \<and> le_lp_slot e = s \<and> le_time_ns e = t)"
  using assms unfolding lf_rel_def by blast+


lemma lf_relI:
  assumes "inj_on node {..<n}" "length (lf_generations f) = n" "distinct (lf_heap f)"
    "\<And>s. s < n \<Longrightarrow> unat (lf_generations f ! s) \<le> k"
    "\<And>e. e \<in> set (lf_heap f) \<Longrightarrow> le_lp_slot e < n \<and> le_node e = node (le_lp_slot e)
       \<and> le_generation e \<le> lf_generations f ! le_lp_slot e"
    "\<And>s t. m s = Some t \<longleftrightarrow> (\<exists>e. lf_live f e \<and> le_lp_slot e = s \<and> le_time_ns e = t)"
  shows "lf_rel node n f k m"
  using assms unfolding lf_rel_def by blast

lemma lf_rel_later: "lf_rel node n f k m \<Longrightarrow> lf_rel node n f (Suc k) m"
  unfolding lf_rel_def by (auto intro: le_SucI)

text \<open>Taking an entry out: a stale one leaves the frontier as it is, a live one removes its process.\<close>

lemma lf_rel_remove:
  assumes r: "lf_rel node n f k m" and e: "e \<in> set (lf_heap f)"
  shows "lf_rel node n (f\<lparr>lf_heap := remove1 e (lf_heap f)\<rparr>) k (if lf_live f e then m(le_lp_slot e := None) else m)"
proof -
  note d = lf_relD [OF r]
  let ?f = "f\<lparr>lf_heap := remove1 e (lf_heap f)\<rparr>"
  have live: "lf_live ?f x \<longleftrightarrow> lf_live f x \<and> x \<noteq> e" for x
    using d(3) by (auto simp: lf_live_def)
  have same: "x = e" if "lf_live f x" "lf_live f e" "le_lp_slot x = le_lp_slot e" for x
  proof -
    have "m (le_lp_slot e) = Some (le_time_ns x)" "m (le_lp_slot e) = Some (le_time_ns e)" using d(8) that by blast+
    then show ?thesis using that d(6) by (intro lazy_entry.equality) (auto simp: lf_live_def)
  qed
  show ?thesis
  proof (rule lf_relI)
    show "(if lf_live f e then m(le_lp_slot e := None) else m) s = Some t \<longleftrightarrow>
        (\<exists>x. lf_live ?f x \<and> le_lp_slot x = s \<and> le_time_ns x = t)" for s t
      using d(8) [of s t] same unfolding live by (auto split: if_splits)
    show "le_lp_slot x < n \<and> le_node x = node (le_lp_slot x) \<and> le_generation x \<le> lf_generations ?f ! le_lp_slot x"
      if "x \<in> set (lf_heap ?f)" for x using that d(5-7) by (auto dest: notin_set_remove1 set_remove1_subset [THEN subsetD])
  qed (use d(1-4) in simp_all)
qed

lemma least_entry_None: "least_entry es = None \<longleftrightarrow> es = []"
  by (cases es) (auto split: option.split)

lemma least_entry_le: "least_entry es = Some e \<Longrightarrow> x \<in> set es \<Longrightarrow> le_rank e \<le> le_rank x"
  by (induction es arbitrary: e x) (auto split: option.splits if_splits simp: least_entry_None not_le dest: less_imp_le intro: order_trans)

lemma lf_least:
  assumes r: "lf_rel node n f k m" and e: "least_entry (lf_heap f) = Some e" "lf_live f e"
  shows "frontier_least node n m = Some (le_answer e)"
proof -
  note d = lf_relD [OF r]
  have in_heap: "e \<in> set (lf_heap f)" by (rule least_entry_in [OF e(1)])
  have "m (le_lp_slot e) = Some (le_time_ns e)" using d(8) e(2) by blast
  moreover have "(le_time_ns e, node (le_lp_slot e)) \<le> (t', node s')" if s': "s' < n" "m s' = Some t'" for s' t'
  proof -
    obtain x where x: "lf_live f x" "le_lp_slot x = s'" "le_time_ns x = t'" using d(8) s'(2) by blast
    then have "le_rank e \<le> le_rank x" using least_entry_le [OF e(1)] by (simp add: lf_live_def)
    then show ?thesis using x d(6) [OF in_heap] d(6) [of x] by (auto simp: le_rank_def lf_live_def)
  qed
  ultimately have "frontier_least node n m = Some (le_time_ns e, node (le_lp_slot e), le_lp_slot e)"
    using d(1,5) in_heap by (intro frontier_leastI) auto
  then show ?thesis using d(6) [OF in_heap] by (simp add: le_answer_def)
qed

lemma lf_peek_min_spec:
  assumes "lf_rel node n f k m"
  obtains found f' where "lf_peek_min f = Some (found, f')" "lf_rel node n f' k m"
    "map_option le_answer found = frontier_least node n m" "least_entry (lf_heap f') = found"
    "\<And>e. found = Some e \<Longrightarrow> lf_live f' e"
  using assms
proof (induction f arbitrary: thesis rule: lf_peek_min.induct)
  case (1 f)
  note d = lf_relD [OF 1(3)]
  show ?case
  proof (cases "least_entry (lf_heap f)")
    case None
    then have "lf_heap f = []" by (simp add: least_entry_None)
    then have "m s = None" for s using d(8) [of s] by (cases "m s") (auto simp: lf_live_def)
    then have "frontier_least node n m = None" by (rule frontier_least_None)
    then show ?thesis using 1(2) [of None f] 1(3) None by (simp add: lf_peek_min.simps [of f])
  next
    case (Some e)
    have e: "e \<in> set (lf_heap f)" by (rule least_entry_in [OF Some])
    show ?thesis
    proof (cases "lf_live f e")
      case True
      then show ?thesis
        using 1(2) [of "Some e" f] 1(3) Some lf_least [OF 1(3) Some True] d(2) d(5) [OF e]
        by (simp add: lf_peek_min.simps [of f] lf_live_def)
    next
      case False
      then have g: "lf_generations f ! le_lp_slot e \<noteq> le_generation e" using e by (simp add: lf_live_def)
      have l: "le_lp_slot e < length (lf_generations f)" using d(2,5) e by simp
      have "lf_rel node n (f\<lparr>lf_heap := remove1 e (lf_heap f)\<rparr>) k m" using lf_rel_remove [OF 1(3) e] False by simp
      from 1(1) [OF Some l g _ this] obtain found f' where
        "lf_peek_min (f\<lparr>lf_heap := remove1 e (lf_heap f)\<rparr>) = Some (found, f')" "lf_rel node n f' k m"
        "map_option le_answer found = frontier_least node n m" "least_entry (lf_heap f') = found"
        "\<And>e. found = Some e \<Longrightarrow> lf_live f' e" by blast
      then show ?thesis using 1(2) [of found f'] Some g l by (simp add: lf_peek_min.simps [of f])
    qed
  qed
qed


lemma lf_update_rel:
  assumes r: "lf_rel node n f k m" and s: "s < n" and up: "lf_update s (node s) next_key f = Some (Inr f')"
  shows "lf_rel node n f' (Suc k) (m(s := map_option key_time_ns next_key))"
proof -
  note d = lf_relD [OF r]
  let ?g = "lf_generations f ! s"
  obtain g where g: "checked_add ?g 1 = Some g" using up s d(2) by (auto simp: lf_update_def result_simps)
  then have c: "checked_add ?g 1 = Some (?g + 1)" by (simp add: checked_add_def split: if_splits)
  then have u: "unat (?g + 1) = Suc (unat ?g)" unfolding checked_add_Some_iff by simp
  define new where "new key = \<lparr>le_time_ns = key_time_ns key, le_node = node s, le_generation = ?g + 1, le_lp_slot = s\<rparr>" for key :: event_key
  have new: "le_time_ns (new key) = key_time_ns key" "le_node (new key) = node s" "le_generation (new key) = ?g + 1"
    "le_lp_slot (new key) = s" for key by (simp_all add: new_def)
  let ?f = "f\<lparr>lf_generations := (lf_generations f)[s := ?g + 1],
    lf_heap := (case next_key of None \<Rightarrow> lf_heap f | Some key \<Rightarrow> new key # lf_heap f)\<rparr>"
  have grow: "?g < ?g + 1" using u by (simp add: word_less_nat_alt)
  have old: "le_generation e \<noteq> ?g + 1" if "e \<in> set (lf_heap f)" "le_lp_slot e = s" for e
    using d(7) [OF that(1)] that(2) grow by auto
  have fresh: "new key \<notin> set (lf_heap f)" for key using old [of "new key"] new by blast
  have heap: "e \<in> set (lf_heap ?f) \<longleftrightarrow> e \<in> set (lf_heap f) \<or> (\<exists>key. next_key = Some key \<and> e = new key)" for e
    by (auto split: option.split)
  have live: "lf_live ?f e \<longleftrightarrow> lf_live f e \<and> le_lp_slot e \<noteq> s \<or> (\<exists>key. next_key = Some key \<and> e = new key)" for e
    unfolding lf_live_def heap using old [of e] d(2) s new fresh by (cases "le_lp_slot e = s") auto
  have "lf_rel node n ?f (Suc k) (m(s := map_option key_time_ns next_key))"
  proof (rule lf_relI)
    show "distinct (lf_heap ?f)" using d(3) fresh by (simp split: option.split)
    show "unat (lf_generations ?f ! x) \<le> Suc k" if "x < n" for x
      using d(4) [OF that] d(4) [OF s] u d(2) that by (cases "x = s") simp_all
    show "le_lp_slot e < n \<and> le_node e = node (le_lp_slot e) \<and> le_generation e \<le> lf_generations ?f ! le_lp_slot e"
      if "e \<in> set (lf_heap ?f)" for e
    proof (cases "e \<in> set (lf_heap f)")
      case True
      then show ?thesis using d(2) d(5-7) [OF True] grow by (cases "le_lp_slot e = s") auto
    next
      case False
      then show ?thesis using that s d(2) unfolding heap by (auto simp: new)
    qed
    show "(m(s := map_option key_time_ns next_key)) x = Some t \<longleftrightarrow> (\<exists>e. lf_live ?f e \<and> le_lp_slot e = x \<and> le_time_ns e = t)" for x t
      using d(8) [of x t] new unfolding live by (cases "x = s") auto
  qed (use d(1,2) in simp_all)
  moreover have "lf_update s (node s) next_key f = Some (Inr ?f)"
    using s d(2) c by (cases next_key) (simp_all add: lf_update_def new_def)
  ultimately show ?thesis using up by simp
qed

lemma lf_update_spec:
  assumes r: "lf_rel node n f k m" and k: "Suc k < 2 ^ 64" and s: "s < n"
  shows "\<exists>f'. lf_update s (node s) next_key f = Some (Inr f') \<and> lf_rel node n f' (Suc k) (m(s := map_option key_time_ns next_key))"
proof -
  note d = lf_relD [OF r]
  have "checked_add (lf_generations f ! s) 1 \<noteq> None"
    using d(4) [OF s] k by (simp add: checked_add_def)
  then obtain f' where "lf_update s (node s) next_key f = Some (Inr f')"
    using s d(2) by (auto simp: lf_update_def)
  with lf_update_rel [OF r s this] show ?thesis by blast
qed


lemma lf_pop_before_spec:
  assumes r: "lf_rel node n f k m"
  shows "\<exists>found f'. lf_pop_before h f = Some (found, f')
    \<and> fst (frontier_spec node n (PopBefore h) m) = map_option le_answer found
    \<and> lf_rel node n f' k (snd (frontier_spec node n (PopBefore h) m))"
proof -
  obtain found f' where p: "lf_peek_min f = Some (found, f')" "lf_rel node n f' k m"
    "map_option le_answer found = frontier_least node n m" "least_entry (lf_heap f') = found"
    "\<And>e. found = Some e \<Longrightarrow> lf_live f' e"
    using lf_peek_min_spec [OF r] by blast
  show ?thesis
  proof (cases found)
    case None
    then show ?thesis using p by (auto simp: lf_pop_before_def)
  next
    case (Some e)
    then have l: "frontier_least node n m = Some (le_answer e)" and e: "e \<in> set (lf_heap f')" "lf_live f' e"
      using p(3,4) p(5) [of e] by (auto simp: lf_live_def)
    show ?thesis
      using p(1,2,4) Some l lf_rel_remove [OF p(2) e(1)] e(2) by (auto simp: lf_pop_before_def le_answer_def)
  qed
qed

interpretation lazy: frontier_index node n "lf_step node" "lf_rel node n" "lf_new n" for node n
proof unfold_locales
  show "lf_rel node n (lf_new n) 0 Map.empty" if "inj_on node {..<n}" for node n
    using that by (simp add: lf_rel_def lf_new_def lf_live_def)
  show "\<exists>s'. lf_step node op s = Some (Inr (fst (frontier_spec node n op m), s'))
      \<and> lf_rel node n s' (Suc k) (snd (frontier_spec node n op m))"
    if "lf_rel node n s k m" "Suc k < 2 ^ 64" "frontier_op_ok n op" for node n s k m op
  proof (cases op)
    case (UpdateFrontier slot next_key)
    then show ?thesis using lf_update_spec [OF that(1,2), of slot next_key] that(3) by auto
  next
    case PeekMin
    then show ?thesis using lf_peek_min_spec [OF lf_rel_later [OF that(1)]] by auto metis
  next
    case (PopBefore h)
    then show ?thesis using lf_pop_before_spec [OF lf_rel_later [OF that(1)], of h] by auto
  qed
qed


subsection \<open>Taking every due process\<close>

lemma frontier_least_Some:
  assumes "frontier_least node n m = Some (t, nd, s)"
  shows "s < n" "m s = Some t" "nd = node s" "\<And>s' t'. s' < n \<Longrightarrow> m s' = Some t' \<Longrightarrow> t \<le> t'"
proof -
  let ?live = "filter (\<lambda>s. m s \<noteq> None) [0..<n]" and ?f = "\<lambda>s. (the (m s), node s)"
  have ne: "?live \<noteq> []" and a: "s = arg_min_list ?f ?live" and v: "t = the (m s)" "nd = node s"
    using assms by (auto simp: frontier_least_def Let_def split: list.splits)
  have "s \<in> set ?live" unfolding a by (rule arg_min_list_in [OF ne])
  then show "s < n" "m s = Some t" "nd = node s" using v by auto
  show "t \<le> t'" if "s' < n" "m s' = Some t'" for s' t'
  proof -
    have "Min (?f ` set ?live) \<le> ?f s'" by (intro Min_le imageI finite_imageI) (use that in auto)
    then have "?f s \<le> ?f s'" using f_arg_min_list_f [OF ne, of ?f] a by metis
    then show ?thesis using v that by auto
  qed
qed

lemma frontier_least_NoneD: "frontier_least node n m = None \<Longrightarrow> s < n \<Longrightarrow> m s = None"
  by (auto simp: frontier_least_def Let_def filter_empty_conv split: list.splits)

lemma u64_to_u128_le_iff: "u64_to_u128 a \<le> u64_to_u128 b \<longleftrightarrow> a \<le> b"
  by (simp add: word_le_nat_alt unat_u64_to_u128)

lemma collect_due_returns:
  assumes "\<And>f e f'. pop f = Some (Some e, f') \<Longrightarrow> \<mu> f' < (\<mu> f :: nat)"
  shows "collect_due pop f \<noteq> None"
proof (induction "\<mu> f" arbitrary: f rule: less_induct)
  case less
  have "collect_due pop f' \<noteq> None" if "pop f = Some (Some e, f')" for e f'
    using less assms [OF that] by blast
  then show ?case by (subst collect_due.simps) (auto split: option.split)
qed

lemma lf_peek_shorter: "lf_peek_min f = Some (found, f') \<Longrightarrow> length (lf_heap f') \<le> length (lf_heap f)"
proof (induction f rule: lf_peek_min.induct)
  case (1 f)
  note ih = 1(1) and run = 1(2) [unfolded lf_peek_min.simps [of f]]
  show ?case using run ih by (force split: option.splits if_splits simp: length_remove1)
qed

lemma lf_pop_shorter:
  assumes "lf_pop_before h f = Some (Some e, f')"
  shows "length (lf_heap f') < length (lf_heap f)"
proof -
  obtain x f1 where p: "lf_peek_min f = Some (Some x, f1)"
    and e: "least_entry (lf_heap f1) = Some e" "f' = f1\<lparr>lf_heap := remove1 e (lf_heap f1)\<rparr>"
    using assms by (auto simp: lf_pop_before_def split: bind_splits option.splits if_splits)
  have "e \<in> set (lf_heap f1)" by (rule least_entry_in [OF e(1)])
  then have "length (remove1 e (lf_heap f1)) < length (lf_heap f1)"
    by (simp add: length_remove1) (metis diff_Suc_less length_pos_if_in_set One_nat_def)
  then show ?thesis using lf_peek_shorter [OF p] e(2) by simp
qed

text \<open>The processes due below a horizon; the loop takes each of them once and leaves the others.\<close>

definition due_slots :: "u128 \<Rightarrow> (nat \<rightharpoonup> u64) \<Rightarrow> nat set" where
  "due_slots h m = {s. \<exists>t. m s = Some t \<and> u64_to_u128 t < h}"

lemma lf_rel_dom: "lf_rel node n f k m \<Longrightarrow> m s = Some t \<Longrightarrow> s < n"
  using lf_relD(5,8) by (fastforce simp: lf_live_def)

lemma collect_due_lazy:
  assumes "lf_rel node n f k m"
  shows "\<exists>entries f'. collect_due (lf_pop_before h) f = Some (Some (entries, f'))
    \<and> lf_rel node n f' k (m |` (- due_slots h m)) \<and> distinct (map le_lp_slot entries)
    \<and> le_lp_slot ` set entries = due_slots h m"
  using assms
proof (induction "length (lf_heap f)" arbitrary: f m rule: less_induct)
  case less
  obtain found f' where p: "lf_pop_before h f = Some (found, f')"
    "fst (frontier_spec node n (PopBefore h) m) = map_option le_answer found"
    "lf_rel node n f' k (snd (frontier_spec node n (PopBefore h) m))"
    using lf_pop_before_spec [OF less.prems, of h] by blast
  show ?case
  proof (cases found)
    case None
    have "h \<le> u64_to_u128 t" if mt: "m s = Some t" for s t
    proof (cases "frontier_least node n m")
      case None
      then show ?thesis using frontier_least_NoneD [OF None lf_rel_dom [OF less.prems mt]] mt by simp
    next
      case (Some a)
      obtain t0 s0 where a: "frontier_least node n m = Some (t0, node s0, s0)"
        using Some frontier_least_Some(3) [of node n m] by (cases a) auto
      then have "h \<le> u64_to_u128 t0" using p(2) \<open>found = None\<close> by (simp split: if_splits)
      then show ?thesis
        using frontier_least_Some(4) [OF a lf_rel_dom [OF less.prems mt] mt] u64_to_u128_le_iff [of t0 t] by simp
    qed
    then have e: "due_slots h m = {}" by (force simp: due_slots_def not_less [symmetric])
    have "snd (frontier_spec node n (PopBefore h) m) = m"
      using p(2) None by (simp split: option.splits prod.splits if_splits)
    then show ?thesis using p(1,3) None e by (subst collect_due.simps) (simp add: restrict_map_def)
  next
    case (Some e)
    obtain t nd s where l: "frontier_least node n m = Some (t, nd, s)"
      using p(2) Some by (cases "frontier_least node n m") auto
    have t: "m s = Some t" "u64_to_u128 t < h" and s: "le_lp_slot e = s"
      and m': "snd (frontier_spec node n (PopBefore h) m) = m(s := None)"
      using p(2) Some l frontier_least_Some(2) [OF l] by (simp_all add: le_answer_def not_le split: if_splits)
    have short: "length (lf_heap f') < length (lf_heap f)" using p(1) Some lf_pop_shorter by blast
    obtain entries f'' where c: "collect_due (lf_pop_before h) f' = Some (Some (entries, f''))"
      "lf_rel node n f'' k (m(s := None) |` (- due_slots h (m(s := None))))" "distinct (map le_lp_slot entries)"
      "le_lp_slot ` set entries = due_slots h (m(s := None))"
      using less.hyps [OF short p(3) [unfolded m']] by blast
    have d: "due_slots h m = insert s (due_slots h (m(s := None)))" "s \<notin> due_slots h (m(s := None))"
      using t by (auto simp: due_slots_def)
    have "m(s := None) |` (- due_slots h (m(s := None))) = m |` (- due_slots h m)"
      by (rule ext) (auto simp: d restrict_map_def)
    then show ?thesis using c d s p(1) Some by (subst collect_due.simps) simp
  qed
qed

subsection \<open>The array heap implements it\<close>

definition fr_answer :: "frontier_entry \<Rightarrow> u64 \<times> node_id \<times> nat" where
  "fr_answer e = (fr_time_ns e, fr_node e, fr_owner_slot e)"

fun of_step :: "(nat \<Rightarrow> node_id) \<Rightarrow> frontier_op \<Rightarrow> owner_frontier \<Rightarrow> (execution_error + frontier_answer \<times> owner_frontier) option" where
  "of_step node (UpdateFrontier s k) f = map_option (map_sum id (Pair None)) (of_update s (node s) k f)"
| "of_step node PeekMin f = Some (Inr (map_option fr_answer (of_peek_min f), f))"
| "of_step node (PopBefore h) f = map_option (\<lambda>(e, f'). Inr (map_option fr_answer e, f')) (of_pop_before h f)"

text \<open>Every entry of the heap knows its process, and the process its position.\<close>

definition indexed :: "owner_frontier \<Rightarrow> bool" where
  "indexed f \<longleftrightarrow> (\<forall>i<length (of_heap f). fr_owner_slot (of_heap f ! i) < length (of_index_slot f)
     \<and> of_index_slot f ! fr_owner_slot (of_heap f ! i) = i)"

definition same_tables :: "owner_frontier \<Rightarrow> owner_frontier \<Rightarrow> bool" where
  "same_tables f f' \<longleftrightarrow> of_next_time_ns f' = of_next_time_ns f \<and> of_active f' = of_active f
     \<and> length (of_index_slot f') = length (of_index_slot f)"

lemma indexedD:
  assumes "indexed f" "i < length (of_heap f)"
  shows "fr_owner_slot (of_heap f ! i) < length (of_index_slot f)" "of_index_slot f ! fr_owner_slot (of_heap f ! i) = i"
  using assms by (simp_all add: indexed_def)

lemma indexed_inj:
  "indexed f \<Longrightarrow> i < length (of_heap f) \<Longrightarrow> j < length (of_heap f) \<Longrightarrow>
     fr_owner_slot (of_heap f ! i) = fr_owner_slot (of_heap f ! j) \<Longrightarrow> i = j"
  unfolding indexed_def by metis

lemma same_tables_trans: "same_tables f g \<Longrightarrow> same_tables g h \<Longrightarrow> same_tables f h"
  by (simp add: same_tables_def)

lemma swap_heap_spec:
  assumes x: "indexed f" and ij: "i < length (of_heap f)" "j < length (of_heap f)"
  obtains f' where "swap_heap i j f = Some f'" "of_heap f' = swap_at i j (of_heap f)" "indexed f'" "same_tables f f'"
proof -
  let ?h = "swap_at i j (of_heap f)" and ?slot = "\<lambda>k. fr_owner_slot (of_heap f ! k)"
  let ?f' = "f\<lparr>of_heap := ?h, of_index_slot := (of_index_slot f)[?slot j := i, ?slot i := j]\<rparr>"
  note nth = swap_at_nth [OF ij] and s = indexedD [OF x]
  have hi: "fr_owner_slot (?h ! i) = ?slot j" and hj: "fr_owner_slot (?h ! j) = ?slot i" by (simp_all add: nth)
  have "swap_heap i j f = Some ?f'"
    using ij s(1) hi hj by (simp add: swap_heap_def set_index_def store_at_def Let_def)
  moreover have "indexed ?f'"
    unfolding indexed_def
  proof (intro allI impI)
    fix k assume "k < length (of_heap ?f')"
    then have k: "k < length (of_heap f)" by simp
    have d: "?slot k = ?slot l \<longleftrightarrow> k = l" if "l < length (of_heap f)" for l
      using indexed_inj [OF x k that] by blast
    have "?slot i = ?slot j \<longleftrightarrow> i = j" using indexed_inj [OF x ij] by blast
    then show "fr_owner_slot (of_heap ?f' ! k) < length (of_index_slot ?f')
        \<and> of_index_slot ?f' ! fr_owner_slot (of_heap ?f' ! k) = k"
      using s [OF k] s(1) [OF ij(1)] s(1) [OF ij(2)] d [OF ij(1)] d [OF ij(2)] by (auto simp: nth nth_list_update)
  qed
  ultimately show thesis using that [of ?f'] by (simp add: same_tables_def)
qed

lemma of_sift_up_spec:
  "indexed f \<Longrightarrow> i < length (of_heap f) \<Longrightarrow>
     \<exists>f'. of_sift_up i f = Some f' \<and> of_heap f' = sift_up fr_rank i (of_heap f) \<and> indexed f' \<and> same_tables f f'"
proof (induction i f rule: of_sift_up.induct)
  case (1 i f)
  show ?case
  proof (cases "i = 0 \<or> fr_rank (of_heap f ! heap_parent i) \<le> fr_rank (of_heap f ! i)")
    case True
    then show ?thesis using 1(2,3)
      by (auto simp: of_sift_up.simps [of i f] sift_up.simps [of fr_rank i "of_heap f"] same_tables_def)
  next
    case False
    then have p: "heap_parent i < length (of_heap f)" using heap_parent_less [of i] 1(3) by simp
    obtain f1 where f1: "swap_heap i (heap_parent i) f = Some f1" "of_heap f1 = swap_at i (heap_parent i) (of_heap f)"
      "indexed f1" "same_tables f f1" using swap_heap_spec [OF 1(2,3) p] by blast
    have "\<exists>f'. of_sift_up (heap_parent i) f1 = Some f' \<and> of_heap f' = sift_up fr_rank (heap_parent i) (of_heap f1)
        \<and> indexed f' \<and> same_tables f1 f'"
      by (rule 1(1)) (use False 1(3) p f1 in auto)
    then show ?thesis using False 1(3) f1 same_tables_trans [OF f1(4)]
      by (auto simp: of_sift_up.simps [of i f] sift_up.simps [of fr_rank i "of_heap f"])
  qed
qed

lemma of_sift_down_spec:
  "indexed f \<Longrightarrow>
     \<exists>f'. of_sift_down i f = Some f' \<and> of_heap f' = sift_down fr_rank i (of_heap f) \<and> indexed f' \<and> same_tables f f'"
proof (induction i f rule: of_sift_down.induct)
  case (1 i f)
  let ?c = "smaller_child fr_rank i (of_heap f)"
  show ?case
  proof (cases "length (of_heap f) \<le> 2 * i + 1 \<or> fr_rank (of_heap f ! i) \<le> fr_rank (of_heap f ! ?c)")
    case True
    then show ?thesis using 1(2)
      by (auto simp: of_sift_down.simps [of i f] sift_down.simps [of fr_rank i "of_heap f"] same_tables_def Let_def)
  next
    case False
    then have c: "?c < length (of_heap f)" and i: "i < length (of_heap f)"
      using smaller_child_spec(1) [of i "of_heap f" fr_rank] by auto
    obtain f1 where f1: "swap_heap i ?c f = Some f1" "of_heap f1 = swap_at i ?c (of_heap f)"
      "indexed f1" "same_tables f f1" using swap_heap_spec [OF 1(2) i c] by blast
    have "\<exists>f'. of_sift_down ?c f1 = Some f' \<and> of_heap f' = sift_down fr_rank ?c (of_heap f1)
        \<and> indexed f' \<and> same_tables f1 f'"
      by (rule 1(1)) (use False f1 in auto)
    then show ?thesis using False f1 same_tables_trans [OF f1(4)]
      by (auto simp: of_sift_down.simps [of i f] sift_down.simps [of fr_rank i "of_heap f"] Let_def)
  qed
qed

lemma restore_heap_at_spec:
  assumes "indexed f" "i < length (of_heap f)"
  shows "\<exists>f'. restore_heap_at i f = Some f' \<and> of_heap f' = restore_at fr_rank i (of_heap f) \<and> indexed f' \<and> same_tables f f'"
  using of_sift_up_spec [OF assms] of_sift_down_spec [OF assms(1), of i] assms(2)
  by (cases "i \<noteq> 0 \<and> fr_rank (of_heap f ! i) < fr_rank (of_heap f ! heap_parent i)")
    (auto simp: restore_heap_at_def restore_at_def)


definition of_rel :: "(nat \<Rightarrow> node_id) \<Rightarrow> nat \<Rightarrow> owner_frontier \<Rightarrow> nat \<Rightarrow> (nat \<rightharpoonup> u64) \<Rightarrow> bool" where
  "of_rel node n f k m \<longleftrightarrow> inj_on node {..<n} \<and> length (of_next_time_ns f) = n \<and> length (of_active f) = n
     \<and> length (of_index_slot f) = n \<and> is_heap fr_rank (of_heap f) \<and> indexed f
     \<and> (\<forall>e\<in>set (of_heap f). fr_node e = node (fr_owner_slot e))
     \<and> (\<forall>s t. m s = Some t \<longleftrightarrow> (\<exists>e\<in>set (of_heap f). fr_owner_slot e = s \<and> fr_time_ns e = t))
     \<and> (\<forall>s<n. of_active f ! s \<longleftrightarrow> m s \<noteq> None)"

lemma of_relD:
  assumes "of_rel node n f k m"
  shows "inj_on node {..<n}" "length (of_next_time_ns f) = n" "length (of_active f) = n" "length (of_index_slot f) = n"
    "is_heap fr_rank (of_heap f)" "indexed f" "\<And>e. e \<in> set (of_heap f) \<Longrightarrow> fr_node e = node (fr_owner_slot e)"
    "\<And>s t. m s = Some t \<longleftrightarrow> (\<exists>e\<in>set (of_heap f). fr_owner_slot e = s \<and> fr_time_ns e = t)"
    "\<And>s. s < n \<Longrightarrow> of_active f ! s \<longleftrightarrow> m s \<noteq> None"
  using assms unfolding of_rel_def by blast+

lemma of_rel_slot: "of_rel node n f k m \<Longrightarrow> e \<in> set (of_heap f) \<Longrightarrow> fr_owner_slot e < n"
  unfolding of_rel_def indexed_def by (metis in_set_conv_nth)

lemma indexed_entry:
  assumes "indexed f" "e \<in> set (of_heap f)" "e' \<in> set (of_heap f)" "fr_owner_slot e = fr_owner_slot e'"
  shows "e = e'"
  using assms indexed_inj [OF assms(1)] by (metis in_set_conv_nth)

lemma indexed_distinct: "indexed f \<Longrightarrow> distinct (of_heap f)"
  unfolding distinct_conv_nth using indexed_inj by metis

lemma indexed_drop_last:
  assumes x: "indexed f" and i: "Suc i = length (of_heap f)"
  shows "indexed (f\<lparr>of_heap := butlast (of_heap f), of_active := a,
    of_index_slot := (of_index_slot f)[fr_owner_slot (of_heap f ! i) := v]\<rparr>)"
proof -
  have ne: "fr_owner_slot (of_heap f ! i) \<noteq> fr_owner_slot (of_heap f ! k)" if "k < i" for k
    using indexed_inj [OF x, of k i] that i by auto
  have l: "length (of_heap f) - Suc 0 = i" using i by simp
  show ?thesis
    unfolding indexed_def using indexedD [OF x] ne i by (simp add: l nth_butlast)
qed

lemma indexed_move_last:
  assumes x: "indexed f" and i: "Suc i < length (of_heap f)"
  shows "indexed (f\<lparr>of_active := a, of_heap := (butlast (of_heap f))[i := last (of_heap f)],
    of_index_slot := (of_index_slot f)[fr_owner_slot (of_heap f ! i) := v, fr_owner_slot (last (of_heap f)) := i]\<rparr>)"
    (is "indexed ?f")
proof -
  let ?h = "of_heap f" and ?slot = "\<lambda>k. fr_owner_slot (of_heap f ! k)"
  have l: "last ?h = ?h ! (length ?h - 1)" using i by (metis last_conv_nth length_0_conv not_less_zero)
  have d: "?slot k \<noteq> ?slot j" if "k < length ?h" "j < length ?h" "k \<noteq> j" for k j
    using indexed_inj [OF x that(1,2)] that(3) by blast
  show ?thesis
    unfolding indexed_def
  proof (intro allI impI)
    fix k assume "k < length (of_heap ?f)"
    then have k: "k < length ?h - 1" by simp
    show "fr_owner_slot (of_heap ?f ! k) < length (of_index_slot ?f) \<and> of_index_slot ?f ! fr_owner_slot (of_heap ?f ! k) = k"
    proof (cases "k = i")
      case True
      then show ?thesis using indexedD(1) [OF x, of "length ?h - 1"] k i by (simp add: l)
    next
      case False
      then have "?slot k \<noteq> ?slot i" "?slot k \<noteq> ?slot (length ?h - 1)" using d k i by auto
      then show ?thesis using False indexedD [OF x, of k] k i by (simp add: l nth_butlast)
    qed
  qed
qed

lemma remove_at_spec:
  assumes r: "of_rel node n f k m" and i: "i < length (of_heap f)"
  shows "\<exists>f'. remove_at i f = Some (of_heap f ! i, f') \<and> of_rel node n f' k (m(fr_owner_slot (of_heap f ! i) := None))"
proof -
  note d = of_relD [OF r]
  let ?h = "of_heap f" and ?s = "fr_owner_slot (of_heap f ! i)"
  let ?a = "(of_active f)[?s := False]" and ?ix = "(of_index_slot f)[?s := no_index_slot]"
  have s: "?s < n" using of_rel_slot [OF r] i by simp
  have rel: "of_rel node n f' k (m(?s := None))"
    if "is_heap fr_rank (of_heap f')" "indexed f'" "mset (of_heap f') = mset ?h - {#?h ! i#}" "of_active f' = ?a"
      "length (of_index_slot f') = n" "of_next_time_ns f' = of_next_time_ns f" for f'
  proof -
    have set: "set (of_heap f') = set ?h - {?h ! i}"
    proof -
      have "mset (of_heap f') = mset (remove1 (?h ! i) ?h)" using that(3) by simp
      then have "set (of_heap f') = set (remove1 (?h ! i) ?h)" by (rule mset_eq_setD)
      then show ?thesis by (simp only: set_remove1_eq [OF indexed_distinct [OF d(6)]])
    qed
    have other: "fr_owner_slot e \<noteq> ?s \<longleftrightarrow> e \<noteq> ?h ! i" if "e \<in> set ?h" for e
      using indexed_entry [OF d(6) that, of "?h ! i"] i by auto
    show ?thesis
      unfolding of_rel_def
    proof (intro conjI allI impI ballI)
      show "((m(?s := None)) x = Some t) = (\<exists>e\<in>set (of_heap f'). fr_owner_slot e = x \<and> fr_time_ns e = t)" for x t
        using d(8) [of x t] other unfolding set by (cases "x = ?s") auto
    qed (use that d set s in \<open>auto simp: nth_list_update\<close>)
  qed
  show ?thesis
  proof (cases "Suc i = length ?h")
    case True
    let ?f = "f\<lparr>of_heap := butlast ?h, of_active := ?a, of_index_slot := ?ix\<rparr>"
    have l: "length ?h - Suc 0 = i" using True by simp
    have "of_rel node n ?f k (m(?s := None))"
      using indexed_drop_last [OF d(6) True] is_heap_butlast [OF d(5)] mset_drop_last [OF True] d(4) by (intro rel) simp_all
    moreover have "remove_at i f = Some (?h ! i, ?f)"
      using i s d(3,4) by (simp add: remove_at_def store_at_def set_index_def Let_def l)
    ultimately show ?thesis by blast
  next
    case False
    then have i': "Suc i < length ?h" using i by simp
    let ?g = "f\<lparr>of_active := ?a, of_heap := (butlast ?h)[i := last ?h], of_index_slot := ?ix[fr_owner_slot (last ?h) := i]\<rparr>"
    have l: "last ?h \<in> set ?h" using i by (intro last_in_set) auto
    have x: "indexed ?g" using indexed_move_last [OF d(6) i'] by simp
    obtain f' where f': "restore_heap_at i ?g = Some f'" "of_heap f' = restore_at fr_rank i ((butlast ?h)[i := last ?h])"
      "indexed f'" "same_tables ?g f'"
    proof -
      have "i < length (of_heap ?g)" using i' by simp
      from restore_heap_at_spec [OF x this] show thesis using that by auto
    qed
    note heap = restore_at_heap [OF is_heap_butlast [OF d(5)], of i "last ?h"]
    have "of_rel node n f' k (m(?s := None))"
      using heap mset_move_last [OF i'] i' f' d(4) by (intro rel) (simp_all add: same_tables_def)
    moreover have "i < length ?h - Suc 0" using i' by simp
    then have "remove_at i f = Some (?h ! i, f')"
      using i s d(3,4) of_rel_slot [OF r l] f'(1)
      by (simp add: remove_at_def store_at_def set_index_def Let_def)
    ultimately show ?thesis by blast
  qed
qed


lemma of_peek_least:
  assumes r: "of_rel node n f k m"
  shows "frontier_least node n m = map_option fr_answer (of_peek_min f)"
proof (cases "of_heap f")
  case Nil
  then have "m s = None" for s using of_relD(8) [OF r, of s] by (cases "m s") auto
  then show ?thesis using Nil by (simp add: of_peek_min_def frontier_least_None)
next
  case (Cons e es)
  note d = of_relD [OF r]
  have e: "e \<in> set (of_heap f)" by (simp add: Cons)
  have "m (fr_owner_slot e) = Some (fr_time_ns e)" using d(8) e by blast
  moreover have "(fr_time_ns e, node (fr_owner_slot e)) \<le> (t, node s)" if s: "m s = Some t" for s t
  proof -
    obtain x where x: "x \<in> set (of_heap f)" "fr_owner_slot x = s" "fr_time_ns x = t" using d(8) s by blast
    then obtain j where "j < length (of_heap f)" "of_heap f ! j = x" by (metis in_set_conv_nth)
    then have "fr_rank e \<le> fr_rank x" using is_heap_root [OF d(5), of j] Cons by simp
    then show ?thesis using x d(7) [OF e] d(7) [OF x(1)] by (auto simp: fr_rank_def)
  qed
  ultimately have "frontier_least node n m = Some (fr_time_ns e, node (fr_owner_slot e), fr_owner_slot e)"
    using d(1) of_rel_slot [OF r e] by (intro frontier_leastI) auto
  then show ?thesis using Cons d(7) [OF e] by (simp add: of_peek_min_def fr_answer_def)
qed

lemma of_pop_before_spec:
  assumes r: "of_rel node n f k m"
  shows "\<exists>found f'. of_pop_before h f = Some (found, f')
    \<and> fst (frontier_spec node n (PopBefore h) m) = map_option fr_answer found
    \<and> of_rel node n f' k (snd (frontier_spec node n (PopBefore h) m))"
proof (cases "of_heap f")
  case Nil
  then show ?thesis using of_peek_least [OF r] r by (simp add: of_pop_before_def of_peek_min_def)
next
  case (Cons e es)
  then show ?thesis using of_peek_least [OF r] r remove_at_spec [OF r, of 0]
    by (auto simp: of_pop_before_def of_peek_min_def fr_answer_def)
qed

text \<open>The three ways a heap changes under an update, with the same tables.\<close>

lemma of_rel_set:
  assumes r: "of_rel node n f k m" and s: "s < n" and e: "fr_owner_slot e = s" "fr_node e = node s"
    and f': "is_heap fr_rank (of_heap f')" "indexed f'" "length (of_index_slot f') = n"
      "of_next_time_ns f' = (of_next_time_ns f)[s := v]" "of_active f' = (of_active f)[s := True]"
    and set: "set (of_heap f') = insert e {x \<in> set (of_heap f). fr_owner_slot x \<noteq> s}"
  shows "of_rel node n f' k (m(s \<mapsto> fr_time_ns e))"
proof -
  note d = of_relD [OF r]
  show ?thesis
    unfolding of_rel_def
  proof (intro conjI allI impI ballI)
    show "((m(s \<mapsto> fr_time_ns e)) x = Some t) = (\<exists>y\<in>set (of_heap f'). fr_owner_slot y = x \<and> fr_time_ns y = t)" for x t
      using d(8) [of x t] e unfolding set by (cases "x = s") auto
    show "(of_active f' ! x) = ((m(s \<mapsto> fr_time_ns e)) x \<noteq> None)" if "x < n" for x
      using d(9) [OF that] d(3) s f'(5) by (cases "x = s") auto
    show "fr_node x = node (fr_owner_slot x)" if "x \<in> set (of_heap f')" for x
      using that d(7) e unfolding set by auto
  qed (use d f' in simp_all)
qed

lemma set_replace_slot:
  assumes x: "indexed f" and i: "i < length (of_heap f)"
  shows "set ((of_heap f)[i := e]) = insert e {x \<in> set (of_heap f). fr_owner_slot x \<noteq> fr_owner_slot (of_heap f ! i)}"
proof -
  have "x \<noteq> of_heap f ! i \<longleftrightarrow> fr_owner_slot x \<noteq> fr_owner_slot (of_heap f ! i)" if "x \<in> set (of_heap f)" for x
    using indexed_entry [OF assms(1) that, of "of_heap f ! i"] i by auto
  then show ?thesis using set_update_distinct [OF indexed_distinct [OF x] i, of e] by auto
qed

lemma of_update_spec:
  assumes r: "of_rel node n f k m" and s: "s < n"
  shows "\<exists>f'. of_update s (node s) next_key f = Some (Inr f') \<and> of_rel node n f' k (m(s := map_option key_time_ns next_key))"
proof -
  note d = of_relD [OF r]
  define new where "new key = \<lparr>fr_time_ns = key_time_ns key, fr_node = node s, fr_owner_slot = s\<rparr>" for key :: event_key
  have new: "fr_time_ns (new key) = key_time_ns key" "fr_node (new key) = node s" "fr_owner_slot (new key) = s" for key
    by (simp_all add: new_def)
  have len: "s < length (of_next_time_ns f)" "s < length (of_active f)" "s < length (of_index_slot f)" using d(2-4) s by simp_all
  show ?thesis
  proof (cases "of_active f ! s")
    case True
    then obtain t where "m s = Some t" using d(9) [OF s] by auto
    then obtain e where e: "e \<in> set (of_heap f)" "fr_owner_slot e = s" using d(8) by blast
    then obtain i where i: "i < length (of_heap f)" "of_heap f ! i = e" by (metis in_set_conv_nth)
    then have ix: "of_index_slot f ! s = i" using indexedD(2) [OF d(6) i(1)] e(2) by simp
    show ?thesis
    proof (cases next_key)
      case None
      then show ?thesis using remove_at_spec [OF r i(1)] True len ix i e(2) by (auto simp: of_update_def)
    next
      case (Some key)
      let ?f = "f\<lparr>of_heap := (of_heap f)[i := new key], of_next_time_ns := (of_next_time_ns f)[s := key_time_ns key]\<rparr>"
      have x: "indexed ?f" using d(6) i e(2) ix d(4) s
        unfolding indexed_def by (auto simp: nth_list_update new)
      obtain f' where f': "restore_heap_at i ?f = Some f'" "of_heap f' = restore_at fr_rank i ((of_heap f)[i := new key])"
        "indexed f'" "same_tables ?f f'"
        using restore_heap_at_spec [OF x, of i] i(1) by auto
      note heap = restore_at_heap [OF d(5) i(1), of "new key"]
      have "of_rel node n f' k (m(s \<mapsto> fr_time_ns (new key)))"
      proof (rule of_rel_set [OF r s new(3,2)])
        show "set (of_heap f') = insert (new key) {x \<in> set (of_heap f). fr_owner_slot x \<noteq> s}"
          using set_replace_slot [OF d(6) i(1), of "new key"] mset_eq_setD [OF heap(2)] i(2) e(2) f'(2) by simp
        show "of_active f' = (of_active f)[s := True]" using f'(4) True list_update_id [of "of_active f" s] by (simp add: same_tables_def)
      qed (use heap f' d(4) in \<open>simp_all add: same_tables_def\<close>)
      then show ?thesis using Some True len ix i f'(1) new(1) by (simp add: of_update_def store_at_def Let_def new_def)
    qed
  next
    case False
    then have m: "m s = None" using d(9) [OF s] by simp
    show ?thesis
    proof (cases next_key)
      case None
      then show ?thesis using False len r m by (simp add: of_update_def fun_upd_idem)
    next
      case (Some key)
      let ?i = "length (of_heap f)"
      let ?f = "f\<lparr>of_heap := of_heap f @ [new key], of_next_time_ns := (of_next_time_ns f)[s := key_time_ns key],
        of_active := (of_active f)[s := True], of_index_slot := (of_index_slot f)[s := ?i]\<rparr>"
      have other: "fr_owner_slot e \<noteq> s" if "e \<in> set (of_heap f)" for e using d(8) that m by force
      then have "fr_owner_slot (of_heap f ! j) \<noteq> s" if "j < ?i" for j using that by simp
      then have x: "indexed ?f" using d(6) len(3) by (auto simp: indexed_def nth_append nth_list_update new less_Suc_eq)
      obtain f' where f': "of_sift_up ?i ?f = Some f'" "of_heap f' = sift_up fr_rank ?i (of_heap f @ [new key])"
        "indexed f'" "same_tables ?f f'"
        using of_sift_up_spec [OF x, of ?i] by auto
      have heap: "is_heap fr_rank (of_heap f')" "mset (of_heap f') = mset (of_heap f @ [new key])"
        using sift_up_heap [OF heap_push [OF d(5), of "new key"]] f'(2) by simp_all
      have "of_rel node n f' k (m(s \<mapsto> fr_time_ns (new key)))"
      proof (rule of_rel_set [OF r s new(3,2)])
        show "set (of_heap f') = insert (new key) {x \<in> set (of_heap f). fr_owner_slot x \<noteq> s}"
          using mset_eq_setD [OF heap(2)] other by auto
      qed (use heap f' d(4) in \<open>simp_all add: same_tables_def\<close>)
      then show ?thesis using Some False len f'(1) new(1) by (simp add: of_update_def Let_def new_def)
    qed
  qed
qed

interpretation array: frontier_index node n "of_step node" "of_rel node n" "of_new n" for node n
proof unfold_locales
  show "of_rel node n (of_new n) 0 Map.empty" if "inj_on node {..<n}" for node n
    using that by (simp add: of_rel_def of_new_def is_heap_def indexed_def)
  show "\<exists>s'. of_step node op s = Some (Inr (fst (frontier_spec node n op m), s'))
      \<and> of_rel node n s' (Suc k) (snd (frontier_spec node n op m))"
    if "of_rel node n s k m" "frontier_op_ok n op" for node n s k m op
  proof -
    have r: "of_rel node n s (Suc k) m" using that(1) by (simp add: of_rel_def)
    show ?thesis
    proof (cases op)
      case (UpdateFrontier slot next_key)
      then show ?thesis using of_update_spec [OF r, of slot next_key] that(2) by auto
    next
      case PeekMin
      then show ?thesis using of_peek_least [OF r] r by simp
    next
      case (PopBefore h)
      then show ?thesis using of_pop_before_spec [OF r, of h] by auto
    qed
  qed
qed


text \<open>
  C9. The lazy heap with generations and the array heap with back pointers answer every history of
  updates, peeks and pops alike: the least process by time and node below the horizon, as computed
  from the map of the processes' next times.  Neither panics, and the generations do not overflow in a
  history shorter than \<open>2 ^ 64\<close>.
\<close>

theorem frontier_indexes_agree:
  assumes "inj_on node {..<n}" "length ops < 2 ^ 64" "list_all (frontier_op_ok n) ops"
  shows "frontier_run (lf_step node) ops (lf_new n) = Some (Inr (frontier_answers node n ops Map.empty))
    \<and> frontier_run (of_step node) ops (of_new n) = Some (Inr (frontier_answers node n ops Map.empty))"
  using lazy.history [OF assms] array.history [OF assms] by simp

definition frontier_history :: "frontier_op list" where
  "frontier_history =
     (let key = (\<lambda>t. \<lparr>key_time_ns = t, key_phase = 0, key_origin_node = 0, key_origin_seq = 0\<rparr>)
      in [UpdateFrontier 0 (Some (key 7)), UpdateFrontier 1 (Some (key 5)), UpdateFrontier 2 (Some (key 9)),
          UpdateFrontier 1 (Some (key 8)), PeekMin, PopBefore 8, UpdateFrontier 2 None, PopBefore 9, PeekMin])"

theorem frontier_indexes_agree_witness:
  "inj_on (of_nat :: nat \<Rightarrow> node_id) {..<3} \<and> list_all (frontier_op_ok 3) frontier_history
   \<and> frontier_run (lf_step of_nat) frontier_history (lf_new 3)
       = Some (Inr (frontier_answers of_nat 3 frontier_history Map.empty))
   \<and> frontier_run (of_step of_nat) frontier_history (of_new 3)
       = Some (Inr (frontier_answers of_nat 3 frontier_history Map.empty))"
proof -
  have i: "inj_on (of_nat :: nat \<Rightarrow> node_id) {..<3}"
    by (auto simp: inj_on_def less_Suc_eq numeral_3_eq_3)
  have o: "length frontier_history < 2 ^ 64" "list_all (frontier_op_ok 3) frontier_history"
    by (simp_all add: frontier_history_def Let_def)
  show ?thesis using frontier_indexes_agree [OF i o] i o(2) by blast
qed

end
