(* ===== verification/Round_Executor.thy ===== *)
theory Round_Executor
  imports Handler_Frame Radix_Order Frontier_Index
begin

section \<open>Safe-horizon rounds\<close>

text \<open>
  \<open>executor/src/safe_horizon.rs\<close>: the single-owner executor that runs in rounds.  Every node is a
  logical process with its own future events; a round takes the processes with an event below the
  horizon, the least pending time plus the least channel delay, drains each of them up to the horizon
  and then exchanges the events they sent to one another.  The transition state is the one of
  \<open>run_scalar\<close>, in summary observation.

  The result of an operation is \<open>None\<close> when the code panics.  The efficiency and probe counts of the
  metrics, floating-point and instrumentation values that nothing reads, are left out.
\<close>

definition time_after_u64_max :: u128 where "time_after_u64_max = 2 ^ 64"

record lp_round_work =
  lw_node :: node_id
  lw_events_processed :: u64
  lw_same_time_continuations :: u64
  lw_fallback_classified_pushes :: u64

record round_metrics =
  rm_frontier_ns :: u64
  rm_exclusive_horizon_ns :: u128
  rm_horizon_advance_ns :: u128
  rm_events_processed :: u64
  rm_active_lp_count :: nat
  rm_lp_work :: "lp_round_work list"
  rm_messages_exchanged :: u64
  rm_frontier_updates :: u64

type_synonym futures = "(event_key, event) omap"

record round_executor =
  re_transitions :: transition_state
  re_futures :: "futures list"
  re_pending_keys :: "event_key set"
  re_frontier :: lazy_frontier
  re_minimum_lookahead_ns :: "u64 option"

type_synonym 'a outcome = "(execution_error + 'a) option"

definition re_image :: "round_executor \<Rightarrow> simulation_image" where
  "re_image r = ts_image (re_transitions r)"

definition image_node_slot :: "simulation_image \<Rightarrow> node_id \<Rightarrow> nat option" where
  "image_node_slot img node =
     (if unat node < length (img_nodes img) \<and> nd_id (img_nodes img ! unat node) = node
      then Some (unat node) else None)"

definition first_key :: "futures \<Rightarrow> event_key option" where
  "first_key q = map_option fst (om_first q)"

subsection \<open>Draining one process\<close>

record drain_state =
  ds_executor :: round_executor
  ds_continuation :: "event option"
  ds_outbox :: "event list"
  ds_events_processed :: u64
  ds_same_time_continuations :: u64
  ds_fallback_classified_pushes :: u64

definition put_futures :: "nat \<Rightarrow> futures \<Rightarrow> drain_state \<Rightarrow> drain_state" where
  "put_futures lp_slot q d = d\<lparr>ds_executor := (ds_executor d)
     \<lparr>re_futures := (re_futures (ds_executor d))[lp_slot := q]\<rparr>\<rparr>"

definition put_pending :: "(event_key set \<Rightarrow> event_key set) \<Rightarrow> drain_state \<Rightarrow> drain_state" where
  "put_pending f d = d\<lparr>ds_executor := (ds_executor d)
     \<lparr>re_pending_keys := f (re_pending_keys (ds_executor d))\<rparr>\<rparr>"

definition lp_futures :: "nat \<Rightarrow> drain_state \<Rightarrow> futures" where
  "lp_futures lp_slot d = re_futures (ds_executor d) ! lp_slot"

definition drain_due :: "nat \<Rightarrow> u128 \<Rightarrow> drain_state \<Rightarrow> bool" where
  "drain_due lp_slot exclusive_horizon_ns d \<longleftrightarrow> ds_continuation d \<noteq> None
     \<or> (case first_key (lp_futures lp_slot d) of
          None \<Rightarrow> False | Some key \<Rightarrow> u64_to_u128 (key_time_ns key) < exclusive_horizon_ns)"

text \<open>The next event: the continuation, or the first of the future events (\<open>None\<close> without one).\<close>

definition take_event :: "nat \<Rightarrow> drain_state \<Rightarrow> (event \<times> drain_state) option" where
  "take_event lp_slot d =
     (case ds_continuation d of
        Some event \<Rightarrow> Some (event, d\<lparr>ds_continuation := None\<rparr>)
      | None \<Rightarrow>
          (case lp_futures lp_slot d of
             [] \<Rightarrow> None
           | (_, event) # rest \<Rightarrow> Some (event, put_futures lp_slot rest d)))"

fun remove_timers :: "nat \<Rightarrow> superseded_timer list \<Rightarrow> drain_state \<Rightarrow> execution_error + drain_state" where
  "remove_timers lp_slot [] d = Inr d"
| "remove_timers lp_slot (timer # timers) d =
     and_then (remove_superseded_timer timer (lp_futures lp_slot d)) (\<lambda>(removed, q).
     remove_timers lp_slot timers (put_pending (\<lambda>keys. keys - {ev_key removed}) (put_futures lp_slot q d)))"

definition direct_child_of :: "event \<Rightarrow> node_id \<Rightarrow> event_key option \<Rightarrow> event list \<Rightarrow> event option" where
  "direct_child_of parent node next_key children =
     (case children of
        [child] \<Rightarrow> if is_same_time_tx_ready_continuation parent child node next_key then Some child else None
      | _ \<Rightarrow> None)"

definition route_child :: "nat \<Rightarrow> node_id \<Rightarrow> event option \<Rightarrow> event \<Rightarrow> drain_state \<Rightarrow> execution_error + drain_state" where
  "route_child lp_slot node direct_child child d =
     (if ev_key child \<in> re_pending_keys (ds_executor d) then Inl (DuplicateEventKey (ev_key child))
      else
        let d1 = put_pending (insert (ev_key child)) d in
        if ev_target child = node then
          if direct_child = Some child
          then Inr (d1\<lparr>ds_continuation := Some child,
                 ds_same_time_continuations := saturating_add (ds_same_time_continuations d1) 1\<rparr>)
          else if om_get (lp_futures lp_slot d1) (ev_key child) \<noteq> None
          then Inl (DuplicateEventKey (ev_key child))
          else
            let d2 = put_futures lp_slot (om_insert (ev_key child) child (lp_futures lp_slot d1)) d1 in
            if event_fel_class (ev_kind child) = FallbackHeap
            then and_then (ok_or (CounterOverflow node) (checked_add (ds_fallback_classified_pushes d2) 1))
                   (\<lambda>pushes. Inr (d2\<lparr>ds_fallback_classified_pushes := pushes\<rparr>))
            else Inr d2
        else Inr (d1\<lparr>ds_outbox := ds_outbox d1 @ [child]\<rparr>))"

fun route_children :: "nat \<Rightarrow> node_id \<Rightarrow> event option \<Rightarrow> event list \<Rightarrow> drain_state \<Rightarrow> execution_error + drain_state" where
  "route_children lp_slot node direct_child [] d = Inr d"
| "route_children lp_slot node direct_child (child # children) d =
     and_then (route_child lp_slot node direct_child child d) (route_children lp_slot node direct_child children)"

text \<open>One turn of the loop of \<open>drain_lp\<close>.\<close>

definition drain_step :: "nat \<Rightarrow> node_id \<Rightarrow> drain_state \<Rightarrow> drain_state outcome" where
  "drain_step lp_slot node d = Option.bind (take_event lp_slot d) (\<lambda>(event, d1).
     let d2 = put_pending (\<lambda>keys. keys - {ev_key event}) d1 in
     (case dispatch event (re_transitions (ds_executor d2)) of
        None \<Rightarrow> None
      | Some (Inl e) \<Rightarrow> Some (Inl e)
      | Some (Inr (_, s)) \<Rightarrow>
          let d3 = d2\<lparr>ds_executor := (ds_executor d2)\<lparr>re_transitions :=
                s\<lparr>ts_superseded_timers := [], ts_children := []\<rparr>\<rparr>\<rparr>
          in Some (and_then (remove_timers lp_slot (ts_superseded_timers s) d3) (\<lambda>d4.
             and_then (route_children lp_slot node
                  (direct_child_of event node (first_key (lp_futures lp_slot d4)) (ts_children s))
                  (ts_children s) d4) (\<lambda>d5.
             Inr (d5\<lparr>ds_events_processed := saturating_add (ds_events_processed d5) 1\<rparr>))))))"

text \<open>The outer option is \<open>None\<close> when the loop does not return.\<close>

partial_function (option) drain_loop :: "nat \<Rightarrow> node_id \<Rightarrow> u128 \<Rightarrow> drain_state \<Rightarrow> drain_state outcome option" where
  "drain_loop lp_slot node exclusive_horizon_ns d =
     (if drain_due lp_slot exclusive_horizon_ns d then
        (case drain_step lp_slot node d of
           None \<Rightarrow> Some None
         | Some (Inl e) \<Rightarrow> Some (Some (Inl e))
         | Some (Inr d') \<Rightarrow> drain_loop lp_slot node exclusive_horizon_ns d')
      else Some (Some (Inr d)))"

declare drain_loop.simps [code]

definition start_drain :: "round_executor \<Rightarrow> drain_state" where
  "start_drain r = \<lparr>ds_executor = r, ds_continuation = None, ds_outbox = [], ds_events_processed = 0,
     ds_same_time_continuations = 0, ds_fallback_classified_pushes = 0\<rparr>"

text \<open>Sequencing of operations that may not return.\<close>

definition obind :: "'a outcome option \<Rightarrow> ('a \<Rightarrow> 'b outcome option) \<Rightarrow> 'b outcome option" where
  "obind m f = (case m of
     None \<Rightarrow> None | Some None \<Rightarrow> Some None | Some (Some (Inl e)) \<Rightarrow> Some (Some (Inl e))
   | Some (Some (Inr x)) \<Rightarrow> f x)"

definition drain_lp ::
  "nat \<Rightarrow> u128 \<Rightarrow> round_executor \<Rightarrow> (lp_round_work \<times> event list \<times> round_executor) outcome option" where
  "drain_lp lp_slot exclusive_horizon_ns r =
     (if lp_slot < length (img_nodes (re_image r)) \<and> lp_slot < length (re_futures r) then
        let node = nd_id (img_nodes (re_image r) ! lp_slot) in
        obind (drain_loop lp_slot node exclusive_horizon_ns (start_drain r)) (\<lambda>d.
        Some (Some (Inr (\<lparr>lw_node = node, lw_events_processed = ds_events_processed d,
          lw_same_time_continuations = ds_same_time_continuations d,
          lw_fallback_classified_pushes = ds_fallback_classified_pushes d\<rparr>, ds_outbox d, ds_executor d))))
      else Some None)"

definition update_frontier :: "nat \<Rightarrow> round_executor \<Rightarrow> round_executor outcome" where
  "update_frontier lp_slot r =
     (if lp_slot < length (img_nodes (re_image r)) \<and> lp_slot < length (re_futures r) then
        map_option (map_sum id (\<lambda>f. r\<lparr>re_frontier := f\<rparr>))
          (lf_update lp_slot (nd_id (img_nodes (re_image r) ! lp_slot)) (first_key (re_futures r ! lp_slot))
            (re_frontier r))
      else None)"


subsection \<open>One round\<close>

record round_state =
  rs_executor :: round_executor
  rs_lp_work :: "lp_round_work list"
  rs_outboxes :: "event list list"
  rs_events_processed :: u64
  rs_frontier_updates :: u64

definition drain_entry :: "u128 \<Rightarrow> lazy_entry \<Rightarrow> round_state \<Rightarrow> round_state outcome option" where
  "drain_entry horizon entry st =
     obind (drain_lp (le_lp_slot entry) horizon (rs_executor st)) (\<lambda>(work, outbox, r).
     Some (map_option (map_sum id (\<lambda>r'. st\<lparr>rs_executor := r', rs_lp_work := rs_lp_work st @ [work],
         rs_outboxes := (if outbox = [] then rs_outboxes st else rs_outboxes st @ [outbox]),
         rs_events_processed := saturating_add (rs_events_processed st) (lw_events_processed work),
         rs_frontier_updates := saturating_add (rs_frontier_updates st) 1\<rparr>))
       (update_frontier (le_lp_slot entry) r)))"

fun drain_active :: "u128 \<Rightarrow> lazy_entry list \<Rightarrow> round_state \<Rightarrow> round_state outcome option" where
  "drain_active horizon [] st = Some (Some (Inr st))"
| "drain_active horizon (entry # active) st =
     obind (drain_entry horizon entry st) (drain_active horizon active)"

text \<open>No process may keep an event below the horizon.\<close>

definition check_drained :: "u128 \<Rightarrow> round_state \<Rightarrow> round_state outcome" where
  "check_drained horizon st = Option.bind (lf_peek_min (re_frontier (rs_executor st))) (\<lambda>(found, f).
     let st' = st\<lparr>rs_executor := (rs_executor st)\<lparr>re_frontier := f\<rparr>\<rparr> in
     case found of
       None \<Rightarrow> Some (Inr st')
     | Some entry \<Rightarrow>
         if u64_to_u128 (le_time_ns entry) < horizon then
           if le_lp_slot entry < length (re_futures (rs_executor st)) then
             map_option (\<lambda>key. Inl (EventBelowHorizonAfterDrain key horizon))
               (first_key (re_futures (rs_executor st) ! le_lp_slot entry))
           else None
         else Some (Inr st'))"

subsection \<open>The exchange\<close>

fun insert_remote :: "u128 \<Rightarrow> event list \<Rightarrow> futures \<Rightarrow> execution_error + futures" where
  "insert_remote horizon [] q = Inr q"
| "insert_remote horizon (event # events) q =
     (if u64_to_u128 (key_time_ns (ev_key event)) < horizon
      then Inl (RemoteEventBeforeHorizon (ev_key event) horizon)
      else if om_get q (ev_key event) \<noteq> None then Inl (DuplicateEventKey (ev_key event))
      else insert_remote horizon events (om_insert (ev_key event) event q))"

text \<open>The sorted events of one target after another, each followed by the update of its frontier.\<close>

function merge_remote :: "u128 \<Rightarrow> event list \<Rightarrow> round_state \<Rightarrow> round_state outcome" where
  "merge_remote horizon [] st = Some (Inr st)"
| "merge_remote horizon (event # events) st =
     (case image_node_slot (re_image (rs_executor st)) (ev_target event) of
        None \<Rightarrow> Some (Inl (UnknownNode (ev_target event)))
      | Some lp_slot \<Rightarrow>
          let same = (\<lambda>e. ev_target e = ev_target event) in
          if lp_slot < length (re_futures (rs_executor st)) then
            (case insert_remote horizon (event # takeWhile same events) (re_futures (rs_executor st) ! lp_slot) of
               Inl e \<Rightarrow> Some (Inl e)
             | Inr q \<Rightarrow>
                 (case update_frontier lp_slot
                     ((rs_executor st)\<lparr>re_futures := (re_futures (rs_executor st))[lp_slot := q]\<rparr>) of
                    None \<Rightarrow> None
                  | Some (Inl e) \<Rightarrow> Some (Inl e)
                  | Some (Inr r) \<Rightarrow>
                      merge_remote horizon (dropWhile same events) (st\<lparr>rs_executor := r,
                        rs_frontier_updates := saturating_add (rs_frontier_updates st) 1\<rparr>)))
          else None)"
  by pat_completeness auto
termination
  by (relation "measure (\<lambda>(horizon, events, st). length events)") (auto simp: length_dropWhile_le less_Suc_eq_le)

definition start_round :: "round_executor \<Rightarrow> round_state" where
  "start_round r = \<lparr>rs_executor = r, rs_lp_work = [], rs_outboxes = [], rs_events_processed = 0, rs_frontier_updates = 0\<rparr>"

text \<open>The drains, the check and the exchange of a round with its horizon.\<close>

definition run_round :: "u128 \<Rightarrow> round_executor \<Rightarrow> (round_state \<times> u64) outcome option" where
  "run_round horizon r =
     (case collect_due (lf_pop_before horizon) (re_frontier r) of
        None \<Rightarrow> None
      | Some None \<Rightarrow> Some None
      | Some (Some (active, f)) \<Rightarrow>
          obind (drain_active horizon active (start_round (r\<lparr>re_frontier := f\<rparr>))) (\<lambda>st.
          obind (Some (check_drained horizon st)) (\<lambda>st.
          let remote_events = concat (rs_outboxes st) in
          (case radix_sort_remote_events remote_events of
             None \<Rightarrow> Some None
           | Some sorted_events \<Rightarrow>
               Some (map_option (map_sum id (\<lambda>st'. (st', u64_of_len (length remote_events))))
                 (merge_remote horizon sorted_events st))))))"

subsection \<open>All rounds\<close>

definition lookahead_end :: "u64 option \<Rightarrow> u64 \<Rightarrow> u128" where
  "lookahead_end minimum_lookahead_ns frontier_ns =
     (case minimum_lookahead_ns of
        None \<Rightarrow> time_after_u64_max
      | Some delay \<Rightarrow> min (u64_to_u128 frontier_ns + u64_to_u128 delay) time_after_u64_max)"

definition metrics_of :: "u64 \<Rightarrow> u128 \<Rightarrow> u128 option \<Rightarrow> round_state \<Rightarrow> u64 \<Rightarrow> round_metrics" where
  "metrics_of frontier_ns horizon previous_horizon st messages_exchanged =
     \<lparr>rm_frontier_ns = frontier_ns, rm_exclusive_horizon_ns = horizon,
      rm_horizon_advance_ns = saturating_sub horizon
        (case previous_horizon of None \<Rightarrow> u64_to_u128 frontier_ns | Some previous \<Rightarrow> previous),
      rm_events_processed = rs_events_processed st, rm_active_lp_count = length (rs_lp_work st),
      rm_lp_work = rs_lp_work st, rm_messages_exchanged = messages_exchanged,
      rm_frontier_updates = rs_frontier_updates st\<rparr>"

text \<open>\<open>total_rounds\<close> counts the rounds, which are all retained.\<close>

partial_function (option) execute_rounds ::
  "u128 \<Rightarrow> u128 option \<Rightarrow> round_metrics list \<Rightarrow> round_executor \<Rightarrow> (round_metrics list \<times> round_executor) outcome option" where
  "execute_rounds run_end previous_horizon rounds r =
     (case lf_peek_min (re_frontier r) of
        None \<Rightarrow> Some None
      | Some (None, f) \<Rightarrow> Some (Some (Inr (rounds, r\<lparr>re_frontier := f\<rparr>)))
      | Some (Some entry, f) \<Rightarrow>
          let frontier_ns = le_time_ns entry;
              horizon = min run_end (lookahead_end (re_minimum_lookahead_ns r) frontier_ns)
          in if run_end \<le> u64_to_u128 frontier_ns then Some (Some (Inr (rounds, r\<lparr>re_frontier := f\<rparr>)))
          else
            (case run_round horizon (r\<lparr>re_frontier := f\<rparr>) of
               None \<Rightarrow> None
             | Some None \<Rightarrow> Some None
             | Some (Some (Inl e)) \<Rightarrow> Some (Some (Inl e))
             | Some (Some (Inr (st, messages))) \<Rightarrow>
                 if Suc (length rounds) < 2 ^ 64 then
                   execute_rounds run_end (Some horizon)
                     (rounds @ [metrics_of frontier_ns horizon previous_horizon st messages]) (rs_executor st)
                 else Some (Some (Inl (CounterOverflow 0)))))"

declare execute_rounds.simps [code]

subsection \<open>Construction and result\<close>

fun place_initial ::
  "simulation_image \<Rightarrow> event list \<Rightarrow> futures list \<times> event_key set \<times> nat set \<Rightarrow>
     execution_error + futures list \<times> event_key set \<times> nat set" where
  "place_initial img [] st = Inr st"
| "place_initial img (event # events) (futures, pending_keys, touched) =
     (if ev_key event \<in> pending_keys then Inl (DuplicateEventKey (ev_key event))
      else
        case image_node_slot img (ev_target event) of
          None \<Rightarrow> Inl (UnknownNode (ev_target event))
        | Some lp_slot \<Rightarrow>
            if om_get (futures ! lp_slot) (ev_key event) \<noteq> None then Inl (DuplicateEventKey (ev_key event))
            else place_initial img events
              (futures[lp_slot := om_insert (ev_key event) event (futures ! lp_slot)],
               insert (ev_key event) pending_keys, insert lp_slot touched))"

definition minimum_lookahead :: "simulation_image \<Rightarrow> u64 option" where
  "minimum_lookahead img =
     (case map chan_min_delay_ns (img_channels img) of [] \<Rightarrow> None | d # ds \<Rightarrow> Some (fold min ds d))"

fun update_frontiers :: "nat list \<Rightarrow> round_executor \<Rightarrow> round_executor outcome" where
  "update_frontiers [] r = Some (Inr r)"
| "update_frontiers (lp_slot # slots) r =
     (case update_frontier lp_slot r of
        None \<Rightarrow> None | Some (Inl e) \<Rightarrow> Some (Inl e) | Some (Inr r') \<Rightarrow> update_frontiers slots r')"

definition round_executor_new :: "simulation_image \<Rightarrow> round_executor outcome" where
  "round_executor_new img =
     (case ts_new img of
        None \<Rightarrow> None
      | Some (Inl e) \<Rightarrow> Some (Inl e)
      | Some (Inr transitions) \<Rightarrow>
          let lp_count = length (img_nodes img) in
          (case place_initial img (img_initial_events img) (replicate lp_count [], {}, {}) of
             Inl e \<Rightarrow> Some (Inl e)
           | Inr (futures, pending_keys, touched) \<Rightarrow>
               if minimum_lookahead img = Some 0 then Some (Inl NonPositiveLookahead)
               else update_frontiers (filter (\<lambda>lp_slot. lp_slot \<in> touched) [0..<lp_count])
                 \<lparr>re_transitions = transitions, re_futures = futures, re_pending_keys = pending_keys,
                  re_frontier = lf_new lp_count, re_minimum_lookahead_ns = minimum_lookahead img\<rparr>))"

definition run_end_of :: "simulation_image \<Rightarrow> u64 option \<Rightarrow> u128" where
  "run_end_of img exclusive_horizon_ns =
     min (case exclusive_horizon_ns of None \<Rightarrow> time_after_u64_max | Some h \<Rightarrow> u64_to_u128 h)
         (u64_to_u128 (img_stop_time_ns img) + 1)"

definition finish_result :: "round_executor \<Rightarrow> run_result" where
  "finish_result r = ts_finish (sort_key ev_key (concat (map om_values (re_futures r)))) (re_transitions r)"

definition run_scalar_rounds ::
  "simulation_image \<Rightarrow> u64 option \<Rightarrow> (run_result \<times> round_metrics list) outcome option" where
  "run_scalar_rounds img exclusive_horizon_ns =
     obind (Some (round_executor_new img)) (\<lambda>r.
     obind (execute_rounds (run_end_of img exclusive_horizon_ns) None [] r) (\<lambda>(rounds, r').
     Some (Some (Inr (finish_result r', rounds)))))"

end
