(* ===== verification/Round_Properties.thy ===== *)
theory Round_Properties
  imports Run_Properties Round_Executor
begin

section \<open>Properties of the safe-horizon rounds\<close>

text \<open>
  What \<open>Round_Executor\<close> guarantees: the drain of a process and the rounds return, a process takes its
  events in key order, every round takes exactly the events below its horizon, and the same-time
  shortcut of a drain changes nothing but its counters.
\<close>

subsection \<open>The future events of a process\<close>

definition lp_wf :: "node_id \<Rightarrow> futures \<Rightarrow> bool" where
  "lp_wf node q \<longleftrightarrow> om_wf q \<and> (\<forall>(k, e) \<in> set q. ev_key e = k \<and> ev_target e = node)"

lemma lp_wf_Nil [simp]: "lp_wf node []"
  by (simp add: lp_wf_def)

lemma lp_wf_tail: "lp_wf node ((k, e) # q) \<Longrightarrow> lp_wf node q \<and> ev_key e = k \<and> ev_target e = node \<and> (\<forall>x \<in> fst ` set q. k < x)"
  by (auto simp: lp_wf_def)

lemma lp_wf_insert: "lp_wf node q \<Longrightarrow> ev_target e = node \<Longrightarrow> lp_wf node (om_insert (ev_key e) e q)"
  unfolding lp_wf_def by (auto simp: om_wf_insert dest!: set_om_insert)

lemma lp_wf_remove: "lp_wf node q \<Longrightarrow> lp_wf node (om_remove k q)"
  unfolding lp_wf_def by (auto simp: om_wf_remove) (auto simp: om_remove_def)

lemma first_key_least: "lp_wf node q \<Longrightarrow> first_key q = Some k \<Longrightarrow> k \<in> fst ` set q \<and> (\<forall>x \<in> fst ` set q. k \<le> x)"
  by (cases q) (auto simp: first_key_def om_first_def lp_wf_def)

lemma first_key_None: "first_key q = None \<longleftrightarrow> q = []"
  by (cases q) (auto simp: first_key_def om_first_def)

subsection \<open>What a drain leaves alone\<close>

definition lp_frame :: "nat \<Rightarrow> round_executor \<Rightarrow> round_executor \<Rightarrow> bool" where
  "lp_frame slot r r' \<longleftrightarrow> re_frontier r' = re_frontier r
     \<and> re_minimum_lookahead_ns r' = re_minimum_lookahead_ns r \<and> re_image r' = re_image r
     \<and> length (re_futures r') = length (re_futures r)
     \<and> (\<forall>i. i \<noteq> slot \<longrightarrow> re_futures r' ! i = re_futures r ! i)"

lemma lp_frame_refl [simp]: "lp_frame slot r r"
  by (simp add: lp_frame_def)

lemma lp_frame_trans: "lp_frame slot r r' \<Longrightarrow> lp_frame slot r' r'' \<Longrightarrow> lp_frame slot r r''"
  by (simp add: lp_frame_def)

abbreviation drain_frame :: "nat \<Rightarrow> drain_state \<Rightarrow> drain_state \<Rightarrow> bool" where
  "drain_frame slot d d' \<equiv> lp_frame slot (ds_executor d) (ds_executor d')"

lemma put_fields [simp]:
  "ds_continuation (put_futures slot q d) = ds_continuation d" "ds_outbox (put_futures slot q d) = ds_outbox d"
  "ds_events_processed (put_futures slot q d) = ds_events_processed d"
  "re_transitions (ds_executor (put_futures slot q d)) = re_transitions (ds_executor d)"
  "length (re_futures (ds_executor (put_futures slot q d))) = length (re_futures (ds_executor d))"
  "re_pending_keys (ds_executor (put_futures slot q d)) = re_pending_keys (ds_executor d)"
  "ds_continuation (put_pending f d) = ds_continuation d" "ds_outbox (put_pending f d) = ds_outbox d"
  "ds_events_processed (put_pending f d) = ds_events_processed d"
  "re_transitions (ds_executor (put_pending f d)) = re_transitions (ds_executor d)"
  "re_futures (ds_executor (put_pending f d)) = re_futures (ds_executor d)"
  "re_pending_keys (ds_executor (put_pending f d)) = f (re_pending_keys (ds_executor d))"
  "lp_futures slot (put_pending f d) = lp_futures slot d"
  by (simp_all add: put_futures_def put_pending_def lp_futures_def)

lemma put_frame [simp]: "drain_frame slot d (put_futures slot q d)" "drain_frame slot d (put_pending f d)"
  by (simp_all add: lp_frame_def put_futures_def put_pending_def re_image_def)

lemma put_frame_iff [simp]:
  "drain_frame slot d (put_futures slot q d') \<longleftrightarrow> drain_frame slot d d'"
  "drain_frame slot d (put_pending f d') \<longleftrightarrow> drain_frame slot d d'"
  by (auto simp: lp_frame_def put_futures_def put_pending_def re_image_def)

lemma lp_futures_put [simp]:
  "slot < length (re_futures (ds_executor d)) \<Longrightarrow> lp_futures slot (put_futures slot q d) = q"
  by (simp add: lp_futures_def put_futures_def)

subsection \<open>One step of a drain\<close>

text \<open>The events a drain has before it: the continuation, which comes first, and the future ones.\<close>

definition drain_wf :: "nat \<Rightarrow> node_id \<Rightarrow> drain_state \<Rightarrow> bool" where
  "drain_wf slot node d \<longleftrightarrow> slot < length (re_futures (ds_executor d)) \<and> lp_wf node (lp_futures slot d)
     \<and> ts_children (re_transitions (ds_executor d)) = []
     \<and> (\<forall>c. ds_continuation d = Some c \<longrightarrow>
          ev_target c = node \<and> (\<forall>k \<in> fst ` set (lp_futures slot d). ev_key c < k))"

definition drain_keys :: "nat \<Rightarrow> drain_state \<Rightarrow> event_key set" where
  "drain_keys slot d = fst ` set (lp_futures slot d) \<union> ev_key ` set_option (ds_continuation d)"

lemma take_event_least:
  assumes wf: "drain_wf slot node d" and t: "take_event slot d = Some (e, d1)"
  shows "ev_key e \<in> drain_keys slot d" "ev_target e = node" "ds_continuation d1 = None"
    "lp_wf node (lp_futures slot d1)" "\<And>k. k \<in> fst ` set (lp_futures slot d1) \<Longrightarrow> ev_key e < k"
    "drain_frame slot d d1" "re_transitions (ds_executor d1) = re_transitions (ds_executor d)"
    "ds_outbox d1 = ds_outbox d" "ds_events_processed d1 = ds_events_processed d"
    "slot < length (re_futures (ds_executor d1))"
proof -
  have "ev_key e \<in> drain_keys slot d \<and> ev_target e = node \<and> ds_continuation d1 = None
    \<and> lp_wf node (lp_futures slot d1) \<and> (\<forall>k \<in> fst ` set (lp_futures slot d1). ev_key e < k)
    \<and> drain_frame slot d d1 \<and> re_transitions (ds_executor d1) = re_transitions (ds_executor d)
    \<and> ds_outbox d1 = ds_outbox d \<and> ds_events_processed d1 = ds_events_processed d
    \<and> slot < length (re_futures (ds_executor d1))"
  proof (cases "ds_continuation d")
    case None
    then obtain k q where q: "lp_futures slot d = (k, e) # q" and d1: "d1 = put_futures slot q d"
      using t by (auto simp: take_event_def split: list.splits)
    show ?thesis
      using None wf lp_wf_tail [of node k e q] unfolding drain_wf_def drain_keys_def d1 q by auto
  next
    case (Some c)
    then have "e = c" "d1 = d\<lparr>ds_continuation := None\<rparr>" using t by (simp_all add: take_event_def)
    then show ?thesis using wf Some unfolding drain_wf_def drain_keys_def lp_futures_def by simp
  qed
  then show "ev_key e \<in> drain_keys slot d" "ev_target e = node" "ds_continuation d1 = None"
    "lp_wf node (lp_futures slot d1)" "\<And>k. k \<in> fst ` set (lp_futures slot d1) \<Longrightarrow> ev_key e < k"
    "drain_frame slot d d1" "re_transitions (ds_executor d1) = re_transitions (ds_executor d)"
    "ds_outbox d1 = ds_outbox d" "ds_events_processed d1 = ds_events_processed d"
    "slot < length (re_futures (ds_executor d1))"
    by blast+
qed

lemma remove_timers_frame:
  assumes "remove_timers slot timers d = Inr d'" "lp_wf node (lp_futures slot d)"
    "slot < length (re_futures (ds_executor d))"
  shows "lp_wf node (lp_futures slot d') \<and> set (lp_futures slot d') \<subseteq> set (lp_futures slot d)
    \<and> drain_frame slot d d' \<and> re_transitions (ds_executor d') = re_transitions (ds_executor d)
    \<and> ds_continuation d' = ds_continuation d \<and> ds_outbox d' = ds_outbox d
    \<and> ds_events_processed d' = ds_events_processed d \<and> slot < length (re_futures (ds_executor d'))"
  using assms
proof (induction timers arbitrary: d)
  case (Cons timer timers)
  obtain e q where r: "remove_superseded_timer timer (lp_futures slot d) = Inr (e, q)"
    and rest: "remove_timers slot timers (put_pending (\<lambda>keys. keys - {ev_key e}) (put_futures slot q d)) = Inr d'"
    using Cons.prems(1) by (auto simp: result_simps)
  obtain k where q: "q = om_remove k (lp_futures slot d)"
    using r by (auto simp: remove_superseded_timer_def Let_def split: option.splits prod.splits)
  have wf: "lp_wf node q" unfolding q by (rule lp_wf_remove [OF Cons.prems(2)])
  have sub: "set q \<subseteq> set (lp_futures slot d)" by (auto simp: q om_remove_def)
  let ?d = "put_pending (\<lambda>keys. keys - {ev_key e}) (put_futures slot q d)"
  have fr: "drain_frame slot d ?d" by simp
  show ?case
    using Cons.IH [OF rest] wf sub Cons.prems(3) lp_frame_trans [OF fr] by auto
qed simp

lemma route_child_frame:
  assumes r: "route_child slot node None child d = Inr d'" and wf: "lp_wf node (lp_futures slot d)"
    and l: "slot < length (re_futures (ds_executor d))"
  shows "lp_wf node (lp_futures slot d') \<and> fst ` set (lp_futures slot d') \<subseteq> insert (ev_key child) (fst ` set (lp_futures slot d))
    \<and> drain_frame slot d d' \<and> re_transitions (ds_executor d') = re_transitions (ds_executor d)
    \<and> ds_continuation d' = ds_continuation d
    \<and> ds_outbox d' = ds_outbox d @ filter (\<lambda>c. ev_target c \<noteq> node) [child]
    \<and> ds_events_processed d' = ds_events_processed d \<and> slot < length (re_futures (ds_executor d'))"
proof (cases "ev_target child = node")
  case True
  let ?q = "om_insert (ev_key child) child (lp_futures slot d)"
  let ?d = "put_futures slot ?q (put_pending (insert (ev_key child)) d)"
  have q: "lp_wf node ?q" "fst ` set ?q \<subseteq> insert (ev_key child) (fst ` set (lp_futures slot d))"
    using lp_wf_insert [OF wf True] by (auto dest!: set_om_insert)
  obtain n where "d' = ?d\<lparr>ds_fallback_classified_pushes := n\<rparr> \<or> d' = ?d"
    using r True by (auto simp: route_child_def Let_def result_simps split: if_splits)
  then have "lp_futures slot d' = lp_futures slot ?d" "ds_executor d' = ds_executor ?d"
    "ds_continuation d' = ds_continuation ?d" "ds_outbox d' = ds_outbox ?d"
    "ds_events_processed d' = ds_events_processed ?d"
    by (auto simp: lp_futures_def)
  then show ?thesis using q l True by simp
next
  case False
  then have "d' = (put_pending (insert (ev_key child)) d)\<lparr>ds_outbox := ds_outbox d @ [child]\<rparr>"
    using r by (auto simp: route_child_def Let_def split: if_splits)
  then show ?thesis using False wf l by (auto simp: lp_futures_def)
qed

lemma route_children_frame:
  assumes "route_children slot node None children d = Inr d'" "lp_wf node (lp_futures slot d)"
    "slot < length (re_futures (ds_executor d))"
  shows "lp_wf node (lp_futures slot d') \<and> fst ` set (lp_futures slot d') \<subseteq> ev_key ` set children \<union> fst ` set (lp_futures slot d)
    \<and> drain_frame slot d d' \<and> re_transitions (ds_executor d') = re_transitions (ds_executor d)
    \<and> ds_continuation d' = ds_continuation d
    \<and> ds_outbox d' = ds_outbox d @ filter (\<lambda>c. ev_target c \<noteq> node) children
    \<and> ds_events_processed d' = ds_events_processed d \<and> slot < length (re_futures (ds_executor d'))"
  using assms
proof (induction children arbitrary: d)
  case (Cons child children)
  obtain d1 where d1: "route_child slot node None child d = Inr d1" "route_children slot node None children d1 = Inr d'"
    using Cons.prems(1) by (auto simp: result_simps)
  note c = route_child_frame [OF d1(1) Cons.prems(2,3)]
  note ih = Cons.IH [OF d1(2)]
  have "fst ` set (lp_futures slot d') \<subseteq> ev_key ` set (child # children) \<union> fst ` set (lp_futures slot d)"
    using c ih unfolding list.set image_insert by blast
  then show ?case
    using c ih lp_frame_trans [of slot "ds_executor d" "ds_executor d1" "ds_executor d'"] by simp
qed simp

text \<open>The continuation is chosen alone, and it precedes every future event.\<close>

lemma direct_child_Some:
  assumes "direct_child_of event node next_key children = Some c"
  shows "children = [c]" "ev_target c = node" "key_time_ns (ev_key c) = key_time_ns (ev_key event)"
    "\<And>k. next_key = Some k \<Longrightarrow> ev_key c < k"
  using assms by (auto simp: direct_child_of_def is_same_time_tx_ready_continuation_def
      split: list.splits if_splits option.splits)

lemma drain_step_cases:
  assumes st: "drain_step slot node d = Some (Inr d')" and t: "take_event slot d = Some (e, d1)"
  obtains s1 d4 d5 where
    "dispatch e (re_transitions (ds_executor d1)) = Some (Inr ((), s1))"
    "remove_timers slot (ts_superseded_timers s1)
       ((put_pending (\<lambda>keys. keys - {ev_key e}) d1)\<lparr>ds_executor := (ds_executor (put_pending (\<lambda>keys. keys - {ev_key e}) d1))
          \<lparr>re_transitions := s1\<lparr>ts_superseded_timers := [], ts_children := []\<rparr>\<rparr>\<rparr>) = Inr d4"
    "route_children slot node (direct_child_of e node (first_key (lp_futures slot d4)) (ts_children s1))
       (ts_children s1) d4 = Inr d5"
    "d' = d5\<lparr>ds_events_processed := saturating_add (ds_events_processed d5) 1\<rparr>"
proof -
  obtain s1 where s: "dispatch e (re_transitions (ds_executor d1)) = Some (Inr ((), s1))"
    using st t by (cases "dispatch e (re_transitions (ds_executor d1))" rule: trans_result_cases)
      (auto simp: drain_step_def)
  show thesis
    using st t s that by (auto simp: drain_step_def Let_def result_simps)
qed

text \<open>
  A step takes the least event; what it has before it afterwards is later, and what it sends is later
  and for other nodes.
\<close>

lemma drain_step_later:
  assumes wf: "drain_wf slot node d" and st: "drain_step slot node d = Some (Inr d')"
    and t: "take_event slot d = Some (e, d1)"
  shows "drain_wf slot node d'" "\<And>k. k \<in> drain_keys slot d' \<Longrightarrow> ev_key e < k" "drain_frame slot d d'"
    "\<And>c. ds_continuation d' = Some c \<Longrightarrow> key_time_ns (ev_key c) = key_time_ns (ev_key e)"
    "\<exists>sent. ds_outbox d' = ds_outbox d @ sent \<and> (\<forall>x \<in> set sent. ev_target x \<noteq> node \<and> ev_key e < ev_key x)"
    "ds_events_processed d' = saturating_add (ds_events_processed d) 1"
proof -
  obtain s1 d4 d5 where dp: "dispatch e (re_transitions (ds_executor d1)) = Some (Inr ((), s1))"
    and rm: "remove_timers slot (ts_superseded_timers s1)
       ((put_pending (\<lambda>keys. keys - {ev_key e}) d1)\<lparr>ds_executor := (ds_executor (put_pending (\<lambda>keys. keys - {ev_key e}) d1))
          \<lparr>re_transitions := s1\<lparr>ts_superseded_timers := [], ts_children := []\<rparr>\<rparr>\<rparr>) = Inr d4"
    and rt: "route_children slot node (direct_child_of e node (first_key (lp_futures slot d4)) (ts_children s1))
       (ts_children s1) d4 = Inr d5"
    and d': "d' = d5\<lparr>ds_events_processed := saturating_add (ds_events_processed d5) 1\<rparr>"
    by (rule drain_step_cases [OF st t])
  note tk = take_event_least [OF wf t]
  let ?d3 = "(put_pending (\<lambda>keys. keys - {ev_key e}) d1)\<lparr>ds_executor := (ds_executor (put_pending (\<lambda>keys. keys - {ev_key e}) d1))
      \<lparr>re_transitions := s1\<lparr>ts_superseded_timers := [], ts_children := []\<rparr>\<rparr>\<rparr>"
  obtain n where n: "node_step e n (nd_kind n) (re_transitions (ds_executor d1)) s1" by (rule dispatch_node_step [OF dp])
  have ch: "ts_children (re_transitions (ds_executor d1)) = []" using wf tk(7) by (simp add: drain_wf_def)
  have new: "ev_key e < ev_key c" if "c \<in> set (ts_children s1)" for c
    using n that numbered_members(2) unfolding node_step_def ch by fastforce
  have f3: "drain_frame slot d1 ?d3" "lp_futures slot ?d3 = lp_futures slot d1"
    using n by (simp_all add: lp_frame_def node_step_def re_image_def lp_futures_def put_pending_def)
  have "slot < length (re_futures (ds_executor ?d3))" using tk(10) by simp
  then have r: "lp_wf node (lp_futures slot d4)" "set (lp_futures slot d4) \<subseteq> set (lp_futures slot d1)"
    "drain_frame slot d1 d4" "re_transitions (ds_executor d4) = s1\<lparr>ts_superseded_timers := [], ts_children := []\<rparr>"
    "ds_continuation d4 = None" "ds_outbox d4 = ds_outbox d" "ds_events_processed d4 = ds_events_processed d"
    "slot < length (re_futures (ds_executor d4))"
    using remove_timers_frame [OF rm, of node] tk f3 lp_frame_trans [OF f3(1), of "ds_executor d4"] by simp_all
  have r2: "ev_key e < k" if "k \<in> fst ` set (lp_futures slot d4)" for k
    using that r(2) tk(5) by blast
  have fr4: "drain_frame slot d d4" by (rule lp_frame_trans [OF tk(6) r(3)])
  have "drain_wf slot node d5 \<and> (\<forall>k \<in> drain_keys slot d5. ev_key e < k) \<and> drain_frame slot d d5
    \<and> (\<forall>c. ds_continuation d5 = Some c \<longrightarrow> key_time_ns (ev_key c) = key_time_ns (ev_key e))
    \<and> (\<exists>sent. ds_outbox d5 = ds_outbox d @ sent \<and> (\<forall>x \<in> set sent. ev_target x \<noteq> node \<and> ev_key e < ev_key x))
    \<and> ds_events_processed d5 = ds_events_processed d"
  proof (cases "direct_child_of e node (first_key (lp_futures slot d4)) (ts_children s1)")
    case None
    have fr: "lp_wf node (lp_futures slot d5)" "fst ` set (lp_futures slot d5) \<subseteq> ev_key ` set (ts_children s1) \<union> fst ` set (lp_futures slot d4)"
      "drain_frame slot d4 d5" "re_transitions (ds_executor d5) = re_transitions (ds_executor d4)"
      "ds_continuation d5 = None" "ds_outbox d5 = ds_outbox d @ filter (\<lambda>c. ev_target c \<noteq> node) (ts_children s1)"
      "ds_events_processed d5 = ds_events_processed d" "slot < length (re_futures (ds_executor d5))"
      using route_children_frame [OF rt [unfolded None] r(1,8)] r(5,6,7) by simp_all
    have "ev_key e < k" if "k \<in> fst ` set (lp_futures slot d5)" for k
      using subsetD [OF fr(2) that]
    proof
      assume "k \<in> ev_key ` set (ts_children s1)"
      then show ?thesis using new by auto
    qed (rule r2)
    then show ?thesis
      using fr new lp_frame_trans [OF fr4 fr(3)] r(4) by (simp add: drain_wf_def drain_keys_def)
  next
    case (Some c)
    note dc = direct_child_Some [OF Some]
    have "lp_futures slot d5 = lp_futures slot d4 \<and> ds_continuation d5 = Some c \<and> ds_outbox d5 = ds_outbox d
        \<and> re_transitions (ds_executor d5) = re_transitions (ds_executor d4) \<and> drain_frame slot d4 d5
        \<and> ds_events_processed d5 = ds_events_processed d"
      using rt r(6,7) unfolding Some by (auto simp: dc(1,2) route_child_def Let_def lp_futures_def result_simps split: if_splits)
    moreover have "ev_key c < k" if k: "k \<in> fst ` set (lp_futures slot d4)" for k
    proof -
      obtain k0 where k0: "first_key (lp_futures slot d4) = Some k0"
        using k first_key_None [of "lp_futures slot d4"] by fastforce
      have "k0 \<le> k" using first_key_least [OF r(1) k0] k by blast
      with dc(4) [OF k0] show ?thesis by (rule less_le_trans)
    qed
    ultimately show ?thesis
      using new [of c] r2 r(1,4,8) dc lp_frame_trans [OF fr4, of "ds_executor d5"]
      by (auto simp: drain_wf_def drain_keys_def lp_frame_def)
  qed
  then show "drain_wf slot node d'" "\<And>k. k \<in> drain_keys slot d' \<Longrightarrow> ev_key e < k" "drain_frame slot d d'"
    "\<And>c. ds_continuation d' = Some c \<Longrightarrow> key_time_ns (ev_key c) = key_time_ns (ev_key e)"
    "\<exists>sent. ds_outbox d' = ds_outbox d @ sent \<and> (\<forall>x \<in> set sent. ev_target x \<noteq> node \<and> ev_key e < ev_key x)"
    "ds_events_processed d' = saturating_add (ds_events_processed d) 1"
    unfolding d' by (auto simp: drain_wf_def drain_keys_def lp_futures_def)
qed

subsection \<open>A drain returns\<close>

definition keys_from :: "event_key set \<Rightarrow> nat" where
  "keys_from K = card {k. \<exists>x \<in> K. x \<le> k}"

lemma keys_from_decreases:
  assumes "e \<in> K" "\<And>k. k \<in> K' \<Longrightarrow> e < k"
  shows "keys_from K' < keys_from K"
  unfolding keys_from_def
proof (rule psubset_card_mono)
  show "finite {k. \<exists>x \<in> K. x \<le> k}" by (rule finite_subset [OF subset_UNIV finite_event_keys])
  have "e \<notin> {k. \<exists>x \<in> K'. x \<le> k}" using assms(2) by (auto simp: not_le)
  moreover have "{k. \<exists>x \<in> K'. x \<le> k} \<subseteq> {k. \<exists>x \<in> K. x \<le> k}"
    using assms by (auto intro: bexI [of _ e] dest: less_imp_le order_trans)
  ultimately show "{k. \<exists>x \<in> K'. x \<le> k} \<subset> {k. \<exists>x \<in> K. x \<le> k}" using assms(1) by blast
qed

lemma drain_step_takes:
  assumes "drain_step slot node d = Some (Inr d')"
  obtains e d1 where "take_event slot d = Some (e, d1)"
  using assms by (cases "take_event slot d") (auto simp: drain_step_def)

lemma drain_induct [consumes 1, case_names step]:
  assumes "drain_wf slot node d"
    and step: "\<And>d. drain_wf slot node d \<Longrightarrow>
      (\<And>d'. drain_step slot node d = Some (Inr d') \<Longrightarrow> P d') \<Longrightarrow> P d"
  shows "P d"
  using assms(1)
proof (induction "keys_from (drain_keys slot d)" arbitrary: d rule: less_induct)
  case less
  show ?case
  proof (rule step [OF less.prems])
    fix d' assume st: "drain_step slot node d = Some (Inr d')"
    obtain e d1 where t: "take_event slot d = Some (e, d1)" by (rule drain_step_takes [OF st])
    note later = drain_step_later [OF less.prems st t]
    show "P d'"
      by (rule less.hyps [OF keys_from_decreases [OF take_event_least(1) [OF less.prems t] later(2)] later(1)])
  qed
qed

lemma drain_loop_returns: "drain_wf slot node d \<Longrightarrow> drain_loop slot node h d \<noteq> None"
proof (induction rule: drain_induct)
  case (step d)
  then show ?case by (auto simp: drain_loop.simps [of slot node h d] split: option.splits sum.splits)
qed

subsection \<open>The events of a drain\<close>

inductive drain_log :: "nat \<Rightarrow> node_id \<Rightarrow> u128 \<Rightarrow> drain_state \<Rightarrow> event list \<Rightarrow> drain_state \<Rightarrow> bool"
  for slot node h where
  stop: "\<not> drain_due slot h d \<Longrightarrow> drain_log slot node h d [] d"
| turn: "drain_due slot h d \<Longrightarrow> take_event slot d = Some (e, d1) \<Longrightarrow> drain_step slot node d = Some (Inr d') \<Longrightarrow>
    drain_log slot node h d' es d'' \<Longrightarrow> drain_log slot node h d (e # es) d''"

lemma drain_loop_log:
  assumes "drain_wf slot node d" "drain_loop slot node h d = Some (Some (Inr d'))"
  shows "\<exists>es. drain_log slot node h d es d'"
  using assms
proof (induction rule: drain_induct)
  case (step d)
  note run = step.prems [unfolded drain_loop.simps [of slot node h d]]
  show ?case
  proof (cases "drain_due slot h d")
    case True
    then obtain d1 where d1: "drain_step slot node d = Some (Inr d1)"
      using run by (auto split: option.splits sum.splits)
    obtain e dt where "take_event slot d = Some (e, dt)" by (rule drain_step_takes [OF d1])
    with step.IH [OF d1] run True d1 show ?thesis by (auto intro: drain_log.turn)
  next
    case False
    then show ?thesis using run by (auto intro: drain_log.stop)
  qed
qed

lemma due_time:
  assumes "drain_due slot h d" "take_event slot d = Some (e, d1)" "drain_wf slot node d"
    "\<And>c. ds_continuation d = Some c \<Longrightarrow> u64_to_u128 (key_time_ns (ev_key c)) < h"
  shows "u64_to_u128 (key_time_ns (ev_key e)) < h"
  using assms
  by (auto simp: drain_due_def take_event_def first_key_def om_first_def drain_wf_def lp_wf_def
      split: option.splits list.splits)

lemma not_due_times:
  assumes "\<not> drain_due slot h d" "drain_wf slot node d" "k \<in> fst ` set (lp_futures slot d)"
  shows "ds_continuation d = None" "h \<le> u64_to_u128 (key_time_ns k)"
proof -
  show "ds_continuation d = None" using assms(1) by (simp add: drain_due_def)
  obtain k0 where k0: "first_key (lp_futures slot d) = Some k0"
    using assms(3) first_key_None [of "lp_futures slot d"] by fastforce
  have "k0 \<le> k" using first_key_least [OF _ k0] assms(2,3) by (auto simp: drain_wf_def)
  then have "u64_to_u128 (key_time_ns k0) \<le> u64_to_u128 (key_time_ns k)"
    by (simp add: u64_to_u128_le_iff event_key_le_time)
  moreover have "h \<le> u64_to_u128 (key_time_ns k0)" using assms(1) k0 by (simp add: drain_due_def not_less)
  ultimately show "h \<le> u64_to_u128 (key_time_ns k)" by (rule order_trans [rotated])
qed

text \<open>A drain takes its events in key order, all below the horizon, and leaves only later ones.\<close>

definition drained :: "nat \<Rightarrow> node_id \<Rightarrow> u128 \<Rightarrow> drain_state \<Rightarrow> event list \<Rightarrow> drain_state \<Rightarrow> bool" where
  "drained slot node h d es d' \<longleftrightarrow> drain_wf slot node d' \<and> drain_frame slot d d' \<and> ds_continuation d' = None
     \<and> sorted_wrt (<) (map ev_key es)
     \<and> (\<forall>e \<in> set es. ev_target e = node \<and> u64_to_u128 (key_time_ns (ev_key e)) < h
          \<and> (\<exists>k \<in> drain_keys slot d. k \<le> ev_key e))
     \<and> (\<forall>k \<in> fst ` set (lp_futures slot d'). h \<le> u64_to_u128 (key_time_ns k)
          \<and> (\<exists>k0 \<in> drain_keys slot d. k0 \<le> k) \<and> (\<forall>e \<in> set es. ev_key e < k))
     \<and> (\<exists>sent. ds_outbox d' = ds_outbox d @ sent
          \<and> (\<forall>x \<in> set sent. ev_target x \<noteq> node \<and> (\<exists>e \<in> set es. ev_key e < ev_key x)))
     \<and> unat (ds_events_processed d') = min (unat (ds_events_processed d) + length es) (2 ^ 64 - 1)"

lemma drainedD:
  assumes "drained slot node h d es d'"
  shows "drain_wf slot node d'" "drain_frame slot d d'" "ds_continuation d' = None"
    "sorted_wrt (<) (map ev_key es)" "\<And>e. e \<in> set es \<Longrightarrow> ev_target e = node"
    "\<And>e. e \<in> set es \<Longrightarrow> u64_to_u128 (key_time_ns (ev_key e)) < h"
    "\<And>e. e \<in> set es \<Longrightarrow> \<exists>k \<in> drain_keys slot d. k \<le> ev_key e"
    "\<And>k. k \<in> fst ` set (lp_futures slot d') \<Longrightarrow> h \<le> u64_to_u128 (key_time_ns k)"
    "\<And>k. k \<in> fst ` set (lp_futures slot d') \<Longrightarrow> \<exists>k0 \<in> drain_keys slot d. k0 \<le> k"
    "\<And>k e. k \<in> fst ` set (lp_futures slot d') \<Longrightarrow> e \<in> set es \<Longrightarrow> ev_key e < k"
    "\<exists>sent. ds_outbox d' = ds_outbox d @ sent
       \<and> (\<forall>x \<in> set sent. ev_target x \<noteq> node \<and> (\<exists>e \<in> set es. ev_key e < ev_key x))"
    "unat (ds_events_processed d') = min (unat (ds_events_processed d) + length es) (2 ^ 64 - 1)"
  using assms unfolding drained_def by blast+

lemma drained_stop:
  assumes "\<not> drain_due slot h d" "drain_wf slot node d"
  shows "drained slot node h d [] d"
proof -
  have "unat (ds_events_processed d) \<le> 2 ^ 64 - 1" using unat_lt [of "ds_events_processed d"] by simp
  moreover have "ds_continuation d = None" using assms(1) by (simp add: drain_due_def)
  ultimately show ?thesis
    using assms(2) not_due_times(2) [OF assms] unfolding drained_def by (auto simp: drain_keys_def)
qed

lemma drained_turn:
  assumes wf: "drain_wf slot node d" and t: "take_event slot d = Some (e, d1)"
    and st: "drain_step slot node d = Some (Inr d')" and time: "u64_to_u128 (key_time_ns (ev_key e)) < h"
    and rest: "drained slot node h d' es d''"
  shows "drained slot node h d (e # es) d''"
proof -
  note step = drain_step_later [OF wf st t] and tk = take_event_least [OF wf t] and r = drainedD [OF rest]
  have above: "ev_key e < k" if "\<exists>k0 \<in> drain_keys slot d'. k0 \<le> k" for k
    using that step(2) by (blast intro: order.strict_trans2)
  obtain sent sent' where sent: "ds_outbox d' = ds_outbox d @ sent"
      "\<And>x. x \<in> set sent \<Longrightarrow> ev_target x \<noteq> node \<and> ev_key e < ev_key x" "ds_outbox d'' = ds_outbox d' @ sent'"
      "\<And>x. x \<in> set sent' \<Longrightarrow> ev_target x \<noteq> node \<and> (\<exists>e \<in> set es. ev_key e < ev_key x)"
    using step(5) r(11) by blast
  have late: "ev_key e < ev_key x" if "x \<in> set es" for x by (rule above [OF r(7) [OF that]])
  have "ev_target x \<noteq> node \<and> (\<exists>y \<in> set (e # es). ev_key y < ev_key x)" if "x \<in> set (sent @ sent')" for x
    using that sent(2,4) [of x] by auto
  then have out: "\<exists>sent. ds_outbox d'' = ds_outbox d @ sent
      \<and> (\<forall>x \<in> set sent. ev_target x \<noteq> node \<and> (\<exists>y \<in> set (e # es). ev_key y < ev_key x))"
    using sent(1,3) by (intro exI [of _ "sent @ sent'"]) simp
  have n: "unat (ds_events_processed d'') = min (unat (ds_events_processed d) + length (e # es)) (2 ^ 64 - 1)"
    using r(12) unat_saturating_add [of "ds_events_processed d" 1] by (simp add: step(6))
  have from_e: "\<exists>k0 \<in> drain_keys slot d. k0 \<le> k" if "\<exists>k0 \<in> drain_keys slot d'. k0 \<le> k" for k
    using above [OF that] tk(1) by (blast intro: less_imp_le)
  have sorted: "sorted_wrt (<) (map ev_key (e # es))" using late r(4) by auto
  have taken: "\<forall>x \<in> set (e # es). ev_target x = node \<and> u64_to_u128 (key_time_ns (ev_key x)) < h
      \<and> (\<exists>k \<in> drain_keys slot d. k \<le> ev_key x)"
    using tk(1,2) time r(5-7) from_e by auto
  have "h \<le> u64_to_u128 (key_time_ns k) \<and> (\<exists>k0 \<in> drain_keys slot d. k0 \<le> k) \<and> (\<forall>x \<in> set (e # es). ev_key x < k)"
    if "k \<in> fst ` set (lp_futures slot d'')" for k
    using r(8) [OF that] r(9) [OF that] r(10) [OF that] above [of k] from_e [of k] by simp
  then show ?thesis
    using r(1,3) lp_frame_trans [OF step(3) r(2)] sorted taken out n unfolding drained_def by blast
qed

lemma drain_log_drained:
  assumes "drain_log slot node h d es d'" "drain_wf slot node d"
    "\<And>c. ds_continuation d = Some c \<Longrightarrow> u64_to_u128 (key_time_ns (ev_key c)) < h"
  shows "drained slot node h d es d'"
  using assms
proof (induction rule: drain_log.induct)
  case (stop d)
  then show ?case by (intro drained_stop)
next
  case (turn d e d1 d' es d'')
  have time: "u64_to_u128 (key_time_ns (ev_key e)) < h" using due_time [OF turn.hyps(1,2) turn.prems(1)] turn.prems(2) by blast
  note step = drain_step_later [OF turn.prems(1) turn.hyps(3,2)]
  have "drained slot node h d' es d''"
    using turn.IH [OF step(1)] step(4) time by metis
  then show ?case by (rule drained_turn [OF turn.prems(1) turn.hyps(2,3) time])
qed

subsection \<open>The processes of an executor\<close>

definition node_of :: "simulation_image \<Rightarrow> nat \<Rightarrow> node_id" where
  "node_of img slot = nd_id (img_nodes img ! slot)"

definition futures_wf :: "simulation_image \<Rightarrow> round_executor \<Rightarrow> bool" where
  "futures_wf img r \<longleftrightarrow> re_image r = img \<and> ts_children (re_transitions r) = []
     \<and> length (re_futures r) = length (img_nodes img)
     \<and> (\<forall>slot < length (img_nodes img). lp_wf (node_of img slot) (re_futures r ! slot))"

definition frontier_of :: "futures list \<Rightarrow> nat \<rightharpoonup> u64" where
  "frontier_of fs slot = (if slot < length fs then map_option key_time_ns (first_key (fs ! slot)) else None)"

text \<open>The index holds the frontier of every process but the waiting ones, which a round has taken.\<close>

definition frontier_wf :: "simulation_image \<Rightarrow> nat set \<Rightarrow> round_executor \<Rightarrow> bool" where
  "frontier_wf img waiting r \<longleftrightarrow> (\<exists>k. lf_rel (node_of img) (length (img_nodes img)) (re_frontier r) k
     (frontier_of (re_futures r) |` (- waiting)))"

definition pending_from :: "u128 \<Rightarrow> nat set \<Rightarrow> round_executor \<Rightarrow> bool" where
  "pending_from h slots r \<longleftrightarrow> (\<forall>slot \<in> slots. \<forall>k \<in> fst ` set (re_futures r ! slot). h \<le> u64_to_u128 (key_time_ns k))"

lemma pending_from_same:
  "pending_from h slots r \<Longrightarrow> (\<And>i. i \<in> slots \<Longrightarrow> re_futures r' ! i = re_futures r ! i) \<Longrightarrow> pending_from h slots r'"
  by (simp add: pending_from_def)

lemma start_drain_wf:
  "futures_wf img r \<Longrightarrow> slot < length (img_nodes img) \<Longrightarrow> drain_wf slot (node_of img slot) (start_drain r)"
  by (simp add: futures_wf_def drain_wf_def start_drain_def lp_futures_def)

lemma drain_lp_returns: "futures_wf img r \<Longrightarrow> drain_lp slot h r \<noteq> None"
  using drain_loop_returns [OF start_drain_wf, of img r slot h]
  by (auto simp: drain_lp_def Let_def obind_def futures_wf_def node_of_def split: option.splits sum.splits)

lemma obind_Inr: "obind m f = Some (Some (Inr y)) \<longleftrightarrow> (\<exists>x. m = Some (Some (Inr x)) \<and> f x = Some (Some (Inr y)))"
  by (auto simp: obind_def split: option.splits sum.splits)

lemma map_sum_Inr: "map_sum f g z = Inr y \<longleftrightarrow> (\<exists>x. z = Inr x \<and> y = g x)"
  by (cases z) auto

lemma drain_lp_log:
  assumes wf: "futures_wf img r" and run: "drain_lp slot h r = Some (Some (Inr (work, outbox, r')))"
  obtains es d where "slot < length (img_nodes img)" "drain_log slot (node_of img slot) h (start_drain r) es d"
    "drained slot (node_of img slot) h (start_drain r) es d" "r' = ds_executor d" "outbox = ds_outbox d"
    "lw_events_processed work = ds_events_processed d" "futures_wf img r'" "lp_frame slot r r'"
proof -
  have slot: "slot < length (img_nodes img)" and img: "re_image r = img"
    using run wf by (auto simp: drain_lp_def futures_wf_def split: if_splits)
  obtain d where d: "drain_loop slot (node_of img slot) h (start_drain r) = Some (Some (Inr d))"
      "r' = ds_executor d" "outbox = ds_outbox d" "lw_events_processed work = ds_events_processed d"
    using run img by (auto simp: drain_lp_def Let_def obind_Inr node_of_def split: if_splits)
  have dw: "drain_wf slot (node_of img slot) (start_drain r)" by (rule start_drain_wf [OF wf slot])
  obtain es where log: "drain_log slot (node_of img slot) h (start_drain r) es d"
    using drain_loop_log [OF dw d(1)] by blast
  have dr: "drained slot (node_of img slot) h (start_drain r) es d"
    by (rule drain_log_drained [OF log dw]) (simp add: start_drain_def)
  have fr: "lp_frame slot r r'" using drainedD(2) [OF dr] d(2) by (simp add: start_drain_def)
  have "lp_wf (node_of img i) (re_futures r' ! i)" if "i < length (img_nodes img)" for i
    using wf fr that drainedD(1) [OF dr] d(2)
    by (cases "i = slot") (simp_all add: futures_wf_def lp_frame_def drain_wf_def lp_futures_def)
  then have "futures_wf img r'"
    using wf fr drainedD(1) [OF dr] d(2) by (simp add: futures_wf_def lp_frame_def drain_wf_def)
  with that slot log dr d fr show thesis by blast
qed

lemma update_frontier_rel:
  assumes rel: "lf_rel (node_of img) (length (img_nodes img)) (re_frontier r) k m" and wf: "futures_wf img r"
    and up: "update_frontier slot r = Some (Inr r')"
    and m: "\<And>s. s \<noteq> slot \<Longrightarrow> m s = (frontier_of (re_futures r) |` (- waiting)) s" and w: "slot \<notin> waiting"
  shows "frontier_wf img waiting r'" "futures_wf img r'" "re_futures r' = re_futures r"
    "re_minimum_lookahead_ns r' = re_minimum_lookahead_ns r"
proof -
  have slot: "slot < length (img_nodes img)" and img: "re_image r = img"
    and len: "length (re_futures r) = length (img_nodes img)"
    using up wf by (auto simp: update_frontier_def futures_wf_def split: if_splits)
  obtain f where f: "lf_update slot (node_of img slot) (first_key (re_futures r ! slot)) (re_frontier r) = Some (Inr f)"
    and r': "r' = r\<lparr>re_frontier := f\<rparr>"
    using up img by (auto simp: update_frontier_def node_of_def map_sum_Inr split: if_splits)
  have "m(slot := map_option key_time_ns (first_key (re_futures r ! slot))) = frontier_of (re_futures r) |` (- waiting)"
    using m w slot len by (auto simp: frontier_of_def fun_eq_iff)
  then show "frontier_wf img waiting r'"
    using lf_update_rel [OF rel slot f] by (auto simp: frontier_wf_def r')
  show "futures_wf img r'" "re_futures r' = re_futures r" "re_minimum_lookahead_ns r' = re_minimum_lookahead_ns r"
    using wf by (simp_all add: futures_wf_def r' re_image_def)
qed

subsection \<open>The drains of a round\<close>

inductive active_log :: "u128 \<Rightarrow> lazy_entry list \<Rightarrow> round_state \<Rightarrow> (nat \<times> event list) list \<Rightarrow> round_state \<Rightarrow> bool"
  for h where
  none: "active_log h [] st [] st"
| drain: "drain_log (le_lp_slot entry) (node_of (re_image (rs_executor st)) (le_lp_slot entry)) h
      (start_drain (rs_executor st)) es d \<Longrightarrow>
    drain_entry h entry st = Some (Some (Inr st')) \<Longrightarrow> active_log h active st' plog st'' \<Longrightarrow>
    active_log h (entry # active) st ((le_lp_slot entry, es) # plog) st''"

definition log_between :: "simulation_image \<Rightarrow> u128 \<Rightarrow> u128 \<Rightarrow> nat \<times> event list \<Rightarrow> bool" where
  "log_between img lo h = (\<lambda>(slot, es). sorted_wrt (<) (map ev_key es)
     \<and> (\<forall>e \<in> set es. ev_target e = node_of img slot \<and> lo \<le> u64_to_u128 (key_time_ns (ev_key e))
          \<and> u64_to_u128 (key_time_ns (ev_key e)) < h))"

text \<open>One process of the round: it is no longer waiting, and has no event below the horizon.\<close>

lemma drain_entry_log:
  assumes wf: "futures_wf img (rs_executor st)" and fr: "frontier_wf img waiting (rs_executor st)"
    and w: "le_lp_slot entry \<in> waiting"
    and run: "drain_entry h entry st = Some (Some (Inr st'))"
    and lo: "pending_from lo waiting (rs_executor st)"
  obtains es d where "drain_log (le_lp_slot entry) (node_of (re_image (rs_executor st)) (le_lp_slot entry)) h
      (start_drain (rs_executor st)) es d" "log_between img lo h (le_lp_slot entry, es)"
    "futures_wf img (rs_executor st')" "frontier_wf img (waiting - {le_lp_slot entry}) (rs_executor st')"
    "pending_from h {le_lp_slot entry} (rs_executor st')"
    "\<And>i. i \<noteq> le_lp_slot entry \<Longrightarrow> re_futures (rs_executor st') ! i = re_futures (rs_executor st) ! i"
    "re_minimum_lookahead_ns (rs_executor st') = re_minimum_lookahead_ns (rs_executor st)"
proof -
  let ?s = "le_lp_slot entry" and ?n = "length (img_nodes img)"
  obtain work outbox r r' where dl: "drain_lp ?s h (rs_executor st) = Some (Some (Inr (work, outbox, r)))"
    and up: "update_frontier ?s r = Some (Inr r')" and st': "rs_executor st' = r'"
    using run by (auto simp: drain_entry_def obind_Inr map_sum_Inr)
  obtain es d where l: "drain_log ?s (node_of img ?s) h (start_drain (rs_executor st)) es d"
      "drained ?s (node_of img ?s) h (start_drain (rs_executor st)) es d" "r = ds_executor d" "futures_wf img r"
      "lp_frame ?s (rs_executor st) r"
    by (rule drain_lp_log [OF wf dl])
  note dr = drainedD [OF l(2)]
  have img: "re_image (rs_executor st) = img" using wf by (simp add: futures_wf_def)
  obtain k where k: "lf_rel (node_of img) ?n (re_frontier r) k (frontier_of (re_futures (rs_executor st)) |` (- waiting))"
    using fr l(5) by (auto simp: frontier_wf_def lp_frame_def)
  have m: "(frontier_of (re_futures (rs_executor st)) |` (- waiting)) s = (frontier_of (re_futures r) |` (- (waiting - {?s}))) s"
    if "s \<noteq> ?s" for s
    using that l(5) by (simp add: restrict_map_def frontier_of_def lp_frame_def)
  have "?s \<notin> waiting - {?s}" by simp
  note u = update_frontier_rel [OF k l(4) up m this]
  have keys: "drain_keys ?s (start_drain (rs_executor st)) = fst ` set (re_futures (rs_executor st) ! ?s)"
    by (simp add: drain_keys_def start_drain_def lp_futures_def)
  have "lo \<le> u64_to_u128 (key_time_ns (ev_key e))" if "e \<in> set es" for e
  proof -
    obtain k where k: "k \<in> fst ` set (re_futures (rs_executor st) ! ?s)" "k \<le> ev_key e"
      using dr(7) [OF \<open>e \<in> set es\<close>] keys by blast
    then have "lo \<le> u64_to_u128 (key_time_ns k)" using lo w by (auto simp: pending_from_def)
    also have "\<dots> \<le> u64_to_u128 (key_time_ns (ev_key e))" by (simp add: u64_to_u128_le_iff event_key_le_time [OF k(2)])
    finally show ?thesis .
  qed
  then have "log_between img lo h (?s, es)" using dr(4-6) by (simp add: log_between_def)
  moreover have "pending_from h {?s} (rs_executor st')"
    using dr(8) u(3) by (auto simp: pending_from_def st' l(3) lp_futures_def)
  moreover have "re_futures (rs_executor st') ! i = re_futures (rs_executor st) ! i" if "i \<noteq> ?s" for i
    using u(3) l(5) that by (simp add: st' lp_frame_def)
  moreover have "re_minimum_lookahead_ns (rs_executor st') = re_minimum_lookahead_ns (rs_executor st)"
    using u(4) l(5) by (simp add: st' lp_frame_def)
  ultimately show thesis using that [of es d] l(1) img u(1,2) st' by simp
qed

lemma drain_active_log:
  assumes "drain_active h active st = Some (Some (Inr st'))" "futures_wf img (rs_executor st)"
    "frontier_wf img (le_lp_slot ` set active) (rs_executor st)" "distinct (map le_lp_slot active)"
    "pending_from lo (le_lp_slot ` set active) (rs_executor st)"
  shows "\<exists>plog. active_log h active st plog st' \<and> map fst plog = map le_lp_slot active
    \<and> list_all (log_between img lo h) plog \<and> futures_wf img (rs_executor st') \<and> frontier_wf img {} (rs_executor st')
    \<and> pending_from h (le_lp_slot ` set active) (rs_executor st')
    \<and> (\<forall>i. i \<notin> le_lp_slot ` set active \<longrightarrow> re_futures (rs_executor st') ! i = re_futures (rs_executor st) ! i)
    \<and> re_minimum_lookahead_ns (rs_executor st') = re_minimum_lookahead_ns (rs_executor st)"
  using assms
proof (induction active arbitrary: st)
  case Nil
  then show ?case by (auto intro: active_log.none simp: pending_from_def)
next
  case (Cons entry active)
  let ?s = "le_lp_slot entry" and ?W = "le_lp_slot ` set active"
  obtain st1 where s1: "drain_entry h entry st = Some (Some (Inr st1))"
    and s2: "drain_active h active st1 = Some (Some (Inr st'))"
    using Cons.prems(1) by (auto simp: obind_Inr)
  obtain es d where e: "drain_log ?s (node_of (re_image (rs_executor st)) ?s) h (start_drain (rs_executor st)) es d"
    "log_between img lo h (?s, es)" "futures_wf img (rs_executor st1)"
    "frontier_wf img (le_lp_slot ` set (entry # active) - {?s}) (rs_executor st1)" "pending_from h {?s} (rs_executor st1)"
    "\<And>i. i \<noteq> ?s \<Longrightarrow> re_futures (rs_executor st1) ! i = re_futures (rs_executor st) ! i"
    "re_minimum_lookahead_ns (rs_executor st1) = re_minimum_lookahead_ns (rs_executor st)"
    by (rule drain_entry_log [OF Cons.prems(2,3) _ s1 Cons.prems(5)]) auto
  have out: "?s \<notin> ?W" using Cons.prems(4) by simp
  then have W: "le_lp_slot ` set (entry # active) - {?s} = ?W" by auto
  have "pending_from lo ?W (rs_executor st)" using Cons.prems(5) by (simp add: pending_from_def)
  moreover have "i \<noteq> ?s" if "i \<in> ?W" for i using out that by metis
  ultimately have lo: "pending_from lo ?W (rs_executor st1)" by (rule pending_from_same [OF _ e(6)])
  obtain plog where p: "active_log h active st1 plog st'" "map fst plog = map le_lp_slot active"
    "list_all (log_between img lo h) plog" "futures_wf img (rs_executor st')" "frontier_wf img {} (rs_executor st')"
    "pending_from h ?W (rs_executor st')"
    "\<And>i. i \<notin> ?W \<Longrightarrow> re_futures (rs_executor st') ! i = re_futures (rs_executor st1) ! i"
    "re_minimum_lookahead_ns (rs_executor st') = re_minimum_lookahead_ns (rs_executor st1)"
    using Cons.IH [OF s2 e(3) e(4) [unfolded W] _ lo] Cons.prems(4) by auto
  have "pending_from h {?s} (rs_executor st')" using e(5) p(7) [OF out] by (simp add: pending_from_def)
  then have "pending_from h (le_lp_slot ` set (entry # active)) (rs_executor st')"
    using p(6) by (auto simp: pending_from_def)
  then show ?case
    using active_log.drain [OF e(1) s1 p(1)] p(2-5,7,8) e(2,6,7)
    by (intro exI [of _ "(?s, es) # plog"]) auto
qed

subsection \<open>The check and the exchange\<close>

lemma frontier_wf_all:
  "frontier_wf img {} r \<longleftrightarrow> (\<exists>k. lf_rel (node_of img) (length (img_nodes img)) (re_frontier r) k (frontier_of (re_futures r)))"
proof -
  have "frontier_of (re_futures r) |` (- {}) = frontier_of (re_futures r)" by (simp add: restrict_map_def)
  then show ?thesis unfolding frontier_wf_def by (simp del: Compl_empty_eq)
qed

lemma frontier_of_pending:
  assumes "futures_wf img r" "pending_from h {..<length (img_nodes img)} r" "frontier_of (re_futures r) s = Some t"
  shows "h \<le> u64_to_u128 t"
proof -
  obtain k where k: "s < length (img_nodes img)" "first_key (re_futures r ! s) = Some k" "t = key_time_ns k"
    using assms(1,3) by (auto simp: frontier_of_def futures_wf_def split: if_splits)
  have "k \<in> fst ` set (re_futures r ! s)"
    using first_key_least [OF _ k(2)] assms(1) k(1) by (auto simp: futures_wf_def)
  then show ?thesis using assms(2) k(1,3) by (auto simp: pending_from_def)
qed

lemma peek_pending:
  assumes "futures_wf img r" "frontier_wf img {} r"
  obtains found f where "lf_peek_min (re_frontier r) = Some (found, f)" "futures_wf img (r\<lparr>re_frontier := f\<rparr>)"
    "frontier_wf img {} (r\<lparr>re_frontier := f\<rparr>)"
    "\<And>s. found = None \<Longrightarrow> s < length (img_nodes img) \<Longrightarrow> re_futures r ! s = []"
    "\<And>e. found = Some e \<Longrightarrow> frontier_of (re_futures r) (le_lp_slot e) = Some (le_time_ns e)"
    "\<And>e. found = Some e \<Longrightarrow> pending_from (u64_to_u128 (le_time_ns e)) {..<length (img_nodes img)} r"
proof -
  let ?n = "length (img_nodes img)" and ?m = "frontier_of (re_futures r)"
  obtain k where "lf_rel (node_of img) ?n (re_frontier r) k ?m" using assms(2) by (auto simp: frontier_wf_all)
  then obtain found f where p: "lf_peek_min (re_frontier r) = Some (found, f)" "lf_rel (node_of img) ?n f k ?m"
      "map_option le_answer found = frontier_least (node_of img) ?n ?m"
    using lf_peek_min_spec by metis
  have e: "frontier_least (node_of img) ?n ?m = Some (le_time_ns e, le_node e, le_lp_slot e)" if "found = Some e" for e
    using p(3) that by (simp add: le_answer_def)
  show thesis
  proof (rule that [OF p(1)])
    show "futures_wf img (r\<lparr>re_frontier := f\<rparr>)" using assms(1) by (simp add: futures_wf_def re_image_def)
    show "frontier_wf img {} (r\<lparr>re_frontier := f\<rparr>)" using p(2) by (auto simp: frontier_wf_all)
    show "re_futures r ! s = []" if "found = None" "s < length (img_nodes img)" for s
      using p(3) that frontier_least_NoneD [of "node_of img" ?n ?m s] assms(1)
      by (auto simp: frontier_of_def first_key_None futures_wf_def)
    show "?m (le_lp_slot e) = Some (le_time_ns e)" if "found = Some e" for e
      by (rule frontier_least_Some(2) [OF e [OF that]])
    show "pending_from (u64_to_u128 (le_time_ns e)) {..<?n} r" if f: "found = Some e" for e
      unfolding pending_from_def
    proof (intro ballI)
      fix s k assume s: "s \<in> {..<?n}" and k: "k \<in> fst ` set (re_futures r ! s)"
      obtain k0 where k0: "first_key (re_futures r ! s) = Some k0"
        using k first_key_None [of "re_futures r ! s"] by fastforce
      have "k0 \<le> k" using first_key_least [OF _ k0] k s assms(1) by (auto simp: futures_wf_def)
      moreover have "?m s = Some (key_time_ns k0)" using s k0 assms(1) by (simp add: frontier_of_def futures_wf_def)
      then have "le_time_ns e \<le> key_time_ns k0" using frontier_least_Some(4) [OF e [OF f]] s by blast
      ultimately show "u64_to_u128 (le_time_ns e) \<le> u64_to_u128 (key_time_ns k)"
        using event_key_le_time by (auto simp: u64_to_u128_le_iff intro: order_trans)
    qed
  qed
qed

text \<open>The check never fires: a drained round has nothing left below its horizon.\<close>

lemma check_drained_passes:
  assumes "futures_wf img (rs_executor st)" "frontier_wf img {} (rs_executor st)"
    "pending_from h {..<length (img_nodes img)} (rs_executor st)"
  obtains f where "check_drained h st = Some (Inr (st\<lparr>rs_executor := (rs_executor st)\<lparr>re_frontier := f\<rparr>\<rparr>))"
    "futures_wf img ((rs_executor st)\<lparr>re_frontier := f\<rparr>)" "frontier_wf img {} ((rs_executor st)\<lparr>re_frontier := f\<rparr>)"
proof -
  obtain found f where p: "lf_peek_min (re_frontier (rs_executor st)) = Some (found, f)"
      "futures_wf img ((rs_executor st)\<lparr>re_frontier := f\<rparr>)" "frontier_wf img {} ((rs_executor st)\<lparr>re_frontier := f\<rparr>)"
      "\<And>e. found = Some e \<Longrightarrow> frontier_of (re_futures (rs_executor st)) (le_lp_slot e) = Some (le_time_ns e)"
    using assms(1,2) by (rule peek_pending) blast
  have "\<not> u64_to_u128 (le_time_ns e) < h" if "found = Some e" for e
    using frontier_of_pending [OF assms(1,3) p(4) [OF that]] by simp
  then have "check_drained h st = Some (Inr (st\<lparr>rs_executor := (rs_executor st)\<lparr>re_frontier := f\<rparr>\<rparr>))"
    using p(1) by (cases found) (simp_all add: check_drained_def Let_def)
  then show thesis using that p by blast
qed

lemma insert_remote_wf:
  assumes "insert_remote h events q = Inr q'" "lp_wf node q" "\<And>e. e \<in> set events \<Longrightarrow> ev_target e = node"
  shows "lp_wf node q' \<and> fst ` set q' \<subseteq> fst ` set q \<union> ev_key ` set events
    \<and> (\<forall>e \<in> set events. h \<le> u64_to_u128 (key_time_ns (ev_key e)))"
  using assms
proof (induction events arbitrary: q)
  case (Cons e events)
  let ?q = "om_insert (ev_key e) e q"
  have c: "insert_remote h events ?q = Inr q'" "h \<le> u64_to_u128 (key_time_ns (ev_key e))"
    using Cons.prems(1) by (auto split: if_splits simp: not_less)
  have "lp_wf node ?q" using Cons.prems(2,3) by (simp add: lp_wf_insert)
  moreover have "fst ` set ?q \<subseteq> insert (ev_key e) (fst ` set q)" by (auto dest!: set_om_insert)
  moreover note ih = Cons.IH [OF c(1)]
  ultimately have "fst ` set q' \<subseteq> fst ` set q \<union> ev_key ` set (e # events)"
    using Cons.prems(3) unfolding list.set image_insert by blast
  with ih \<open>lp_wf node ?q\<close> Cons.prems(3) c(2) show ?case by simp
qed simp

lemma merge_remote_step:
  assumes run: "merge_remote h (event # events) st = Some (Inr st')"
  obtains s q r where "image_node_slot (re_image (rs_executor st)) (ev_target event) = Some s"
    "s < length (re_futures (rs_executor st))"
    "insert_remote h (event # takeWhile (\<lambda>e. ev_target e = ev_target event) events) (re_futures (rs_executor st) ! s) = Inr q"
    "update_frontier s ((rs_executor st)\<lparr>re_futures := (re_futures (rs_executor st))[s := q]\<rparr>) = Some (Inr r)"
    "merge_remote h (dropWhile (\<lambda>e. ev_target e = ev_target event) events)
       (st\<lparr>rs_executor := r, rs_frontier_updates := saturating_add (rs_frontier_updates st) 1\<rparr>) = Some (Inr st')"
proof -
  note run = run [unfolded merge_remote.simps(2) Let_def]
  obtain s where s: "image_node_slot (re_image (rs_executor st)) (ev_target event) = Some s"
    using run by (cases "image_node_slot (re_image (rs_executor st)) (ev_target event)") simp_all
  have l: "s < length (re_futures (rs_executor st))"
    using run s by (simp del: insert_remote.simps split: if_splits)
  let ?i = "insert_remote h (event # takeWhile (\<lambda>e. ev_target e = ev_target event) events) (re_futures (rs_executor st) ! s)"
  obtain q where q: "?i = Inr q" using run s l by (cases ?i) (simp_all del: insert_remote.simps)
  let ?u = "update_frontier s ((rs_executor st)\<lparr>re_futures := (re_futures (rs_executor st))[s := q]\<rparr>)"
  obtain r where r: "?u = Some (Inr r)"
    using run s l q by (cases ?u) (simp_all del: insert_remote.simps split: sum.splits)
  show thesis using that [OF s l q r] run s l q r by (simp del: insert_remote.simps)
qed

lemma merge_remote_wf:
  assumes "merge_remote h events st = Some (Inr st')" "futures_wf img (rs_executor st)"
    "frontier_wf img {} (rs_executor st)" "pending_from h {..<length (img_nodes img)} (rs_executor st)"
  shows "futures_wf img (rs_executor st') \<and> frontier_wf img {} (rs_executor st')
    \<and> pending_from h {..<length (img_nodes img)} (rs_executor st')
    \<and> re_minimum_lookahead_ns (rs_executor st') = re_minimum_lookahead_ns (rs_executor st)
    \<and> rs_lp_work st' = rs_lp_work st \<and> rs_events_processed st' = rs_events_processed st"
  using assms
proof (induction "length events" arbitrary: events st rule: less_induct)
  case less
  show ?case
  proof (cases events)
    case Nil
    then show ?thesis using less.prems by simp
  next
    case (Cons event es)
    let ?r = "rs_executor st" and ?same = "\<lambda>e. ev_target e = ev_target event" and ?n = "length (img_nodes img)"
    have img: "re_image ?r = img" and len: "length (re_futures ?r) = ?n"
      using less.prems(2) by (simp_all add: futures_wf_def)
    obtain s q r where s: "image_node_slot (re_image ?r) (ev_target event) = Some s"
      and q: "insert_remote h (event # takeWhile ?same es) (re_futures ?r ! s) = Inr q"
      and r: "update_frontier s (?r\<lparr>re_futures := (re_futures ?r)[s := q]\<rparr>) = Some (Inr r)"
      and rest: "merge_remote h (dropWhile ?same es)
        (st\<lparr>rs_executor := r, rs_frontier_updates := saturating_add (rs_frontier_updates st) 1\<rparr>) = Some (Inr st')"
      by (rule merge_remote_step [OF less.prems(1) [unfolded Cons]])
    let ?r1 = "?r\<lparr>re_futures := (re_futures ?r)[s := q]\<rparr>"
    have sn: "s < ?n" "node_of img s = ev_target event"
      using s img by (auto simp: image_node_slot_def node_of_def split: if_splits)
    have "lp_wf (node_of img s) (re_futures ?r ! s)" using less.prems(2) sn(1) by (simp add: futures_wf_def)
    moreover have "ev_target e = node_of img s" if "e \<in> set (event # takeWhile ?same es)" for e
      using that sn(2) by (auto dest: set_takeWhileD)
    ultimately have qwf: "lp_wf (node_of img s) q"
      "fst ` set q \<subseteq> fst ` set (re_futures ?r ! s) \<union> ev_key ` set (event # takeWhile ?same es)"
      "\<forall>e \<in> set (event # takeWhile ?same es). h \<le> u64_to_u128 (key_time_ns (ev_key e))"
      using insert_remote_wf [OF q] by metis+
    have wf1: "futures_wf img ?r1"
      using less.prems(2) qwf(1) sn by (simp add: futures_wf_def re_image_def nth_list_update)
    obtain k where k: "lf_rel (node_of img) ?n (re_frontier ?r1) k (frontier_of (re_futures ?r))"
      using less.prems(3) by (auto simp: frontier_wf_all)
    have m: "frontier_of (re_futures ?r) x = (frontier_of (re_futures ?r1) |` (- {})) x" if "x \<noteq> s" for x
      using that by (simp add: frontier_of_def restrict_map_def)
    have "s \<notin> {}" by simp
    note u = update_frontier_rel [OF k wf1 r m this]
    have "h \<le> u64_to_u128 (key_time_ns k)" if "k \<in> fst ` set q" for k
      using subsetD [OF qwf(2) that]
    proof
      assume "k \<in> fst ` set (re_futures ?r ! s)"
      then show ?thesis using less.prems(4) sn(1) unfolding pending_from_def by blast
    next
      assume "k \<in> ev_key ` set (event # takeWhile ?same es)"
      then show ?thesis using qwf(3) by blast
    qed
    moreover have "re_futures r ! x = (if x = s then q else re_futures ?r ! x)" for x
      using u(3) len sn(1) by (simp add: nth_list_update)
    ultimately have p: "pending_from h {..<?n} r"
      using less.prems(4) unfolding pending_from_def by auto
    have short: "length (dropWhile ?same es) < length events"
      using length_dropWhile_le [of ?same es] by (simp add: Cons)
    from less.hyps [OF short rest] u p show ?thesis by simp
  qed
qed

subsection \<open>One round\<close>

lemma frontier_wf_due:
  assumes "futures_wf img r" "frontier_wf img {} r"
  obtains active f where "collect_due (lf_pop_before h) (re_frontier r) = Some (Some (active, f))"
    "futures_wf img (r\<lparr>re_frontier := f\<rparr>)" "frontier_wf img (le_lp_slot ` set active) (r\<lparr>re_frontier := f\<rparr>)"
    "distinct (map le_lp_slot active)" "le_lp_slot ` set active = due_slots h (frontier_of (re_futures r))"
proof -
  obtain k where k: "lf_rel (node_of img) (length (img_nodes img)) (re_frontier r) k (frontier_of (re_futures r))"
    using assms(2) by (auto simp: frontier_wf_all)
  obtain active f where c: "collect_due (lf_pop_before h) (re_frontier r) = Some (Some (active, f))"
    "lf_rel (node_of img) (length (img_nodes img)) f k (frontier_of (re_futures r) |` (- due_slots h (frontier_of (re_futures r))))"
    "distinct (map le_lp_slot active)" "le_lp_slot ` set active = due_slots h (frontier_of (re_futures r))"
    using collect_due_lazy [OF k, of h] by blast
  have "futures_wf img (r\<lparr>re_frontier := f\<rparr>)" using assms(1) by (simp add: futures_wf_def re_image_def)
  then show thesis using that [OF c(1) _ _ c(3,4)] c(2) by (auto simp: frontier_wf_def c(4))
qed

lemma not_due_pending:
  assumes wf: "futures_wf img r"
  shows "pending_from h ({..<length (img_nodes img)} - due_slots h (frontier_of (re_futures r))) r"
  unfolding pending_from_def
proof (intro ballI)
  fix s k assume s: "s \<in> {..<length (img_nodes img)} - due_slots h (frontier_of (re_futures r))"
    and k: "k \<in> fst ` set (re_futures r ! s)"
  obtain k0 where k0: "first_key (re_futures r ! s) = Some k0"
    using k first_key_None [of "re_futures r ! s"] by fastforce
  have "k0 \<le> k" using first_key_least [OF _ k0] k s wf by (auto simp: futures_wf_def)
  then have "u64_to_u128 (key_time_ns k0) \<le> u64_to_u128 (key_time_ns k)"
    by (simp add: u64_to_u128_le_iff event_key_le_time)
  moreover have "h \<le> u64_to_u128 (key_time_ns k0)"
    using s k0 wf by (auto simp: due_slots_def frontier_of_def futures_wf_def not_less)
  ultimately show "h \<le> u64_to_u128 (key_time_ns k)" by (rule order_trans [rotated])
qed

text \<open>The log of a round: the processes it took, and for each the events it dispatched.\<close>

definition round_log :: "u128 \<Rightarrow> round_executor \<Rightarrow> (nat \<times> event list) list \<Rightarrow> bool" where
  "round_log h r plog \<longleftrightarrow> (\<exists>active f st. collect_due (lf_pop_before h) (re_frontier r) = Some (Some (active, f))
     \<and> active_log h active (start_round (r\<lparr>re_frontier := f\<rparr>)) plog st)"

lemma run_round_log:
  assumes run: "run_round h r = Some (Some (Inr (st, messages)))" and wf: "futures_wf img r" "frontier_wf img {} r"
    and lo: "pending_from lo {..<length (img_nodes img)} r"
  obtains plog where "round_log h r plog" "distinct (map fst plog)" "list_all (log_between img lo h) plog"
    "futures_wf img (rs_executor st)" "frontier_wf img {} (rs_executor st)"
    "pending_from h {..<length (img_nodes img)} (rs_executor st)"
    "re_minimum_lookahead_ns (rs_executor st) = re_minimum_lookahead_ns r"
proof -
  let ?n = "length (img_nodes img)"
  obtain active f where c: "collect_due (lf_pop_before h) (re_frontier r) = Some (Some (active, f))"
    "futures_wf img (r\<lparr>re_frontier := f\<rparr>)" "frontier_wf img (le_lp_slot ` set active) (r\<lparr>re_frontier := f\<rparr>)"
    "distinct (map le_lp_slot active)" "le_lp_slot ` set active = due_slots h (frontier_of (re_futures r))"
    by (rule frontier_wf_due [OF wf])
  have sub: "le_lp_slot ` set active \<subseteq> {..<?n}"
    using wf(1) unfolding c(5) by (auto simp: due_slots_def frontier_of_def futures_wf_def split: if_splits)
  obtain st1 st2 sorted_events where d: "drain_active h active (start_round (r\<lparr>re_frontier := f\<rparr>)) = Some (Some (Inr st1))"
    "check_drained h st1 = Some (Inr st2)" "merge_remote h sorted_events st2 = Some (Inr st)"
    using run c(1) by (auto simp: run_round_def obind_Inr map_sum_Inr Let_def split: option.splits)
  have "pending_from lo (le_lp_slot ` set active) (rs_executor (start_round (r\<lparr>re_frontier := f\<rparr>)))"
    using lo sub by (auto simp: pending_from_def start_round_def)
  then obtain plog where p: "active_log h active (start_round (r\<lparr>re_frontier := f\<rparr>)) plog st1"
    "map fst plog = map le_lp_slot active" "list_all (log_between img lo h) plog" "futures_wf img (rs_executor st1)"
    "frontier_wf img {} (rs_executor st1)" "pending_from h (le_lp_slot ` set active) (rs_executor st1)"
    "\<And>i. i \<notin> le_lp_slot ` set active \<Longrightarrow> re_futures (rs_executor st1) ! i = re_futures r ! i"
    "re_minimum_lookahead_ns (rs_executor st1) = re_minimum_lookahead_ns r"
    using drain_active_log [OF d(1), of img lo] c(2-4) by (auto simp: start_round_def)
  have rest: "pending_from h ({..<?n} - le_lp_slot ` set active) (rs_executor st1)"
    by (rule pending_from_same [OF not_due_pending [OF wf(1), of h, folded c(5)]]) (simp add: p(7))
  have all: "pending_from h {..<?n} (rs_executor st1)"
    using p(6) rest unfolding pending_from_def by blast
  obtain f' where "check_drained h st1 = Some (Inr (st1\<lparr>rs_executor := (rs_executor st1)\<lparr>re_frontier := f'\<rparr>\<rparr>))"
    "futures_wf img ((rs_executor st1)\<lparr>re_frontier := f'\<rparr>)" "frontier_wf img {} ((rs_executor st1)\<lparr>re_frontier := f'\<rparr>)"
    by (rule check_drained_passes [OF p(4,5) all])
  then have f': "st2 = st1\<lparr>rs_executor := (rs_executor st1)\<lparr>re_frontier := f'\<rparr>\<rparr>"
    "futures_wf img (rs_executor st2)" "frontier_wf img {} (rs_executor st2)" "pending_from h {..<?n} (rs_executor st2)"
    using all d(2) by (simp_all add: pending_from_def)
  have "round_log h r plog" using c(1) p(1) by (auto simp: round_log_def)
  with that [of plog] merge_remote_wf [OF d(3) f'(2-4)] p(2,3,8) c(4) f'(1) show thesis by simp
qed

subsection \<open>The rounds return\<close>

lemma update_frontier_same: "update_frontier slot r = Some (Inr r') \<Longrightarrow> \<exists>f. r' = r\<lparr>re_frontier := f\<rparr>"
  by (auto simp: update_frontier_def map_sum_Inr split: if_splits)

lemma futures_wf_frontier [simp]: "futures_wf img (r\<lparr>re_frontier := f\<rparr>) \<longleftrightarrow> futures_wf img r"
  by (simp add: futures_wf_def re_image_def)

lemma drain_active_returns:
  assumes "futures_wf img (rs_executor st)"
  shows "drain_active h active st \<noteq> None"
    and "drain_active h active st = Some (Some (Inr st')) \<Longrightarrow> futures_wf img (rs_executor st')"
proof -
  have "drain_active h active st \<noteq> None
      \<and> (drain_active h active st = Some (Some (Inr st')) \<longrightarrow> futures_wf img (rs_executor st'))"
    using assms
  proof (induction active arbitrary: st)
    case (Cons entry active)
    have "drain_entry h entry st \<noteq> None"
      using drain_lp_returns [OF Cons.prems] by (auto simp: drain_entry_def obind_def split: option.splits sum.splits)
    moreover have "futures_wf img (rs_executor st1)" if s1: "drain_entry h entry st = Some (Some (Inr st1))" for st1
    proof -
      obtain work outbox r where dl: "drain_lp (le_lp_slot entry) h (rs_executor st) = Some (Some (Inr (work, outbox, r)))"
        and up: "update_frontier (le_lp_slot entry) r = Some (Inr (rs_executor st1))"
        using s1 by (auto simp: drain_entry_def obind_Inr map_sum_Inr)
      have "futures_wf img r" using drain_lp_log [OF Cons.prems dl] by blast
      then show ?thesis using update_frontier_same [OF up] by auto
    qed
    ultimately show ?case using Cons.IH by (auto simp: obind_def split: option.split sum.split)
  qed auto
  then show "drain_active h active st \<noteq> None"
    "drain_active h active st = Some (Some (Inr st')) \<Longrightarrow> futures_wf img (rs_executor st')" by blast+
qed

lemma check_drained_same: "check_drained h st = Some (Inr st') \<Longrightarrow> \<exists>f. st' = st\<lparr>rs_executor := (rs_executor st)\<lparr>re_frontier := f\<rparr>\<rparr>"
  by (auto simp: check_drained_def Let_def split: option.splits if_splits bind_splits)

lemma merge_remote_futures:
  assumes "merge_remote h events st = Some (Inr st')" "futures_wf img (rs_executor st)"
  shows "futures_wf img (rs_executor st')"
  using assms
proof (induction "length events" arbitrary: events st rule: less_induct)
  case less
  show ?case
  proof (cases events)
    case Nil
    then show ?thesis using less.prems by simp
  next
    case (Cons event es)
    let ?r = "rs_executor st" and ?same = "\<lambda>e. ev_target e = ev_target event"
    obtain s q r where s: "image_node_slot (re_image ?r) (ev_target event) = Some s"
      and q: "insert_remote h (event # takeWhile ?same es) (re_futures ?r ! s) = Inr q"
      and r: "update_frontier s (?r\<lparr>re_futures := (re_futures ?r)[s := q]\<rparr>) = Some (Inr r)"
      and rest: "merge_remote h (dropWhile ?same es)
        (st\<lparr>rs_executor := r, rs_frontier_updates := saturating_add (rs_frontier_updates st) 1\<rparr>) = Some (Inr st')"
      by (rule merge_remote_step [OF less.prems(1) [unfolded Cons]])
    have sn: "s < length (img_nodes img)" "node_of img s = ev_target event"
      using s less.prems(2) by (auto simp: image_node_slot_def node_of_def futures_wf_def split: if_splits)
    have to: "ev_target e = node_of img s" if "e \<in> set (event # takeWhile ?same es)" for e
      using that sn(2) by (auto dest: set_takeWhileD)
    have "lp_wf (node_of img s) (re_futures ?r ! s)" using less.prems(2) sn(1) by (simp add: futures_wf_def)
    then have "lp_wf (node_of img s) q" using insert_remote_wf [OF q _ to] by blast
    then have "futures_wf img (?r\<lparr>re_futures := (re_futures ?r)[s := q]\<rparr>)"
      using less.prems(2) sn by (simp add: futures_wf_def re_image_def nth_list_update)
    then have "futures_wf img r" using update_frontier_same [OF r] by auto
    then have "futures_wf img (rs_executor
        (st\<lparr>rs_executor := r, rs_frontier_updates := saturating_add (rs_frontier_updates st) 1\<rparr>))" by simp
    moreover have "length (dropWhile ?same es) < length events"
      using length_dropWhile_le [of ?same es] by (simp add: Cons)
    ultimately show ?thesis by (intro less.hyps [OF _ rest])
  qed
qed

lemma run_round_returns:
  assumes wf: "futures_wf img r"
  shows "run_round h r \<noteq> None"
    and "run_round h r = Some (Some (Inr (st, messages))) \<Longrightarrow> futures_wf img (rs_executor st)"
proof -
  have c: "collect_due (lf_pop_before h) (re_frontier r) \<noteq> None"
    by (rule collect_due_returns [where \<mu> = "\<lambda>f. length (lf_heap f)"]) (rule lf_pop_shorter)
  have "futures_wf img (rs_executor (start_round (r\<lparr>re_frontier := f\<rparr>)))" for f
    using wf by (simp add: start_round_def)
  note d = drain_active_returns [OF this]
  show "run_round h r \<noteq> None"
    using c by (auto simp: run_round_def obind_def Let_def d(1) split: option.split sum.split)
  show "futures_wf img (rs_executor st)" if run: "run_round h r = Some (Some (Inr (st, messages)))"
  proof -
    obtain active f st1 st2 sorted_events where "drain_active h active (start_round (r\<lparr>re_frontier := f\<rparr>)) = Some (Some (Inr st1))"
      "check_drained h st1 = Some (Inr st2)" "merge_remote h sorted_events st2 = Some (Inr st)"
      using run by (auto simp: run_round_def obind_Inr map_sum_Inr Let_def split: option.splits)
    then show ?thesis using d(2) check_drained_same [of h st1 st2] merge_remote_futures by auto
  qed
qed

lemma execute_rounds_returns:
  assumes "futures_wf img r"
  shows "execute_rounds run_end previous_horizon rounds r \<noteq> None"
  using assms
proof (induction "2 ^ 64 - length rounds" arbitrary: previous_horizon rounds r rule: less_induct)
  case less
  have ih: "execute_rounds run_end p (rounds @ [m]) (rs_executor st) \<noteq> None"
    if "run_round h (r\<lparr>re_frontier := f\<rparr>) = Some (Some (Inr (st, messages)))" "length rounds < 2 ^ 64 - 1" for h f st messages p m
  proof (rule less.hyps)
    show "2 ^ 64 - length (rounds @ [m]) < 2 ^ 64 - length rounds" using that(2) by simp
    show "futures_wf img (rs_executor st)" by (rule run_round_returns(2) [OF _ that(1)]) (simp add: less.prems)
  qed
  have r: "run_round h (r\<lparr>re_frontier := f\<rparr>) \<noteq> None" for h f
    by (rule run_round_returns(1) [of img]) (simp add: less.prems)
  show ?case
    by (subst execute_rounds.simps) (auto simp: Let_def r dest: ih split: option.splits sum.splits)
qed

lemma place_initial_wf:
  assumes "place_initial img events (fs, keys, touched) = Inr (fs', keys', touched')"
    "length fs = length (img_nodes img)" "\<And>s. s < length (img_nodes img) \<Longrightarrow> lp_wf (node_of img s) (fs ! s)"
    "touched = {s. s < length (img_nodes img) \<and> fs ! s \<noteq> []}"
  shows "length fs' = length (img_nodes img) \<and> (\<forall>s < length (img_nodes img). lp_wf (node_of img s) (fs' ! s))
    \<and> touched' = {s. s < length (img_nodes img) \<and> fs' ! s \<noteq> []}"
  using assms
proof (induction events arbitrary: fs keys touched)
  case (Cons e events)
  obtain s where s: "image_node_slot img (ev_target e) = Some s"
    using Cons.prems(1) by (cases "image_node_slot img (ev_target e)") (auto split: if_splits)
  let ?q = "om_insert (ev_key e) e (fs ! s)"
  have rest: "place_initial img events (fs[s := ?q], insert (ev_key e) keys, insert s touched) = Inr (fs', keys', touched')"
    using Cons.prems(1) s by (auto split: if_splits)
  have sn: "s < length (img_nodes img)" "node_of img s = ev_target e"
    using s by (auto simp: image_node_slot_def node_of_def split: if_splits)
  have "?q \<noteq> []" by (cases "fs ! s") auto
  then have t: "insert s touched = {x. x < length (img_nodes img) \<and> fs[s := ?q] ! x \<noteq> []}"
    using sn Cons.prems(2,4) by (auto simp: nth_list_update)
  have q: "lp_wf (node_of img s) ?q" by (rule lp_wf_insert [OF Cons.prems(3) [OF sn(1)] sn(2) [symmetric]])
  have w: "lp_wf (node_of img x) (fs[s := ?q] ! x)" if "x < length (img_nodes img)" for x
    using q Cons.prems(2) Cons.prems(3) [OF that] that by (cases "x = s") simp_all
  show ?case by (rule Cons.IH [OF rest _ w t]) (simp_all add: Cons.prems(2))
qed simp

lemma update_frontiers_same: "update_frontiers slots r = Some (Inr r') \<Longrightarrow> \<exists>f. r' = r\<lparr>re_frontier := f\<rparr>"
proof (induction slots arbitrary: r)
  case Nil
  then show ?case by (auto intro: exI [of _ "re_frontier r"])
next
  case (Cons slot slots)
  then obtain r1 where "update_frontier slot r = Some (Inr r1)" "update_frontiers slots r1 = Some (Inr r')"
    by (auto split: option.splits sum.splits)
  with Cons.IH update_frontier_same [of slot r r1] show ?case by fastforce
qed

lemma executor_new:
  assumes "round_executor_new img = Some (Inr r)"
  obtains transitions fs keys touched where "ts_new img = Some (Inr transitions)"
    "place_initial img (img_initial_events img) (replicate (length (img_nodes img)) [], {}, {}) = Inr (fs, keys, touched)"
    "minimum_lookahead img \<noteq> Some 0" "update_frontiers (filter (\<lambda>s. s \<in> touched) [0..<length (img_nodes img)])
      \<lparr>re_transitions = transitions, re_futures = fs, re_pending_keys = keys,
       re_frontier = lf_new (length (img_nodes img)), re_minimum_lookahead_ns = minimum_lookahead img\<rparr> = Some (Inr r)"
    "length fs = length (img_nodes img)" "\<And>s. s < length (img_nodes img) \<Longrightarrow> lp_wf (node_of img s) (fs ! s)"
    "touched = {s. s < length (img_nodes img) \<and> fs ! s \<noteq> []}"
proof -
  obtain transitions fs keys touched where n: "ts_new img = Some (Inr transitions)"
    "place_initial img (img_initial_events img) (replicate (length (img_nodes img)) [], {}, {}) = Inr (fs, keys, touched)"
    "minimum_lookahead img \<noteq> Some 0" "update_frontiers (filter (\<lambda>s. s \<in> touched) [0..<length (img_nodes img)])
      \<lparr>re_transitions = transitions, re_futures = fs, re_pending_keys = keys,
       re_frontier = lf_new (length (img_nodes img)), re_minimum_lookahead_ns = minimum_lookahead img\<rparr> = Some (Inr r)"
    using assms by (auto simp: round_executor_new_def Let_def split: option.splits sum.splits prod.splits if_splits)
  with that [OF n] place_initial_wf [OF n(2)] show thesis by simp
qed

lemma executor_new_futures:
  assumes "round_executor_new img = Some (Inr r)"
  shows "futures_wf img r"
proof -
  obtain transitions fs keys touched where n: "ts_new img = Some (Inr transitions)"
    "update_frontiers (filter (\<lambda>s. s \<in> touched) [0..<length (img_nodes img)])
      \<lparr>re_transitions = transitions, re_futures = fs, re_pending_keys = keys,
       re_frontier = lf_new (length (img_nodes img)), re_minimum_lookahead_ns = minimum_lookahead img\<rparr> = Some (Inr r)"
    "length fs = length (img_nodes img)" "\<forall>s < length (img_nodes img). lp_wf (node_of img s) (fs ! s)"
    by (rule executor_new [OF assms]) blast
  then show ?thesis
    using update_frontiers_same [OF n(2)] ts_new_start(1,3) [OF n(1)] by (auto simp: futures_wf_def re_image_def)
qed


subsection \<open>The events of a run in rounds\<close>

lemma update_frontiers_wf:
  assumes "update_frontiers slots r = Some (Inr r')" "futures_wf img r" "frontier_wf img (set slots) r" "distinct slots"
  shows "frontier_wf img {} r'"
  using assms
proof (induction slots arbitrary: r)
  case (Cons slot slots)
  obtain r1 where up: "update_frontier slot r = Some (Inr r1)" and rest: "update_frontiers slots r1 = Some (Inr r')"
    using Cons.prems(1) by (auto split: option.splits sum.splits)
  obtain k where k: "lf_rel (node_of img) (length (img_nodes img)) (re_frontier r) k
      (frontier_of (re_futures r) |` (- set (slot # slots)))"
    using Cons.prems(3) by (auto simp: frontier_wf_def)
  have m: "(frontier_of (re_futures r) |` (- set (slot # slots))) s = (frontier_of (re_futures r) |` (- set slots)) s"
    if "s \<noteq> slot" for s using that by (simp add: restrict_map_def)
  have "slot \<notin> set slots" using Cons.prems(4) by simp
  note u = update_frontier_rel [OF k Cons.prems(2) up m this]
  show ?case using Cons.IH [OF rest u(2,1)] Cons.prems(4) by simp
qed simp

lemma executor_new_wf:
  assumes new: "round_executor_new img = Some (Inr r)" and ids: "distinct (map nd_id (img_nodes img))"
  shows "futures_wf img r" "frontier_wf img {} r" "re_minimum_lookahead_ns r = minimum_lookahead img"
    "minimum_lookahead img \<noteq> Some 0"
proof -
  show wf: "futures_wf img r" by (rule executor_new_futures [OF new])
  obtain transitions fs keys touched where n: "minimum_lookahead img \<noteq> Some 0"
    and up: "update_frontiers (filter (\<lambda>s. s \<in> touched) [0..<length (img_nodes img)])
      \<lparr>re_transitions = transitions, re_futures = fs, re_pending_keys = keys,
       re_frontier = lf_new (length (img_nodes img)), re_minimum_lookahead_ns = minimum_lookahead img\<rparr> = Some (Inr r)"
      (is "update_frontiers ?slots ?r = _")
    and fs: "length fs = length (img_nodes img)" "touched = {s. s < length (img_nodes img) \<and> fs ! s \<noteq> []}"
    by (rule executor_new [OF new]) blast
  have "inj_on (nth (map nd_id (img_nodes img))) {..<length (img_nodes img)}"
    by (rule inj_on_nth [OF ids]) simp
  then have inj: "inj_on (node_of img) {..<length (img_nodes img)}"
    by (simp add: inj_on_def node_of_def)
  have "frontier_of fs |` (- set ?slots) = Map.empty"
    by (auto simp: fun_eq_iff restrict_map_def frontier_of_def fs first_key_def om_first_def)
  then have "frontier_wf img (set ?slots) ?r"
    using lazy.rel_new [OF inj] by (auto simp: frontier_wf_def simp del: set_filter)
  moreover obtain f where "r = ?r\<lparr>re_frontier := f\<rparr>" using update_frontiers_same [OF up] by blast
  then have "futures_wf img ?r" using wf futures_wf_frontier [where img = img and r = ?r and f = f] by (simp only:)
  ultimately show "frontier_wf img {} r" using update_frontiers_wf [OF up] by simp
  show "re_minimum_lookahead_ns r = minimum_lookahead img" using update_frontiers_same [OF up] by auto
  show "minimum_lookahead img \<noteq> Some 0" by (rule n)
qed

definition round_horizon :: "u128 \<Rightarrow> round_executor \<Rightarrow> lazy_entry \<Rightarrow> u128" where
  "round_horizon run_end r entry = min run_end (lookahead_end (re_minimum_lookahead_ns r) (le_time_ns entry))"

type_synonym rounds_log = "(u128 \<times> (nat \<times> event list) list) list"

definition previous_of :: "rounds_log \<Rightarrow> u128 option" where
  "previous_of logs = (if logs = [] then None else Some (fst (last logs)))"

definition last_horizon :: "rounds_log \<Rightarrow> u128" where
  "last_horizon logs = (if logs = [] then 0 else fst (last logs))"

text \<open>The rounds from the start, each with its horizon and its log.\<close>

inductive rounds_trace :: "simulation_image \<Rightarrow> u128 \<Rightarrow> rounds_log \<Rightarrow> round_metrics list \<Rightarrow> round_executor \<Rightarrow> bool"
  for img run_end where
  start: "round_executor_new img = Some (Inr r) \<Longrightarrow> rounds_trace img run_end [] [] r"
| round: "rounds_trace img run_end logs rounds r \<Longrightarrow>
    lf_peek_min (re_frontier r) = Some (Some entry, f) \<Longrightarrow> u64_to_u128 (le_time_ns entry) < run_end \<Longrightarrow>
    run_round (round_horizon run_end r entry) (r\<lparr>re_frontier := f\<rparr>) = Some (Some (Inr (st, messages))) \<Longrightarrow>
    round_log (round_horizon run_end r entry) (r\<lparr>re_frontier := f\<rparr>) plog \<Longrightarrow>
    rounds_trace img run_end (logs @ [(round_horizon run_end r entry, plog)])
      (rounds @ [metrics_of (le_time_ns entry) (round_horizon run_end r entry) (previous_of logs) st messages])
      (rs_executor st)"

lemma round_horizon_after:
  assumes "u64_to_u128 (le_time_ns entry) < run_end" "re_minimum_lookahead_ns r \<noteq> Some 0"
  shows "u64_to_u128 (le_time_ns entry) < round_horizon run_end r entry"
proof -
  let ?t = "le_time_ns entry"
  have t: "unat ?t < 2 ^ 64" using unat_lt [of ?t] by simp
  have "u64_to_u128 ?t < time_after_u64_max"
    using t by (simp add: word_less_nat_alt unat_u64_to_u128 time_after_u64_max_def)
  moreover have "u64_to_u128 ?t < u64_to_u128 ?t + u64_to_u128 delay" if "delay \<noteq> 0" for delay
  proof -
    have "0 < unat delay" using that by (simp add: unat_gt_0)
    moreover have "unat (u64_to_u128 ?t + u64_to_u128 delay) = unat ?t + unat delay"
      using t unat_lt [of delay] by (subst unat_add_exact) (simp_all add: unat_u64_to_u128)
    ultimately show ?thesis by (simp add: word_less_nat_alt unat_u64_to_u128)
  qed
  ultimately show ?thesis
    using assms by (auto simp: round_horizon_def lookahead_end_def min_def split: option.split)
qed

text \<open>The events a process dispatched, round after round.\<close>

definition process_events :: "nat \<Rightarrow> (nat \<times> event list) list \<Rightarrow> event list" where
  "process_events slot plog = concat (map snd (filter (\<lambda>(s, es). s = slot) plog))"

definition node_events :: "nat \<Rightarrow> rounds_log \<Rightarrow> event list" where
  "node_events slot logs = concat (map (\<lambda>(h, plog). process_events slot plog) logs)"

definition window_ok :: "simulation_image \<Rightarrow> rounds_log \<Rightarrow> nat \<Rightarrow> bool" where
  "window_ok img logs i \<longleftrightarrow> distinct (map fst (snd (logs ! i)))
     \<and> list_all (log_between img (last_horizon (take i logs)) (fst (logs ! i))) (snd (logs ! i))"

definition rounds_ok :: "simulation_image \<Rightarrow> rounds_log \<Rightarrow> round_executor \<Rightarrow> bool" where
  "rounds_ok img logs r \<longleftrightarrow> futures_wf img r \<and> frontier_wf img {} r
     \<and> re_minimum_lookahead_ns r = minimum_lookahead img
     \<and> pending_from (last_horizon logs) {..<length (img_nodes img)} r
     \<and> sorted_wrt (<) (map fst logs) \<and> (\<forall>i < length logs. window_ok img logs i)
     \<and> (\<forall>slot. sorted_wrt (<) (map ev_key (node_events slot logs))
          \<and> (\<forall>e \<in> set (node_events slot logs). u64_to_u128 (key_time_ns (ev_key e)) < last_horizon logs))"

lemma rounds_okD:
  assumes "rounds_ok img logs r"
  shows "futures_wf img r" "frontier_wf img {} r" "re_minimum_lookahead_ns r = minimum_lookahead img"
    "pending_from (last_horizon logs) {..<length (img_nodes img)} r" "sorted_wrt (<) (map fst logs)"
    "\<And>i. i < length logs \<Longrightarrow> window_ok img logs i" "\<And>slot. sorted_wrt (<) (map ev_key (node_events slot logs))"
    "\<And>slot e. e \<in> set (node_events slot logs) \<Longrightarrow> u64_to_u128 (key_time_ns (ev_key e)) < last_horizon logs"
  using assms unfolding rounds_ok_def by blast+

text \<open>A process appears once in the log of a round.\<close>

lemma process_events_once:
  assumes "distinct (map fst plog)" "list_all (log_between img lo h) plog"
  shows "log_between img lo h (slot, process_events slot plog)"
  using assms
proof (induction plog)
  case Nil
  then show ?case by (simp add: log_between_def process_events_def)
next
  case (Cons p plog)
  obtain s es where p: "p = (s, es)" by fastforce
  have "filter (\<lambda>(s, es). s = slot) plog = []" if "s = slot"
    using Cons.prems(1) that p by (force simp: filter_empty_conv)
  then have "process_events slot (p # plog) = (if s = slot then es else process_events slot plog)"
    by (simp add: process_events_def p)
  then show ?case using Cons p by auto
qed

lemma time_less_key_less: "key_time_ns a < key_time_ns b \<Longrightarrow> (a :: event_key) < b"
  by (simp add: event_key_less_iff)

lemma log_after:
  assumes "u64_to_u128 (key_time_ns a) < h" "h \<le> u64_to_u128 (key_time_ns b)"
  shows "(a :: event_key) < b"
proof -
  have "u64_to_u128 (key_time_ns a) < u64_to_u128 (key_time_ns b)" using assms by (rule less_le_trans)
  then have "key_time_ns a < key_time_ns b" by (simp add: u64_to_u128_le_iff flip: not_le)
  then show ?thesis by (rule time_less_key_less)
qed

lemma sorted_last: "sorted_wrt (<) (map f xs) \<Longrightarrow> x \<in> set xs \<Longrightarrow> f x \<le> (f (last xs) :: 'a::linorder)"
  by (induction xs) (auto intro: less_imp_le)

lemma rounds_ok_round:
  assumes ok: "rounds_ok img logs r" and peek: "lf_peek_min (re_frontier r) = Some (Some entry, f)"
    and end_ns: "u64_to_u128 (le_time_ns entry) < run_end" and delay: "minimum_lookahead img \<noteq> Some 0"
    and run: "run_round (round_horizon run_end r entry) (r\<lparr>re_frontier := f\<rparr>) = Some (Some (Inr (st, messages)))"
  obtains plog where "round_log (round_horizon run_end r entry) (r\<lparr>re_frontier := f\<rparr>) plog"
    "rounds_ok img (logs @ [(round_horizon run_end r entry, plog)]) (rs_executor st)"
proof -
  note o = rounds_okD [OF ok]
  let ?h = "round_horizon run_end r entry" and ?n = "length (img_nodes img)"
  obtain found f0 where pk: "lf_peek_min (re_frontier r) = Some (found, f0)" "futures_wf img (r\<lparr>re_frontier := f0\<rparr>)"
      "frontier_wf img {} (r\<lparr>re_frontier := f0\<rparr>)"
      "\<And>e. found = Some e \<Longrightarrow> frontier_of (re_futures r) (le_lp_slot e) = Some (le_time_ns e)"
    using o(1,2) by (rule peek_pending) blast
  have wf: "futures_wf img (r\<lparr>re_frontier := f\<rparr>)" "frontier_wf img {} (r\<lparr>re_frontier := f\<rparr>)"
    and fr: "frontier_of (re_futures r) (le_lp_slot entry) = Some (le_time_ns entry)"
    using pk(2,3) pk(4) [of entry] pk(1) peek by simp_all
  have h: "last_horizon logs < ?h"
    by (rule order.strict_trans1 [OF frontier_of_pending [OF o(1,4) fr] round_horizon_after [OF end_ns]])
      (simp add: o(3) delay)
  have lo: "pending_from (last_horizon logs) {..<?n} (r\<lparr>re_frontier := f\<rparr>)" using o(4) by (simp add: pending_from_def)
  obtain plog where p: "round_log ?h (r\<lparr>re_frontier := f\<rparr>) plog" "distinct (map fst plog)"
    "list_all (log_between img (last_horizon logs) ?h) plog" "futures_wf img (rs_executor st)"
    "frontier_wf img {} (rs_executor st)" "pending_from ?h {..<?n} (rs_executor st)"
    "re_minimum_lookahead_ns (rs_executor st) = re_minimum_lookahead_ns (r\<lparr>re_frontier := f\<rparr>)"
    by (rule run_round_log [OF run wf lo])
  let ?logs = "logs @ [(?h, plog)]"
  have "fst x < ?h" if "x \<in> set logs" for x
  proof -
    have "fst x \<le> last_horizon logs" using sorted_last [OF o(5) that] that by (auto simp: last_horizon_def)
    with h show ?thesis by simp
  qed
  then have sorted: "sorted_wrt (<) (map fst ?logs)" using o(5) by (auto simp: sorted_wrt_append)
  have window: "window_ok img ?logs i" if "i < length ?logs" for i
    using that o(6) [of i] p(2,3) by (cases "i < length logs") (simp_all add: window_ok_def nth_append)
  have events: "node_events slot ?logs = node_events slot logs @ process_events slot plog" for slot
    by (simp add: node_events_def)
  note pe = process_events_once [OF p(2,3)]
  have "ev_key a < ev_key b" if "a \<in> set (node_events slot logs)" "b \<in> set (process_events slot plog)" for slot a b
    by (rule log_after [OF o(8) [OF that(1)]]) (use pe [of slot] that(2) in \<open>simp add: log_between_def\<close>)
  then have "sorted_wrt (<) (map ev_key (node_events slot ?logs))" for slot
    using o(7) [of slot] pe [of slot] by (auto simp: events sorted_wrt_append log_between_def)
  moreover have "u64_to_u128 (key_time_ns (ev_key e)) < ?h" if "e \<in> set (node_events slot ?logs)" for slot e
    using that o(8) [of e slot] h pe [of slot] by (auto simp: events log_between_def)
  ultimately have "rounds_ok img ?logs (rs_executor st)"
    using p(4-7) o(3) sorted window by (simp add: rounds_ok_def last_horizon_def)
  with p(1) show thesis by (rule that)
qed

lemma execute_rounds_trace:
  assumes "execute_rounds run_end (previous_of logs) rounds r = Some (Some (Inr (rounds', r')))"
    "rounds_trace img run_end logs rounds r" "rounds_ok img logs r" "minimum_lookahead img \<noteq> Some 0"
  shows "\<exists>logs' f. rounds_trace img run_end logs' rounds' (r'\<lparr>re_frontier := f\<rparr>)
    \<and> rounds_ok img logs' (r'\<lparr>re_frontier := f\<rparr>) \<and> pending_from run_end {..<length (img_nodes img)} r'"
  using assms
proof (induction "2 ^ 64 - length rounds" arbitrary: logs rounds r rule: less_induct)
  case less
  note o = rounds_okD [OF less.prems(3)]
  note run = less.prems(1) [unfolded execute_rounds.simps [of run_end "previous_of logs" rounds r] Let_def,
      folded round_horizon_def]
  obtain found f where pk: "lf_peek_min (re_frontier r) = Some (found, f)"
      "\<And>s. found = None \<Longrightarrow> s < length (img_nodes img) \<Longrightarrow> re_futures r ! s = []"
      "\<And>e. found = Some e \<Longrightarrow> pending_from (u64_to_u128 (le_time_ns e)) {..<length (img_nodes img)} r"
    using o(1,2) by (rule peek_pending) blast
  have stop: ?case if r': "rounds' = rounds" "r' = r\<lparr>re_frontier := f\<rparr>"
    and p: "pending_from run_end {..<length (img_nodes img)} r"
  proof (intro exI conjI)
    have "r'\<lparr>re_frontier := re_frontier r\<rparr> = r" by (simp add: r'(2))
    then show "rounds_trace img run_end logs rounds' (r'\<lparr>re_frontier := re_frontier r\<rparr>)"
      "rounds_ok img logs (r'\<lparr>re_frontier := re_frontier r\<rparr>)" using less.prems(2,3) r'(1) by simp_all
    show "pending_from run_end {..<length (img_nodes img)} r'" using p by (simp add: pending_from_def r'(2))
  qed
  show ?case
  proof (cases found)
    case None
    then show ?thesis using run pk(1,2) by (intro stop) (simp_all add: pending_from_def)
  next
    case (Some e)
    show ?thesis
    proof (cases "run_end \<le> u64_to_u128 (le_time_ns e)")
      case True
      have "pending_from run_end {..<length (img_nodes img)} r"
        using pk(3) [OF Some] True unfolding pending_from_def by (blast intro: order_trans)
      then show ?thesis using run pk(1) Some True by (intro stop) simp_all
    next
      case False
      let ?h = "round_horizon run_end r e"
      obtain st messages where rr: "run_round ?h (r\<lparr>re_frontier := f\<rparr>) = Some (Some (Inr (st, messages)))"
        and l: "Suc (length rounds) < 2 ^ 64"
        and rest: "execute_rounds run_end (Some ?h)
          (rounds @ [metrics_of (le_time_ns e) ?h (previous_of logs) st messages]) (rs_executor st) = Some (Some (Inr (rounds', r')))"
        using run pk(1) Some False by (auto split: option.splits sum.splits if_splits)
      have e: "lf_peek_min (re_frontier r) = Some (Some e, f)" "u64_to_u128 (le_time_ns e) < run_end"
        using pk(1) Some False by simp_all
      obtain plog where p: "round_log ?h (r\<lparr>re_frontier := f\<rparr>) plog" "rounds_ok img (logs @ [(?h, plog)]) (rs_executor st)"
        by (rule rounds_ok_round [OF less.prems(3) e less.prems(4) rr])
      note t = rounds_trace.round [OF less.prems(2) e rr p(1)]
      have m: "2 ^ 64 - length (rounds @ [metrics_of (le_time_ns e) ?h (previous_of logs) st messages]) < 2 ^ 64 - length rounds"
        using l by simp
      have prev: "previous_of (logs @ [(?h, plog)]) = Some ?h" by (simp add: previous_of_def)
      show ?thesis by (rule less.hyps [OF m rest [folded prev] t p(2) less.prems(4)])
    qed
  qed
qed

lemma rounds_trace_horizons: "rounds_trace img run_end logs rounds r \<Longrightarrow> map rm_exclusive_horizon_ns rounds = map fst logs"
  by (induction rule: rounds_trace.induct) (simp_all add: metrics_of_def)

text \<open>
  C5. A successful run in rounds respects time.  The horizons of its rounds strictly increase; a round
  takes a process at most once, gives it only events of its own, none before the previous round's
  horizon and none at or after its own; over all rounds every process dispatches its events in strictly
  increasing key order, the order the sequential executor uses; and what is left pending lies at or
  after the end of the run.
\<close>

theorem rounds_take_events_in_order:
  assumes "validate_node_ids img = Inr ()" "run_scalar_rounds img horizon = Some (Some (Inr (result, rounds)))"
  shows "\<exists>logs r. rounds_trace img (run_end_of img horizon) logs rounds r \<and> result = finish_result r
    \<and> length logs = length rounds \<and> sorted_wrt (<) (map rm_exclusive_horizon_ns rounds)
    \<and> (\<forall>i < length rounds. distinct (map fst (snd (logs ! i)))
         \<and> (\<forall>(slot, es) \<in> set (snd (logs ! i)). \<forall>e \<in> set es. ev_target e = node_of img slot
              \<and> (0 < i \<longrightarrow> rm_exclusive_horizon_ns (rounds ! (i - 1)) \<le> u64_to_u128 (key_time_ns (ev_key e)))
              \<and> u64_to_u128 (key_time_ns (ev_key e)) < rm_exclusive_horizon_ns (rounds ! i)))
    \<and> (\<forall>slot. sorted_wrt (<) (map ev_key (node_events slot logs)))
    \<and> (\<forall>e \<in> set (run_pending_events result). run_end_of img horizon \<le> u64_to_u128 (key_time_ns (ev_key e)))"
proof -
  let ?stop = "run_end_of img horizon" and ?n = "length (img_nodes img)"
  obtain r0 r1 where r0: "round_executor_new img = Some (Inr r0)"
    and x: "execute_rounds ?stop None [] r0 = Some (Some (Inr (rounds, r1)))" and res: "result = finish_result r1"
    using assms(2) by (auto simp: run_scalar_rounds_def obind_Inr)
  note w = executor_new_wf [OF r0 node_ids_distinct [OF assms(1)]]
  have start: "rounds_ok img [] r0"
    using w by (simp add: rounds_ok_def last_horizon_def pending_from_def node_events_def)
  have p0: "previous_of [] = None" by (simp add: previous_of_def)
  obtain logs f where l: "rounds_trace img ?stop logs rounds (r1\<lparr>re_frontier := f\<rparr>)"
      "rounds_ok img logs (r1\<lparr>re_frontier := f\<rparr>)" and p: "pending_from ?stop {..<?n} r1"
    using execute_rounds_trace [OF x [folded p0] rounds_trace.start [OF r0] start w(4)] by blast
  note o = rounds_okD [OF l(2)] and hs = rounds_trace_horizons [OF l(1)]
  have len: "length logs = length rounds" using hs by (metis length_map)
  have h: "fst (logs ! i) = rm_exclusive_horizon_ns (rounds ! i)" if "i < length rounds" for i
    using hs that len by (metis nth_map)
  have prev: "last_horizon (take i logs) = rm_exclusive_horizon_ns (rounds ! (i - 1))" if "0 < i" "i < length rounds" for i
    using that h [of "i - 1"] len by (auto simp: last_horizon_def last_conv_nth)
  have "distinct (map fst (snd (logs ! i))) \<and> (\<forall>(slot, es) \<in> set (snd (logs ! i)). \<forall>e \<in> set es. ev_target e = node_of img slot
              \<and> (0 < i \<longrightarrow> rm_exclusive_horizon_ns (rounds ! (i - 1)) \<le> u64_to_u128 (key_time_ns (ev_key e)))
              \<and> u64_to_u128 (key_time_ns (ev_key e)) < rm_exclusive_horizon_ns (rounds ! i))" if "i < length rounds" for i
    using o(6) [of i] that len h [OF that] prev [OF _ that] by (auto simp: window_ok_def list_all_iff log_between_def)
  moreover have "?stop \<le> u64_to_u128 (key_time_ns (ev_key e))" if e: "e \<in> set (run_pending_events result)" for e
  proof -
    obtain q where q: "q \<in> set (re_futures r1)" "e \<in> snd ` set q"
      using e by (auto simp: res finish_result_def ts_finish_def om_values_def)
    then obtain s k where "s < ?n" "re_futures r1 ! s = q" "(k, e) \<in> set q"
      using o(1) by (auto simp: futures_wf_def in_set_conv_nth)
    moreover from this have "k = ev_key e" using o(1) by (auto simp: futures_wf_def lp_wf_def)
    ultimately show ?thesis using p unfolding pending_from_def by fastforce
  qed
  moreover have "result = finish_result (r1\<lparr>re_frontier := f\<rparr>)" by (simp add: res finish_result_def)
  ultimately show ?thesis
    using l(1) len o(5,7) hs by (intro exI [of _ logs] exI [of _ "r1\<lparr>re_frontier := f\<rparr>"]) simp
qed

subsection \<open>A concrete run in rounds\<close>

text \<open>The two hosts of \<open>sample_image\<close> up to time one: a single round, which sends one event.\<close>

definition sample_executor :: "transition_state \<Rightarrow> futures list \<Rightarrow> event_key set \<Rightarrow> lazy_frontier \<Rightarrow> round_executor" where
  "sample_executor s fs keys f = \<lparr>re_transitions = s, re_futures = fs, re_pending_keys = keys, re_frontier = f,
     re_minimum_lookahead_ns = None\<rparr>"

definition sample_live :: "u64 \<Rightarrow> nat \<Rightarrow> u64 \<Rightarrow> lazy_entry" where
  "sample_live t slot generation = \<lparr>le_time_ns = t, le_node = of_nat slot, le_generation = generation, le_lp_slot = slot\<rparr>"

lemma sample_image_parts:
  "length (img_nodes sample_image) = 2" "img_initial_events sample_image = [sample_arrival]"
  "minimum_lookahead sample_image = None" "node_of sample_image 0 = 0" "node_of sample_image 1 = 1"
  "image_node_slot sample_image 0 = Some 0" "image_node_slot sample_image 1 = Some 1"
  by (simp_all add: sample_image_def minimum_lookahead_def node_of_def image_node_slot_def)

lemma sample_place:
  "place_initial sample_image [sample_arrival] ([[], []], {}, {}) =
     Inr ([[(ev_key sample_arrival, sample_arrival)], []], {ev_key sample_arrival}, {0})"
proof -
  have "ev_target sample_arrival = 0" by (simp add: sample_arrival_def)
  then show ?thesis by (simp add: sample_image_parts om_get_def)
qed

lemma sample_update:
  assumes "ts_image s = sample_image" "slot < 2" "length fs = 2" "lf_generations f = gs" "length gs = 2"
    "gs ! slot < 100"
  shows "update_frontier slot (sample_executor s fs keys f) = Some (Inr (sample_executor s fs keys
    (f\<lparr>lf_generations := gs[slot := gs ! slot + 1],
       lf_heap := (case first_key (fs ! slot) of None \<Rightarrow> lf_heap f
         | Some key \<Rightarrow> sample_live (key_time_ns key) slot (gs ! slot + 1) # lf_heap f)\<rparr>)))"
proof -
  have id: "nd_id (img_nodes sample_image ! slot) = of_nat slot"
    using assms(2) by (cases slot) (auto simp: sample_image_def less_Suc_eq numeral_2_eq_2)
  have "unat (gs ! slot) < 100" using assms(6) by (simp add: word_less_nat_alt)
  then have "checked_add (gs ! slot) 1 = Some (gs ! slot + 1)" by (simp add: checked_add_def)
  then show ?thesis
    using assms(1-5) id by (cases "first_key (fs ! slot)")
      (simp_all add: update_frontier_def sample_executor_def re_image_def sample_image_parts lf_update_def sample_live_def)
qed

lemma sample_rounds_new:
  "round_executor_new sample_image = Some (Inr (sample_executor sample_s0
     [[(ev_key sample_arrival, sample_arrival)], []] {ev_key sample_arrival}
     \<lparr>lf_heap = [sample_live 0 0 1], lf_generations = [1, 0]\<rparr>))"
proof -
  have slots: "filter (\<lambda>s. s = 0) [0..<2] = [0]" "replicate 2 ([] :: futures) = [[], []]"
    by (simp_all add: upt_rec numeral_2_eq_2)
  have new: "lf_new 2 = \<lparr>lf_heap = [], lf_generations = [0, 0]\<rparr>" by (simp add: lf_new_def numeral_2_eq_2)
  have im: "ts_image sample_s0 = sample_image" by (simp add: sample_s0_def sample_state_def)
  have ar: "key_time_ns (ev_key sample_arrival) = 0" by (simp add: sample_arrival_def)
  have "update_frontiers [0] (sample_executor sample_s0
     [[(ev_key sample_arrival, sample_arrival)], []] {ev_key sample_arrival} (lf_new 2)) =
    Some (Inr (sample_executor sample_s0 [[(ev_key sample_arrival, sample_arrival)], []] {ev_key sample_arrival}
     \<lparr>lf_heap = [sample_live 0 0 1], lf_generations = [1, 0]\<rparr>))"
    using sample_update [OF im, of 0 "[[(ev_key sample_arrival, sample_arrival)], []]" "lf_new 2" "[0, 0]"]
    by (simp add: new first_key_def om_first_def ar)
  then show ?thesis
    by (simp add: round_executor_new_def sample_new Let_def sample_image_parts sample_place slots
        sample_executor_def del: update_frontiers.simps place_initial.simps)
qed

definition sample_drain :: "transition_state \<Rightarrow> futures \<Rightarrow> event_key set \<Rightarrow> event list \<Rightarrow> u64 \<Rightarrow> drain_state" where
  "sample_drain s q keys outbox n = \<lparr>ds_executor = sample_executor s [q, []] keys \<lparr>lf_heap = [], lf_generations = [1, 0]\<rparr>,
     ds_continuation = None, ds_outbox = outbox, ds_events_processed = n, ds_same_time_continuations = 0,
     ds_fallback_classified_pushes = 0\<rparr>"

abbreviation sample_ready :: event where "sample_ready \<equiv> sample_child 0 TxReady 0 1"

abbreviation sample_complete :: event where "sample_complete \<equiv> sample_child 100 TxComplete 0 2"

abbreviation sample_remote :: event where "sample_remote \<equiv> sample_child 105 RemoteArrival 1 3"

lemmas drain_evals = drain_step_def take_event_def lp_futures_def put_futures_def put_pending_def
  sample_drain_def sample_executor_def direct_child_of_def route_child_def Let_def om_get_def saturating_add_def checked_add_def

lemma sample_drain_arrival:
  "drain_step 0 0 (sample_drain sample_s0 [(ev_key sample_arrival, sample_arrival)] {ev_key sample_arrival} [] 0) =
     Some (Inr (sample_drain (sample_s1 []) [(ev_key sample_ready, sample_ready)] {ev_key sample_ready} [] 1))"
  by (simp add: drain_evals sample_dispatch_arrival)
    (simp add: drain_evals sample_s1_def sample_state_def sample_child_def sample_arrival_def
      is_same_time_tx_ready_continuation_def first_key_def om_first_def)

lemma sample_drain_ready:
  "drain_step 0 0 (sample_drain (sample_s1 []) [(ev_key sample_ready, sample_ready)] {ev_key sample_ready} [] 1) =
     Some (Inr (sample_drain (sample_s2 []) [(ev_key sample_complete, sample_complete)]
       {ev_key sample_remote, ev_key sample_complete} [sample_remote] 2))"
  by (simp add: drain_evals sample_dispatch_ready)
    (simp add: drain_evals sample_s2_def sample_state_def sample_child_def
      is_same_time_tx_ready_continuation_def first_key_def om_first_def)

lemma sample_drain_loop:
  "drain_loop 0 0 1 (sample_drain sample_s0 [(ev_key sample_arrival, sample_arrival)] {ev_key sample_arrival} [] 0) =
     Some (Some (Inr (sample_drain (sample_s2 []) [(ev_key sample_complete, sample_complete)]
       {ev_key sample_remote, ev_key sample_complete} [sample_remote] 2)))"
proof -
  have due: "drain_due 0 1 (sample_drain s [(ev_key e, e)] keys outbox n) \<longleftrightarrow> key_time_ns (ev_key e) = 0" for s e keys outbox n
    by (auto simp: drain_due_def sample_drain_def sample_executor_def lp_futures_def first_key_def om_first_def
        word_less_nat_alt unat_u64_to_u128 unat_eq_0)
  have t: "key_time_ns (ev_key sample_arrival) = 0" "key_time_ns (ev_key sample_ready) = 0"
    "key_time_ns (ev_key sample_complete) = 100" by (simp_all add: sample_arrival_def sample_child_def)
  show ?thesis
    by (subst drain_loop.simps, simp add: due t sample_drain_arrival,
        subst drain_loop.simps, simp add: due t sample_drain_ready,
        subst drain_loop.simps, simp add: due t)
qed

abbreviation sample_futures :: "futures list" where
  "sample_futures \<equiv> [[(ev_key sample_complete, sample_complete)], [(ev_key sample_remote, sample_remote)]]"

lemma peek_single:
  "slot < length gs \<Longrightarrow> gs ! slot = generation \<Longrightarrow>
    lf_peek_min \<lparr>lf_heap = [sample_live t slot generation], lf_generations = gs\<rparr> =
      Some (Some (sample_live t slot generation), \<lparr>lf_heap = [sample_live t slot generation], lf_generations = gs\<rparr>)"
  "lf_peek_min \<lparr>lf_heap = [], lf_generations = gs\<rparr> = Some (None, \<lparr>lf_heap = [], lf_generations = gs\<rparr>)"
  by (simp_all add: lf_peek_min.simps sample_live_def)

lemma sample_collect:
  "collect_due (lf_pop_before 1) \<lparr>lf_heap = [sample_live 0 0 1], lf_generations = [1, 0]\<rparr> =
     Some (Some ([sample_live 0 0 1], \<lparr>lf_heap = [], lf_generations = [1, 0]\<rparr>))"
proof -
  have "lf_pop_before 1 \<lparr>lf_heap = [sample_live 0 0 1], lf_generations = [1, 0]\<rparr> =
      Some (Some (sample_live 0 0 1), \<lparr>lf_heap = [], lf_generations = [1, 0]\<rparr>)"
    by (simp add: lf_pop_before_def peek_single) (simp add: sample_live_def u64_to_u128_def)
  moreover have "lf_pop_before 1 \<lparr>lf_heap = [], lf_generations = [1, 0]\<rparr> = Some (None, \<lparr>lf_heap = [], lf_generations = [1, 0]\<rparr>)"
    by (simp add: lf_pop_before_def peek_single)
  ultimately show ?thesis
    by (subst collect_due.simps, simp, subst collect_due.simps, simp)
qed

abbreviation sample_rounds_end :: round_executor where
  "sample_rounds_end \<equiv> sample_executor (sample_s2 []) sample_futures {ev_key sample_remote, ev_key sample_complete}
     \<lparr>lf_heap = [sample_live 105 1 1, sample_live 100 0 2], lf_generations = [2, 1]\<rparr>"

lemma sample_images: "ts_image sample_s0 = sample_image" "ts_image (sample_s2 []) = sample_image"
  by (simp_all add: sample_s0_def sample_s2_def sample_state_def)

lemma sample_drain_lp:
  "drain_lp 0 1 (sample_executor sample_s0 [[(ev_key sample_arrival, sample_arrival)], []] {ev_key sample_arrival}
       \<lparr>lf_heap = [], lf_generations = [1, 0]\<rparr>) =
     Some (Some (Inr (\<lparr>lw_node = 0, lw_events_processed = 2, lw_same_time_continuations = 0, lw_fallback_classified_pushes = 0\<rparr>,
       [sample_remote], sample_executor (sample_s2 []) [[(ev_key sample_complete, sample_complete)], []]
         {ev_key sample_remote, ev_key sample_complete} \<lparr>lf_heap = [], lf_generations = [1, 0]\<rparr>)))"
  (is "drain_lp 0 1 ?r = _")
proof -
  have s: "start_drain ?r = sample_drain sample_s0 [(ev_key sample_arrival, sample_arrival)] {ev_key sample_arrival} [] 0"
    by (simp add: start_drain_def sample_drain_def)
  have im: "re_image ?r = sample_image" "length (re_futures ?r) = 2"
    by (simp_all add: re_image_def sample_executor_def sample_images)
  have id: "nd_id (img_nodes sample_image ! 0) = 0" using sample_image_parts(4) by (simp add: node_of_def)
  show ?thesis
    by (simp add: drain_lp_def s im id sample_image_parts sample_drain_loop obind_def) (simp add: sample_drain_def)
qed

lemma sample_work:
  "drain_entry 1 (sample_live 0 0 1) (start_round (sample_executor sample_s0 [[(ev_key sample_arrival, sample_arrival)], []]
       {ev_key sample_arrival} \<lparr>lf_heap = [], lf_generations = [1, 0]\<rparr>)) =
     Some (Some (Inr \<lparr>rs_executor = sample_executor (sample_s2 []) [[(ev_key sample_complete, sample_complete)], []]
         {ev_key sample_remote, ev_key sample_complete} \<lparr>lf_heap = [sample_live 100 0 2], lf_generations = [2, 0]\<rparr>,
       rs_lp_work = [\<lparr>lw_node = 0, lw_events_processed = 2, lw_same_time_continuations = 0, lw_fallback_classified_pushes = 0\<rparr>],
       rs_outboxes = [[sample_remote]], rs_events_processed = 2, rs_frontier_updates = 1\<rparr>))"
proof -
  have "key_time_ns (ev_key sample_complete) = 100" by (simp add: sample_child_def)
  moreover have "le_lp_slot (sample_live 0 0 1) = 0" by (simp add: sample_live_def)
  ultimately show ?thesis
    using sample_update [OF sample_images(2), of 0 "[[(ev_key sample_complete, sample_complete)], []]"
        "\<lparr>lf_heap = [], lf_generations = [1, 0]\<rparr>" "[1, 0]"]
    by (simp add: drain_entry_def start_round_def sample_drain_lp obind_def first_key_def om_first_def
        saturating_add_def checked_add_def)
qed

lemma sample_merge:
  "merge_remote 1 [sample_remote]
     \<lparr>rs_executor = sample_executor (sample_s2 []) [[(ev_key sample_complete, sample_complete)], []]
         {ev_key sample_remote, ev_key sample_complete} \<lparr>lf_heap = [sample_live 100 0 2], lf_generations = [2, 0]\<rparr>,
       rs_lp_work = w, rs_outboxes = out, rs_events_processed = n, rs_frontier_updates = 1\<rparr> =
   Some (Inr \<lparr>rs_executor = sample_rounds_end, rs_lp_work = w, rs_outboxes = out, rs_events_processed = n,
     rs_frontier_updates = 2\<rparr>)"
proof -
  have "ev_target sample_remote = 1" "key_time_ns (ev_key sample_remote) = 105" by (simp_all add: sample_child_def)
  moreover have "re_image (sample_executor (sample_s2 []) fs keys f) = sample_image" for fs keys f
    by (simp add: re_image_def sample_executor_def sample_images)
  moreover have "(sample_executor s fs keys f)\<lparr>re_futures := gs\<rparr> = sample_executor s gs keys f"
    "re_futures (sample_executor s fs keys f) = fs" for s fs keys f gs
    by (simp_all add: sample_executor_def)
  ultimately show ?thesis
    using sample_update [OF sample_images(2), of 1 sample_futures
        "\<lparr>lf_heap = [sample_live 100 0 2], lf_generations = [2, 0]\<rparr>" "[2, 0]"]
    by (simp add: sample_image_parts Let_def u64_to_u128_def om_get_def first_key_def om_first_def
        saturating_add_def checked_add_def)
qed

lemma sample_round:
  "run_round 1 (sample_executor sample_s0 [[(ev_key sample_arrival, sample_arrival)], []] {ev_key sample_arrival}
       \<lparr>lf_heap = [sample_live 0 0 1], lf_generations = [1, 0]\<rparr>) =
     Some (Some (Inr (\<lparr>rs_executor = sample_rounds_end,
       rs_lp_work = [\<lparr>lw_node = 0, lw_events_processed = 2, lw_same_time_continuations = 0, lw_fallback_classified_pushes = 0\<rparr>],
       rs_outboxes = [[sample_remote]], rs_events_processed = 2, rs_frontier_updates = 2\<rparr>, 1)))"
proof -
  have f: "re_frontier (sample_executor s fs keys f) = f" "(sample_executor s fs keys f)\<lparr>re_frontier := g\<rparr> = sample_executor s fs keys g"
    for s fs keys f g by (simp_all add: sample_executor_def)
  have peek: "lf_peek_min \<lparr>lf_heap = [sample_live 100 0 2], lf_generations = [2, 0]\<rparr> =
      Some (Some (sample_live 100 0 2), \<lparr>lf_heap = [sample_live 100 0 2], lf_generations = [2, 0]\<rparr>)"
    by (rule peek_single) simp_all
  have "\<not> u64_to_u128 (le_time_ns (sample_live 100 0 2)) < 1" by (simp add: sample_live_def u64_to_u128_def)
  then have check: "check_drained 1 st = Some (Inr st)"
    if "rs_executor st = sample_executor s fs keys \<lparr>lf_heap = [sample_live 100 0 2], lf_generations = [2, 0]\<rparr>"
    for st :: round_state and s fs keys using that by (simp add: check_drained_def f peek Let_def)
  have one: "u64_of_len (Suc 0) = 1" by (simp add: u64_of_len_def)
  show ?thesis
    by (simp add: run_round_def f sample_collect sample_work obind_def check Let_def radix_sort_remote_events_def
        radix_sort_remote_def sample_merge one del: merge_remote.simps)
qed

lemma sample_run_end: "run_end_of sample_image (Some 1) = 1"
  by (simp add: run_end_of_def sample_image_def u64_to_u128_def)

lemma sample_stop: "execute_rounds 1 p rounds sample_rounds_end =
  Some (Some (Inr (rounds, sample_rounds_end)))"
proof -
  have "least_entry [sample_live 105 1 1, sample_live 100 0 2] = Some (sample_live 100 0 2)"
    by (simp add: sample_live_def le_rank_def)
  then have "lf_peek_min \<lparr>lf_heap = [sample_live 105 1 1, sample_live 100 0 2], lf_generations = [2, 1]\<rparr> =
      Some (Some (sample_live 100 0 2), \<lparr>lf_heap = [sample_live 105 1 1, sample_live 100 0 2], lf_generations = [2, 1]\<rparr>)"
    by (simp add: lf_peek_min.simps) (simp add: sample_live_def)
  then show ?thesis
    by (subst execute_rounds.simps) (simp add: sample_executor_def sample_live_def u64_to_u128_def)
qed

definition sample_metrics :: round_metrics where
  "sample_metrics = \<lparr>rm_frontier_ns = 0, rm_exclusive_horizon_ns = 1, rm_horizon_advance_ns = 1, rm_events_processed = 2,
     rm_active_lp_count = 1, rm_lp_work = [\<lparr>lw_node = 0, lw_events_processed = 2, lw_same_time_continuations = 0,
     lw_fallback_classified_pushes = 0\<rparr>], rm_messages_exchanged = 1, rm_frontier_updates = 2\<rparr>"

lemma sample_rounds:
  "run_scalar_rounds sample_image (Some 1) = Some (Some (Inr (finish_result sample_rounds_end, [sample_metrics])))"
proof -
  let ?r = "sample_executor sample_s0 [[(ev_key sample_arrival, sample_arrival)], []] {ev_key sample_arrival}
     \<lparr>lf_heap = [sample_live 0 0 1], lf_generations = [1, 0]\<rparr>"
  have f: "re_frontier ?r = \<lparr>lf_heap = [sample_live 0 0 1], lf_generations = [1, 0]\<rparr>"
    "?r\<lparr>re_frontier := \<lparr>lf_heap = [sample_live 0 0 1], lf_generations = [1, 0]\<rparr>\<rparr> = ?r" "re_minimum_lookahead_ns ?r = None"
    by (simp_all add: sample_executor_def)
  have h: "min 1 (lookahead_end None 0) = 1" "le_time_ns (sample_live 0 0 1) = 0"
    by (simp_all add: lookahead_end_def time_after_u64_max_def sample_live_def)
  have "execute_rounds 1 None [] ?r = Some (Some (Inr ([sample_metrics], sample_rounds_end)))"
    by (subst execute_rounds.simps)
      (simp add: f peek_single h sample_round sample_stop u64_to_u128_def metrics_of_def sample_metrics_def saturating_sub_def
        del: One_nat_def)
  then show ?thesis
    by (simp add: run_scalar_rounds_def sample_rounds_new sample_run_end obind_def)
qed

theorem rounds_take_events_in_order_witness:
  "\<exists>logs r. rounds_trace sample_image 1 logs [sample_metrics] r \<and> length logs = 1"
  using rounds_take_events_in_order [OF sample_valid(1) sample_rounds] sample_run_end by auto

subsection \<open>The same-time shortcut\<close>

text \<open>
  A drain that queues every child: the shortcut, which keeps a same-time \<open>TxReady\<close> child out of the
  future events and takes it next, is only counted.
\<close>

definition queue_child :: "nat \<Rightarrow> node_id \<Rightarrow> event option \<Rightarrow> event \<Rightarrow> drain_state \<Rightarrow> execution_error + drain_state" where
  "queue_child slot node direct_child child d =
     (if ev_key child \<in> re_pending_keys (ds_executor d) then Inl (DuplicateEventKey (ev_key child))
      else
        let d1 = put_pending (insert (ev_key child)) d in
        if ev_target child = node then
          if om_get (lp_futures slot d1) (ev_key child) \<noteq> None then Inl (DuplicateEventKey (ev_key child))
          else
            let d2 = put_futures slot (om_insert (ev_key child) child (lp_futures slot d1)) d1 in
            if direct_child = Some child
            then Inr (d2\<lparr>ds_same_time_continuations := saturating_add (ds_same_time_continuations d2) 1\<rparr>)
            else if event_fel_class (ev_kind child) = FallbackHeap
            then and_then (ok_or (CounterOverflow node) (checked_add (ds_fallback_classified_pushes d2) 1))
                   (\<lambda>pushes. Inr (d2\<lparr>ds_fallback_classified_pushes := pushes\<rparr>))
            else Inr d2
        else Inr (d1\<lparr>ds_outbox := ds_outbox d1 @ [child]\<rparr>))"

fun queue_children :: "nat \<Rightarrow> node_id \<Rightarrow> event option \<Rightarrow> event list \<Rightarrow> drain_state \<Rightarrow> execution_error + drain_state" where
  "queue_children slot node direct_child [] d = Inr d"
| "queue_children slot node direct_child (child # children) d =
     and_then (queue_child slot node direct_child child d) (queue_children slot node direct_child children)"

definition queued_step :: "nat \<Rightarrow> node_id \<Rightarrow> drain_state \<Rightarrow> drain_state outcome" where
  "queued_step slot node d = Option.bind (take_event slot d) (\<lambda>(event, d1).
     let d2 = put_pending (\<lambda>keys. keys - {ev_key event}) d1 in
     (case dispatch event (re_transitions (ds_executor d2)) of
        None \<Rightarrow> None
      | Some (Inl e) \<Rightarrow> Some (Inl e)
      | Some (Inr (_, s)) \<Rightarrow>
          let d3 = d2\<lparr>ds_executor := (ds_executor d2)\<lparr>re_transitions :=
                s\<lparr>ts_superseded_timers := [], ts_children := []\<rparr>\<rparr>\<rparr>
          in Some (and_then (remove_timers slot (ts_superseded_timers s) d3) (\<lambda>d4.
             and_then (queue_children slot node
                  (direct_child_of event node (first_key (lp_futures slot d4)) (ts_children s))
                  (ts_children s) d4) (\<lambda>d5.
             Inr (d5\<lparr>ds_events_processed := saturating_add (ds_events_processed d5) 1\<rparr>))))))"

partial_function (option) queued_loop :: "nat \<Rightarrow> node_id \<Rightarrow> u128 \<Rightarrow> drain_state \<Rightarrow> drain_state outcome option" where
  "queued_loop slot node h d =
     (if drain_due slot h d then
        (case queued_step slot node d of
           None \<Rightarrow> Some None
         | Some (Inl e) \<Rightarrow> Some (Some (Inl e))
         | Some (Inr d') \<Rightarrow> queued_loop slot node h d')
      else Some (Some (Inr d)))"

declare queued_loop.simps [code]

text \<open>The state of the queueing drain: the continuation is the first of the future events.\<close>

definition queued :: "nat \<Rightarrow> drain_state \<Rightarrow> drain_state" where
  "queued slot d = (case ds_continuation d of
     None \<Rightarrow> d
   | Some c \<Rightarrow> put_futures slot ((ev_key c, c) # lp_futures slot d) (d\<lparr>ds_continuation := None\<rparr>))"

lemma take_queued:
  assumes "slot < length (re_futures (ds_executor d))"
  shows "take_event slot (queued slot d) = take_event slot d"
proof (cases "ds_continuation d")
  case (Some c)
  have "put_futures slot (lp_futures slot d) (put_futures slot q (d\<lparr>ds_continuation := None\<rparr>)) = d\<lparr>ds_continuation := None\<rparr>" for q
    using assms by (simp add: put_futures_def lp_futures_def)
  then show ?thesis using Some assms by (simp add: take_event_def queued_def)
qed (simp add: queued_def)

lemma queue_children_None: "queue_children slot node None children d = route_children slot node None children d"
proof (induction children arbitrary: d)
  case (Cons child children)
  have "queue_child slot node None child d = route_child slot node None child d"
    by (simp add: queue_child_def route_child_def Let_def)
  then show ?case by (simp add: Cons.IH [abs_def])
qed simp

lemma queue_direct:
  assumes wf: "lp_wf node (lp_futures slot d)" and l: "slot < length (re_futures (ds_executor d))"
    and c: "ds_continuation d = None" and dc: "direct_child_of e node (first_key (lp_futures slot d)) children = Some child"
  shows "queue_children slot node (Some child) children d = map_sum id (queued slot) (route_children slot node (Some child) children d)"
proof -
  note d = direct_child_Some [OF dc]
  have first: "ev_key child < k" if k: "k \<in> fst ` set (lp_futures slot d)" for k
  proof -
    obtain k0 where k0: "first_key (lp_futures slot d) = Some k0"
      using k first_key_None [of "lp_futures slot d"] by fastforce
    have "k0 \<le> k" using first_key_least [OF wf k0] k by blast
    with d(4) [OF k0] show ?thesis by (rule less_le_trans)
  qed
  then have "om_insert (ev_key child) child (lp_futures slot d) = (ev_key child, child) # lp_futures slot d"
    by (cases "lp_futures slot d") force+
  moreover have "om_get (lp_futures slot d) (ev_key child) = None"
    unfolding om_get_def map_of_eq_None_iff using first by auto
  ultimately show ?thesis
    using d(1,2) l c by (simp add: queue_child_def route_child_def Let_def queued_def put_futures_def put_pending_def lp_futures_def)
qed

lemma queued_step_exact:
  assumes wf: "drain_wf slot node d"
  shows "queued_step slot node (queued slot d) = map_option (map_sum id (queued slot)) (drain_step slot node d)"
proof (cases "take_event slot d")
  case None
  then show ?thesis using wf by (simp add: queued_step_def drain_step_def take_queued drain_wf_def)
next
  case (Some a)
  obtain e d1 where t: "take_event slot d = Some (e, d1)" using Some by (cases a) simp
  have tq: "take_event slot (queued slot d) = Some (e, d1)" using t wf by (simp add: take_queued drain_wf_def)
  note tk = take_event_least [OF wf t]
  let ?d2 = "put_pending (\<lambda>keys. keys - {ev_key e}) d1"
  show ?thesis
  proof (cases "dispatch e (re_transitions (ds_executor ?d2))" rule: trans_result_cases)
    case (ok u s)
    let ?d3 = "?d2\<lparr>ds_executor := (ds_executor ?d2)\<lparr>re_transitions := s\<lparr>ts_superseded_timers := [], ts_children := []\<rparr>\<rparr>\<rparr>"
    have same: "and_then (queue_children slot node (direct_child_of e node (first_key (lp_futures slot d4)) (ts_children s)) (ts_children s) d4)
          (\<lambda>d5. Inr (d5\<lparr>ds_events_processed := saturating_add (ds_events_processed d5) 1\<rparr>))
        = map_sum id (queued slot) (and_then (route_children slot node
            (direct_child_of e node (first_key (lp_futures slot d4)) (ts_children s)) (ts_children s) d4)
          (\<lambda>d5. Inr (d5\<lparr>ds_events_processed := saturating_add (ds_events_processed d5) 1\<rparr>)))"
      if rm: "remove_timers slot (ts_superseded_timers s) ?d3 = Inr d4" for d4
    proof -
      have "slot < length (re_futures (ds_executor ?d3))" "lp_futures slot ?d3 = lp_futures slot d1" "ds_continuation ?d3 = None"
        using tk(3,10) by (simp_all add: lp_futures_def put_pending_def)
      then have r: "lp_wf node (lp_futures slot d4)" "slot < length (re_futures (ds_executor d4))" "ds_continuation d4 = None"
        using remove_timers_frame [OF rm, of node] tk(4) by simp_all
      show ?thesis
      proof (cases "direct_child_of e node (first_key (lp_futures slot d4)) (ts_children s)")
        case None
        have "queued slot (d5\<lparr>ds_events_processed := n\<rparr>) = d5\<lparr>ds_events_processed := n\<rparr>"
          if "route_children slot node None (ts_children s) d4 = Inr d5" for d5 n
          using route_children_frame [OF that r(1,2)] r(3) by (simp add: queued_def)
        then show ?thesis unfolding None queue_children_None
          by (cases "route_children slot node None (ts_children s) d4") simp_all
      next
        case (Some child)
        have "(queued slot d5)\<lparr>ds_events_processed := saturating_add (ds_events_processed (queued slot d5)) 1\<rparr>
            = queued slot (d5\<lparr>ds_events_processed := saturating_add (ds_events_processed d5) 1\<rparr>)" for d5
          by (cases "ds_continuation d5") (simp_all add: queued_def put_futures_def lp_futures_def)
        then show ?thesis unfolding Some queue_direct [OF r Some]
          by (cases "route_children slot node (Some child) (ts_children s) d4") simp_all
      qed
    qed
    show ?thesis
      using t tq ok same by (cases "remove_timers slot (ts_superseded_timers s) ?d3")
        (simp_all add: queued_step_def drain_step_def)
  qed (use t tq in \<open>simp_all add: queued_step_def drain_step_def\<close>)
qed

lemma queued_loop_exact:
  assumes "drain_wf slot node d" "\<And>c. ds_continuation d = Some c \<Longrightarrow> u64_to_u128 (key_time_ns (ev_key c)) < h"
  shows "queued_loop slot node h (queued slot d) = drain_loop slot node h d"
  using assms
proof (induction rule: drain_induct)
  case (step d)
  have due: "drain_due slot h (queued slot d) \<longleftrightarrow> drain_due slot h d"
    using step.hyps step.prems
    by (cases "ds_continuation d") (auto simp: drain_due_def queued_def first_key_def om_first_def drain_wf_def)
  have "queued_loop slot node h (queued slot d') = drain_loop slot node h d'"
    if d': "drain_step slot node d = Some (Inr d')" and "drain_due slot h d" for d'
  proof (rule step.IH [OF d'])
    obtain e d1 where t: "take_event slot d = Some (e, d1)" by (rule drain_step_takes [OF d'])
    have "u64_to_u128 (key_time_ns (ev_key e)) < h" by (rule due_time [OF that(2) t step.hyps step.prems])
    then show "u64_to_u128 (key_time_ns (ev_key c)) < h" if "ds_continuation d' = Some c" for c
      using drain_step_later(4) [OF step.hyps d' t that] by simp
  qed
  moreover have "queued slot d = d" if "\<not> drain_due slot h d" using that by (auto simp: drain_due_def queued_def)
  ultimately show ?case
    unfolding queued_loop.simps [of slot node h "queued slot d"] drain_loop.simps [of slot node h d]
      due queued_step_exact [OF step.hyps]
    by (auto split: option.split sum.split)
qed

text \<open>
  C7. The same-time shortcut of a drain changes nothing: taking a \<open>TxReady\<close> child directly gives, for
  every process and horizon, exactly the drain that puts each child into the future events and takes
  the least one, errors and panics included.
\<close>

theorem same_time_shortcut_exact:
  assumes "futures_wf img r" "slot < length (img_nodes img)"
  shows "drain_loop slot (node_of img slot) h (start_drain r) = queued_loop slot (node_of img slot) h (start_drain r)"
proof -
  have c: "ds_continuation (start_drain r) = None" by (simp add: start_drain_def)
  have "queued_loop slot (node_of img slot) h (queued slot (start_drain r)) = drain_loop slot (node_of img slot) h (start_drain r)"
    by (rule queued_loop_exact [OF start_drain_wf [OF assms]]) (simp add: c)
  then show ?thesis by (simp add: queued_def c)
qed

theorem same_time_shortcut_exact_witness:
  "queued_loop 0 0 1 (sample_drain sample_s0 [(ev_key sample_arrival, sample_arrival)] {ev_key sample_arrival} [] 0) =
     Some (Some (Inr (sample_drain (sample_s2 []) [(ev_key sample_complete, sample_complete)]
       {ev_key sample_remote, ev_key sample_complete} [sample_remote] 2)))"
proof -
  let ?r = "sample_executor sample_s0 [[(ev_key sample_arrival, sample_arrival)], []] {ev_key sample_arrival}
     \<lparr>lf_heap = [], lf_generations = [1, 0]\<rparr>"
  have s: "start_drain ?r = sample_drain sample_s0 [(ev_key sample_arrival, sample_arrival)] {ev_key sample_arrival} [] 0"
    by (simp add: start_drain_def sample_drain_def)
  have "futures_wf sample_image (sample_executor sample_s0 [[(ev_key sample_arrival, sample_arrival)], []] {ev_key sample_arrival}
     \<lparr>lf_heap = [sample_live 0 0 1], lf_generations = [1, 0]\<rparr>)" by (rule executor_new_futures [OF sample_rounds_new])
  then have "futures_wf sample_image ?r"
    by (simp add: futures_wf_def sample_executor_def re_image_def)
  then show ?thesis
    using same_time_shortcut_exact [of sample_image ?r 0 1] by (simp add: sample_image_parts s sample_drain_loop)
qed

end
