(* ===== verification/Word_Arena.thy ===== *)
theory Word_Arena
  imports Prelude
begin

section \<open>Records in a flat memory\<close>

text \<open>
  A device keeps its records in flat arrays of words: a record of \<open>w\<close> words in slot \<open>i\<close> of a region
  that starts at word \<open>off\<close> occupies the words from \<open>off + i * w\<close>.  Writing one record leaves every
  other slot of the region as it was.  Reading or writing out of range is the value \<open>None\<close>.
\<close>

type_synonym words = "u64 list"

definition sub_slice :: "nat \<Rightarrow> nat \<Rightarrow> 'a list \<Rightarrow> 'a list option" where
  "sub_slice a b xs = (if a \<le> b \<and> b \<le> length xs then Some (take (b - a) (drop a xs)) else None)"

text \<open>\<open>xs[i..i + n].copy_from_slice(ys)\<close> with \<open>n\<close> the length of \<open>ys\<close>.\<close>

definition copy_words :: "nat \<Rightarrow> 'a list \<Rightarrow> 'a list \<Rightarrow> 'a list option" where
  "copy_words i ys xs = (if i + length ys \<le> length xs then Some (take i xs @ ys @ drop (i + length ys) xs) else None)"

definition rec_at :: "nat \<Rightarrow> nat \<Rightarrow> 'a list \<Rightarrow> nat \<Rightarrow> 'a list" where
  "rec_at w off xs i = take w (drop (off + i * w) xs)"

lemma length_rec_at: "off + (i + 1) * w \<le> length xs \<Longrightarrow> length (rec_at w off xs i) = w"
  by (simp add: rec_at_def)

lemma rec_at_nth: "k < w \<Longrightarrow> off + (i + 1) * w \<le> length xs \<Longrightarrow> rec_at w off xs i ! k = xs ! (off + i * w + k)"
  by (simp add: rec_at_def)

lemma slot_bound: "i < n \<Longrightarrow> off + n * w \<le> (l :: nat) \<Longrightarrow> off + (i + 1) * w \<le> l"
  using mult_le_mono1 [of "i + 1" n w] by simp

text \<open>A write anywhere changes the words it covers and no others.\<close>

lemma copy_words_nth:
  assumes "copy_words i ys xs = Some zs"
  shows "length zs = length xs" "i + length ys \<le> length xs"
    "\<And>k. k < length xs \<Longrightarrow> zs ! k = (if i \<le> k \<and> k < i + length ys then ys ! (k - i) else xs ! k)"
proof -
  have l: "i + length ys \<le> length xs" and z: "zs = take i xs @ ys @ drop (i + length ys) xs"
    using assms by (auto simp: copy_words_def split: if_splits)
  show "length zs = length xs" "i + length ys \<le> length xs" using l z by simp_all
  show "zs ! k = (if i \<le> k \<and> k < i + length ys then ys ! (k - i) else xs ! k)" if "k < length xs" for k
    using that l by (auto simp: z nth_append not_less)
qed

lemma copy_rec_at:
  assumes "length ys = w" "off + (i + 1) * w \<le> length xs"
  obtains zs where "copy_words (off + i * w) ys xs = Some zs" "length zs = length xs"
    "\<And>j. off + (j + 1) * w \<le> length xs \<Longrightarrow> rec_at w off zs j = (if j = i then ys else rec_at w off xs j)"
    "\<And>k. k < length xs \<Longrightarrow> k < off + i * w \<or> off + (i + 1) * w \<le> k \<Longrightarrow> zs ! k = xs ! k"
proof -
  let ?zs = "take (off + i * w) xs @ ys @ drop (off + i * w + w) xs"
  have c: "copy_words (off + i * w) ys xs = Some ?zs" using assms by (simp add: copy_words_def)
  note nth = copy_words_nth [OF c]
  have "rec_at w off ?zs j = (if j = i then ys else rec_at w off xs j)" if j: "off + (j + 1) * w \<le> length xs" for j
  proof (rule nth_equalityI)
    show "length (rec_at w off ?zs j) = length (if j = i then ys else rec_at w off xs j)"
      using j nth(1) assms(1) length_rec_at [of off j w ?zs] length_rec_at [of off j w xs] by simp
    fix k assume "k < length (rec_at w off ?zs j)"
    then have k: "k < w" using j nth(1) length_rec_at [of off j w ?zs] by simp
    have at: "rec_at w off ?zs j ! k = ?zs ! (off + j * w + k)" "rec_at w off xs j ! k = xs ! (off + j * w + k)"
      using k j nth(1) by (simp_all add: rec_at_nth)
    have z: "?zs ! (off + j * w + k) = (if off + i * w \<le> off + j * w + k \<and> off + j * w + k < off + i * w + w
        then ys ! (off + j * w + k - (off + i * w)) else xs ! (off + j * w + k))"
      using nth(3) [of "off + j * w + k"] k j assms(1) by simp
    show "rec_at w off ?zs j ! k = (if j = i then ys else rec_at w off xs j) ! k"
    proof (cases "j = i")
      case True
      then show ?thesis using at z k by simp
    next
      case False
      have "j * w + w \<le> i * w \<or> i * w + w \<le> j * w"
        using False mult_le_mono1 [of "j + 1" i w] mult_le_mono1 [of "i + 1" j w] by (cases "j < i") auto
      then have "\<not> (off + i * w \<le> off + j * w + k \<and> off + j * w + k < off + i * w + w)" using k by linarith
      then show ?thesis using at z False by auto
    qed
  qed
  moreover have "?zs ! k = xs ! k" if "k < length xs" "k < off + i * w \<or> off + (i + 1) * w \<le> k" for k
    using nth(3) [OF that(1)] that(2) assms(1) by auto
  ultimately show thesis using that c nth(1) by blast
qed

end
