(* ===== verification/Device_Record.thy ===== *)
theory Device_Record
  imports Word_Arena Binary_Heap Events Image_Types
begin

section \<open>Records on a device\<close>

text \<open>
  The words a device run exchanges with its host: events with their packets as records of fourteen
  words (\<open>executor/src/cuda.rs\<close>), the shorter records of the event streams and of the exchange
  (\<open>executor/src/device_event_record.rs\<close>, \<open>executor/src/cuda_kernels.cu\<close>), and the heap of records the host builds in the arena of a
  process before the first round.
\<close>

unbundle bit_operations_syntax

datatype cuda_arena =
    FelArena | ChannelInboxArena | ServiceStreamArena | GeneratorStreamArena | QueueArena | OutboxArena | WorklistArena
  | ObservedPacketsArena | DeparturesArena | ArrivalsArena | TcpReceiverRangesArena | TcpSegmentLedgerArena
  | RemoteStagingArena

datatype cuda_error =
    DeviceExecution u64 "node_id option"
  | CapacityExceeded cuda_arena "node_id option" nat nat

subsection \<open>Packets\<close>

definition packet_ecn_flag :: u64 where "packet_ecn_flag = push_bit 63 1"

definition packet_kind_mask :: u64 where "packet_kind_mask = NOT packet_ecn_flag"

fun packet_kind_code :: "packet_kind \<Rightarrow> u8" where
  "packet_kind_code Data = 0"
| "packet_kind_code FeedbackPacket = 1"
| "packet_kind_code (TcpData _) = 2"
| "packet_kind_code (TcpAck _) = 3"
| "packet_kind_code (Pfc _) = 4"
| "packet_kind_code (DcqcnCnp _) = 5"
| "packet_kind_code (RoceData _) = 7"
| "packet_kind_code (RoceAck _) = 8"
| "packet_kind_code (RoceNack _) = 9"
| "packet_kind_code RocePacingTimer = 10"
| "packet_kind_code StageNotify = 11"

definition roce_ack_size_echo_word :: "roce_ack_header \<Rightarrow> u64" where
  "roce_ack_size_echo_word header = ucast (rah_acknowledged_bytes header) OR push_bit 32 (of_bool (rah_ce_echo header))"

definition roce_ack_header_of_words :: "u64 \<Rightarrow> u64 \<Rightarrow> u64 \<Rightarrow> roce_ack_header option" where
  "roce_ack_header_of_words m0 m1 m2 =
     (if drop_bit 33 m2 \<noteq> 0 then None
      else Some \<lparr>rah_acknowledgment = m0, rah_echoed_sent_time_ns = m1, rah_acknowledged_bytes = ucast m2,
                 rah_ce_echo = (drop_bit 32 m2 \<noteq> 0)\<rparr>)"

fun packet_metadata :: "packet_kind \<Rightarrow> words" where
  "packet_metadata Data = [0, 0, 0]"
| "packet_metadata FeedbackPacket = [0, 0, 0]"
| "packet_metadata (TcpData header) =
     [tdh_sequence header, tdh_sent_time_ns header, of_bool (tdh_retransmission header)]"
| "packet_metadata (TcpAck header) =
     [tah_acknowledgment header, tah_acknowledged_bytes header, tah_echoed_sent_time_ns header]"
| "packet_metadata (Pfc header) =
     [pfch_controlled_link header, ucast (pfch_priority header), of_bool (pfch_pause header)]"
| "packet_metadata (DcqcnCnp trigger_payload) = [trigger_payload, 0, 0]"
| "packet_metadata (RoceData header) =
     [rdh_psn header, rdh_sent_time_ns header, of_bool (rdh_retransmission header)]"
| "packet_metadata (RoceAck header) =
     [rah_acknowledgment header, rah_echoed_sent_time_ns header, roce_ack_size_echo_word header]"
| "packet_metadata (RoceNack header) =
     [rah_acknowledgment header, rah_echoed_sent_time_ns header, roce_ack_size_echo_word header]"
| "packet_metadata RocePacingTimer = [0, 0, 0]"
| "packet_metadata StageNotify = [0, 0, 0]"

definition encode_packet_kind_word :: "packet_descriptor \<Rightarrow> u64" where
  "encode_packet_kind_word packet =
     ucast (packet_kind_code (pkt_kind packet)) OR (if pkt_ecn_marked packet then packet_ecn_flag else 0)"

definition bad_packet :: cuda_error where "bad_packet = DeviceExecution 93 None"

definition decode_packet_kind :: "u64 \<Rightarrow> u64 \<Rightarrow> u64 \<Rightarrow> u64 \<Rightarrow> cuda_error + packet_kind" where
  "decode_packet_kind value m0 m1 m2 =
     (let code = value AND packet_kind_mask in
      if code = 0 then Inr Data
      else if code = 1 then Inr FeedbackPacket
      else if code = 2 then
        Inr (TcpData \<lparr>tdh_sequence = m0, tdh_sent_time_ns = m1, tdh_retransmission = (m2 \<noteq> 0)\<rparr>)
      else if code = 3 then
        Inr (TcpAck \<lparr>tah_acknowledgment = m0, tah_acknowledged_bytes = m1, tah_echoed_sent_time_ns = m2\<rparr>)
      else if code = 4 \<and> m1 < 8 \<and> m2 \<le> 1 then
        Inr (Pfc \<lparr>pfch_controlled_link = m0, pfch_priority = ucast m1, pfch_pause = (m2 \<noteq> 0)\<rparr>)
      else if code = 5 \<and> m1 = 0 \<and> m2 = 0 then Inr (DcqcnCnp m0)
      else if code = 7 \<and> m2 \<le> 1 then
        Inr (RoceData \<lparr>rdh_psn = m0, rdh_sent_time_ns = m1, rdh_retransmission = (m2 \<noteq> 0)\<rparr>)
      else if code = 8 then ok_or bad_packet (map_option RoceAck (roce_ack_header_of_words m0 m1 m2))
      else if code = 9 then ok_or bad_packet (map_option RoceNack (roce_ack_header_of_words m0 m1 m2))
      else if code = 10 \<and> m0 = 0 \<and> m1 = 0 \<and> m2 = 0 then Inr RocePacingTimer
      else if code = 11 \<and> m0 = 0 \<and> m1 = 0 \<and> m2 = 0 then Inr StageNotify
      else Inl bad_packet)"

text \<open>The seven words of a packet; a shorter slice panics.\<close>

definition decode_packet_fields :: "words \<Rightarrow> (cuda_error + packet_descriptor) option" where
  "decode_packet_fields w =
     (if 7 \<le> length w then
        Some (and_then (decode_packet_kind (w ! 3) (w ! 4) (w ! 5) (w ! 6)) (\<lambda>kind.
          Inr \<lparr>pkt_id = w ! 0, pkt_flow = w ! 1, pkt_size_bytes = w ! 2,
               pkt_ecn_marked = (w ! 3 AND packet_ecn_flag \<noteq> 0), pkt_kind = kind\<rparr>))
      else None)"

subsection \<open>Events\<close>

definition event_words :: nat where "event_words = 14"

fun event_kind_word :: "event_kind \<Rightarrow> u64" where
  "event_kind_word PacketArrival = 0"
| "event_kind_word TxReady = 1"
| "event_kind_word TxComplete = 2"
| "event_kind_word RemoteArrival = 3"
| "event_kind_word RetransmissionTimeout = 4"
| "event_kind_word PacingTimer = 5"

definition packet_record :: "packet_descriptor \<Rightarrow> words" where
  "packet_record packet =
     [0, 0, 0, 0, 0, 0, pkt_id packet, pkt_id packet, pkt_flow packet, pkt_size_bytes packet,
      encode_packet_kind_word packet] @ packet_metadata (pkt_kind packet)"

definition event_record :: "event \<Rightarrow> packet_descriptor \<Rightarrow> words" where
  "event_record event packet =
     [key_time_ns (ev_key event), ucast (key_phase (ev_key event)), key_origin_node (ev_key event),
      key_origin_seq (ev_key event), ev_target event, event_kind_word (ev_kind event), ev_payload event,
      pkt_id packet, pkt_flow packet, pkt_size_bytes packet, encode_packet_kind_word packet]
     @ packet_metadata (pkt_kind packet)"

definition decode_event_kind :: "u64 \<Rightarrow> cuda_error + event_kind" where
  "decode_event_kind value =
     (if value = 0 then Inr PacketArrival
      else if value = 1 then Inr TxReady
      else if value = 2 then Inr TxComplete
      else if value = 3 then Inr RemoteArrival
      else if value = 4 then Inr RetransmissionTimeout
      else if value = 5 then Inr PacingTimer
      else Inl (DeviceExecution 92 None))"

definition decode_event_header :: "words \<Rightarrow> event_kind \<Rightarrow> cuda_error + event" where
  "decode_event_header record kind =
     (if unat (record ! 1) < 2 ^ 16 then
        Inr \<lparr>ev_key = \<lparr>key_time_ns = record ! 0, key_phase = ucast (record ! 1),
               key_origin_node = record ! 2, key_origin_seq = record ! 3\<rparr>,
             ev_target = record ! 4, ev_kind = kind, ev_payload = record ! 6\<rparr>
      else Inl (DeviceExecution 90 None))"

definition decode_event :: "words \<Rightarrow> (cuda_error + event \<times> packet_descriptor) option" where
  "decode_event record =
     (if 5 < length record then
        (case decode_event_kind (record ! 5) of
           Inl e \<Rightarrow> Some (Inl e)
         | Inr kind \<Rightarrow>
             Option.bind (sub_slice 7 14 record) (\<lambda>fields.
             map_option (\<lambda>r. and_then r (\<lambda>packet.
               and_then (decode_event_header record kind) (\<lambda>event. Inr (event, packet))))
             (decode_packet_fields fields)))
      else None)"

subsection \<open>The records of the event streams\<close>

datatype stored_event_class = StoredChannel | StoredService | StoredGenerator | StoredFallback

fun stored_event_words :: "stored_event_class \<Rightarrow> nat" where
  "stored_event_words StoredChannel = 11"
| "stored_event_words StoredService = 5"
| "stored_event_words StoredGenerator = 10"
| "stored_event_words StoredFallback = event_words"

definition stream_event_class :: "nat \<Rightarrow> nat \<Rightarrow> nat \<Rightarrow> stored_event_class" where
  "stream_event_class stream service_stream_base generator_stream_base =
     (if stream < service_stream_base then StoredChannel
      else if stream < generator_stream_base then StoredService
      else StoredGenerator)"

text \<open>
  The kernel writes the words of the stream's record; \<open>service_base\<close> and \<open>generator_base\<close> are the
  parameters \<open>P_SERVICE_STREAM_BASE\<close> and \<open>P_GENERATOR_STREAM_BASE\<close>.
\<close>

definition stream_record_words :: "u64 \<Rightarrow> u64 \<Rightarrow> u64 \<Rightarrow> nat" where
  "stream_record_words stream service_base generator_base =
     (if stream < service_base then 11 else if stream < generator_base then 5 else 10)"

definition encode_stream_record :: "words \<Rightarrow> u64 \<Rightarrow> u64 \<Rightarrow> u64 \<Rightarrow> words" where
  "encode_stream_record record stream service_base generator_base =
     take 4 record @ [record ! 6]
     @ (if stream < service_base
        then [record ! 8, record ! 9, record ! 10, record ! 11, record ! 12, record ! 13]
        else if stream \<ge> generator_base
        then [record ! 9, record ! 10, record ! 11, record ! 12, record ! 13]
        else [])"

definition decode_stream_record :: "words \<Rightarrow> u64 \<Rightarrow> u64 \<Rightarrow> u64 \<Rightarrow> u64 \<Rightarrow> words" where
  "decode_stream_record encoded stream node service_base generator_base =
     take 4 encoded @ [node]
     @ (if stream < service_base
        then [event_kind_word RemoteArrival, encoded ! 4, encoded ! 4, encoded ! 5, encoded ! 6, encoded ! 7,
              encoded ! 8, encoded ! 9, encoded ! 10]
        else if stream < generator_base
        then (if encoded ! 1 = 2 then event_kind_word TxReady else event_kind_word TxComplete)
             # encoded ! 4 # replicate 7 0
        else [event_kind_word PacketArrival, encoded ! 4, encoded ! 4, stream - generator_base, encoded ! 5,
              encoded ! 6, encoded ! 7, encoded ! 8, encoded ! 9])"

text \<open>A remote event leaves its producer through a staging record and enters its channel from there.\<close>

definition encode_remote_staging_record :: "words \<Rightarrow> words" where
  "encode_remote_staging_record record =
     take 4 record @ [record ! 4, record ! 6, record ! 8, record ! 9, record ! 10, record ! 11, record ! 12, record ! 13]"

definition copy_staging_to_channel :: "words \<Rightarrow> nat \<Rightarrow> words \<Rightarrow> nat \<Rightarrow> words option" where
  "copy_staging_to_channel remote_staging source_slot stream_records target_word =
     Option.bind (sub_slice (source_slot * 12) (source_slot * 12 + 12) remote_staging) (\<lambda>source.
     copy_words target_word (take 4 source @ drop 5 source) stream_records)"

definition decode_event_record ::
  "words \<Rightarrow> stored_event_class \<Rightarrow> u64 \<Rightarrow> u64 option \<Rightarrow> words option \<Rightarrow> words option" where
  "decode_event_record encoded cls node flow in_service =
     (case cls of
        StoredChannel \<Rightarrow>
          Option.bind (sub_slice 0 4 encoded) (\<lambda>key.
          Option.bind (sub_slice 5 11 encoded) (\<lambda>rest.
          Some (key @ [node, event_kind_word RemoteArrival, encoded ! 4, encoded ! 4] @ rest)))
      | StoredService \<Rightarrow>
          Option.bind (sub_slice 0 4 encoded) (\<lambda>key.
          let kind = (if key ! 1 = 2 then TxReady else TxComplete) in
          if 4 < length encoded then
            if kind = TxComplete then
              Option.bind in_service (\<lambda>service.
              Option.bind (sub_slice 7 14 service) (\<lambda>packet.
              Some (key @ [node, event_kind_word kind, encoded ! 4] @ packet)))
            else Some (key @ [node, event_kind_word kind, encoded ! 4] @ replicate 7 0)
          else None)
      | StoredGenerator \<Rightarrow>
          Option.bind (sub_slice 0 4 encoded) (\<lambda>key.
          if 4 < length encoded then
            Option.bind flow (\<lambda>f.
            Option.bind (sub_slice 5 10 encoded) (\<lambda>rest.
            Some (key @ [node, event_kind_word PacketArrival, encoded ! 4, encoded ! 4, f] @ rest)))
          else None)
      | StoredFallback \<Rightarrow> if length encoded = event_words then Some encoded else None)"

subsection \<open>The heap the host builds\<close>

definition arena_meta_words :: nat where "arena_meta_words = 4"

definition read_record :: "words \<Rightarrow> nat \<Rightarrow> words option" where
  "read_record storage slot = sub_slice (slot * event_words) (slot * event_words + event_words) storage"

definition write_record :: "words \<Rightarrow> nat \<Rightarrow> words \<Rightarrow> words option" where
  "write_record storage slot record = copy_words (slot * event_words) record storage"

definition record_rank :: "words \<Rightarrow> u64 \<times> u64 \<times> u64 \<times> u64" where
  "record_rank record = (record ! 0, record ! 1, record ! 2, record ! 3)"

definition record_less :: "words \<Rightarrow> words \<Rightarrow> bool" where
  "record_less left right \<longleftrightarrow> record_rank left < record_rank right"

text \<open>The word-by-word swap of two records of one arena.\<close>

definition swap_records :: "nat \<Rightarrow> nat \<Rightarrow> words \<Rightarrow> words option" where
  "swap_records a b storage =
     Option.bind (read_record storage a) (\<lambda>ra.
     Option.bind (read_record storage b) (\<lambda>rb.
     Option.bind (write_record storage a rb) (\<lambda>s. write_record s b ra)))"

function heap_rise :: "nat \<Rightarrow> nat \<Rightarrow> words \<Rightarrow> words option" where
  "heap_rise offset child storage =
     (if child = 0 then Some storage
      else
        let parent = heap_parent child in
        Option.bind (read_record storage (offset + child)) (\<lambda>rc.
        Option.bind (read_record storage (offset + parent)) (\<lambda>rp.
        if \<not> record_less rc rp then Some storage
        else Option.bind (swap_records (offset + child) (offset + parent) storage) (heap_rise offset parent))))"
  by pat_completeness auto
termination
  by (relation "measure (\<lambda>(offset, child, storage). child)") (auto simp: heap_parent_def)

declare heap_rise.simps [simp del]

definition heap_push_host ::
  "nat \<Rightarrow> words \<Rightarrow> words \<Rightarrow> words \<Rightarrow> (cuda_error + words \<times> words) option" where
  "heap_push_host lp record meta storage =
     (let base = lp * arena_meta_words in
      if base + 3 < length meta then
        let offset = unat (meta ! base); capacity = unat (meta ! (base + 1)); n = unat (meta ! (base + 3)) in
        if n = capacity
        then Some (Inl (CapacityExceeded FelArena (Some (of_nat lp)) capacity (n + 1)))
        else
          Option.bind (write_record storage (offset + n) record) (\<lambda>storage1.
          map_option (\<lambda>storage2. Inr (meta[base + 3 := of_nat (n + 1)], storage2))
            (heap_rise offset n storage1))
      else None)"

subsection \<open>Packets and events survive the device\<close>

text \<open>A PFC frame names one of eight classes; every other packet has a record.\<close>

fun packet_encodable :: "packet_kind \<Rightarrow> bool" where
  "packet_encodable (Pfc header) \<longleftrightarrow> pfch_priority header < 8"
| "packet_encodable _ \<longleftrightarrow> True"

lemma length_packet_metadata [simp]: "length (packet_metadata kind) = 3"
  by (cases kind) simp_all

lemma packet_kind_word_code:
  "encode_packet_kind_word packet AND packet_kind_mask = ucast (packet_kind_code (pkt_kind packet))"
  by (cases "pkt_kind packet")
    (simp_all add: encode_packet_kind_word_def packet_kind_mask_def packet_ecn_flag_def)

lemma packet_kind_word_ecn: "encode_packet_kind_word packet AND packet_ecn_flag \<noteq> 0 \<longleftrightarrow> pkt_ecn_marked packet"
  by (cases "pkt_kind packet") (simp_all add: encode_packet_kind_word_def packet_ecn_flag_def)

lemma roce_ack_words:
  "roce_ack_header_of_words (rah_acknowledgment h) (rah_echoed_sent_time_ns h) (roce_ack_size_echo_word h) = Some h"
proof -
  have "drop_bit 33 (roce_ack_size_echo_word h) = 0"
    by (rule bit_eqI) (auto simp: roce_ack_size_echo_word_def bit_simps dest: bit_imp_le_length)
  moreover have "ucast (roce_ack_size_echo_word h) = rah_acknowledged_bytes h"
    by (rule bit_eqI) (auto simp: roce_ack_size_echo_word_def bit_simps dest: bit_imp_le_length)
  moreover have "drop_bit 32 (roce_ack_size_echo_word h) = of_bool (rah_ce_echo h)"
    by (rule bit_eqI) (auto simp: roce_ack_size_echo_word_def bit_simps dest: bit_imp_le_length)
  ultimately show ?thesis by (simp add: roce_ack_header_of_words_def)
qed

lemma unat_up_8: "unat (ucast (p :: u8) :: u64) = unat p"
  using unat_lt [of p] by (simp add: unat_ucast_mod)

lemma unat_up_16: "unat (ucast (p :: u16) :: u64) = unat p"
  using unat_lt [of p] by (simp add: unat_ucast_mod)

lemma up_down_8: "ucast (ucast (p :: u8) :: u64) = p"
  using unat_lt [of p] by (simp add: word_unat_eq_iff unat_ucast_mod)

lemma up_down_16: "ucast (ucast (p :: u16) :: u64) = p"
  using unat_lt [of p] by (simp add: word_unat_eq_iff unat_ucast_mod)

lemma decode_metadata:
  assumes "packet_encodable kind" "code AND packet_kind_mask = ucast (packet_kind_code kind)" "packet_metadata kind = [m0, m1, m2]"
  shows "decode_packet_kind code m0 m1 m2 = Inr kind"
proof (cases kind)
  case (Pfc header)
  have "(ucast (pfch_priority header) :: u64) < 8 \<longleftrightarrow> pfch_priority header < 8"
    by (simp add: word_less_nat_alt unat_up_8)
  then show ?thesis using assms Pfc by (auto simp: decode_packet_kind_def up_down_8)
qed (use assms roce_ack_words in \<open>auto simp: decode_packet_kind_def\<close>)

lemma decode_packet_exact:
  assumes "packet_encodable (pkt_kind packet)"
  shows "decode_packet_fields ([pkt_id packet, pkt_flow packet, pkt_size_bytes packet, encode_packet_kind_word packet]
     @ packet_metadata (pkt_kind packet)) = Some (Inr packet)"
proof -
  obtain m0 m1 m2 where m: "packet_metadata (pkt_kind packet) = [m0, m1, m2]"
    by (cases "pkt_kind packet") simp_all
  have "decode_packet_kind (encode_packet_kind_word packet) m0 m1 m2 = Inr (pkt_kind packet)"
    by (rule decode_metadata [OF assms packet_kind_word_code m])
  then show ?thesis by (simp add: decode_packet_fields_def m packet_kind_word_ecn)
qed

lemma decode_kind_word: "decode_event_kind (event_kind_word kind) = Inr kind"
  by (cases kind) (simp_all add: decode_event_kind_def)

lemma length_event_record [simp]: "length (event_record event packet) = 14"
  by (simp add: event_record_def)

lemma decode_event_exact:
  assumes "packet_encodable (pkt_kind packet)"
  shows "decode_event (event_record event packet) = Some (Inr (event, packet))"
proof -
  let ?fields = "[pkt_id packet, pkt_flow packet, pkt_size_bytes packet, encode_packet_kind_word packet] @ packet_metadata (pkt_kind packet)"
  have "sub_slice 7 14 (event_record event packet) = Some ?fields" by (simp add: sub_slice_def event_record_def)
  moreover have "event_record event packet ! 5 = event_kind_word (ev_kind event)" by (simp add: event_record_def)
  moreover have "decode_event_header (event_record event packet) (ev_kind event) = Inr event"
  proof -
    have "unat (key_phase (ev_key event)) < 2 ^ 16" using unat_lt [of "key_phase (ev_key event)"] by simp
    then show ?thesis by (simp add: decode_event_header_def event_record_def unat_up_16 up_down_16)
  qed
  ultimately show ?thesis
    by (simp add: decode_event_def decode_kind_word decode_packet_exact [OF assms, simplified])
qed

text \<open>
  C16. An event and its packet come back from the device as they went: decoding the record of an event
  and a packet gives exactly that event and that packet, ECN mark and every kind of header included.
  The one condition is that a PFC frame names one of the eight classes.
\<close>

theorem event_record_roundtrip:
  assumes "packet_encodable (pkt_kind packet)"
  shows "decode_event (event_record event packet) = Some (Inr (event, packet))"
  using assms by (rule decode_event_exact)

definition sample_ack :: packet_descriptor where
  "sample_ack = \<lparr>pkt_id = 7, pkt_flow = 3, pkt_size_bytes = 64, pkt_ecn_marked = True,
     pkt_kind = RoceAck \<lparr>rah_acknowledgment = 11, rah_echoed_sent_time_ns = 1000, rah_acknowledged_bytes = 4096, rah_ce_echo = True\<rparr>\<rparr>"

definition sample_delivery :: event where
  "sample_delivery = \<lparr>ev_key = \<lparr>key_time_ns = 2000, key_phase = 0, key_origin_node = 4, key_origin_seq = 9\<rparr>,
     ev_target = 5, ev_kind = RemoteArrival, ev_payload = 7\<rparr>"

theorem event_record_roundtrip_witness:
  "decode_event (event_record sample_delivery sample_ack) = Some (Inr (sample_delivery, sample_ack))"
  by (rule event_record_roundtrip) (simp add: sample_ack_def)

subsection \<open>Stream records keep their event\<close>

definition stored_class_of :: "event_kind \<Rightarrow> stored_event_class" where
  "stored_class_of kind = (case event_fel_class kind of
     Channel \<Rightarrow> StoredChannel | Service \<Rightarrow> StoredService | Generator \<Rightarrow> StoredGenerator | FallbackHeap \<Rightarrow> StoredFallback)"

lemma metadata_words:
  obtains m0 m1 m2 where "packet_metadata (pkt_kind packet) = [m0, m1, m2]"
  by (cases "pkt_kind packet") simp_all

text \<open>
  C17. A stream keeps what it drops.  The short record a kernel writes for an event into a stream of its
  class has the width of that stream, and the host puts it back together with the stream's node and
  flow and the packet in service: it is the full record again, and for \<open>TxReady\<close>, whose packet is not
  yet chosen, the event with an empty packet.  A kernel that reads the stream gets the same record, up
  to the packet in service, which it holds elsewhere.
\<close>

theorem stored_record_roundtrip:
  assumes "key_phase (ev_key event) = event_phase (ev_kind event)" "pkt_id packet = ev_payload event"
    and "stream_event_class (unat stream) (unat service_base) (unat generator_base) = stored_class_of (ev_kind event)"
    and "service_base \<le> generator_base"
    and "ev_kind event = PacketArrival \<longrightarrow> pkt_flow packet = stream - generator_base"
  shows "length (encode_stream_record (event_record event packet) stream service_base generator_base)
      = stored_event_words (stored_class_of (ev_kind event))
    \<and> stream_record_words stream service_base generator_base = stored_event_words (stored_class_of (ev_kind event))
    \<and> decode_event_record (encode_stream_record (event_record event packet) stream service_base generator_base)
        (stored_class_of (ev_kind event)) (ev_target event) (Some (pkt_flow packet)) (Some (packet_record packet))
      = Some (if ev_kind event = TxReady then take 7 (event_record event packet) @ replicate 7 0
              else event_record event packet)
    \<and> decode_stream_record (encode_stream_record (event_record event packet) stream service_base generator_base)
        stream (ev_target event) service_base generator_base
      = (if ev_kind event = TxReady \<or> ev_kind event = TxComplete
         then take 7 (event_record event packet) @ replicate 7 0 else event_record event packet)"
proof -
  obtain m0 m1 m2 where m: "packet_metadata (pkt_kind packet) = [m0, m1, m2]" by (rule metadata_words)
  have less: "unat stream < unat service_base \<longleftrightarrow> stream < service_base" "unat stream < unat generator_base \<longleftrightarrow> stream < generator_base"
    by (simp_all add: word_less_nat_alt)
  show ?thesis
    using assms by (cases "ev_kind event")
      (auto simp: less stored_class_of_def stream_event_class_def encode_stream_record_def stream_record_words_def
        decode_stream_record_def decode_event_record_def sub_slice_def event_record_def packet_record_def
        event_words_def m not_less split: if_splits)
qed

theorem stored_record_roundtrip_witness:
  "length (encode_stream_record (event_record sample_delivery sample_ack) 2 4 9) = 11
    \<and> decode_event_record (encode_stream_record (event_record sample_delivery sample_ack) 2 4 9) StoredChannel
        5 (Some 3) (Some (packet_record sample_ack)) = Some (event_record sample_delivery sample_ack)"
  using stored_record_roundtrip [of sample_delivery sample_ack 2 4 9]
  by (simp add: sample_delivery_def sample_ack_def stored_class_of_def stream_event_class_def)

lemma copied_words:
  assumes "length c = n" "i + n \<le> length xs"
  shows "take i (take i xs @ c @ drop (i + n) xs) = take i xs"
    "drop (i + n) (take i xs @ c @ drop (i + n) xs) = drop (i + n) xs"
    "take n (drop i (take i xs @ c @ drop (i + n) xs)) = c"
  using assms by simp_all

text \<open>
  C18. A delivery crosses the exchange unchanged.  When the staging slot of a producer holds the record
  of a remote event, copying it to the channel touches only the channel's own words, never leaves the
  two buffers, and the channel then decodes to the event and the packet that were sent.
\<close>

theorem staged_delivery_exact:
  assumes "ev_kind event = RemoteArrival" "pkt_id packet = ev_payload event" "packet_encodable (pkt_kind packet)"
    and "sub_slice (slot * 12) (slot * 12 + 12) staging = Some (encode_remote_staging_record (event_record event packet))"
    and "word + 11 \<le> length channel"
  shows "\<exists>channel'. copy_staging_to_channel staging slot channel word = Some channel'
    \<and> take word channel' = take word channel \<and> drop (word + 11) channel' = drop (word + 11) channel
    \<and> Option.bind (decode_event_record (take 11 (drop word channel')) StoredChannel (ev_target event) None None) decode_event
      = Some (Inr (event, packet))"
proof -
  obtain m0 m1 m2 where m: "packet_metadata (pkt_kind packet) = [m0, m1, m2]" by (rule metadata_words)
  let ?r = "encode_remote_staging_record (event_record event packet)"
  let ?c = "take 4 ?r @ drop 5 ?r"
  have len: "length ?c = 11" by (simp add: encode_remote_staging_record_def)
  have "decode_event_record ?c StoredChannel (ev_target event) None None = Some (event_record event packet)"
    using assms(1,2) by (simp add: encode_remote_staging_record_def event_record_def decode_event_record_def sub_slice_def m)
  moreover have "decode_event (event_record event packet) = Some (Inr (event, packet))"
    by (rule decode_event_exact [OF assms(3)])
  moreover have "copy_staging_to_channel staging slot channel word = Some (take word channel @ ?c @ drop (word + 11) channel)"
    using assms(4,5) by (simp only: copy_staging_to_channel_def copy_words_def len bind.bind_lunit if_True)
  ultimately show ?thesis
    by (intro exI [of _ "take word channel @ ?c @ drop (word + 11) channel"])
      (simp only: copied_words [OF len assms(5)] bind.bind_lunit simp_thms)
qed

theorem staged_delivery_exact_witness:
  "\<exists>channel'. copy_staging_to_channel (encode_remote_staging_record (event_record sample_delivery sample_ack)) 0
      (replicate 22 1) 11 = Some channel'
    \<and> take 11 channel' = replicate 11 1
    \<and> Option.bind (decode_event_record (take 11 (drop 11 channel')) StoredChannel 5 None None) decode_event
      = Some (Inr (sample_delivery, sample_ack))"
proof -
  let ?s = "encode_remote_staging_record (event_record sample_delivery sample_ack)"
  have "sub_slice (0 * 12) (0 * 12 + 12) ?s = Some ?s" by (simp add: sub_slice_def encode_remote_staging_record_def)
  moreover have "ev_kind sample_delivery = RemoteArrival" "pkt_id sample_ack = ev_payload sample_delivery"
    "packet_encodable (pkt_kind sample_ack)" "ev_target sample_delivery = 5"
    by (simp_all add: sample_delivery_def sample_ack_def)
  ultimately show ?thesis
    using staged_delivery_exact [of sample_delivery sample_ack 0 ?s 11 "replicate 22 1"] by auto
qed

subsection \<open>Records in the arena\<close>

definition record_at :: "words \<Rightarrow> nat \<Rightarrow> words" where
  "record_at = rec_at event_words 0"

lemma read_record_at:
  "read_record storage slot = (if (slot + 1) * event_words \<le> length storage then Some (record_at storage slot) else None)"
  by (simp add: read_record_def sub_slice_def record_at_def rec_at_def add.commute)

lemma length_record_at: "(slot + 1) * event_words \<le> length storage \<Longrightarrow> length (record_at storage slot) = event_words"
  by (simp add: record_at_def length_rec_at)

lemma write_record_at:
  assumes "length record = event_words" "(slot + 1) * event_words \<le> length storage"
  obtains s where "write_record storage slot record = Some s" "length s = length storage"
    "\<And>j. (j + 1) * event_words \<le> length storage \<Longrightarrow> record_at s j = (if j = slot then record else record_at storage j)"
  using copy_rec_at [of "record" event_words 0 slot storage] assms
  unfolding write_record_def record_at_def by (metis add_0)

subsection \<open>The host's heap\<close>

definition arena :: "words \<Rightarrow> nat \<Rightarrow> nat \<Rightarrow> words list" where
  "arena storage offset n = map (\<lambda>i. record_at storage (offset + i)) [0..<n]"

lemma length_arena [simp]: "length (arena storage offset n) = n"
  by (simp add: arena_def)

lemma arena_nth [simp]: "i < n \<Longrightarrow> arena storage offset n ! i = record_at storage (offset + i)"
  by (simp add: arena_def)

lemma slot_in_range:
  assumes "(offset + n) * event_words \<le> length storage" "i < n"
  shows "(offset + i + 1) * event_words \<le> length storage"
proof -
  have "(offset + i + 1) * event_words \<le> (offset + n) * event_words" using assms(2) by (intro mult_le_mono1) simp
  with assms(1) show ?thesis by linarith
qed

lemma swap_records_at:
  assumes "(a + 1) * event_words \<le> length storage" "(b + 1) * event_words \<le> length storage" "a \<noteq> b"
  obtains s where "swap_records a b storage = Some s" "length s = length storage"
    "\<And>j. (j + 1) * event_words \<le> length storage \<Longrightarrow>
       record_at s j = (if j = a then record_at storage b else if j = b then record_at storage a else record_at storage j)"
proof -
  obtain s1 where s1: "write_record storage a (record_at storage b) = Some s1" "length s1 = length storage"
    "\<And>j. (j + 1) * event_words \<le> length storage \<Longrightarrow> record_at s1 j = (if j = a then record_at storage b else record_at storage j)"
    using write_record_at [OF length_record_at [OF assms(2)] assms(1)] by metis
  have b1: "(b + 1) * event_words \<le> length s1" using assms(2) s1(2) by simp
  obtain s2 where s2: "write_record s1 b (record_at storage a) = Some s2" "length s2 = length s1"
    "\<And>j. (j + 1) * event_words \<le> length s1 \<Longrightarrow> record_at s2 j = (if j = b then record_at storage a else record_at s1 j)"
    using write_record_at [OF length_record_at [OF assms(1)] b1] by metis
  show thesis
  proof (rule that)
    show "swap_records a b storage = Some s2" using assms s1(1) s2(1) by (simp add: swap_records_def read_record_at)
    show "length s2 = length storage" using s1(2) s2(2) by simp
    show "record_at s2 j = (if j = a then record_at storage b else if j = b then record_at storage a else record_at storage j)"
      if "(j + 1) * event_words \<le> length storage" for j
      using s1(2) s1(3) [OF that] s2(3) [of j] that assms(3) by auto
  qed
qed

lemma heap_rise_sift:
  assumes "(offset + n) * event_words \<le> length storage" "child < n"
  shows "\<exists>s. heap_rise offset child storage = Some s \<and> length s = length storage
    \<and> arena s offset n = sift_up record_rank child (arena storage offset n)
    \<and> (\<forall>j. (j + 1) * event_words \<le> length storage \<longrightarrow> j < offset \<or> offset + n \<le> j \<longrightarrow> record_at s j = record_at storage j)"
  using assms
proof (induction child arbitrary: storage rule: less_induct)
  case (less child)
  let ?p = "heap_parent child" and ?xs = "arena storage offset n"
  show ?case
  proof (cases "child = 0")
    case True
    then show ?thesis by (simp add: heap_rise.simps [of offset 0] sift_up.simps [of _ 0])
  next
    case False
    have pc: "?p < child" using False by (rule heap_parent_less)
    have c: "(offset + child + 1) * event_words \<le> length storage" by (rule slot_in_range [OF less.prems])
    have p: "(offset + ?p + 1) * event_words \<le> length storage"
      by (rule slot_in_range [OF less.prems(1)]) (use pc less.prems(2) in simp)
    have rc: "read_record storage (offset + child) = Some (record_at storage (offset + child))"
      "read_record storage (offset + ?p) = Some (record_at storage (offset + ?p))"
      using c p by (simp_all add: read_record_at)
    show ?thesis
    proof (cases "record_less (record_at storage (offset + child)) (record_at storage (offset + ?p))")
      case False
      then have "sift_up record_rank child ?xs = ?xs"
        using pc less.prems(2) by (subst sift_up.simps) (simp add: record_less_def not_less)
      then show ?thesis using \<open>child \<noteq> 0\<close> False rc by (simp add: heap_rise.simps [of offset child])
    next
      case True
      have ne: "offset + child \<noteq> offset + ?p" using pc by simp
      obtain s where s: "swap_records (offset + child) (offset + ?p) storage = Some s" "length s = length storage"
        "\<And>j. (j + 1) * event_words \<le> length storage \<Longrightarrow> record_at s j = (if j = offset + child then record_at storage (offset + ?p)
           else if j = offset + ?p then record_at storage (offset + child) else record_at storage j)"
        using swap_records_at [OF c p ne] by metis
      have sw: "arena s offset n = swap_at child ?p ?xs"
      proof (rule nth_equalityI)
        fix i assume "i < length (arena s offset n)"
        then have i: "i < n" by simp
        then show "arena s offset n ! i = swap_at child ?p ?xs ! i"
          using s(3) [OF slot_in_range [OF less.prems(1) i]] less.prems(2) pc by (auto simp: swap_at_nth)
      qed simp
      have "(offset + n) * event_words \<le> length s" "?p < n" using less.prems pc s(2) by simp_all
      from less.IH [OF pc this] obtain s' where s': "heap_rise offset ?p s = Some s'" "length s' = length s"
        "arena s' offset n = sift_up record_rank ?p (arena s offset n)"
        "\<forall>j. (j + 1) * event_words \<le> length s \<longrightarrow> j < offset \<or> offset + n \<le> j \<longrightarrow> record_at s' j = record_at s j"
        by blast
      have "\<not> record_rank (record_at storage (offset + ?p)) \<le> record_rank (record_at storage (offset + child))"
        using True by (simp add: record_less_def not_le)
      then have up: "sift_up record_rank child ?xs = sift_up record_rank ?p (swap_at child ?p ?xs)"
        using \<open>child \<noteq> 0\<close> pc less.prems(2) by (subst sift_up.simps) simp
      have out: "record_at s' j = record_at storage j"
        if "(j + 1) * event_words \<le> length storage" "j < offset \<or> offset + n \<le> j" for j
        using s'(4) s(2) s(3) [OF that(1)] that pc less.prems(2) by auto
      show ?thesis
        using \<open>child \<noteq> 0\<close> True rc s s' sw up out by (simp add: heap_rise.simps [of offset child])
    qed
  qed
qed

text \<open>The row of a process in the metadata: its arena lies in the storage and holds a heap of \<open>n\<close> records.\<close>

definition arena_row :: "nat \<Rightarrow> words \<Rightarrow> words \<Rightarrow> nat \<Rightarrow> nat \<Rightarrow> nat \<Rightarrow> bool" where
  "arena_row lp meta storage offset capacity n \<longleftrightarrow> lp * arena_meta_words + 3 < length meta
     \<and> unat (meta ! (lp * arena_meta_words)) = offset \<and> unat (meta ! (lp * arena_meta_words + 1)) = capacity
     \<and> unat (meta ! (lp * arena_meta_words + 3)) = n \<and> n \<le> capacity
     \<and> (offset + capacity) * event_words \<le> length storage \<and> is_heap record_rank (arena storage offset n)"

lemma heap_push_grows:
  assumes row: "arena_row lp meta storage offset capacity n" and n: "n < capacity" and len: "length record = event_words"
  shows "\<exists>meta' storage'. heap_push_host lp record meta storage = Some (Inr (meta', storage'))
    \<and> arena_row lp meta' storage' offset capacity (n + 1)
    \<and> mset (arena storage' offset (n + 1)) = add_mset record (mset (arena storage offset n))
    \<and> (\<forall>j. (j + 1) * event_words \<le> length storage \<longrightarrow> j < offset \<or> offset + capacity \<le> j \<longrightarrow> record_at storage' j = record_at storage j)"
proof -
  let ?b = "lp * arena_meta_words"
  have b: "?b + 3 < length meta" "unat (meta ! ?b) = offset" "unat (meta ! (?b + 1)) = capacity" "unat (meta ! (?b + 3)) = n"
    "(offset + capacity) * event_words \<le> length storage" "is_heap record_rank (arena storage offset n)"
    using row by (simp_all add: arena_row_def)
  have at_n: "(offset + n + 1) * event_words \<le> length storage" by (rule slot_in_range [OF b(5) n])
  obtain s where s: "write_record storage (offset + n) record = Some s" "length s = length storage"
    "\<And>j. (j + 1) * event_words \<le> length storage \<Longrightarrow> record_at s j = (if j = offset + n then record else record_at storage j)"
    using write_record_at [OF len at_n] by metis
  have ar: "arena s offset (n + 1) = arena storage offset n @ [record]"
  proof (rule nth_equalityI)
    fix i assume "i < length (arena s offset (n + 1))"
    then have i: "i < n + 1" by simp
    then have "(offset + i + 1) * event_words \<le> length storage" using n by (intro slot_in_range [OF b(5)]) simp
    then show "arena s offset (n + 1) ! i = (arena storage offset n @ [record]) ! i"
      using s(3) i by (simp add: nth_append)
  qed simp
  have "(offset + (n + 1)) * event_words \<le> length s" using at_n s(2) by (simp add: add.assoc)
  moreover have "n < n + 1" by simp
  ultimately obtain s' where s': "heap_rise offset n s = Some s'" "length s' = length s"
    "arena s' offset (n + 1) = sift_up record_rank n (arena s offset (n + 1))"
    "\<forall>j. (j + 1) * event_words \<le> length s \<longrightarrow> j < offset \<or> offset + (n + 1) \<le> j \<longrightarrow> record_at s' j = record_at s j"
    using heap_rise_sift by blast
  have "heap_but_up record_rank n (arena storage offset n @ [record])" using heap_push [OF b(6), of "record"] by simp
  from sift_up_heap [OF this] have h: "is_heap record_rank (arena s' offset (n + 1))"
    "mset (arena s' offset (n + 1)) = add_mset record (mset (arena storage offset n))"
    unfolding s'(3) ar by simp_all
  have small: "unat (of_nat (n + 1) :: u64) = n + 1"
    using n b(3) unat_lt [of "meta ! (?b + 1)"] by (simp add: unat_of_nat del: of_nat_Suc of_nat_add)
  let ?meta = "meta[?b + 3 := of_nat (n + 1)]"
  have "heap_push_host lp record meta storage = Some (Inr (?meta, s'))"
    using b n s(1) s'(1) by (simp add: heap_push_host_def Let_def)
  moreover have "arena_row lp ?meta s' offset capacity (n + 1)"
    using b n h(1) s(2) s'(2) small by (simp add: arena_row_def del: of_nat_Suc of_nat_add)
  moreover have "record_at s' j = record_at storage j"
    if "(j + 1) * event_words \<le> length storage" "j < offset \<or> offset + capacity \<le> j" for j
    using s'(4) s(2) s(3) [OF that(1)] that n by auto
  ultimately show ?thesis using h(2) by blast
qed

fun heap_import :: "nat \<Rightarrow> words list \<Rightarrow> words \<Rightarrow> words \<Rightarrow> (cuda_error + words \<times> words) option" where
  "heap_import lp [] meta storage = Some (Inr (meta, storage))"
| "heap_import lp (record # records) meta storage =
     (case heap_push_host lp record meta storage of
        None \<Rightarrow> None
      | Some (Inl e) \<Rightarrow> Some (Inl e)
      | Some (Inr (meta', storage')) \<Rightarrow> heap_import lp records meta' storage')"

lemma heap_import_grows:
  assumes "arena_row lp meta storage offset capacity n" "n + length records \<le> capacity"
    "\<And>r. r \<in> set records \<Longrightarrow> length r = event_words"
  shows "\<exists>meta' storage'. heap_import lp records meta storage = Some (Inr (meta', storage'))
    \<and> arena_row lp meta' storage' offset capacity (n + length records)
    \<and> mset (arena storage' offset (n + length records)) = mset (arena storage offset n) + mset records"
  using assms
proof (induction records arbitrary: meta storage n)
  case (Cons r records)
  obtain m s where p: "heap_push_host lp r meta storage = Some (Inr (m, s))" "arena_row lp m s offset capacity (n + 1)"
    "mset (arena s offset (n + 1)) = add_mset r (mset (arena storage offset n))"
    using heap_push_grows [OF Cons.prems(1), of r] Cons.prems(2,3) by auto
  have "n + 1 + length records \<le> capacity" "\<And>x. x \<in> set records \<Longrightarrow> length x = event_words" using Cons.prems(2,3) by auto
  from Cons.IH [OF p(2) this] obtain m' s' where
    "heap_import lp records m s = Some (Inr (m', s'))" "arena_row lp m' s' offset capacity (n + 1 + length records)"
    "mset (arena s' offset (n + 1 + length records)) = mset (arena s offset (n + 1)) + mset records" by blast
  then show ?case using p by auto
qed auto

lemma heap_import_full:
  assumes "arena_row lp meta storage offset capacity n" "capacity < n + length records"
    "\<And>r. r \<in> set records \<Longrightarrow> length r = event_words"
  shows "heap_import lp records meta storage = Some (Inl (CapacityExceeded FelArena (Some (of_nat lp)) capacity (capacity + 1)))"
  using assms
proof (induction records arbitrary: meta storage n)
  case Nil
  then show ?case by (simp add: arena_row_def)
next
  case (Cons r records)
  show ?case
  proof (cases "n = capacity")
    case True
    then have "heap_push_host lp r meta storage = Some (Inl (CapacityExceeded FelArena (Some (of_nat lp)) capacity (capacity + 1)))"
      using Cons.prems(1) by (auto simp: arena_row_def heap_push_host_def Let_def)
    then show ?thesis by simp
  next
    case False
    then have "n < capacity" using Cons.prems(1) by (simp add: arena_row_def)
    then obtain m s where p: "heap_push_host lp r meta storage = Some (Inr (m, s))" "arena_row lp m s offset capacity (n + 1)"
      using heap_push_grows [OF Cons.prems(1), of r] Cons.prems(3) by auto
    have "capacity < n + 1 + length records" "\<And>x. x \<in> set records \<Longrightarrow> length x = event_words" using Cons.prems(2,3) by auto
    with Cons.IH [OF p(2)] p(1) show ?thesis by simp
  qed
qed

lemma record_rank_key: "record_rank (event_record e p) \<le> record_rank (event_record e' p') \<longleftrightarrow> ev_key e \<le> ev_key e'"
proof -
  have phase: "(ucast (a :: u16) :: u64) < ucast b \<longleftrightarrow> a < b" "(ucast (a :: u16) :: u64) \<le> ucast b \<longleftrightarrow> a < b \<or> a = b" for a b
    by (auto simp: word_less_nat_alt word_le_nat_alt word_unat_eq_iff unat_up_16)
  have "record_rank (event_record e p) < record_rank (event_record e' p') \<longleftrightarrow> ev_key e < ev_key e'" for e p e' p'
    by (simp add: record_rank_def event_record_def event_key_less_iff less_prod_def phase) auto
  then show ?thesis by (metis not_less)
qed

text \<open>
  C19. The host builds the heap of a process's events in place.  Into an empty arena that can hold them
  it puts exactly the given events, as a heap of records whose first one is the record of an event with
  the least key; one event too many is reported as a capacity fault, and nothing else can fail.
\<close>

theorem heap_import_exact:
  assumes "arena_row lp meta storage offset capacity 0"
  shows "(length events \<le> capacity \<longrightarrow> (\<exists>meta' storage'.
        heap_import lp (map (\<lambda>(e, p). event_record e p) events) meta storage = Some (Inr (meta', storage'))
      \<and> arena_row lp meta' storage' offset capacity (length events)
      \<and> mset (arena storage' offset (length events)) = image_mset (\<lambda>(e, p). event_record e p) (mset events)
      \<and> (events \<noteq> [] \<longrightarrow> (\<exists>(e, p) \<in> set events. record_at storage' offset = event_record e p
           \<and> (\<forall>(e', p') \<in> set events. ev_key e \<le> ev_key e')))))
    \<and> (capacity < length events \<longrightarrow> heap_import lp (map (\<lambda>(e, p). event_record e p) events) meta storage
         = Some (Inl (CapacityExceeded FelArena (Some (of_nat lp)) capacity (capacity + 1))))"
proof (intro conjI impI)
  let ?f = "\<lambda>(e, p). event_record e p"
  have len: "\<And>r. r \<in> set (map ?f events) \<Longrightarrow> length r = event_words" by (auto simp: event_words_def)
  show "heap_import lp (map ?f events) meta storage
      = Some (Inl (CapacityExceeded FelArena (Some (of_nat lp)) capacity (capacity + 1)))" if "capacity < length events"
    by (rule heap_import_full [OF assms _ len]) (use that in auto)
  assume fit: "length events \<le> capacity"
  have "0 + length (map ?f events) \<le> capacity" "arena storage offset 0 = []" using fit by (simp_all add: arena_def)
  with heap_import_grows [OF assms this(1) len] obtain m s where h: "heap_import lp (map ?f events) meta storage = Some (Inr (m, s))"
    "arena_row lp m s offset capacity (length events)" "mset (arena s offset (length events)) = mset (map ?f events)"
    by auto
  have "\<exists>(e, p) \<in> set events. record_at s offset = event_record e p \<and> (\<forall>(e', p') \<in> set events. ev_key e \<le> ev_key e')"
    if ne: "events \<noteq> []"
  proof -
    have in_arena: "set (arena s offset (length events)) = ?f ` set events"
      using arg_cong [OF h(3), of set_mset] by simp
    have root: "arena s offset (length events) ! 0 = record_at s offset" using ne by simp
    then have "record_at s offset \<in> ?f ` set events"
      using ne unfolding in_arena [symmetric] by (metis length_arena length_greater_0_conv nth_mem)
    then obtain e p where ep: "(e, p) \<in> set events" "record_at s offset = event_record e p" by auto
    have "ev_key e \<le> ev_key e'" if "(e', p') \<in> set events" for e' p'
    proof -
      have "event_record e' p' \<in> set (arena s offset (length events))" using that in_arena by force
      then obtain k where "k < length events" "arena s offset (length events) ! k = event_record e' p'"
        by (metis in_set_conv_nth length_arena)
      then have "record_rank (event_record e p) \<le> record_rank (event_record e' p')"
        using is_heap_root [of record_rank "arena s offset (length events)" k] h(2) root ep(2) by (simp add: arena_row_def)
      then show ?thesis by (simp add: record_rank_key)
    qed
    with ep show ?thesis by blast
  qed
  with h show "\<exists>meta' storage'. heap_import lp (map ?f events) meta storage = Some (Inr (meta', storage'))
      \<and> arena_row lp meta' storage' offset capacity (length events)
      \<and> mset (arena storage' offset (length events)) = image_mset ?f (mset events)
      \<and> (events \<noteq> [] \<longrightarrow> (\<exists>(e, p) \<in> set events. record_at storage' offset = event_record e p
           \<and> (\<forall>(e', p') \<in> set events. ev_key e \<le> ev_key e')))"
    by auto
qed

theorem heap_import_exact_witness:
  "heap_import 1 (map (\<lambda>(e, p). event_record e p) [(sample_delivery, sample_ack), (sample_delivery, sample_ack)])
     [0, 0, 0, 0, 0, 1, 0, 0] (replicate 14 0) = Some (Inl (CapacityExceeded FelArena (Some 1) 1 2))"
proof -
  have "arena_row 1 [0, 0, 0, 0, 0, 1, 0, 0] (replicate 14 0) 0 1 0"
    by (simp add: arena_row_def arena_meta_words_def event_words_def is_heap_def)
  from heap_import_exact [OF this, of "[(sample_delivery, sample_ack), (sample_delivery, sample_ack)]"] show ?thesis by simp
qed

end
