(* ===== verification/Device_Ledger.thy ===== *)
theory Device_Ledger
  imports Word_Arena Tcp_Ledger Device_Record
begin

section \<open>The TCP segment ledger on a device\<close>

text \<open>
  The ring a kernel keeps per flow in \<open>tcp_state\<close> (\<open>executor/src/cuda_kernels.cu\<close>): six words of
  metadata (first word, capacity, count, timer, head, high water) and a window of five-word records
  in order of sequence, which wraps around in its region.  The proofs relate the ring of every flow
  to the host's ledger (\<open>tcp_ledger.rs\<close>): the operations answer alike, never leave the flow's own
  words, and no address computation wraps around.
\<close>

datatype kernel_error = CapacityFault u64 u64 u64 u64 | SemanticFault u64 u64

definition kernel_none :: u64 where "kernel_none = u_max"

text \<open>One word of device memory; an address outside of it is the value \<open>None\<close>.\<close>

definition peek :: "words \<Rightarrow> u64 \<Rightarrow> u64 option" where
  "peek mem a = (if unat a < length mem then Some (mem ! unat a) else None)"

definition poke :: "u64 \<Rightarrow> u64 \<Rightarrow> words \<Rightarrow> words option" where
  "poke a v mem = (if unat a < length mem then Some (mem[unat a := v]) else None)"

definition tcp_record_copy :: "words \<Rightarrow> u64 \<Rightarrow> words \<Rightarrow> words option" where
  "tcp_record_copy packet target mem =
     copy_words (unat target) [packet ! 7, packet ! 9, packet ! 11, packet ! 12, packet ! 13] mem"

definition tcp_ledger_slot :: "u64 \<Rightarrow> u64 \<Rightarrow> u64 \<Rightarrow> u64 \<Rightarrow> u64" where
  "tcp_ledger_slot offset capacity head logical =
     (let span = (if capacity = 0 then 1 else capacity);
          physical = head + logical
      in offset + (if physical \<ge> span then physical - span else physical) * 5)"

lemma mid_bounds:
  assumes "low < (high :: u64)"
  shows "unat (low + (high - low) div 2) = unat low + (unat high - unat low) div 2"
    "unat (low + (high - low) div 2 + 1) = unat low + (unat high - unat low) div 2 + 1"
proof -
  have lt: "unat low < unat high" using assms by (simp add: word_less_nat_alt)
  have d: "unat ((high - low) div 2) = (unat high - unat low) div 2"
    using assms by (simp add: unat_div unat_sub_exact)
  have b: "unat low + (unat high - unat low) div 2 < unat high" using lt by linarith
  show m: "unat (low + (high - low) div 2) = unat low + (unat high - unat low) div 2"
    using b unat_lt [of high] d by (subst unat_add_exact) simp_all
  show "unat (low + (high - low) div 2 + 1) = unat low + (unat high - unat low) div 2 + 1"
    using b unat_lt [of high] m by (subst unat_Suc_exact) simp_all
qed

function lower_bound_loop :: "u64 \<Rightarrow> u64 \<Rightarrow> u64 \<Rightarrow> u64 \<Rightarrow> words \<Rightarrow> u64 \<Rightarrow> u64 \<Rightarrow> u64 option" where
  "lower_bound_loop offset capacity head sequence mem low high =
     (if low < high then
        let mid = low + (high - low) div 2 in
        Option.bind (peek mem (tcp_ledger_slot offset capacity head mid + 2)) (\<lambda>s.
        if s < sequence then lower_bound_loop offset capacity head sequence mem (mid + 1) high
        else lower_bound_loop offset capacity head sequence mem low mid)
      else Some low)"
  by pat_completeness auto
termination
  by (relation "measure (\<lambda>(offset, capacity, head, sequence, mem, low, high). unat high - unat low)")
    (auto simp: mid_bounds word_less_nat_alt)

declare lower_bound_loop.simps [simp del]

definition tcp_ledger_lower_bound :: "u64 \<Rightarrow> u64 \<Rightarrow> u64 \<Rightarrow> u64 \<Rightarrow> u64 \<Rightarrow> words \<Rightarrow> u64 option" where
  "tcp_ledger_lower_bound offset capacity head n sequence mem =
     lower_bound_loop offset capacity head sequence mem 0 n"

text \<open>\<open>ledger_base\<close> is the parameter \<open>P_TCP_LEDGER_META_OFFSET\<close>.\<close>

definition ledger_meta :: "u64 \<Rightarrow> u64 \<Rightarrow> u64" where
  "ledger_meta ledger_base flow = ledger_base + flow * 6"

definition tcp_ledger_find :: "u64 \<Rightarrow> u64 \<Rightarrow> u64 \<Rightarrow> words \<Rightarrow> u64 option option" where
  "tcp_ledger_find ledger_base flow sequence mem =
     (let meta = ledger_meta ledger_base flow in
      Option.bind (peek mem meta) (\<lambda>offset.
      Option.bind (peek mem (meta + 1)) (\<lambda>capacity.
      Option.bind (peek mem (meta + 2)) (\<lambda>n.
      Option.bind (peek mem (meta + 4)) (\<lambda>head.
      Option.bind (tcp_ledger_lower_bound offset capacity head n sequence mem) (\<lambda>index.
      if index < n then
        let candidate = tcp_ledger_slot offset capacity head index in
        Option.bind (peek mem (candidate + 2)) (\<lambda>s.
        Some (if s = sequence then Some candidate else None))
      else Some None))))))"

function shift_loop :: "u64 \<Rightarrow> u64 \<Rightarrow> u64 \<Rightarrow> u64 \<Rightarrow> u64 \<Rightarrow> words \<Rightarrow> words option" where
  "shift_loop offset capacity head insertion index mem =
     (if index > insertion then
        let destination = tcp_ledger_slot offset capacity head index;
            source = tcp_ledger_slot offset capacity head (index - 1) in
        Option.bind (sub_slice (unat source) (unat source + 5) mem) (\<lambda>r.
        Option.bind (copy_words (unat destination) r mem)
          (shift_loop offset capacity head insertion (index - 1)))
      else Some mem)"
  by pat_completeness auto
termination
  by (relation "measure (\<lambda>(offset, capacity, head, insertion, index, mem). unat index)")
    (auto simp: word_less_nat_alt unat_sub_exact word_le_nat_alt)

declare shift_loop.simps [simp del]

text \<open>The slot of a record that is new to the ring, with the head it leaves and the memory.\<close>

definition ledger_target ::
  "u64 \<Rightarrow> u64 \<Rightarrow> u64 \<Rightarrow> u64 \<Rightarrow> u64 \<Rightarrow> u64 \<Rightarrow> words \<Rightarrow> (u64 \<times> words) option" where
  "ledger_target meta offset capacity head n insertion mem =
     (if insertion = n then Some (tcp_ledger_slot offset capacity head n, mem)
      else if insertion = 0 then
        let retreated = (if head = 0 then capacity else head) - 1 in
        map_option (\<lambda>mem. (offset + retreated * 5, mem)) (poke (meta + 4) retreated mem)
      else
        map_option (\<lambda>mem. (tcp_ledger_slot offset capacity head insertion, mem))
          (shift_loop offset capacity head insertion n mem))"

definition ledger_grow :: "u64 \<Rightarrow> u64 \<Rightarrow> words \<Rightarrow> words option" where
  "ledger_grow meta n mem =
     (let grown = n + 1 in
      Option.bind (poke (meta + 2) grown mem) (\<lambda>mem.
      Option.bind (peek mem (meta + 5)) (\<lambda>high_water.
      if grown > high_water then poke (meta + 5) grown mem else Some mem)))"

definition ledger_add ::
  "u64 \<Rightarrow> words \<Rightarrow> u64 \<Rightarrow> u64 \<Rightarrow> u64 \<Rightarrow> u64 \<Rightarrow> u64 \<Rightarrow> u64 \<Rightarrow> words \<Rightarrow> (kernel_error + words) option" where
  "ledger_add flow packet meta offset capacity head n insertion mem =
     (if n \<ge> capacity then Some (Inl (CapacityFault 12 flow capacity (n + 1)))
      else
        Option.bind (ledger_target meta offset capacity head n insertion mem) (\<lambda>(target, mem).
        Option.bind (tcp_record_copy packet target mem) (\<lambda>mem.
        map_option Inr (ledger_grow meta n mem))))"

definition tcp_ledger_insert :: "u64 \<Rightarrow> u64 \<Rightarrow> words \<Rightarrow> words \<Rightarrow> (kernel_error + words) option" where
  "tcp_ledger_insert ledger_base flow packet mem =
     (let meta = ledger_meta ledger_base flow; sequence = packet ! 11 in
      Option.bind (peek mem meta) (\<lambda>offset.
      Option.bind (peek mem (meta + 1)) (\<lambda>capacity.
      Option.bind (peek mem (meta + 2)) (\<lambda>n.
      Option.bind (peek mem (meta + 4)) (\<lambda>head.
      Option.bind (tcp_ledger_lower_bound offset capacity head n sequence mem) (\<lambda>insertion.
      if insertion < n then
        let existing = tcp_ledger_slot offset capacity head insertion in
        Option.bind (peek mem (existing + 2)) (\<lambda>s.
        if s = sequence then
          Option.bind (peek mem (existing + 1)) (\<lambda>size.
          if size \<noteq> packet ! 9 then Some (Inl (SemanticFault 40 kernel_none))
          else map_option Inr (tcp_record_copy packet existing mem))
        else ledger_add flow packet meta offset capacity head n insertion mem)
      else ledger_add flow packet meta offset capacity head n insertion mem))))))"

function acknowledge_loop :: "u64 \<Rightarrow> u64 \<Rightarrow> u64 \<Rightarrow> u64 \<Rightarrow> u64 \<Rightarrow> words \<Rightarrow> u64 \<Rightarrow> (kernel_error + u64) option" where
  "acknowledge_loop offset capacity head n acknowledgment mem keep =
     (if keep < n then
        let record = tcp_ledger_slot offset capacity head keep in
        Option.bind (peek mem (record + 2)) (\<lambda>sequence.
        Option.bind (peek mem (record + 1)) (\<lambda>size.
        if sequence > kernel_none - size then Some (Inl (SemanticFault 42 kernel_none))
        else if sequence + size > acknowledgment then Some (Inr keep)
        else acknowledge_loop offset capacity head n acknowledgment mem (keep + 1)))
      else Some (Inr keep))"
  by pat_completeness auto
termination
proof (relation "measure (\<lambda>(offset, capacity, head, n, acknowledgment, mem, keep). unat n - unat keep)")
  fix n keep :: u64
  assume "keep < n"
  then show "((offset, capacity, head, n, acknowledgment, mem, keep + 1), (offset, capacity, head, n, acknowledgment, mem, keep))
    \<in> measure (\<lambda>(offset, capacity, head, n, acknowledgment, mem, keep). unat n - unat keep)" for offset capacity head acknowledgment :: u64 and mem :: words
    using unat_lt [of n] by (simp add: word_less_nat_alt unat_Suc_exact)
qed simp

declare acknowledge_loop.simps [simp del]

text \<open>A segment cut by the acknowledgment keeps its rest; a segment it reaches exactly is dropped.\<close>

definition ledger_cut :: "u64 \<Rightarrow> u64 \<Rightarrow> u64 \<Rightarrow> u64 \<Rightarrow> u64 \<Rightarrow> u64 \<Rightarrow> words \<Rightarrow> (u64 \<times> words) option" where
  "ledger_cut offset capacity head n acknowledgment keep mem =
     (if keep < n then
        let first = tcp_ledger_slot offset capacity head keep in
        Option.bind (peek mem (first + 2)) (\<lambda>sequence.
        if sequence < acknowledgment then
          let acknowledged = acknowledgment - sequence in
          Option.bind (peek mem (first + 1)) (\<lambda>size.
          if acknowledged < size then
            Option.bind (poke (first + 1) (size - acknowledged) mem) (\<lambda>mem.
            map_option (Pair keep) (poke (first + 2) acknowledgment mem))
          else Some (keep + 1, mem))
        else Some (keep, mem))
      else Some (keep, mem))"

definition tcp_ledger_acknowledge :: "u64 \<Rightarrow> u64 \<Rightarrow> u64 \<Rightarrow> words \<Rightarrow> (kernel_error + words) option" where
  "tcp_ledger_acknowledge ledger_base flow acknowledgment mem =
     (let meta = ledger_meta ledger_base flow in
      Option.bind (peek mem meta) (\<lambda>offset.
      Option.bind (peek mem (meta + 1)) (\<lambda>capacity.
      Option.bind (peek mem (meta + 2)) (\<lambda>n.
      Option.bind (peek mem (meta + 4)) (\<lambda>head.
      Option.bind (acknowledge_loop offset capacity head n acknowledgment mem 0) (\<lambda>r.
      case r of
        Inl e \<Rightarrow> Some (Inl e)
      | Inr keep \<Rightarrow>
          Option.bind (ledger_cut offset capacity head n acknowledgment keep mem) (\<lambda>(keep, mem).
          let span = (if capacity = 0 then 1 else capacity);
              advanced = head + keep in
          Option.bind (poke (meta + 4) (if advanced \<ge> span then advanced - span else advanced) mem) (\<lambda>mem.
          map_option Inr (poke (meta + 2) (n - keep) mem)))))))))"

subsection \<open>The window of a ring\<close>

definition ring_window :: "words \<Rightarrow> nat \<Rightarrow> nat \<Rightarrow> nat \<Rightarrow> nat \<Rightarrow> words list" where
  "ring_window mem off cap h0 n = map (\<lambda>i. rec_at 5 off mem ((h0 + i) mod cap)) [0..<n]"

lemma length_ring_window [simp]: "length (ring_window mem off cap h0 n) = n"
  by (simp add: ring_window_def)

lemma ring_window_nth [simp]: "i < n \<Longrightarrow> ring_window mem off cap h0 n ! i = rec_at 5 off mem ((h0 + i) mod cap)"
  by (simp add: ring_window_def)

lemma mod_wrap: "h0 < cap \<Longrightarrow> i \<le> cap \<Longrightarrow> (h0 + i) mod cap = (if h0 + i < cap then h0 + i else h0 + i - (cap :: nat))"
  by (auto simp: le_mod_geq not_less)

lemma ring_slots_distinct: "h0 < cap \<Longrightarrow> i < cap \<Longrightarrow> j < cap \<Longrightarrow> (h0 + i) mod cap = (h0 + j) mod (cap :: nat) \<longleftrightarrow> i = j"
  by (auto simp: mod_wrap split: if_splits)

lemma window_advance:
  assumes "k \<le> n" "0 < cap"
  shows "ring_window mem off cap ((h0 + k) mod cap) (n - k) = drop k (ring_window mem off cap h0 n)"
  using assms by (intro nth_equalityI) (simp_all add: mod_add_left_eq add.assoc)

lemma window_retreat:
  assumes "0 < cap" "h0 < cap"
  shows "ring_window mem off cap ((h0 + (cap - 1)) mod cap) (n + 1)
    = rec_at 5 off mem ((h0 + (cap - 1)) mod cap) # ring_window mem off cap h0 n"
proof (rule nth_equalityI)
  fix i assume "i < length (ring_window mem off cap ((h0 + (cap - 1)) mod cap) (n + 1))"
  then have i: "i < n + 1" by simp
  have "((h0 + (cap - 1)) mod cap + (j + 1)) mod cap = (h0 + j) mod cap" for j
  proof -
    have "((h0 + (cap - 1)) mod cap + (j + 1)) mod cap = (h0 + j + cap) mod cap"
      unfolding mod_add_left_eq using assms(1) by (intro arg_cong [where f = "\<lambda>x. x mod cap"]) simp
    then show ?thesis by simp
  qed
  then show "ring_window mem off cap ((h0 + (cap - 1)) mod cap) (n + 1) ! i
    = (rec_at 5 off mem ((h0 + (cap - 1)) mod cap) # ring_window mem off cap h0 n) ! i"
    using i assms by (cases i) simp_all
qed simp

lemma window_snoc: "ring_window mem off cap h0 (n + 1) = ring_window mem off cap h0 n @ [rec_at 5 off mem ((h0 + n) mod cap)]"
  by (simp add: ring_window_def)

text \<open>The words outside of \<open>s\<close> keep their values.\<close>

definition same_outside :: "nat set \<Rightarrow> words \<Rightarrow> words \<Rightarrow> bool" where
  "same_outside s mem mem' \<longleftrightarrow> length mem' = length mem \<and> (\<forall>k < length mem. k \<notin> s \<longrightarrow> mem' ! k = mem ! k)"

lemma same_outside_refl [simp]: "same_outside s mem mem"
  by (simp add: same_outside_def)

lemma same_outside_trans: "same_outside s a b \<Longrightarrow> same_outside s b c \<Longrightarrow> same_outside s a c"
  by (simp add: same_outside_def)

lemma same_outside_mono: "same_outside s a b \<Longrightarrow> s \<subseteq> t \<Longrightarrow> same_outside t a b"
  by (auto simp: same_outside_def)

definition region :: "nat \<Rightarrow> nat \<Rightarrow> nat set" where
  "region off cap = {off..<off + cap * 5}"

lemma rec_in_region: "i < cap \<Longrightarrow> k < 5 \<Longrightarrow> off + i * 5 + k \<in> region off cap"
  by (auto simp: region_def)

lemma rec_at_cong:
  assumes "same_outside s mem mem'" "region off cap \<inter> s = {}" "i < cap" "off + cap * 5 \<le> length mem"
  shows "rec_at 5 off mem' i = rec_at 5 off mem i"
proof -
  have b: "off + (i + 1) * 5 \<le> length mem" using slot_bound assms(3,4) by blast
  have l: "length mem' = length mem" using assms(1) by (simp add: same_outside_def)
  have k: "mem' ! (off + i * 5 + k) = mem ! (off + i * 5 + k)" if "k < 5" for k
  proof -
    have "off + i * 5 + k \<notin> s" using assms(2) rec_in_region [OF assms(3) that, of off] by blast
    then show ?thesis using assms(1) b that by (simp add: same_outside_def)
  qed
  show ?thesis
    using b l k by (intro nth_equalityI) (simp_all add: length_rec_at rec_at_nth)
qed

lemma window_cong:
  assumes "same_outside s mem mem'" "region off cap \<inter> s = {}" "0 < cap" "off + cap * 5 \<le> length mem"
  shows "ring_window mem' off cap h0 n = ring_window mem off cap h0 n"
  using assms by (simp add: ring_window_def rec_at_cong [OF assms(1,2)])

lemma write_window:
  assumes "length r = 5" "j < cap" "h0 < cap" "off + cap * 5 \<le> length mem"
  obtains mem' where "copy_words (off + ((h0 + j) mod cap) * 5) r mem = Some mem'"
    "same_outside (region off cap) mem mem'"
    "\<And>n. n \<le> cap \<Longrightarrow> ring_window mem' off cap h0 n = (ring_window mem off cap h0 n)[j := r]"
proof -
  have m: "(h0 + j) mod cap < cap" using assms(2) by simp
  obtain mem' where c: "copy_words (off + ((h0 + j) mod cap) * 5) r mem = Some mem'" and l: "length mem' = length mem"
    and rec: "\<And>i. off + (i + 1) * 5 \<le> length mem \<Longrightarrow> rec_at 5 off mem' i = (if i = (h0 + j) mod cap then r else rec_at 5 off mem i)"
    and o: "\<And>k. k < length mem \<Longrightarrow> k < off + ((h0 + j) mod cap) * 5 \<or> off + ((h0 + j) mod cap + 1) * 5 \<le> k \<Longrightarrow> mem' ! k = mem ! k"
    by (rule copy_rec_at [OF assms(1) slot_bound [OF m assms(4)]]) blast
  have "same_outside (region off cap) mem mem'"
    using l o m by (auto simp: same_outside_def region_def)
  moreover have "ring_window mem' off cap h0 n = (ring_window mem off cap h0 n)[j := r]" if n: "n \<le> cap" for n
  proof (rule nth_equalityI)
    fix i assume "i < length (ring_window mem' off cap h0 n)"
    then have i: "i < n" by simp
    have b: "off + ((h0 + i) mod cap + 1) * 5 \<le> length mem" using i n by (intro slot_bound [OF _ assms(4)]) simp
    show "ring_window mem' off cap h0 n ! i = (ring_window mem off cap h0 n)[j := r] ! i"
      using i n rec [OF b] ring_slots_distinct [OF assms(3), of i j] assms(2) by (auto simp: nth_list_update)
  qed simp
  ultimately show thesis using that c by blast
qed

subsection \<open>Addresses do not wrap around\<close>

text \<open>The ring lies in a memory of fewer than \<open>2^64\<close> words, and its head in the ring.\<close>

definition ring_fits :: "u64 \<Rightarrow> u64 \<Rightarrow> u64 \<Rightarrow> words \<Rightarrow> bool" where
  "ring_fits offset capacity head mem \<longleftrightarrow>
     unat offset + unat capacity * 5 \<le> length mem \<and> length mem < 2 ^ 64 \<and> unat head < unat capacity"

lemma unat_slot:
  assumes "ring_fits offset capacity head mem" "unat i < unat capacity"
  shows "unat (tcp_ledger_slot offset capacity head i) = unat offset + ((unat head + unat i) mod unat capacity) * 5"
proof -
  let ?c = "unat capacity" and ?p = "(unat head + unat i) mod unat capacity"
  have f: "unat offset + ?c * 5 < 2 ^ 64" "unat head < ?c" using assms by (auto simp: ring_fits_def)
  have hi: "unat (head + i) = unat head + unat i" using f assms(2) by (intro unat_add_exact) simp
  have c0: "capacity \<noteq> 0" using assms(2) by auto
  define p where "p = (if head + i \<ge> capacity then head + i - capacity else head + i)"
  have p: "unat p = ?p"
    using f assms(2) hi by (auto simp: p_def mod_wrap word_le_nat_alt unat_sub_exact)
  have pl: "unat p < ?c" using p assms(2) by simp
  have "unat (p * 5) = unat p * 5" using unat_mult_exact [of p 5] f pl by simp
  moreover have "unat offset + unat p * 5 < 2 ^ 64" using f pl by linarith
  ultimately have "unat (offset + p * 5) = unat offset + unat p * 5" by (subst unat_add_exact) simp_all
  then show ?thesis using c0 p by (simp add: tcp_ledger_slot_def Let_def p_def)
qed

lemma slot_end:
  assumes "ring_fits offset capacity head mem" "i < unat capacity"
  shows "unat offset + ((unat head + i) mod unat capacity + 1) * 5 \<le> length mem"
  using assms by (intro slot_bound [where n = "unat capacity"]) (auto simp: ring_fits_def)

lemma peek_slot:
  assumes "ring_fits offset capacity head mem" "unat i < n" "n \<le> unat capacity" "unat k < 5"
  shows "peek mem (tcp_ledger_slot offset capacity head i + k)
    = Some (ring_window mem (unat offset) (unat capacity) (unat head) n ! unat i ! unat k)"
proof -
  have i: "unat i < unat capacity" using assms by simp
  have e: "unat (tcp_ledger_slot offset capacity head i) + 5 \<le> length mem"
    using slot_end [OF assms(1) i] by (simp add: unat_slot [OF assms(1) i])
  have l: "length mem < 2 ^ 64" using assms(1) by (simp add: ring_fits_def)
  have "unat (tcp_ledger_slot offset capacity head i + k) = unat (tcp_ledger_slot offset capacity head i) + unat k"
    using e l assms(4) by (intro unat_add_exact) simp
  then show ?thesis
    using e assms(2,4) slot_end [OF assms(1) i] by (simp add: peek_def unat_slot [OF assms(1) i] rec_at_nth)
qed

text \<open>The binary search finds the first record at or after a sequence.\<close>

lemma lower_bound_loop_exact:
  assumes "ring_fits offset capacity head mem" "n \<le> unat capacity"
    and "\<And>i j. i < j \<Longrightarrow> j < n \<Longrightarrow> ring_window mem (unat offset) (unat capacity) (unat head) n ! i ! 2
      \<le> ring_window mem (unat offset) (unat capacity) (unat head) n ! j ! 2"
    and "low \<le> high" "unat high \<le> n"
    and "\<And>i. i < unat low \<Longrightarrow> ring_window mem (unat offset) (unat capacity) (unat head) n ! i ! 2 < sequence"
    and "\<And>i. unat high \<le> i \<Longrightarrow> i < n \<Longrightarrow> sequence \<le> ring_window mem (unat offset) (unat capacity) (unat head) n ! i ! 2"
  shows "\<exists>r. lower_bound_loop offset capacity head sequence mem low high = Some r \<and> unat r \<le> n
    \<and> (\<forall>i < unat r. ring_window mem (unat offset) (unat capacity) (unat head) n ! i ! 2 < sequence)
    \<and> (\<forall>i. unat r \<le> i \<longrightarrow> i < n \<longrightarrow> sequence \<le> ring_window mem (unat offset) (unat capacity) (unat head) n ! i ! 2)"
  using assms(4-7)
proof (induction "unat high - unat low" arbitrary: low high rule: less_induct)
  case less
  let ?key = "\<lambda>i. ring_window mem (unat offset) (unat capacity) (unat head) n ! i ! 2"
  show ?case
  proof (cases "low < high")
    case False
    then have "low = high" using less.prems(1) by simp
    then show ?thesis using less.prems by (subst lower_bound_loop.simps) auto
  next
    case True
    let ?mid = "low + (high - low) div 2"
    note mb = mid_bounds [OF True]
    have lh: "unat low < unat high" using True by (simp add: word_less_nat_alt)
    have mid: "unat low \<le> unat ?mid" "unat ?mid < unat high" using mb(1) lh by linarith+
    have m1: "unat (?mid + 1) = unat ?mid + 1" using mb by simp
    have pk: "peek mem (tcp_ledger_slot offset capacity head ?mid + 2) = Some (?key (unat ?mid))"
      using peek_slot [OF assms(1), of ?mid n 2] mid less.prems(2) assms(2) by simp
    show ?thesis
    proof (cases "?key (unat ?mid) < sequence")
      case True
      have "?key i < sequence" if "i < unat (?mid + 1)" for i
        using that True assms(3) [of i "unat ?mid"] mid less.prems(2) m1 by (cases "i = unat ?mid") auto
      then have "\<exists>r. lower_bound_loop offset capacity head sequence mem (?mid + 1) high = Some r \<and> unat r \<le> n
        \<and> (\<forall>i < unat r. ?key i < sequence) \<and> (\<forall>i. unat r \<le> i \<longrightarrow> i < n \<longrightarrow> sequence \<le> ?key i)"
        using less.prems m1 mid by (intro less.hyps) (auto simp: word_le_nat_alt)
      then show ?thesis using \<open>low < high\<close> pk True
        by (subst lower_bound_loop.simps [of _ _ _ _ _ low high]) (simp only: Let_def if_True bind.bind_lunit)
    next
      case False
      have "sequence \<le> ?key i" if "unat ?mid \<le> i" "i < n" for i
        using that False assms(3) [of "unat ?mid" i] by (cases "i = unat ?mid") auto
      then have "\<exists>r. lower_bound_loop offset capacity head sequence mem low ?mid = Some r \<and> unat r \<le> n
        \<and> (\<forall>i < unat r. ?key i < sequence) \<and> (\<forall>i. unat r \<le> i \<longrightarrow> i < n \<longrightarrow> sequence \<le> ?key i)"
        using less.prems mid by (intro less.hyps) (auto simp: word_le_nat_alt)
      then show ?thesis using \<open>low < high\<close> pk False
        by (subst lower_bound_loop.simps [of _ _ _ _ _ low high]) (simp only: Let_def if_True if_False bind.bind_lunit)
    qed
  qed
qed

subsection \<open>A ring holds the segments of a flow\<close>

definition segment_words :: "packet_descriptor \<Rightarrow> words" where
  "segment_words p = (case pkt_kind p of
      TcpData h \<Rightarrow> [pkt_id p, pkt_size_bytes p, tdh_sequence h, tdh_sent_time_ns h, of_bool (tdh_retransmission h)]
    | _ \<Rightarrow> replicate 5 0)"

definition own_sequence :: "u64 \<times> packet_descriptor \<Rightarrow> bool" where
  "own_sequence e = (case pkt_kind (snd e) of TcpData h \<Rightarrow> tdh_sequence h = fst e | _ \<Rightarrow> False)"

lemma length_segment_words [simp]: "length (segment_words p) = 5"
  by (simp add: segment_words_def split: packet_kind.split)

lemma segment_words_fields:
  "segment_words p ! 1 = pkt_size_bytes p \<and> segment_words p ! 2 = s" if "own_sequence (s, p)"
  using that by (auto simp: segment_words_def own_sequence_def split: packet_kind.splits)

text \<open>The row of metadata at word \<open>meta\<close>; its ring lies elsewhere in the memory.\<close>

definition ledger_row :: "nat \<Rightarrow> u64 \<Rightarrow> u64 \<Rightarrow> u64 \<Rightarrow> u64 \<Rightarrow> words \<Rightarrow> bool" where
  "ledger_row meta offset capacity n head mem \<longleftrightarrow>
     meta + 6 \<le> length mem \<and> length mem < 2 ^ 64 \<and> unat offset + unat capacity * 5 \<le> length mem
     \<and> region (unat offset) (unat capacity) \<inter> {meta..<meta + 6} = {}
     \<and> mem ! meta = offset \<and> mem ! (meta + 1) = capacity \<and> mem ! (meta + 2) = n \<and> mem ! (meta + 4) = head
     \<and> unat n \<le> unat capacity \<and> (unat head < unat capacity \<or> capacity = 0 \<and> head = 0)"

definition ring_rel :: "nat \<Rightarrow> u64 \<Rightarrow> u64 \<Rightarrow> words \<Rightarrow> flow_segments \<Rightarrow> bool" where
  "ring_rel meta offset capacity mem m \<longleftrightarrow> om_wf m \<and> list_all own_sequence m
     \<and> ledger_row meta offset capacity (mem ! (meta + 2)) (mem ! (meta + 4)) mem
     \<and> ring_window mem (unat offset) (unat capacity) (unat (mem ! (meta + 4))) (unat (mem ! (meta + 2)))
       = map (segment_words \<circ> snd) m"

lemma ring_rel_count: "ring_rel meta offset capacity mem m \<Longrightarrow> unat (mem ! (meta + 2)) = length m"
  unfolding ring_rel_def by (metis length_map length_ring_window)

lemma ring_rel_fits:
  assumes "ring_rel meta offset capacity mem m" "capacity \<noteq> 0"
  shows "ring_fits offset capacity (mem ! (meta + 4)) mem"
  using assms by (auto simp: ring_rel_def ledger_row_def ring_fits_def)

lemma ring_rel_empty: "ring_rel meta offset 0 mem m \<Longrightarrow> m = []"
  using ring_rel_count [of meta offset 0 mem m] by (auto simp: ring_rel_def ledger_row_def)

lemma peek_row:
  assumes "ledger_row meta offset capacity n head mem" "unat w = meta"
  shows "peek mem w = Some offset" "peek mem (w + 1) = Some capacity" "peek mem (w + 2) = Some n" "peek mem (w + 4) = Some head"
    "peek mem (w + 5) = Some (mem ! (meta + 5))"
    "unat (w + 2) = meta + 2" "unat (w + 4) = meta + 4" "unat (w + 5) = meta + 5"
proof -
  have b: "meta + 6 \<le> length mem" "length mem < 2 ^ 64" using assms(1) by (auto simp: ledger_row_def)
  then have a: "unat (w + 1) = meta + 1" "unat (w + 2) = meta + 2" "unat (w + 4) = meta + 4" "unat (w + 5) = meta + 5"
    using assms(2) unat_add_exact [of w 1] unat_add_exact [of w 2] unat_add_exact [of w 4] unat_add_exact [of w 5] by simp_all
  then show "peek mem w = Some offset" "peek mem (w + 1) = Some capacity" "peek mem (w + 2) = Some n" "peek mem (w + 4) = Some head"
    "peek mem (w + 5) = Some (mem ! (meta + 5))" "unat (w + 2) = meta + 2" "unat (w + 4) = meta + 4" "unat (w + 5) = meta + 5"
    using assms b by (simp_all add: peek_def ledger_row_def)
qed

lemma split_at_index:
  assumes "r \<le> length m" "\<And>i. i < r \<Longrightarrow> fst (m ! i) < k" "\<And>i. r \<le> i \<Longrightarrow> i < length m \<Longrightarrow> k \<le> fst (m ! i)"
  shows "om_below k m = take r m" "om_split_off k m = drop r m"
proof -
  have t: "\<forall>e \<in> set (take r m). fst e < k" using assms(1,2) by (simp add: all_set_conv_all_nth)
  have d: "\<forall>e \<in> set (drop r m). k \<le> fst e" using assms(3) by (simp add: all_set_conv_all_nth)
  have "filter (\<lambda>e. fst e < k) (take r m @ drop r m) = take r m" "filter (\<lambda>e. k \<le> fst e) (take r m @ drop r m) = drop r m"
    using t d by (auto simp: filter_empty_conv filter_id_conv not_less not_le simp del: append_take_drop_id)
  then show "om_below k m = take r m" "om_split_off k m = drop r m" by (simp_all add: om_below_def om_split_off_def)
qed

lemma om_get_split:
  assumes "om_wf m" "om_split_off k m = drop r m"
  shows "om_get m k = (case drop r m of [] \<Rightarrow> None | (s, p) # _ \<Rightarrow> if s = k then Some p else None)"
proof -
  have "om_get m k = om_get (drop r m) k"
    using om_get_filter [OF assms(1), of "\<lambda>x. k \<le> x" k] assms(2) by (simp add: om_split_off_def)
  moreover have "om_wf (drop r m)" using om_wf_filter [OF assms(1), of "\<lambda>e. k \<le> fst e"] assms(2) by (simp add: om_split_off_def)
  moreover have "\<forall>e \<in> set (drop r m). k \<le> fst e" using assms(2) [symmetric] by (auto simp: om_split_off_def)
  ultimately show ?thesis
    by (cases "drop r m") (auto simp: om_get_def map_of_eq_None_iff split: prod.splits)
qed

lemma om_insert_split:
  assumes "om_wf m" "om_below k m = take r m" "om_split_off k m = drop r m"
  shows "om_insert k v m = take r m @ (k, v) # (if om_get m k = None then drop r m else drop (r + 1) m)"
proof -
  have "om_insert k v m = om_below k m @ (k, v) # (if om_get m k = None then om_split_off k m else tl (om_split_off k m))"
    using assms(1)
  proof (induction m)
    case (Cons e m)
    have rest: "om_below k m = [] \<and> om_split_off k m = m" if "k \<le> fst e"
      using Cons.prems that by (fastforce simp: om_below_def om_split_off_def filter_empty_conv filter_id_conv)
    consider "fst e < k" | "k < fst e" | "k = fst e" by fastforce
    then show ?case
    proof cases
      case 1
      then have "om_get (e # m) k = om_get m k" "om_below k (e # m) = e # om_below k m" "om_split_off k (e # m) = om_split_off k m"
        by (cases e, auto simp: om_get_def om_below_def om_split_off_def)+
      moreover have "k \<noteq> fst e" "\<not> k < fst e" using 1 by auto
      moreover have "om_wf m" using Cons.prems by simp
      ultimately show ?thesis using Cons.IH by simp
    next
      case 2
      then have "om_get (e # m) k = None" using Cons.prems by (fastforce simp: om_get_def map_of_eq_None_iff)
      moreover have "om_below k (e # m) = []" "om_split_off k (e # m) = e # m"
        using 2 rest by (simp_all add: om_below_def om_split_off_def)
      ultimately show ?thesis using 2 by simp
    next
      case 3
      then have "om_get (e # m) k = Some (snd e)" by (cases e) (simp add: om_get_def)
      moreover have "om_below k (e # m) = []" "om_split_off k (e # m) = e # m"
        using 3 rest by (simp_all add: om_below_def om_split_off_def)
      ultimately show ?thesis using 3 by simp
    qed
  qed (simp add: om_below_def om_split_off_def om_get_def)
  then show ?thesis using assms(2,3) by (simp add: drop_Suc tl_drop)
qed

lemma lower_bound_split:
  assumes "ring_rel meta offset capacity mem m"
  obtains r where "tcp_ledger_lower_bound offset capacity (mem ! (meta + 4)) (mem ! (meta + 2)) k mem = Some r"
    "unat r \<le> length m" "om_below k m = take (unat r) m" "om_split_off k m = drop (unat r) m"
proof (cases "capacity = 0")
  case True
  then have "m = []" using assms ring_rel_empty [of meta offset mem m] by simp
  moreover from this have "mem ! (meta + 2) = 0" using ring_rel_count [OF assms] by (simp add: word_unat_eq_iff)
  moreover note True
  ultimately show thesis using that [of 0]
    by (simp add: tcp_ledger_lower_bound_def lower_bound_loop.simps om_below_def om_split_off_def)
next
  case False
  let ?h = "mem ! (meta + 4)" and ?n = "mem ! (meta + 2)"
  have n: "unat ?n = length m" by (rule ring_rel_count [OF assms])
  have key: "ring_window mem (unat offset) (unat capacity) (unat ?h) (unat ?n) ! i ! 2 = fst (m ! i)" if "i < length m" for i
  proof -
    have "own_sequence (m ! i)" using assms that by (auto simp: ring_rel_def list_all_length)
    then show ?thesis
      using assms that segment_words_fields [of "fst (m ! i)" "snd (m ! i)"] by (simp add: ring_rel_def)
  qed
  have s: "fst (m ! i) \<le> fst (m ! j)" if "i < j" "j < length m" for i j
    using assms that sorted_wrt_nth_less [of "(<)" "map fst m" i j] by (simp add: ring_rel_def om_wf_def)
  have le: "unat ?n \<le> unat capacity" using assms by (simp add: ring_rel_def ledger_row_def)
  have mono: "ring_window mem (unat offset) (unat capacity) (unat ?h) (unat ?n) ! i ! 2
      \<le> ring_window mem (unat offset) (unat capacity) (unat ?h) (unat ?n) ! j ! 2" if "i < j" "j < unat ?n" for i j
    unfolding key [OF less_trans [OF that(1) that(2) [unfolded n]]] key [OF that(2) [unfolded n]]
    using s [OF that(1) that(2) [unfolded n]] .
  have "\<exists>r. lower_bound_loop offset capacity ?h k mem 0 ?n = Some r \<and> unat r \<le> unat ?n
    \<and> (\<forall>i < unat r. ring_window mem (unat offset) (unat capacity) (unat ?h) (unat ?n) ! i ! 2 < k)
    \<and> (\<forall>i. unat r \<le> i \<longrightarrow> i < unat ?n \<longrightarrow> k \<le> ring_window mem (unat offset) (unat capacity) (unat ?h) (unat ?n) ! i ! 2)"
    by (rule lower_bound_loop_exact [OF ring_rel_fits [OF assms False] le mono]) simp_all
  then obtain r where r: "lower_bound_loop offset capacity ?h k mem 0 ?n = Some r" "unat r \<le> unat ?n"
    and lo: "\<forall>i < unat r. ring_window mem (unat offset) (unat capacity) (unat ?h) (unat ?n) ! i ! 2 < k"
    and hi: "\<forall>i. unat r \<le> i \<longrightarrow> i < unat ?n \<longrightarrow> k \<le> ring_window mem (unat offset) (unat capacity) (unat ?h) (unat ?n) ! i ! 2"
    by blast
  have rl: "unat r \<le> length m" using r(2) n by simp
  have "fst (m ! i) < k" if "i < unat r" for i
  proof -
    have il: "i < length m" using that rl by (rule order_less_le_trans)
    show ?thesis using mp [OF spec [OF lo] that] unfolding key [OF il] .
  qed
  moreover have "k \<le> fst (m ! i)" if "unat r \<le> i" "i < length m" for i
    using mp [OF mp [OF spec [OF hi] that(1)] that(2) [folded n]] unfolding key [OF that(2)] .
  ultimately have "om_below k m = take (unat r) m" "om_split_off k m = drop (unat r) m"
    using split_at_index [OF rl] by blast+
  then show thesis using that r(1) rl by (simp add: tcp_ledger_lower_bound_def)
qed

subsection \<open>Adding a record\<close>

lemma ring_fits_cong: "ring_fits offset capacity head mem \<Longrightarrow> length mem' = length mem \<Longrightarrow> ring_fits offset capacity head mem'"
  by (simp add: ring_fits_def)

lemma write_slot:
  assumes "ring_fits offset capacity head mem" "unat i < unat capacity" "length r = 5"
  obtains mem' where "copy_words (unat (tcp_ledger_slot offset capacity head i)) r mem = Some mem'"
    "same_outside (region (unat offset) (unat capacity)) mem mem'"
    "\<And>n. n \<le> unat capacity \<Longrightarrow> ring_window mem' (unat offset) (unat capacity) (unat head) n
       = (ring_window mem (unat offset) (unat capacity) (unat head) n)[unat i := r]"
  using write_window [OF assms(3,2), of "unat head" "unat offset" mem] assms(1)
  unfolding unat_slot [OF assms(1,2)] by (auto simp: ring_fits_def)

lemma shift_loop_exact:
  assumes "ring_fits offset capacity head mem" "n \<le> unat capacity" "unat index < n"
  shows "\<exists>mem'. shift_loop offset capacity head insertion index mem = Some mem'
    \<and> same_outside (region (unat offset) (unat capacity)) mem mem'
    \<and> (\<forall>j < n. ring_window mem' (unat offset) (unat capacity) (unat head) n ! j =
         ring_window mem (unat offset) (unat capacity) (unat head) n
           ! (if unat insertion < j \<and> j \<le> unat index then j - 1 else j))"
  using assms(1,3)
proof (induction "unat index" arbitrary: index mem)
  case 0
  then have "\<not> index > insertion" by (simp add: word_less_nat_alt)
  then show ?case using 0 by (subst shift_loop.simps) auto
next
  case (Suc i)
  let ?w = "\<lambda>mem. ring_window mem (unat offset) (unat capacity) (unat head) n"
  show ?case
  proof (cases "index > insertion")
    case False
    then show ?thesis by (subst shift_loop.simps) (auto simp: word_less_nat_alt)
  next
    case True
    have i1: "unat (index - 1) = i" using Suc.hyps(2) by (subst unat_sub_exact) (auto simp: word_le_nat_alt)
    have b: "unat (index - 1) < unat capacity" "unat index < unat capacity" using i1 Suc assms(2) by simp_all
    let ?src = "unat (tcp_ledger_slot offset capacity head (index - 1))"
    have src: "sub_slice ?src (?src + 5) mem = Some (?w mem ! i)"
      using slot_end [OF Suc.prems(1) b(1)] i1 Suc.prems(2) Suc.hyps(2)
      by (simp add: unat_slot [OF Suc.prems(1) b(1)] sub_slice_def rec_at_def)
    have l5: "length (?w mem ! i) = 5"
      using slot_end [OF Suc.prems(1) b(1)] i1 Suc.prems(2) Suc.hyps(2) by (simp add: length_rec_at)
    obtain mem1 where c: "copy_words (unat (tcp_ledger_slot offset capacity head index)) (?w mem ! i) mem = Some mem1"
      and o: "same_outside (region (unat offset) (unat capacity)) mem mem1"
      and w: "?w mem1 = (?w mem)[unat index := ?w mem ! i]"
      using write_slot [OF Suc.prems(1) b(2) l5] assms(2) by metis
    have f1: "ring_fits offset capacity head mem1"
      using ring_fits_cong [OF Suc.prems(1)] o by (simp add: same_outside_def)
    obtain mem' where s: "shift_loop offset capacity head insertion (index - 1) mem1 = Some mem'"
      and o': "same_outside (region (unat offset) (unat capacity)) mem1 mem'"
      and w': "\<And>j. j < n \<Longrightarrow> ?w mem' ! j = ?w mem1 ! (if unat insertion < j \<and> j \<le> i then j - 1 else j)"
      using Suc.hyps(1) [OF i1 [symmetric] f1] i1 Suc.prems(2) Suc.hyps(2) by auto
    have "shift_loop offset capacity head insertion index mem = Some mem'"
      using True src c s by (subst shift_loop.simps) (simp add: Let_def)
    moreover have "?w mem' ! j = ?w mem ! (if unat insertion < j \<and> j \<le> unat index then j - 1 else j)" if "j < n" for j
    proof -
      have "unat insertion < unat index" using True by (simp add: word_less_nat_alt)
      moreover have "unat index - 1 = i" "unat index \<noteq> i" using Suc.hyps(2) by simp_all
      ultimately show ?thesis
        unfolding w' [OF that] w using that Suc.hyps(2) Suc.prems(2)
        by (cases "j = unat index") (auto simp: nth_list_update simp del: ring_window_nth)
    qed
    ultimately show ?thesis using same_outside_trans [OF o o'] by blast
  qed
qed

text \<open>The words of one flow: its row of metadata and its ring.\<close>

definition own_words :: "nat \<Rightarrow> u64 \<Rightarrow> u64 \<Rightarrow> nat set" where
  "own_words meta offset capacity = {meta..<meta + 6} \<union> region (unat offset) (unat capacity)"

lemma poke_row:
  assumes "ledger_row meta offset capacity n head mem" "unat w = meta + k" "k < 6"
  shows "poke w v mem = Some (mem[meta + k := v])" "same_outside {meta..<meta + 6} mem (mem[meta + k := v])"
  using assms by (auto simp: poke_def ledger_row_def same_outside_def)

lemma row_after_ring:
  assumes "ledger_row meta offset capacity n head mem" "same_outside (region (unat offset) (unat capacity)) mem mem'"
  shows "ledger_row meta offset capacity n head mem'" "\<And>k. k < 6 \<Longrightarrow> mem' ! (meta + k) = mem ! (meta + k)"
proof -
  have b: "meta + 6 \<le> length mem" and d: "region (unat offset) (unat capacity) \<inter> {meta..<meta + 6} = {}"
    using assms(1) by (auto simp: ledger_row_def)
  show same: "mem' ! (meta + k) = mem ! (meta + k)" if "k < 6" for k
  proof -
    have "meta + k \<notin> region (unat offset) (unat capacity)" using d that by auto
    then show ?thesis using assms(2) b that by (simp add: same_outside_def)
  qed
  show "ledger_row meta offset capacity n head mem'"
    using assms same [of 0] same [of 1] same [of 2] same [of 4] by (simp add: ledger_row_def same_outside_def)
qed

lemma row_fits: "ledger_row meta offset capacity n head mem \<Longrightarrow> capacity \<noteq> 0 \<Longrightarrow> ring_fits offset capacity head mem"
  by (auto simp: ledger_row_def ring_fits_def)

text \<open>A free slot at position \<open>r\<close> of the window takes the new record; the count is not yet raised.\<close>

lemma target_exact:
  assumes row: "ledger_row meta offset capacity n head mem" and w: "unat w = meta"
    and less: "unat n < unat capacity" and r: "unat r \<le> unat n" and v: "length v = 5"
  obtains target mem1 mem2 head' where
    "ledger_target w offset capacity head n r mem = Some (target, mem1)"
    "copy_words (unat target) v mem1 = Some mem2"
    "ledger_row meta offset capacity n head' mem2"
    "same_outside (own_words meta offset capacity) mem mem2"
    "ring_window mem2 (unat offset) (unat capacity) (unat head') (unat n + 1)
      = take (unat r) (ring_window mem (unat offset) (unat capacity) (unat head) (unat n)) @ v
        # drop (unat r) (ring_window mem (unat offset) (unat capacity) (unat head) (unat n))"
proof -
  let ?o = "unat offset" and ?c = "unat capacity" and ?n = "unat n"
  have c0: "capacity \<noteq> 0" using less by auto
  have f: "ring_fits offset capacity head mem" by (rule row_fits [OF row c0])
  have own: "region ?o ?c \<subseteq> own_words meta offset capacity" "{meta..<meta + 6} \<subseteq> own_words meta offset capacity"
    by (auto simp: own_words_def)
  consider (app) "r = n" | (pre) "r \<noteq> n" "r = 0" | (mid) "r \<noteq> n" "r \<noteq> 0" by blast
  then show thesis
  proof cases
    case app
    obtain mem2 where c: "copy_words (unat (tcp_ledger_slot offset capacity head n)) v mem = Some mem2"
      and o: "same_outside (region ?o ?c) mem mem2"
      and x: "ring_window mem2 ?o ?c (unat head) (?n + 1) = (ring_window mem ?o ?c (unat head) (?n + 1))[?n := v]"
      using write_slot [OF f less v] less by (metis Suc_eq_plus1 Suc_leI)
    show thesis
    proof (rule that)
      show "ledger_target w offset capacity head n r mem = Some (tcp_ledger_slot offset capacity head n, mem)"
        using app by (simp add: ledger_target_def)
      show "ring_window mem2 ?o ?c (unat head) (?n + 1) = take (unat r) (ring_window mem ?o ?c (unat head) ?n) @ v
        # drop (unat r) (ring_window mem ?o ?c (unat head) ?n)"
        unfolding x unfolding app window_snoc by (simp add: list_update_append)
    qed (use c o own row_after_ring(1) [OF row o] same_outside_mono in blast)+
  next
    case pre
    let ?h = "(if head = 0 then capacity else head) - 1"
    let ?mem1 = "mem[meta + 4 := ?h]"
    have hc: "unat head < ?c" using f by (simp add: ring_fits_def)
    have h: "unat ?h = (unat head + (?c - 1)) mod ?c"
    proof (cases "head = 0")
      case True
      then show ?thesis using hc by (simp add: unat_sub_exact word_le_nat_alt)
    next
      case False
      then have "unat head \<noteq> 0" by (simp add: word_unat_eq_iff)
      then have "unat ?h = unat head - 1" "unat head + (?c - 1) = unat head - 1 + ?c"
        using False hc by (simp_all add: unat_sub_exact word_le_nat_alt)
      moreover have "(unat head - 1 + ?c) mod ?c = unat head - 1" using hc by simp
      ultimately show ?thesis by presburger
    qed
    note p = poke_row [OF row, of "w + 4" 4 ?h]
    have w4: "unat (w + 4) = meta + 4" by (rule peek_row(7) [OF row w])
    have hl: "unat ?h < ?c" using h hc by simp
    have row1: "ledger_row meta offset capacity n ?h ?mem1" using row hl by (simp add: ledger_row_def)
    have f1: "ring_fits offset capacity ?h ?mem1" by (rule row_fits [OF row1 c0])
    have p0: "unat (0 :: u64) < ?c" using hc by simp
    have d: "region ?o ?c \<inter> {meta..<meta + 6} = {}" "?o + ?c * 5 \<le> length mem" using row by (auto simp: ledger_row_def)
    obtain mem2 where c: "copy_words (unat (tcp_ledger_slot offset capacity ?h 0)) v ?mem1 = Some mem2"
      and o: "same_outside (region ?o ?c) ?mem1 mem2"
      and x: "ring_window mem2 ?o ?c (unat ?h) (?n + 1) = (ring_window ?mem1 ?o ?c (unat ?h) (?n + 1))[0 := v]"
      using write_slot [OF f1 p0 v] less by (metis Suc_eq_plus1 Suc_leI unsigned_0)
    have t: "tcp_ledger_slot offset capacity ?h 0 = offset + ?h * 5"
      using hl c0 by (simp add: tcp_ledger_slot_def Let_def word_le_nat_alt)
    have "ring_window ?mem1 ?o ?c (unat ?h) (?n + 1) = rec_at 5 ?o ?mem1 (unat ?h) # ring_window mem ?o ?c (unat head) ?n"
      using window_retreat [of ?c "unat head" ?mem1 ?o ?n] hc window_cong [OF p(2) [OF w4] d(1) _ d(2), of "unat head" ?n] h by simp
    then have y: "ring_window mem2 ?o ?c (unat ?h) (?n + 1) = v # ring_window mem ?o ?c (unat head) ?n" using x by simp
    show thesis
    proof (rule that)
      show "ledger_target w offset capacity head n r mem = Some (tcp_ledger_slot offset capacity ?h 0, ?mem1)"
        using pre p(1) [OF w4] t by (simp add: ledger_target_def Let_def)
      show "same_outside (own_words meta offset capacity) mem mem2"
        using same_outside_trans [OF same_outside_mono [OF p(2) [OF w4] own(2)] same_outside_mono [OF o own(1)]] by simp
      show "ring_window mem2 ?o ?c (unat ?h) (?n + 1) = take (unat r) (ring_window mem ?o ?c (unat head) ?n) @ v
        # drop (unat r) (ring_window mem ?o ?c (unat head) ?n)"
        using y pre by simp
    qed (use c row_after_ring(1) [OF row1 o] in blast)+
  next
    case mid
    have rn: "unat r < ?n" using mid r by (metis le_neq_implies_less word_unat_eq_iff)
    obtain mem1 where s: "shift_loop offset capacity head r n mem = Some mem1"
      and o1: "same_outside (region ?o ?c) mem mem1"
      and x1: "\<And>j. j < ?n + 1 \<Longrightarrow> ring_window mem1 ?o ?c (unat head) (?n + 1) ! j
        = ring_window mem ?o ?c (unat head) (?n + 1) ! (if unat r < j \<and> j \<le> ?n then j - 1 else j)"
      using shift_loop_exact [OF f, of "?n + 1" n r] less by auto
    have f1: "ring_fits offset capacity head mem1" using ring_fits_cong [OF f] o1 by (simp add: same_outside_def)
    have rc: "unat r < ?c" using rn less by simp
    obtain mem2 where c: "copy_words (unat (tcp_ledger_slot offset capacity head r)) v mem1 = Some mem2"
      and o: "same_outside (region ?o ?c) mem1 mem2"
      and x: "ring_window mem2 ?o ?c (unat head) (?n + 1) = (ring_window mem1 ?o ?c (unat head) (?n + 1))[unat r := v]"
      using write_slot [OF f1 rc v] less by (metis Suc_eq_plus1 Suc_leI)
    note o2 = same_outside_trans [OF o1 o]
    show thesis
    proof (rule that)
      show "ledger_target w offset capacity head n r mem = Some (tcp_ledger_slot offset capacity head r, mem1)"
        using mid s by (simp add: ledger_target_def)
      show "ring_window mem2 ?o ?c (unat head) (?n + 1) = take (unat r) (ring_window mem ?o ?c (unat head) ?n) @ v
        # drop (unat r) (ring_window mem ?o ?c (unat head) ?n)"
      proof (rule nth_equalityI)
        fix j assume "j < length (ring_window mem2 ?o ?c (unat head) (?n + 1))"
        then have j: "j < ?n + 1" by simp
        have "ring_window mem2 ?o ?c (unat head) (?n + 1) ! j
          = (if j = unat r then v else ring_window mem1 ?o ?c (unat head) (?n + 1) ! j)"
          unfolding x using j by (simp add: nth_list_update)
        then show "ring_window mem2 ?o ?c (unat head) (?n + 1) ! j = (take (unat r) (ring_window mem ?o ?c (unat head) ?n) @ v
        # drop (unat r) (ring_window mem ?o ?c (unat head) ?n)) ! j"
          unfolding x1 [OF j] using j rn by (auto simp: nth_append nth_Cons' not_less)
      qed (use rn in simp)
    qed (use c row_after_ring(1) [OF row o2] same_outside_mono [OF o2 own(1)] in blast)+
  qed
qed

lemma ledger_grow_exact:
  assumes "ledger_row meta offset capacity n head mem" "unat w = meta" "unat n < unat capacity"
  obtains mem' where "ledger_grow w n mem = Some mem'" "ledger_row meta offset capacity (n + 1) head mem'"
    "same_outside {meta..<meta + 6} mem mem'"
proof -
  have n1: "unat (n + 1) = unat n + 1" using assms(1,3) unat_lt [of capacity] by (intro unat_Suc_exact) simp
  let ?a = "mem[meta + 2 := n + 1]"
  note a = poke_row [OF assms(1) peek_row(6) [OF assms(1,2)], of "n + 1"]
  have ra: "ledger_row meta offset capacity (n + 1) head ?a" using assms(1,3) n1 by (simp add: ledger_row_def)
  note b = poke_row [OF ra peek_row(8) [OF ra assms(2)], of "n + 1"]
  have rb: "ledger_row meta offset capacity (n + 1) head (?a[meta + 5 := n + 1])" using ra by (simp add: ledger_row_def)
  note hw = peek_row(5) [OF ra assms(2)]
  show thesis
  proof (cases "n + 1 > ?a ! (meta + 5)")
    case True
    then have "ledger_grow w n mem = Some (?a[meta + 5 := n + 1])" using a(1) b(1) hw by (simp add: ledger_grow_def Let_def)
    then show thesis using that rb same_outside_trans [OF a(2) b(2)] by simp
  next
    case False
    then have "ledger_grow w n mem = Some ?a" using a(1) hw by (simp add: ledger_grow_def Let_def)
    then show thesis using that ra a(2) by simp
  qed
qed

lemma own_sequence_event:
  assumes "pkt_kind p = TcpData h"
  shows "event_record e p ! 9 = pkt_size_bytes p" "event_record e p ! 11 = tdh_sequence h"
    "[event_record e p ! 7, event_record e p ! 9, event_record e p ! 11, event_record e p ! 12, event_record e p ! 13] = segment_words p"
  using assms by (simp_all add: event_record_def segment_words_def)

lemma record_copy_event:
  "pkt_kind p = TcpData h \<Longrightarrow> tcp_record_copy (event_record e p) target mem = copy_words (unat target) (segment_words p) mem"
  by (simp only: tcp_record_copy_def own_sequence_event(3))

lemma ring_insert_fresh:
  assumes rel: "ring_rel meta offset capacity mem m" and w: "unat w = meta" and p: "pkt_kind p = TcpData h"
    and b: "om_below (tdh_sequence h) m = take (unat r) m" "om_split_off (tdh_sequence h) m = drop (unat r) m" "unat r \<le> length m"
    and fresh: "om_get m (tdh_sequence h) = None" and room: "length m < unat capacity"
  shows "\<exists>mem'. ledger_add flow (event_record e p) w offset capacity (mem ! (meta + 4)) (mem ! (meta + 2)) r mem = Some (Inr mem')
    \<and> ring_rel meta offset capacity mem' (om_insert (tdh_sequence h) p m)
    \<and> same_outside (own_words meta offset capacity) mem mem'"
proof -
  let ?n = "mem ! (meta + 2)" and ?o = "unat offset" and ?c = "unat capacity"
  note n = ring_rel_count [OF rel]
  have row: "ledger_row meta offset capacity ?n (mem ! (meta + 4)) mem"
    and x: "ring_window mem ?o ?c (unat (mem ! (meta + 4))) (unat ?n) = map (segment_words \<circ> snd) m"
    and m: "om_wf m" "list_all own_sequence m"
    using rel by (auto simp: ring_rel_def)
  have less: "unat ?n < ?c" and rn: "unat r \<le> unat ?n" using room n b(3) by simp_all
  obtain target mem1 mem2 head where t: "ledger_target w offset capacity (mem ! (meta + 4)) ?n r mem = Some (target, mem1)"
    and c: "copy_words (unat target) (segment_words p) mem1 = Some mem2"
    and row2: "ledger_row meta offset capacity ?n head mem2" and o2: "same_outside (own_words meta offset capacity) mem mem2"
    and x2: "ring_window mem2 ?o ?c (unat head) (unat ?n + 1)
      = take (unat r) (map (segment_words \<circ> snd) m) @ segment_words p # drop (unat r) (map (segment_words \<circ> snd) m)"
    using target_exact [OF row w less rn length_segment_words, of p] unfolding x by metis
  obtain mem3 where g: "ledger_grow w ?n mem2 = Some mem3" and row3: "ledger_row meta offset capacity (?n + 1) head mem3"
    and o3: "same_outside {meta..<meta + 6} mem2 mem3"
    by (rule ledger_grow_exact [OF row2 w less])
  have d: "region ?o ?c \<inter> {meta..<meta + 6} = {}" "?o + ?c * 5 \<le> length mem2" "0 < ?c"
    using row2 less by (auto simp: ledger_row_def)
  have x3: "ring_window mem3 ?o ?c (unat head) (unat ?n + 1)
    = map (segment_words \<circ> snd) (om_insert (tdh_sequence h) p m)"
    unfolding window_cong [OF o3 d(1,3,2)] x2 om_insert_split [OF m(1) b(1,2)] using fresh by (simp add: take_map drop_map)
  have n1: "unat (?n + 1) = unat ?n + 1" using less unat_lt [of capacity] by (intro unat_Suc_exact) simp
  have h3: "mem3 ! (meta + 2) = ?n + 1" "mem3 ! (meta + 4) = head" using row3 by (auto simp: ledger_row_def)
  have "list_all own_sequence (om_insert (tdh_sequence h) p m)"
    using m(2) p unfolding om_insert_split [OF m(1) b(1,2)]
    by (auto simp: list_all_iff own_sequence_def dest: in_set_takeD in_set_dropD)
  then have "ring_rel meta offset capacity mem3 (om_insert (tdh_sequence h) p m)"
    using row3 x3 h3 n1 om_wf_insert [OF m(1)] by (simp add: ring_rel_def)
  moreover have "ledger_add flow (event_record e p) w offset capacity (mem ! (meta + 4)) ?n r mem = Some (Inr mem3)"
    using less t c g by (simp add: ledger_add_def record_copy_event [OF p] word_le_nat_alt)
  moreover have "same_outside (own_words meta offset capacity) mem mem3"
    by (rule same_outside_trans [OF o2 same_outside_mono [OF o3]]) (simp add: own_words_def)
  ultimately show ?thesis by blast
qed

lemma drop_at_index: "om_split_off k m = drop r m \<Longrightarrow> r < length m \<Longrightarrow> drop r m = m ! r # drop (r + 1) m"
  by (simp add: Cons_nth_drop_Suc)

lemma ring_entry:
  assumes rel: "ring_rel meta offset capacity mem m" and i: "unat i < length m"
  shows "capacity \<noteq> 0" "unat i < unat capacity" "ring_fits offset capacity (mem ! (meta + 4)) mem"
    "unat k < 5 \<Longrightarrow> peek mem (tcp_ledger_slot offset capacity (mem ! (meta + 4)) i + k) = Some (segment_words (snd (m ! unat i)) ! unat k)"
    "own_sequence (m ! unat i)"
proof -
  note n = ring_rel_count [OF rel]
  have c: "unat (mem ! (meta + 2)) \<le> unat capacity" using rel by (simp add: ring_rel_def ledger_row_def)
  show c0: "capacity \<noteq> 0" "unat i < unat capacity" using c n i by auto
  show f: "ring_fits offset capacity (mem ! (meta + 4)) mem" by (rule ring_rel_fits [OF rel c0(1)])
  have x: "ring_window mem (unat offset) (unat capacity) (unat (mem ! (meta + 4))) (length m) = map (segment_words \<circ> snd) m"
    using rel n by (simp add: ring_rel_def)
  show "peek mem (tcp_ledger_slot offset capacity (mem ! (meta + 4)) i + k) = Some (segment_words (snd (m ! unat i)) ! unat k)" if "unat k < 5"
    using peek_slot [OF f i _ that] c n i unfolding x by simp
  show "own_sequence (m ! unat i)" using rel i by (simp add: ring_rel_def list_all_length)
qed

lemma entry_of_split:
  assumes "om_wf m" "om_split_off k m = drop r m"
  shows "om_get m k = (if r < length m \<and> fst (m ! r) = k then Some (snd (m ! r)) else None)"
  using om_get_split [OF assms] drop_at_index [OF assms(2)] by (cases "r < length m") (auto split: prod.splits)

lemma ring_replace:
  assumes rel: "ring_rel meta offset capacity mem m" and p: "pkt_kind p = TcpData h"
    and i: "unat r < length m" "fst (m ! unat r) = tdh_sequence h"
    and b: "om_below (tdh_sequence h) m = take (unat r) m" "om_split_off (tdh_sequence h) m = drop (unat r) m"
  shows "\<exists>mem'. copy_words (unat (tcp_ledger_slot offset capacity (mem ! (meta + 4)) r)) (segment_words p) mem = Some mem'
    \<and> ring_rel meta offset capacity mem' (om_insert (tdh_sequence h) p m)
    \<and> same_outside (own_words meta offset capacity) mem mem'"
proof -
  let ?o = "unat offset" and ?c = "unat capacity" and ?h = "mem ! (meta + 4)" and ?n = "unat (mem ! (meta + 2))"
  note e = ring_entry [OF rel i(1)] and n = ring_rel_count [OF rel]
  have row: "ledger_row meta offset capacity (mem ! (meta + 2)) ?h mem" and m: "om_wf m" "list_all own_sequence m"
    and x: "ring_window mem ?o ?c (unat ?h) ?n = map (segment_words \<circ> snd) m"
    using rel by (auto simp: ring_rel_def)
  have nc: "?n \<le> ?c" using row by (simp add: ledger_row_def)
  obtain mem' where c: "copy_words (unat (tcp_ledger_slot offset capacity ?h r)) (segment_words p) mem = Some mem'"
    and o: "same_outside (region ?o ?c) mem mem'"
    and x': "ring_window mem' ?o ?c (unat ?h) ?n = (map (segment_words \<circ> snd) m)[unat r := segment_words p]"
    using write_slot [OF e(3,2) length_segment_words, of p] nc x by metis
  have ins: "om_insert (tdh_sequence h) p m = m[unat r := (tdh_sequence h, p)]"
    using om_insert_split [OF m(1) b] entry_of_split [OF m(1) b(2)] i by (simp add: upd_conv_take_nth_drop)
  have "list_all own_sequence (om_insert (tdh_sequence h) p m)"
  proof -
    have "own_sequence (tdh_sequence h, p)" using p by (simp add: own_sequence_def)
    then show ?thesis unfolding ins list_all_iff using m(2) set_update_subset_insert [of m] by (fastforce simp: list_all_iff)
  qed
  then have "ring_rel meta offset capacity mem' (om_insert (tdh_sequence h) p m)"
    using row_after_ring(1) [OF row o] row_after_ring(2) [OF row o, of 2] row_after_ring(2) [OF row o, of 4] x'
      om_wf_insert [OF m(1), of "tdh_sequence h" p] by (simp add: ring_rel_def ins map_update)
  moreover have "same_outside (own_words meta offset capacity) mem mem'"
    by (rule same_outside_mono [OF o]) (simp add: own_words_def)
  ultimately show ?thesis using c by blast
qed

text \<open>The four outcomes of an insertion.\<close>

lemma ring_insert_exact:
  assumes rel: "ring_rel meta offset capacity mem m" and w: "unat (ledger_meta ledger_base flow) = meta" and p: "pkt_kind p = TcpData h"
  shows "case om_get m (tdh_sequence h) of
      Some q \<Rightarrow>
        if pkt_size_bytes q \<noteq> pkt_size_bytes p
        then tcp_ledger_insert ledger_base flow (event_record e p) mem = Some (Inl (SemanticFault 40 kernel_none))
        else (\<exists>mem'. tcp_ledger_insert ledger_base flow (event_record e p) mem = Some (Inr mem')
          \<and> ring_rel meta offset capacity mem' (om_insert (tdh_sequence h) p m)
          \<and> same_outside (own_words meta offset capacity) mem mem')
    | None \<Rightarrow>
        if unat capacity \<le> length m
        then tcp_ledger_insert ledger_base flow (event_record e p) mem
          = Some (Inl (CapacityFault 12 flow capacity (of_nat (length m) + 1)))
        else (\<exists>mem'. tcp_ledger_insert ledger_base flow (event_record e p) mem = Some (Inr mem')
          \<and> ring_rel meta offset capacity mem' (om_insert (tdh_sequence h) p m)
          \<and> same_outside (own_words meta offset capacity) mem mem')"
proof -
  let ?w = "ledger_meta ledger_base flow" and ?h = "mem ! (meta + 4)" and ?n = "mem ! (meta + 2)"
  have row: "ledger_row meta offset capacity ?n ?h mem" and m: "om_wf m" using rel by (auto simp: ring_rel_def)
  note pk = peek_row(1-4) [OF row w] and n = ring_rel_count [OF rel]
  obtain r where lb: "tcp_ledger_lower_bound offset capacity ?h ?n (tdh_sequence h) mem = Some r"
    and r: "unat r \<le> length m" and b: "om_below (tdh_sequence h) m = take (unat r) m" "om_split_off (tdh_sequence h) m = drop (unat r) m"
    by (rule lower_bound_split [OF rel])
  note get = entry_of_split [OF m b(2)]
  have add: "tcp_ledger_insert ledger_base flow (event_record e p) mem
      = ledger_add flow (event_record e p) ?w offset capacity ?h ?n r mem" if none: "om_get m (tdh_sequence h) = None"
  proof (cases "unat r < length m")
    case True
    then have "fst (m ! unat r) \<noteq> tdh_sequence h" using none get by (simp split: if_splits)
    then show ?thesis
      using True n ring_entry(4) [OF rel True, of 2] segment_words_fields [of "fst (m ! unat r)" "snd (m ! unat r)"]
        ring_entry(5) [OF rel True] pk lb
      by (simp add: tcp_ledger_insert_def Let_def own_sequence_event(2) [OF p] word_less_nat_alt)
  next
    case False
    then show ?thesis using n pk lb
      by (simp add: tcp_ledger_insert_def Let_def own_sequence_event(2) [OF p] word_less_nat_alt)
  qed
  show ?thesis
  proof (cases "om_get m (tdh_sequence h)")
    case None
    show ?thesis
    proof (cases "unat capacity \<le> length m")
      case True
      then have "ledger_add flow (event_record e p) ?w offset capacity ?h ?n r mem = Some (Inl (CapacityFault 12 flow capacity (?n + 1)))"
        using n by (simp add: ledger_add_def word_le_nat_alt)
      moreover have "?n = of_nat (length m)" using arg_cong [OF n, of "of_nat :: nat \<Rightarrow> u64"] by simp
      ultimately show ?thesis using None True add by simp
    next
      case False
      then show ?thesis using None add ring_insert_fresh [OF rel w p b r None] by simp
    qed
  next
    case (Some q)
    then have i: "unat r < length m" "fst (m ! unat r) = tdh_sequence h" "snd (m ! unat r) = q" using get by (auto split: if_splits)
    have f: "segment_words q ! 1 = pkt_size_bytes q" "segment_words q ! 2 = tdh_sequence h"
      using segment_words_fields [of "tdh_sequence h" q] ring_entry(5) [OF rel i(1)] i by (cases "m ! unat r", simp)+
    have "tcp_ledger_insert ledger_base flow (event_record e p) mem
      = (if pkt_size_bytes q \<noteq> pkt_size_bytes p then Some (Inl (SemanticFault 40 kernel_none))
         else map_option Inr (copy_words (unat (tcp_ledger_slot offset capacity ?h r)) (segment_words p) mem))"
      using i n ring_entry(4) [OF rel i(1), of 2] ring_entry(4) [OF rel i(1), of 1] f pk lb
      by (simp add: tcp_ledger_insert_def Let_def record_copy_event [OF p] own_sequence_event(1,2) [OF p] word_less_nat_alt)
    then show ?thesis using Some ring_replace [OF rel p i(1,2) b] by auto
  qed
qed

subsection \<open>Finding a record\<close>

lemma ring_find_exact:
  assumes rel: "ring_rel meta offset capacity mem m" and w: "unat (ledger_meta ledger_base flow) = meta"
  shows "case om_get m sequence of
      None \<Rightarrow> tcp_ledger_find ledger_base flow sequence mem = Some None
    | Some p \<Rightarrow> (\<exists>a. tcp_ledger_find ledger_base flow sequence mem = Some (Some a)
        \<and> sub_slice (unat a) (unat a + 5) mem = Some (segment_words p))"
proof -
  let ?h = "mem ! (meta + 4)" and ?n = "mem ! (meta + 2)"
  have row: "ledger_row meta offset capacity ?n ?h mem" and m: "om_wf m"
    and x: "ring_window mem (unat offset) (unat capacity) (unat ?h) (unat ?n) = map (segment_words \<circ> snd) m"
    using rel by (auto simp: ring_rel_def)
  note pk = peek_row(1-4) [OF row w] and n = ring_rel_count [OF rel]
  obtain r where lb: "tcp_ledger_lower_bound offset capacity ?h ?n sequence mem = Some r"
    and r: "unat r \<le> length m" and b: "om_split_off sequence m = drop (unat r) m"
    by (rule lower_bound_split [OF rel])
  note get = entry_of_split [OF m b]
  show ?thesis
  proof (cases "unat r < length m")
    case False
    then have "\<not> r < ?n" using n by (simp add: word_less_nat_alt)
    then show ?thesis using False get pk lb by (simp add: tcp_ledger_find_def)
  next
    case True
    let ?a = "tcp_ledger_slot offset capacity ?h r"
    note e = ring_entry [OF rel True]
    have key: "segment_words (snd (m ! unat r)) ! 2 = fst (m ! unat r)"
      using segment_words_fields [of "fst (m ! unat r)" "snd (m ! unat r)"] e(5) by simp
    have f: "tcp_ledger_find ledger_base flow sequence mem = Some (if fst (m ! unat r) = sequence then Some ?a else None)"
      using True n pk lb e(4) [of 2] key by (simp add: tcp_ledger_find_def word_less_nat_alt)
    have "rec_at 5 (unat offset) mem ((unat ?h + unat r) mod unat capacity) = segment_words (snd (m ! unat r))"
      using arg_cong [OF x, of "\<lambda>xs. xs ! unat r"] True n by simp
    then have "sub_slice (unat ?a) (unat ?a + 5) mem = Some (segment_words (snd (m ! unat r)))"
      using slot_end [OF e(3,2)] by (simp add: unat_slot [OF e(3,2)] sub_slice_def rec_at_def)
    then show ?thesis using f get True by auto
  qed
qed

subsection \<open>Acknowledging\<close>

fun covered :: "u64 \<Rightarrow> flow_segments \<Rightarrow> nat" where
  "covered k [] = 0"
| "covered k ((s, p) # m) = (if unat s + unat (pkt_size_bytes p) \<le> unat k then covered k m + 1 else 0)"

lemma covered_le: "covered k m \<le> length m"
  by (induction k m rule: covered.induct) auto

lemma acknowledge_loop_exact:
  assumes rel: "ring_rel meta offset capacity mem m" and t: "tiles a b m" "b < 2 ^ 64" and i: "unat keep \<le> length m"
  shows "\<exists>r. acknowledge_loop offset capacity (mem ! (meta + 4)) (mem ! (meta + 2)) k mem keep = Some (Inr r)
    \<and> unat r = unat keep + covered k (drop (unat keep) m)"
  using i
proof (induction "length m - unat keep" arbitrary: keep rule: less_induct)
  case less
  note n = ring_rel_count [OF rel]
  show ?case
  proof (cases "unat keep < length m")
    case False
    then show ?thesis using n less.prems by (subst acknowledge_loop.simps) (simp add: word_less_nat_alt)
  next
    case True
    note e = ring_entry [OF rel True]
    obtain s p where sp: "m ! unat keep = (s, p)" by (cases "m ! unat keep")
    have f: "segment_words p ! 1 = pkt_size_bytes p" "segment_words p ! 2 = s"
      using segment_words_fields [of s p] e(5) sp by simp_all
    have d: "drop (unat keep) m = (s, p) # drop (unat keep + 1) m" using True sp by (simp add: Cons_nth_drop_Suc [symmetric])
    have "(s, p) \<in> set m" using nth_mem [OF True] sp by simp
    then have fin: "unat s + unat (pkt_size_bytes p) < 2 ^ 64" using tiles_keys [OF t(1)] t(2) by fastforce
    then have sum: "unat (s + pkt_size_bytes p) = unat s + unat (pkt_size_bytes p)" by (intro unat_add_exact) simp
    have ok: "\<not> s > kernel_none - pkt_size_bytes p"
      using fin by (simp add: kernel_none_def word_less_nat_alt unat_sub_exact unat_u_max)
    have k1: "unat (keep + 1) = unat keep + 1" using True n unat_lt [of "mem ! (meta + 2)"] by (intro unat_Suc_exact) simp
    have step: "acknowledge_loop offset capacity (mem ! (meta + 4)) (mem ! (meta + 2)) k mem keep
      = (if unat s + unat (pkt_size_bytes p) > unat k then Some (Inr keep)
         else acknowledge_loop offset capacity (mem ! (meta + 4)) (mem ! (meta + 2)) k mem (keep + 1))"
      using True n e(4) [of 2] e(4) [of 1] f sp ok sum
      by (subst acknowledge_loop.simps) (simp add: Let_def word_less_nat_alt)
    show ?thesis
    proof (cases "unat s + unat (pkt_size_bytes p) \<le> unat k")
      case True
      then show ?thesis using step d k1 less.hyps [of "keep + 1"] \<open>unat keep < length m\<close> by auto
    next
      case False
      then show ?thesis using step d by simp
    qed
  qed
qed

lemma unacked_after_covered:
  "unacked_after k m = (case drop (covered k m) m of [] \<Rightarrow> []
     | (s, p) # m' \<Rightarrow> if s < k then (k, set_sequence k (p\<lparr>pkt_size_bytes := pkt_size_bytes p - (k - s)\<rparr>)) # m' else (s, p) # m')"
  by (induction k m rule: unacked_after.induct) auto

lemma covered_first: "drop (covered k m) m = (s, p) # m' \<Longrightarrow> unat k < unat s + unat (pkt_size_bytes p)"
  by (induction k m rule: covered.induct) (auto split: if_splits)

lemma tiles_own: "tiles a b m \<Longrightarrow> list_all own_sequence m"
  by (induction a b m rule: tiles.induct) (auto simp: own_sequence_def)

lemma cut_words:
  "own_sequence (s, p) \<Longrightarrow> segment_words (set_sequence k (p\<lparr>pkt_size_bytes := z\<rparr>)) = (segment_words p)[1 := z, 2 := k]"
  by (cases "pkt_kind p") (auto simp: own_sequence_def segment_words_def set_sequence_def numeral_2_eq_2)

lemma rec_at_update:
  assumes "off + (i + 1) * 5 \<le> length mem" "off + (j + 1) * 5 \<le> length mem" "k < 5"
  shows "rec_at 5 off (mem[off + i * 5 + k := v]) j = (if j = i then (rec_at 5 off mem i)[k := v] else rec_at 5 off mem j)"
proof (rule nth_equalityI)
  fix l assume "l < length (rec_at 5 off (mem[off + i * 5 + k := v]) j)"
  then have l: "l < 5" using assms(2) by (simp add: length_rec_at)
  have "off + j * 5 + l = off + i * 5 + k \<longleftrightarrow> j = i \<and> l = k" using l assms(3) by presburger
  then show "rec_at 5 off (mem[off + i * 5 + k := v]) j ! l = (if j = i then (rec_at 5 off mem i)[k := v] else rec_at 5 off mem j) ! l"
    using l assms by (auto simp: rec_at_nth nth_list_update length_rec_at)
qed (use assms in \<open>simp add: length_rec_at\<close>)

lemma poke_slot:
  assumes f: "ring_fits offset capacity head mem" and i: "unat i < n" "n \<le> unat capacity" and k: "unat k < 5"
  obtains mem' where "poke (tcp_ledger_slot offset capacity head i + k) v mem = Some mem'"
    "same_outside (region (unat offset) (unat capacity)) mem mem'"
    "ring_window mem' (unat offset) (unat capacity) (unat head) n
      = (let w = ring_window mem (unat offset) (unat capacity) (unat head) n in w[unat i := (w ! unat i)[unat k := v]])"
proof -
  let ?o = "unat offset" and ?c = "unat capacity" and ?j = "(unat head + unat i) mod unat capacity"
  have ic: "unat i < ?c" using i by simp
  have hc: "unat head < ?c" using f by (simp add: ring_fits_def)
  note s = slot_end [OF f ic] and u = unat_slot [OF f ic]
  have a: "unat (tcp_ledger_slot offset capacity head i + k) = ?o + ?j * 5 + unat k"
    unfolding u [symmetric] using s u k f by (intro unat_add_exact) (simp add: ring_fits_def)
  let ?m = "mem[?o + ?j * 5 + unat k := v]"
  have jc: "?j < ?c" using ic by simp
  show thesis
  proof (rule that)
    show "poke (tcp_ledger_slot offset capacity head i + k) v mem = Some ?m"
      using a s k by (simp add: poke_def)
    show "same_outside (region ?o ?c) mem ?m"
      using rec_in_region [OF jc k, of ?o] unfolding same_outside_def by (metis length_list_update nth_list_update_neq)
    show "ring_window ?m ?o ?c (unat head) n
      = (let w = ring_window mem ?o ?c (unat head) n in w[unat i := (w ! unat i)[unat k := v]])"
      unfolding Let_def
    proof (rule nth_equalityI)
      fix l assume "l < length (ring_window ?m ?o ?c (unat head) n)"
      then have l: "l < n" by simp
      then have lc: "l < ?c" using i(2) by simp
      have "rec_at 5 ?o ?m ((unat head + l) mod ?c)
        = (if l = unat i then (rec_at 5 ?o mem ?j)[unat k := v] else rec_at 5 ?o mem ((unat head + l) mod ?c))"
        unfolding rec_at_update [OF s slot_end [OF f lc] k] ring_slots_distinct [OF hc lc ic] ..
      then show "ring_window ?m ?o ?c (unat head) n ! l = (ring_window mem ?o ?c (unat head) n)
          [unat i := (ring_window mem ?o ?c (unat head) n ! unat i)[unat k := v]] ! l"
        using l i(1) by (auto simp: nth_list_update)
    qed simp
  qed
qed

lemma ledger_cut_exact:
  assumes rel: "ring_rel meta offset capacity mem m" and r: "unat r = covered k m"
  obtains mem' where "ledger_cut offset capacity (mem ! (meta + 4)) (mem ! (meta + 2)) k r mem = Some (r, mem')"
    "same_outside (region (unat offset) (unat capacity)) mem mem'"
    "drop (unat r) (ring_window mem' (unat offset) (unat capacity) (unat (mem ! (meta + 4))) (length m))
      = map (segment_words \<circ> snd) (unacked_after k m)"
proof -
  let ?h = "mem ! (meta + 4)" and ?n = "mem ! (meta + 2)" and ?o = "unat offset" and ?c = "unat capacity"
  note n = ring_rel_count [OF rel]
  have x: "ring_window mem ?o ?c (unat ?h) (length m) = map (segment_words \<circ> snd) m" using rel n by (simp add: ring_rel_def)
  have nc: "length m \<le> ?c" using rel n by (simp add: ring_rel_def ledger_row_def)
  show thesis
  proof (cases "drop (unat r) m")
    case Nil
    then have "\<not> r < ?n" using n by (simp add: word_less_nat_alt)
    then show thesis
      using Nil x r by (intro that [of mem]) (simp_all add: ledger_cut_def unacked_after_covered drop_map)
  next
    case (Cons e m')
    obtain s p where e: "e = (s, p)" by (cases e)
    have i: "unat r < length m" using Cons by (metis drop_eq_Nil list.distinct(1) not_less)
    have sp: "m ! unat r = (s, p)" "drop (unat r + 1) m = m'"
      using Cons e i by (simp_all add: Cons_nth_drop_Suc [symmetric])
    note f = ring_entry [OF rel i]
    have w: "segment_words p ! 1 = pkt_size_bytes p" "segment_words p ! 2 = s"
      using segment_words_fields [of s p] f(5) sp by simp_all
    have big: "unat k < unat s + unat (pkt_size_bytes p)" using covered_first [of k m s p m'] Cons e r by simp
    have rn: "r < ?n" using i n by (simp add: word_less_nat_alt)
    note p2 = f(4) [of 2] and p1 = f(4) [of 1]
    show thesis
    proof (cases "s < k")
      case False
      have "ledger_cut offset capacity ?h ?n k r mem = Some (r, mem)"
        using rn p2 w sp False by (simp add: ledger_cut_def Let_def)
      then show thesis
        using False Cons e x r by (intro that [of mem]) (simp_all add: unacked_after_covered drop_map)
    next
      case True
      let ?z = "pkt_size_bytes p - (k - s)"
      have small: "k - s < pkt_size_bytes p"
        using True big by (simp add: word_less_nat_alt unat_sub_exact word_le_nat_alt)
      obtain mem1 where a1: "poke (tcp_ledger_slot offset capacity ?h r + 1) ?z mem = Some mem1"
        and o1: "same_outside (region ?o ?c) mem mem1"
        and x1: "ring_window mem1 ?o ?c (unat ?h) (length m)
          = (let w = map (segment_words \<circ> snd) m in w[unat r := (w ! unat r)[1 := ?z]])"
        using poke_slot [OF f(3) i nc, of 1 ?z] unfolding x by auto
      have f1: "ring_fits offset capacity ?h mem1" using ring_fits_cong [OF f(3)] o1 by (simp add: same_outside_def)
      obtain mem2 where a2: "poke (tcp_ledger_slot offset capacity ?h r + 2) k mem1 = Some mem2"
        and o2: "same_outside (region ?o ?c) mem1 mem2"
        and x2: "ring_window mem2 ?o ?c (unat ?h) (length m)
          = (let w = ring_window mem1 ?o ?c (unat ?h) (length m) in w[unat r := (w ! unat r)[2 := k]])"
        using poke_slot [OF f1 i nc, of 2 k] by auto
      have "ring_window mem2 ?o ?c (unat ?h) (length m)
        = (map (segment_words \<circ> snd) m)[unat r := segment_words (set_sequence k (p\<lparr>pkt_size_bytes := ?z\<rparr>))]"
        using x1 x2 i sp cut_words [of s p k ?z] f(5) by (simp add: Let_def del: ring_window_nth)
      then have "drop (unat r) (ring_window mem2 ?o ?c (unat ?h) (length m)) = map (segment_words \<circ> snd) (unacked_after k m)"
        using Cons e r True i by (simp add: unacked_after_covered drop_update_swap drop_map)
      moreover have "ledger_cut offset capacity ?h ?n k r mem = Some (r, mem2)"
        using rn p2 p1 w sp True small a1 a2 by (simp add: ledger_cut_def Let_def)
      ultimately show thesis using that same_outside_trans [OF o1 o2] by blast
    qed
  qed
qed

lemma advance_head:
  assumes "ledger_row meta offset capacity n head mem" "unat r \<le> unat n"
    and "width = (if capacity = 0 then 1 else capacity)" "hd' = (if head + r \<ge> width then head + r - width else head + r)"
  shows "unat hd' = (if capacity = 0 then 0 else (unat head + unat r) mod unat capacity)"
    "unat hd' < unat capacity \<or> capacity = 0 \<and> hd' = 0"
proof -
  show h: "unat hd' = (if capacity = 0 then 0 else (unat head + unat r) mod unat capacity)"
  proof (cases "capacity = 0")
    case True
    then have "head = 0" "r = 0" using assms(1,2) by (auto simp: ledger_row_def word_unat_eq_iff)
    then show ?thesis using True assms(3,4) by simp
  next
    case False
    then have b: "unat head < unat capacity" "unat r \<le> unat capacity" "unat capacity * 5 < 2 ^ 64"
      using assms(1,2) by (auto simp: ledger_row_def)
    then have "unat (head + r) = unat head + unat r" by (intro unat_add_exact) simp
    then show ?thesis
      using False assms(3,4) b by (simp add: mod_wrap word_le_nat_alt unat_sub_exact)
  qed
  show "unat hd' < unat capacity \<or> capacity = 0 \<and> hd' = 0"
    using h by (cases "capacity = 0") (simp_all add: word_unat_eq_iff)
qed

lemma ring_acknowledge_exact:
  assumes rel: "ring_rel meta offset capacity mem m" and w: "unat (ledger_meta ledger_base flow) = meta"
    and t: "tiles a b m" "b < 2 ^ 64" and k: "a \<le> unat k" "unat k \<le> b"
  shows "\<exists>mem'. tcp_ledger_acknowledge ledger_base flow k mem = Some (Inr mem')
    \<and> ring_rel meta offset capacity mem' (unacked_after k m)
    \<and> same_outside (own_words meta offset capacity) mem mem'"
proof -
  let ?h = "mem ! (meta + 4)" and ?n = "mem ! (meta + 2)" and ?o = "unat offset" and ?c = "unat capacity"
  let ?w = "ledger_meta ledger_base flow"
  note n = ring_rel_count [OF rel]
  have row: "ledger_row meta offset capacity ?n ?h mem" using rel by (simp add: ring_rel_def)
  obtain r where loop: "acknowledge_loop offset capacity ?h ?n k mem 0 = Some (Inr r)" and r: "unat r = covered k m"
    using acknowledge_loop_exact [OF rel t, of 0 k] by auto
  obtain mem1 where cut: "ledger_cut offset capacity ?h ?n k r mem = Some (r, mem1)"
    and o1: "same_outside (region ?o ?c) mem mem1"
    and x1: "drop (unat r) (ring_window mem1 ?o ?c (unat ?h) (length m)) = map (segment_words \<circ> snd) (unacked_after k m)"
    by (rule ledger_cut_exact [OF rel r])
  define width where "width = (if capacity = 0 then 1 else capacity)"
  define hd' where "hd' = (if ?h + r \<ge> width then ?h + r - width else ?h + r)"
  have rn: "unat r \<le> unat ?n" using r n covered_le [of k m] by simp
  have nr: "unat (?n - r) = unat ?n - unat r" using rn by (intro unat_sub_exact) (simp add: word_le_nat_alt)
  note hd = advance_head [OF row rn width_def hd'_def]
  note row1 = row_after_ring(1) [OF row o1]
  let ?mem2 = "mem1[meta + 4 := hd']" and ?mem3 = "mem1[meta + 4 := hd', meta + 2 := ?n - r]"
  note p2 = poke_row [OF row1 peek_row(7) [OF row1 w], of hd']
  have row2: "ledger_row meta offset capacity ?n hd' ?mem2" using row1 hd(2) by (simp add: ledger_row_def)
  note p3 = poke_row [OF row2 peek_row(6) [OF row2 w], of "?n - r"]
  have row3: "ledger_row meta offset capacity (?n - r) hd' ?mem3" using row2 le_trans [OF eq_refl [OF nr] diff_le_self] by (auto simp: ledger_row_def)
  have o3: "same_outside {meta..<meta + 6} mem1 ?mem3" using same_outside_trans [OF p2(2) p3(2)] by simp
  have x3: "ring_window ?mem3 ?o ?c (unat hd') (unat (?n - r)) = map (segment_words \<circ> snd) (unacked_after k m)"
  proof (cases "capacity = 0")
    case True
    then have "m = []" using rel ring_rel_empty by blast
    then show ?thesis using n nr by (simp add: ring_window_def)
  next
    case False
    have d: "region ?o ?c \<inter> {meta..<meta + 6} = {}" "?o + ?c * 5 \<le> length mem1" "0 < ?c"
      using row1 False by (auto simp: ledger_row_def word_unat_eq_iff)
    have "ring_window ?mem3 ?o ?c (unat hd') (unat (?n - r)) = ring_window mem1 ?o ?c ((unat ?h + unat r) mod ?c) (length m - unat r)"
      using window_cong [OF o3 d(1,3,2)] hd(1) nr n False by simp
    then show ?thesis using window_advance [of "unat r" "length m" ?c] rn n d(3) x1 by simp
  qed
  have m': "tiles (unat k) b (unacked_after k m)" by (rule tiles_unacked_after [OF t(1) k])
  have "?mem3 ! (meta + 2) = ?n - r" "?mem3 ! (meta + 4) = hd'" using row3 by (auto simp: ledger_row_def)
  then have "ring_rel meta offset capacity ?mem3 (unacked_after k m)"
    using row3 x3 tiles_wf [OF m'] tiles_own [OF m'] unfolding ring_rel_def by metis
  moreover have "tcp_ledger_acknowledge ledger_base flow k mem = Some (Inr ?mem3)"
    using peek_row(1-4) [OF row w] loop cut p2(1) p3(1) unfolding hd'_def width_def
    by (simp add: tcp_ledger_acknowledge_def Let_def split del: if_split)
  moreover have "same_outside (own_words meta offset capacity) mem ?mem3"
    by (rule same_outside_trans [OF same_outside_mono [OF o1] same_outside_mono [OF o3]]) (auto simp: own_words_def)
  ultimately show ?thesis by blast
qed

subsection \<open>The ledgers of all flows\<close>

definition ledger_row_of :: "u64 \<Rightarrow> u64 \<Rightarrow> nat" where
  "ledger_row_of ledger_base flow = unat ledger_base + unat flow * 6"

text \<open>The rows of the flows lie one after another; the rings lie apart from the rows and from each other.\<close>

definition ledger_layout :: "u64 \<Rightarrow> nat \<Rightarrow> (nat \<Rightarrow> u64) \<Rightarrow> (nat \<Rightarrow> u64) \<Rightarrow> nat \<Rightarrow> bool" where
  "ledger_layout ledger_base flows off cap len \<longleftrightarrow>
     unat ledger_base + flows * 6 \<le> len \<and> len < 2 ^ 64
     \<and> (\<forall>f < flows. region (unat (off f)) (unat (cap f)) \<inter> {unat ledger_base..<unat ledger_base + flows * 6} = {}
        \<and> (\<forall>g < flows. f \<noteq> g \<longrightarrow> region (unat (off f)) (unat (cap f)) \<inter> region (unat (off g)) (unat (cap g)) = {}))"

definition ledgers_rel :: "u64 \<Rightarrow> nat \<Rightarrow> (nat \<Rightarrow> u64) \<Rightarrow> (nat \<Rightarrow> u64) \<Rightarrow> words \<Rightarrow> tcp_segment_ledger \<Rightarrow> bool" where
  "ledgers_rel ledger_base flows off cap mem L \<longleftrightarrow> om_wf L \<and> ledger_layout ledger_base flows off cap (length mem)
     \<and> (\<forall>f. unat f < flows \<longrightarrow>
          ring_rel (ledger_row_of ledger_base f) (off (unat f)) (cap (unat f)) mem (segments_of L f))"

lemma unat_ledger_meta:
  assumes "ledger_layout ledger_base flows off cap len" "unat flow < flows"
  shows "unat (ledger_meta ledger_base flow) = ledger_row_of ledger_base flow"
proof -
  have "unat ledger_base + flows * 6 < 2 ^ 64" using assms(1) by (simp add: ledger_layout_def)
  then have b: "unat ledger_base + unat flow * 6 < 2 ^ 64" using assms(2) by linarith
  then have "unat (flow * 6) = unat flow * 6" using unat_mult_exact [of flow 6] by simp
  then show ?thesis using b unat_add_exact [of ledger_base "flow * 6"] by (simp add: ledger_meta_def ledger_row_of_def)
qed

lemma ring_rel_cong:
  assumes rel: "ring_rel meta offset capacity mem m" and o: "same_outside s mem mem'"
    and d: "{meta..<meta + 6} \<inter> s = {}" "region (unat offset) (unat capacity) \<inter> s = {}"
  shows "ring_rel meta offset capacity mem' m"
proof -
  have b: "meta + 6 \<le> length mem" using rel by (simp add: ring_rel_def ledger_row_def)
  have same: "mem' ! (meta + k) = mem ! (meta + k)" if "k < 6" for k
  proof -
    have "meta + k \<in> {meta..<meta + 6}" using that by simp
    then have "meta + k \<notin> s" using d(1) by blast
    then show ?thesis using o b that by (simp add: same_outside_def)
  qed
  have l: "length mem' = length mem" using o by (simp add: same_outside_def)
  have e: "mem' ! meta = mem ! meta" "mem' ! (meta + 1) = mem ! (meta + 1)" "mem' ! (meta + 2) = mem ! (meta + 2)" "mem' ! (meta + 4) = mem ! (meta + 4)"
    using same [of 0] same [of 1] same [of 2] same [of 4] by simp_all
  have row: "ledger_row meta offset capacity (mem' ! (meta + 2)) (mem' ! (meta + 4)) mem'"
    using rel unfolding ring_rel_def ledger_row_def l e by blast
  have x: "ring_window mem' (unat offset) (unat capacity) (unat (mem ! (meta + 4))) (unat (mem ! (meta + 2)))
    = ring_window mem (unat offset) (unat capacity) (unat (mem ! (meta + 4))) (unat (mem ! (meta + 2)))"
  proof (cases "capacity = 0")
    case True
    then have "unat (mem ! (meta + 2)) = 0" using rel by (simp add: ring_rel_def ledger_row_def)
    then show ?thesis by (simp add: ring_window_def)
  next
    case False
    then have c: "0 < unat capacity" by (simp add: word_unat_eq_iff)
    have "unat offset + unat capacity * 5 \<le> length mem" using rel by (simp add: ring_rel_def ledger_row_def)
    then show ?thesis using window_cong [OF o d(2) c] by simp
  qed
  show ?thesis using rel row x e by (simp add: ring_rel_def)
qed

lemma own_words_apart:
  assumes "ledger_layout ledger_base flows off cap len" "unat f < flows" "unat g < flows" "f \<noteq> g"
  shows "{ledger_row_of ledger_base g..<ledger_row_of ledger_base g + 6} \<inter> own_words (ledger_row_of ledger_base f) (off (unat f)) (cap (unat f)) = {}"
    "region (unat (off (unat g))) (unat (cap (unat g))) \<inter> own_words (ledger_row_of ledger_base f) (off (unat f)) (cap (unat f)) = {}"
proof -
  let ?rows = "{unat ledger_base..<unat ledger_base + flows * 6}"
  have ne: "unat f \<noteq> unat g" using assms(4) by (simp add: word_unat_eq_iff)
  have row: "{ledger_row_of ledger_base x..<ledger_row_of ledger_base x + 6} \<subseteq> ?rows" if "unat x < flows" for x
    using that by (auto simp: ledger_row_of_def)
  have apart: "{ledger_row_of ledger_base g..<ledger_row_of ledger_base g + 6} \<inter> {ledger_row_of ledger_base f..<ledger_row_of ledger_base f + 6} = {}"
    using ne by (auto simp: ledger_row_of_def)
  have r: "region (unat (off (unat x))) (unat (cap (unat x))) \<inter> ?rows = {}" if "unat x < flows" for x
    using assms(1) that by (simp add: ledger_layout_def)
  have rr: "region (unat (off (unat g))) (unat (cap (unat g))) \<inter> region (unat (off (unat f))) (unat (cap (unat f))) = {}"
    using assms ne by (simp add: ledger_layout_def)
  show "{ledger_row_of ledger_base g..<ledger_row_of ledger_base g + 6} \<inter> own_words (ledger_row_of ledger_base f) (off (unat f)) (cap (unat f)) = {}"
    using row [OF assms(3)] r [OF assms(2)] apart unfolding own_words_def by blast
  show "region (unat (off (unat g))) (unat (cap (unat g))) \<inter> own_words (ledger_row_of ledger_base f) (off (unat f)) (cap (unat f)) = {}"
    using row [OF assms(2)] r [OF assms(3)] rr unfolding own_words_def by blast
qed

lemma ledgers_rel_update:
  assumes rel: "ledgers_rel ledger_base flows off cap mem L" and f: "unat f < flows"
    and o: "same_outside (own_words (ledger_row_of ledger_base f) (off (unat f)) (cap (unat f))) mem mem'"
    and r: "ring_rel (ledger_row_of ledger_base f) (off (unat f)) (cap (unat f)) mem' (segments_of L' f)"
    and L': "om_wf L'" "\<And>g. g \<noteq> f \<Longrightarrow> segments_of L' g = segments_of L g"
  shows "ledgers_rel ledger_base flows off cap mem' L'"
proof -
  have lay: "ledger_layout ledger_base flows off cap (length mem)" using rel by (simp add: ledgers_rel_def)
  have l: "length mem' = length mem" using o by (simp add: same_outside_def)
  have "ring_rel (ledger_row_of ledger_base g) (off (unat g)) (cap (unat g)) mem' (segments_of L' g)" if g: "unat g < flows" for g
  proof (cases "g = f")
    case True
    then show ?thesis using r by simp
  next
    case False
    have "ring_rel (ledger_row_of ledger_base g) (off (unat g)) (cap (unat g)) mem (segments_of L g)"
      using rel g by (simp add: ledgers_rel_def)
    from ring_rel_cong [OF this o own_words_apart [OF lay f g False [symmetric]]]
    show ?thesis using L'(2) [OF False] by simp
  qed
  then show ?thesis using L'(1) lay l by (simp add: ledgers_rel_def)
qed

lemma acknowledge_segments_exact:
  assumes "om_wf L" "tiles a b (segments_of L f)" "a \<le> unat k" "unat k \<le> b"
  obtains L' where "acknowledge_segments f k L = Inr L'" "om_wf L'" "segments_of L' f = unacked_after k (segments_of L f)"
    "\<And>g. g \<noteq> f \<Longrightarrow> segments_of L' g = segments_of L g"
proof (cases "om_get L f")
  case None
  then show thesis using assms(1) by (intro that [of L]) (simp_all add: acknowledge_segments_def segments_of_def)
next
  case (Some m)
  then have m: "segments_of L f = m" by (simp add: segments_of_def)
  let ?m = "unacked_after k m"
  have "acknowledge_flow f k m = Inr ?m" using acknowledge_flow_exact [OF assms(2-4)] m by simp
  then have "acknowledge_segments f k L = Inr (if ?m = [] then om_remove f L else om_insert f ?m L)"
    using Some by (simp add: acknowledge_segments_def)
  then show thesis
    using assms(1) m by (intro that [of "if ?m = [] then om_remove f L else om_insert f ?m L"]) (simp_all add: segments_of_insert segments_of_remove om_wf_insert om_wf_remove)
qed

text \<open>
  C14. The rings of the device implement the host's ledger.  In a memory that holds the ledger of a
  sender's run, inserting a segment reports a conflict exactly when the host does, reports a full
  ring exactly when a new segment finds no room, and otherwise leaves a memory that holds the host's
  new ledger; acknowledging a byte sent never fails and leaves the host's ledger after the same
  acknowledgment; finding a segment returns the address of its words exactly when the host has it.
  Every address stays inside the memory, and the ledgers of the other flows are untouched.
\<close>

theorem device_ledger_refines:
  assumes "ledgers_rel ledger_base flows off cap mem L" and "unat flow < flows"
    and "ledger_run flow a b L" "b < 2 ^ 64" "a \<le> unat k" "unat k \<le> b"
    and "pkt_flow p = flow" "pkt_kind p = TcpData h"
  shows "(case seed_segment p L of
        Inl _ \<Rightarrow> tcp_ledger_insert ledger_base flow (event_record e p) mem = Some (Inl (SemanticFault 40 kernel_none))
      | Inr L' \<Rightarrow>
          if om_get (segments_of L flow) (tdh_sequence h) = None \<and> unat (cap (unat flow)) \<le> length (segments_of L flow)
          then tcp_ledger_insert ledger_base flow (event_record e p) mem
            = Some (Inl (CapacityFault 12 flow (cap (unat flow)) (of_nat (length (segments_of L flow)) + 1)))
          else (\<exists>mem'. tcp_ledger_insert ledger_base flow (event_record e p) mem = Some (Inr mem')
            \<and> ledgers_rel ledger_base flows off cap mem' L'))
    \<and> (\<exists>L' mem'. acknowledge_segments flow k L = Inr L' \<and> tcp_ledger_acknowledge ledger_base flow k mem = Some (Inr mem')
        \<and> ledgers_rel ledger_base flows off cap mem' L')
    \<and> (case om_get (segments_of L flow) s of
        None \<Rightarrow> tcp_ledger_find ledger_base flow s mem = Some None
      | Some q \<Rightarrow> (\<exists>addr. tcp_ledger_find ledger_base flow s mem = Some (Some addr)
          \<and> sub_slice (unat addr) (unat addr + 5) mem = Some (segment_words q)))"
proof (intro conjI)
  have L: "om_wf L" and t: "tiles a b (segments_of L flow)" using ledger_run_tiles [OF assms(3)] by simp_all
  have rel: "ring_rel (ledger_row_of ledger_base flow) (off (unat flow)) (cap (unat flow)) mem (segments_of L flow)"
    and w: "unat (ledger_meta ledger_base flow) = ledger_row_of ledger_base flow"
    using assms(1,2) unat_ledger_meta by (auto simp: ledgers_rel_def)
  note update = ledgers_rel_update [OF assms(1,2)]
  show "case seed_segment p L of
        Inl _ \<Rightarrow> tcp_ledger_insert ledger_base flow (event_record e p) mem = Some (Inl (SemanticFault 40 kernel_none))
      | Inr L' \<Rightarrow>
          if om_get (segments_of L flow) (tdh_sequence h) = None \<and> unat (cap (unat flow)) \<le> length (segments_of L flow)
          then tcp_ledger_insert ledger_base flow (event_record e p) mem
            = Some (Inl (CapacityFault 12 flow (cap (unat flow)) (of_nat (length (segments_of L flow)) + 1)))
          else (\<exists>mem'. tcp_ledger_insert ledger_base flow (event_record e p) mem = Some (Inr mem')
            \<and> ledgers_rel ledger_base flows off cap mem' L')"
  proof -
    let ?m = "om_insert (tdh_sequence h) p (segments_of L flow)"
    have "ledgers_rel ledger_base flows off cap mem' (om_insert flow ?m L)"
      if "ring_rel (ledger_row_of ledger_base flow) (off (unat flow)) (cap (unat flow)) mem' ?m"
        "same_outside (own_words (ledger_row_of ledger_base flow) (off (unat flow)) (cap (unat flow))) mem mem'" for mem'
      using update [OF that(2)] that(1) L by (simp add: segments_of_insert om_wf_insert)
    then show ?thesis
      using ring_insert_exact [OF rel w assms(8), of e]
      unfolding seed_segment_eq [OF assms(8)] assms(7) by (auto split: option.splits if_splits)
  qed
  show "\<exists>L' mem'. acknowledge_segments flow k L = Inr L' \<and> tcp_ledger_acknowledge ledger_base flow k mem = Some (Inr mem')
        \<and> ledgers_rel ledger_base flows off cap mem' L'"
  proof -
    obtain L' where L': "acknowledge_segments flow k L = Inr L'" "om_wf L'" "segments_of L' flow = unacked_after k (segments_of L flow)"
      "\<And>g. g \<noteq> flow \<Longrightarrow> segments_of L' g = segments_of L g"
      by (rule acknowledge_segments_exact [OF L t assms(5,6)]) blast
    show ?thesis
      using ring_acknowledge_exact [OF rel w t assms(4,5,6)] update [OF _ _ L'(2,4)] L'(1) unfolding L'(3) by blast
  qed
  show "case om_get (segments_of L flow) s of
        None \<Rightarrow> tcp_ledger_find ledger_base flow s mem = Some None
      | Some q \<Rightarrow> (\<exists>addr. tcp_ledger_find ledger_base flow s mem = Some (Some addr)
          \<and> sub_slice (unat addr) (unat addr + 5) mem = Some (segment_words q))"
    by (rule ring_find_exact [OF rel w])
qed

text \<open>One flow with a ring of two records that wraps around: its first segment lies in the second slot.\<close>

definition sample_outstanding :: "u64 \<Rightarrow> u64 \<Rightarrow> packet_descriptor" where
  "sample_outstanding sequence bytes =
     \<lparr>pkt_id = sequence, pkt_flow = 0, pkt_size_bytes = bytes, pkt_ecn_marked = False,
      pkt_kind = TcpData \<lparr>tdh_sequence = sequence, tdh_sent_time_ns = 0, tdh_retransmission = False\<rparr>\<rparr>"

definition sample_memory :: words where
  "sample_memory = [6, 2, 2, 0, 1, 2] @ segment_words (sample_outstanding 1000 500) @ segment_words (sample_outstanding 0 1000)"

theorem device_ledger_refines_witness:
  "\<exists>L L' mem'. ledger_run 0 0 1500 L \<and> ledgers_rel 0 1 (\<lambda>_. 6) (\<lambda>_. 2) sample_memory L
    \<and> acknowledge_segments 0 400 L = Inr L' \<and> tcp_ledger_acknowledge 0 0 400 sample_memory = Some (Inr mem')
    \<and> ledgers_rel 0 1 (\<lambda>_. 6) (\<lambda>_. 2) mem' L'"
proof -
  let ?p = "sample_outstanding 0 1000" and ?q = "sample_outstanding 1000 500"
  let ?L = "[(0, [(0, ?p), (1000, ?q)])]"
  let ?h = "\<lambda>s. \<lparr>tdh_sequence = s, tdh_sent_time_ns = 0, tdh_retransmission = False\<rparr>"
  have "ledger_run 0 0 (0 + unat (pkt_size_bytes ?p)) [(0, [(0, ?p)])]"
    by (rule ledger_run.send [OF ledger_run.start, where h = "?h 0"])
      (simp_all add: sample_outstanding_def seed_segment_def om_get_def)
  then have "ledger_run 0 0 (0 + unat (pkt_size_bytes ?p) + unat (pkt_size_bytes ?q)) ?L"
    by (rule ledger_run.send [where h = "?h 1000"]) (simp_all add: sample_outstanding_def seed_segment_def om_get_def)
  then have run: "ledger_run 0 0 1500 ?L" by (simp add: sample_outstanding_def)
  have len: "length sample_memory = 16" by (simp add: sample_memory_def)
  have row: "ledger_row 0 6 2 2 1 sample_memory"
    unfolding ledger_row_def len by (simp add: sample_memory_def region_def nth_append)
  have win: "ring_window sample_memory 6 2 1 2 = [segment_words ?p, segment_words ?q]"
    by (simp add: ring_window_def rec_at_def sample_memory_def upt_rec)
  have seg: "segments_of ?L 0 = [(0, ?p), (1000, ?q)]" by (simp add: segments_of_def om_get_def)
  have at: "sample_memory ! (0 + 2) = 2" "sample_memory ! (0 + 4) = 1" using row by (simp_all add: ledger_row_def)
  have "ring_rel 0 6 2 sample_memory (segments_of ?L 0)"
    unfolding ring_rel_def seg at using row win by (simp add: own_sequence_def sample_outstanding_def)
  then have rel: "ledgers_rel 0 1 (\<lambda>_. 6) (\<lambda>_. 2) sample_memory ?L"
    unfolding ledgers_rel_def ledger_layout_def len by (auto simp: ledger_row_of_def region_def unat_0_iff)
  have "unat (0 :: u64) < 1" "(1500 :: nat) < 2 ^ 64" "(0 :: nat) \<le> unat (400 :: u64)" "unat (400 :: u64) \<le> 1500"
    "pkt_flow ?p = 0" "pkt_kind ?p = TcpData (?h 0)"
    by (simp_all add: sample_outstanding_def)
  from conjunct1 [OF conjunct2 [OF device_ledger_refines [OF rel this(1) run this(2-6)]]] run rel show ?thesis by blast
qed

end
