(* ===== verification/Device_Receive.thy ===== *)
theory Device_Receive
  imports Device_Ledger Tcp_Receive
begin

section \<open>The TCP receiver on a device\<close>

text \<open>
  \<open>tcp_receive_range\<close> of \<open>executor/src/cuda_kernels.cu\<close>: a kernel keeps the next expected byte and the
  out-of-order ranges of a flow in \<open>tcp_state\<close>, and sorts, merges and absorbs them in place, in three
  loops over the same words.  The proofs show that it computes the function of the host's receiver
  (\<open>scalar.rs\<close>) and writes no word but the flow's own.
\<close>

text \<open>Two words per range: its first byte and the byte after its last.\<close>

definition get_range :: "u64 \<Rightarrow> u64 \<Rightarrow> words \<Rightarrow> (u64 \<times> u64) option" where
  "get_range offset i mem =
     Option.bind (peek mem (offset + i * 2)) (\<lambda>s. map_option (Pair s) (peek mem (offset + i * 2 + 1)))"

definition put_range :: "u64 \<Rightarrow> u64 \<Rightarrow> u64 \<Rightarrow> u64 \<Rightarrow> words \<Rightarrow> words option" where
  "put_range offset i s e mem = Option.bind (poke (offset + i * 2) s mem) (poke (offset + i * 2 + 1) e)"

function insertion_loop :: "u64 \<Rightarrow> u64 \<Rightarrow> u64 \<Rightarrow> u64 \<Rightarrow> words \<Rightarrow> (u64 \<times> words) option" where
  "insertion_loop offset start fin insertion mem =
     (if insertion \<noteq> 0 then
        let previous = insertion - 1 in
        Option.bind (get_range offset previous mem) (\<lambda>(previous_start, previous_end).
        if previous_start < start \<or> previous_start = start \<and> previous_end \<le> fin then Some (insertion, mem)
        else
          Option.bind (put_range offset insertion previous_start previous_end mem)
            (insertion_loop offset start fin previous))
      else Some (insertion, mem))"
  by pat_completeness auto
termination
  by (relation "measure (\<lambda>(offset, start, fin, insertion, mem). unat insertion)")
    (auto simp: unat_minus_one unat_gt_0)

declare insertion_loop.simps [simp del]

lemma next_index_less: "i < (n :: u64) \<Longrightarrow> unat n - unat (i + 1) < unat n - unat i"
  using unat_lt [of n] by (simp add: word_less_nat_alt unat_Suc_exact)

function merge_loop :: "u64 \<Rightarrow> u64 \<Rightarrow> u64 \<Rightarrow> u64 \<Rightarrow> words \<Rightarrow> (u64 \<times> words) option" where
  "merge_loop offset n index merged mem =
     (if index < n then
        Option.bind (get_range offset index mem) (\<lambda>(range_start, range_end).
        Option.bind (if merged \<noteq> 0 then map_option Some (peek mem (offset + (merged - 1) * 2 + 1)) else Some None) (\<lambda>last_end.
        case last_end of
          Some e \<Rightarrow>
            if range_start \<le> e
            then Option.bind (poke (offset + (merged - 1) * 2 + 1) (max e range_end) mem)
              (merge_loop offset n (index + 1) merged)
            else Option.bind (put_range offset merged range_start range_end mem)
              (merge_loop offset n (index + 1) (merged + 1))
        | None \<Rightarrow>
            Option.bind (put_range offset merged range_start range_end mem)
              (merge_loop offset n (index + 1) (merged + 1))))
      else Some (merged, mem))"
  by pat_completeness auto
termination
  by (relation "measure (\<lambda>(offset, n, index, merged, mem). unat n - unat index)") (auto simp: next_index_less)

declare merge_loop.simps [simp del]

text \<open>The last loop absorbs ranges into the frontier; \<open>frontier\<close> is the source's \<open>next\<close>.\<close>

function keep_loop :: "u64 \<Rightarrow> u64 \<Rightarrow> u64 \<Rightarrow> u64 \<Rightarrow> u64 \<Rightarrow> words \<Rightarrow> (u64 \<times> u64 \<times> words) option" where
  "keep_loop offset merged index kept frontier mem =
     (if index < merged then
        Option.bind (get_range offset index mem) (\<lambda>(range_start, range_end).
        if range_start \<le> frontier
        then keep_loop offset merged (index + 1) kept (max frontier range_end) mem
        else Option.bind (put_range offset kept range_start range_end mem)
          (keep_loop offset merged (index + 1) (kept + 1) frontier))
      else Some (kept, frontier, mem))"
  by pat_completeness auto
termination
  by (relation "measure (\<lambda>(offset, merged, index, kept, frontier, mem). unat merged - unat index)") (auto simp: next_index_less)

declare keep_loop.simps [simp del]

text \<open>\<open>receiver_base\<close> is the parameter \<open>P_TCP_RECEIVER_OFFSET\<close>.\<close>

definition tcp_receive_range_device :: "u64 \<Rightarrow> u64 \<Rightarrow> u64 \<Rightarrow> u64 \<Rightarrow> words \<Rightarrow> (kernel_error + words) option" where
  "tcp_receive_range_device receiver_base flow start fin mem =
     (let row = receiver_base + flow * 7 in
      Option.bind (peek mem (row + 3)) (\<lambda>frontier.
      if fin \<le> start \<or> fin \<le> frontier then Some (Inr mem)
      else
        Option.bind (peek mem (row + 4)) (\<lambda>offset.
        Option.bind (peek mem (row + 5)) (\<lambda>capacity.
        Option.bind (peek mem (row + 6)) (\<lambda>n.
        if n \<ge> capacity then Some (Inl (CapacityFault 11 flow capacity (n + 1)))
        else
          Option.bind (insertion_loop offset start fin n mem) (\<lambda>(insertion, mem).
          Option.bind (put_range offset insertion start fin mem) (\<lambda>mem.
          Option.bind (merge_loop offset (n + 1) 0 0 mem) (\<lambda>(merged, mem).
          Option.bind (keep_loop offset merged 0 0 frontier mem) (\<lambda>(kept, frontier, mem).
          Option.bind (poke (row + 3) frontier mem) (\<lambda>mem.
          map_option Inr (poke (row + 6) kept mem)))))))))))"

subsection \<open>Ranges in memory\<close>

definition range_window :: "words \<Rightarrow> nat \<Rightarrow> nat \<Rightarrow> tcp_receive_range list" where
  "range_window mem off n = map (\<lambda>i. \<lparr>rr_start = mem ! (off + 2 * i), rr_end = mem ! (off + 2 * i + 1)\<rparr>) [0..<n]"

definition range_region :: "nat \<Rightarrow> nat \<Rightarrow> nat set" where
  "range_region off n = {off..<off + n * 2}"

definition ranges_fit :: "u64 \<Rightarrow> u64 \<Rightarrow> words \<Rightarrow> bool" where
  "ranges_fit offset capacity mem \<longleftrightarrow> unat offset + unat capacity * 2 \<le> length mem \<and> length mem < 2 ^ 64"

lemma length_range_window [simp]: "length (range_window mem off n) = n"
  by (simp add: range_window_def)

lemma range_window_nth:
  "i < n \<Longrightarrow> range_window mem off n ! i = \<lparr>rr_start = mem ! (off + 2 * i), rr_end = mem ! (off + 2 * i + 1)\<rparr>"
  by (simp add: range_window_def)

lemma take_range_window: "k \<le> n \<Longrightarrow> take k (range_window mem off n) = range_window mem off k"
  by (simp add: range_window_def take_map)

lemma ranges_fit_cong: "ranges_fit offset capacity mem \<Longrightarrow> same_outside s mem mem' \<Longrightarrow> ranges_fit offset capacity mem'"
  by (simp add: ranges_fit_def same_outside_def)

lemma range_address:
  assumes "ranges_fit offset capacity mem" "unat i < unat capacity"
  shows "unat (offset + i * 2) = unat offset + 2 * unat i" "unat (offset + i * 2 + 1) = unat offset + 2 * unat i + 1"
    "unat offset + 2 * unat i + 1 < length mem"
proof -
  have b: "unat offset + unat i * 2 + 1 < length mem" "length mem < 2 ^ 64" using assms by (auto simp: ranges_fit_def)
  have "unat (i * 2) = unat i * 2" using unat_mult_exact [of i 2] b by simp
  then show a: "unat (offset + i * 2) = unat offset + 2 * unat i" using b unat_add_exact [of offset "i * 2"] by simp
  show "unat (offset + i * 2 + 1) = unat offset + 2 * unat i + 1" using a b by (subst unat_Suc_exact) simp_all
  show "unat offset + 2 * unat i + 1 < length mem" using b by simp
qed

lemma get_range_at:
  assumes "ranges_fit offset capacity mem" "unat i < unat capacity"
  shows "get_range offset i mem = Some (rr_start (range_window mem (unat offset) (unat capacity) ! unat i),
      rr_end (range_window mem (unat offset) (unat capacity) ! unat i))"
    "peek mem (offset + i * 2 + 1) = Some (rr_end (range_window mem (unat offset) (unat capacity) ! unat i))"
  using range_address [OF assms] assms(2) by (simp_all add: get_range_def peek_def range_window_nth)

lemma range_window_update:
  assumes "off + n * 2 \<le> length mem" "i < n"
  shows "range_window (mem[off + 2 * i := v]) off n = (range_window mem off n)[i := (range_window mem off n ! i)\<lparr>rr_start := v\<rparr>]"
    "range_window (mem[off + 2 * i + 1 := v]) off n = (range_window mem off n)[i := (range_window mem off n ! i)\<lparr>rr_end := v\<rparr>]"
proof -
  have "2 * i + 1 \<noteq> 2 * j" "2 * j + 1 \<noteq> 2 * i" for j by presburger+
  then show "range_window (mem[off + 2 * i := v]) off n = (range_window mem off n)[i := (range_window mem off n ! i)\<lparr>rr_start := v\<rparr>]"
    "range_window (mem[off + 2 * i + 1 := v]) off n = (range_window mem off n)[i := (range_window mem off n ! i)\<lparr>rr_end := v\<rparr>]"
    using assms by (intro nth_equalityI; force simp: range_window_nth nth_list_update)+
qed

lemma same_outside_range:
  assumes "i < n" "k < 2"
  shows "same_outside (range_region off n) mem (mem[off + 2 * i + k := v])"
proof -
  have "off + 2 * i + k \<in> range_region off n" using assms by (auto simp: range_region_def)
  then show ?thesis unfolding same_outside_def by (metis length_list_update nth_list_update_neq)
qed

lemma both_fields: "(r :: tcp_receive_range)\<lparr>rr_start := s, rr_end := e\<rparr> = \<lparr>rr_start = s, rr_end = e\<rparr>"
  by (cases r) simp

lemma own_fields: "\<lparr>rr_start = rr_start r, rr_end = rr_end r\<rparr> = (r :: tcp_receive_range)"
  by (cases r) simp

lemma put_range_at:
  assumes "ranges_fit offset capacity mem" "unat i < unat capacity"
  obtains mem' where "put_range offset i s e mem = Some mem'" "ranges_fit offset capacity mem'"
    "same_outside (range_region (unat offset) (unat capacity)) mem mem'"
    "range_window mem' (unat offset) (unat capacity)
      = (range_window mem (unat offset) (unat capacity))[unat i := \<lparr>rr_start = s, rr_end = e\<rparr>]"
proof -
  let ?o = "unat offset" and ?n = "unat capacity"
  let ?m = "mem[?o + 2 * unat i := s, ?o + 2 * unat i + 1 := e]"
  note a = range_address [OF assms]
  have l: "?o + ?n * 2 \<le> length mem" using assms(1) by (simp add: ranges_fit_def)
  have "put_range offset i s e mem = Some ?m" using a by (simp add: put_range_def poke_def)
  moreover have o: "same_outside (range_region ?o ?n) mem ?m"
  proof (rule same_outside_trans)
    show "same_outside (range_region ?o ?n) mem (mem[?o + 2 * unat i := s])"
      using same_outside_range [OF assms(2), of 0 ?o mem s] by simp
    show "same_outside (range_region ?o ?n) (mem[?o + 2 * unat i := s]) ?m"
      by (rule same_outside_range [OF assms(2)]) simp
  qed
  moreover have "range_window ?m ?o ?n = (range_window mem ?o ?n)[unat i := \<lparr>rr_start = s, rr_end = e\<rparr>]"
    using range_window_update(2) [of ?o ?n "mem[?o + 2 * unat i := s]" "unat i" e] range_window_update(1) [OF l assms(2), of s] l assms(2)
    by (simp add: both_fields)
  ultimately show thesis using that ranges_fit_cong [OF assms(1) o] by blast
qed

lemma poke_end_at:
  assumes "ranges_fit offset capacity mem" "unat i < unat capacity"
  obtains mem' where "poke (offset + i * 2 + 1) e mem = Some mem'" "ranges_fit offset capacity mem'"
    "same_outside (range_region (unat offset) (unat capacity)) mem mem'"
    "range_window mem' (unat offset) (unat capacity) = (range_window mem (unat offset) (unat capacity))
      [unat i := (range_window mem (unat offset) (unat capacity) ! unat i)\<lparr>rr_end := e\<rparr>]"
proof -
  let ?m = "mem[unat offset + 2 * unat i + 1 := e]"
  note a = range_address [OF assms]
  have l: "unat offset + unat capacity * 2 \<le> length mem" using assms(1) by (simp add: ranges_fit_def)
  have o: "same_outside (range_region (unat offset) (unat capacity)) mem ?m" by (rule same_outside_range [OF assms(2)]) simp
  have "poke (offset + i * 2 + 1) e mem = Some ?m" using a by (simp add: poke_def)
  then show thesis using that ranges_fit_cong [OF assms(1) o] o range_window_update(2) [OF l assms(2)] by blast
qed

subsection \<open>The three loops\<close>

text \<open>Insertion makes room behind the ranges that are not after the new one.\<close>

definition range_rank :: "tcp_receive_range \<Rightarrow> u64 \<times> u64" where
  "range_rank r = (rr_start r, rr_end r)"

lemma insertion_loop_exact:
  assumes "ranges_fit offset capacity mem" "unat k < unat capacity"
  shows "\<exists>k' mem'. insertion_loop offset start fin k mem = Some (k', mem') \<and> k' \<le> k
    \<and> ranges_fit offset capacity mem' \<and> same_outside (range_region (unat offset) (unat capacity)) mem mem'
    \<and> (let w = range_window mem (unat offset) (unat capacity); w' = range_window mem' (unat offset) (unat capacity) in
       (\<forall>i < unat capacity. i < unat k' \<or> unat k < i \<longrightarrow> w' ! i = w ! i)
       \<and> (\<forall>i. unat k' \<le> i \<longrightarrow> i < unat k \<longrightarrow> w' ! (i + 1) = w ! i \<and> (start, fin) < range_rank (w ! i))
       \<and> (0 < unat k' \<longrightarrow> range_rank (w ! (unat k' - 1)) \<le> (start, fin)))"
  using assms
proof (induction "unat k" arbitrary: k mem)
  case 0
  then have "k = 0" by (simp add: word_unat_eq_iff)
  then show ?case using 0 by (subst insertion_loop.simps) (auto simp: Let_def)
next
  case (Suc j)
  let ?o = "unat offset" and ?n = "unat capacity"
  let ?w = "range_window mem ?o ?n"
  have k0: "k \<noteq> 0" using Suc.hyps(2) by auto
  have k1: "unat (k - 1) = j" using Suc.hyps(2) by (subst unat_sub_exact) (auto simp: word_le_nat_alt)
  have jn: "unat (k - 1) < ?n" using k1 Suc by simp
  note g = get_range_at(1) [OF Suc.prems(1) jn, unfolded k1]
  show ?case
  proof (cases "range_rank (?w ! j) \<le> (start, fin)")
    case True
    then have "insertion_loop offset start fin k mem = Some (k, mem)"
      using k0 g by (subst insertion_loop.simps) (auto simp: Let_def range_rank_def)
    moreover have "unat k - 1 = j" using Suc.hyps(2) by simp
    ultimately show ?thesis using Suc.prems True by (auto simp: Let_def)
  next
    case False
    obtain mem1 where p: "put_range offset k (rr_start (?w ! j)) (rr_end (?w ! j)) mem = Some mem1"
      and f1: "ranges_fit offset capacity mem1" and o1: "same_outside (range_region ?o ?n) mem mem1"
      and w1: "range_window mem1 ?o ?n = ?w[unat k := ?w ! j]"
      using put_range_at [OF Suc.prems, of "rr_start (?w ! j)" "rr_end (?w ! j)"] unfolding own_fields by blast
    obtain k' mem' where l: "insertion_loop offset start fin (k - 1) mem1 = Some (k', mem')" and k': "k' \<le> k - 1"
      and f': "ranges_fit offset capacity mem'" and o': "same_outside (range_region ?o ?n) mem1 mem'"
      and c: "\<And>i. i < ?n \<Longrightarrow> i < unat k' \<or> j < i \<Longrightarrow> range_window mem' ?o ?n ! i = range_window mem1 ?o ?n ! i"
      and d: "\<And>i. unat k' \<le> i \<Longrightarrow> i < j \<Longrightarrow> range_window mem' ?o ?n ! (i + 1) = range_window mem1 ?o ?n ! i
        \<and> (start, fin) < range_rank (range_window mem1 ?o ?n ! i)"
      and e: "0 < unat k' \<Longrightarrow> range_rank (range_window mem1 ?o ?n ! (unat k' - 1)) \<le> (start, fin)"
      using Suc.hyps(1) [of "k - 1" mem1] k1 f1 jn by (auto simp: Let_def)
    have kk: "unat k' \<le> j" using k' k1 by (simp add: word_le_nat_alt)
    have "insertion_loop offset start fin k mem = Some (k', mem')"
      using k0 g p l False by (subst insertion_loop.simps) (auto simp: Let_def range_rank_def)
    moreover have "k' \<le> k" using kk Suc.hyps(2) by (simp add: word_le_nat_alt)
    moreover have "range_window mem' ?o ?n ! i = ?w ! i" if "i < ?n" "i < unat k' \<or> unat k < i" for i
      using c [of i] that kk Suc.hyps(2) w1 by auto
    moreover have "range_window mem' ?o ?n ! (i + 1) = ?w ! i \<and> (start, fin) < range_rank (?w ! i)"
      if "unat k' \<le> i" "i < unat k" for i
    proof (cases "i = j")
      case True
      then show ?thesis using c [of "unat k"] Suc w1 False by auto
    next
      case False
      then have "i < j" using that Suc.hyps(2) by simp
      then show ?thesis using d [OF that(1)] w1 Suc.hyps(2) by simp
    qed
    moreover have "range_rank (?w ! (unat k' - 1)) \<le> (start, fin)" if "0 < unat k'"
      using e [OF that] w1 kk Suc.hyps(2) that by simp
    ultimately show ?thesis using f' same_outside_trans [OF o1 o'] by (auto simp: Let_def)
  qed
qed

lemma take_snoc_update: "m < length w \<Longrightarrow> take (m + 1) (w[m := r]) = take m w @ [r]"
  by (simp add: take_Suc_conv_app_nth)

lemma drop_take_update: "m < i \<Longrightarrow> drop i (take n (w[m := r])) = drop i (take n w)"
  by (simp add: take_update_swap)

lemma merge_loop_exact:
  assumes "ranges_fit offset capacity mem" "unat n \<le> unat capacity" "unat index \<le> unat n" "unat merged \<le> unat index"
    and "take (unat merged) (range_window mem (unat offset) (unat capacity)) = rev acc"
  shows "\<exists>m' mem'. merge_loop offset n index merged mem = Some (m', mem')
    \<and> ranges_fit offset capacity mem' \<and> same_outside (range_region (unat offset) (unat capacity)) mem mem' \<and> unat m' \<le> unat n
    \<and> take (unat m') (range_window mem' (unat offset) (unat capacity))
      = rev (foldl merge_into acc (drop (unat index) (take (unat n) (range_window mem (unat offset) (unat capacity)))))"
  using assms(1,3-5)
proof (induction "unat n - unat index" arbitrary: index merged mem acc rule: less_induct)
  case less
  let ?o = "unat offset" and ?c = "unat capacity"
  let ?w = "\<lambda>mem. range_window mem ?o ?c"
  show ?case
  proof (cases "index < n")
    case False
    then have "unat index = unat n" using less.prems(2) by (simp add: word_less_nat_alt)
    then show ?thesis using False less.prems by (subst merge_loop.simps) auto
  next
    case True
    then have ix: "unat index < unat n" by (simp add: word_less_nat_alt)
    have i1: "unat (index + 1) = unat index + 1" using ix unat_lt [of n] by (intro unat_Suc_exact) simp
    have ic: "unat index < ?c" and mc: "unat merged < ?c" using ix less.prems(3) assms(2) by simp_all
    have lt: "unat n - unat (index + 1) < unat n - unat index" by (rule next_index_less [OF True])
    have la: "length acc = unat merged" using arg_cong [OF less.prems(4), of length] mc by simp
    define r where "r = ?w mem ! unat index"
    have dr: "drop (unat index) (take (unat n) (?w mem)) = r # drop (unat index + 1) (take (unat n) (?w mem))"
      using ix ic by (simp add: r_def Cons_nth_drop_Suc [symmetric])
    have g: "get_range offset index mem = Some (rr_start r, rr_end r)"
      using get_range_at(1) [OF less.prems(1) ic] by (simp add: r_def)
    have grow: ?thesis
      if st: "merge_loop offset n index merged mem = Option.bind (put_range offset merged (rr_start r) (rr_end r) mem)
          (merge_loop offset n (index + 1) (merged + 1))"
        and ac: "merge_into acc r = r # acc"
    proof -
      obtain mem1 where p: "put_range offset merged (rr_start r) (rr_end r) mem = Some mem1"
        and f1: "ranges_fit offset capacity mem1" and o1: "same_outside (range_region ?o ?c) mem mem1"
        and w1: "?w mem1 = (?w mem)[unat merged := r]"
        using put_range_at [OF less.prems(1) mc, of "rr_start r" "rr_end r"] unfolding own_fields by blast
      have m1: "unat (merged + 1) = unat merged + 1" using mc unat_lt [of capacity] by (intro unat_Suc_exact) simp
      have t1: "take (unat (merged + 1)) (?w mem1) = rev (r # acc)"
        unfolding w1 m1 using take_snoc_update [of "unat merged" "?w mem" r] mc less.prems(4) by simp
      have d1: "drop (unat index + 1) (take (unat n) (?w mem1)) = drop (unat index + 1) (take (unat n) (?w mem))"
        unfolding w1 using less.prems(3) by (intro drop_take_update) simp
      have "unat (index + 1) \<le> unat n" "unat (merged + 1) \<le> unat (index + 1)" using ix i1 m1 less.prems(3) by simp_all
      from less.hyps [OF lt f1 this t1] obtain m' mem' where "merge_loop offset n (index + 1) (merged + 1) mem1 = Some (m', mem')" "ranges_fit offset capacity mem'"
        "same_outside (range_region ?o ?c) mem1 mem'" "unat m' \<le> unat n"
        "take (unat m') (?w mem') = rev (foldl merge_into (r # acc) (drop (unat index + 1) (take (unat n) (?w mem1))))"
        unfolding i1 by blast
      then show ?thesis using st p ac dr d1 same_outside_trans [OF o1] by auto
    qed
    show ?thesis
    proof (cases acc)
      case Nil
      then have "merged = 0" using la by (simp add: word_unat_eq_iff)
      then show ?thesis using Nil g True by (intro grow) (subst merge_loop.simps, simp_all)
    next
      case (Cons a rest)
      then have lr: "length rest = unat merged - 1" and m0: "0 < unat merged" using la by simp_all
      then have mn: "merged \<noteq> 0" by auto
      have m1: "unat (merged - 1) = unat merged - 1" using m0 by (subst unat_sub_exact) (auto simp: word_le_nat_alt)
      have mc1: "unat (merged - 1) < ?c" using m1 mc by simp
      have a: "?w mem ! (unat merged - 1) = a"
        using arg_cong [OF less.prems(4), of "\<lambda>xs. xs ! (unat merged - 1)"] Cons m0 lr by (simp add: nth_append)
      have pe: "peek mem (offset + (merged - 1) * 2 + 1) = Some (rr_end a)"
        using get_range_at(2) [OF less.prems(1) mc1] unfolding m1 a .
      show ?thesis
      proof (cases "rr_start r \<le> rr_end a")
        case False
        then show ?thesis using Cons g pe mn True by (intro grow) (subst merge_loop.simps, simp_all)
      next
        case join: True
        let ?a = "a\<lparr>rr_end := max (rr_end a) (rr_end r)\<rparr>"
        obtain mem1 where p: "poke (offset + (merged - 1) * 2 + 1) (max (rr_end a) (rr_end r)) mem = Some mem1"
          and f1: "ranges_fit offset capacity mem1" and o1: "same_outside (range_region ?o ?c) mem mem1"
          and w1: "?w mem1 = (?w mem)[unat merged - 1 := ?a]"
          using poke_end_at [OF less.prems(1) mc1, of "max (rr_end a) (rr_end r)"] unfolding m1 a by blast
        have t1: "take (unat merged) (?w mem1) = rev (?a # rest)"
        proof -
          have "take (unat merged) (?w mem1) = (rev acc)[unat merged - 1 := ?a]"
            unfolding w1 take_update_swap less.prems(4) ..
          then show ?thesis using Cons lr by (simp add: list_update_append)
        qed
        have d1: "drop (unat index + 1) (take (unat n) (?w mem1)) = drop (unat index + 1) (take (unat n) (?w mem))"
          unfolding w1 using less.prems(3) by (intro drop_take_update) simp
        have st: "merge_loop offset n index merged mem = merge_loop offset n (index + 1) merged mem1"
          using g pe mn True join p by (subst merge_loop.simps) simp
        have "unat (index + 1) \<le> unat n" "unat merged \<le> unat (index + 1)" using ix i1 less.prems(3) by simp_all
        from less.hyps [OF lt f1 this t1] obtain m' mem' where "merge_loop offset n (index + 1) merged mem1 = Some (m', mem')" "ranges_fit offset capacity mem'"
          "same_outside (range_region ?o ?c) mem1 mem'" "unat m' \<le> unat n"
          "take (unat m') (?w mem') = rev (foldl merge_into (?a # rest) (drop (unat index + 1) (take (unat n) (?w mem1))))"
          unfolding i1 by blast
        then show ?thesis using st join Cons dr d1 same_outside_trans [OF o1] by auto
      qed
    qed
  qed
qed

lemma keep_loop_exact:
  assumes "ranges_fit offset capacity mem" "unat merged \<le> unat capacity" "unat index \<le> unat merged" "unat kept \<le> unat index"
    and "keep_ranges frontier (drop (unat index) (take (unat merged) (range_window mem (unat offset) (unat capacity)))) = (frontier', ks)"
  shows "\<exists>kept' mem'. keep_loop offset merged index kept frontier mem = Some (kept', frontier', mem')
    \<and> ranges_fit offset capacity mem' \<and> same_outside (range_region (unat offset) (unat capacity)) mem mem' \<and> unat kept' \<le> unat merged
    \<and> take (unat kept') (range_window mem' (unat offset) (unat capacity))
      = take (unat kept) (range_window mem (unat offset) (unat capacity)) @ ks"
  using assms(1,3-5)
proof (induction "unat merged - unat index" arbitrary: index kept frontier mem ks rule: less_induct)
  case less
  let ?o = "unat offset" and ?c = "unat capacity"
  let ?w = "\<lambda>mem. range_window mem ?o ?c"
  show ?case
  proof (cases "index < merged")
    case False
    then have "unat index = unat merged" using less.prems(2) by (simp add: word_less_nat_alt)
    then show ?thesis using False less.prems by (subst keep_loop.simps) auto
  next
    case True
    then have ix: "unat index < unat merged" by (simp add: word_less_nat_alt)
    have i1: "unat (index + 1) = unat index + 1" using ix unat_lt [of merged] by (intro unat_Suc_exact) simp
    have ic: "unat index < ?c" and kc: "unat kept < ?c" using ix less.prems(3) assms(2) by simp_all
    have lt: "unat merged - unat (index + 1) < unat merged - unat index" by (rule next_index_less [OF True])
    define r where "r = ?w mem ! unat index"
    have dr: "drop (unat index) (take (unat merged) (?w mem)) = r # drop (unat (index + 1)) (take (unat merged) (?w mem))"
      using ix ic by (simp add: r_def i1 Cons_nth_drop_Suc [symmetric])
    have g: "get_range offset index mem = Some (rr_start r, rr_end r)"
      using get_range_at(1) [OF less.prems(1) ic] by (simp add: r_def)
    show ?thesis
    proof (cases "rr_start r \<le> frontier")
      case absorb: True
      have st: "keep_loop offset merged index kept frontier mem = keep_loop offset merged (index + 1) kept (max frontier (rr_end r)) mem"
        using g True absorb by (subst keep_loop.simps) simp
      have kr: "keep_ranges (max frontier (rr_end r)) (drop (unat (index + 1)) (take (unat merged) (?w mem))) = (frontier', ks)"
        using less.prems(4) dr absorb by simp
      have "unat (index + 1) \<le> unat merged" "unat kept \<le> unat (index + 1)" using ix i1 less.prems(3) by simp_all
      from less.hyps [OF lt less.prems(1) this kr] st show ?thesis by simp
    next
      case False
      obtain ks' where kr: "keep_ranges frontier (drop (unat (index + 1)) (take (unat merged) (?w mem))) = (frontier', ks')"
        and ks: "ks = r # ks'"
        using less.prems(4) dr False by (auto split: prod.splits)
      obtain mem1 where p: "put_range offset kept (rr_start r) (rr_end r) mem = Some mem1"
        and f1: "ranges_fit offset capacity mem1" and o1: "same_outside (range_region ?o ?c) mem mem1"
        and w1: "?w mem1 = (?w mem)[unat kept := r]"
        using put_range_at [OF less.prems(1) kc, of "rr_start r" "rr_end r"] unfolding own_fields by blast
      have k1: "unat (kept + 1) = unat kept + 1" using kc unat_lt [of capacity] by (intro unat_Suc_exact) simp
      have t1: "take (unat (kept + 1)) (?w mem1) = take (unat kept) (?w mem) @ [r]"
        unfolding w1 k1 using take_snoc_update [of "unat kept" "?w mem" r] kc by simp
      have d1: "drop (unat (index + 1)) (take (unat merged) (?w mem1)) = drop (unat (index + 1)) (take (unat merged) (?w mem))"
        unfolding w1 i1 using less.prems(3) by (intro drop_take_update) simp
      have "unat (index + 1) \<le> unat merged" "unat (kept + 1) \<le> unat (index + 1)" using ix i1 k1 less.prems(3) by simp_all
      from less.hyps [OF lt f1 this kr [folded d1]]
      obtain kept' mem' where "keep_loop offset merged (index + 1) (kept + 1) frontier mem1 = Some (kept', frontier', mem')"
        "ranges_fit offset capacity mem'" "same_outside (range_region ?o ?c) mem1 mem'" "unat kept' \<le> unat merged"
        "take (unat kept') (?w mem') = take (unat (kept + 1)) (?w mem1) @ ks'"
        by blast
      moreover have "keep_loop offset merged index kept frontier mem = keep_loop offset merged (index + 1) (kept + 1) frontier mem1"
        using g True False p by (subst keep_loop.simps) simp
      ultimately show ?thesis using t1 ks same_outside_trans [OF o1] by auto
    qed
  qed
qed

subsection \<open>The device receives as the host does\<close>

text \<open>The row of a flow at word \<open>row\<close> and its ranges hold the state \<open>v\<close> of the host's receiver.\<close>

definition receiver_row :: "nat \<Rightarrow> u64 \<Rightarrow> u64 \<Rightarrow> words \<Rightarrow> tcp_receiver_state \<Rightarrow> bool" where
  "receiver_row row offset capacity mem v \<longleftrightarrow>
     row + 7 \<le> length mem \<and> ranges_fit offset capacity mem
     \<and> range_region (unat offset) (unat capacity) \<inter> {row..<row + 7} = {}
     \<and> mem ! (row + 3) = tr_next_expected_sequence v \<and> mem ! (row + 4) = offset \<and> mem ! (row + 5) = capacity
     \<and> unat (mem ! (row + 6)) = length (tr_out_of_order v) \<and> length (tr_out_of_order v) \<le> unat capacity
     \<and> range_window mem (unat offset) (length (tr_out_of_order v)) = tr_out_of_order v"

definition receiver_words :: "nat \<Rightarrow> u64 \<Rightarrow> u64 \<Rightarrow> nat set" where
  "receiver_words row offset capacity = {row + 3, row + 6} \<union> range_region (unat offset) (unat capacity)"

lemma inserted_sorted:
  fixes ys :: "tcp_receive_range list"
  assumes "separated ys" "k \<le> length ys"
    and "\<And>i. k \<le> i \<Longrightarrow> i < length ys \<Longrightarrow> range_rank x < range_rank (ys ! i)"
    and "0 < k \<Longrightarrow> range_rank (ys ! (k - 1)) \<le> range_rank x"
  shows "sort_key (\<lambda>rng. (rr_start rng, rr_end rng)) (ys @ [x]) = take k ys @ x # drop k ys"
proof (rule sort_key_inj_key_eq)
  have "mset (take k ys) + mset (drop k ys) = mset ys" by (metis append_take_drop_id mset_append)
  then show "mset (ys @ [x]) = mset (take k ys @ x # drop k ys)" by simp
  show "inj_on (\<lambda>rng. (rr_start rng, rr_end rng)) (set (ys @ [x]))" by (rule inj_onI) simp
  have s: "range_rank (ys ! i) \<le> range_rank (ys ! j)" if "i < j" "j < length ys" for i j
  proof -
    have "unat (rr_end (ys ! i)) < unat (rr_start (ys ! j))" "unat (rr_start (ys ! i)) < unat (rr_end (ys ! i))"
      using assms(1) that by (auto simp: separated_def dest: sorted_wrt_nth_less)
    then show ?thesis by (simp add: range_rank_def word_less_nat_alt)
  qed
  have low: "range_rank (ys ! i) \<le> range_rank x" if "i < k" for i
  proof (cases "i = k - 1")
    case True
    then show ?thesis using assms(4) that by simp
  next
    case False
    then have "range_rank (ys ! i) \<le> range_rank (ys ! (k - 1))" using s [of i "k - 1"] that assms(2) by simp
    then show ?thesis using assms(4) that by simp
  qed
  have sorted: "sorted (map range_rank ys)" using s by (simp add: sorted_iff_nth_mono_less)
  have "sorted (map range_rank (take k ys @ x # drop k ys))"
  proof -
    have "sorted (map range_rank (take k ys))" "sorted (map range_rank (drop k ys))"
      using sorted by (simp_all add: take_map [symmetric] drop_map [symmetric] sorted_wrt_take sorted_wrt_drop)
    moreover have "\<forall>r \<in> set (take k ys). range_rank r \<le> range_rank x" using low assms(2) by (simp add: all_set_conv_all_nth)
    moreover have "\<forall>r \<in> set (drop k ys). range_rank x \<le> range_rank r" using assms(3) by (simp add: all_set_conv_all_nth order_less_imp_le)
    ultimately show ?thesis by (auto simp: sorted_append intro: order_trans)
  qed
  then show "sorted (map (\<lambda>rng. (rr_start rng, rr_end rng)) (take k ys @ x # drop k ys))" by (simp add: range_rank_def [abs_def])
qed

lemma inserted_window:
  assumes f: "ranges_fit offset capacity mem" and n: "unat n = length ys" "length ys < unat capacity"
    and w: "range_window mem (unat offset) (length ys) = ys" and s: "separated ys"
  obtains k mem1 mem2 where "insertion_loop offset start fin n mem = Some (k, mem1)" "put_range offset k start fin mem1 = Some mem2"
    "ranges_fit offset capacity mem2" "same_outside (range_region (unat offset) (unat capacity)) mem mem2"
    "take (length ys + 1) (range_window mem2 (unat offset) (unat capacity))
      = sort_key (\<lambda>rng. (rr_start rng, rr_end rng)) (ys @ [\<lparr>rr_start = start, rr_end = fin\<rparr>])"
proof -
  let ?o = "unat offset" and ?c = "unat capacity" and ?x = "\<lparr>rr_start = start, rr_end = fin\<rparr>"
  have y: "range_window mem ?o ?c ! i = ys ! i" if "i < length ys" for i
    using arg_cong [OF w, of "\<lambda>xs. xs ! i"] that n(2) by (simp add: range_window_nth)
  have x: "range_rank ?x = (start, fin)" by (simp add: range_rank_def)
  obtain k mem1 where l: "insertion_loop offset start fin n mem = Some (k, mem1)" and kn: "k \<le> n"
    and f1: "ranges_fit offset capacity mem1" and o1: "same_outside (range_region ?o ?c) mem mem1"
    and a: "\<And>i. i < ?c \<Longrightarrow> i < unat k \<Longrightarrow> range_window mem1 ?o ?c ! i = range_window mem ?o ?c ! i"
    and b: "\<And>i. unat k \<le> i \<Longrightarrow> i < length ys \<Longrightarrow> range_window mem1 ?o ?c ! (i + 1) = range_window mem ?o ?c ! i
      \<and> (start, fin) < range_rank (range_window mem ?o ?c ! i)"
    and e: "0 < unat k \<Longrightarrow> range_rank (range_window mem ?o ?c ! (unat k - 1)) \<le> (start, fin)"
    using insertion_loop_exact [OF f, of n start fin] n by (auto simp: Let_def)
  have kl: "unat k \<le> length ys" using kn n(1) by (simp add: word_le_nat_alt)
  have kc: "unat k < ?c" using kl n(2) by simp
  obtain mem2 where p: "put_range offset k start fin mem1 = Some mem2" and f2: "ranges_fit offset capacity mem2"
    and o2: "same_outside (range_region ?o ?c) mem1 mem2" and w2: "range_window mem2 ?o ?c = (range_window mem1 ?o ?c)[unat k := ?x]"
    by (rule put_range_at [OF f1 kc])
  have "sort_key (\<lambda>rng. (rr_start rng, rr_end rng)) (ys @ [?x]) = take (unat k) ys @ ?x # drop (unat k) ys"
    using b e y kl x by (intro inserted_sorted [OF s kl]) auto
  moreover have "take (length ys + 1) (range_window mem2 ?o ?c) = take (unat k) ys @ ?x # drop (unat k) ys"
  proof (rule nth_equalityI)
    show "length (take (length ys + 1) (range_window mem2 ?o ?c)) = length (take (unat k) ys @ ?x # drop (unat k) ys)"
      using kl n(2) by simp
    fix i assume "i < length (take (length ys + 1) (range_window mem2 ?o ?c))"
    then have i: "i < length ys + 1" by simp
    consider "i < unat k" | "i = unat k" | "unat k < i" by linarith
    then show "take (length ys + 1) (range_window mem2 ?o ?c) ! i = (take (unat k) ys @ ?x # drop (unat k) ys) ! i"
    proof cases
      case 3
      then have "range_window mem1 ?o ?c ! (i - 1 + 1) = ys ! (i - 1)" using b [of "i - 1"] y [of "i - 1"] i by simp
      then show ?thesis using 3 i kl by (simp add: w2 nth_append nth_Cons')
    qed (use i kl kc a y w2 in \<open>simp_all add: nth_append\<close>)
  qed
  ultimately show thesis using that l p f2 same_outside_trans [OF o1 o2] by simp
qed

lemma row_words:
  assumes "receiver_row row offset capacity mem v" "unat w = row"
  shows "peek mem (w + 3) = Some (tr_next_expected_sequence v)" "peek mem (w + 4) = Some offset" "peek mem (w + 5) = Some capacity"
    "peek mem (w + 6) = Some (mem ! (row + 6))" "unat (w + 3) = row + 3" "unat (w + 6) = row + 6"
proof -
  have b: "row + 7 \<le> length mem" "length mem < 2 ^ 64" using assms(1) by (auto simp: receiver_row_def ranges_fit_def)
  then have a: "unat (w + 3) = row + 3" "unat (w + 4) = row + 4" "unat (w + 5) = row + 5" "unat (w + 6) = row + 6"
    using assms(2) unat_add_exact [of w 3] unat_add_exact [of w 4] unat_add_exact [of w 5] unat_add_exact [of w 6] by simp_all
  then show "peek mem (w + 3) = Some (tr_next_expected_sequence v)" "peek mem (w + 4) = Some offset" "peek mem (w + 5) = Some capacity"
    "peek mem (w + 6) = Some (mem ! (row + 6))" "unat (w + 3) = row + 3" "unat (w + 6) = row + 6"
    using assms(1) b by (simp_all add: peek_def receiver_row_def)
qed

lemma row_outside:
  assumes "receiver_row row offset capacity mem v" "same_outside (range_region (unat offset) (unat capacity)) mem mem'" "k < 7"
  shows "mem' ! (row + k) = mem ! (row + k)"
proof -
  have "row + k \<in> {row..<row + 7}" using assms(3) by simp
  moreover have "range_region (unat offset) (unat capacity) \<inter> {row..<row + 7} = {}" "row + 7 \<le> length mem"
    using assms(1) by (auto simp: receiver_row_def)
  ultimately have "row + k \<notin> range_region (unat offset) (unat capacity)" by blast
  then show ?thesis using assms(2,3) \<open>row + 7 \<le> length mem\<close> by (simp add: same_outside_def)
qed

lemma range_window_cong:
  assumes "same_outside s mem mem'" "range_region off n \<inter> s = {}" "off + n * 2 \<le> length mem"
  shows "range_window mem' off n = range_window mem off n"
proof (rule nth_equalityI)
  fix i assume "i < length (range_window mem' off n)"
  then have i: "i < n" by simp
  then have "off + 2 * i \<in> range_region off n" "off + 2 * i + 1 \<in> range_region off n" by (auto simp: range_region_def)
  then have "off + 2 * i \<notin> s" "off + 2 * i + 1 \<notin> s" using assms(2) by blast+
  then show "range_window mem' off n ! i = range_window mem off n ! i"
    using assms(1,3) i by (simp add: same_outside_def range_window_nth)
qed simp

lemma device_receive_step:
  assumes row: "receiver_row row offset capacity mem v" and w: "unat (receiver_base + flow * 7) = row" and inv: "receiver_inv v"
  shows "if fin \<le> start \<or> fin \<le> tr_next_expected_sequence v
      then tcp_receive_range_device receiver_base flow start fin mem = Some (Inr mem)
      else if unat capacity \<le> length (tr_out_of_order v)
      then tcp_receive_range_device receiver_base flow start fin mem = Some (Inl (CapacityFault 11 flow capacity (capacity + 1)))
      else (\<exists>mem'. tcp_receive_range_device receiver_base flow start fin mem = Some (Inr mem')
        \<and> receiver_row row offset capacity mem' (tcp_receive_range_step v start fin)
        \<and> same_outside (receiver_words row offset capacity) mem mem')"
proof -
  let ?w = "receiver_base + flow * 7" and ?n = "mem ! (row + 6)" and ?o = "unat offset" and ?c = "unat capacity"
  let ?f = "tr_next_expected_sequence v" and ?ys = "tr_out_of_order v"
  note pk = row_words [OF row w]
  have n: "unat ?n = length ?ys" "length ?ys \<le> ?c" and fit: "ranges_fit offset capacity mem"
    and win: "range_window mem ?o (length ?ys) = ?ys" and dis: "range_region ?o ?c \<inter> {row..<row + 7} = {}"
    using row by (auto simp: receiver_row_def)
  show ?thesis
  proof (cases "fin \<le> start \<or> fin \<le> ?f")
    case True
    then show ?thesis using pk(1) by (auto simp: tcp_receive_range_device_def Let_def)
  next
    case new: False
    show ?thesis
    proof (cases "?c \<le> length ?ys")
      case True
      then have "?n = capacity" using n by (simp add: word_unat_eq_iff)
      then show ?thesis using new True pk by (simp add: tcp_receive_range_device_def Let_def)
    next
      case False
      have n1: "unat (?n + 1) = length ?ys + 1" using False n unat_lt [of capacity] by (subst unat_Suc_exact) simp_all
      obtain k mem1 mem2 where s1: "insertion_loop offset start fin ?n mem = Some (k, mem1)" "put_range offset k start fin mem1 = Some mem2"
        and f2: "ranges_fit offset capacity mem2" and o2: "same_outside (range_region ?o ?c) mem mem2"
        and w2: "take (unat (?n + 1)) (range_window mem2 ?o ?c)
          = sort_key (\<lambda>rng. (rr_start rng, rr_end rng)) (?ys @ [\<lparr>rr_start = start, rr_end = fin\<rparr>])"
        using inserted_window [OF fit n(1) _ win, of start fin] inv False unfolding n1 receiver_inv_def by auto
      have "unat (?n + 1) \<le> ?c" "unat (0 :: u64) \<le> unat (?n + 1)" "unat (0 :: u64) \<le> unat (0 :: u64)"
        "take (unat (0 :: u64)) (range_window mem2 ?o ?c) = rev []"
        using n1 False by simp_all
      from merge_loop_exact [OF f2 this] obtain m mem3 where s3: "merge_loop offset (?n + 1) 0 0 mem2 = Some (m, mem3)"
        and f3: "ranges_fit offset capacity mem3" and o3: "same_outside (range_region ?o ?c) mem2 mem3" and m: "unat m \<le> unat (?n + 1)"
        and w3: "take (unat m) (range_window mem3 ?o ?c) = merge_ranges (take (unat (?n + 1)) (range_window mem2 ?o ?c))"
        by (auto simp: merge_ranges_def)
      obtain f' ks where kr: "keep_ranges ?f (take (unat m) (range_window mem3 ?o ?c)) = (f', ks)" by fastforce
      have "unat m \<le> ?c" "unat (0 :: u64) \<le> unat m" "unat (0 :: u64) \<le> unat (0 :: u64)"
        "keep_ranges ?f (drop (unat (0 :: u64)) (take (unat m) (range_window mem3 ?o ?c))) = (f', ks)"
        using m n1 False kr by simp_all
      from keep_loop_exact [OF f3 this] obtain kept mem4 where s4: "keep_loop offset m 0 0 ?f mem3 = Some (kept, f', mem4)"
        and f4: "ranges_fit offset capacity mem4" and o4: "same_outside (range_region ?o ?c) mem3 mem4" and kc: "unat kept \<le> unat m"
        and w4: "take (unat kept) (range_window mem4 ?o ?c) = ks"
        by auto
      note o = same_outside_trans [OF same_outside_trans [OF o2 o3] o4]
      let ?m5 = "mem4[row + 3 := f']" and ?m6 = "mem4[row + 3 := f', row + 6 := kept]"
      have len: "length mem4 = length mem" "row + 7 \<le> length mem" using o row by (auto simp: same_outside_def receiver_row_def)
      have res: "tcp_receive_range_device receiver_base flow start fin mem = Some (Inr ?m6)"
        using new False pk s1 s3 s4 n len by (simp add: tcp_receive_range_device_def Let_def poke_def word_le_nat_alt)
      have v': "tcp_receive_range_step v start fin = v\<lparr>tr_next_expected_sequence := f', tr_out_of_order := ks\<rparr>"
        using new kr unfolding w3 w2 by (simp add: tcp_receive_range_step_def Let_def)
      have kl: "unat kept \<le> ?c" "length ks = unat kept" using arg_cong [OF w4, of length] kc m n1 False by simp_all
      have o6: "same_outside {row..<row + 7} mem4 ?m6" by (auto simp: same_outside_def nth_list_update)
      have "range_region ?o (unat kept) \<inter> {row..<row + 7} = {}" "?o + unat kept * 2 \<le> length mem4"
        using dis kl f4 by (auto simp: range_region_def ranges_fit_def)
      from range_window_cong [OF o6 this] have "range_window ?m6 ?o (length ks) = ks"
        using w4 kl take_range_window [of "unat kept" ?c mem4 ?o] by simp
      moreover have "ranges_fit offset capacity ?m6" using f4 by (simp add: ranges_fit_def)
      ultimately have "receiver_row row offset capacity ?m6 (tcp_receive_range_step v start fin)"
        using row len kl row_outside [OF row o, of 4] row_outside [OF row o, of 5] by (simp add: receiver_row_def v')
      moreover have "same_outside (receiver_words row offset capacity) mem ?m6"
      proof (rule same_outside_trans)
        show "same_outside (receiver_words row offset capacity) mem mem4"
          by (rule same_outside_mono [OF o]) (auto simp: receiver_words_def)
        show "same_outside (receiver_words row offset capacity) mem4 ?m6"
          by (auto simp: same_outside_def receiver_words_def nth_list_update)
      qed
      ultimately show ?thesis using new False res by auto
    qed
  qed
qed

fun device_receive_all :: "u64 \<Rightarrow> u64 \<Rightarrow> (u64 \<times> u64) list \<Rightarrow> words \<Rightarrow> (kernel_error + words) option" where
  "device_receive_all receiver_base flow [] mem = Some (Inr mem)"
| "device_receive_all receiver_base flow ((start, fin) # segments) mem =
     Option.bind (tcp_receive_range_device receiver_base flow start fin mem) (\<lambda>r.
     case r of Inl e \<Rightarrow> Some (Inl e) | Inr mem \<Rightarrow> device_receive_all receiver_base flow segments mem)"

text \<open>
  C15. The device receives as the host does.  Over any history of arriving segments, the kernel either
  ends in a memory that holds the host's receiver after the same segments, having written no word but
  the flow's frontier, its count and its ranges, or reports a full range arena, and then after some
  earlier segment the host held as many ranges as the arena has room for.  It never addresses a word
  outside the memory.
\<close>

theorem device_receiver_exact:
  assumes "receiver_row row offset capacity mem v" "unat (receiver_base + flow * 7) = row" "receiver_inv v"
  shows "case device_receive_all receiver_base flow segments mem of
      None \<Rightarrow> False
    | Some (Inl e) \<Rightarrow> e = CapacityFault 11 flow capacity (capacity + 1)
        \<and> (\<exists>k < length segments. length (tr_out_of_order (receive_all (take k segments) v)) = unat capacity)
    | Some (Inr mem') \<Rightarrow> receiver_row row offset capacity mem' (receive_all segments v)
        \<and> same_outside (receiver_words row offset capacity) mem mem'"
  using assms
proof (induction segments arbitrary: mem v)
  case Nil
  then show ?case by (simp add: receive_all_def)
next
  case (Cons seg segments)
  obtain start fin where seg: "seg = (start, fin)" by (cases seg)
  let ?v = "tcp_receive_range_step v start fin"
  have all: "receive_all (seg # xs) v = receive_all xs ?v" for xs by (simp add: receive_all_def seg)
  have cap: "length (tr_out_of_order v) \<le> unat capacity" using Cons.prems(1) by (simp add: receiver_row_def)
  note step = device_receive_step [OF Cons.prems, of fin start]
  show ?case
  proof (cases "(fin \<le> start \<or> fin \<le> tr_next_expected_sequence v) \<or> \<not> unat capacity \<le> length (tr_out_of_order v)")
    case False
    then have "tcp_receive_range_device receiver_base flow start fin mem = Some (Inl (CapacityFault 11 flow capacity (capacity + 1)))"
      using step by simp
    moreover have "length (tr_out_of_order (receive_all (take 0 (seg # segments)) v)) = unat capacity"
      using False cap by (simp add: receive_all_def)
    ultimately show ?thesis by (auto simp: seg simp del: take_0 intro!: exI [of _ 0])
  next
    case True
    have "\<exists>mem1. tcp_receive_range_device receiver_base flow start fin mem = Some (Inr mem1)
      \<and> receiver_row row offset capacity mem1 ?v \<and> same_outside (receiver_words row offset capacity) mem mem1"
    proof (cases "fin \<le> start \<or> fin \<le> tr_next_expected_sequence v")
      case True
      then show ?thesis using step Cons.prems(1) by (simp add: tcp_receive_range_step_def)
    next
      case False
      then show ?thesis using step True by simp
    qed
    then obtain mem1 where m1: "tcp_receive_range_device receiver_base flow start fin mem = Some (Inr mem1)"
      and r1: "receiver_row row offset capacity mem1 ?v" and o1: "same_outside (receiver_words row offset capacity) mem mem1"
      by blast
    have e: "device_receive_all receiver_base flow (seg # segments) mem = device_receive_all receiver_base flow segments mem1"
      using m1 by (simp add: seg)
    have inv: "receiver_inv ?v" by (rule tcp_receive_range_step_spec(1) [OF Cons.prems(3)])
    have longer: "\<exists>k < length (seg # segments). length (tr_out_of_order (receive_all (take k (seg # segments)) v)) = unat capacity"
      if "k < length segments" "length (tr_out_of_order (receive_all (take k segments) ?v)) = unat capacity" for k
      using that all by (intro exI [of _ "k + 1"]) simp
    from Cons.IH [OF r1 Cons.prems(2) inv] show ?thesis
      unfolding e all using longer same_outside_trans [OF o1] by (auto split: option.splits sum.splits)
  qed
qed

text \<open>A segment beyond the frontier, then the bytes before it.\<close>

theorem device_receiver_exact_witness:
  "\<exists>mem'. device_receive_all 0 0 [(1000, 1500), (0, 1000)] [0, 0, 0, 0, 7, 2, 0, 0, 0, 0, 0] = Some (Inr mem')
    \<and> receiver_row 0 7 2 mem' (receive_all [(1000, 1500), (0, 1000)] (tcp_receiver_new 0 64))"
proof -
  let ?segs = "[(1000, 1500), (0, 1000)] :: (u64 \<times> u64) list" and ?v = "tcp_receiver_new 0 64"
  let ?mem = "[0, 0, 0, 0, 7, 2, 0, 0, 0, 0, 0] :: words"
  have row: "receiver_row 0 7 2 ?mem ?v"
    by (auto simp: receiver_row_def tcp_receiver_new_def ranges_fit_def range_region_def range_window_def)
  have inv: "receiver_inv ?v" by (simp add: receiver_inv_def tcp_receiver_new_def separated_def)
  have len: "length (tr_out_of_order (receive_all (take 0 ?segs) ?v)) = 0"
    "length (tr_out_of_order (receive_all (take 1 ?segs) ?v)) = 1"
    by (simp_all add: receive_all_def tcp_receiver_new_def tcp_receive_range_step_def merge_ranges_def)
  have "length (tr_out_of_order (receive_all (take k ?segs) ?v)) \<noteq> unat (2 :: u64)" if "k < length ?segs" for k
  proof -
    have "k = 0 \<or> k = 1" using that by auto
    then show ?thesis using len by (elim disjE) simp_all
  qed
  then have "\<not> (\<exists>k < length ?segs. length (tr_out_of_order (receive_all (take k ?segs) ?v)) = unat (2 :: u64))" by blast
  with device_receiver_exact [OF row _ inv, of 0 0 ?segs] show ?thesis by (auto split: option.splits sum.splits)
qed

end
