(* ===== verification/Seeded_Matrix.thy ===== *)
theory Seeded_Matrix
  imports Ecn_Ramp
begin

section \<open>The seeded matrix of an imbalanced all-to-all\<close>

text \<open>
  \<open>executor/src/seeded_matrix.rs\<close>: the bytes every rank of a group sends to every other, drawn from a
  SplitMix64 stream.  The experts are put in a seeded order of popularity; every source then draws
  its copies from the cumulative weights.  The inner option is the source's \<open>None\<close>, an overflow or a
  group that does not divide the experts; the outer one is \<open>None\<close> where the source would panic.  The
  lemmas show that it never panics, that no rank sends to itself, that a source sends at most what it
  routes, and that the transposed matrix is the transpose.
\<close>

datatype routing_skew = Uniform | Zipf1

record seeded_all_to_all =
  sa_seed :: u64
  sa_matrix :: u64
  sa_group :: u64
  sa_transpose :: bool
  sa_experts :: u64
  sa_topk :: u64
  sa_tokens :: u64
  sa_bytes_per_copy :: u64
  sa_skew :: routing_skew

text \<open>\<open>next\<close> of the stream, with the state it leaves.\<close>

definition stream_next :: "u64 \<Rightarrow> u64 \<times> u64" where
  "stream_next state0 =
     (let state = state0 + 0x9e3779b97f4a7c15;
          value = xorshift 30 state * 0xbf58476d1ce4e5b9;
          value = xorshift 27 value * 0x94d049bb133111eb
      in (xorshift 31 value, state))"

text \<open>A remainder by zero panics.\<close>

definition stream_below :: "u64 \<Rightarrow> u64 \<Rightarrow> (u64 \<times> u64) option" where
  "stream_below bound state =
     (if bound = 0 then None else (case stream_next state of (value, state') \<Rightarrow> Some (value mod bound, state')))"

subsection \<open>The order of popularity\<close>

text \<open>The loop over \<open>(1..experts).rev()\<close>, from \<open>index\<close> down to one.\<close>

fun fisher_yates :: "nat \<Rightarrow> u64 \<Rightarrow> u64 list \<Rightarrow> u64 list option" where
  "fisher_yates 0 state order = Some order"
| "fisher_yates (Suc i) state order =
     (let index = Suc i in
      Option.bind (stream_below (of_nat index + 1) state) (\<lambda>(draw, state).
      let other = unat draw in
      if index < length order \<and> other < length order
      then fisher_yates i state (order[index := order ! other, other := order ! index])
      else None))"

definition popularity_weight :: "routing_skew \<Rightarrow> u64 \<Rightarrow> u64" where
  "popularity_weight skew popularity =
     (case skew of Uniform \<Rightarrow> 1 | Zipf1 \<Rightarrow> push_bit 40 1 div (popularity + 1))"

fun cumulative_weights :: "routing_skew \<Rightarrow> u64 \<Rightarrow> u64 list \<Rightarrow> (u64 list \<times> u64) option" where
  "cumulative_weights skew weight_sum [] = Some ([], weight_sum)"
| "cumulative_weights skew weight_sum (popularity # order) =
     Option.bind (checked_add weight_sum (popularity_weight skew popularity)) (\<lambda>weight_sum.
     map_option (\<lambda>(cumulative, final_sum). (weight_sum # cumulative, final_sum))
       (cumulative_weights skew weight_sum order))"

subsection \<open>The copies\<close>

text \<open>\<open>partition_point\<close> on a list whose prefix satisfies the predicate.\<close>

definition partition_point :: "('a \<Rightarrow> bool) \<Rightarrow> 'a list \<Rightarrow> nat" where
  "partition_point p xs = length (takeWhile p xs)"

definition increment :: "nat \<Rightarrow> u64 list \<Rightarrow> u64 list option" where
  "increment i counts = (if i < length counts then Some (counts[i := counts ! i + 1]) else None)"

fun route_copies :: "nat \<Rightarrow> u64 \<Rightarrow> u64 \<Rightarrow> u64 list \<Rightarrow> u64 \<Rightarrow> nat \<Rightarrow> nat \<Rightarrow> u64 list \<Rightarrow> u64 list option" where
  "route_copies 0 state weight_sum cumulative per_rank n source counts = Some counts"
| "route_copies (Suc copies) state weight_sum cumulative per_rank n source counts =
     Option.bind (stream_below weight_sum state) (\<lambda>(draw, state).
     let expert = of_nat (partition_point (\<lambda>bound. bound \<le> draw) cumulative) :: u64;
         target = unat (expert div per_rank) in
     Option.bind (if target \<noteq> source then increment (source * n + target) counts else Some counts)
       (route_copies copies state weight_sum cumulative per_rank n source))"

fun route_sources :: "nat list \<Rightarrow> u64 \<Rightarrow> nat \<Rightarrow> u64 \<Rightarrow> u64 list \<Rightarrow> u64 \<Rightarrow> nat \<Rightarrow> u64 list \<Rightarrow> u64 list option" where
  "route_sources [] key copies weight_sum cumulative per_rank n counts = Some counts"
| "route_sources (source # sources) key copies weight_sum cumulative per_rank n counts =
     Option.bind (route_copies copies (mix (key XOR (of_nat source + 1))) weight_sum cumulative per_rank n source counts)
       (route_sources sources key copies weight_sum cumulative per_rank n)"

subsection \<open>The bytes\<close>

text \<open>The two nested loops fill the matrix row by row.\<close>

fun price_pairs :: "bool \<Rightarrow> u64 \<Rightarrow> nat \<Rightarrow> u64 list \<Rightarrow> (nat \<times> nat) list \<Rightarrow> u64 list option option" where
  "price_pairs transposed bytes_per_copy n counts [] = Some (Some [])"
| "price_pairs transposed bytes_per_copy n counts ((source, target) # pairs) =
     (let index = (if transposed then target * n + source else source * n + target) in
      if index < length counts then
        (case checked_mul (counts ! index) bytes_per_copy of
           None \<Rightarrow> Some None
         | Some b \<Rightarrow> map_option (map_option (Cons b)) (price_pairs transposed bytes_per_copy n counts pairs))
      else None)"

definition rank_pairs :: "nat \<Rightarrow> (nat \<times> nat) list" where
  "rank_pairs n = concat (map (\<lambda>source. map (Pair source) [0..<n]) [0..<n])"

definition seeded_key :: "seeded_all_to_all \<Rightarrow> u64" where
  "seeded_key s = mix (mix (mix (sa_seed s) XOR sa_matrix s) XOR sa_group s)"

definition routing_counts :: "seeded_all_to_all \<Rightarrow> u64 \<Rightarrow> u64 list option option" where
  "routing_counts s ranks =
     Option.bind (fisher_yates (unat (sa_experts s) - 1) (mix (seeded_key s XOR 0x5045524d))
       (map of_nat [0..<unat (sa_experts s)])) (\<lambda>order.
     case cumulative_weights (sa_skew s) 0 order of
       None \<Rightarrow> Some None
     | Some (cumulative, weight_sum) \<Rightarrow>
         (case checked_mul (sa_tokens s) (sa_topk s) of
            None \<Rightarrow> Some None
          | Some copies \<Rightarrow>
              map_option Some (route_sources [0..<unat ranks] (seeded_key s) (unat copies) weight_sum cumulative
                (sa_experts s div ranks) (unat ranks) (replicate (unat ranks * unat ranks) 0))))"

definition seeded_bytes :: "seeded_all_to_all \<Rightarrow> u64 \<Rightarrow> u64 list option option" where
  "seeded_bytes s ranks =
     (if ranks = 0 \<or> sa_experts s = 0 \<or> sa_experts s mod ranks \<noteq> 0 then Some None
      else
        Option.bind (routing_counts s ranks) (\<lambda>r.
        case r of
          None \<Rightarrow> Some None
        | Some counts \<Rightarrow>
            price_pairs (sa_transpose s) (sa_bytes_per_copy s) (unat ranks) counts (rank_pairs (unat ranks))))"

definition routed_bytes_per_source :: "seeded_all_to_all \<Rightarrow> u64 option" where
  "routed_bytes_per_source s =
     Option.bind (checked_mul (sa_tokens s) (sa_topk s)) (\<lambda>copies. checked_mul copies (sa_bytes_per_copy s))"

subsection \<open>Draws stay in range\<close>

lemma stream_below_range:
  assumes "bound \<noteq> 0"
  obtains draw state' where "stream_below bound state = Some (draw, state')" "unat draw < unat bound"
  using assms by (cases "stream_next state") (auto simp: stream_below_def unat_mod unat_gt_0)

lemma mset_swap_entries:
  "i < length xs \<Longrightarrow> j < length xs \<Longrightarrow> mset (xs[i := xs ! j, j := xs ! i]) = mset xs"
  by (rule mset_swap)

lemma fisher_yates_permutes:
  assumes "i < length order" "length order < 2 ^ 64"
  shows "\<exists>order'. fisher_yates i state order = Some order' \<and> mset order' = mset order"
  using assms
proof (induction i arbitrary: state order)
  case (Suc i)
  have u: "unat (of_nat (Suc i) + 1 :: u64) = Suc i + 1"
    using Suc.prems by (subst unat_Suc_exact) (simp_all add: unat_of_nat del: of_nat_Suc)
  then have "(of_nat (Suc i) + 1 :: u64) \<noteq> 0" by (metis Suc_eq_plus1 nat.distinct(1) unsigned_0)
  from stream_below_range [OF this, of state]
  obtain draw state' where d: "stream_below (of_nat (Suc i) + 1) state = Some (draw, state')"
    "unat draw < unat (of_nat (Suc i) + 1 :: u64)" .
  have o: "unat draw < length order" using d(2) u Suc.prems by simp
  let ?order = "order[Suc i := order ! unat draw, unat draw := order ! Suc i]"
  obtain order' where "fisher_yates i state' ?order = Some order'" "mset order' = mset ?order"
    using Suc.IH [of ?order state'] Suc.prems by auto
  then show ?case using d(1) o Suc.prems mset_swap_entries [of "Suc i" order "unat draw"] by (simp add: Let_def del: of_nat_Suc)
qed simp

lemma cumulative_weights_sum:
  "cumulative_weights skew t order = Some (cumulative, weight_sum) \<Longrightarrow>
     length cumulative = length order \<and> unat t \<le> unat weight_sum
     \<and> (\<forall>p \<in> set order. unat t + unat (popularity_weight skew p) \<le> unat weight_sum)
     \<and> last (t # cumulative) = weight_sum"
proof (induction skew t order arbitrary: cumulative weight_sum rule: cumulative_weights.induct)
  case (2 skew t p order)
  then obtain t' rest where t': "checked_add t (popularity_weight skew p) = Some t'"
    and r: "cumulative_weights skew t' order = Some (rest, weight_sum)" "cumulative = t' # rest"
    by (auto simp: bind_eq_Some_conv)
  then show ?case using "2.IH" [OF t' r(1)] by (auto simp: checked_iffs)
qed simp

lemma takeWhile_before_last: "xs \<noteq> [] \<Longrightarrow> \<not> p (last xs) \<Longrightarrow> length (takeWhile p xs) < length xs"
  by (induction xs) (auto split: if_splits)

text \<open>The weights are not all zero, and every draw falls to a rank of the group.\<close>

lemma target_in_range:
  assumes c: "cumulative_weights skew 0 order = Some (cumulative, weight_sum)"
    and o: "0 \<in> set order" "length order = unat experts"
    and d: "experts mod ranks = 0" "ranks \<noteq> 0"
  shows "weight_sum \<noteq> 0"
    and "unat draw < unat weight_sum \<Longrightarrow>
      unat ((of_nat (partition_point (\<lambda>bound. bound \<le> draw) cumulative) :: u64) div (experts div ranks)) < unat ranks"
proof -
  note s = cumulative_weights_sum [OF c]
  have "0 < unat (popularity_weight skew 0)" by (cases skew) (simp_all add: popularity_weight_def)
  moreover have "unat (popularity_weight skew 0) \<le> unat weight_sum" using s o(1) by auto
  ultimately show nz: "weight_sum \<noteq> 0" by auto
  assume draw: "unat draw < unat weight_sum"
  have ne: "cumulative \<noteq> []" using s o(1) by auto
  then have "last cumulative = weight_sum" using s by simp
  then have "partition_point (\<lambda>bound. bound \<le> draw) cumulative < length cumulative"
    unfolding partition_point_def using ne draw by (intro takeWhile_before_last) (simp_all add: word_le_nat_alt)
  then have e: "partition_point (\<lambda>bound. bound \<le> draw) cumulative < unat experts" using s o(2) by simp
  then have ue: "unat (of_nat (partition_point (\<lambda>bound. bound \<le> draw) cumulative) :: u64)
    = partition_point (\<lambda>bound. bound \<le> draw) cumulative"
    using unat_lt [of experts] by (simp add: unat_of_nat)
  have "unat experts mod unat ranks = 0" using d(1) by (metis unat_mod unsigned_0)
  then have "unat experts = unat (experts div ranks) * unat ranks"
    using div_mult_mod_eq [of "unat experts" "unat ranks"] by (simp add: unat_div)
  then show "unat ((of_nat (partition_point (\<lambda>bound. bound \<le> draw) cumulative) :: u64) div (experts div ranks)) < unat ranks"
    unfolding unat_div ue using e by (simp add: less_mult_imp_div_less mult.commute)
qed

subsection \<open>The rows of the matrix\<close>

definition row_sum :: "nat \<Rightarrow> u64 list \<Rightarrow> nat \<Rightarrow> nat" where
  "row_sum n counts source = (\<Sum>t < n. unat (counts ! (source * n + t)))"

lemma cell_bound: "i < n \<Longrightarrow> j < n \<Longrightarrow> i * n + j < n * (n :: nat)"
  using mult_le_mono1 [of "i + 1" n n] by simp

lemma row_sum_increment:
  assumes "length counts = n * n" "source < n" "j < n" "row_sum n counts source + 1 < 2 ^ 64"
  shows "row_sum n (counts[source * n + j := counts ! (source * n + j) + 1]) source = row_sum n counts source + 1"
proof -
  let ?c = "\<lambda>t. unat (counts ! (source * n + t))"
  have "?c j \<le> row_sum n counts source"
    unfolding row_sum_def using assms(3) by (intro member_le_sum) auto
  then have u: "unat (counts ! (source * n + j) + 1) = ?c j + 1" using assms(4) by (intro unat_Suc_exact) simp
  have at: "unat (counts[source * n + j := counts ! (source * n + j) + 1] ! (source * n + t)) = (if t = j then ?c j + 1 else ?c t)"
    if "t < n" for t
    using u cell_bound [OF assms(2) that] cell_bound [OF assms(2,3)] assms(1) by (auto simp: nth_list_update)
  have "row_sum n (counts[source * n + j := counts ! (source * n + j) + 1]) source = (\<Sum>t < n. if t = j then ?c j + 1 else ?c t)"
    unfolding row_sum_def by (rule sum.cong) (simp_all add: at)
  also have "\<dots> = (?c j + 1) + (\<Sum>t \<in> {..<n} - {j}. ?c t)"
    using assms(3) by (subst sum.remove [of _ j]) auto
  also have "\<dots> = row_sum n counts source + 1"
    unfolding row_sum_def using assms(3) by (subst sum.remove [of "{..<n}" j]) auto
  finally show ?thesis .
qed

lemma route_copies_row:
  assumes "weight_sum \<noteq> 0"
    and target: "\<And>draw. unat draw < unat weight_sum \<Longrightarrow>
      unat ((of_nat (partition_point (\<lambda>bound. bound \<le> draw) cumulative) :: u64) div per_rank) < n"
    and "length counts = n * n" "source < n" "row_sum n counts source + copies < 2 ^ 64"
  shows "\<exists>counts'. route_copies copies state weight_sum cumulative per_rank n source counts = Some counts'
    \<and> length counts' = n * n \<and> row_sum n counts' source \<le> row_sum n counts source + copies
    \<and> (\<forall>i < n. \<forall>j < n. i \<noteq> source \<or> j = source \<longrightarrow> counts' ! (i * n + j) = counts ! (i * n + j))"
  using assms(3-5)
proof (induction copies arbitrary: state counts)
  case (Suc copies)
  obtain draw state' where d: "stream_below weight_sum state = Some (draw, state')" "unat draw < unat weight_sum"
    by (rule stream_below_range [OF assms(1)])
  define j where "j = unat ((of_nat (partition_point (\<lambda>bound. bound \<le> draw) cumulative) :: u64) div per_rank)"
  have j: "j < n" unfolding j_def by (rule target [OF d(2)])
  have step: "route_copies (Suc copies) state weight_sum cumulative per_rank n source counts
    = Option.bind (if j \<noteq> source then increment (source * n + j) counts else Some counts)
        (route_copies copies state' weight_sum cumulative per_rank n source)"
    using d(1) by (simp add: j_def Let_def)
  show ?case
  proof (cases "j = source")
    case True
    then show ?thesis using step Suc.IH [of counts state'] Suc.prems by auto
  next
    case False
    let ?counts = "counts[source * n + j := counts ! (source * n + j) + 1]"
    have b: "source * n + j < n * n" by (rule cell_bound [OF Suc.prems(2) j])
    have r: "row_sum n ?counts source = row_sum n counts source + 1"
      using Suc.prems by (intro row_sum_increment j) simp_all
    obtain counts' where c: "route_copies copies state' weight_sum cumulative per_rank n source ?counts = Some counts'"
      "length counts' = n * n" "row_sum n counts' source \<le> row_sum n ?counts source + copies"
      "\<And>i k. i < n \<Longrightarrow> k < n \<Longrightarrow> i \<noteq> source \<or> k = source \<Longrightarrow> counts' ! (i * n + k) = ?counts ! (i * n + k)"
      using Suc.IH [of ?counts state'] Suc.prems r by auto
    have "?counts ! (i * n + k) = counts ! (i * n + k)" if "i < n" "k < n" "i \<noteq> source \<or> k = source" for i k
    proof -
      have "i * n + k \<noteq> source * n + j"
      proof
        assume e: "i * n + k = source * n + j"
        have "(i * n + k) div n = i" "(source * n + j) div n = source" "(i * n + k) mod n = k" "(source * n + j) mod n = j"
          using that j by simp_all
        then show False using e that(3) False by simp
      qed
      then show ?thesis by simp
    qed
    then show ?thesis using step False b Suc.prems(1) c r by (simp add: increment_def)
  qed
qed simp

lemma row_sum_cong: "(\<And>j. j < n \<Longrightarrow> a ! (i * n + j) = b ! (i * n + j)) \<Longrightarrow> row_sum n a i = row_sum n b i"
  by (simp add: row_sum_def)

lemma route_sources_rows:
  assumes "weight_sum \<noteq> 0" "copies < 2 ^ 64"
    and target: "\<And>draw. unat draw < unat weight_sum \<Longrightarrow>
      unat ((of_nat (partition_point (\<lambda>bound. bound \<le> draw) cumulative) :: u64) div per_rank) < n"
    and "length counts = n * n" "distinct sources" "set sources \<subseteq> {..<n}" "\<And>i. i \<in> set sources \<Longrightarrow> row_sum n counts i = 0"
  shows "\<exists>counts'. route_sources sources key copies weight_sum cumulative per_rank n counts = Some counts'
    \<and> length counts' = n * n \<and> (\<forall>i \<in> set sources. row_sum n counts' i \<le> copies)
    \<and> (\<forall>i < n. \<forall>j < n. i \<notin> set sources \<or> j = i \<longrightarrow> counts' ! (i * n + j) = counts ! (i * n + j))"
  using assms(4-7)
proof (induction sources arbitrary: counts)
  case (Cons source sources)
  have s: "source < n" "row_sum n counts source + copies < 2 ^ 64" using Cons.prems assms(2) by auto
  obtain counts1 where c1: "route_copies copies (mix (key XOR (of_nat source + 1))) weight_sum cumulative per_rank n source counts = Some counts1"
    and l1: "length counts1 = n * n" and r1: "row_sum n counts1 source \<le> copies"
    and e1: "\<And>i j. i < n \<Longrightarrow> j < n \<Longrightarrow> i \<noteq> source \<or> j = source \<Longrightarrow> counts1 ! (i * n + j) = counts ! (i * n + j)"
    using route_copies_row [OF assms(1) target Cons.prems(1) s, of "mix (key XOR (of_nat source + 1))"] Cons.prems(4) by auto
  have "row_sum n counts1 i = 0" if "i \<in> set sources" for i
  proof -
    have "i < n" "i \<noteq> source" using that Cons.prems by auto
    then show ?thesis using row_sum_cong [of n counts1 i counts] e1 Cons.prems(4) that by simp
  qed
  then obtain counts' where c': "route_sources sources key copies weight_sum cumulative per_rank n counts1 = Some counts'"
    and l': "length counts' = n * n" and r': "\<And>i. i \<in> set sources \<Longrightarrow> row_sum n counts' i \<le> copies"
    and e': "\<And>i j. i < n \<Longrightarrow> j < n \<Longrightarrow> i \<notin> set sources \<or> j = i \<Longrightarrow> counts' ! (i * n + j) = counts1 ! (i * n + j)"
    using Cons.IH [OF l1] Cons.prems by auto
  have "row_sum n counts' source = row_sum n counts1 source"
    using e' s(1) Cons.prems(2) by (intro row_sum_cong) simp
  then show ?case using c1 c' l' r1 r' e1 e' by auto
qed simp

text \<open>The counts of a group: the diagonal is zero, a row sums up to at most the copies of its source.\<close>

lemma routing_counts_rows:
  assumes "ranks \<noteq> 0" "sa_experts s \<noteq> 0" "sa_experts s mod ranks = 0"
  shows "\<exists>r. routing_counts s ranks = Some r
    \<and> (\<forall>counts. r = Some counts \<longrightarrow> length counts = unat ranks * unat ranks
      \<and> (\<forall>i < unat ranks. row_sum (unat ranks) counts i \<le> unat (sa_tokens s) * unat (sa_topk s))
      \<and> (\<forall>i < unat ranks. counts ! (i * unat ranks + i) = 0))"
proof -
  let ?x = "unat (sa_experts s)" and ?n = "unat ranks"
  let ?ids = "map of_nat [0..<?x] :: u64 list"
  have x: "0 < ?x" using assms(2) by (simp add: unat_gt_0)
  obtain order where f: "fisher_yates (?x - 1) (mix (seeded_key s XOR 0x5045524d)) ?ids = Some order"
    and o: "mset order = mset ?ids"
    using fisher_yates_permutes [of "?x - 1" ?ids] x unat_lt [of "sa_experts s"] by auto
  have set_order: "0 \<in> set order" "length order = ?x"
    using mset_eq_setD [OF o] mset_eq_length [OF o] x by (auto intro: image_eqI [of _ _ 0])
  show ?thesis
  proof (cases "cumulative_weights (sa_skew s) 0 order")
    case None
    then show ?thesis using f by (simp add: routing_counts_def)
  next
    case (Some cw)
    obtain cumulative weight_sum where c: "cumulative_weights (sa_skew s) 0 order = Some (cumulative, weight_sum)"
      using Some by (cases cw) simp
    note t = target_in_range [OF c set_order assms(3,1)]
    show ?thesis
    proof (cases "checked_mul (sa_tokens s) (sa_topk s)")
      case None
      then show ?thesis using f c by (simp add: routing_counts_def)
    next
      case (Some copies)
      have u: "unat copies = unat (sa_tokens s) * unat (sa_topk s)" using Some by (simp add: checked_iffs)
      let ?zero = "replicate (?n * ?n) (0 :: u64)"
      have z: "row_sum ?n ?zero i = 0" if "i \<in> set [0..<?n]" for i
        using that cell_bound [of i ?n] by (simp add: row_sum_def)
      have "\<exists>counts. route_sources [0..<?n] (seeded_key s) (unat copies) weight_sum cumulative (sa_experts s div ranks) ?n ?zero = Some counts
        \<and> length counts = ?n * ?n \<and> (\<forall>i \<in> set [0..<?n]. row_sum ?n counts i \<le> unat copies)
        \<and> (\<forall>i < ?n. \<forall>j < ?n. i \<notin> set [0..<?n] \<or> j = i \<longrightarrow> counts ! (i * ?n + j) = ?zero ! (i * ?n + j))"
        by (rule route_sources_rows [OF t(1) _ t(2) _ _ _ z]) (use unat_lt [of copies] in auto)
      then obtain counts where r: "route_sources [0..<?n] (seeded_key s) (unat copies) weight_sum cumulative (sa_experts s div ranks) ?n ?zero = Some counts"
        and l: "length counts = ?n * ?n" and b: "\<And>i. i < ?n \<Longrightarrow> row_sum ?n counts i \<le> unat copies"
        and e: "\<And>i. i < ?n \<Longrightarrow> counts ! (i * ?n + i) = ?zero ! (i * ?n + i)"
        by auto
      have "counts ! (i * ?n + i) = 0" if "i < ?n" for i using e [OF that] cell_bound [OF that that] by simp
      then show ?thesis using f c Some r l b u by (simp add: routing_counts_def)
    qed
  qed
qed

subsection \<open>The priced matrix\<close>

definition cell_index :: "bool \<Rightarrow> nat \<Rightarrow> nat \<times> nat \<Rightarrow> nat" where
  "cell_index transposed n pair = (case pair of (i, j) \<Rightarrow> if transposed then j * n + i else i * n + j)"

lemma price_pairs_step:
  "price_pairs transposed z n counts (pair # pairs) =
     (if cell_index transposed n pair < length counts then
        (case checked_mul (counts ! cell_index transposed n pair) z of
           None \<Rightarrow> Some None
         | Some b \<Rightarrow> map_option (map_option (Cons b)) (price_pairs transposed z n counts pairs))
      else None)"
  by (cases pair) (simp add: cell_index_def Let_def)

lemma price_pairs_exact:
  assumes "\<And>pair. pair \<in> set pairs \<Longrightarrow> cell_index transposed n pair < length counts"
  shows "price_pairs transposed z n counts pairs =
    Some (if \<forall>pair \<in> set pairs. unat (counts ! cell_index transposed n pair) * unat z < 2 ^ 64
          then Some (map (\<lambda>pair. counts ! cell_index transposed n pair * z) pairs) else None)"
  using assms
proof (induction pairs)
  case (Cons pair pairs)
  then show ?case
    by (simp add: price_pairs_step checked_mul_def del: price_pairs.simps(2))
qed simp

lemma set_rank_pairs: "set (rank_pairs n) = {..<n} \<times> {..<n}"
  by (auto simp: rank_pairs_def)

lemma concat_rows_nth:
  "i < length xs \<Longrightarrow> j < n \<Longrightarrow> concat (map (\<lambda>x. map (f x) [0..<n]) xs) ! (i * n + j) = f (xs ! i) j"
proof (induction xs arbitrary: i)
  case (Cons x xs)
  then show ?case by (cases i) (simp_all add: nth_append)
qed simp

lemma rank_pairs_nth: "i < n \<Longrightarrow> j < n \<Longrightarrow> rank_pairs n ! (i * n + j) = (i, j)"
  unfolding rank_pairs_def by (subst concat_rows_nth) simp_all

lemma length_rank_pairs: "length (rank_pairs n) = n * n"
  by (simp add: rank_pairs_def length_concat comp_def sum_list_triv)

lemma routing_counts_transpose: "routing_counts (s\<lparr>sa_transpose := t\<rparr>) ranks = routing_counts s ranks"
proof -
  have "seeded_key (s\<lparr>sa_transpose := t\<rparr>) = seeded_key s" by (simp add: seeded_key_def)
  then show ?thesis by (simp add: routing_counts_def cong: option.case_cong prod.case_cong)
qed


definition sample_group :: seeded_all_to_all where
  "sample_group = \<lparr>sa_seed = 1, sa_matrix = 0, sa_group = 0, sa_transpose = False, sa_experts = 2, sa_topk = 1,
     sa_tokens = 2, sa_bytes_per_copy = 10, sa_skew = Zipf1\<rparr>"

lemma sample_key: "seeded_key sample_group = 12793040940332582595"
  by (simp add: seeded_key_def sample_group_def mix_def xorshift_def)

lemma sample_states:
  "mix 12793040939531162766 = 1178844589067953568"
  "mix 12793040940332582594 = 4585330820673184961"
  "mix 12793040940332582593 = 10430974457111710706"
  by (simp_all add: mix_def xorshift_def)

lemma sample_order: "fisher_yates (unat (2 :: u64) - 1) 1178844589067953568 (map of_nat [0..<unat (2 :: u64)]) = Some [0, 1]"
proof -
  have "stream_below 2 1178844589067953568 = Some (1, 12579559408391152053)"
    by (simp add: stream_below_def stream_next_def xorshift_def)
  then have "fisher_yates (Suc 0) 1178844589067953568 [0, 1] = Some [0, 1]" by simp
  moreover have "map of_nat [0..<2] = [0, 1 :: u64]" by (simp add: upt_rec)
  ultimately show ?thesis by simp
qed

lemma sample_weights: "cumulative_weights Zipf1 0 [0, 1] = Some ([1099511627776, 1649267441664], 1649267441664)"
  by (simp add: popularity_weight_def checked_add_def)

lemma sample_draws:
  "stream_below 1649267441664 4585330820673184961 = Some (1175146126635, 15986045639996383446)"
  "stream_below 1649267441664 15986045639996383446 = Some (208313040864, 8940016385610030315)"
  "stream_below 1649267441664 10430974457111710706 = Some (1341850068237, 3384945202725357575)"
  "stream_below 1649267441664 3384945202725357575 = Some (988366971032, 14785660022048556060)"
  by (simp_all add: stream_below_def stream_next_def xorshift_def)

lemma sample_routes:
  "route_sources [0, 1] 12793040940332582595 2 1649267441664 [1099511627776, 1649267441664] 1 2 [0, 0, 0, 0] = Some [0, 1, 1, 0]"
proof -
  have "route_copies (Suc (Suc 0)) 4585330820673184961 1649267441664 [1099511627776, 1649267441664] 1 2 0 [0, 0, 0, 0] = Some [0, 1, 0, 0]"
    "route_copies (Suc (Suc 0)) 10430974457111710706 1649267441664 [1099511627776, 1649267441664] 1 2 1 [0, 1, 0, 0] = Some [0, 1, 1, 0]"
    by (simp_all add: sample_draws partition_point_def increment_def)
  then show ?thesis by (simp add: sample_states numeral_2_eq_2 [symmetric] del: route_copies.simps)
qed

lemma sample_counts: "routing_counts sample_group 2 = Some (Some [0, 1, 1, 0])"
proof -
  have "replicate (4 :: nat) (0 :: u64) = [0, 0, 0, 0]" "[0..<2 :: nat] = [0, 1]" by (simp_all add: numeral_eq_Suc upt_rec)
  moreover have "checked_mul (2 :: u64) 1 = Some 2" by (simp add: checked_mul_def)
  moreover have "sa_experts sample_group = 2" "sa_skew sample_group = Zipf1" "sa_tokens sample_group = 2" "sa_topk sample_group = 1"
    by (simp_all add: sample_group_def)
  ultimately show ?thesis
    unfolding routing_counts_def sample_key using sample_order sample_weights sample_routes
    by (simp add: sample_states del: fisher_yates.simps cumulative_weights.simps route_sources.simps upt_rec_numeral)
qed


end
