(* ===== verification/Spec2Isabelle.thy ===== *)
theory Spec2Isabelle
  imports Run_Properties Packet_Store Round_Properties Device_Receive Seeded_Matrix
begin

text \<open>
  A verification development for the executors of the Days network simulator.

  \<^bold>\<open>The program.\<close>  Days simulates packet networks as discrete events.  A scenario compiler
  (\<open>src/src\<close>) turns topologies and workloads into a \<^emph>\<open>simulation image\<close>
  (\<open>src/executor/src/image.rs\<close>): nodes, links, channels, flows, generators, receivers, initial events
  and packets.  \<open>validate.rs\<close> checks an image, and an executor runs it.  The reference executor is
  \<open>run_scalar\<close> (\<open>scalar.rs\<close>): one future-event list, one event at a time, every transition of hosts
  and switches in one \<open>dispatch\<close>.  \<open>safe_horizon.rs\<close> runs the same transitions in rounds, one logical
  process per node; \<open>cpu.rs\<close> distributes the processes over threads, and \<open>cuda.rs\<close> and \<open>metal.rs\<close>
  with their kernels run them on a device.  All of them must produce the same result.  The handlers
  call the protocol modules: exact link times, TCP congestion control, DCQCN, RoCE queue pairs, ECN
  marking, queue disciplines, priority flow control and dependency-gated stages.

  \<^bold>\<open>Conventions.\<close>  A machine integer is a word of its width and wraps around as the source's does;
  a \<open>usize\<close> is a \<open>nat\<close>, a \<open>BigUint\<close> a \<open>nat\<close>, a \<open>Ratio<BigUint>\<close> a \<open>rat\<close>.  A struct is a record and an
  enum a datatype with the source's constructors.  \<open>Result\<close> is a sum with the error on the left;
  a \<open>BTreeMap\<close> is the list of its entries in key order (\<open>Ordered_Map\<close>); a standard \<open>BinaryHeap\<close> is its
  multiset in an unspecified layout.  A panic, an index out of range and a loop that does not return
  are the value \<open>None\<close>.  The handlers are transitions in the state monad of \<open>Exec_Monad\<close>.  Executors
  run in summary observation, the mode of \<open>run_scalar\<close>; debug assertions are not part of the code.

  \<^bold>\<open>Vocabulary.\<close>  \<open>Prelude\<close> (integers, \<open>Result\<close>), \<open>Ordered_Map\<close> (maps, locale \<open>keyed_store\<close>),
  \<open>Binary_Heap\<close> (the moves of an array heap), \<open>Word_Arena\<close> (records in a flat memory),
  \<open>Exec_Error\<close> and \<open>Exec_Monad\<close> (errors, transitions, locale \<open>state_preorder\<close>).

  \<^bold>\<open>Protocol modules.\<close>
  \<^item> \<open>Events\<close>: \<open>event.rs\<close> and the dispatch table of \<open>model.rs\<close>; keys are a linear order, payload
    identities of different nodes never collide.
  \<^item> \<open>Link_Time\<close>: \<open>time.rs\<close>; serialization and arrival times are exact or an overflow error, and a
    channel's declared delay is a sound lookahead.
  \<^item> \<open>Ecn_Ramp\<close>: \<open>splitmix.rs\<close>, \<open>ecn_ramp.rs\<close>; the mixer is a bijection, the marking decision is the
    rational comparison it documents.  \<open>Seeded_Matrix\<close>: \<open>seeded_matrix.rs\<close>; the routing matrix of an
    all-to-all is well formed.
  \<^item> \<open>Tcp_Control\<close>: \<open>tcp.rs\<close>; windows never close, CUBIC's cube root is exact, timeouts are bounded.
  \<^item> \<open>Tcp_Receive\<close>, \<open>Tcp_Ledger\<close>: \<open>tcp_receive_range\<close> of \<open>scalar.rs\<close> and \<open>tcp_ledger.rs\<close>; the receiver
    holds exactly the bytes received in any order, outstanding segments tile the unacknowledged bytes.
  \<^item> \<open>Dcqcn\<close>: \<open>dcqcn.rs\<close>; rates stay in range and lazy timers are indistinguishable from eager ones.
  \<^item> \<open>Roce\<close>: \<open>roce.rs\<close>; Go-back-N is safe over a network that loses and reorders, NACKs are spaced.
  \<^item> \<open>Schedulers\<close>, \<open>Pfc_Order\<close>: the queue disciplines and class orders of \<open>scalar.rs\<close>; selections
    return and serve, the keyed class order is a search of the queue.
  \<^item> \<open>Stage_Index\<close>, \<open>Stage_Progress\<close>: \<open>stage_index.rs\<close> and the progress of dependency-gated stages;
    keyed answers are the scans' answers.

  \<^bold>\<open>Containers.\<close>  \<open>Future_Events\<close> is \<open>fel.rs\<close> (locale \<open>event_queue\<close>, interpreted by the split list and
  by one ordered map).  \<open>Probe_Index\<close> and \<open>Packet_Store\<close> are \<open>packet_store.rs\<close>: vector, slab and
  open-addressing index, which answer every history of operations as an ordered map (locale
  \<open>packet_table\<close>, two interpretations).  \<open>Frontier_Index\<close> holds the lazy heap of \<open>safe_horizon.rs\<close> and
  the array heap of \<open>cpu.rs\<close> (locale \<open>frontier_index\<close>, two interpretations).  \<open>Radix_Order\<close> is the
  radix exchange of both files, equal to a stable sort.

  \<^bold>\<open>Executors.\<close>  \<open>Image_Types\<close> and \<open>Image_Validation\<close> are \<open>image.rs\<close>, the state of \<open>model.rs\<close> and the
  checks of \<open>validate.rs\<close> the lookups rely on.  \<open>Transition_State\<close>, \<open>Host_Service\<close>,
  \<open>Stage_Activation\<close>, \<open>Tcp_Handlers\<close>, \<open>Paced_Handlers\<close>, \<open>Roce_Handlers\<close>, \<open>Switch_Handlers\<close> and
  \<open>Scalar_Run\<close> are \<open>scalar.rs\<close>, handler by handler, up to \<open>run_scalar\<close>.  \<open>Handler_Frame\<close> proves one
  frame for every handler (a handler changes its own node only, its children are later and numbered
  by the node, stage indexes stay exact); \<open>Run_Properties\<close> lifts it to runs: a run returns, takes
  events in strictly increasing key order, never repeats a key, and may be cut at any horizon.
  \<open>Round_Executor\<close> is \<open>safe_horizon.rs\<close>, and \<open>Round_Properties\<close> shows that rounds return, take their
  events inside their window and in key order per process, and that the same-time shortcut of a drain
  changes nothing.

  \<^bold>\<open>Devices.\<close>  \<open>Device_Record\<close> is the encoding of events and packets in words (\<open>cuda.rs\<close>,
  \<open>device_event_record.rs\<close>, the stream and staging records of \<open>cuda_kernels.cu\<close>) and the heap the host
  builds in an arena; encodings round-trip.  \<open>Device_Ledger\<close> is the ring of outstanding segments a
  kernel keeps per flow, with 64-bit addresses in a finite memory; it refines \<open>Tcp_Ledger\<close> for all
  flows at once.  \<open>Device_Receive\<close> is the in-place receiver of a kernel, equal to \<open>Tcp_Receive\<close> over any
  history of segments.

  \<^bold>\<open>Termination.\<close>  Structural loops are \<open>fun\<close>, others \<open>function\<close> with a measure.  A loop the source does
  not bound is a \<open>partial_function\<close> in the option monad and is proved to return: the event loop and the
  rounds (the keys taken increase strictly in a finite key space), the DCQCN timers, both round-robin
  selections, collecting due processes.  The cube-root search of CUBIC carries a bound of 64 steps,
  one per bit of its variables, which is shown to be enough; probes of the packet index run at most
  once around the table, which always has an empty bucket.

  \<^bold>\<open>Not modelled.\<close>
  \<^item> Full observation (observed packets, departures, arrivals) and the trace modules
    \<open>mechanism_trace.rs\<close>, \<open>tcp_trace.rs\<close>, \<open>aqm_trace.rs\<close>: they write what a run did and never read it back.
  \<^item> The thread pool of \<open>cpu.rs\<close> and its per-worker shards: scheduling and locks are the operating
    system's; its array frontier and radix exchange are modelled.  That rounds and the scalar run give
    the same result is not proved here; it needs commutation of handlers across nodes with packet
    ownership, which the repository's own Lean development treats.
  \<^item> The remaining kernels of \<open>cuda_kernels.cu\<close> and \<open>metal_kernels.metal\<close>, their host drivers and the
    capacity planners (\<open>device_*.rs\<close>, \<open>stage_sizing.rs\<close>, \<open>planner_capacity.rs\<close>): device translations of
    the handlers above and estimates of memory demand.
  \<^item> The rest of \<open>validate.rs\<close>, the scenario compiler, topologies and workloads under \<open>src/src\<close>,
    which produce images but do not run them; command-line tools, benchmarks and configuration files.
  \<^item> \<open>crates/nexosim\<close>, \<open>legacy\<close> and \<open>xtask\<close>: a general simulation library with an asynchronous runtime,
    the previous simulator built on it, and build tasks.  \<open>lean\<close>: proofs in another system.
\<close>

end
